(* ===== verification/Parrot_Base.thy ===== *)
theory Parrot_Base
  imports Main "HOL-Library.Word" "HOL-Library.Monad_Syntax"
begin

text \<open>
  The prelude of the development: the C types and memory accesses that every
  component uses, and the generic lemmas they share.

  An object of C memory (an array of bytes, of buckets, of registers) is a list
  of its cells.  An access outside the object is undefined behaviour in C, and
  the model makes it visible: \<open>rd\<close> and \<open>wr\<close> return \<open>None\<close>, which every
  operation built from them propagates through the option monad.  A theorem that
  an operation returns \<open>Some\<close> is therefore a memory-safety statement too.  A
  failed \<open>PARROT_ASSERT\<close> is \<open>None\<close> as well.
\<close>

unbundle bit_operations_syntax

type_synonym u8 = "8 word"
type_synonym u16 = "16 word"
type_synonym u32 = "32 word"
type_synonym u64 = "64 word"

named_theorems mem_simps \<open>reads and writes of modelled memory\<close>

section \<open>Memory accesses\<close>

definition rd :: "'a list \<Rightarrow> nat \<Rightarrow> 'a option" where
  "rd m i = (if i < length m then Some (m ! i) else None)"

definition wr :: "'a list \<Rightarrow> nat \<Rightarrow> 'a \<Rightarrow> 'a list option" where
  "wr m i v = (if i < length m then Some (m[i := v]) else None)"

definition c_assert :: "bool \<Rightarrow> unit option" where
  "c_assert b = (if b then Some () else None)"

lemma rd_in [mem_simps, simp]: "i < length m \<Longrightarrow> rd m i = Some (m ! i)"
  by (simp add: rd_def)

lemma rd_out [mem_simps]: "length m \<le> i \<Longrightarrow> rd m i = None"
  by (simp add: rd_def)

lemma wr_in [mem_simps, simp]: "i < length m \<Longrightarrow> wr m i v = Some (m[i := v])"
  by (simp add: wr_def)

lemma wr_out [mem_simps]: "length m \<le> i \<Longrightarrow> wr m i v = None"
  by (simp add: wr_def)

lemma wr_append: "wr (xs @ y # ys) (length xs) v = Some (xs @ v # ys)"
  by (simp add: wr_def)

lemma rd_Some_iff: "rd m i = Some v \<longleftrightarrow> i < length m \<and> m ! i = v"
  by (simp add: rd_def)

lemma wr_Some_iff: "wr m i v = Some m' \<longleftrightarrow> i < length m \<and> m' = m[i := v]"
  by (auto simp: wr_def)

lemma c_assert_True [simp]: "c_assert True = Some ()"
  by (simp add: c_assert_def)

lemma c_assert_Some_iff: "c_assert b = Some u \<longleftrightarrow> b"
  by (simp add: c_assert_def)

section \<open>Loops over a list with an early failure\<close>

text \<open>
  A C \<open>for\<close> loop over a list whose body may fail: the state is threaded through
  the elements, and the first failure ends the loop.
\<close>

fun fold_opt :: "('s \<Rightarrow> 'a \<Rightarrow> 's option) \<Rightarrow> 'a list \<Rightarrow> 's \<Rightarrow> 's option" where
  "fold_opt f [] s = Some s"
| "fold_opt f (x # xs) s = do { s' \<leftarrow> f s x; fold_opt f xs s' }"

lemma fold_opt_append [simp]:
  "fold_opt f (xs @ ys) s = do { s' \<leftarrow> fold_opt f xs s; fold_opt f ys s' }"
  by (induction xs arbitrary: s) (simp_all add: bind_assoc split: Option.bind_split)

text \<open>
  The rule for such a loop: when the body succeeds from every state the invariant
  describes, the loop succeeds and the invariant holds for all elements at the end.
\<close>

lemma fold_opt_invariant:
  assumes "I [] s"
    and "\<And>ys x zs s. xs = ys @ x # zs \<Longrightarrow> I ys s \<Longrightarrow> \<exists>s'. f s x = Some s' \<and> I (ys @ [x]) s'"
  shows "\<exists>s'. fold_opt f xs s = Some s' \<and> I xs s'"
  using assms
proof (induction xs arbitrary: s rule: rev_induct)
  case Nil
  then show ?case by simp
next
  case (snoc x xs)
  have "\<exists>s'. fold_opt f xs s = Some s' \<and> I xs s'"
  proof (rule snoc.IH [OF snoc.prems(1)])
    fix ys y zs t assume "xs = ys @ y # zs" "I ys t"
    then show "\<exists>s'. f t y = Some s' \<and> I (ys @ [y]) s'"
      using snoc.prems(2) [of ys y "zs @ [x]" t] by simp
  qed
  then obtain t where t: "fold_opt f xs s = Some t" "I xs t" by blast
  from snoc.prems(2) [of xs x "[]" t] t show ?case by auto
qed

lemma fold_opt_cong_map:
  assumes "\<And>x s. x \<in> set xs \<Longrightarrow> f s x = g s (h x)"
  shows "fold_opt f xs s = fold_opt g (map h xs) s"
proof -
  have "fold_opt f xs = fold_opt g (map h xs)"
    using assms
  proof (induction xs)
    case Nil
    show ?case by (simp add: fun_eq_iff)
  next
    case (Cons x xs)
    then have "fold_opt f xs = fold_opt g (map h xs)" by simp
    then show ?case using Cons.prems by (intro ext) simp
  qed
  then show ?thesis by simp
qed

lemma those_map_Some:
  assumes "\<And>x. x \<in> set xs \<Longrightarrow> f x = Some (g x)"
  shows "those (map f xs) = Some (map g xs)"
  using assms by (induction xs) simp_all

lemma those_map_ex:
  assumes "\<And>x. x \<in> set xs \<Longrightarrow> \<exists>y. f x = Some y \<and> P x y"
  shows "\<exists>ys. those (map f xs) = Some ys \<and> length ys = length xs \<and> (\<forall>i < length xs. P (xs ! i) (ys ! i))"
  using assms
proof (induction xs)
  case Nil
  then show ?case by simp
next
  case (Cons x xs)
  obtain y where y: "f x = Some y" "P x y" using Cons.prems by auto
  obtain ys where "those (map f xs) = Some ys" "length ys = length xs"
    "\<forall>i < length xs. P (xs ! i) (ys ! i)" using Cons by auto
  then show ?case using y by (intro exI [of _ "y # ys"]) (auto simp: nth_Cons split: nat.split)
qed

lemma those_Some_iff: "those xs = Some ys \<longleftrightarrow> xs = map Some ys"
  by (induction xs arbitrary: ys) (auto split: option.splits simp: Cons_eq_map_conv)

section \<open>Exceptions\<close>

text \<open>
  An operation that may throw a Parrot exception: it is done, it has thrown, or its
  behaviour is undefined.
\<close>

datatype 'a outcome = Done 'a | Thrown string | Undefined

fun obind :: "'a outcome \<Rightarrow> ('a \<Rightarrow> 'b outcome) \<Rightarrow> 'b outcome" where
  "obind (Done x) f = f x"
| "obind (Thrown e) f = Thrown e"
| "obind Undefined f = Undefined"

fun defined :: "'a option \<Rightarrow> 'a outcome" where
  "defined (Some x) = Done x"
| "defined None = Undefined"

fun ofold :: "('s \<Rightarrow> 'a \<Rightarrow> 's outcome) \<Rightarrow> 'a list \<Rightarrow> 's \<Rightarrow> 's outcome" where
  "ofold f [] s = Done s"
| "ofold f (x # xs) s = obind (f s x) (\<lambda>s'. ofold f xs s')"

section \<open>Machine words\<close>

lemma unat_of_nat_small: "n < 2 ^ LENGTH('a) \<Longrightarrow> unat (word_of_nat n :: 'a::len word) = n"
  by (simp add: unat_of_nat)

lemma unat_of_nat_u32: "n < 2 ^ 32 \<Longrightarrow> unat (word_of_nat n :: u32) = n"
  by (rule unat_of_nat_small) simp

end
