(* ===== verification/Imcc_Sets.thy ===== *)
theory Imcc_Sets
  imports Parrot_Base
begin

text \<open>
  IMCC's register and block sets, \<open>compilers/imcc/sets.c\<close>: a bit map with a
  declared length.  The model keeps the bytes of \<open>bmp\<close> and the 32-bit length, so
  the growth in \<open>set_add\<close> and the byte loops of the binary operations are the
  code's own.
\<close>

section \<open>The type and its operations\<close>

record imc_set =
  s_length :: u32
  s_bmp :: "u8 list"

definition NUM_BYTES :: "u32 \<Rightarrow> nat" where
  "NUM_BYTES len = unat len div 8 + 1"

definition BYTE_IN_SET :: "u32 \<Rightarrow> nat" where
  "BYTE_IN_SET element = unat (drop_bit 3 element)"

definition BIT_IN_BYTE :: "u32 \<Rightarrow> u8" where
  "BIT_IN_BYTE element = push_bit (unat (element AND 7)) 1"

definition set_make :: "u32 \<Rightarrow> imc_set" where
  "set_make len = \<lparr>s_length = len, s_bmp = replicate (NUM_BYTES len) 0\<rparr>"

definition set_make_full :: "u32 \<Rightarrow> imc_set" where
  "set_make_full len = (set_make len)\<lparr>s_bmp := replicate (NUM_BYTES len) 0xFF\<rparr>"

definition set_clear :: "imc_set \<Rightarrow> imc_set option" where
  "set_clear s =
     (if NUM_BYTES (s_length s) \<le> length (s_bmp s)
      then Some (s\<lparr>s_bmp := replicate (NUM_BYTES (s_length s)) 0
                            @ drop (NUM_BYTES (s_length s)) (s_bmp s)\<rparr>)
      else None)"

definition set_copy :: "imc_set \<Rightarrow> imc_set option" where
  "set_copy s =
     (let d = set_make (s_length s); n = NUM_BYTES (s_length d)
      in if n \<le> length (s_bmp s) then Some (d\<lparr>s_bmp := take n (s_bmp s)\<rparr>) else None)"

definition set_equal :: "imc_set \<Rightarrow> imc_set \<Rightarrow> bool option" where
  "set_equal s1 s2 =
     (let bytes = unat (s_length s1) div 8
      in do {
        c_assert (s_length s1 = s_length s2);
        c_assert (bytes \<le> length (s_bmp s1) \<and> bytes \<le> length (s_bmp s2));
        if bytes \<noteq> 0 \<and> take bytes (s_bmp s1) \<noteq> take bytes (s_bmp s2) then Some False
        else if unat (s_length s1) mod 8 = 0 then Some True
        else (let mask = push_bit (unat (s_length s1) mod 8) 1 - 1
              in do {
                b1 \<leftarrow> rd (s_bmp s1) bytes;
                b2 \<leftarrow> rd (s_bmp s2) bytes;
                if b1 AND mask \<noteq> b2 AND mask then Some False else Some True
              })
      })"

text \<open>
  \<open>mem_sys_realloc_zeroed\<close> keeps the first \<open>old_size\<close> bytes and zeroes the rest
  up to \<open>size\<close>.  The bytes between the old object's end and \<open>old_size\<close> would be
  indeterminate, so an \<open>old_size\<close> beyond the object is \<open>None\<close>.
\<close>

definition mem_sys_realloc_zeroed :: "u8 list \<Rightarrow> nat \<Rightarrow> nat \<Rightarrow> u8 list option" where
  "mem_sys_realloc_zeroed from sz old_size =
     (if sz = 0 \<or> length from < min sz old_size then None
      else if old_size < sz then Some (take old_size from @ replicate (sz - old_size) 0)
      else Some (take sz from))"

definition set_add :: "imc_set \<Rightarrow> u32 \<Rightarrow> imc_set option" where
  "set_add s element =
     (let elem_byte_in_set = BYTE_IN_SET element;
          bytes_in_set = BYTE_IN_SET (s_length s)
      in do {
        s \<leftarrow> (if bytes_in_set < elem_byte_in_set
              then do {
                m \<leftarrow> mem_sys_realloc_zeroed (s_bmp s) (NUM_BYTES element) (NUM_BYTES (s_length s));
                Some (s\<lparr>s_bmp := m, s_length := s_length s + 8\<rparr>)
              }
              else Some s);
        b \<leftarrow> rd (s_bmp s) elem_byte_in_set;
        m \<leftarrow> wr (s_bmp s) elem_byte_in_set (b OR BIT_IN_BYTE element);
        Some (s\<lparr>s_bmp := m\<rparr>)
      })"

definition set_contains :: "imc_set \<Rightarrow> u32 \<Rightarrow> bool option" where
  "set_contains s element =
     (if element > s_length s then Some False
      else do {
        b \<leftarrow> rd (s_bmp s) (BYTE_IN_SET element);
        Some (b AND BIT_IN_BYTE element \<noteq> 0)
      })"

text \<open>The two nested loops of \<open>set_first_zero\<close>, over the bits of a byte and the bytes.\<close>

fun set_first_zero_bits :: "imc_set \<Rightarrow> nat \<Rightarrow> nat list \<Rightarrow> u32 option option" where
  "set_first_zero_bits s i [] = Some None"
| "set_first_zero_bits s i (j # js) =
     (let element = word_of_nat (i * 8 + j)
      in do {
        c \<leftarrow> set_contains s element;
        if \<not> c then Some (Some element) else set_first_zero_bits s i js
      })"

fun set_first_zero_bytes :: "imc_set \<Rightarrow> nat list \<Rightarrow> u32 option" where
  "set_first_zero_bytes s [] = Some (s_length s)"
| "set_first_zero_bytes s (i # is) =
     do {
       set_byte \<leftarrow> rd (s_bmp s) i;
       if set_byte = 0xFF then set_first_zero_bytes s is
       else do {
         r \<leftarrow> set_first_zero_bits s i [0..<8];
         (case r of Some element \<Rightarrow> Some element | None \<Rightarrow> set_first_zero_bytes s is)
       }
     }"

definition set_first_zero :: "imc_set \<Rightarrow> u32 option" where
  "set_first_zero s = set_first_zero_bytes s [0..<NUM_BYTES (s_length s)]"

text \<open>The byte loop of \<open>set_union\<close> and \<open>set_intersec\<close>: \<open>d\<close> is the new set's map.\<close>

fun set_combine_bytes :: "(u8 \<Rightarrow> u8 \<Rightarrow> u8) \<Rightarrow> u8 list \<Rightarrow> u8 list \<Rightarrow> nat list \<Rightarrow> u8 list \<Rightarrow> u8 list option" where
  "set_combine_bytes f a b [] d = Some d"
| "set_combine_bytes f a b (i # is) d =
     do {
       x \<leftarrow> rd a i;
       y \<leftarrow> rd b i;
       d' \<leftarrow> wr d i (f x y);
       set_combine_bytes f a b is d'
     }"

definition set_union :: "imc_set \<Rightarrow> imc_set \<Rightarrow> imc_set option" where
  "set_union s1 s2 =
     (let s = set_make (s_length s1)
      in do {
        c_assert (s_length s1 = s_length s2);
        m \<leftarrow> set_combine_bytes (OR) (s_bmp s1) (s_bmp s2)
               [0..<BYTE_IN_SET (s_length s1)] (s_bmp s);
        Some (s\<lparr>s_bmp := m\<rparr>)
      })"

definition set_intersec :: "imc_set \<Rightarrow> imc_set \<Rightarrow> imc_set option" where
  "set_intersec s1 s2 =
     (let s = set_make (s_length s1)
      in do {
        c_assert (s_length s1 = s_length s2);
        m \<leftarrow> set_combine_bytes (AND) (s_bmp s1) (s_bmp s2)
               [0..<BYTE_IN_SET (s_length s1)] (s_bmp s);
        Some (s\<lparr>s_bmp := m\<rparr>)
      })"

text \<open>In place, the destination is the first operand.\<close>

fun set_intersec_bytes :: "u8 list \<Rightarrow> nat list \<Rightarrow> u8 list \<Rightarrow> u8 list option" where
  "set_intersec_bytes b [] d = Some d"
| "set_intersec_bytes b (i # is) d =
     do {
       x \<leftarrow> rd d i;
       y \<leftarrow> rd b i;
       d' \<leftarrow> wr d i (x AND y);
       set_intersec_bytes b is d'
     }"

definition set_intersec_inplace :: "imc_set \<Rightarrow> imc_set \<Rightarrow> imc_set option" where
  "set_intersec_inplace s1 s2 =
     do {
       c_assert (s_length s1 = s_length s2);
       m \<leftarrow> set_intersec_bytes (s_bmp s2) [0..<BYTE_IN_SET (s_length s1)] (s_bmp s1);
       Some (s1\<lparr>s_bmp := m\<rparr>)
     }"


section \<open>Bits of the map\<close>

definition mem_bit :: "u8 list \<Rightarrow> nat \<Rightarrow> bool" where
  "mem_bit m e \<longleftrightarrow> e div 8 < length m \<and> bit (m ! (e div 8)) (e mod 8)"

text \<open>
  A set is well-formed when its map holds the bytes its length asks for; its
  elements are the bits below the length.
\<close>

definition set_wf :: "imc_set \<Rightarrow> bool" where
  "set_wf s \<longleftrightarrow> NUM_BYTES (s_length s) \<le> length (s_bmp s)"

definition s_elems :: "imc_set \<Rightarrow> nat set" where
  "s_elems s = {e. e < unat (s_length s) \<and> mem_bit (s_bmp s) e}"

lemma BYTE_IN_SET_eq [simp]: "BYTE_IN_SET e = unat e div 8"
  by (simp add: BYTE_IN_SET_def drop_bit_eq_div unat_div)

lemma unat_and_7: "unat (e AND 7 :: u32) = unat e mod 8"
proof -
  have "e AND 7 = take_bit 3 e"
    by (simp add: take_bit_eq_mask mask_eq_exp_minus_1)
  then show ?thesis
    by (simp add: take_bit_eq_mod unat_mod)
qed

lemma bit_BIT_IN_BYTE: "bit (BIT_IN_BYTE e) k \<longleftrightarrow> k = unat e mod 8"
  by (auto simp: BIT_IN_BYTE_def unat_and_7 push_bit_eq_mult bit_exp_iff possible_bit_word)

lemma BIT_IN_BYTE_and: "b AND BIT_IN_BYTE e \<noteq> 0 \<longleftrightarrow> bit b (unat e mod 8)"
  by (simp only: BIT_IN_BYTE_def unat_and_7 bit_iff_and_push_bit_not_eq_0)

lemma mem_bit_replicate_0 [simp]: "\<not> mem_bit (replicate n 0) e"
  by (simp add: mem_bit_def)

lemma mem_bit_replicate_FF [simp]: "mem_bit (replicate n 0xFF) e \<longleftrightarrow> e div 8 < n"
proof -
  have "bit (0xFF :: u8) (e mod 8)"
  proof -
    have "(0xFF :: u8) = mask 8" by (simp add: mask_eq_exp_minus_1)
    then show ?thesis by (simp only: bit_mask_iff) simp
  qed
  then show ?thesis by (auto simp: mem_bit_def)
qed

lemma div8_eqD: "x div 8 = y div 8 \<Longrightarrow> x mod 8 = y mod 8 \<Longrightarrow> x = (y::nat)"
  by (metis div_mult_mod_eq)

lemma mem_bit_or_update:
  assumes "unat e div 8 < length m"
  shows "mem_bit (m[unat e div 8 := m ! (unat e div 8) OR BIT_IN_BYTE e]) x
         \<longleftrightarrow> x = unat e \<or> mem_bit m x"
proof (cases "x div 8 = unat e div 8")
  case True
  then show ?thesis using assms
    by (auto simp: mem_bit_def bit_or_iff bit_BIT_IN_BYTE dest: div8_eqD)
next
  case False
  then show ?thesis by (auto simp: mem_bit_def)
qed

lemma mem_bit_take [simp]: "mem_bit (take n m) e \<longleftrightarrow> e div 8 < n \<and> mem_bit m e"
  by (auto simp: mem_bit_def)

lemma set_wfD: "set_wf s \<Longrightarrow> unat (s_length s) div 8 < length (s_bmp s)"
  by (simp add: set_wf_def NUM_BYTES_def)

lemma set_wf_div_less: "set_wf s \<Longrightarrow> e \<le> unat (s_length s) \<Longrightarrow> e div 8 < length (s_bmp s)"
  using set_wfD [of s] div_le_mono [of e "unat (s_length s)" 8] by simp

lemma set_contains_eq:
  assumes "set_wf s"
  shows "set_contains s e = Some (unat e \<le> unat (s_length s) \<and> mem_bit (s_bmp s) (unat e))"
proof (cases "e \<le> s_length s")
  case True
  then have le: "unat e \<le> unat (s_length s)" by (simp add: word_le_nat_alt)
  have "unat e div 8 < length (s_bmp s)" using set_wf_div_less [OF assms le] .
  then show ?thesis using True le
    by (simp add: set_contains_def leD BIT_IN_BYTE_and mem_bit_def)
next
  case False
  then show ?thesis by (simp add: set_contains_def not_le word_less_nat_alt)
qed

lemma set_contains_in_range:
  assumes "set_wf s" "unat e < unat (s_length s)"
  shows "set_contains s e = Some (unat e \<in> s_elems s)"
  using assms by (simp add: set_contains_eq s_elems_def)

section \<open>Construction\<close>

lemma set_make_wf [simp]: "set_wf (set_make n)"
  by (simp add: set_wf_def set_make_def)

lemma set_make_sel [simp]: "s_length (set_make n) = n" "\<not> mem_bit (s_bmp (set_make n)) e"
  by (simp_all add: set_make_def)

lemma set_make_full_wf [simp]: "set_wf (set_make_full n)"
  by (simp add: set_wf_def set_make_full_def set_make_def)

lemma set_make_full_sel [simp]:
  "s_length (set_make_full n) = n"
  "mem_bit (s_bmp (set_make_full n)) e \<longleftrightarrow> e div 8 < NUM_BYTES n"
  by (simp_all add: set_make_full_def set_make_def)

lemma s_elems_set_make [simp]: "s_elems (set_make n) = {}"
  by (simp add: s_elems_def)

lemma s_elems_set_make_full [simp]: "s_elems (set_make_full n) = {..<unat n}"
proof -
  have "e < unat n \<Longrightarrow> e div 8 < NUM_BYTES n" for e
    using div_le_mono [of e "unat n" 8] by (simp add: NUM_BYTES_def)
  then show ?thesis by (auto simp: s_elems_def)
qed

lemma set_copy_Some:
  assumes "set_wf s"
  shows "\<exists>d. set_copy s = Some d \<and> set_wf d \<and> s_length d = s_length s
             \<and> (\<forall>e \<le> unat (s_length s). mem_bit (s_bmp d) e = mem_bit (s_bmp s) e)"
proof -
  have "e div 8 < NUM_BYTES (s_length s)" if "e \<le> unat (s_length s)" for e
    using div_le_mono [OF that, of 8] by (simp add: NUM_BYTES_def)
  then show ?thesis using assms
    by (auto simp: set_copy_def set_wf_def set_make_def)
qed

lemma set_clear_Some:
  assumes "set_wf s"
  shows "\<exists>d. set_clear s = Some d \<and> set_wf d \<and> s_length d = s_length s \<and> s_elems d = {}"
proof -
  let ?d = "s\<lparr>s_bmp := replicate (NUM_BYTES (s_length s)) 0 @ drop (NUM_BYTES (s_length s)) (s_bmp s)\<rparr>"
  have 1: "set_clear s = Some ?d" using assms by (simp add: set_clear_def set_wf_def)
  have "\<not> mem_bit (s_bmp ?d) e" if "e < unat (s_length s)" for e
  proof -
    have "e div 8 < NUM_BYTES (s_length s)"
      using div_le_mono [of e "unat (s_length s)" 8] that by (simp add: NUM_BYTES_def)
    then show ?thesis by (simp add: mem_bit_def nth_append)
  qed
  then have "s_elems ?d = {}" by (auto simp: s_elems_def)
  then show ?thesis using 1 assms by (auto simp: set_wf_def)
qed

section \<open>Adding an element\<close>

text \<open>
  Within the byte range of the declared length, \<open>set_add\<close> adds the element and
  nothing else.
\<close>

lemma set_add_in_range:
  assumes "set_wf s" "unat e div 8 \<le> unat (s_length s) div 8"
  shows "\<exists>s'. set_add s e = Some s' \<and> set_wf s' \<and> s_length s' = s_length s
              \<and> (\<forall>x. mem_bit (s_bmp s') x \<longleftrightarrow> x = unat e \<or> mem_bit (s_bmp s) x)"
proof -
  have lt: "unat e div 8 < length (s_bmp s)" using assms set_wfD [of s] by simp
  then show ?thesis using assms
    by (auto simp: set_add_def Let_def mem_bit_or_update set_wf_def)
qed

text \<open>Beyond it, the map grows to hold the element but the length only by one byte.\<close>

lemma set_add_growing:
  assumes "set_wf s" "unat (s_length s) div 8 < unat e div 8" "unat (s_length s) + 8 < 2 ^ 32"
  shows "\<exists>s'. set_add s e = Some s' \<and> set_wf s' \<and> s_length s' = s_length s + 8
              \<and> (\<forall>x. mem_bit (s_bmp s') x \<longleftrightarrow>
                    x = unat e \<or> x div 8 \<le> unat (s_length s) div 8 \<and> mem_bit (s_bmp s) x)"
proof -
  let ?n = "NUM_BYTES (s_length s)" and ?k = "NUM_BYTES e"
  let ?m = "take ?n (s_bmp s) @ replicate (?k - ?n) 0"
  have n: "?n \<le> length (s_bmp s)" "?n < ?k"
    using assms by (simp_all add: set_wf_def NUM_BYTES_def)
  then have m: "mem_sys_realloc_zeroed (s_bmp s) ?k ?n = Some ?m" "length ?m = ?k"
    by (simp_all add: mem_sys_realloc_zeroed_def)
  have e: "unat e div 8 < length ?m" using m(2) by (simp add: NUM_BYTES_def)
  have old: "mem_bit ?m x \<longleftrightarrow> x div 8 \<le> unat (s_length s) div 8 \<and> mem_bit (s_bmp s) x" for x
  proof (cases "x div 8 < ?n")
    case True
    then show ?thesis using n by (auto simp: mem_bit_def nth_append NUM_BYTES_def)
  next
    case False
    then have "\<not> mem_bit ?m x" using n
      by (cases "x div 8 < ?k") (simp_all add: mem_bit_def nth_append)
    then show ?thesis using False by (simp add: NUM_BYTES_def)
  qed
  have len: "unat (s_length s + 8) = unat (s_length s) + 8"
    using assms(3) by (simp add: unat_word_ariths)
  have wf: "NUM_BYTES (s_length s + 8) \<le> ?k"
    using assms(2) by (simp add: NUM_BYTES_def len)
  have "set_add s e = Some (s\<lparr>s_bmp := ?m[unat e div 8 := ?m ! (unat e div 8) OR BIT_IN_BYTE e],
                             s_length := s_length s + 8\<rparr>)"
    using assms(2) m(1) e by (simp add: set_add_def Let_def)
  then show ?thesis using mem_bit_or_update [OF e] old wf m(2) by (auto simp: set_wf_def)
qed

text \<open>
  C1. \<open>set_add\<close> in the byte range of the set's length: it succeeds, keeps the
  length and well-formedness, and \<open>set_contains\<close> afterwards answers true exactly
  for the new element and for what was in the set before, where the element is
  not above the length.
\<close>

theorem set_add_contains:
  assumes "set_wf s" and "unat e div 8 \<le> unat (s_length s) div 8"
  shows "\<exists>s'. set_add s e = Some s' \<and> set_wf s' \<and> s_length s' = s_length s
           \<and> (\<forall>x. set_contains s' x
                   = (if x = e \<and> e \<le> s_length s then Some True else set_contains s x))"
proof -
  obtain s' where s': "set_add s e = Some s'" "set_wf s'" "s_length s' = s_length s"
      "\<And>x. mem_bit (s_bmp s') x \<longleftrightarrow> x = unat e \<or> mem_bit (s_bmp s) x"
    using set_add_in_range [OF assms] by blast
  have "set_contains s' x = (if x = e \<and> e \<le> s_length s then Some True else set_contains s x)" for x
    using s'(2-4) assms(1) by (simp add: set_contains_eq word_le_nat_alt word_unat_eq_iff) auto
  then show ?thesis using s'(1-3) by blast
qed

theorem set_add_contains_witness:
  "\<exists>s'. set_add (set_make 10) 9 = Some s' \<and> set_contains s' 9 = Some True
        \<and> set_contains s' 8 = Some False"
proof -
  have "unat (9::u32) div 8 \<le> unat (s_length (set_make 10)) div 8" by simp
  from set_add_contains [OF set_make_wf this] obtain s' where
    "set_add (set_make 10) 9 = Some s'"
    "\<And>x. set_contains s' x = (if x = 9 \<and> 9 \<le> s_length (set_make 10) then Some True
                            else set_contains (set_make 10) x)"
    by blast
  then show ?thesis by (simp add: set_contains_eq)
qed

section \<open>Comparison\<close>

lemma less_div8_split:
  "e < n \<longleftrightarrow> e < 8 * (n div 8) \<or> (e div 8 = n div 8 \<and> e mod 8 < n mod 8)" for e n :: nat
proof (cases "e div 8" "n div 8" rule: linorder_cases)
  case less
  then show ?thesis by linarith
next
  case equal
  have "e = 8 * (e div 8) + e mod 8" "n = 8 * (n div 8) + n mod 8" by simp_all
  with equal have "e < n \<longleftrightarrow> e mod 8 < n mod 8" "\<not> e < 8 * (n div 8)" by linarith+
  with equal show ?thesis by simp
next
  case greater
  then show ?thesis by linarith
qed

lemma take_eq_mem_bit:
  assumes "n \<le> length a" "n \<le> length b"
  shows "take n a = take n b \<longleftrightarrow> (\<forall>e < 8 * n. mem_bit a e = mem_bit b e)"
proof
  assume "take n a = take n b"
  then have "e div 8 < n \<and> mem_bit a e \<longleftrightarrow> e div 8 < n \<and> mem_bit b e" for e
    by (metis mem_bit_take)
  then show "\<forall>e < 8 * n. mem_bit a e = mem_bit b e"
    by (metis less_mult_imp_div_less mult.commute)
next
  assume H: "\<forall>e < 8 * n. mem_bit a e = mem_bit b e"
  have "a ! i = b ! i" if "i < n" for i
  proof (rule bit_word_eqI)
    fix k assume "k < LENGTH(8)"
    then have k: "k < 8" by simp
    then have "8 * i + k < 8 * n" using that by simp
    from H [rule_format, OF this] k that assms
    show "bit (a ! i) k = bit (b ! i) k" by (simp add: mem_bit_def)
  qed
  then show "take n a = take n b" using assms by (simp add: list_eq_iff_nth_eq)
qed

lemma bit_byte_mask:
  assumes "k \<le> 8"
  shows "bit (push_bit k (1::u8) - 1) j \<longleftrightarrow> j < k"
proof -
  have "push_bit k (1::u8) - 1 = mask k" by (simp add: push_bit_eq_mult mask_eq_exp_minus_1)
  then show ?thesis using assms by (simp only: bit_mask_iff) auto
qed

lemma masked_eq_iff:
  assumes "k \<le> 8"
  shows "(a AND (push_bit k 1 - 1) = b AND (push_bit k 1 - 1)) \<longleftrightarrow> (\<forall>j<k. bit (a::u8) j = bit b j)"
proof -
  have "(a AND (push_bit k 1 - 1) = b AND (push_bit k 1 - 1)) \<longleftrightarrow>
      (\<forall>n<8. (bit a n \<and> n < k) = (bit b n \<and> n < k))"
    by (simp add: bit_eq_iff bit_and_iff bit_byte_mask [OF assms] del: push_bit_of_1)
  also have "\<dots> \<longleftrightarrow> (\<forall>j<k. bit a j = bit b j)"
    using assms by (meson less_le_trans)
  finally show ?thesis .
qed

lemma set_equal_elems:
  assumes "set_wf s1" and "set_wf s2" and "s_length s1 = s_length s2"
  shows "set_equal s1 s2 = Some (s_elems s1 = s_elems s2)"
proof -
  let ?n = "unat (s_length s1)" and ?k = "unat (s_length s1) mod 8"
  let ?q = "unat (s_length s1) div 8"
  have l: "?q < length (s_bmp s1)" "?q < length (s_bmp s2)"
    using set_wfD [OF assms(1)] set_wfD [OF assms(2)] assms(3) by simp_all
  note split = less_div8_split [of _ ?n]
  have last: "(\<forall>e. e div 8 = ?q \<and> e mod 8 < ?k \<longrightarrow> mem_bit (s_bmp s1) e = mem_bit (s_bmp s2) e)
      \<longleftrightarrow> (\<forall>j < ?k. bit (s_bmp s1 ! ?q) j = bit (s_bmp s2 ! ?q) j)" (is "?L \<longleftrightarrow> ?R")
  proof
    assume H: ?L
    show ?R
    proof (intro allI impI)
      fix j assume j: "j < ?k"
      then have "j < 8" by (rule less_trans) simp
      then have "(8 * ?q + j) div 8 = ?q" "(8 * ?q + j) mod 8 = j" by simp_all
      with H [rule_format, of "8 * ?q + j"] j l
      show "bit (s_bmp s1 ! ?q) j = bit (s_bmp s2 ! ?q) j" by (simp add: mem_bit_def)
    qed
  next
    assume ?R then show ?L using l by (auto simp: mem_bit_def)
  qed
  have elems: "s_elems s1 = s_elems s2 \<longleftrightarrow>
      take ?q (s_bmp s1) = take ?q (s_bmp s2)
      \<and> (\<forall>j < ?k. bit (s_bmp s1 ! ?q) j = bit (s_bmp s2 ! ?q) j)"
    using take_eq_mem_bit [of ?q "s_bmp s1" "s_bmp s2"] l split last assms(3)
    by (auto simp: s_elems_def set_eq_iff)
  have k8: "?k \<le> 8" by (simp add: less_imp_le)
  show ?thesis
    using assms(3) l elems masked_eq_iff [OF k8, of "s_bmp s1 ! ?q" "s_bmp s2 ! ?q"]
    by (auto simp: set_equal_def Let_def simp del: push_bit_of_1)
qed

text \<open>
  \<open>set_equal\<close> decides equality of the elements below the common length,
  whatever the spare bits of the last byte hold.
\<close>

theorem set_equal_iff:
  assumes "set_wf s1" and "set_wf s2" and "s_length s1 = s_length s2"
  shows "set_equal s1 s2 = Some (s_elems s1 = s_elems s2)"
  using assms by (rule set_equal_elems)

theorem set_equal_iff_witness:
  "set_equal (set_make 9) (set_make_full 9) = Some False"
proof -
  have "s_elems (set_make 9) \<noteq> s_elems (set_make_full 9)" by (auto simp: lessThan_def intro: exI [of _ 0])
  with set_equal_iff [OF set_make_wf set_make_full_wf, of 9 9] show ?thesis by simp
qed

section \<open>Union and intersection\<close>

lemma set_combine_bytes_Some:
  assumes "\<forall>i \<in> set is. i < length a \<and> i < length b \<and> i < length d"
  shows "\<exists>m. set_combine_bytes f a b is d = Some m \<and> length m = length d
             \<and> (\<forall>i. m ! i = (if i \<in> set is then f (a ! i) (b ! i) else d ! i))"
  using assms
proof (induction "is" arbitrary: d)
  case Nil
  then show ?case by simp
next
  case (Cons k ks)
  let ?d = "d[k := f (a ! k) (b ! k)]"
  have "\<forall>i \<in> set ks. i < length a \<and> i < length b \<and> i < length ?d" using Cons.prems by simp
  from Cons.IH [OF this] obtain m where
    "set_combine_bytes f a b ks ?d = Some m" "length m = length d"
    "\<forall>i. m ! i = (if i \<in> set ks then f (a ! i) (b ! i) else ?d ! i)" by auto
  then show ?case using Cons.prems by (auto simp: nth_list_update)
qed

lemma set_intersec_bytes_Some:
  assumes "\<forall>i \<in> set is. i < length b \<and> i < length d" "distinct is"
  shows "\<exists>m. set_intersec_bytes b is d = Some m \<and> length m = length d
             \<and> (\<forall>i. m ! i = (if i \<in> set is then d ! i AND b ! i else d ! i))"
  using assms
proof (induction "is" arbitrary: d)
  case Nil
  then show ?case by simp
next
  case (Cons k ks)
  let ?d = "d[k := d ! k AND b ! k]"
  have "\<forall>i \<in> set ks. i < length b \<and> i < length ?d" "distinct ks" using Cons.prems by simp_all
  from Cons.IH [OF this] obtain m where
    "set_intersec_bytes b ks ?d = Some m" "length m = length d"
    "\<forall>i. m ! i = (if i \<in> set ks then ?d ! i AND b ! i else ?d ! i)" by auto
  then show ?case using Cons.prems by (auto simp: nth_list_update)
qed

text \<open>
  The three loops run to \<open>BYTE_IN_SET(length)\<close>, the number of whole bytes: the
  bits of the last, partial byte are never combined.
\<close>

lemma set_intersec_inplace_Some:
  assumes "set_wf s1" "set_wf s2" "s_length s1 = s_length s2"
  shows "\<exists>s. set_intersec_inplace s1 s2 = Some s \<and> set_wf s \<and> s_length s = s_length s1
             \<and> (\<forall>e. mem_bit (s_bmp s) e \<longleftrightarrow> mem_bit (s_bmp s1) e
                     \<and> (e div 8 < unat (s_length s1) div 8 \<longrightarrow> mem_bit (s_bmp s2) e))"
proof -
  let ?q = "unat (s_length s1) div 8"
  have l: "?q < length (s_bmp s1)" "?q < length (s_bmp s2)"
    using set_wfD [OF assms(1)] set_wfD [OF assms(2)] assms(3) by simp_all
  then have "\<forall>i \<in> set [0..<?q]. i < length (s_bmp s2) \<and> i < length (s_bmp s1)" by auto
  from set_intersec_bytes_Some [OF this] obtain m where m:
    "set_intersec_bytes (s_bmp s2) [0..<?q] (s_bmp s1) = Some m" "length m = length (s_bmp s1)"
    "\<And>i. m ! i = (if i < ?q then s_bmp s1 ! i AND s_bmp s2 ! i else s_bmp s1 ! i)" by auto
  have "set_intersec_inplace s1 s2 = Some (s1\<lparr>s_bmp := m\<rparr>)"
    using assms(3) m(1) by (simp add: set_intersec_inplace_def)
  moreover have "mem_bit m e \<longleftrightarrow> mem_bit (s_bmp s1) e
                     \<and> (e div 8 < ?q \<longrightarrow> mem_bit (s_bmp s2) e)" for e
    using m(2,3) l by (auto simp: mem_bit_def bit_and_iff)
  ultimately show ?thesis using assms(1) m(2) by (simp add: set_wf_def)
qed

lemma set_combine_Some:
  fixes s1 s2 :: imc_set
  assumes "set_wf s1" "set_wf s2" "s_length s1 = s_length s2"
  shows "\<exists>m. set_combine_bytes f (s_bmp s1) (s_bmp s2) [0..<BYTE_IN_SET (s_length s1)]
                 (s_bmp (set_make (s_length s1))) = Some m
             \<and> length m = NUM_BYTES (s_length s1)
             \<and> (\<forall>i. m ! i = (if i < unat (s_length s1) div 8 then f (s_bmp s1 ! i) (s_bmp s2 ! i)
                              else s_bmp (set_make (s_length s1)) ! i))"
proof -
  let ?q = "unat (s_length s1) div 8"
  have l: "?q < length (s_bmp s1)" "?q < length (s_bmp s2)"
    using set_wfD [OF assms(1)] set_wfD [OF assms(2)] assms(3) by simp_all
  then have "\<forall>i \<in> set [0..<?q]. i < length (s_bmp s1) \<and> i < length (s_bmp s2)
                                 \<and> i < length (s_bmp (set_make (s_length s1)))"
    by (auto simp: set_make_def NUM_BYTES_def)
  from set_combine_bytes_Some [OF this, of f] show ?thesis
    by (auto simp: set_make_def)
qed

lemma mem_bit_tail_zero:
  assumes "length m = NUM_BYTES n" "\<And>i. unat n div 8 \<le> i \<Longrightarrow> i < NUM_BYTES n \<Longrightarrow> m ! i = 0"
    "mem_bit m e"
  shows "e div 8 < unat n div 8"
  using assms by (metis bit_0_eq bot_apply bot_bool_def mem_bit_def not_le)

lemma elem_whole_byte: "e div 8 < n div 8 \<longleftrightarrow> e < 8 * (n div 8)" for e n :: nat
  by (simp add: div_less_iff_less_mult mult.commute)

lemma set_combine_mem_bit:
  assumes "set_wf s1" "set_wf s2" "s_length s1 = s_length s2"
    and m: "length m = NUM_BYTES (s_length s1)"
      "\<forall>i. m ! i = (if i < unat (s_length s1) div 8 then f (s_bmp s1 ! i) (s_bmp s2 ! i)
                              else s_bmp (set_make (s_length s1)) ! i)"
    and f: "\<And>x y k. k < 8 \<Longrightarrow> bit (f x y) k = g (bit x k) (bit y k)"
  shows "mem_bit m e \<longleftrightarrow> e < 8 * (unat (s_length s1) div 8)
           \<and> g (mem_bit (s_bmp s1) e) (mem_bit (s_bmp s2) e)"
proof (cases "e div 8 < unat (s_length s1) div 8")
  case True
  have "e div 8 < length (s_bmp s1)" "e div 8 < length (s_bmp s2)" "e div 8 < length m"
    using True set_wfD [OF assms(1)] set_wfD [OF assms(2)] assms(3) m(1)
    by (simp_all add: NUM_BYTES_def)
  then show ?thesis using True m(2) f [of "e mod 8"] by (simp add: mem_bit_def elem_whole_byte)
next
  case False
  then have "\<not> mem_bit m e"
    using mem_bit_tail_zero [OF m(1), of e] m by (auto simp: set_make_def)
  then show ?thesis using False by (simp add: elem_whole_byte)
qed

text \<open>
  C2. What \<open>set_union\<close> and \<open>set_intersec\<close> return for two sets of one length:
  a well-formed set of that length whose elements are the union, respectively the
  intersection, restricted to the elements of whole bytes.  When the length is a
  multiple of 8 these are the set operations; otherwise the elements of the last
  partial byte are dropped from both results.
\<close>

theorem set_union_intersec_elems:
  assumes "set_wf s1" and "set_wf s2" and "s_length s1 = s_length s2"
  shows "(\<exists>u. set_union s1 s2 = Some u \<and> set_wf u \<and> s_length u = s_length s1
           \<and> s_elems u = (s_elems s1 \<union> s_elems s2) \<inter> {..<8 * (unat (s_length s1) div 8)})
       \<and> (\<exists>i. set_intersec s1 s2 = Some i \<and> set_wf i \<and> s_length i = s_length s1
           \<and> s_elems i = s_elems s1 \<inter> s_elems s2 \<inter> {..<8 * (unat (s_length s1) div 8)})"
proof -
  have le: "e < 8 * (unat (s_length s2) div 8) \<Longrightarrow> e < unat (s_length s2)" for e
    using times_div_less_eq_dividend [of 8 "unat (s_length s2)"] by linarith
  obtain m where m: "set_combine_bytes (OR) (s_bmp s1) (s_bmp s2) [0..<BYTE_IN_SET (s_length s1)]
                 (s_bmp (set_make (s_length s1))) = Some m" "length m = NUM_BYTES (s_length s1)"
      "\<forall>i. m ! i = (if i < unat (s_length s1) div 8 then s_bmp s1 ! i OR s_bmp s2 ! i
                              else s_bmp (set_make (s_length s1)) ! i)"
    using set_combine_Some [OF assms] by blast
  note mb = set_combine_mem_bit [OF assms m(2,3), where g = "(\<or>)", simplified bit_or_iff, simplified]
  obtain k where k: "set_combine_bytes (AND) (s_bmp s1) (s_bmp s2) [0..<BYTE_IN_SET (s_length s1)]
                 (s_bmp (set_make (s_length s1))) = Some k" "length k = NUM_BYTES (s_length s1)"
      "\<forall>i. k ! i = (if i < unat (s_length s1) div 8 then s_bmp s1 ! i AND s_bmp s2 ! i
                              else s_bmp (set_make (s_length s1)) ! i)"
    using set_combine_Some [OF assms] by blast
  note kb = set_combine_mem_bit [OF assms k(2,3), where g = "(\<and>)", simplified bit_and_iff, simplified]
  show ?thesis
    using assms(3) m(1,2) k(1,2) mb kb le
    by (auto simp: set_union_def set_intersec_def Let_def set_wf_def s_elems_def)
qed

theorem set_union_intersec_elems_witness:
  "\<exists>u. set_union (set_make 12) (set_make_full 12) = Some u \<and> s_elems u = {..<8}"
proof -
  have "{..<12::nat} \<inter> {..<8} = {..<8}" by auto
  then show ?thesis
    using set_union_intersec_elems [OF set_make_wf set_make_full_wf, of 12 12] by auto
qed

section \<open>The first unused element\<close>

definition in_set :: "imc_set \<Rightarrow> nat \<Rightarrow> bool" where
  "in_set s e \<longleftrightarrow> e \<le> unat (s_length s) \<and> mem_bit (s_bmp s) e"

lemma set_contains_in_set: "set_wf s \<Longrightarrow> set_contains s e = Some (in_set s (unat e))"
  by (simp add: set_contains_eq in_set_def)

lemma set_first_zero_bits_eq:
  assumes "set_wf s" "\<forall>j \<in> set js. i * 8 + j < 2 ^ 32"
  shows "set_first_zero_bits s i js =
    Some (map_option (\<lambda>j. word_of_nat (i * 8 + j)) (find (\<lambda>j. \<not> in_set s (i * 8 + j)) js))"
  using assms(2)
proof (induction js)
  case Nil
  then show ?case by simp
next
  case (Cons j js)
  have "unat (word_of_nat (i * 8 + j) :: u32) = i * 8 + j"
    using Cons.prems by (intro unat_of_nat_u32) simp
  then show ?case using Cons assms(1) by (simp add: set_contains_in_set Let_def)
qed

lemma byte_FF_iff: "b = (0xFF :: u8) \<longleftrightarrow> (\<forall>j < 8. bit b j)"
proof -
  have "(0xFF :: u8) = mask 8" by (simp add: mask_eq_exp_minus_1)
  then show ?thesis by (auto simp: bit_eq_iff bit_mask_iff)
qed

lemma set_first_zero_bytes_Some:
  assumes wf: "set_wf s" and bound: "unat (s_length s) + 8 < 2 ^ 32"
    and k: "k \<le> NUM_BYTES (s_length s)"
    and below: "\<forall>e < 8 * k. mem_bit (s_bmp s) e"
  shows "\<exists>r. set_first_zero_bytes s [k..<NUM_BYTES (s_length s)] = Some r \<and>
    (\<not> in_set s (unat r) \<and> (\<forall>e < unat r. in_set s e)
     \<or> r = s_length s \<and> (\<forall>e \<le> unat (s_length s). in_set s e))"
  using k below
proof (induction rule: inc_induct)
  case base
  have "mem_bit (s_bmp s) e" if "e \<le> unat (s_length s)" for e
    using base that by (auto simp: NUM_BYTES_def)
  then show ?case by (simp add: in_set_def)
next
  case (step k)
  let ?b = "s_bmp s ! k"
  have kl: "k < length (s_bmp s)" using step.hyps wf by (simp add: set_wf_def)
  have kn: "8 * k \<le> unat (s_length s)" using step.hyps(2) by (auto simp: NUM_BYTES_def)
  have upt: "[k..<NUM_BYTES (s_length s)] = k # [Suc k..<NUM_BYTES (s_length s)]"
    using step.hyps(2) by (rule upt_conv_Cons)
  have bits: "mem_bit (s_bmp s) (k * 8 + j) \<longleftrightarrow> bit ?b j" if "j < 8" for j
    using that kl by (simp add: mem_bit_def)
  show ?case
  proof (cases "?b = 0xFF")
    case True
    have "mem_bit (s_bmp s) e" if "e < 8 * Suc k" for e
    proof (cases "e < 8 * k")
      case False
      then have "e = k * 8 + (e - 8 * k)" "e - 8 * k < 8" using that by simp_all
      then show ?thesis using bits True byte_FF_iff by metis
    qed (use step.prems in blast)
    with step.IH show ?thesis using True kl upt by simp
  next
    case False
    have in8: "\<forall>j \<in> set [0..<8]. k * 8 + j < 2 ^ 32" using kn bound by auto
    obtain j where j: "j < 8" "\<not> bit ?b j" using False byte_FF_iff by blast
    then have "\<not> in_set s (k * 8 + j)" using bits by (simp add: in_set_def)
    then obtain j' where f: "find (\<lambda>j. \<not> in_set s (k * 8 + j)) [0..<8] = Some j'"
      using j(1) by (cases "find (\<lambda>j. \<not> in_set s (k * 8 + j)) [0..<8]") (auto simp: find_None_iff)
    then have j': "j' < 8" "\<not> in_set s (k * 8 + j')" "\<forall>i < j'. in_set s (k * 8 + i)"
      by (auto simp: find_Some_iff)
    have r: "unat (word_of_nat (k * 8 + j') :: u32) = k * 8 + j'"
      using in8 j'(1) by (intro unat_of_nat_u32) auto
    have "in_set s e" if "e < k * 8 + j'" for e
    proof (cases "e < 8 * k")
      case True
      then show ?thesis using step.prems kn by (simp add: in_set_def)
    next
      case False
      then have "e = k * 8 + (e - k * 8)" "e - k * 8 < j'" using that by simp_all
      then show ?thesis using j'(3) by metis
    qed
    then show ?thesis
      using False kl upt f j'(2) r by (simp add: set_first_zero_bits_eq [OF wf in8])
  qed
qed

text \<open>
  \<open>set_first_zero\<close> returns the least element that \<open>set_contains\<close> denies; when
  every element up to and including the length is present it returns the length,
  which is then itself in use.
\<close>

theorem set_first_zero_least:
  assumes "set_wf s" and "unat (s_length s) + 8 < 2 ^ 32"
  shows "\<exists>r. set_first_zero s = Some r \<and>
    (set_contains s r = Some False \<and> (\<forall>e < r. set_contains s e = Some True)
     \<or> r = s_length s \<and> (\<forall>e \<le> s_length s. set_contains s e = Some True))"
  using set_first_zero_bytes_Some [OF assms, of 0] assms(1)
  by (simp add: set_first_zero_def set_contains_in_set word_less_nat_alt word_le_nat_alt) blast

theorem set_first_zero_least_witness: "\<exists>r. set_first_zero (set_make 12) = Some r \<and> r = 0"
proof -
  have "unat (s_length (set_make 12)) + 8 < 2 ^ 32" by simp
  from set_first_zero_least [OF set_make_wf this] obtain r where r:
    "set_first_zero (set_make 12) = Some r"
    "set_contains (set_make 12) r = Some False \<and> (\<forall>e < r. set_contains (set_make 12) e = Some True)
     \<or> r = 12 \<and> (\<forall>e \<le> 12. set_contains (set_make 12) e = Some True)" by auto
  have "r = 0"
  proof (rule ccontr)
    assume "r \<noteq> 0"
    then have "0 < r" by (simp add: word_gt_0)
    with r(2) show False by (auto simp: set_contains_eq)
  qed
  with r(1) show ?thesis by simp
qed

section \<open>Growth\<close>

text \<open>
  Adding an element whose byte lies beyond the set's bytes keeps the set
  well-formed, but extends the declared length by 8 only: the added element is
  found again exactly when it is at most the old length plus 8.
\<close>

theorem set_add_beyond_length:
  assumes "set_wf s" and "unat (s_length s) div 8 < unat e div 8"
    and "unat (s_length s) + 8 < 2 ^ 32"
  shows "\<exists>s'. set_add s e = Some s' \<and> set_wf s' \<and> s_length s' = s_length s + 8
           \<and> set_contains s' e = Some (unat e \<le> unat (s_length s) + 8)"
proof -
  obtain s' where s': "set_add s e = Some s'" "set_wf s'" "s_length s' = s_length s + 8"
      "mem_bit (s_bmp s') (unat e)"
    using set_add_growing [OF assms] by blast
  have "unat (s_length s + 8) = unat (s_length s) + 8"
    using assms(3) by (simp add: unat_word_ariths)
  then show ?thesis using s' by (simp add: set_contains_eq)
qed

theorem set_add_beyond_length_witness:
  "\<exists>s'. set_add (set_make 8) 100 = Some s' \<and> set_contains s' 100 = Some False"
proof -
  have "unat (s_length (set_make 8)) div 8 < unat (100::u32) div 8"
    "unat (s_length (set_make 8)) + 8 < 2 ^ 32" by simp_all
  from set_add_beyond_length [OF set_make_wf this] show ?thesis by auto
qed

end
