(* ===== verification/Imcc_Cfg.thy ===== *)
theory Imcc_Cfg
  imports Imcc_Sets
begin

text \<open>
  The control flow graph of an IMCC compilation unit, \<open>compilers/imcc/cfg.c\<close>: basic
  blocks, the edge lists, and the decoupling of unreachable blocks.

  A block is its index in \<open>bb_list\<close> (\<open>make_basic_block\<close> gives block \<open>n\<close> the index
  \<open>n\<close> and never moves it).  An \<open>Edge\<close> is linked into three lists: its target's
  \<open>pred_list\<close>, its source's \<open>succ_list\<close> and the unit's \<open>edge_list\<close>.  Since
  \<open>bb_add_edge\<close> never links the same pair of blocks twice, an edge is its pair of
  end points, and each linked list is the list of the other end points, newest
  first.
\<close>

section \<open>The unit and its edges\<close>

record basic_block =
  pred_list :: "nat list"
  succ_list :: "nat list"
  loop_depth :: int

record loop_info =
  li_loop :: imc_set
  li_exits :: imc_set
  li_depth :: int
  li_n_entries :: nat
  li_header :: nat
  li_preheader :: int
  li_size :: nat

record imc_unit =
  bb_list :: "basic_block list"
  edge_list :: "(nat \<times> nat) list"
  idoms :: "nat list"
  dominators :: "imc_set list"
  dominance_frontiers :: "imc_set list"
  loop_list :: "loop_info list"

abbreviation n_basic_blocks :: "imc_unit \<Rightarrow> nat" where
  "n_basic_blocks u \<equiv> length (bb_list u)"

abbreviation preds :: "imc_unit \<Rightarrow> nat \<Rightarrow> nat list" where
  "preds u b \<equiv> pred_list (bb_list u ! b)"

abbreviation succs :: "imc_unit \<Rightarrow> nat \<Rightarrow> nat list" where
  "succs u b \<equiv> succ_list (bb_list u ! b)"

definition init_basic_blocks :: "imc_unit \<Rightarrow> imc_unit" where
  "init_basic_blocks u = u\<lparr>bb_list := [], edge_list := []\<rparr>"

definition make_basic_block :: "imc_unit \<Rightarrow> nat \<times> imc_unit" where
  "make_basic_block u =
     (n_basic_blocks u,
      u\<lparr>bb_list := bb_list u @ [\<lparr>pred_list = [], succ_list = [], loop_depth = 0\<rparr>]\<rparr>)"

fun blocks_are_connected_from :: "nat \<Rightarrow> nat list \<Rightarrow> bool" where
  "blocks_are_connected_from fr [] = False"
| "blocks_are_connected_from fr (p # ps) = (if p = fr then True else blocks_are_connected_from fr ps)"

definition blocks_are_connected :: "imc_unit \<Rightarrow> nat \<Rightarrow> nat \<Rightarrow> bool" where
  "blocks_are_connected u fr to = blocks_are_connected_from fr (preds u to)"

definition bb_add_edge :: "imc_unit \<Rightarrow> nat \<Rightarrow> nat \<Rightarrow> imc_unit" where
  "bb_add_edge u fr to =
     (if blocks_are_connected u fr to then u
      else (let bbs1 = (bb_list u)[to := (bb_list u ! to)\<lparr>pred_list := fr # preds u to\<rparr>];
                bbs2 = bbs1[fr := (bbs1 ! fr)\<lparr>succ_list := to # succs u fr\<rparr>]
            in u\<lparr>bb_list := bbs2, edge_list := (fr, to) # edge_list u\<rparr>))"

text \<open>
  Unlinking an edge from one of its lists: it is either the head, or the successor
  of some link.
\<close>

fun unlink :: "'a \<Rightarrow> 'a list \<Rightarrow> 'a list" where
  "unlink e [] = []"
| "unlink e (x # xs) = (if x = e then xs else x # unlink e xs)"

definition bb_remove_edge :: "imc_unit \<Rightarrow> nat \<times> nat \<Rightarrow> imc_unit" where
  "bb_remove_edge u e =
     (let fr = fst e; to = snd e;
          bbs1 = (bb_list u)[fr := (bb_list u ! fr)\<lparr>succ_list := unlink to (succs u fr)\<rparr>];
          bbs2 = bbs1[to := (bbs1 ! to)\<lparr>pred_list := unlink fr (preds u to)\<rparr>]
      in u\<lparr>bb_list := bbs2, edge_list := unlink e (edge_list u)\<rparr>)"

definition free_edge :: "imc_unit \<Rightarrow> imc_unit" where
  "free_edge u = u\<lparr>edge_list := []\<rparr>"

fun edge_count_from :: "(nat \<times> nat) list \<Rightarrow> nat \<Rightarrow> nat" where
  "edge_count_from [] i = i"
| "edge_count_from (e # es) i = edge_count_from es (i + 1)"

definition edge_count :: "imc_unit \<Rightarrow> nat" where
  "edge_count u = edge_count_from (edge_list u) 0"

text \<open>
  The last part of \<open>build_cfg\<close>: every block but the first that has no predecessor
  loses its successor edges, until nothing changes.  Both \<open>while\<close> loops are
  partial functions, \<open>None\<close> meaning that they do not end.
\<close>

partial_function (option) drop_succs :: "nat \<Rightarrow> imc_unit \<Rightarrow> bool \<Rightarrow> (imc_unit \<times> bool) option" where
  "drop_succs j u changes =
     (case succs u j of
        [] \<Rightarrow> Some (u, changes)
      | s # _ \<Rightarrow> drop_succs j (bb_remove_edge u (j, s)) True)"

declare drop_succs.simps [code]

definition decouple_block :: "imc_unit \<times> bool \<Rightarrow> nat \<Rightarrow> (imc_unit \<times> bool) option" where
  "decouple_block st j =
     (case st of (u, changes) \<Rightarrow>
        if preds u j = [] then drop_succs j u changes else Some (u, changes))"

partial_function (option) decouple_unreachable :: "imc_unit \<Rightarrow> imc_unit option" where
  "decouple_unreachable u =
     do {
       (u', changes) \<leftarrow> fold_opt decouple_block [1..<n_basic_blocks u] (u, False);
       if changes then decouple_unreachable u' else Some u'
     }"

declare decouple_unreachable.simps [code]

section \<open>The graph a unit holds\<close>

text \<open>
  The three views of an edge agree: it is in the edge list, its source is among the
  target's predecessors, its target among the source's successors, once each.
\<close>

definition cfg_ok :: "imc_unit \<Rightarrow> bool" where
  "cfg_ok u \<longleftrightarrow>
     distinct (edge_list u)
     \<and> (\<forall>(p, b) \<in> set (edge_list u). p < n_basic_blocks u \<and> b < n_basic_blocks u)
     \<and> (\<forall>b < n_basic_blocks u. distinct (preds u b) \<and> distinct (succs u b)
          \<and> (\<forall>p. p \<in> set (preds u b) \<longleftrightarrow> (p, b) \<in> set (edge_list u))
          \<and> (\<forall>c. c \<in> set (succs u b) \<longleftrightarrow> (b, c) \<in> set (edge_list u)))"

lemma cfg_okD:
  assumes "cfg_ok u"
  shows "distinct (edge_list u)"
    and "(p, b) \<in> set (edge_list u) \<Longrightarrow> p < n_basic_blocks u"
    and "(p, b) \<in> set (edge_list u) \<Longrightarrow> b < n_basic_blocks u"
    and "b < n_basic_blocks u \<Longrightarrow> distinct (preds u b)"
    and "b < n_basic_blocks u \<Longrightarrow> distinct (succs u b)"
    and "b < n_basic_blocks u \<Longrightarrow> p \<in> set (preds u b) \<longleftrightarrow> (p, b) \<in> set (edge_list u)"
    and "b < n_basic_blocks u \<Longrightarrow> c \<in> set (succs u b) \<longleftrightarrow> (b, c) \<in> set (edge_list u)"
  using assms by (auto simp: cfg_ok_def)

text \<open>
  A path of blocks from the entry block, the last block first, and the blocks it
  reaches.
\<close>

inductive path_to :: "imc_unit \<Rightarrow> nat \<Rightarrow> nat list \<Rightarrow> bool" for u where
  path_entry: "path_to u 0 [0]"
| path_step: "path_to u p xs \<Longrightarrow> b < n_basic_blocks u \<Longrightarrow> p \<in> set (preds u b)
              \<Longrightarrow> path_to u b (b # xs)"

inductive_cases path_toE: "path_to u b xs"

definition reachable :: "imc_unit \<Rightarrow> nat \<Rightarrow> bool" where
  "reachable u b \<longleftrightarrow> (\<exists>xs. path_to u b xs)"

lemma path_to_last: "path_to u b xs \<Longrightarrow> b \<in> set xs"
  by (induction rule: path_to.induct) auto

lemma reachable_entry [intro]: "reachable u 0"
  using path_entry by (auto simp: reachable_def)

lemma reachable_step: "reachable u p \<Longrightarrow> b < n_basic_blocks u \<Longrightarrow> p \<in> set (preds u b) \<Longrightarrow> reachable u b"
  using path_step by (fastforce simp: reachable_def)

lemma reachable_preds: "reachable u b \<Longrightarrow> b \<noteq> 0 \<Longrightarrow> preds u b \<noteq> []"
  by (auto simp: reachable_def elim: path_toE)

section \<open>Adding and removing edges\<close>

lemma blocks_are_connected_from_iff [simp]: "blocks_are_connected_from fr ps \<longleftrightarrow> fr \<in> set ps"
  by (induction ps) auto

lemma unlink_remove1: "unlink e xs = remove1 e xs"
  by (induction xs) auto

lemma edge_count_from_eq: "edge_count_from es i = i + length es"
  by (induction es arbitrary: i) auto

lemma bb_add_edge_sel:
  assumes "fr < n_basic_blocks u" "to < n_basic_blocks u" "fr \<notin> set (preds u to)"
  shows "n_basic_blocks (bb_add_edge u fr to) = n_basic_blocks u"
    and "edge_list (bb_add_edge u fr to) = (fr, to) # edge_list u"
    and "preds (bb_add_edge u fr to) b = (if b = to then fr # preds u to else preds u b)"
    and "succs (bb_add_edge u fr to) b = (if b = fr then to # succs u fr else succs u b)"
  using assms by (auto simp: bb_add_edge_def blocks_are_connected_def Let_def nth_list_update)

lemma bb_add_edge_connected:
  "fr \<in> set (preds u to) \<Longrightarrow> bb_add_edge u fr to = u"
  by (simp add: bb_add_edge_def blocks_are_connected_def)

lemma bb_add_edge_ok:
  assumes "cfg_ok u" "fr < n_basic_blocks u" "to < n_basic_blocks u"
  shows "cfg_ok (bb_add_edge u fr to)"
proof (cases "fr \<in> set (preds u to)")
  case True
  then show ?thesis using assms(1) by (simp add: bb_add_edge_connected)
next
  case False
  note sel = bb_add_edge_sel [OF assms(2,3) False]
  have "to \<notin> set (succs u fr)" "(fr, to) \<notin> set (edge_list u)"
    using False cfg_okD [OF assms(1)] assms(2,3) by blast+
  then show ?thesis
    unfolding cfg_ok_def sel using False assms cfg_okD [OF assms(1)] by auto
qed

lemma bb_remove_edge_sel:
  assumes "fr < n_basic_blocks u" "to < n_basic_blocks u"
  shows "n_basic_blocks (bb_remove_edge u (fr, to)) = n_basic_blocks u"
    and "edge_list (bb_remove_edge u (fr, to)) = remove1 (fr, to) (edge_list u)"
    and "preds (bb_remove_edge u (fr, to)) b = (if b = to then remove1 fr (preds u to) else preds u b)"
    and "succs (bb_remove_edge u (fr, to)) b = (if b = fr then remove1 to (succs u fr) else succs u b)"
  using assms by (auto simp: bb_remove_edge_def Let_def nth_list_update unlink_remove1)

lemma bb_remove_edge_ok:
  assumes "cfg_ok u" "fr < n_basic_blocks u" "to < n_basic_blocks u"
  shows "cfg_ok (bb_remove_edge u (fr, to))"
proof -
  note sel = bb_remove_edge_sel [OF assms(2,3)] and D = cfg_okD [OF assms(1)]
  have d: "distinct (preds u to)" "distinct (succs u fr)" using D(4,5) assms(2,3) by blast+
  have e: "set (edge_list (bb_remove_edge u (fr, to))) = set (edge_list u) - {(fr, to)}"
    using D(1) by (simp add: sel)
  have "distinct (preds (bb_remove_edge u (fr, to)) b)" "distinct (succs (bb_remove_edge u (fr, to)) b)"
    if "b < n_basic_blocks u" for b
    using that D(4,5) by (simp_all add: sel distinct_remove1)
  moreover have "p \<in> set (preds (bb_remove_edge u (fr, to)) b) \<longleftrightarrow> (p, b) \<in> set (edge_list u) - {(fr, to)}"
    if "b < n_basic_blocks u" for p b
    using that D(6) d(1) assms(3) by (auto simp: sel)
  moreover have "c \<in> set (succs (bb_remove_edge u (fr, to)) b) \<longleftrightarrow> (b, c) \<in> set (edge_list u) - {(fr, to)}"
    if "b < n_basic_blocks u" for c b
    using that D(7) d(2) assms(2) by (auto simp: sel)
  moreover have "distinct (edge_list (bb_remove_edge u (fr, to)))"
    using D(1) by (simp add: sel distinct_remove1)
  moreover have "\<forall>(p, b) \<in> set (edge_list u) - {(fr, to)}. p < n_basic_blocks u \<and> b < n_basic_blocks u"
    using D(2,3) by blast
  ultimately show ?thesis unfolding cfg_ok_def e sel(1) by blast
qed

text \<open>
  C3. The edge lists implement a set of edges: starting from consistent lists,
  \<open>bb_add_edge\<close> inserts an edge and \<open>bb_remove_edge\<close> deletes one, the predecessor,
  successor and edge lists stay consistent, and \<open>edge_count\<close> is the number of
  edges.
\<close>

theorem edge_lists_refine_set:
  assumes "cfg_ok u" and "fr < n_basic_blocks u" and "to < n_basic_blocks u"
  shows "cfg_ok (bb_add_edge u fr to) \<and> cfg_ok (bb_remove_edge u (fr, to))
    \<and> set (edge_list (bb_add_edge u fr to)) = insert (fr, to) (set (edge_list u))
    \<and> set (edge_list (bb_remove_edge u (fr, to))) = set (edge_list u) - {(fr, to)}
    \<and> edge_count u = card (set (edge_list u))"
proof -
  have "set (edge_list (bb_add_edge u fr to)) = insert (fr, to) (set (edge_list u))"
  proof (cases "fr \<in> set (preds u to)")
    case True
    then show ?thesis using cfg_okD(6) [OF assms(1,3)] by (auto simp: bb_add_edge_connected)
  qed (simp add: bb_add_edge_sel assms)
  moreover have "set (edge_list (bb_remove_edge u (fr, to))) = set (edge_list u) - {(fr, to)}"
    using assms cfg_okD(1) [OF assms(1)] by (simp add: bb_remove_edge_sel)
  moreover have "edge_count u = card (set (edge_list u))"
    using cfg_okD(1) [OF assms(1)] by (simp add: edge_count_def edge_count_from_eq distinct_card)
  ultimately show ?thesis using bb_add_edge_ok [OF assms] bb_remove_edge_ok [OF assms] by simp
qed

text \<open>Units of \<open>n\<close> blocks and no edges, to build examples from.\<close>

definition unit_of :: "nat \<Rightarrow> imc_unit" where
  "unit_of n = \<lparr>bb_list = replicate n \<lparr>pred_list = [], succ_list = [], loop_depth = 0\<rparr>,
            edge_list = [], idoms = [], dominators = [], dominance_frontiers = [], loop_list = []\<rparr>"

lemma unit_of_sel [simp]:
  "n_basic_blocks (unit_of n) = n" "edge_list (unit_of n) = []"
  "b < n \<Longrightarrow> preds (unit_of n) b = []" "b < n \<Longrightarrow> succs (unit_of n) b = []"
  by (simp_all add: unit_of_def)

lemma cfg_ok_unit_of [simp]: "cfg_ok (unit_of n)"
  by (simp add: cfg_ok_def)

definition unit3 :: imc_unit where
  "unit3 = unit_of 3"

lemma unit3_sel [simp]:
  "n_basic_blocks unit3 = 3" "edge_list unit3 = []" "cfg_ok unit3"
  "b < 3 \<Longrightarrow> preds unit3 b = []" "b < 3 \<Longrightarrow> succs unit3 b = []"
  by (simp_all add: unit3_def)

theorem edge_lists_refine_set_witness:
  "set (edge_list (bb_add_edge unit3 0 2)) = {(0, 2)} \<and> edge_count unit3 = 0"
proof -
  have "0 < n_basic_blocks unit3" "2 < n_basic_blocks unit3" by simp_all
  from edge_lists_refine_set [OF unit3_sel(3) this] show ?thesis by simp
qed

section \<open>Decoupling unreachable blocks\<close>

abbreviation edges :: "imc_unit \<Rightarrow> (nat \<times> nat) set" where
  "edges u \<equiv> set (edge_list u)"

text \<open>Removing the out-edges of a block no path reaches keeps every path.\<close>

lemma paths_kept:
  assumes ok: "cfg_ok u" "cfg_ok u'" and n: "n_basic_blocks u' = n_basic_blocks u"
    and e: "edges u' \<subseteq> edges u" "edges u - edges u' \<subseteq> {j} \<times> UNIV"
    and j: "\<not> reachable u j"
  shows "path_to u' b xs \<longleftrightarrow> path_to u b xs"
proof
  assume "path_to u' b xs"
  then show "path_to u b xs"
  proof (induction rule: path_to.induct)
    case path_entry
    show ?case by (rule path_to.path_entry)
  next
    case (path_step p xs b)
    then have "p \<in> set (preds u b)" using ok e n cfg_okD(6) by (metis subsetD)
    then show ?case using path_step n by (auto intro: path_to.path_step)
  qed
next
  assume "path_to u b xs"
  then show "path_to u' b xs"
  proof (induction rule: path_to.induct)
    case path_entry
    show ?case by (rule path_to.path_entry)
  next
    case (path_step p xs b)
    then have "p \<noteq> j" using j by (auto simp: reachable_def)
    then have "(p, b) \<in> edges u'" using path_step ok(1) e(2) cfg_okD(6) by blast
    then have "p \<in> set (preds u' b)" using path_step ok(2) n cfg_okD(6) by metis
    then show ?case using path_step n by (auto intro: path_to.path_step)
  qed
qed

lemma drop_succs_Some:
  assumes "cfg_ok u" "j < n_basic_blocks u"
  shows "\<exists>u'. drop_succs j u c = Some (u', c \<or> succs u j \<noteq> []) \<and> cfg_ok u'
              \<and> n_basic_blocks u' = n_basic_blocks u \<and> edges u' = edges u - {j} \<times> UNIV
              \<and> (succs u j = [] \<longrightarrow> u' = u)"
  using assms
proof (induction "succs u j" arbitrary: u c)
  case Nil
  then have "edges u - {j} \<times> UNIV = edges u" using cfg_okD(7) [of u j] by auto
  then show ?case using Nil by (simp add: drop_succs.simps [of j u])
next
  case (Cons s ss)
  let ?u = "bb_remove_edge u (j, s)"
  have je: "(j, s) \<in> edges u" using cfg_okD(7) [OF Cons.prems, of s] Cons.hyps(2) [symmetric] by simp
  then have s: "s < n_basic_blocks u" using Cons.prems(1) cfg_okD(3) by blast
  note sel = bb_remove_edge_sel [OF Cons.prems(2) s]
  have ok: "cfg_ok ?u" using bb_remove_edge_ok [OF Cons.prems s] .
  note h = Cons.hyps(2) [symmetric]
  have ss: "ss = succs ?u j" by (simp add: sel h)
  have e: "edges ?u = edges u - {(j, s)}" using Cons.prems(1) by (simp add: sel cfg_okD(1))
  obtain u' where u': "drop_succs j ?u True = Some (u', True)" "cfg_ok u'"
      "n_basic_blocks u' = n_basic_blocks u" "edges u' = edges ?u - {j} \<times> UNIV"
    using Cons.hyps(1) [OF ss ok, of True] Cons.prems(2) sel(1) by auto
  have "drop_succs j u c = Some (u', True)"
    using u'(1) by (simp add: drop_succs.simps [of j u] h)
  then show ?case using u' e h by auto
qed

text \<open>What one sweep over the blocks does.\<close>

definition swept :: "imc_unit \<Rightarrow> nat list \<Rightarrow> imc_unit \<times> bool \<Rightarrow> bool" where
  "swept u js st \<longleftrightarrow> (case st of (u', c) \<Rightarrow>
     cfg_ok u' \<and> n_basic_blocks u' = n_basic_blocks u \<and> edges u' \<subseteq> edges u
     \<and> (\<forall>b xs. path_to u' b xs \<longleftrightarrow> path_to u b xs)
     \<and> (if c then edges u' \<subset> edges u
        else u' = u \<and> (\<forall>j \<in> set js. preds u j = [] \<longrightarrow> succs u j = [])))"

lemma decouple_block_swept:
  assumes "swept u js st" "0 < j" "j < n_basic_blocks u"
  shows "\<exists>st'. decouple_block st j = Some st' \<and> swept u (js @ [j]) st'"
proof -
  obtain v c where st: "st = (v, c)" by (cases st)
  have v: "cfg_ok v" "n_basic_blocks v = n_basic_blocks u" "edges v \<subseteq> edges u"
      "\<And>b xs. path_to v b xs \<longleftrightarrow> path_to u b xs"
    using assms(1) by (simp_all add: swept_def st)
  show ?thesis
  proof (cases "preds v j = []")
    case False
    then have "decouple_block st j = Some (v, c)" by (simp add: decouple_block_def st)
    then show ?thesis using assms(1) False by (auto simp: swept_def st)
  next
    case True
    have j: "j < n_basic_blocks v" using assms(3) v(2) by simp
    obtain v' where v': "drop_succs j v c = Some (v', c \<or> succs v j \<noteq> [])" "cfg_ok v'"
        "n_basic_blocks v' = n_basic_blocks v" "edges v' = edges v - {j} \<times> UNIV"
        "succs v j = [] \<Longrightarrow> v' = v"
      using drop_succs_Some [OF v(1) j, of c] by blast
    have nr: "\<not> reachable v j" using True assms(2) reachable_preds by blast
    have paths: "path_to v' b xs \<longleftrightarrow> path_to u b xs" for b xs
      using paths_kept [OF v(1) v'(2,3) _ _ nr] v'(4) v(4) by auto
    have "edges v' \<subset> edges u" if s: "succs v j \<noteq> []"
    proof -
      obtain t where "t \<in> set (succs v j)" using s by (cases "succs v j") auto
      then have "(j, t) \<in> edges v" using cfg_okD(7) [OF v(1) j] by blast
      then show ?thesis using v'(4) v(3) by blast
    qed
    moreover have "edges v' \<subset> edges u" if c
      using assms(1) that v'(4) v(3) by (auto simp: swept_def st)
    ultimately have "swept u (js @ [j]) (v', c \<or> succs v j \<noteq> [])"
      using v'(2-5) v(2,3) paths assms(1) True by (auto simp: swept_def st)
    then show ?thesis using v'(1) True by (auto simp: decouple_block_def st)
  qed
qed

lemma decouple_sweep:
  assumes "cfg_ok u"
  shows "\<exists>u' c. fold_opt decouple_block [1..<n_basic_blocks u] (u, False) = Some (u', c)
                \<and> swept u [1..<n_basic_blocks u] (u', c)"
proof -
  have "\<exists>st'. fold_opt decouple_block [1..<n_basic_blocks u] (u, False) = Some st'
              \<and> swept u [1..<n_basic_blocks u] st'"
  proof (rule fold_opt_invariant [where I = "swept u"])
    show "swept u [] (u, False)" using assms by (simp add: swept_def)
  next
    fix ys j zs st
    assume l: "[1..<n_basic_blocks u] = ys @ j # zs" and "swept u ys st"
    have "j \<in> set [1..<n_basic_blocks u]" unfolding l by simp
    then show "\<exists>st'. decouple_block st j = Some st' \<and> swept u (ys @ [j]) st'"
      using decouple_block_swept \<open>swept u ys st\<close> by simp
  qed
  then show ?thesis by force
qed

text \<open>
  C4. The decoupling loop of \<open>build_cfg\<close> ends.  It leaves a consistent graph in
  which every block but the first that has no predecessor has no successor, and it
  keeps exactly the paths from the entry block.
\<close>

theorem decouple_unreachable_correct:
  assumes "cfg_ok u"
  shows "\<exists>u'. decouple_unreachable u = Some u' \<and> cfg_ok u'
    \<and> n_basic_blocks u' = n_basic_blocks u
    \<and> (\<forall>j. 0 < j \<and> j < n_basic_blocks u \<and> preds u' j = [] \<longrightarrow> succs u' j = [])
    \<and> (\<forall>b xs. path_to u' b xs \<longleftrightarrow> path_to u b xs)"
  using assms
proof (induction "card (edges u)" arbitrary: u rule: less_induct)
  case less
  obtain v c where v: "fold_opt decouple_block [1..<n_basic_blocks u] (u, False) = Some (v, c)"
      "swept u [1..<n_basic_blocks u] (v, c)"
    using decouple_sweep [OF less.prems] by blast
  show ?case
  proof (cases c)
    case False
    then show ?thesis using v by (auto simp: decouple_unreachable.simps [of u] swept_def)
  next
    case True
    then have "card (edges v) < card (edges u)" "cfg_ok v"
      using v(2) by (auto simp: swept_def intro: psubset_card_mono)
    from less.hyps [OF this] obtain w where "decouple_unreachable v = Some w" "cfg_ok w"
      "n_basic_blocks w = n_basic_blocks v"
      "\<forall>j. 0 < j \<and> j < n_basic_blocks v \<and> preds w j = [] \<longrightarrow> succs w j = []"
      "\<forall>b xs. path_to w b xs \<longleftrightarrow> path_to v b xs" by blast
    then show ?thesis
      using v True by (simp add: decouple_unreachable.simps [of u] swept_def)
  qed
qed

theorem decouple_unreachable_correct_witness:
  "\<exists>u'. decouple_unreachable (bb_add_edge unit3 1 2) = Some u' \<and> (succs u' 1 = [] \<or> preds u' 1 \<noteq> [])"
proof -
  have n: "1 < n_basic_blocks unit3" "2 < n_basic_blocks unit3" by simp_all
  have "n_basic_blocks (bb_add_edge unit3 1 2) = 3" using bb_add_edge_sel(1) [OF n] by simp
  with decouple_unreachable_correct [OF bb_add_edge_ok [OF unit3_sel(3) n]] show ?thesis
    by fastforce
qed

end
