(* ===== verification/Imcc_Dominators.thy ===== *)
theory Imcc_Dominators
  imports Imcc_Cfg
begin

text \<open>
  Dominators, immediate dominators and dominance frontiers of a unit's control flow
  graph, \<open>compute_dominators\<close> and \<open>compute_dominance_frontiers\<close> of
  \<open>compilers/imcc/cfg.c\<close>.  The sets are the bit maps of \<open>Imcc_Sets\<close>; what the
  computation needs of them is the locale \<open>block_set\<close>, which the bit maps of one
  length interpret.
\<close>

section \<open>The computation\<close>

definition block_no :: "nat \<Rightarrow> u32" where
  "block_no i = word_of_nat i"

definition dom_init :: "imc_unit \<Rightarrow> nat \<Rightarrow> imc_set option" where
  "dom_init u i =
     (let n = block_no (n_basic_blocks u)
      in if i = 0 then set_add (set_make n) (block_no 0)
         else if preds u i \<noteq> [] then Some (set_make_full n)
         else set_add (set_make n) (block_no i))"

definition meet_pred :: "imc_set list \<Rightarrow> imc_set \<Rightarrow> nat \<Rightarrow> imc_set option" where
  "meet_pred doms s pred_index = do { d \<leftarrow> rd doms pred_index; set_intersec_inplace s d }"

definition dom_step :: "imc_unit \<Rightarrow> imc_set list \<times> bool \<Rightarrow> nat \<Rightarrow> (imc_set list \<times> bool) option" where
  "dom_step u st i =
     (case st of (doms, change) \<Rightarrow>
        do {
          d \<leftarrow> rd doms i;
          s \<leftarrow> set_copy d;
          s \<leftarrow> fold_opt (meet_pred doms) (preds u i) s;
          s \<leftarrow> set_add s (block_no i);
          same \<leftarrow> set_equal d s;
          if \<not> same then Some (doms[i := s], True) else Some (doms, change)
        })"

partial_function (option) dom_fixpoint :: "imc_unit \<Rightarrow> imc_set list \<Rightarrow> imc_set list option" where
  "dom_fixpoint u doms =
     do {
       (doms', change) \<leftarrow> fold_opt (dom_step u) [1..<n_basic_blocks u] (doms, False);
       if change then dom_fixpoint u doms' else Some doms'
     }"

declare dom_fixpoint.simps [code]

text \<open>
  The immediate dominator of \<open>b\<close>: the first block from the top that is in \<open>b\<close>'s
  dominators and in no other dominator's dominators.  Both loops count down.
\<close>

fun idom_wrong :: "imc_set list \<Rightarrow> nat \<Rightarrow> nat \<Rightarrow> nat list \<Rightarrow> bool option" where
  "idom_wrong doms b i [] = Some False"
| "idom_wrong doms b i (runner # rs) =
     (if runner \<noteq> b \<and> runner \<noteq> i
      then do {
        db \<leftarrow> rd doms b;
        c \<leftarrow> set_contains db (block_no runner);
        if c
        then do {
          dr \<leftarrow> rd doms runner;
          c' \<leftarrow> set_contains dr (block_no i);
          if c' then Some True else idom_wrong doms b i rs
        }
        else idom_wrong doms b i rs
      }
      else idom_wrong doms b i rs)"

fun idom_find :: "imc_set list \<Rightarrow> nat \<Rightarrow> nat list \<Rightarrow> nat option" where
  "idom_find doms b [] = Some 0"
| "idom_find doms b (i # is) =
     (if i \<noteq> b
      then do {
        db \<leftarrow> rd doms b;
        c \<leftarrow> set_contains db (block_no i);
        if c
        then do {
          wrong \<leftarrow> idom_wrong doms b i (rev [0..<length doms]);
          if \<not> wrong then Some i else idom_find doms b is
        }
        else idom_find doms b is
      }
      else idom_find doms b is)"

definition compute_dominators :: "imc_unit \<Rightarrow> imc_unit option" where
  "compute_dominators u =
     (let n = n_basic_blocks u
      in if n = 0 then None
         else do {
           doms \<leftarrow> those (map (dom_init u) [0..<n]);
           doms \<leftarrow> dom_fixpoint u doms;
           ids \<leftarrow> those (map (\<lambda>b. idom_find doms b (rev [1..<n])) [1..<n]);
           Some (u\<lparr>dominators := doms, idoms := 0 # ids\<rparr>)
         })"

section \<open>The sets the computation needs\<close>

text \<open>
  A type of sets of block numbers below \<open>n\<close> whose intersection acts on the elements
  below \<open>whole\<close> only.
\<close>

locale block_set =
  fixes n :: nat
    and whole :: nat
    and ok :: "'s \<Rightarrow> bool"
    and elems :: "'s \<Rightarrow> nat set"
    and copy :: "'s \<Rightarrow> 's option"
    and add :: "'s \<Rightarrow> nat \<Rightarrow> 's option"
    and mem :: "'s \<Rightarrow> nat \<Rightarrow> bool option"
    and inter :: "'s \<Rightarrow> 's \<Rightarrow> 's option"
    and same :: "'s \<Rightarrow> 's \<Rightarrow> bool option"
  assumes bound: "ok s \<Longrightarrow> elems s \<subseteq> {..<n}"
    and copy: "ok s \<Longrightarrow> \<exists>r. copy s = Some r \<and> ok r \<and> elems r = elems s"
    and add: "ok s \<Longrightarrow> i < n \<Longrightarrow> \<exists>r. add s i = Some r \<and> ok r \<and> elems r = insert i (elems s)"
    and mem: "ok s \<Longrightarrow> i < n \<Longrightarrow> mem s i = Some (i \<in> elems s)"
    and inter: "ok s \<Longrightarrow> ok t \<Longrightarrow> \<exists>r. inter s t = Some r \<and> ok r
                  \<and> elems r = {e \<in> elems s. e < whole \<longrightarrow> e \<in> elems t}"
    and same: "ok s \<Longrightarrow> ok t \<Longrightarrow> same s t = Some (elems s = elems t)"
begin

lemma finite_elems: "ok s \<Longrightarrow> finite (elems s)"
  using bound finite_subset by blast

lemma meet_all:
  assumes "ok s" "\<forall>t \<in> set ts. ok t"
  shows "\<exists>r. fold_opt inter ts s = Some r \<and> ok r
             \<and> elems r = {e \<in> elems s. e < whole \<longrightarrow> (\<forall>t \<in> set ts. e \<in> elems t)}"
  using assms
proof (induction ts arbitrary: s)
  case Nil
  then show ?case by simp
next
  case (Cons t ts)
  obtain r where r: "inter s t = Some r" "ok r" "elems r = {e \<in> elems s. e < whole \<longrightarrow> e \<in> elems t}"
    using inter Cons.prems by fastforce
  from Cons.IH [OF r(2)] Cons.prems(2) r(1,3) show ?case by auto
qed

text \<open>One refinement of a block's dominator set by those of its predecessors.\<close>

lemma refine:
  assumes "ok d" "\<forall>t \<in> set ts. ok t" "i < n" "i \<in> elems d"
  shows "\<exists>c m s. copy d = Some c \<and> fold_opt inter ts c = Some m \<and> add m i = Some s \<and> ok s
             \<and> same d s = Some (elems d = elems s)
             \<and> elems s = {e \<in> elems d. e = i \<or> e < whole \<longrightarrow> e = i \<or> (\<forall>t \<in> set ts. e \<in> elems t)}"
proof -
  obtain c where c: "copy d = Some c" "ok c" "elems c = elems d" using copy assms(1) by blast
  obtain m where m: "fold_opt inter ts c = Some m" "ok m"
      "elems m = {e \<in> elems d. e < whole \<longrightarrow> (\<forall>t \<in> set ts. e \<in> elems t)}"
    using meet_all [OF c(2) assms(2)] c(3) by auto
  obtain s where s: "add m i = Some s" "ok s" "elems s = insert i (elems m)"
    using add [OF m(2) assms(3)] by blast
  have "elems s = {e \<in> elems d. e = i \<or> e < whole \<longrightarrow> e = i \<or> (\<forall>t \<in> set ts. e \<in> elems t)}"
    using s(3) m(3) assms(4) by auto
  then show ?thesis using c(1) m(1) s(1,2) same [OF assms(1) s(2)] by blast
qed

end

definition block_ok :: "nat \<Rightarrow> imc_set \<Rightarrow> bool" where
  "block_ok n s \<longleftrightarrow> n < 2 ^ 32 \<and> set_wf s \<and> s_length s = block_no n"

definition whole_bytes :: "nat \<Rightarrow> nat" where
  "whole_bytes n = 8 * (n div 8)"

lemma unat_block_no: "n < 2 ^ 32 \<Longrightarrow> unat (block_no n) = n"
  by (simp add: block_no_def unat_of_nat_u32)

lemma block_okD:
  assumes "block_ok n s"
  shows "n < 2 ^ 32" "set_wf s" "s_length s = block_no n" "unat (s_length s) = n"
  using assms by (auto simp: block_ok_def unat_block_no)

lemma block_add:
  assumes "block_ok n s" "i < n"
  shows "\<exists>r. set_add s (block_no i) = Some r \<and> block_ok n r \<and> s_elems r = insert i (s_elems s)"
proof -
  note D = block_okD [OF assms(1)]
  have i: "unat (block_no i) = i" using assms(2) D(1) by (simp add: unat_block_no)
  have "unat (block_no i) div 8 \<le> unat (s_length s) div 8"
    using assms(2) D(4) i by (simp add: div_le_mono)
  from set_add_in_range [OF D(2) this] show ?thesis
    using D assms i by (auto simp: block_ok_def s_elems_def)
qed

lemma block_inter:
  assumes "block_ok n s" "block_ok n t"
  shows "\<exists>r. set_intersec_inplace s t = Some r \<and> block_ok n r
           \<and> s_elems r = {e \<in> s_elems s. e < whole_bytes n \<longrightarrow> e \<in> s_elems t}"
proof -
  note S = block_okD [OF assms(1)] and T = block_okD [OF assms(2)]
  have "s_length s = s_length t" using S(3) T(3) by simp
  from set_intersec_inplace_Some [OF S(2) T(2) this] show ?thesis
    using S T by (auto simp: block_ok_def s_elems_def whole_bytes_def elem_whole_byte)
qed

interpretation imc: block_set n "whole_bytes n" "block_ok n" s_elems set_copy
  "\<lambda>s i. set_add s (block_no i)" "\<lambda>s i. set_contains s (block_no i)"
  set_intersec_inplace set_equal for n
proof
  fix s assume s: "block_ok n s"
  show "s_elems s \<subseteq> {..<n}" using block_okD(4) [OF s] by (auto simp: s_elems_def)
  show "\<exists>r. set_copy s = Some r \<and> block_ok n r \<and> s_elems r = s_elems s"
    using set_copy_Some [OF block_okD(2) [OF s]] block_okD [OF s]
    by (auto simp: block_ok_def s_elems_def)
next
  fix s i assume s: "block_ok n s" and i: "i < n"
  show "\<exists>r. set_add s (block_no i) = Some r \<and> block_ok n r \<and> s_elems r = insert i (s_elems s)"
    by (rule block_add [OF s i])
  have "unat (block_no i) = i" using i block_okD(1) [OF s] by (simp add: unat_block_no)
  then show "set_contains s (block_no i) = Some (i \<in> s_elems s)"
    using set_contains_in_range [OF block_okD(2) [OF s]] block_okD(4) [OF s] i by simp
next
  fix s t assume s: "block_ok n s" and t: "block_ok n t"
  show "\<exists>r. set_intersec_inplace s t = Some r \<and> block_ok n r
           \<and> s_elems r = {e \<in> s_elems s. e < whole_bytes n \<longrightarrow> e \<in> s_elems t}"
    by (rule block_inter [OF s t])
  have "set_wf s" "set_wf t" "s_length s = s_length t"
    using block_okD(2,3) [OF s] block_okD(2,3) [OF t] by simp_all
  then show "set_equal s t = Some (s_elems s = s_elems t)"
    by (rule set_equal_elems)
qed

section \<open>Dominance\<close>

text \<open>Block \<open>d\<close> dominates \<open>b\<close> when every path from the entry block to \<open>b\<close> passes through it.\<close>

definition dominates :: "imc_unit \<Rightarrow> nat \<Rightarrow> nat \<Rightarrow> bool" where
  "dominates u d b \<longleftrightarrow> (\<forall>xs. path_to u b xs \<longrightarrow> d \<in> set xs)"

definition decoupled :: "imc_unit \<Rightarrow> bool" where
  "decoupled u \<longleftrightarrow> cfg_ok u \<and>
     (\<forall>j. 0 < j \<and> j < n_basic_blocks u \<and> preds u j = [] \<longrightarrow> succs u j = [])"

lemma dominates_refl: "dominates u b b"
  by (auto simp: dominates_def path_to_last)

lemma dominates_entry: "dominates u e 0 \<Longrightarrow> e = 0"
  using path_to.path_entry by (fastforce simp: dominates_def)

lemma path_to_bound: "path_to u b xs \<Longrightarrow> 0 < n_basic_blocks u \<Longrightarrow> b < n_basic_blocks u"
  by (induction rule: path_to.induct) auto

lemma decoupled_pred:
  assumes "decoupled u" "b < n_basic_blocks u" "p \<in> set (preds u b)"
  shows "p < n_basic_blocks u" "p = 0 \<or> preds u p \<noteq> []"
proof -
  have e: "(p, b) \<in> edges u" using assms by (auto simp: decoupled_def cfg_okD(6))
  then show p: "p < n_basic_blocks u" using assms(1) by (auto simp: decoupled_def dest: cfg_okD(2))
  then have "b \<in> set (succs u p)" using e assms(1) by (auto simp: decoupled_def cfg_okD(7))
  then have "succs u p \<noteq> []" by auto
  then show "p = 0 \<or> preds u p \<noteq> []" using assms(1) p by (auto simp: decoupled_def)
qed

lemma dominates_pred:
  assumes "dominates u e b" "e \<noteq> b" "b < n_basic_blocks u" "p \<in> set (preds u b)"
  shows "dominates u e p"
  using assms path_step [of u p _ b] by (fastforce simp: dominates_def)

section \<open>The invariant of the iteration\<close>

definition dom_inv :: "imc_unit \<Rightarrow> imc_set list \<Rightarrow> bool" where
  "dom_inv u doms \<longleftrightarrow> length doms = n_basic_blocks u
     \<and> (\<forall>i < n_basic_blocks u. block_ok (n_basic_blocks u) (doms ! i) \<and> i \<in> s_elems (doms ! i))
     \<and> s_elems (doms ! 0) = {0}
     \<and> (\<forall>b < n_basic_blocks u. \<forall>e < n_basic_blocks u.
          dominates u e b \<and> (b = 0 \<or> preds u b \<noteq> []) \<longrightarrow> e \<in> s_elems (doms ! b))
     \<and> (\<forall>b < n_basic_blocks u. \<forall>e < n_basic_blocks u. whole_bytes (n_basic_blocks u) \<le> e \<longrightarrow>
          (e \<in> s_elems (doms ! b) \<longleftrightarrow> e = b \<or> b \<noteq> 0 \<and> preds u b \<noteq> []))"

definition dom_settled :: "imc_unit \<Rightarrow> imc_set list \<Rightarrow> nat \<Rightarrow> bool" where
  "dom_settled u doms i \<longleftrightarrow> (\<forall>e \<in> s_elems (doms ! i). e \<noteq> i \<and> e < whole_bytes (n_basic_blocks u)
     \<longrightarrow> (\<forall>p \<in> set (preds u i). e \<in> s_elems (doms ! p)))"

definition dom_size :: "imc_set list \<Rightarrow> nat" where
  "dom_size doms = (\<Sum>i < length doms. card (s_elems (doms ! i)))"

lemma dom_invD:
  assumes "dom_inv u doms"
  shows "length doms = n_basic_blocks u"
    and "i < n_basic_blocks u \<Longrightarrow> block_ok (n_basic_blocks u) (doms ! i)"
    and "i < n_basic_blocks u \<Longrightarrow> i \<in> s_elems (doms ! i)"
    and "s_elems (doms ! 0) = {0}"
    and "b < n_basic_blocks u \<Longrightarrow> e < n_basic_blocks u \<Longrightarrow> dominates u e b
           \<Longrightarrow> b = 0 \<or> preds u b \<noteq> [] \<Longrightarrow> e \<in> s_elems (doms ! b)"
    and "b < n_basic_blocks u \<Longrightarrow> e < n_basic_blocks u \<Longrightarrow> whole_bytes (n_basic_blocks u) \<le> e
           \<Longrightarrow> e \<in> s_elems (doms ! b) \<longleftrightarrow> e = b \<or> b \<noteq> 0 \<and> preds u b \<noteq> []"
  using assms unfolding dom_inv_def by blast+

lemma dom_size_update:
  assumes "i < length doms" "s_elems s \<subset> s_elems (doms ! i)" "finite (s_elems (doms ! i))"
  shows "dom_size (doms[i := s]) < dom_size doms"
  unfolding dom_size_def length_list_update
proof (rule sum_strict_mono_ex1)
  have "card (s_elems s) < card (s_elems (doms ! i))" using assms by (simp add: psubset_card_mono)
  then show "\<forall>j \<in> {..<length doms}. card (s_elems (doms[i := s] ! j)) \<le> card (s_elems (doms ! j))"
    and "\<exists>j \<in> {..<length doms}. card (s_elems (doms[i := s] ! j)) < card (s_elems (doms ! j))"
    using assms(1) by (auto simp: nth_list_update)
qed simp

lemma dom_step_cases:
  assumes inv: "dom_inv u doms" and u: "decoupled u" and i: "0 < i" "i < n_basic_blocks u"
  shows "\<exists>doms' c'. dom_step u (doms, c) i = Some (doms', c') \<and> dom_inv u doms'
           \<and> (doms' = doms \<and> c' = c \<and> dom_settled u doms i \<or> c' \<and> dom_size doms' < dom_size doms)"
proof -
  let ?n = "n_basic_blocks u" and ?d = "doms ! i" and ?ts = "map ((!) doms) (preds u i)"
  note I = dom_invD [OF inv]
  have ps: "p < ?n" "p = 0 \<or> preds u p \<noteq> []" if "p \<in> set (preds u i)" for p
    using decoupled_pred [OF u i(2) that] by auto
  have ts: "\<forall>t \<in> set ?ts. block_ok ?n t" using I(2) ps(1) by auto
  have fold: "fold_opt (meet_pred doms) (preds u i) c' = fold_opt set_intersec_inplace ?ts c'" for c'
    by (rule fold_opt_cong_map) (simp add: meet_pred_def I(1) ps(1))
  obtain c' m s where s: "set_copy ?d = Some c'" "fold_opt set_intersec_inplace ?ts c' = Some m"
      "set_add m (block_no i) = Some s" "block_ok ?n s"
      "set_equal ?d s = Some (s_elems ?d = s_elems s)"
      "s_elems s = {e \<in> s_elems ?d. e = i \<or> e < whole_bytes ?n \<longrightarrow> e = i \<or> (\<forall>t \<in> set ?ts. e \<in> s_elems t)}"
    using imc.refine [OF I(2) [OF i(2)] ts i(2) I(3) [OF i(2)]] by blast
  have step: "dom_step u (doms, c) i
      = Some (if s_elems ?d = s_elems s then (doms, c) else (doms[i := s], True))"
    using s i I(1) by (simp add: dom_step_def fold)
  show ?thesis
  proof (cases "s_elems ?d = s_elems s")
    case True
    then have "dom_settled u doms i" using s(6) by (auto simp: dom_settled_def)
    then show ?thesis using step True inv by auto
  next
    case False
    have sub: "s_elems s \<subset> s_elems ?d" using s(6) False by auto
    have "dom_size (doms[i := s]) < dom_size doms"
      using dom_size_update [OF _ sub] imc.finite_elems [OF I(2) [OF i(2)]] I(1) i by simp
    moreover have "dom_inv u (doms[i := s])"
      unfolding dom_inv_def
    proof (intro conjI allI impI)
      fix b e assume b: "b < ?n" and e: "e < ?n" and D: "dominates u e b \<and> (b = 0 \<or> preds u b \<noteq> [])"
      show "e \<in> s_elems (doms[i := s] ! b)"
      proof (cases "b = i")
        case True
        have "e \<in> s_elems ?d" using I(5) b e D True by blast
        moreover have "e = i \<or> (\<forall>p \<in> set (preds u i). e \<in> s_elems (doms ! p))"
          using I(5) [OF ps(1) e] ps(2) dominates_pred [of u e i] D True i(2) by blast
        ultimately show ?thesis using s(6) True b I(1) by auto
      qed (use I(5) b e D in simp)
    next
      fix b e assume b: "b < ?n" and e: "e < ?n" "whole_bytes ?n \<le> e"
      show "e \<in> s_elems (doms[i := s] ! b) \<longleftrightarrow> e = b \<or> b \<noteq> 0 \<and> preds u b \<noteq> []"
        using I(6) [OF b e] s(6) e(2) i I(1) I(3) [OF i(2)] by (auto simp: nth_list_update)
    next
      fix j assume j: "j < ?n"
      show "block_ok ?n (doms[i := s] ! j)" using I(1) I(2) [OF j] s(4) j by (cases "i = j") simp_all
      show "j \<in> s_elems (doms[i := s] ! j)" using I(1) I(3) [OF j] s(6) j by (cases "i = j") simp_all
    qed (use I(1,4) i in simp_all)
    ultimately show ?thesis using step False by auto
  qed
qed

section \<open>The fixpoint\<close>

lemma dom_sweep:
  assumes inv: "dom_inv u doms" and u: "decoupled u"
  shows "\<exists>doms' c. fold_opt (dom_step u) [1..<n_basic_blocks u] (doms, False) = Some (doms', c)
     \<and> dom_inv u doms' \<and> (if c then dom_size doms' < dom_size doms
        else doms' = doms \<and> (\<forall>i \<in> {1..<n_basic_blocks u}. dom_settled u doms i))"
proof -
  let ?I = "\<lambda>is st. case st of (doms', c) \<Rightarrow> dom_inv u doms' \<and>
     (if c then dom_size doms' < dom_size doms else doms' = doms \<and> (\<forall>i \<in> set is. dom_settled u doms i))"
  have "\<exists>st. fold_opt (dom_step u) [1..<n_basic_blocks u] (doms, False) = Some st
             \<and> ?I [1..<n_basic_blocks u] st"
  proof (rule fold_opt_invariant [where I = ?I])
    show "?I [] (doms, False)" using inv by simp
  next
    fix ys i zs st
    assume l: "[1..<n_basic_blocks u] = ys @ i # zs" and I: "?I ys st"
    obtain v c where st: "st = (v, c)" by (cases st)
    have "i \<in> set [1..<n_basic_blocks u]" unfolding l by simp
    then have i: "0 < i" "i < n_basic_blocks u" by auto
    have "dom_inv u v" using I st by simp
    from dom_step_cases [OF this u i, of c] obtain w c' where w:
      "dom_step u (v, c) i = Some (w, c')" "dom_inv u w"
      "w = v \<and> c' = c \<and> dom_settled u v i \<or> c' \<and> dom_size w < dom_size v" by blast
    have "?I (ys @ [i]) (w, c')"
    proof (cases "w = v \<and> c' = c \<and> dom_settled u v i")
      case True
      then show ?thesis using I st by (cases c) auto
    next
      case False
      then have "c'" "dom_size w < dom_size v" using w(3) by blast+
      moreover have "dom_size v \<le> dom_size doms" using I st by (cases c) simp_all
      ultimately show ?thesis using w(2) by simp
    qed
    then show "\<exists>s'. dom_step u st i = Some s' \<and> ?I (ys @ [i]) s'" using w(1) st by blast
  qed
  then show ?thesis by force
qed

lemma dom_fixpoint_Some:
  assumes "dom_inv u doms" "decoupled u"
  shows "\<exists>doms'. dom_fixpoint u doms = Some doms' \<and> dom_inv u doms'
           \<and> (\<forall>i \<in> {1..<n_basic_blocks u}. dom_settled u doms' i)"
  using assms(1)
proof (induction "dom_size doms" arbitrary: doms rule: less_induct)
  case less
  obtain v c where v: "fold_opt (dom_step u) [1..<n_basic_blocks u] (doms, False) = Some (v, c)"
      "dom_inv u v" "if c then dom_size v < dom_size doms
        else v = doms \<and> (\<forall>i \<in> {1..<n_basic_blocks u}. dom_settled u doms i)"
    using dom_sweep [OF less.prems assms(2)] by blast
  show ?case
  proof (cases c)
    case True
    then show ?thesis using less.hyps [of v] v by (simp add: dom_fixpoint.simps [of u doms])
  next
    case False
    then show ?thesis using v by (auto simp: dom_fixpoint.simps [of u doms])
  qed
qed

lemma set_make_block_ok: "n < 2 ^ 32 \<Longrightarrow> block_ok n (set_make (block_no n))"
  by (simp add: block_ok_def)

lemma set_make_full_block_ok: "n < 2 ^ 32 \<Longrightarrow> block_ok n (set_make_full (block_no n))"
  by (simp add: block_ok_def)

lemma dom_init_Some:
  assumes "n_basic_blocks u < 2 ^ 32" "i < n_basic_blocks u"
  shows "\<exists>s. dom_init u i = Some s \<and> block_ok (n_basic_blocks u) s
    \<and> s_elems s = (if i \<noteq> 0 \<and> preds u i \<noteq> [] then {..<n_basic_blocks u} else {i})"
proof -
  let ?n = "n_basic_blocks u"
  from block_add [OF set_make_block_ok [OF assms(1)] assms(2)]
  have "\<exists>s. set_add (set_make (block_no ?n)) (block_no i) = Some s \<and> block_ok ?n s \<and> s_elems s = {i}"
    by simp
  then show ?thesis
    using set_make_full_block_ok [OF assms(1)] assms(1)
    by (auto simp: dom_init_def Let_def unat_block_no)
qed

lemma dom_init_inv:
  assumes n: "0 < n_basic_blocks u" "n_basic_blocks u < 2 ^ 32"
  shows "\<exists>doms. those (map (dom_init u) [0..<n_basic_blocks u]) = Some doms \<and> dom_inv u doms"
proof -
  let ?n = "n_basic_blocks u"
  let ?P = "\<lambda>i s. block_ok ?n s \<and> s_elems s = (if i \<noteq> 0 \<and> preds u i \<noteq> [] then {..<?n} else {i})"
  have "\<exists>s. dom_init u i = Some s \<and> ?P i s" if "i \<in> set [0..<?n]" for i
    using dom_init_Some [OF n(2), of i] that by auto
  from those_map_ex [of "[0..<?n]" "dom_init u" ?P, OF this] obtain doms where
    d: "those (map (dom_init u) [0..<?n]) = Some doms" "length doms = length [0..<?n]"
       "\<forall>i < length [0..<?n]. ?P ([0..<?n] ! i) (doms ! i)" by blast
  have P: "?P i (doms ! i)" if "i < ?n" for i
    using d(3) [rule_format, of i] that by (simp only: length_upt nth_upt diff_zero add_0)
  have "dom_inv u doms"
    unfolding dom_inv_def
  proof (intro conjI allI impI)
    fix i assume i: "i < ?n"
    show "block_ok ?n (doms ! i)" "i \<in> s_elems (doms ! i)" using P [OF i] i by simp_all
  next
    show "length doms = ?n" "s_elems (doms ! 0) = {0}" using d(2) P [OF n(1)] by simp_all
  next
    fix b e assume b: "b < ?n" "e < ?n" "dominates u e b \<and> (b = 0 \<or> preds u b \<noteq> [])"
    show "e \<in> s_elems (doms ! b)"
      using P [OF b(1)] b(2,3) by (cases "b = 0") (simp_all add: dominates_entry)
  next
    fix b e assume b: "b < ?n" "e < ?n"
    show "e \<in> s_elems (doms ! b) \<longleftrightarrow> e = b \<or> b \<noteq> 0 \<and> preds u b \<noteq> []"
      using P [OF b(1)] b(2) by simp
  qed
  then show ?thesis using d(1) by blast
qed

lemma settled_sound:
  assumes n: "0 < n_basic_blocks u" and inv: "dom_inv u doms"
    and settled: "\<forall>i \<in> {1..<n_basic_blocks u}. dom_settled u doms i"
    and p: "path_to u b xs" and e: "e \<in> s_elems (doms ! b)" "e < whole_bytes (n_basic_blocks u)"
  shows "e \<in> set xs"
  using p e(1)
proof (induction rule: path_to.induct)
  case path_entry
  then show ?case using dom_invD(4) [OF inv] by simp
next
  case (path_step p xs b)
  show ?case
  proof (cases "e = b")
    case False
    have "b \<noteq> 0"
    proof
      assume "b = 0"
      with path_step.prems have "e \<in> s_elems (doms ! 0)" by simp
      with dom_invD(4) [OF inv] False \<open>b = 0\<close> show False by simp
    qed
    then have "dom_settled u doms b" using settled path_step.hyps(2) by auto
    then have "e \<in> s_elems (doms ! p)"
      using path_step.prems path_step.hyps(3) False e(2) by (auto simp: dom_settled_def)
    then show ?thesis using path_step.IH by simp
  qed simp
qed

text \<open>What the computed sets hold, for a reachable block.\<close>

definition dom_spec :: "imc_unit \<Rightarrow> nat \<Rightarrow> nat set" where
  "dom_spec u b = {d. d < n_basic_blocks u
     \<and> (if d < whole_bytes (n_basic_blocks u) then dominates u d b else b \<noteq> 0 \<or> d = 0)}"

lemma dom_fixpoint_spec:
  assumes n: "0 < n_basic_blocks u" and inv: "dom_inv u doms"
    and settled: "\<forall>i \<in> {1..<n_basic_blocks u}. dom_settled u doms i"
    and b: "reachable u b"
  shows "s_elems (doms ! b) = dom_spec u b"
proof -
  let ?n = "n_basic_blocks u"
  obtain xs where "path_to u b xs" using b by (auto simp: reachable_def)
  then have bn: "b < ?n" using path_to_bound n by blast
  have bp: "b = 0 \<or> preds u b \<noteq> []" using b reachable_preds by blast
  have lt: "d < ?n" if "d \<in> s_elems (doms ! b)" for d
    using imc.bound [OF dom_invD(2) [OF inv bn]] that by auto
  have low: "d \<in> s_elems (doms ! b) \<longleftrightarrow> dominates u d b" if d: "d < ?n" "d < whole_bytes ?n" for d
  proof
    assume "d \<in> s_elems (doms ! b)"
    then show "dominates u d b"
      unfolding dominates_def using settled_sound [OF n inv settled _ _ d(2)] by blast
  next
    assume "dominates u d b"
    then show "d \<in> s_elems (doms ! b)" using dom_invD(5) [OF inv bn d(1) _ bp] by blast
  qed
  have high: "d \<in> s_elems (doms ! b) \<longleftrightarrow> b \<noteq> 0 \<or> d = 0"
    if d: "d < ?n" "\<not> d < whole_bytes ?n" for d
  proof -
    have "whole_bytes ?n \<le> d" using d(2) by simp
    then have "d \<in> s_elems (doms ! b) \<longleftrightarrow> d = b \<or> b \<noteq> 0 \<and> preds u b \<noteq> []"
      by (rule dom_invD(6) [OF inv bn d(1)])
    then show ?thesis using bp by (cases "b = 0") simp_all
  qed
  have "d \<in> s_elems (doms ! b) \<longleftrightarrow> d \<in> dom_spec u b" for d
    using lt [of d] low [of d] high [of d] by (cases "d < whole_bytes ?n") (auto simp: dom_spec_def)
  then show ?thesis by blast
qed

section \<open>Paths and the dominance order\<close>

text \<open>A path's prefix up to one of its blocks is a path to that block.\<close>

lemma path_prefix:
  assumes "path_to u b xs" "d \<in> set xs"
  shows "\<exists>ys zs. xs = ys @ zs \<and> path_to u d zs \<and> d \<notin> set ys"
  using assms
proof (induction rule: path_to.induct)
  case path_entry
  then show ?case using path_to.path_entry by (intro exI [of _ "[]"] exI [of _ "[0]"]) auto
next
  case (path_step p xs b)
  show ?case
  proof (cases "d = b")
    case True
    then show ?thesis using path_to.path_step [OF path_step.hyps(1-3)]
      by (intro exI [of _ "[]"] exI [of _ "b # xs"]) auto
  next
    case False
    then obtain ys zs where "xs = ys @ zs" "path_to u d zs" "d \<notin> set ys"
      using path_step by auto
    then show ?thesis using False by (intro exI [of _ "b # ys"] exI [of _ zs]) auto
  qed
qed

lemma path_to_hd: "path_to u b xs \<Longrightarrow> xs \<noteq> [] \<and> hd xs = b"
  by (induction rule: path_to.induct) auto

lemma path_to_unique: "path_to u b xs \<Longrightarrow> path_to u d xs \<Longrightarrow> b = d"
  by (metis path_to_hd)

text \<open>Another path to an inner block can be put in place of the prefix.\<close>

lemma path_replace:
  assumes "path_to u b (ys @ zs)" "path_to u d zs" "path_to u d ws"
  shows "path_to u b (ys @ ws)"
  using assms
proof (induction ys arbitrary: b)
  case Nil
  then have "b = d" using path_to_unique [of u b zs d] by simp
  then show ?case using Nil by simp
next
  case (Cons y ys)
  from Cons.prems(1) obtain p where p: "b = y" "path_to u p (ys @ zs)" "b < n_basic_blocks u"
      "p \<in> set (preds u b)"
  proof (cases rule: path_to.cases)
    case path_entry
    then have "zs = []" by simp
    then show ?thesis using Cons.prems(2) path_to_hd by blast
  next
    case (path_step p xs)
    then show ?thesis using that by simp
  qed
  have "path_to u p (ys @ ws)" using Cons.IH [OF p(2) Cons.prems(2,3)] .
  then show ?case using p path_to.path_step by simp
qed

lemma dominates_reachable: "dominates u d b \<Longrightarrow> reachable u b \<Longrightarrow> reachable u d"
  using path_prefix by (fastforce simp: dominates_def reachable_def)

lemma dominates_trans: "dominates u a b \<Longrightarrow> dominates u b c \<Longrightarrow> dominates u a c"
  using path_prefix by (fastforce simp: dominates_def)

lemma dominates_antisym:
  assumes "dominates u a b" "dominates u b a" "reachable u b"
  shows "a = b"
proof (rule ccontr)
  assume ne: "a \<noteq> b"
  have "\<not> path_to u b xs" for xs
  proof (induction "length xs" arbitrary: xs rule: less_induct)
    case less
    show ?case
    proof
      assume b: "path_to u b xs"
      then have "a \<in> set xs" using assms(1) by (simp add: dominates_def)
      with path_prefix [OF b] obtain ys zs where 1: "xs = ys @ zs" "path_to u a zs" by blast
      have "ys \<noteq> []" using 1 b path_to_unique [of u b zs a] ne by auto
      then have "length zs < length xs" using 1(1) by simp
      have "b \<in> set zs" using assms(2) 1(2) by (simp add: dominates_def)
      with path_prefix [OF 1(2)] obtain us vs where 2: "zs = us @ vs" "path_to u b vs" by blast
      have "length vs < length xs" using 2(1) \<open>length zs < length xs\<close> by simp
      then show False using less 2(2) by blast
    qed
  qed
  then show False using assms(3) by (auto simp: reachable_def)
qed

text \<open>The dominators of a reachable block form a chain.\<close>

lemma dominates_chain:
  assumes "dominates u a b" "dominates u c b" "reachable u b"
  shows "dominates u a c \<or> dominates u c a"
proof (rule ccontr)
  assume "\<not> (dominates u a c \<or> dominates u c a)"
  then obtain P Q where P: "path_to u c P" "a \<notin> set P" and Q: "path_to u a Q" "c \<notin> set Q"
    by (auto simp: dominates_def)
  obtain xs where xs: "path_to u b xs" using assms(3) by (auto simp: reachable_def)
  have "a \<in> set xs" "c \<in> set xs" using assms(1,2) xs by (simp_all add: dominates_def)
  with path_prefix [OF xs] obtain ys zs ys' zs' where
    a: "xs = ys @ zs" "path_to u a zs" "a \<notin> set ys" and
    c: "xs = ys' @ zs'" "path_to u c zs'" "c \<notin> set ys'" by metis
  show False
  proof (cases "length ys \<le> length ys'")
    case True
    then have "set ys \<subseteq> set ys'" using a(1) c(1) by (metis append_eq_append_conv_if set_take_subset)
    then have "c \<notin> set (ys @ Q)" using c(3) Q(2) by auto
    moreover have "path_to u b (ys @ Q)" using path_replace xs a(1,2) Q(1) by blast
    ultimately show False using assms(2) by (auto simp: dominates_def)
  next
    case False
    then have "set ys' \<subseteq> set ys"
      using a(1) c(1) by (metis append_eq_append_conv_if nat_le_linear set_take_subset)
    then have "a \<notin> set (ys' @ P)" using a(3) P(2) by auto
    moreover have "path_to u b (ys' @ P)" using path_replace xs c(1,2) P(1) by blast
    ultimately show False using assms(1) by (auto simp: dominates_def)
  qed
qed

section \<open>Immediate dominators\<close>

definition idom_blocked :: "imc_set list \<Rightarrow> nat \<Rightarrow> nat \<Rightarrow> nat \<Rightarrow> bool" where
  "idom_blocked doms b i r \<longleftrightarrow>
     r \<noteq> b \<and> r \<noteq> i \<and> r \<in> s_elems (doms ! b) \<and> i \<in> s_elems (doms ! r)"

lemma idom_wrong_Some:
  assumes "\<forall>i < length doms. block_ok (length doms) (doms ! i)" "b < length doms" "i < length doms"
    "\<forall>r \<in> set rs. r < length doms"
  shows "idom_wrong doms b i rs = Some (\<exists>r \<in> set rs. idom_blocked doms b i r)"
  using assms(4)
proof (induction rs)
  case Nil
  then show ?case by simp
next
  case (Cons r rs)
  have r: "r < length doms" using Cons.prems by simp
  have "set_contains (doms ! b) (block_no r) = Some (r \<in> s_elems (doms ! b))"
    "set_contains (doms ! r) (block_no i) = Some (i \<in> s_elems (doms ! r))"
    using imc.mem [OF assms(1) [rule_format]] assms(2,3) r by simp_all
  then show ?case using Cons assms(2) r by (auto simp: idom_blocked_def)
qed

lemma idom_find_Some:
  assumes "\<forall>i < length doms. block_ok (length doms) (doms ! i)" "b < length doms"
    "\<forall>i \<in> set is. i < length doms"
  shows "\<exists>d. idom_find doms b is = Some d \<and>
    ((d \<in> set is \<and> d \<noteq> b \<and> d \<in> s_elems (doms ! b) \<and> (\<forall>r < length doms. \<not> idom_blocked doms b d r))
     \<or> d = 0 \<and> (\<forall>i \<in> set is. i \<noteq> b \<and> i \<in> s_elems (doms ! b) \<longrightarrow> (\<exists>r < length doms. idom_blocked doms b i r)))"
  using assms(3)
proof (induction "is")
  case Nil
  then show ?case by simp
next
  case (Cons i "is")
  then obtain d where d: "idom_find doms b is = Some d"
    "(d \<in> set is \<and> d \<noteq> b \<and> d \<in> s_elems (doms ! b) \<and> (\<forall>r < length doms. \<not> idom_blocked doms b d r))
     \<or> d = 0 \<and> (\<forall>i \<in> set is. i \<noteq> b \<and> i \<in> s_elems (doms ! b) \<longrightarrow> (\<exists>r < length doms. idom_blocked doms b i r))"
    by auto
  have i: "i < length doms" using Cons.prems by simp
  have c: "set_contains (doms ! b) (block_no i) = Some (i \<in> s_elems (doms ! b))"
    using imc.mem [OF assms(1) [rule_format]] assms(2) i by simp
  have w: "idom_wrong doms b i (rev [0..<length doms]) = Some (\<exists>r < length doms. idom_blocked doms b i r)"
    using idom_wrong_Some [OF assms(1,2) i, of "rev [0..<length doms]"] by (auto simp: Bex_def)
  have eq: "idom_find doms b (i # is) =
      (if i \<noteq> b \<and> i \<in> s_elems (doms ! b) \<and> \<not> (\<exists>r < length doms. idom_blocked doms b i r)
       then Some i else idom_find doms b is)"
    using assms(2) c w by simp
  show ?case
  proof (cases "i \<noteq> b \<and> i \<in> s_elems (doms ! b) \<and> \<not> (\<exists>r < length doms. idom_blocked doms b i r)")
    case True
    then show ?thesis unfolding eq by auto
  next
    case False
    then show ?thesis unfolding eq if_not_P [OF False] using d by auto
  qed
qed

lemma compute_dominators_Some:
  assumes u: "decoupled u" and n: "0 < n_basic_blocks u" "n_basic_blocks u < 2 ^ 31"
  shows "\<exists>u'. compute_dominators u = Some u' \<and> bb_list u' = bb_list u \<and> edge_list u' = edge_list u
    \<and> length (dominators u') = n_basic_blocks u \<and> length (idoms u') = n_basic_blocks u
    \<and> (\<forall>i < n_basic_blocks u. block_ok (n_basic_blocks u) (dominators u' ! i))
    \<and> (\<forall>b. reachable u b \<longrightarrow> s_elems (dominators u' ! b) = dom_spec u b)
    \<and> idoms u' ! 0 = 0
    \<and> (\<forall>b \<in> {1..<n_basic_blocks u}.
         idom_find (dominators u') b (rev [1..<n_basic_blocks u]) = Some (idoms u' ! b))"
proof -
  let ?n = "n_basic_blocks u"
  have n32: "?n < 2 ^ 32" using n(2) by simp
  obtain doms0 where d0: "those (map (dom_init u) [0..<?n]) = Some doms0" "dom_inv u doms0"
    using dom_init_inv [OF n(1) n32] by blast
  obtain doms where d: "dom_fixpoint u doms0 = Some doms" "dom_inv u doms"
      "\<forall>i \<in> {1..<?n}. dom_settled u doms i"
    using dom_fixpoint_Some [OF d0(2) u] by blast
  note I = dom_invD [OF d(2)]
  let ?P = "\<lambda>b d. idom_find doms b (rev [1..<?n]) = Some d"
  have "\<exists>d. ?P b d \<and> ?P b d" if "b \<in> set [1..<?n]" for b
    using idom_find_Some [of doms b "rev [1..<?n]"] I(1,2) that by auto
  from those_map_ex [of "[1..<?n]" "\<lambda>b. idom_find doms b (rev [1..<?n])" ?P, OF this]
  obtain ids where ids: "those (map (\<lambda>b. idom_find doms b (rev [1..<?n])) [1..<?n]) = Some ids"
    "length ids = length [1..<?n]" "\<forall>i < length [1..<?n]. ?P ([1..<?n] ! i) (ids ! i)"
    by blast
  have len: "length ids = ?n - 1" using ids(2) by simp
  have get: "idom_find doms (1 + k) (rev [1..<?n]) = Some (ids ! k)" if "k < ?n - 1" for k
    using ids(3) [rule_format, of k] that by (simp add: less_diff_conv)
  have "idom_find doms b (rev [1..<?n]) = Some ((0 # ids) ! b)" if "b \<in> {1..<?n}" for b
    using get [of "b - 1"] that by (auto simp: nth_Cons split: nat.split)
  then show ?thesis
    using d0(1) d(1) ids n(1) len I(1,2) dom_fixpoint_spec [OF n(1) d(2,3)]
    by (auto simp: compute_dominators_def Let_def)
qed


text \<open>
  C5. \<open>compute_dominators\<close> ends on every decoupled unit, without touching the
  graph.  In the set it leaves for a reachable block, the block numbers of whole
  bytes are exactly the block's dominators; those of the last, partial byte are in
  the set of every reachable block but the entry, dominators or not.
\<close>

theorem compute_dominators_correct:
  assumes "decoupled u" and "0 < n_basic_blocks u" and "n_basic_blocks u < 2 ^ 31"
  shows "\<exists>u'. compute_dominators u = Some u' \<and> bb_list u' = bb_list u \<and> edge_list u' = edge_list u
    \<and> (\<forall>b d. reachable u b \<and> d < n_basic_blocks u \<longrightarrow>
         set_contains (dominators u' ! b) (block_no d)
         = Some (if d < 8 * (n_basic_blocks u div 8) then dominates u d b else b \<noteq> 0 \<or> d = 0))"
proof -
  obtain u' where u': "compute_dominators u = Some u'" "bb_list u' = bb_list u"
      "edge_list u' = edge_list u"
      "\<forall>i < n_basic_blocks u. block_ok (n_basic_blocks u) (dominators u' ! i)"
      "\<forall>b. reachable u b \<longrightarrow> s_elems (dominators u' ! b) = dom_spec u b"
    using compute_dominators_Some [OF assms] by blast
  have "set_contains (dominators u' ! b) (block_no d)
         = Some (if d < 8 * (n_basic_blocks u div 8) then dominates u d b else b \<noteq> 0 \<or> d = 0)"
    if "reachable u b" "d < n_basic_blocks u" for b d
  proof -
    have "b < n_basic_blocks u" using that(1) assms(2) path_to_bound by (auto simp: reachable_def)
    then have "set_contains (dominators u' ! b) (block_no d) = Some (d \<in> s_elems (dominators u' ! b))"
      using imc.mem [OF u'(4) [rule_format] that(2)] by blast
    then show ?thesis using u'(5) that by (simp add: dom_spec_def whole_bytes_def)
  qed
  then show ?thesis using u'(1-3) by blast
qed

text \<open>A unit of three blocks, the entry branching to the other two.\<close>

definition unit_fork :: imc_unit where
  "unit_fork = bb_add_edge (bb_add_edge unit3 0 1) 0 2"

lemma unit_fork_facts:
  "n_basic_blocks unit_fork = 3" "cfg_ok unit_fork" "decoupled unit_fork"
  "preds unit_fork 0 = []" "preds unit_fork (Suc 0) = [0]" "preds unit_fork 2 = [0]"
proof -
  let ?v = "bb_add_edge unit3 0 1"
  have v: "n_basic_blocks ?v = 3" "cfg_ok ?v" "\<And>j. j < 3 \<Longrightarrow> preds ?v j = (if j = 1 then [0] else [])"
    using bb_add_edge_sel [of 0 unit3 1] bb_add_edge_ok [of unit3 0 1] by simp_all
  note sel = bb_add_edge_sel [of 0 ?v 2, folded unit_fork_def]
  show n: "n_basic_blocks unit_fork = 3" using v sel by simp
  show p: "preds unit_fork 0 = []" "preds unit_fork (Suc 0) = [0]" "preds unit_fork 2 = [0]"
    using sel(3) v by (simp_all del: One_nat_def add: One_nat_def [symmetric])
  have ok: "cfg_ok unit_fork" using v unfolding unit_fork_def by (intro bb_add_edge_ok) simp_all
  then show "cfg_ok unit_fork" .
  have "\<And>j::nat. 0 < j \<Longrightarrow> j < 3 \<Longrightarrow> j = 1 \<or> j = 2" by auto
  then have "preds unit_fork j \<noteq> []" if "0 < j" "j < 3" for j
    using that p by (metis One_nat_def not_Cons_self2)
  then show "decoupled unit_fork" using n ok unfolding decoupled_def by metis
qed

theorem compute_dominators_correct_witness:
  "\<exists>u'. compute_dominators unit_fork = Some u'
        \<and> set_contains (dominators u' ! 2) (block_no 1) = Some True \<and> \<not> dominates unit_fork 1 2"
proof -
  note f = unit_fork_facts
  have p: "path_to unit_fork 2 [2, 0]"
    using path_step [OF path_entry, of 2 unit_fork] f by simp
  then have r: "reachable unit_fork 2" by (auto simp: reachable_def)
  have "\<not> dominates unit_fork 1 2" using p by (fastforce simp: dominates_def)
  moreover have "0 < n_basic_blocks unit_fork" "n_basic_blocks unit_fork < 2 ^ 31" using f by simp_all
  from compute_dominators_correct [OF f(3) this] r f(1) have
    "\<exists>u'. compute_dominators unit_fork = Some u'
          \<and> set_contains (dominators u' ! 2) (block_no 1) = Some True" by fastforce
  ultimately show ?thesis by blast
qed

text \<open>What an immediate dominator is: the strict dominator all others dominate.\<close>

definition is_idom :: "imc_unit \<Rightarrow> nat \<Rightarrow> nat \<Rightarrow> bool" where
  "is_idom u d b \<longleftrightarrow> d \<noteq> b \<and> dominates u d b \<and> (\<forall>c. c \<noteq> b \<and> dominates u c b \<longrightarrow> dominates u c d)"

lemma dominates_by_entry: "dominates u 0 b"
proof -
  have "path_to u b xs \<Longrightarrow> 0 \<in> set xs" for b xs by (induction rule: path_to.induct) auto
  then show ?thesis by (simp add: dominates_def)
qed

lemma path_to_bounds: "path_to u b xs \<Longrightarrow> 0 < n_basic_blocks u \<Longrightarrow> \<forall>d \<in> set xs. d < n_basic_blocks u"
  by (induction rule: path_to.induct) auto

lemma dominators_bound:
  assumes "reachable u b" "0 < n_basic_blocks u" "dominates u d b"
  shows "d < n_basic_blocks u"
  using assms path_to_bounds by (fastforce simp: reachable_def dominates_def)

text \<open>The number of a block's dominators grows along the dominance order.\<close>

definition dom_depth :: "imc_unit \<Rightarrow> nat \<Rightarrow> nat" where
  "dom_depth u b = card {d. d < n_basic_blocks u \<and> dominates u d b}"

lemma dom_depth_less:
  assumes "dominates u a b" "a \<noteq> b" "reachable u b" "0 < n_basic_blocks u"
  shows "dom_depth u a < dom_depth u b"
  unfolding dom_depth_def
proof (rule psubset_card_mono)
  have "b < n_basic_blocks u" using dominators_bound [OF assms(3,4)] dominates_refl by blast
  moreover have "\<not> dominates u b a" using dominates_antisym assms(1-3) by blast
  ultimately show "{d. d < n_basic_blocks u \<and> dominates u d a} \<subset> {d. d < n_basic_blocks u \<and> dominates u d b}"
    using dominates_trans [OF _ assms(1)] dominates_refl by blast
qed simp

lemma dom_depth_bound: "dom_depth u b \<le> n_basic_blocks u"
proof -
  have "dom_depth u b \<le> card {..<n_basic_blocks u}"
    unfolding dom_depth_def by (rule card_mono) auto
  then show ?thesis by simp
qed

lemma no_endless_chain:
  assumes "reachable u b" "0 < n_basic_blocks u"
    and step: "\<And>i. i \<in> S \<Longrightarrow> dominates u i b \<and> (\<exists>r \<in> S. r \<noteq> i \<and> dominates u i r)"
  shows "S = {}"
proof -
  have "i \<notin> S" for i
  proof (induction "n_basic_blocks u - dom_depth u i" arbitrary: i rule: less_induct)
    case less
    show ?case
    proof
      assume "i \<in> S"
      then obtain r where r: "r \<in> S" "r \<noteq> i" "dominates u i r" "dominates u r b"
        using step by blast
      have "reachable u r" using r(4) assms(1) dominates_reachable by blast
      then have "dom_depth u i < dom_depth u r" using dom_depth_less r(2,3) assms(2) by metis
      moreover have "dom_depth u r \<le> n_basic_blocks u" by (rule dom_depth_bound)
      ultimately show False using less r(1) by (meson diff_less_mono2 less_le_trans)
    qed
  qed
  then show ?thesis by blast
qed

lemma idoms_correct:
  assumes u: "decoupled u" and n: "0 < n_basic_blocks u" "n_basic_blocks u < 2 ^ 31" "8 dvd n_basic_blocks u"
    and b: "reachable u b" "b \<noteq> 0"
    and u': "compute_dominators u = Some u'"
  shows "is_idom u (idoms u' ! b) b"
proof -
  let ?n = "n_basic_blocks u" and ?doms = "dominators u'"
  have spec: "length ?doms = ?n" "\<forall>i < ?n. block_ok ?n (?doms ! i)"
      "\<forall>b. reachable u b \<longrightarrow> s_elems (?doms ! b) = dom_spec u b"
      "\<forall>b \<in> {1..<?n}. idom_find ?doms b (rev [1..<?n]) = Some (idoms u' ! b)"
    using compute_dominators_Some [OF u n(1,2)] u' by auto
  have bn: "b < ?n" using dominators_bound [OF b(1) n(1) dominates_refl] .
  have mem: "x \<in> s_elems (?doms ! y) \<longleftrightarrow> dominates u x y" if "reachable u y" for x y
    using spec(3) that n(3) dominators_bound [OF that n(1)]
    by (auto simp: dom_spec_def whole_bytes_def dvd_mult_div_cancel)
  have dr: "reachable u c" if "dominates u c b" for c using that b(1) dominates_reachable by blast
  let ?d = "idoms u' ! b"
  from idom_find_Some [of ?doms b "rev [1..<?n]"] spec(1,2) bn have
    cases: "?d \<noteq> b \<and> ?d \<in> s_elems (?doms ! b) \<and> (\<forall>r < ?n. \<not> idom_blocked ?doms b ?d r)
     \<or> ?d = 0 \<and> (\<forall>i \<in> {1..<?n}. i \<noteq> b \<and> i \<in> s_elems (?doms ! b) \<longrightarrow> (\<exists>r < ?n. idom_blocked ?doms b i r))"
    using spec(4) b(2) by auto
  then show ?thesis
  proof
    assume 1: "?d \<noteq> b \<and> ?d \<in> s_elems (?doms ! b) \<and> (\<forall>r < ?n. \<not> idom_blocked ?doms b ?d r)"
    then have db: "dominates u ?d b" using mem b(1) by blast
    have "dominates u c ?d" if c: "c \<noteq> b" "dominates u c b" for c
    proof (rule ccontr)
      assume nd: "\<not> dominates u c ?d"
      then have "dominates u ?d c" using dominates_chain [OF c(2) db b(1)] by blast
      moreover have "c \<noteq> ?d" using nd dominates_refl by blast
      moreover have "c < ?n" using dominators_bound [OF b(1) n(1) c(2)] .
      ultimately show False
        using 1 c mem [OF b(1)] mem [OF dr [OF c(2)]] by (auto simp: idom_blocked_def)
    qed
    then show ?thesis using 1 db by (auto simp: is_idom_def)
  next
    assume 2: "?d = 0 \<and> (\<forall>i \<in> {1..<?n}. i \<noteq> b \<and> i \<in> s_elems (?doms ! b) \<longrightarrow> (\<exists>r < ?n. idom_blocked ?doms b i r))"
    let ?S = "{c. c \<noteq> 0 \<and> c \<noteq> b \<and> dominates u c b}"
    have "?S = {}"
    proof (rule no_endless_chain [OF b(1) n(1)])
      fix i assume i: "i \<in> ?S"
      then have "i \<in> {1..<?n}" using dominators_bound [OF b(1) n(1)] by auto
      then obtain r where "idom_blocked ?doms b i r" using 2 i mem [OF b(1)] by blast
      then have r: "r \<noteq> b" "r \<noteq> i" "dominates u r b" "dominates u i r"
        using mem [OF b(1)] mem [OF dr] by (auto simp: idom_blocked_def)
      moreover have "r \<noteq> 0" using r(4) i dominates_entry by (metis (mono_tags) mem_Collect_eq)
      ultimately show "dominates u i b \<and> (\<exists>r \<in> ?S. r \<noteq> i \<and> dominates u i r)" using i by blast
    qed
    then have "c = 0" if "c \<noteq> b" "dominates u c b" for c using that by blast
    then show ?thesis using 2 b(2) dominates_by_entry unfolding is_idom_def by metis
  qed
qed

text \<open>
  C6. When the number of blocks is a multiple of 8, \<open>compute_dominators\<close> gives
  every reachable block but the entry its immediate dominator: a strict dominator
  that every other strict dominator dominates.
\<close>

theorem compute_dominators_idoms:
  assumes "decoupled u" and "0 < n_basic_blocks u" and "n_basic_blocks u < 2 ^ 31"
    and "8 dvd n_basic_blocks u"
  shows "\<exists>u'. compute_dominators u = Some u'
    \<and> (\<forall>b. reachable u b \<and> b \<noteq> 0 \<longrightarrow> is_idom u (idoms u' ! b) b)"
  using compute_dominators_Some [OF assms(1-3)] idoms_correct [OF assms] by blast

text \<open>Eight blocks, an edge from the entry to block 1 and one from there to block 2.\<close>

definition unit8 :: imc_unit where
  "unit8 = bb_add_edge (bb_add_edge (unit_of 8) 0 1) 1 2"

lemma unit8_facts:
  "n_basic_blocks unit8 = 8" "cfg_ok unit8" "decoupled unit8" "reachable unit8 2"
  "j < 8 \<Longrightarrow> preds unit8 j = (if j = 1 then [0] else if j = 2 then [1] else [])"
  "j < 8 \<Longrightarrow> succs unit8 j = (if j = 1 then [2] else if j = 0 then [1] else [])"
proof -
  let ?v = "bb_add_edge (unit_of 8) 0 1"
  have v: "n_basic_blocks ?v = 8" "cfg_ok ?v"
    "\<And>j. j < 8 \<Longrightarrow> preds ?v j = (if j = 1 then [0] else [])"
    "\<And>j. j < 8 \<Longrightarrow> succs ?v j = (if j = 0 then [1] else [])"
    using bb_add_edge_sel [of 0 "unit_of 8" 1] bb_add_edge_ok [of "unit_of 8" 0 1] by simp_all
  note sel = bb_add_edge_sel [of 1 ?v 2, folded unit8_def]
  show n: "n_basic_blocks unit8 = 8" using v sel by simp
  show ok: "cfg_ok unit8" using v unfolding unit8_def by (intro bb_add_edge_ok) simp_all
  have p: "preds unit8 j = (if j = 1 then [0] else if j = 2 then [1] else [])" if "j < 8" for j
    using sel(3) [of j] v(1) v(3) [OF that] v(3) [of 2] by (auto simp del: One_nat_def)
  then show "j < 8 \<Longrightarrow> preds unit8 j = (if j = 1 then [0] else if j = 2 then [1] else [])" .
  have s: "succs unit8 j = (if j = 1 then [2] else if j = 0 then [1] else [])" if "j < 8" for j
    using sel(4) [of j] v(1) v(3) [of 2] v(4) [OF that] v(4) [of 1] by (simp del: One_nat_def)
  then show "j < 8 \<Longrightarrow> succs unit8 j = (if j = 1 then [2] else if j = 0 then [1] else [])" .
  show "decoupled unit8" using n p s ok by (simp add: decoupled_def)
  have "reachable unit8 1" by (rule reachable_step [OF reachable_entry]) (simp_all add: n p)
  then show "reachable unit8 2" by (rule reachable_step) (simp_all add: n p)
qed

theorem compute_dominators_idoms_witness:
  "\<exists>u'. compute_dominators unit8 = Some u' \<and> is_idom unit8 (idoms u' ! 2) 2"
proof -
  have "0 < n_basic_blocks unit8" "n_basic_blocks unit8 < 2 ^ 31" "8 dvd n_basic_blocks unit8"
    by (simp_all add: unit8_facts)
  from compute_dominators_idoms [OF unit8_facts(3) this] show ?thesis
    using unit8_facts(4) by fastforce
qed

end
