(* ===== verification/Imcc_Frontiers.thy ===== *)
theory Imcc_Frontiers
  imports Imcc_Dominators
begin

text \<open>
  Dominance frontiers, \<open>compute_dominance_frontiers\<close> of \<open>compilers/imcc/cfg.c\<close>:
  from each predecessor of a join block a runner climbs the immediate dominators up
  to the join's own, and stops early on a path it has been on before.
\<close>

section \<open>The computation\<close>

text \<open>The \<open>while\<close> loop of the runner, an \<open>int\<close> that becomes -1 past the entry block.\<close>

partial_function (option) df_walk :: "imc_unit \<Rightarrow> nat \<Rightarrow> int \<Rightarrow> imc_set list \<Rightarrow> imc_set list option" where
  "df_walk u b runner dfs =
     (if \<not> 0 \<le> runner then Some dfs
      else do {
        stop \<leftarrow> rd (idoms u) b;
        if runner = int stop then Some dfs
        else do {
          s \<leftarrow> rd dfs (nat runner);
          c \<leftarrow> set_contains s (block_no b);
          (runner', dfs') \<leftarrow>
            (if c then Some (0, dfs)
             else do { s' \<leftarrow> set_add s (block_no b); Some (runner, dfs[nat runner := s']) });
          next \<leftarrow>
            (if runner' = 0 then Some (-1)
             else do { r \<leftarrow> rd (idoms u) (nat runner'); Some (int r) });
          df_walk u b next dfs'
        }
      })"

declare df_walk.simps [code]

definition df_block :: "imc_unit \<Rightarrow> imc_set list \<Rightarrow> nat \<Rightarrow> imc_set list option" where
  "df_block u dfs b =
     (case preds u b of
        _ # _ # _ \<Rightarrow> fold_opt (\<lambda>dfs p. df_walk u b (int p) dfs) (preds u b) dfs
      | _ \<Rightarrow> Some dfs)"

definition compute_dominance_frontiers :: "imc_unit \<Rightarrow> imc_unit option" where
  "compute_dominance_frontiers u =
     (let n = n_basic_blocks u
      in do {
        dfs \<leftarrow> fold_opt (df_block u) [1..<n] (replicate n (set_make (block_no n)));
        Some (u\<lparr>dominance_frontiers := dfs\<rparr>)
      })"

section \<open>What the runner adds\<close>

definition idoms_ok :: "imc_unit \<Rightarrow> bool" where
  "idoms_ok u \<longleftrightarrow> cfg_ok u \<and> 0 < n_basic_blocks u \<and> n_basic_blocks u < 2 ^ 31
     \<and> length (idoms u) = n_basic_blocks u
     \<and> (\<forall>b. reachable u b \<and> b \<noteq> 0 \<longrightarrow> is_idom u (idoms u ! b) b)
     \<and> (\<forall>b < n_basic_blocks u. preds u b \<noteq> [] \<longrightarrow> reachable u b \<and> (\<forall>p \<in> set (preds u b). reachable u p))"

text \<open>\<open>climb u d r\<close> holds the blocks on the dominator tree's path from \<open>r\<close> up to \<open>d\<close> exclusive.\<close>

definition climb :: "imc_unit \<Rightarrow> nat \<Rightarrow> nat \<Rightarrow> nat set" where
  "climb u d r = {x. dominates u x r \<and> \<not> dominates u x d}"

lemma reachable_bound: "reachable u b \<Longrightarrow> 0 < n_basic_blocks u \<Longrightarrow> b < n_basic_blocks u"
  using dominators_bound dominates_refl by blast

lemma climb_step:
  assumes "reachable u r" "dominates u d r" "d \<noteq> r" "is_idom u i r"
  shows "climb u d r = insert r (climb u d i)" "dominates u d i" "r \<notin> climb u d i"
proof -
  have i: "i \<noteq> r" "dominates u i r" "\<And>c. c \<noteq> r \<Longrightarrow> dominates u c r \<Longrightarrow> dominates u c i"
    using assms(4) by (auto simp: is_idom_def)
  show "dominates u d i" using i(3) assms(2,3) by blast
  have "\<not> dominates u r d" using dominates_antisym assms(1-3) by blast
  then show "climb u d r = insert r (climb u d i)"
    using i dominates_trans dominates_refl unfolding climb_def by blast
  have "\<not> dominates u r i" using dominates_antisym i(1,2) assms(1) by blast
  then show "r \<notin> climb u d i" by (simp add: climb_def)
qed

lemma climb_top: "climb u d d = {}"
  by (simp add: climb_def)

lemma climb_mono: "y \<in> climb u d r \<Longrightarrow> climb u d y \<subseteq> climb u d r"
  using dominates_trans by (auto simp: climb_def)

definition df_has :: "imc_set list \<Rightarrow> nat \<Rightarrow> nat \<Rightarrow> bool" where
  "df_has dfs x b \<longleftrightarrow> x < length dfs \<and> b \<in> s_elems (dfs ! x)"

definition df_ok :: "imc_unit \<Rightarrow> imc_set list \<Rightarrow> bool" where
  "df_ok u dfs \<longleftrightarrow> length dfs = n_basic_blocks u \<and> (\<forall>s \<in> set dfs. block_ok (n_basic_blocks u) s)"

lemma disj_absorb_right: "(B \<longrightarrow> A) \<Longrightarrow> A \<longleftrightarrow> A \<or> B"
  by blast

lemma df_walk_Some:
  assumes u: "idoms_ok u" and b: "reachable u b" "b \<noteq> 0"
    and "reachable u r" and "dominates u (idoms u ! b) r" and "df_ok u dfs"
    and "\<And>y. y \<in> climb u (idoms u ! b) r \<Longrightarrow> df_has dfs y b \<Longrightarrow> (\<forall>x \<in> climb u (idoms u ! b) y. df_has dfs x b)"
  shows "\<exists>dfs'. df_walk u b (int r) dfs = Some dfs' \<and> df_ok u dfs'
    \<and> (\<forall>x c. df_has dfs' x c \<longleftrightarrow> df_has dfs x c \<or> c = b \<and> x \<in> climb u (idoms u ! b) r)"
  using assms(4-7)
proof (induction "dom_depth u r" arbitrary: r dfs rule: less_induct)
  case less
  let ?n = "n_basic_blocks u" and ?d = "idoms u ! b"
  note r = less.prems(1) and dr = less.prems(2) and ok = less.prems(3) and closed = less.prems(4)
  have n: "0 < ?n" "?n < 2 ^ 31" "length (idoms u) = ?n" using u by (auto simp: idoms_ok_def)
  have bn: "b < ?n" and rn: "r < ?n" using reachable_bound b(1) r n(1) by blast+
  have l: "length dfs = ?n" "block_ok ?n (dfs ! r)" using ok rn by (auto simp: df_ok_def)
  have c: "set_contains (dfs ! r) (block_no b) = Some (b \<in> s_elems (dfs ! r))"
    using imc.mem [OF l(2) bn] .
  show ?case
  proof (cases "r = ?d")
    case True
    then have "df_walk u b (int r) dfs = Some dfs"
      using bn n(3) by (subst df_walk.simps) simp
    then show ?thesis using ok climb_top [of u ?d] True by auto
  next
    case ne: False
    show ?thesis
    proof (cases "b \<in> s_elems (dfs ! r)")
      case True
      have w: "df_walk u b (int r) dfs = Some dfs"
        using bn n(3) ne rn l(1) c True by (simp add: df_walk.simps [of u b "int r"] df_walk.simps [of u b "-1"])
      have "\<not> dominates u r ?d"
      proof
        assume "dominates u r ?d"
        from dominates_antisym [OF dr this r] ne show False by simp
      qed
      then have "r \<in> climb u ?d r" by (simp add: climb_def dominates_refl)
      moreover have "df_has dfs r b" using True rn l(1) by (simp add: df_has_def)
      ultimately have "\<forall>x \<in> climb u ?d r. df_has dfs x b" by (rule closed)
      then have "c = b \<and> x \<in> climb u ?d r \<longrightarrow> df_has dfs x c" for x c by (cases "c = b") simp_all
      then have "df_has dfs x c \<longleftrightarrow> df_has dfs x c \<or> c = b \<and> x \<in> climb u ?d r" for x c
        by (rule disj_absorb_right)
      then have "\<forall>x c. df_has dfs x c \<longleftrightarrow> df_has dfs x c \<or> c = b \<and> x \<in> climb u ?d r"
        by (intro allI)
      from conjI [OF w conjI [OF ok this]] show ?thesis by (rule exI)
    next
      case False
      have "r \<noteq> 0" using dr ne dominates_entry by metis
      then have i: "is_idom u (idoms u ! r) r" using u r by (auto simp: idoms_ok_def)
      let ?i = "idoms u ! r"
      note cs = climb_step [OF r dr ne [symmetric] i]
      have ir: "dominates u ?i r" "?i \<noteq> r" using i by (auto simp: is_idom_def)
      then have ri: "reachable u ?i" using dominates_reachable r by blast
      obtain s where s: "set_add (dfs ! r) (block_no b) = Some s" "block_ok ?n s"
          "s_elems s = insert b (s_elems (dfs ! r))"
        using imc.add [OF l(2) bn] by blast
      let ?dfs = "dfs[r := s]"
      have has: "df_has ?dfs x e \<longleftrightarrow> df_has dfs x e \<or> e = b \<and> x = r" for x e
        using rn l(1) s(3) by (auto simp: df_has_def nth_list_update)
      have w: "df_walk u b (int r) dfs = df_walk u b (int ?i) ?dfs"
        using bn n(3) ne rn l(1) c False s(1) \<open>r \<noteq> 0\<close> by (simp add: df_walk.simps [of u b "int r"])
      have ok': "df_ok u ?dfs" using ok s(2) set_update_subset_insert by (fastforce simp: df_ok_def)
      have "dom_depth u ?i < dom_depth u r" using dom_depth_less ir r n(1) by blast
      moreover have "\<forall>x \<in> climb u ?d y. df_has ?dfs x b" if y: "y \<in> climb u ?d ?i" "df_has ?dfs y b" for y
      proof -
        have "y \<noteq> r" using y(1) cs(3) by blast
        then have "df_has dfs y b" using y(2) has by blast
        moreover have "y \<in> climb u ?d r" using y(1) cs(1) by blast
        ultimately show ?thesis using closed has by blast
      qed
      ultimately obtain dfs' where "df_walk u b (int ?i) ?dfs = Some dfs'" "df_ok u dfs'"
          "\<forall>x c. df_has dfs' x c \<longleftrightarrow> df_has ?dfs x c \<or> c = b \<and> x \<in> climb u ?d ?i"
        using less.hyps [OF _ ri cs(2) ok'] by blast
      then show ?thesis using w has cs(1) by auto
    qed
  qed
qed

section \<open>Dominance frontiers\<close>

text \<open>
  A block is in the frontier of \<open>x\<close> when \<open>x\<close> dominates one of its predecessors but
  does not strictly dominate the block itself.
\<close>

definition frontier :: "imc_unit \<Rightarrow> nat \<Rightarrow> nat \<Rightarrow> bool" where
  "frontier u x b \<longleftrightarrow> (\<exists>p \<in> set (preds u b). dominates u x p \<and> \<not> (x \<noteq> b \<and> dominates u x b))"

lemma climb_frontier:
  assumes "is_idom u d b" "reachable u b"
  shows "(\<exists>p \<in> set (preds u b). x \<in> climb u d p) \<longleftrightarrow> frontier u x b"
proof -
  have "dominates u x d \<longleftrightarrow> x \<noteq> b \<and> dominates u x b"
    using assms dominates_trans dominates_antisym unfolding is_idom_def by blast
  then show ?thesis by (simp add: climb_def frontier_def)
qed

lemma df_block_Some:
  assumes u: "idoms_ok u" and b: "0 < b" "b < n_basic_blocks u" and ok: "df_ok u dfs"
    and fresh: "\<And>x. \<not> df_has dfs x b"
  shows "\<exists>dfs'. df_block u dfs b = Some dfs' \<and> df_ok u dfs'
    \<and> (\<forall>x c. df_has dfs' x c \<longleftrightarrow>
         df_has dfs x c \<or> c = b \<and> 2 \<le> length (preds u b) \<and> frontier u x b)"
proof (cases "2 \<le> length (preds u b)")
  case False
  then have "df_block u dfs b = Some dfs"
    by (cases "preds u b" rule: remdups_adj.cases) (simp_all add: df_block_def)
  then show ?thesis using ok False by auto
next
  case True
  let ?d = "idoms u ! b"
  have ne: "preds u b \<noteq> []" using True by auto
  then have r: "reachable u b" "\<And>p. p \<in> set (preds u b) \<Longrightarrow> reachable u p"
    using u b by (auto simp: idoms_ok_def)
  have i: "is_idom u ?d b" using u r(1) b(1) by (auto simp: idoms_ok_def)
  have dp: "dominates u ?d p" if "p \<in> set (preds u b)" for p
    using dominates_pred [OF _ _ b(2) that, of ?d] i by (auto simp: is_idom_def)
  let ?I = "\<lambda>ps v. df_ok u v \<and> (\<forall>x c. df_has v x c \<longleftrightarrow> df_has dfs x c \<or> c = b \<and> (\<exists>p \<in> set ps. x \<in> climb u ?d p))"
  have "\<exists>dfs'. fold_opt (\<lambda>dfs p. df_walk u b (int p) dfs) (preds u b) dfs = Some dfs' \<and> ?I (preds u b) dfs'"
  proof (rule fold_opt_invariant [where I = ?I])
    show "?I [] dfs" using ok by simp
  next
    fix ys p zs v
    assume l: "preds u b = ys @ p # zs" and I: "?I ys v"
    have p: "p \<in> set (preds u b)" unfolding l by simp
    have "\<forall>x \<in> climb u ?d y. df_has v x b" if "df_has v y b" for y
      using I that fresh climb_mono by blast
    from df_walk_Some [OF u r(1) _ r(2) [OF p] dp [OF p] conjunct1 [OF I] this] b(1)
    obtain v' where "df_walk u b (int p) v = Some v'" "df_ok u v'"
      "\<forall>x c. df_has v' x c \<longleftrightarrow> df_has v x c \<or> c = b \<and> x \<in> climb u ?d p" by auto
    then show "\<exists>v'. df_walk u b (int p) v = Some v' \<and> ?I (ys @ [p]) v'" using I by auto
  qed
  moreover have "df_block u dfs b = fold_opt (\<lambda>dfs p. df_walk u b (int p) dfs) (preds u b) dfs"
    using True by (cases "preds u b" rule: remdups_adj.cases) (simp_all add: df_block_def)
  ultimately obtain dfs' where "df_block u dfs b = Some dfs'" "?I (preds u b) dfs'" by auto
  have "df_has dfs' x c \<longleftrightarrow> df_has dfs x c \<or> c = b \<and> 2 \<le> length (preds u b) \<and> frontier u x b" for x c
    using \<open>?I (preds u b) dfs'\<close> True
    by (simp add: climb_frontier [OF i r(1), symmetric])
  then show ?thesis
    using \<open>df_block u dfs b = Some dfs'\<close> \<open>?I (preds u b) dfs'\<close> by (intro exI [of _ dfs'] conjI allI) simp_all
qed

lemma compute_dominance_frontiers_Some:
  assumes u: "idoms_ok u"
  shows "\<exists>u'. compute_dominance_frontiers u = Some u' \<and> df_ok u (dominance_frontiers u')
    \<and> (\<forall>x b. df_has (dominance_frontiers u') x b \<longleftrightarrow> 0 < b \<and> b < n_basic_blocks u \<and> x < n_basic_blocks u
           \<and> 2 \<le> length (preds u b) \<and> frontier u x b)"
proof -
  let ?n = "n_basic_blocks u"
  let ?dfs0 = "replicate ?n (set_make (block_no ?n))"
  have "?n < 2 ^ 32" using u by (auto simp: idoms_ok_def)
  then have ok0: "df_ok u ?dfs0" by (auto simp: df_ok_def set_make_block_ok)
  let ?I = "\<lambda>bs v. df_ok u v \<and> (\<forall>x b. df_has v x b \<longleftrightarrow> b \<in> set bs \<and> 2 \<le> length (preds u b) \<and> frontier u x b)"
  have "\<exists>v. fold_opt (df_block u) [1..<?n] ?dfs0 = Some v \<and> ?I [1..<?n] v"
  proof (rule fold_opt_invariant [where I = ?I])
    show "?I [] ?dfs0" using ok0 by (auto simp: df_has_def)
  next
    fix ys b zs v
    assume l: "[1..<?n] = ys @ b # zs" and I: "?I ys v"
    have "b \<in> set [1..<?n]" unfolding l by simp
    then have b: "0 < b" "b < ?n" by auto
    have "distinct (ys @ b # zs)" using l [symmetric] by simp
    then have "\<not> df_has v x b" for x using I by simp
    from df_block_Some [OF u b conjunct1 [OF I] this] obtain v' where
      "df_block u v b = Some v'" "df_ok u v'" "\<forall>x c. df_has v' x c \<longleftrightarrow>
         df_has v x c \<or> c = b \<and> 2 \<le> length (preds u b) \<and> frontier u x b" by blast
    then show "\<exists>v'. df_block u v b = Some v' \<and> ?I (ys @ [b]) v'" using I by auto
  qed
  then obtain v where v: "fold_opt (df_block u) [1..<?n] ?dfs0 = Some v" "?I [1..<?n] v" by blast
  have "x < ?n" if "df_has v x b" for x b using that v(2) by (auto simp: df_has_def df_ok_def)
  then show ?thesis using v by (auto simp: compute_dominance_frontiers_def Let_def)
qed

lemma path_to_cong:
  assumes "bb_list u' = bb_list u"
  shows "path_to u' = path_to u"
proof -
  have step: "path_to w b xs" if "path_to v b xs" "bb_list w = bb_list v" for v w b xs
    using that(1)
  proof (induction rule: path_to.induct)
    case path_entry
    show ?case by (rule path_to.path_entry)
  next
    case (path_step p xs b)
    then show ?case using that(2) by (intro path_to.path_step) simp_all
  qed
  show ?thesis using step [of u _ _ u'] step [of u' _ _ u] assms by (intro ext iffI) simp_all
qed

text \<open>
  C7. After \<open>compute_dominators\<close>, on a graph whose blocks with predecessors are all
  reachable and whose block count is a multiple of 8, \<open>compute_dominance_frontiers\<close>
  ends, and the set of \<open>x\<close> holds exactly the join blocks (two predecessors or more,
  the entry block excepted) in the dominance frontier of \<open>x\<close>.
\<close>

theorem compute_dominance_frontiers_correct:
  assumes "decoupled u" and "0 < n_basic_blocks u" and "n_basic_blocks u < 2 ^ 31"
    and "8 dvd n_basic_blocks u"
    and "\<forall>b < n_basic_blocks u. preds u b \<noteq> [] \<longrightarrow> reachable u b \<and> (\<forall>p \<in> set (preds u b). reachable u p)"
  shows "\<exists>u' u''. compute_dominators u = Some u' \<and> compute_dominance_frontiers u' = Some u''
    \<and> (\<forall>x < n_basic_blocks u. \<forall>b < n_basic_blocks u.
         set_contains (dominance_frontiers u'' ! x) (block_no b)
         = Some (b \<noteq> 0 \<and> 2 \<le> length (preds u b) \<and> frontier u x b))"
proof -
  let ?n = "n_basic_blocks u"
  obtain u' where u': "compute_dominators u = Some u'" "bb_list u' = bb_list u"
      "edge_list u' = edge_list u" "length (idoms u') = ?n"
    using compute_dominators_Some [OF assms(1-3)] by blast
  note pc = path_to_cong [OF u'(2)]
  have dom: "dominates u' = dominates u" "reachable u' = reachable u"
    by (simp_all add: fun_eq_iff dominates_def reachable_def pc)
  have "is_idom u' (idoms u' ! b) b" if "reachable u' b" "b \<noteq> 0" for b
    using idoms_correct [OF assms(1-4) _ that(2) u'(1)] that(1) dom by (simp add: is_idom_def)
  moreover have "cfg_ok u'" using assms(1) u'(2,3) by (simp add: decoupled_def cfg_ok_def)
  ultimately have ok: "idoms_ok u'" using assms(2,3,5) u'(2,4) dom by (simp add: idoms_ok_def)
  obtain u'' where u'': "compute_dominance_frontiers u' = Some u''" "df_ok u' (dominance_frontiers u'')"
     "\<And>x b. df_has (dominance_frontiers u'') x b \<longleftrightarrow> 0 < b \<and> b < ?n \<and> x < ?n
           \<and> 2 \<le> length (preds u b) \<and> frontier u x b"
    using compute_dominance_frontiers_Some [OF ok] u'(2) dom(1) by (auto simp: frontier_def)
  have "set_contains (dominance_frontiers u'' ! x) (block_no b)
         = Some (b \<noteq> 0 \<and> 2 \<le> length (preds u b) \<and> frontier u x b)" if "x < ?n" "b < ?n" for x b
  proof -
    have l: "length (dominance_frontiers u'') = ?n" "block_ok ?n (dominance_frontiers u'' ! x)"
      using u''(2) u'(2) that(1) by (auto simp: df_ok_def)
    then have "set_contains (dominance_frontiers u'' ! x) (block_no b) = Some (df_has (dominance_frontiers u'') x b)"
      using imc.mem [OF l(2) that(2)] that(1) by (simp add: df_has_def)
    then show ?thesis using u''(3) that by simp
  qed
  then show ?thesis using u'(1) u''(1) by blast
qed

text \<open>
  Eight blocks with a join: the entry is followed by block 1, which branches to the blocks
  2 and 3, and both of these go on to block 4.
\<close>

definition diamond8 :: imc_unit where
  "diamond8 = bb_add_edge (bb_add_edge (bb_add_edge (bb_add_edge (bb_add_edge (unit_of 8) 0 1) 1 2) 1 3) 2 4) 3 4"

lemma diamond8_lists:
  "diamond8 = \<lparr>bb_list = [\<lparr>pred_list = [], succ_list = [1], loop_depth = 0\<rparr>,
       \<lparr>pred_list = [0], succ_list = [3, 2], loop_depth = 0\<rparr>,
       \<lparr>pred_list = [1], succ_list = [4], loop_depth = 0\<rparr>,
       \<lparr>pred_list = [1], succ_list = [4], loop_depth = 0\<rparr>,
       \<lparr>pred_list = [3, 2], succ_list = [], loop_depth = 0\<rparr>,
       \<lparr>pred_list = [], succ_list = [], loop_depth = 0\<rparr>,
       \<lparr>pred_list = [], succ_list = [], loop_depth = 0\<rparr>,
       \<lparr>pred_list = [], succ_list = [], loop_depth = 0\<rparr>],
     edge_list = [(3, 4), (2, 4), (1, 3), (1, 2), (0, 1)],
     idoms = [], dominators = [], dominance_frontiers = [], loop_list = []\<rparr>"
  by code_simp

lemma diamond8_sel:
  "n_basic_blocks diamond8 = 8" "preds diamond8 0 = []" "preds diamond8 1 = [0]" "preds diamond8 2 = [1]"
  "preds diamond8 3 = [1]" "preds diamond8 4 = [3, 2]" "preds diamond8 5 = []" "preds diamond8 6 = []"
  "preds diamond8 7 = []" "succs diamond8 5 = []" "succs diamond8 6 = []" "succs diamond8 7 = []"
  by (simp_all add: diamond8_lists)

lemma below_8: "b < 8 \<Longrightarrow> b \<in> {0, 1, 2, 3, 4, 5, 6, 7 :: nat}"
  by auto

lemma bb_add_edge_blocks: "n_basic_blocks (bb_add_edge u fr to) = n_basic_blocks u"
  by (simp add: bb_add_edge_def Let_def)

lemma dominates_if_preds:
  assumes "b \<noteq> 0" "\<And>p. p \<in> set (preds u b) \<Longrightarrow> dominates u d p"
  shows "dominates u d b"
  unfolding dominates_def
proof (intro allI impI)
  fix xs assume "path_to u b xs"
  then show "d \<in> set xs" using assms by (cases rule: path_to.cases) (auto simp: dominates_def)
qed

lemma diamond8_facts:
  "decoupled diamond8"
  "b < 8 \<Longrightarrow> preds diamond8 b \<noteq> [] \<longrightarrow> reachable diamond8 b \<and> (\<forall>p \<in> set (preds diamond8 b). reachable diamond8 p)"
  "frontier diamond8 2 4" "\<not> frontier diamond8 1 4"
proof -
  note n = diamond8_sel
  have "cfg_ok diamond8" unfolding diamond8_def by (intro bb_add_edge_ok) (simp_all add: bb_add_edge_blocks)
  moreover have "succs diamond8 j = []" if "0 < j" "j < 8" "preds diamond8 j = []" for j
    using below_8 [OF that(2)] that n by (auto simp del: One_nat_def)
  ultimately show "decoupled diamond8" using n(1) by (simp add: decoupled_def)
  have r1: "reachable diamond8 1" by (rule reachable_step [OF reachable_entry]) (simp_all add: n del: One_nat_def)
  have r2: "reachable diamond8 2" "reachable diamond8 3"
    by (rule reachable_step [OF r1]; simp add: n del: One_nat_def)+
  have r4: "reachable diamond8 4" by (rule reachable_step [OF r2(1)]) (simp_all add: n)
  have l: "b < 5 \<Longrightarrow> reachable diamond8 b" for b
  proof -
    assume "b < 5"
    then have "b = 0 \<or> b = 1 \<or> b = 2 \<or> b = 3 \<or> b = 4" by linarith
    then show ?thesis using r1 r2 r4 reachable_entry by metis
  qed
  show "preds diamond8 b \<noteq> [] \<longrightarrow> reachable diamond8 b \<and> (\<forall>p \<in> set (preds diamond8 b). reachable diamond8 p)"
    if "b < 8"
  proof (cases "b < 5")
    case True
    then have "b = 0 \<or> b = 1 \<or> b = 2 \<or> b = 3 \<or> b = 4" by linarith
    then have "\<forall>p \<in> set (preds diamond8 b). p < 5" using n by fastforce
    then show ?thesis using l True by blast
  next
    case False
    with that have "b = 5 \<or> b = 6 \<or> b = 7" by linarith
    then show ?thesis using n by fastforce
  qed
  have p: "path_to diamond8 1 [1, 0]" using path_step [OF path_entry, of 1 diamond8] n by (simp del: One_nat_def)
  have "path_to diamond8 3 [3, 1, 0]" using path_step [OF p, of 3] n by (simp del: One_nat_def)
  then have "path_to diamond8 4 [4, 3, 1, 0]" using path_step [of diamond8 3 _ 4] n by simp
  then have "\<not> dominates diamond8 2 4" by (fastforce simp: dominates_def)
  then show "frontier diamond8 2 4" using n dominates_refl by (auto simp: frontier_def)
  have "dominates diamond8 1 2" "dominates diamond8 1 3"
    by (rule dominates_if_preds; simp add: n dominates_refl del: One_nat_def)+
  then have "dominates diamond8 1 p" if "p \<in> set [3, 2]" for p using that by (metis empty_iff list.set set_ConsD)
  with n(6) have "dominates diamond8 1 4" by (intro dominates_if_preds [of 4 diamond8]) simp_all
  then show "\<not> frontier diamond8 1 4" by (simp add: frontier_def)
qed

theorem compute_dominance_frontiers_correct_witness:
  "\<exists>u' u''. compute_dominators diamond8 = Some u' \<and> compute_dominance_frontiers u' = Some u''
    \<and> set_contains (dominance_frontiers u'' ! 2) (block_no 4) = Some True
    \<and> set_contains (dominance_frontiers u'' ! 1) (block_no 4) = Some False"
proof -
  note n = diamond8_sel
  have h: "0 < n_basic_blocks diamond8" "n_basic_blocks diamond8 < 2 ^ 31" "8 dvd n_basic_blocks diamond8"
    by (simp_all add: n)
  have "\<forall>b < n_basic_blocks diamond8. preds diamond8 b \<noteq> [] \<longrightarrow>
      reachable diamond8 b \<and> (\<forall>p \<in> set (preds diamond8 b). reachable diamond8 p)"
    unfolding n(1) using diamond8_facts(2) by blast
  from compute_dominance_frontiers_correct [OF diamond8_facts(1) h this] obtain u' u'' where
    "compute_dominators diamond8 = Some u'" "compute_dominance_frontiers u' = Some u''"
    and all: "\<forall>x < n_basic_blocks diamond8. \<forall>b < n_basic_blocks diamond8.
         set_contains (dominance_frontiers u'' ! x) (block_no b)
         = Some (b \<noteq> 0 \<and> 2 \<le> length (preds diamond8 b) \<and> frontier diamond8 x b)" by blast
  moreover have "set_contains (dominance_frontiers u'' ! 2) (block_no 4) = Some True"
    "set_contains (dominance_frontiers u'' ! 1) (block_no 4) = Some False"
    using all [rule_format, of 2 4] all [rule_format, of 1 4] diamond8_facts(3,4) by (simp_all add: n)
  ultimately show ?thesis by blast
qed

end
