(* ===== verification/Imcc_Loops.thy ===== *)
theory Imcc_Loops
  imports Imcc_Frontiers "HOL-Library.Multiset"
begin

text \<open>
  The natural loops of a unit, \<open>compilers/imcc/cfg.c\<close>: \<open>find_loops\<close> looks for edges
  into a dominator, \<open>mark_loop\<close> collects the blocks of such an edge's loop with
  \<open>search_predecessors_not_in\<close>, and \<open>sort_loops\<close> orders the loops by size.  The
  messages the code writes for debugging are left out.
\<close>

section \<open>Collecting a loop\<close>

definition deepen :: "basic_block list \<Rightarrow> nat \<Rightarrow> basic_block list" where
  "deepen bbs b = bbs[b := (bbs ! b)\<lparr>loop_depth := loop_depth (bbs ! b) + 1\<rparr>]"

text \<open>
  The edge loop of \<open>search_predecessors_not_in\<close>, over the rest of the node's
  predecessor list, with the recursive call on a new block's predecessors.  It
  changes the set and the blocks' loop depths.
\<close>

partial_function (option) search_preds ::
  "nat list \<Rightarrow> basic_block list \<Rightarrow> imc_set \<Rightarrow> (basic_block list \<times> imc_set) option" where
  "search_preds es bbs s =
     (case es of
        [] \<Rightarrow> Some (bbs, s)
      | pred # es' \<Rightarrow> do {
          c \<leftarrow> set_contains s (block_no pred);
          if \<not> c
          then do {
            s' \<leftarrow> set_add s (block_no pred);
            pb \<leftarrow> rd bbs pred;
            (bbs'', s'') \<leftarrow> search_preds (pred_list pb) (deepen bbs pred) s';
            search_preds es' bbs'' s''
          }
          else search_preds es' bbs s
        })"

declare search_preds.simps [code]

definition search_predecessors_not_in ::
  "nat \<Rightarrow> basic_block list \<Rightarrow> imc_set \<Rightarrow> (basic_block list \<times> imc_set) option" where
  "search_predecessors_not_in node bbs s =
     do { b \<leftarrow> rd bbs node; search_preds (pred_list b) bbs s }"

text \<open>The blocks of the loop with an edge out of it; the scan starts at block 1.\<close>

definition loop_exit_edge :: "imc_set \<Rightarrow> nat \<Rightarrow> imc_set \<Rightarrow> nat \<Rightarrow> imc_set option" where
  "loop_exit_edge loop i exits to =
     do {
       c \<leftarrow> set_contains loop (block_no to);
       if \<not> c then set_add exits (block_no i) else Some exits
     }"

definition loop_exit_block :: "basic_block list \<Rightarrow> imc_set \<Rightarrow> imc_set \<Rightarrow> nat \<Rightarrow> imc_set option" where
  "loop_exit_block bbs loop exits i =
     do {
       c \<leftarrow> set_contains loop (block_no i);
       if c then fold_opt (loop_exit_edge loop i) (succ_list (bbs ! i)) exits else Some exits
     }"

text \<open>
  \<open>natural_preheader\<close>: a predecessor of the header outside the loop must be the only
  one and have the header as its only successor.  Reading the first successor of a
  block without successors is \<open>None\<close>.
\<close>

fun natural_preheader_from :: "imc_unit \<Rightarrow> loop_info \<Rightarrow> nat list \<Rightarrow> int \<Rightarrow> int option" where
  "natural_preheader_from u li [] preheader = Some preheader"
| "natural_preheader_from u li (p # ps) preheader =
     do {
       c \<leftarrow> set_contains (li_loop li) (block_no p);
       if \<not> c
       then (if preheader = -1
             then (case succs u p of
                     [] \<Rightarrow> None
                   | to # rest \<Rightarrow>
                       if to = li_header li \<and> rest = [] then natural_preheader_from u li ps (int p)
                       else Some (-1))
             else Some (-1))
       else natural_preheader_from u li ps preheader
     }"

definition natural_preheader :: "imc_unit \<Rightarrow> loop_info \<Rightarrow> int option" where
  "natural_preheader u li = natural_preheader_from u li (preds u (li_header li)) (-1)"

text \<open>
  \<open>mark_loop\<close> on the edge from \<open>footer\<close> to \<open>header\<close>.  When the loop over the exits
  ends, its counter \<open>i\<close> is what the code stores as \<open>n_entries\<close>.
\<close>

definition mark_loop :: "imc_unit \<Rightarrow> nat \<times> nat \<Rightarrow> imc_unit option" where
  "mark_loop u e =
     (let footer = fst e; header = snd e; n = n_basic_blocks u
      in do {
        loop \<leftarrow> set_add (set_make (block_no n)) (block_no footer);
        loop \<leftarrow> set_add loop (block_no header);
        let bbs = deepen (bb_list u) footer in do {
          (bbs, loop) \<leftarrow>
            (if header \<noteq> footer
             then search_predecessors_not_in footer (deepen bbs header) loop
             else Some (bbs, loop));
          exits \<leftarrow> fold_opt (loop_exit_block bbs loop) [1..<n] (set_make (block_no n));
          let u' = u\<lparr>bb_list := bbs\<rparr>;
              li = \<lparr>li_loop = loop, li_exits = exits, li_depth = loop_depth (bbs ! footer),
                    li_n_entries = max 1 n, li_header = header, li_preheader = 0, li_size = 0\<rparr>
          in do {
            p \<leftarrow> natural_preheader u' li;
            Some (u'\<lparr>loop_list := loop_list u @ [li\<lparr>li_preheader := p\<rparr>]\<rparr>)
          }
        }
      })"

section \<open>Sorting the loops\<close>

fun loop_size_from :: "imc_set \<Rightarrow> nat list \<Rightarrow> nat \<Rightarrow> nat option" where
  "loop_size_from s [] k = Some k"
| "loop_size_from s (j # js) k =
     do { c \<leftarrow> set_contains s (block_no j); loop_size_from s js (if c then k + 1 else k) }"

definition loop_sized :: "nat \<Rightarrow> loop_info \<Rightarrow> loop_info option" where
  "loop_sized n li = do { k \<leftarrow> loop_size_from (li_loop li) [0..<n] 0; Some (li\<lparr>li_size := k\<rparr>) }"

text \<open>One pass of the exchange sort, and its repetition until nothing changes.\<close>

definition sort_pass_step :: "loop_info list \<times> bool \<Rightarrow> nat \<Rightarrow> loop_info list \<times> bool" where
  "sort_pass_step st i =
     (case st of (ls, changed) \<Rightarrow>
        if li_size (ls ! i) < li_size (ls ! (i + 1))
        then (ls[i := ls ! (i + 1), i + 1 := ls ! i], True)
        else (ls, changed))"

definition sort_pass :: "loop_info list \<Rightarrow> loop_info list \<times> bool" where
  "sort_pass ls = foldl sort_pass_step (ls, False) [0..<length ls - 1]"

partial_function (option) sort_passes :: "loop_info list \<Rightarrow> loop_info list option" where
  "sort_passes ls =
     (let r = sort_pass ls in if snd r then sort_passes (fst r) else Some (fst r))"

declare sort_passes.simps [code]

definition set_depth :: "int \<Rightarrow> loop_info list \<Rightarrow> nat \<Rightarrow> loop_info list" where
  "set_depth d ls k = ls[k := (ls ! k)\<lparr>li_depth := d\<rparr>]"

definition sort_depths_step :: "loop_info list \<Rightarrow> nat \<Rightarrow> loop_info list" where
  "sort_depths_step ls i =
     (let ls = set_depth 1 ls i
      in foldl (set_depth (li_depth (ls ! i) + 1)) ls [i + 1..<length ls])"

definition sort_loops :: "imc_unit \<Rightarrow> imc_unit option" where
  "sort_loops u =
     do {
       ls \<leftarrow> those (map (loop_sized (n_basic_blocks u)) (loop_list u));
       ls \<leftarrow> sort_passes ls;
       Some (u\<lparr>loop_list := foldl sort_depths_step ls [0..<length ls - 1]\<rparr>)
     }"

section \<open>Finding the loops\<close>

definition find_loops_edge :: "imc_set \<Rightarrow> nat \<Rightarrow> imc_unit \<Rightarrow> nat \<Rightarrow> imc_unit option" where
  "find_loops_edge domset i u to =
     do {
       c \<leftarrow> set_contains domset (block_no to);
       if c then mark_loop u (i, to) else Some u
     }"

definition find_loops_block :: "imc_unit \<Rightarrow> nat \<Rightarrow> imc_unit option" where
  "find_loops_block u i =
     do { domset \<leftarrow> rd (dominators u) i; fold_opt (find_loops_edge domset i) (succs u i) u }"

definition find_loops :: "imc_unit \<Rightarrow> imc_unit option" where
  "find_loops u =
     do { u \<leftarrow> fold_opt find_loops_block [0..<n_basic_blocks u] u; sort_loops u }"

section \<open>The search\<close>

definition bump :: "basic_block list \<Rightarrow> nat set \<Rightarrow> basic_block list" where
  "bump bbs A = map (\<lambda>b. (bbs ! b)\<lparr>loop_depth := loop_depth (bbs ! b) + (if b \<in> A then 1 else 0)\<rparr>)
                  [0..<length bbs]"

lemma bump_length [simp]: "length (bump bbs A) = length bbs"
  by (simp add: bump_def)

lemma bump_nth: "b < length bbs \<Longrightarrow>
    bump bbs A ! b = (bbs ! b)\<lparr>loop_depth := loop_depth (bbs ! b) + (if b \<in> A then 1 else 0)\<rparr>"
  by (simp add: bump_def)

lemma bump_lists [simp]:
  "b < length bbs \<Longrightarrow> pred_list (bump bbs A ! b) = pred_list (bbs ! b)"
  "b < length bbs \<Longrightarrow> succ_list (bump bbs A ! b) = succ_list (bbs ! b)"
  by (simp_all add: bump_nth)

lemma bump_empty [simp]: "bump bbs {} = bbs"
  by (rule nth_equalityI) (simp_all add: bump_nth)

lemma bump_bump: "A \<inter> B = {} \<Longrightarrow> bump (bump bbs A) B = bump bbs (A \<union> B)"
  by (rule nth_equalityI) (auto simp: bump_nth)

lemma deepen_bump: "b < length bbs \<Longrightarrow> deepen bbs b = bump bbs {b}"
  by (rule nth_equalityI) (simp_all add: deepen_def bump_nth nth_list_update)

text \<open>
  \<open>pred_closed bbs S A\<close>: the new elements of \<open>A\<close> have all their predecessors in \<open>A\<close>.
\<close>

definition pred_closed :: "basic_block list \<Rightarrow> nat set \<Rightarrow> nat set \<Rightarrow> bool" where
  "pred_closed bbs S A \<longleftrightarrow> (\<forall>x \<in> A - S. set (pred_list (bbs ! x)) \<subseteq> A)"

definition searched :: "basic_block list \<Rightarrow> nat list \<Rightarrow> nat set \<Rightarrow> nat set \<Rightarrow> bool" where
  "searched bbs es S A \<longleftrightarrow> S \<subseteq> A \<and> set es \<subseteq> A \<and> pred_closed bbs S A
     \<and> (\<forall>T. S \<subseteq> T \<and> set es \<subseteq> T \<and> pred_closed bbs S T \<longrightarrow> A \<subseteq> T)"

lemma searchedD:
  assumes "searched bbs es S A"
  shows "S \<subseteq> A" "set es \<subseteq> A" "pred_closed bbs S A"
    and "S \<subseteq> T \<Longrightarrow> set es \<subseteq> T \<Longrightarrow> pred_closed bbs S T \<Longrightarrow> A \<subseteq> T"
  using assms unfolding searched_def by blast+

lemma searchedI:
  assumes "S \<subseteq> A" "set es \<subseteq> A" "pred_closed bbs S A"
    and "\<And>T. S \<subseteq> T \<Longrightarrow> set es \<subseteq> T \<Longrightarrow> pred_closed bbs S T \<Longrightarrow> A \<subseteq> T"
  shows "searched bbs es S A"
  using assms unfolding searched_def by blast

lemma searched_Nil: "searched bbs [] S S"
  by (rule searchedI) (simp_all add: pred_closed_def)

lemma searched_skip:
  assumes "p \<in> S" "searched bbs es S A"
  shows "searched bbs (p # es) S A"
proof (rule searchedI)
  note D = searchedD [OF assms(2)]
  show "S \<subseteq> A" "pred_closed bbs S A" by (fact D)+
  show "set (p # es) \<subseteq> A" using D(1,2) assms(1) by auto
  fix T assume "S \<subseteq> T" "set (p # es) \<subseteq> T" "pred_closed bbs S T"
  then show "A \<subseteq> T" by (intro D(4)) simp_all
qed

lemma searched_visit:
  assumes A: "searched bbs (pred_list (bbs ! p)) (insert p S) A" and B: "searched bbs es A B"
    and p: "p \<notin> S"
  shows "searched bbs (p # es) S B"
proof (rule searchedI)
  note D = searchedD [OF A] and E = searchedD [OF B]
  have pA: "p \<in> A" and SA: "S \<subseteq> A" using D(1) by simp_all
  show "S \<subseteq> B" using SA E(1) by (rule subset_trans)
  show "set (p # es) \<subseteq> B" using pA E(1,2) by auto
  show "pred_closed bbs S B"
    unfolding pred_closed_def
  proof
    fix x assume x: "x \<in> B - S"
    show "set (pred_list (bbs ! x)) \<subseteq> B"
    proof (cases "x \<in> A")
      case True
      have "set (pred_list (bbs ! x)) \<subseteq> A"
      proof (cases "x = p")
        case False
        then have "x \<in> A - insert p S" using True x by simp
        then show ?thesis using D(3) unfolding pred_closed_def by blast
      qed (use D(2) in simp)
      then show ?thesis using E(1) by (rule subset_trans)
    next
      case False
      then have "x \<in> B - A" using x by simp
      then show ?thesis using E(3) unfolding pred_closed_def by blast
    qed
  qed
  fix T assume T: "S \<subseteq> T" "set (p # es) \<subseteq> T" "pred_closed bbs S T"
  have "p \<in> T - S" using T(2) p by simp
  then have "set (pred_list (bbs ! p)) \<subseteq> T" using T(3) unfolding pred_closed_def by blast
  moreover have "pred_closed bbs (insert p S) T" using T(3) unfolding pred_closed_def by blast
  ultimately have "A \<subseteq> T" using T(1,2) by (intro D(4)) simp_all
  moreover have "pred_closed bbs A T" using T(3) SA unfolding pred_closed_def by blast
  ultimately show "B \<subseteq> T" using T(2) by (intro E(4)) simp_all
qed

lemma searched_bump:
  assumes "set es \<subseteq> {..<length bbs}" "S \<subseteq> {..<length bbs}" "A \<subseteq> {..<length bbs}"
    and s: "searched (bump bbs X) es S A"
    and p: "\<forall>b < length bbs. set (pred_list (bbs ! b)) \<subseteq> {..<length bbs}"
  shows "searched bbs es S A"
proof (rule searchedI)
  note D = searchedD [OF s]
  have eq: "pred_closed (bump bbs X) S T \<longleftrightarrow> pred_closed bbs S T" if "T \<subseteq> {..<length bbs}" for T
  proof -
    have "pred_list (bump bbs X ! x) = pred_list (bbs ! x)" if "x \<in> T - S" for x
      using that \<open>T \<subseteq> {..<length bbs}\<close> by auto
    then show ?thesis by (simp add: pred_closed_def)
  qed
  show "S \<subseteq> A" "set es \<subseteq> A" by (fact D)+
  show "pred_closed bbs S A" using D(3) eq [OF assms(3)] by blast
  fix T assume T: "S \<subseteq> T" "set es \<subseteq> T" "pred_closed bbs S T"
  let ?T = "T \<inter> {..<length bbs}"
  have "pred_closed bbs S ?T" using T(3) p unfolding pred_closed_def by blast
  then have "pred_closed (bump bbs X) S ?T" using eq [of ?T] by simp
  then have "A \<subseteq> ?T" using T(1,2) assms(1,2) by (intro D(4)) simp_all
  then show "A \<subseteq> T" by simp
qed

lemma search_preds_Some:
  assumes "block_ok (length bbs) s" "set es \<subseteq> {..<length bbs}"
    and "\<forall>b < length bbs. set (pred_list (bbs ! b)) \<subseteq> {..<length bbs}"
  shows "\<exists>s'. search_preds es bbs s = Some (bump bbs (s_elems s' - s_elems s), s')
    \<and> block_ok (length bbs) s' \<and> searched bbs es (s_elems s) (s_elems s')"
  using assms
proof (induction "(length bbs - card (s_elems s), length es)" arbitrary: es bbs s
    rule: wf_induct_rule [OF wf_lex_prod [OF wf_less_than wf_less_than]])
  case 1
  note ok = "1.prems"(1) and es = "1.prems"(2) and pb = "1.prems"(3)
  let ?n = "length bbs"
  show ?case
  proof (cases es)
    case Nil
    then show ?thesis using ok searched_Nil by (intro exI [of _ s], subst search_preds.simps) simp
  next
    case (Cons p es')
    have p: "p < ?n" using es Cons by simp
    have c: "set_contains s (block_no p) = Some (p \<in> s_elems s)" using imc.mem [OF ok p] .
    show ?thesis
    proof (cases "p \<in> s_elems s")
      case True
      have "\<exists>s'. search_preds es' bbs s = Some (bump bbs (s_elems s' - s_elems s), s')
          \<and> block_ok ?n s' \<and> searched bbs es' (s_elems s) (s_elems s')"
        using "1.hyps" [of bbs s es'] ok es pb Cons by simp
      then obtain s' where "search_preds es' bbs s = Some (bump bbs (s_elems s' - s_elems s), s')"
          "block_ok ?n s'" "searched bbs es' (s_elems s) (s_elems s')" by blast
      moreover have "search_preds (p # es') bbs s = search_preds es' bbs s"
        using c True by (subst search_preds.simps) simp
      ultimately show ?thesis using searched_skip [OF True] Cons by metis
    next
      case False
      obtain t where t: "set_add s (block_no p) = Some t" "block_ok ?n t"
          "s_elems t = insert p (s_elems s)" using imc.add [OF ok p] by blast
      let ?bbs = "deepen bbs p"
      have d: "?bbs = bump bbs {p}" by (rule deepen_bump [OF p])
      have fin: "finite (s_elems v)" "card (s_elems v) \<le> ?n" if "block_ok ?n v" for v
      proof -
        have "s_elems v \<subseteq> {..<?n}" using imc.bound [OF that] .
        then show "finite (s_elems v)" "card (s_elems v) \<le> ?n"
          using finite_subset subset_eq_atLeast0_lessThan_card by (auto simp: lessThan_atLeast0)
      qed
      have card: "card (s_elems t) = card (s_elems s) + 1" using t(3) False fin(1) [OF ok] by simp
      then have lt: "?n - card (s_elems t) < ?n - card (s_elems s)" using fin(2) [OF t(2)] by simp
      have pb': "\<forall>b < length ?bbs. set (pred_list (?bbs ! b)) \<subseteq> {..<length ?bbs}"
        using pb by (simp add: d)
      have "\<exists>v. search_preds (pred_list (bbs ! p)) ?bbs t = Some (bump ?bbs (s_elems v - s_elems t), v)
          \<and> block_ok ?n v \<and> searched ?bbs (pred_list (bbs ! p)) (s_elems t) (s_elems v)"
        using "1.hyps" [of ?bbs t "pred_list (bbs ! p)"] lt t(2) pb' pb p by (simp add: d)
      then obtain v where v: "search_preds (pred_list (bbs ! p)) ?bbs t
          = Some (bump ?bbs (s_elems v - s_elems t), v)" "block_ok ?n v"
          "searched ?bbs (pred_list (bbs ! p)) (s_elems t) (s_elems v)" by blast
      have tv: "s_elems t \<subseteq> s_elems v" using v(3) by (simp add: searched_def)
      let ?bbs2 = "bump ?bbs (s_elems v - s_elems t)"
      have b2: "?bbs2 = bump bbs (s_elems v - s_elems s)"
      proof -
        have "{p} \<union> (s_elems v - s_elems t) = s_elems v - s_elems s"
          using tv t(3) False by blast
        then show ?thesis unfolding d using t(3) by (subst bump_bump) simp_all
      qed
      have "card (s_elems t) \<le> card (s_elems v)" using tv fin(1) [OF v(2)] by (simp add: card_mono)
      then have lt2: "?n - card (s_elems v) < ?n - card (s_elems s)"
        using card fin(2) [OF v(2)] by simp
      have "\<exists>w. search_preds es' ?bbs2 v = Some (bump ?bbs2 (s_elems w - s_elems v), w)
          \<and> block_ok ?n w \<and> searched ?bbs2 es' (s_elems v) (s_elems w)"
        using "1.hyps" [of ?bbs2 v es'] lt2 v(2) pb es Cons by (simp add: b2)
      then obtain w where w: "search_preds es' ?bbs2 v = Some (bump ?bbs2 (s_elems w - s_elems v), w)"
          "block_ok ?n w" "searched ?bbs2 es' (s_elems v) (s_elems w)" by blast
      have vw: "s_elems v \<subseteq> s_elems w" using w(3) by (simp add: searched_def)
      have b3: "bump ?bbs2 (s_elems w - s_elems v) = bump bbs (s_elems w - s_elems s)"
      proof -
        have "(s_elems v - s_elems s) \<union> (s_elems w - s_elems v) = s_elems w - s_elems s"
          using tv vw t(3) by blast
        then show ?thesis unfolding b2 by (subst bump_bump) auto
      qed
      have bounds: "s_elems x \<subseteq> {..<?n}" if "block_ok ?n x" for x using imc.bound [OF that] .
      have 1: "searched bbs (pred_list (bbs ! p)) (insert p (s_elems s)) (s_elems v)"
        using searched_bump [of "pred_list (bbs ! p)" bbs "s_elems t" "s_elems v" "{p}"]
          v(3) pb p bounds [OF ok] bounds t(2,3) v(2) by (simp add: d)
      have 2: "searched bbs es' (s_elems v) (s_elems w)"
        using searched_bump [of es' bbs "s_elems v" "s_elems w" "s_elems v - s_elems s"]
          w(3) pb es Cons bounds v(2) w(2) by (simp add: b2)
      have "search_preds es bbs s = Some (bump bbs (s_elems w - s_elems s), w)"
        using Cons c False t(1) p v(1) w(1) b3 by (subst search_preds.simps) simp
      then show ?thesis using w(2) searched_visit [OF 1 2 False] Cons by blast
    qed
  qed
qed

section \<open>Natural loops\<close>

text \<open>
  The body of the loop of a back edge from \<open>f\<close> to \<open>h\<close>: the blocks with a path to
  \<open>f\<close> that does not pass through \<open>h\<close>.
\<close>

inductive in_body :: "imc_unit \<Rightarrow> nat \<Rightarrow> nat \<Rightarrow> nat \<Rightarrow> bool" for u f h where
  body_footer: "f \<noteq> h \<Longrightarrow> in_body u f h f"
| body_pred: "in_body u f h y \<Longrightarrow> p \<in> set (preds u y) \<Longrightarrow> p \<noteq> h \<Longrightarrow> in_body u f h p"

definition natural_loop :: "imc_unit \<Rightarrow> nat \<Rightarrow> nat \<Rightarrow> nat set" where
  "natural_loop u f h = insert h {x. in_body u f h x}"

lemma in_body_not_header: "in_body u f h x \<Longrightarrow> x \<noteq> h"
  by (induction rule: in_body.induct) simp_all

lemma natural_loop_self: "natural_loop u h h = {h}"
proof -
  have "\<not> in_body u h h x" for x
  proof
    assume "in_body u h h x" then show False by (induction rule: in_body.induct) simp_all
  qed
  then show ?thesis by (simp add: natural_loop_def)
qed

lemma searched_natural_loop:
  assumes "searched (bb_list u) (preds u f) {f, h} A" "f \<noteq> h"
  shows "A = natural_loop u f h"
proof
  note D = searchedD [OF assms(1)]
  let ?L = "natural_loop u f h"
  have f: "in_body u f h f" using assms(2) by (rule body_footer)
  have closed: "set (preds u x) \<subseteq> ?L" if "in_body u f h x" for x
    using body_pred [OF that] by (auto simp: natural_loop_def)
  show "A \<subseteq> ?L"
  proof (rule D(4))
    show "{f, h} \<subseteq> ?L" using f by (simp add: natural_loop_def)
    show "set (preds u f) \<subseteq> ?L" by (rule closed [OF f])
    show "pred_closed (bb_list u) {f, h} ?L"
      using closed by (auto simp: pred_closed_def natural_loop_def)
  qed
  have "x \<in> A" if "in_body u f h x" for x
    using that
  proof (induction rule: in_body.induct)
    case body_footer
    then show ?case using D(1) by simp
  next
    case (body_pred y p)
    have "y \<noteq> h" using body_pred.hyps(1) by (rule in_body_not_header)
    show ?case
    proof (cases "y = f")
      case True
      then show ?thesis using D(2) body_pred.hyps(2) by blast
    next
      case False
      then have "y \<in> A - {f, h}" using body_pred.IH \<open>y \<noteq> h\<close> by simp
      then show ?thesis using D(3) body_pred.hyps(2) unfolding pred_closed_def by blast
    qed
  qed
  then show "?L \<subseteq> A" using D(1) by (auto simp: natural_loop_def)
qed

lemma preds_bound:
  assumes "cfg_ok u" "b < n_basic_blocks u"
  shows "set (preds u b) \<subseteq> {..<n_basic_blocks u}" "set (succs u b) \<subseteq> {..<n_basic_blocks u}"
proof -
  have "p < n_basic_blocks u" if "p \<in> set (preds u b)" for p
    using that cfg_okD(6) [OF assms, of p] cfg_okD(2) [OF assms(1), of p b] by simp
  moreover have "c < n_basic_blocks u" if "c \<in> set (succs u b)" for c
    using that cfg_okD(7) [OF assms, of c] cfg_okD(3) [OF assms(1), of b c] by simp
  ultimately show "set (preds u b) \<subseteq> {..<n_basic_blocks u}" "set (succs u b) \<subseteq> {..<n_basic_blocks u}"
    by auto
qed

subsection \<open>The preheader\<close>

definition the_preheader :: "imc_unit \<Rightarrow> nat set \<Rightarrow> nat \<Rightarrow> nat list \<Rightarrow> int" where
  "the_preheader u L h ps =
     (case filter (\<lambda>p. p \<notin> L) ps of [p] \<Rightarrow> if succs u p = [h] then int p else -1 | _ \<Rightarrow> -1)"

lemma natural_preheader_from_spec:
  assumes "block_ok (n_basic_blocks u) (li_loop li)" "set ps \<subseteq> {..<n_basic_blocks u}"
    and "\<forall>p \<in> set ps. succs u p \<noteq> []" and "pre = -1 \<or> 0 \<le> pre"
  shows "natural_preheader_from u li ps pre = Some
    (if pre = -1 then the_preheader u (s_elems (li_loop li)) (li_header li) ps
     else if filter (\<lambda>p. p \<notin> s_elems (li_loop li)) ps = [] then pre else -1)"
  using assms(2-)
proof (induction ps arbitrary: pre)
  case Nil
  then show ?case by (simp add: the_preheader_def)
next
  case (Cons p ps)
  have c: "set_contains (li_loop li) (block_no p) = Some (p \<in> s_elems (li_loop li))"
    using imc.mem [OF assms(1)] Cons.prems(1) by simp
  obtain to rest where s: "succs u p = to # rest" using Cons.prems(2) by (cases "succs u p") auto
  have IH: "natural_preheader_from u li ps q = Some
    (if q = -1 then the_preheader u (s_elems (li_loop li)) (li_header li) ps
     else if filter (\<lambda>p. p \<notin> s_elems (li_loop li)) ps = [] then q else -1)"
    if "q = -1 \<or> 0 \<le> q" for q
    using Cons.IH [OF _ _ that] Cons.prems by simp
  show ?case
  proof (cases "p \<in> s_elems (li_loop li)")
    case True
    then show ?thesis using c IH [OF Cons.prems(3)] by (simp add: the_preheader_def)
  next
    case False
    then show ?thesis using c s IH [of "int p"]
      by (cases "filter (\<lambda>p. p \<notin> s_elems (li_loop li)) ps") (auto simp: the_preheader_def)
  qed
qed

lemma natural_preheader_spec:
  assumes "cfg_ok u" "block_ok (n_basic_blocks u) (li_loop li)" "li_header li < n_basic_blocks u"
  shows "natural_preheader u li
    = Some (the_preheader u (s_elems (li_loop li)) (li_header li) (preds u (li_header li)))"
proof -
  have "succs u p \<noteq> []" if "p \<in> set (preds u (li_header li))" for p
  proof -
    have "(p, li_header li) \<in> edges u" using that cfg_okD(6) [OF assms(1,3)] by simp
    then have "li_header li \<in> set (succs u p)"
      using cfg_okD(7) [OF assms(1)] cfg_okD(2) [OF assms(1)] by blast
    then show ?thesis by auto
  qed
  then show ?thesis
    using natural_preheader_from_spec [OF assms(2) preds_bound(1) [OF assms(1,3)], of "-1"]
    by (simp add: natural_preheader_def)
qed

text \<open>
  \<open>natural_preheader\<close> answers \<open>p\<close> when the header has exactly one predecessor
  \<open>p\<close> outside the loop and the header is \<open>p\<close>'s only successor, and -1 otherwise; on
  consistent edge lists it never reads a missing successor.
\<close>

theorem natural_preheader_iff:
  assumes "cfg_ok u" and "set_wf (li_loop li)" and "n_basic_blocks u < 2 ^ 32"
    and "s_length (li_loop li) = block_no (n_basic_blocks u)" and "li_header li < n_basic_blocks u"
  shows "\<exists>r. natural_preheader u li = Some r \<and>
    (if \<exists>p. [q \<leftarrow> preds u (li_header li). q \<notin> s_elems (li_loop li)] = [p] \<and> succs u p = [li_header li]
     then [q \<leftarrow> preds u (li_header li). q \<notin> s_elems (li_loop li)] = [nat r] \<and> 0 \<le> r else r = -1)"
proof -
  have "block_ok (n_basic_blocks u) (li_loop li)" using assms by (simp add: block_ok_def)
  from natural_preheader_spec [OF assms(1) this assms(5)] show ?thesis
    by (auto simp: the_preheader_def split: list.split)
qed

theorem natural_preheader_iff_witness:
  "natural_preheader unit8 \<lparr>li_loop = set_make 8, li_exits = set_make 8, li_depth = 0,
     li_n_entries = 0, li_header = 2, li_preheader = 0, li_size = 0\<rparr> = Some 1"
proof -
  let ?li = "\<lparr>li_loop = set_make 8, li_exits = set_make 8, li_depth = 0,
     li_n_entries = 0, li_header = 2, li_preheader = 0, li_size = 0\<rparr>"
  have p: "preds unit8 2 = [1]" using unit8_facts(5) [of 2] by simp
  have "(1, 2) \<in> edges unit8" using cfg_okD(6) [OF unit8_facts(2), of 2 1] unit8_facts(1) p by simp
  then have "2 \<in> set (succs unit8 1)" using cfg_okD(7) [OF unit8_facts(2), of 1 2] unit8_facts(1) by simp
  moreover have "distinct (succs unit8 1)" using cfg_okD(5) [OF unit8_facts(2), of 1] unit8_facts(1) by simp
  moreover have "c = 2" if "c \<in> set (succs unit8 1)" for c
  proof -
    have "(1, c) \<in> edges unit8" using that cfg_okD(7) [OF unit8_facts(2), of 1 c] unit8_facts(1) by simp
    then have "c < 8" "1 \<in> set (preds unit8 c)"
      using cfg_okD(3,6) [OF unit8_facts(2)] unit8_facts(1) by metis+
    then show ?thesis using unit8_facts(5) [of c] by (auto split: if_splits)
  qed
  ultimately have s: "succs unit8 1 = [2]"
    by (cases "succs unit8 1" rule: remdups_adj.cases) auto
  have "set_wf (li_loop ?li)" "n_basic_blocks unit8 < 2 ^ 32"
    "s_length (li_loop ?li) = block_no (n_basic_blocks unit8)" "li_header ?li < n_basic_blocks unit8"
    by (simp_all add: unit8_facts(1) block_no_def)
  from natural_preheader_iff [OF unit8_facts(2) this] p s show ?thesis by auto
qed

subsection \<open>Marking\<close>

text \<open>The blocks that exit a loop.\<close>

definition loop_exits :: "imc_unit \<Rightarrow> nat set \<Rightarrow> nat set" where
  "loop_exits u L = {i \<in> L. \<exists>t \<in> set (succs u i). t \<notin> L}"

lemma loop_exit_block_Some:
  assumes "block_ok n loop" "block_ok n ex" "i < n" "set (succ_list (bbs ! i)) \<subseteq> {..<n}"
  shows "\<exists>ex'. loop_exit_block bbs loop ex i = Some ex' \<and> block_ok n ex'
    \<and> s_elems ex' = s_elems ex \<union> {j. j = i \<and> i \<in> s_elems loop
         \<and> (\<exists>t \<in> set (succ_list (bbs ! i)). t \<notin> s_elems loop)}"
proof (cases "i \<in> s_elems loop")
  case False
  then show ?thesis using imc.mem [OF assms(1,3)] assms(2) by (simp add: loop_exit_block_def)
next
  case True
  let ?I = "\<lambda>ts v. block_ok n v \<and> s_elems v = s_elems ex \<union> {j. j = i \<and> (\<exists>t \<in> set ts. t \<notin> s_elems loop)}"
  have "\<exists>v. fold_opt (loop_exit_edge loop i) (succ_list (bbs ! i)) ex = Some v
      \<and> ?I (succ_list (bbs ! i)) v"
  proof (rule fold_opt_invariant [where I = ?I])
    show "?I [] ex" using assms(2) by simp
  next
    fix ys t zs v
    assume l: "succ_list (bbs ! i) = ys @ t # zs" and I: "?I ys v"
    have t: "t < n" using assms(4) unfolding l by simp
    have c: "set_contains loop (block_no t) = Some (t \<in> s_elems loop)"
      using imc.mem [OF assms(1) t] .
    show "\<exists>v'. loop_exit_edge loop i v t = Some v' \<and> ?I (ys @ [t]) v'"
    proof (cases "t \<in> s_elems loop")
      case True
      then show ?thesis using I c by (simp add: loop_exit_edge_def)
    next
      case False
      obtain v' where "set_add v (block_no i) = Some v'" "block_ok n v'" "s_elems v' = insert i (s_elems v)"
        using imc.add [OF conjunct1 [OF I] assms(3)] by blast
      then show ?thesis using I c False by (auto simp: loop_exit_edge_def)
    qed
  qed
  then show ?thesis using imc.mem [OF assms(1,3)] True by (auto simp: loop_exit_block_def)
qed

lemma loop_exits_Some:
  assumes "cfg_ok u" "block_ok (n_basic_blocks u) loop"
  shows "\<exists>ex. fold_opt (loop_exit_block (bump (bb_list u) X) loop) [1..<n_basic_blocks u]
       (set_make (block_no (n_basic_blocks u))) = Some ex
    \<and> s_elems ex = loop_exits u (s_elems loop) - {0}"
proof -
  let ?n = "n_basic_blocks u"
  let ?I = "\<lambda>is v. block_ok ?n v \<and> s_elems v = {i \<in> set is. i \<in> s_elems loop \<and> (\<exists>t \<in> set (succs u i). t \<notin> s_elems loop)}"
  have "\<exists>v. fold_opt (loop_exit_block (bump (bb_list u) X) loop) [1..<?n] (set_make (block_no ?n)) = Some v
      \<and> ?I [1..<?n] v"
  proof (rule fold_opt_invariant [where I = ?I])
    show "?I [] (set_make (block_no ?n))"
      using set_make_block_ok block_okD(1) [OF assms(2)] by simp
  next
    fix ys i zs v
    assume l: "[1..<?n] = ys @ i # zs" and I: "?I ys v"
    have "i \<in> set [1..<?n]" unfolding l by simp
    then have i: "i < ?n" by simp
    have "set (succ_list (bump (bb_list u) X ! i)) \<subseteq> {..<?n}"
      using preds_bound(2) [OF assms(1) i] i by simp
    from loop_exit_block_Some [OF assms(2) conjunct1 [OF I] i this] I i
    show "\<exists>v'. loop_exit_block (bump (bb_list u) X) loop v i = Some v' \<and> ?I (ys @ [i]) v'"
      by auto
  qed
  then obtain v where v: "fold_opt (loop_exit_block (bump (bb_list u) X) loop) [1..<?n] (set_make (block_no ?n)) = Some v"
      "?I [1..<?n] v" by blast
  have "s_elems v = loop_exits u (s_elems loop) - {0}"
    using v(2) imc.bound [OF assms(2)] by (auto simp: loop_exits_def)
  then show ?thesis using v(1) by blast
qed

definition marked :: "imc_unit \<Rightarrow> nat \<Rightarrow> nat \<Rightarrow> imc_unit \<Rightarrow> loop_info \<Rightarrow> bool" where
  "marked u f h u' li \<longleftrightarrow>
     u' = u\<lparr>bb_list := bump (bb_list u) (natural_loop u f h), loop_list := loop_list u @ [li]\<rparr>
     \<and> block_ok (n_basic_blocks u) (li_loop li)
     \<and> s_elems (li_loop li) = natural_loop u f h
     \<and> s_elems (li_exits li) = loop_exits u (natural_loop u f h) - {0}
     \<and> li_header li = h \<and> li_n_entries li = n_basic_blocks u
     \<and> li_depth li = loop_depth (bb_list u ! f) + 1"

lemma bump_cfg_ok: "cfg_ok u \<Longrightarrow> cfg_ok (u\<lparr>bb_list := bump (bb_list u) A, loop_list := ls\<rparr>)"
  by (simp add: cfg_ok_def)

lemma mark_loop_Some:
  assumes u: "cfg_ok u" and n: "n_basic_blocks u < 2 ^ 32" and e: "(f, h) \<in> edges u"
  shows "\<exists>u' li. mark_loop u (f, h) = Some u' \<and> marked u f h u' li"
proof -
  let ?n = "n_basic_blocks u" and ?bbs = "bb_list u" and ?L = "natural_loop u f h"
  have fh: "f < ?n" "h < ?n" using cfg_okD(2,3) [OF u e] .
  obtain s1 where s1: "set_add (set_make (block_no ?n)) (block_no f) = Some s1" "block_ok ?n s1"
      "s_elems s1 = {f}"
    using imc.add [OF set_make_block_ok [OF n] fh(1)] by auto
  obtain s2 where s2: "set_add s1 (block_no h) = Some s2" "block_ok ?n s2" "s_elems s2 = {f, h}"
    using imc.add [OF s1(2) fh(2)] s1(3) by auto
  have pb: "\<forall>b < length (bump ?bbs A). set (pred_list (bump ?bbs A ! b)) \<subseteq> {..<length (bump ?bbs A)}" for A
    using preds_bound(1) [OF u] by simp
  have "\<exists>loop. (if h \<noteq> f
       then search_predecessors_not_in f (deepen (deepen ?bbs f) h) s2
       else Some (deepen ?bbs f, s2)) = Some (bump ?bbs ?L, loop) \<and> block_ok ?n loop \<and> s_elems loop = ?L"
  proof (cases "h = f")
    case True
    then show ?thesis using s2 fh by (simp add: natural_loop_self deepen_bump)
  next
    case False
    have d: "deepen (deepen ?bbs f) h = bump ?bbs {f, h}"
      using False fh by (simp add: deepen_bump bump_bump insert_commute)
    have es: "set (preds u f) \<subseteq> {..<?n}" by (rule preds_bound(1) [OF u fh(1)])
    obtain s' where s': "search_preds (preds u f) (bump ?bbs {f, h}) s2
          = Some (bump (bump ?bbs {f, h}) (s_elems s' - s_elems s2), s')"
        "block_ok ?n s'" "searched (bump ?bbs {f, h}) (preds u f) (s_elems s2) (s_elems s')"
      using search_preds_Some [of "bump ?bbs {f, h}" s2 "preds u f"] s2(2) es pb by auto
    have "searched ?bbs (preds u f) {f, h} (s_elems s')"
      using searched_bump [OF es _ _ s'(3)] imc.bound [OF s2(2)] imc.bound [OF s'(2)] s2(3)
        preds_bound(1) [OF u] by simp
    then have L: "s_elems s' = ?L" using searched_natural_loop False by metis
    have sub: "{f, h} \<subseteq> ?L" using searchedD(1) [OF s'(3)] s2(3) L by simp
    then have "bump (bump ?bbs {f, h}) (s_elems s' - s_elems s2) = bump ?bbs ?L"
      by (simp add: L s2(3) bump_bump) (simp add: insert_absorb)
    then show ?thesis
      using False s' L fh unfolding search_predecessors_not_in_def d by simp
  qed
  then obtain loop where loop: "(if h \<noteq> f
       then search_predecessors_not_in f (deepen (deepen ?bbs f) h) s2
       else Some (deepen ?bbs f, s2)) = Some (bump ?bbs ?L, loop)" "block_ok ?n loop" "s_elems loop = ?L"
    by blast
  obtain ex where ex: "fold_opt (loop_exit_block (bump ?bbs ?L) loop) [1..<?n] (set_make (block_no ?n)) = Some ex"
      "s_elems ex = loop_exits u ?L - {0}"
    using loop_exits_Some [OF u loop(2), of ?L] loop(3) by auto
  let ?li = "\<lparr>li_loop = loop, li_exits = ex, li_depth = loop_depth (bump ?bbs ?L ! f),
              li_n_entries = max 1 ?n, li_header = h, li_preheader = 0, li_size = 0\<rparr>"
  have "\<exists>p. natural_preheader (u\<lparr>bb_list := bump ?bbs ?L\<rparr>) ?li = Some p"
    using natural_preheader_spec [of "u\<lparr>bb_list := bump ?bbs ?L\<rparr>" ?li]
      bump_cfg_ok [OF u, where A = ?L and ls = "loop_list u"] loop(2) fh(2) by simp
  then obtain p where p: "natural_preheader (u\<lparr>bb_list := bump ?bbs ?L\<rparr>) ?li = Some p" by blast
  let ?u' = "u\<lparr>bb_list := bump ?bbs ?L, loop_list := loop_list u @ [?li\<lparr>li_preheader := p\<rparr>]\<rparr>"
  have "mark_loop u (f, h) = Some ?u'"
    using s1(1) s2(1) loop(1) ex(1) p by (simp add: mark_loop_def Let_def)
  moreover have "f \<in> ?L"
    using body_footer [of f h u] by (cases "f = h") (simp_all add: natural_loop_def)
  then have "marked u f h ?u' (?li\<lparr>li_preheader := p\<rparr>)"
    using loop(2,3) ex(2) fh(1) by (simp add: marked_def bump_nth)
  ultimately show ?thesis by blast
qed

text \<open>
  The scan for exits starts at block 1, so the entry block is never recorded as an exit.
  Here the entry is a loop of its own, with an edge to block 1.
\<close>

lemma entry_exit_lost:
  fixes u
  defines "u \<equiv> bb_add_edge (bb_add_edge (unit_of 8) 0 0) 0 1"
  shows "\<exists>u' li. mark_loop u (0, 0) = Some u' \<and> loop_list u' = loop_list u @ [li]
    \<and> s_elems (li_loop li) = {0} \<and> loop_exits u {0} = {0} \<and> s_elems (li_exits li) = {}"
proof -
  let ?v = "bb_add_edge (unit_of 8) 0 0"
  have v: "n_basic_blocks ?v = 8" "cfg_ok ?v" "preds ?v 1 = []" "succs ?v 0 = [0]" "edge_list ?v = [(0, 0)]"
    using bb_add_edge_sel [of 0 "unit_of 8" 0] bb_add_edge_ok [of "unit_of 8" 0 0] by simp_all
  have u: "cfg_ok u" "n_basic_blocks u = 8" "succs u 0 = [1, 0]" "(0, 0) \<in> edges u"
    unfolding u_def using v bb_add_edge_sel [of 0 ?v 1] bb_add_edge_ok [OF v(2), of 0 1] by simp_all
  then have n: "n_basic_blocks u < 2 ^ 32" by simp
  obtain u' li where m: "mark_loop u (0, 0) = Some u'" "marked u 0 0 u' li"
    using mark_loop_Some [OF u(1) n u(4)] by blast
  have x: "loop_exits u {0} = {0}" using u(3) by (auto simp: loop_exits_def)
  have "loop_list u' = loop_list u @ [li] \<and> s_elems (li_loop li) = {0} \<and> s_elems (li_exits li) = {}"
    using m(2) x by (simp add: marked_def natural_loop_self)
  then show ?thesis using m(1) x by blast
qed

text \<open>
  C8. \<open>mark_loop\<close> on an edge from \<open>f\<close> to \<open>h\<close> ends and appends one loop: its blocks are
  the natural loop of the edge (the header and the blocks that reach \<open>f\<close> without
  passing the header), each of which is one level deeper than before, no other block
  changes.  The exits it records are the blocks with an edge out of the loop, except that
  the entry block is never recorded, whether it exits the loop or not (\<open>entry_exit_lost\<close>).
  The number of entries it records is the number of blocks of the unit.
\<close>

theorem mark_loop_natural:
  assumes "cfg_ok u" and "n_basic_blocks u < 2 ^ 32" and "(f, h) \<in> set (edge_list u)"
  shows "\<exists>u' li. mark_loop u (f, h) = Some u' \<and> loop_list u' = loop_list u @ [li]
    \<and> s_elems (li_loop li) = natural_loop u f h \<and> li_header li = h
    \<and> s_elems (li_exits li) = loop_exits u (natural_loop u f h) - {0}
    \<and> li_n_entries li = n_basic_blocks u
    \<and> (\<forall>b < n_basic_blocks u. bb_list u' ! b = (bb_list u ! b)\<lparr>loop_depth :=
          loop_depth (bb_list u ! b) + (if b \<in> natural_loop u f h then 1 else 0)\<rparr>)"
proof -
  obtain u' li where "mark_loop u (f, h) = Some u'" "marked u f h u' li"
    using mark_loop_Some [OF assms] by blast
  then show ?thesis by (intro exI [of _ u'] exI [of _ li]) (simp add: marked_def bump_nth)
qed

theorem mark_loop_natural_witness:
  "\<exists>u' li. mark_loop unit8 (1, 2) = Some u' \<and> loop_list u' = [li] \<and> li_n_entries li = 8"
proof -
  have p: "preds unit8 2 = [1]" using unit8_facts(5) [of 2] by simp
  have e: "(1, 2) \<in> edges unit8" using cfg_okD(6) [OF unit8_facts(2), of 2 1] unit8_facts(1) p by simp
  have n: "n_basic_blocks unit8 < 2 ^ 32" by (simp add: unit8_facts(1))
  have "loop_list unit8 = []"
    by (simp add: unit8_def bb_add_edge_def unit_of_def blocks_are_connected_def Let_def)
  then show ?thesis using mark_loop_natural [OF unit8_facts(2) n e] unit8_facts(1) by auto
qed

section \<open>The sort\<close>

lemma loop_size_from_Some:
  assumes "block_ok n s" "\<forall>j \<in> set js. j < n"
  shows "loop_size_from s js k = Some (k + length (filter (\<lambda>j. j \<in> s_elems s) js))"
  using assms(2) imc.mem [OF assms(1)] by (induction js arbitrary: k) simp_all

lemma loop_sized_Some:
  assumes "block_ok n (li_loop li)"
  shows "loop_sized n li = Some (li\<lparr>li_size := card (s_elems (li_loop li))\<rparr>)"
proof -
  have "length (filter (\<lambda>j. j \<in> s_elems (li_loop li)) [0..<n])
      = card (set (filter (\<lambda>j. j \<in> s_elems (li_loop li)) [0..<n]))"
    by (rule distinct_card [symmetric]) simp
  also have "set (filter (\<lambda>j. j \<in> s_elems (li_loop li)) [0..<n]) = s_elems (li_loop li)"
    using imc.bound [OF assms] by auto
  finally show ?thesis using loop_size_from_Some [OF assms, of "[0..<n]" 0] by (simp add: loop_sized_def)
qed

text \<open>
  Inversions: an exchange of neighbours in the wrong order removes one, so the
  passes end.
\<close>

definition weighted :: "loop_info list \<Rightarrow> nat" where
  "weighted ls = (\<Sum>i < length ls. i * li_size (ls ! i))"

lemma sum_split2:
  fixes f :: "nat \<Rightarrow> nat"
  assumes "i + 1 < n"
  shows "(\<Sum>j < n. f j) = (\<Sum>j \<in> {..<n} - {i, i + 1}. f j) + f i + f (i + 1)"
proof -
  have "(\<Sum>j < n. f j) = (\<Sum>j \<in> {..<n} - {i, i + 1}. f j) + (\<Sum>j \<in> {i, i + 1}. f j)"
    using assms by (intro sum.subset_diff) auto
  then show ?thesis by simp
qed

lemma weighted_swap:
  assumes "i + 1 < length ls" "li_size (ls ! i) < li_size (ls ! (i + 1))"
  shows "weighted (ls[i := ls ! (i + 1), i + 1 := ls ! i]) < weighted ls"
proof -
  let ?ls = "ls[i := ls ! (i + 1), i + 1 := ls ! i]"
  have "(\<Sum>j \<in> {..<length ls} - {i, i + 1}. j * li_size (?ls ! j))
      = (\<Sum>j \<in> {..<length ls} - {i, i + 1}. j * li_size (ls ! j))"
    by (rule sum.cong) (auto simp: nth_list_update)
  then show ?thesis
    using assms sum_split2 [OF assms(1), of "\<lambda>j. j * li_size (?ls ! j)"]
      sum_split2 [OF assms(1), of "\<lambda>j. j * li_size (ls ! j)"]
    by (simp add: weighted_def algebra_simps)
qed

definition passed :: "loop_info list \<Rightarrow> nat \<Rightarrow> loop_info list \<times> bool \<Rightarrow> bool" where
  "passed ls k st \<longleftrightarrow> mset (fst st) = mset ls \<and> length (fst st) = length ls \<and>
     (if snd st then weighted (fst st) < weighted ls
      else fst st = ls \<and> (\<forall>i < k. li_size (ls ! (i + 1)) \<le> li_size (ls ! i)))"

lemma sort_pass_passed:
  "k \<le> length ls - 1 \<Longrightarrow> passed ls k (foldl sort_pass_step (ls, False) [0..<k])"
proof (induction k)
  case 0
  then show ?case by (simp add: passed_def)
next
  case (Suc k)
  obtain l c where lc: "foldl sort_pass_step (ls, False) [0..<k] = (l, c)" by force
  have I: "passed ls k (l, c)" using Suc lc by simp
  then have len: "length l = length ls" by (simp add: passed_def)
  have k: "k + 1 < length l" using Suc.prems len by simp
  have step: "foldl sort_pass_step (ls, False) [0..<Suc k] = sort_pass_step (l, c) k" by (simp add: lc)
  show ?case
  proof (cases "li_size (l ! k) < li_size (l ! (k + 1))")
    case True
    have "mset (l[k := l ! (k + 1), k + 1 := l ! k]) = mset l"
      using mset_swap [of "k + 1" l k] k by (simp add: list_update_swap)
    moreover have "weighted l \<le> weighted ls" using I by (cases c) (simp_all add: passed_def)
    then have "weighted (l[k := l ! (k + 1), k + 1 := l ! k]) < weighted ls"
      using weighted_swap [OF k True] by simp
    ultimately show ?thesis unfolding step
      using I True by (simp add: passed_def sort_pass_step_def)
  next
    case False
    then show ?thesis unfolding step
      using I by (auto simp: passed_def sort_pass_step_def less_Suc_eq)
  qed
qed

lemma sort_passes_Some:
  "\<exists>ls'. sort_passes ls = Some ls' \<and> mset ls' = mset ls \<and> sorted_wrt (\<ge>) (map li_size ls')"
proof (induction "weighted ls" arbitrary: ls rule: less_induct)
  case less
  have P: "passed ls (length ls - 1) (sort_pass ls)"
    using sort_pass_passed [of "length ls - 1" ls] by (simp add: sort_pass_def)
  show ?case
  proof (cases "snd (sort_pass ls)")
    case True
    then have "weighted (fst (sort_pass ls)) < weighted ls" "mset (fst (sort_pass ls)) = mset ls"
      using P by (simp_all add: passed_def)
    with less [OF this(1)] True show ?thesis
      by (simp add: sort_passes.simps [of ls] Let_def)
  next
    case False
    then have "fst (sort_pass ls) = ls" "\<forall>i < length ls - 1. li_size (ls ! (i + 1)) \<le> li_size (ls ! i)"
      using P by (simp_all add: passed_def)
    moreover from this(2) have "sorted_wrt (\<ge>) (map li_size ls)"
      by (subst sorted_wrt_iff_nth_Suc_transp) (auto simp: transp_def)
    ultimately show ?thesis using False by (simp add: sort_passes.simps [of ls] Let_def)
  qed
qed

lemma set_depths_nth:
  "length (foldl (set_depth d) ls ks) = length ls"
  "i < length ls \<Longrightarrow> foldl (set_depth d) ls ks ! i = (if i \<in> set ks then (ls ! i)\<lparr>li_depth := d\<rparr> else ls ! i)"
proof (induction ks arbitrary: ls)
  case (Cons k ks)
  {
    case 1
    have "length (set_depth d ls k) = length ls" by (simp add: set_depth_def)
    then show ?case using Cons.IH(1) [of "set_depth d ls k"] by simp
  next
    case 2
    then show ?case using Cons.IH(2) [of "set_depth d ls k"]
      by (cases "k = i") (simp_all add: set_depth_def)
  }
qed simp_all

definition depths_after :: "nat \<Rightarrow> loop_info list \<Rightarrow> loop_info list" where
  "depths_after k ls = map (\<lambda>i. (ls ! i)\<lparr>li_depth :=
      if i < k then 1 else if k = 0 then li_depth (ls ! i) else 2\<rparr>) [0..<length ls]"

lemma sort_depths_after:
  "k \<le> length ls - 1 \<Longrightarrow> foldl sort_depths_step ls [0..<k] = depths_after k ls"
proof (induction k)
  case 0
  show ?case by (rule nth_equalityI) (simp_all add: depths_after_def)
next
  case (Suc k)
  have k: "k < length ls" using Suc.prems by simp
  have l: "length (depths_after k ls) = length ls" by (simp add: depths_after_def)
  have "foldl sort_depths_step ls [0..<Suc k] = sort_depths_step (depths_after k ls) k"
    using Suc by simp
  also have "\<dots> = depths_after (Suc k) ls"
    by (rule nth_equalityI)
      (use k in \<open>auto simp: sort_depths_step_def Let_def set_depths_nth l set_depth_def depths_after_def
         nth_list_update less_Suc_eq\<close>)
  finally show ?case .
qed

definition loop_key :: "loop_info \<Rightarrow> nat \<times> imc_set" where
  "loop_key li = (li_header li, li_loop li)"

lemma sort_loops_Some:
  assumes "\<forall>li \<in> set (loop_list u). set_wf (li_loop li) \<and> s_length (li_loop li) = block_no (n_basic_blocks u)"
    and "n_basic_blocks u < 2 ^ 32"
  shows "\<exists>ls. sort_loops u = Some (u\<lparr>loop_list := ls\<rparr>)
    \<and> mset (map loop_key ls) = mset (map loop_key (loop_list u))
    \<and> (\<forall>li \<in> set ls. li_size li = card (s_elems (li_loop li)))
    \<and> sorted_wrt (\<ge>) (map li_size ls)
    \<and> (2 \<le> length ls \<longrightarrow> map li_depth ls = replicate (length ls - 1) 1 @ [2])"
proof -
  let ?sz = "\<lambda>li. li\<lparr>li_size := card (s_elems (li_loop li))\<rparr>"
  have "those (map (loop_sized (n_basic_blocks u)) (loop_list u)) = Some (map ?sz (loop_list u))"
    by (rule those_map_Some) (use assms in \<open>simp add: loop_sized_Some block_ok_def\<close>)
  moreover obtain ls' where ls': "sort_passes (map ?sz (loop_list u)) = Some ls'"
      "mset ls' = mset (map ?sz (loop_list u))" "sorted_wrt (\<ge>) (map li_size ls')"
    using sort_passes_Some by blast
  define ls where "ls = depths_after (length ls' - 1) ls'"
  have len: "length ls = length ls'" by (simp add: ls_def depths_after_def)
  have keep: "map g ls = map g ls'" if "\<And>li d. g (li\<lparr>li_depth := d\<rparr>) = g li" for g :: "loop_info \<Rightarrow> 'b"
    by (rule nth_equalityI) (simp_all add: ls_def depths_after_def that)
  have "sort_loops u = Some (u\<lparr>loop_list := ls\<rparr>)"
    using calculation ls'(1) sort_depths_after [of "length ls' - 1" ls']
    by (simp add: sort_loops_def ls_def)
  moreover have "mset (map loop_key ls) = mset (map loop_key (loop_list u))"
  proof -
    have "mset (map loop_key ls) = image_mset loop_key (mset ls')"
      using keep [of loop_key] by (simp add: loop_key_def)
    also have "\<dots> = mset (map loop_key (loop_list u))"
      unfolding ls'(2) by (simp add: multiset.map_comp o_def loop_key_def [abs_def])
    finally show ?thesis .
  qed
  moreover have "\<forall>li \<in> set ls. li_size li = card (s_elems (li_loop li))"
  proof -
    have "set ls' = set (map ?sz (loop_list u))" using ls'(2) by (rule mset_eq_setD)
    then have "\<forall>li \<in> set ls'. li_size li = card (s_elems (li_loop li))" by auto
    then have "map li_size ls' = map (\<lambda>li. card (s_elems (li_loop li))) ls'" by simp
    then have "map li_size ls = map (\<lambda>li. card (s_elems (li_loop li))) ls" by (simp add: keep)
    then show ?thesis by simp
  qed
  moreover have "sorted_wrt (\<ge>) (map li_size ls)" using ls'(3) by (simp add: keep)
  moreover have "map li_depth ls = replicate (length ls - 1) 1 @ [2]" if "2 \<le> length ls"
    by (rule nth_equalityI)
      (use that len in \<open>auto simp: ls_def depths_after_def nth_append less_Suc_eq\<close>)
  ultimately show ?thesis by blast
qed

text \<open>
  C9. \<open>sort_loops\<close> ends; it keeps every loop with its header and blocks, sets the
  sizes to the numbers of blocks and orders the loops by size, the largest first.
  Whatever the nesting, it then gives depth 1 to every loop but the last, and depth 2
  to the last one of two or more.
\<close>

theorem sort_loops_sorted:
  assumes "\<forall>li \<in> set (loop_list u). set_wf (li_loop li) \<and> s_length (li_loop li) = block_no (n_basic_blocks u)"
    and "n_basic_blocks u < 2 ^ 32"
  shows "\<exists>ls. sort_loops u = Some (u\<lparr>loop_list := ls\<rparr>)
    \<and> mset (map loop_key ls) = mset (map loop_key (loop_list u))
    \<and> (\<forall>li \<in> set ls. li_size li = card (s_elems (li_loop li)))
    \<and> sorted_wrt (\<ge>) (map li_size ls)
    \<and> (2 \<le> length ls \<longrightarrow> map li_depth ls = replicate (length ls - 1) 1 @ [2])"
  using assms by (rule sort_loops_Some)

definition two_loops :: imc_unit where
  "two_loops = unit8\<lparr>loop_list :=
     [\<lparr>li_loop = set_make 8, li_exits = set_make 8, li_depth = 3, li_n_entries = 8,
       li_header = 1, li_preheader = -1, li_size = 0\<rparr>,
      \<lparr>li_loop = set_make_full 8, li_exits = set_make 8, li_depth = 4, li_n_entries = 8,
       li_header = 2, li_preheader = -1, li_size = 0\<rparr>]\<rparr>"

theorem sort_loops_sorted_witness:
  "\<exists>ls. sort_loops two_loops = Some (two_loops\<lparr>loop_list := ls\<rparr>) \<and> map li_depth ls = [1, 2]"
proof -
  have n: "n_basic_blocks two_loops = 8" by (simp add: two_loops_def unit8_facts(1))
  have "\<forall>li \<in> set (loop_list two_loops). set_wf (li_loop li)
      \<and> s_length (li_loop li) = block_no (n_basic_blocks two_loops)"
    unfolding n by (simp add: two_loops_def block_no_def)
  from sort_loops_sorted [OF this] n obtain ls where
    ls: "sort_loops two_loops = Some (two_loops\<lparr>loop_list := ls\<rparr>)"
      "mset (map loop_key ls) = mset (map loop_key (loop_list two_loops))"
      "2 \<le> length ls \<longrightarrow> map li_depth ls = replicate (length ls - 1) 1 @ [2]" by auto
  have "length ls = 2" using mset_eq_length [OF ls(2)] by (simp add: two_loops_def)
  then have "map li_depth ls = [1, 2]" using ls(3) by simp
  then show ?thesis using ls(1) by (intro exI [of _ ls] conjI)
qed

section \<open>The search for loops\<close>

text \<open>Two units with one graph: they differ in loop depths and found loops only.\<close>

definition same_graph :: "imc_unit \<Rightarrow> imc_unit \<Rightarrow> bool" where
  "same_graph u v \<longleftrightarrow> n_basic_blocks v = n_basic_blocks u \<and> edge_list v = edge_list u
     \<and> dominators v = dominators u
     \<and> (\<forall>b < n_basic_blocks u. preds v b = preds u b \<and> succs v b = succs u b)"

lemma same_graphD:
  assumes "same_graph u v"
  shows "n_basic_blocks v = n_basic_blocks u" "edge_list v = edge_list u" "dominators v = dominators u"
    "b < n_basic_blocks u \<Longrightarrow> preds v b = preds u b" "b < n_basic_blocks u \<Longrightarrow> succs v b = succs u b"
  using assms unfolding same_graph_def by simp_all

lemma same_graph_ok: "same_graph u v \<Longrightarrow> cfg_ok u \<Longrightarrow> cfg_ok v"
  unfolding same_graph_def cfg_ok_def by simp

lemma in_body_transfer:
  assumes "in_body u f h x" "cfg_ok u" "f < n_basic_blocks u" "same_graph u v"
  shows "x < n_basic_blocks u \<and> in_body v f h x"
  using assms(1)
proof (induction rule: in_body.induct)
  case body_footer
  then show ?case using assms(3) in_body.body_footer by blast
next
  case (body_pred y p)
  then have "p \<in> set (preds v y)" using same_graphD(4) [OF assms(4)] by simp
  moreover have "p < n_basic_blocks u"
    using body_pred preds_bound(1) [OF assms(2), of y] by auto
  ultimately show ?case using body_pred in_body.body_pred by blast
qed

lemma natural_loop_same:
  assumes "cfg_ok u" "f < n_basic_blocks u" "same_graph u v"
  shows "natural_loop v f h = natural_loop u f h"
proof -
  have "same_graph v u" using assms(3) unfolding same_graph_def by simp
  then have "in_body v f h x \<longleftrightarrow> in_body u f h x" for x
    using in_body_transfer [OF _ assms(1-3)]
      in_body_transfer [OF _ same_graph_ok [OF assms(3,1)], of f h x u] assms(2) same_graphD(1) [OF assms(3)]
    by metis
  then show ?thesis by (simp add: natural_loop_def)
qed

definition loop_view :: "loop_info \<Rightarrow> nat \<times> nat set" where
  "loop_view li = (li_header li, s_elems (li_loop li))"

definition finding :: "imc_unit \<Rightarrow> (nat \<times> nat) list \<Rightarrow> imc_unit \<Rightarrow> bool" where
  "finding u es v \<longleftrightarrow> same_graph u v
     \<and> (\<forall>li \<in> set (loop_list v). block_ok (n_basic_blocks u) (li_loop li))
     \<and> map loop_view (loop_list v) = map (\<lambda>(i, t). (t, natural_loop u i t))
         (filter (\<lambda>(i, t). t \<in> s_elems (dominators u ! i)) es)"

lemma find_loops_edge_Some:
  assumes u: "cfg_ok u" "n_basic_blocks u < 2 ^ 32"
    and d: "block_ok (n_basic_blocks u) (dominators u ! i)"
    and e: "(i, t) \<in> edges u" and v: "finding u es v"
  shows "\<exists>v'. find_loops_edge (dominators u ! i) i v t = Some v' \<and> finding u (es @ [(i, t)]) v'"
proof -
  have it: "i < n_basic_blocks u" "t < n_basic_blocks u" using cfg_okD(2,3) [OF u(1) e] .
  have sg: "same_graph u v" using v by (simp add: finding_def)
  note S = same_graphD [OF sg]
  have c: "set_contains (dominators u ! i) (block_no t) = Some (t \<in> s_elems (dominators u ! i))"
    using imc.mem [OF d it(2)] .
  show ?thesis
  proof (cases "t \<in> s_elems (dominators u ! i)")
    case False
    then show ?thesis using c v by (simp add: find_loops_edge_def finding_def)
  next
    case True
    have "(i, t) \<in> edges v" "n_basic_blocks v < 2 ^ 32" using e u(2) S by simp_all
    from mark_loop_Some [OF same_graph_ok [OF sg u(1)] this(2,1)] obtain v' li where
      m: "mark_loop v (i, t) = Some v'" "marked v i t v' li" by blast
    have L: "natural_loop v i t = natural_loop u i t" by (rule natural_loop_same [OF u(1) it(1) sg])
    have "same_graph u v'" using m(2) S unfolding same_graph_def marked_def by simp
    then have "finding u (es @ [(i, t)]) v'"
      using v m(2) True S(1) L by (auto simp: finding_def marked_def loop_view_def)
    then show ?thesis using m(1) c True by (simp add: find_loops_edge_def)
  qed
qed

lemma find_loops_block_Some:
  assumes u: "cfg_ok u" "n_basic_blocks u < 2 ^ 32"
    and d: "length (dominators u) = n_basic_blocks u" "block_ok (n_basic_blocks u) (dominators u ! i)"
    and i: "i < n_basic_blocks u" and v: "finding u es v"
  shows "\<exists>v'. find_loops_block v i = Some v' \<and> finding u (es @ map (Pair i) (succs u i)) v'"
proof -
  have S: "succs v i = succs u i" "dominators v = dominators u"
    using v same_graphD [of u v] i by (auto simp: finding_def)
  have "\<exists>w. fold_opt (find_loops_edge (dominators u ! i) i) (succs u i) v = Some w
      \<and> finding u (es @ map (Pair i) (succs u i)) w"
  proof (rule fold_opt_invariant [where I = "\<lambda>ts w. finding u (es @ map (Pair i) ts) w"])
    show "finding u (es @ map (Pair i) []) v" using v by simp
  next
    fix ys t zs w
    assume l: "succs u i = ys @ t # zs" and I: "finding u (es @ map (Pair i) ys) w"
    have "t \<in> set (succs u i)" unfolding l by simp
    then have "(i, t) \<in> edges u" using cfg_okD(7) [OF u(1) i] by simp
    from find_loops_edge_Some [OF u d(2) this I]
    show "\<exists>w'. find_loops_edge (dominators u ! i) i w t = Some w' \<and> finding u (es @ map (Pair i) (ys @ [t])) w'"
      by simp
  qed
  then show ?thesis using S d(1) i by (simp add: find_loops_block_def)
qed

definition succ_edges :: "imc_unit \<Rightarrow> (nat \<times> nat) list" where
  "succ_edges u = concat (map (\<lambda>i. map (Pair i) (succs u i)) [0..<n_basic_blocks u])"

text \<open>
  C10. \<open>find_loops\<close> ends, and the loops it leaves, before and after sorting a
  permutation of each other, are one natural loop for every edge whose target is in
  the dominator set of its source.
\<close>

theorem find_loops_natural:
  assumes "cfg_ok u" and "n_basic_blocks u < 2 ^ 32" and "loop_list u = []"
    and "length (dominators u) = n_basic_blocks u"
    and "\<forall>d \<in> set (dominators u). set_wf d \<and> s_length d = block_no (n_basic_blocks u)"
  shows "\<exists>u'. find_loops u = Some u' \<and>
    mset (map (\<lambda>li. (li_header li, s_elems (li_loop li))) (loop_list u'))
    = mset [(t, natural_loop u i t). (i, t) \<leftarrow> succ_edges u, t \<in> s_elems (dominators u ! i)]"
proof -
  let ?n = "n_basic_blocks u"
  have d: "block_ok ?n (dominators u ! i)" if "i < ?n" for i
    using assms(2,4,5) that by (simp add: block_ok_def)
  let ?es = "\<lambda>is. concat (map (\<lambda>i. map (Pair i) (succs u i)) is)"
  have "\<exists>v. fold_opt find_loops_block [0..<?n] u = Some v \<and> finding u (?es [0..<?n]) v"
  proof (rule fold_opt_invariant [where I = "\<lambda>is v. finding u (?es is) v"])
    show "finding u (?es []) u" using assms(3) by (simp add: finding_def same_graph_def)
  next
    fix ys i zs v
    assume l: "[0..<?n] = ys @ i # zs" and I: "finding u (?es ys) v"
    have "i \<in> set [0..<?n]" unfolding l by simp
    then have i: "i < ?n" by simp
    from find_loops_block_Some [OF assms(1,2,4) d [OF i] i I]
    show "\<exists>v'. find_loops_block v i = Some v' \<and> finding u (?es (ys @ [i])) v'" by simp
  qed
  then obtain v where v: "fold_opt find_loops_block [0..<?n] u = Some v" "finding u (succ_edges u) v"
    by (auto simp: succ_edges_def)
  have n: "n_basic_blocks v = ?n" using v(2) by (simp add: finding_def same_graph_def)
  have "\<forall>li \<in> set (loop_list v). block_ok (n_basic_blocks v) (li_loop li)"
    using v(2) n by (simp add: finding_def)
  then obtain ls where ls: "sort_loops v = Some (v\<lparr>loop_list := ls\<rparr>)"
      "mset (map loop_key ls) = mset (map loop_key (loop_list v))"
    using sort_loops_Some [of v] n assms(2) by (auto simp: block_ok_def)
  let ?g = "\<lambda>(h, s). (h, s_elems s)"
  have "mset (map loop_view ls) = image_mset ?g (mset (map loop_key ls))"
    by (simp add: multiset.map_comp o_def loop_key_def [abs_def] loop_view_def [abs_def])
  also have "\<dots> = mset (map loop_view (loop_list v))"
    unfolding ls(2) by (simp add: multiset.map_comp o_def loop_key_def [abs_def] loop_view_def [abs_def])
  also have "map loop_view (loop_list v) =
      [(t, natural_loop u i t). (i, t) \<leftarrow> succ_edges u, t \<in> s_elems (dominators u ! i)]"
  proof -
    have "map f (filter P es) = concat (map (\<lambda>x. if P x then [f x] else []) es)"
      for f :: "'a \<Rightarrow> 'b" and P es by (induction es) simp_all
    then show ?thesis using v(2) by (simp add: finding_def case_prod_beta')
  qed
  finally show ?thesis using v(1) ls(1) by (simp add: find_loops_def loop_view_def [abs_def])
qed

theorem find_loops_natural_witness:
  "\<exists>u'. find_loops (unit8\<lparr>dominators := replicate 8 (set_make_full 8)\<rparr>) = Some u'
        \<and> length (loop_list u') = 2"
proof -
  let ?u = "unit8\<lparr>dominators := replicate 8 (set_make_full 8)\<rparr>"
  have "loop_list ?u = []"
    by (simp add: unit8_def bb_add_edge_def unit_of_def blocks_are_connected_def Let_def)
  moreover have n: "n_basic_blocks ?u = 8" by (simp add: unit8_facts(1))
  moreover have "cfg_ok ?u" using unit8_facts(2) by (simp add: cfg_ok_def)
  ultimately obtain u' where u': "find_loops ?u = Some u'"
    "mset (map (\<lambda>li. (li_header li, s_elems (li_loop li))) (loop_list u'))
    = mset [(t, natural_loop ?u i t). (i, t) \<leftarrow> succ_edges ?u, t \<in> s_elems (dominators ?u ! i)]"
    using find_loops_natural [of ?u] by (auto simp: block_no_def)
  have "map (\<lambda>i. map (Pair i) (succs ?u i)) [0..<8] = [[(0, 1)], [(1, 2)], [], [], [], [], [], []]"
    using unit8_facts(6) by (simp add: upt_rec)
  then have "succ_edges ?u = [(0, 1), (1, 2)]" unfolding succ_edges_def n by simp
  then have "length [(t, natural_loop ?u i t). (i, t) \<leftarrow> succ_edges ?u, t \<in> s_elems (dominators ?u ! i)] = 2"
    by simp
  then have "length (loop_list u') = 2" using mset_eq_length [OF u'(2)] by simp
  then show ?thesis using u'(1) by (intro exI [of _ u'] conjI)
qed

end
