(* ===== verification/Imcc_Symtab.thy ===== *)
theory Imcc_Symtab
  imports Parrot_Base "HOL-Library.Multiset"
begin

text \<open>
  IMCC's symbol tables, \<open>compilers/imcc/symreg.h\<close> and the hash of \<open>symreg.c\<close>.  Symbols live
  in a store, a list of \<open>symreg\<close> indexed by their addresses, which the tables share with the
  register allocator; a chain (linked by \<open>next\<close> in the code) is the list of the addresses
  on it.  Names are the bytes before the terminating zero.
\<close>

section \<open>Symbols and tables\<close>

record symreg =
  r_name :: "u8 list"
  r_subid :: "nat option"
  r_nextkey :: "nat option"
  r_reg :: "nat option"
  r_pcc_sub :: "nat option"
  r_used :: "nat option"
  r_first_ins :: "nat option"
  r_last_ins :: "nat option"
  r_type :: u64
  r_usage :: u64
  r_set :: int
  r_want_regno :: int
  r_color :: int
  r_offset :: int
  r_use_count :: int
  r_lhs_use_count :: int
  r_pmc_type :: int

type_synonym symstore = "symreg list"

record symhash =
  h_data :: "nat list list"
  h_size :: u32
  h_entries :: u32

definition VTREG :: u64 where "VTREG = 2"

text \<open>A value of \<open>unsigned int\<close> kept in an \<open>int\<close> and used as an index.\<close>

definition int_index :: "u32 \<Rightarrow> nat option" where
  "int_index w = (if sint w < 0 then None else Some (nat (sint w)))"

text \<open>The remainder of C, undefined for a zero divisor.\<close>

definition u_mod :: "u32 \<Rightarrow> u32 \<Rightarrow> u32 option" where
  "u_mod a b = (if b = 0 then None else Some (a mod b))"

text \<open>\<open>char\<close> is signed, so the characters are added to the key with their sign.\<close>

fun hash_str_from :: "u64 \<Rightarrow> u8 list \<Rightarrow> u64" where
  "hash_str_from key [] = key"
| "hash_str_from key (c # cs) = hash_str_from (key * 65599 + scast c) cs"

definition hash_str :: "u8 list \<Rightarrow> u32" where
  "hash_str str = ucast (hash_str_from 0 str)"

definition create_symhash :: symhash where
  "create_symhash = \<lparr>h_data = replicate 16 [], h_size = 16, h_entries = 0\<rparr>"

text \<open>
  \<open>resize_symhash\<close> empties the old chains one by one, in order, and puts every symbol at the
  front of its new chain.  The array \<open>next_r\<close>, which grows as needed, holds one old chain.
\<close>

definition resize_move :: "symstore \<Rightarrow> u32 \<Rightarrow> nat list list \<Rightarrow> nat \<Rightarrow> nat list list option" where
  "resize_move st new_size nh r =
     do {
       s \<leftarrow> rd st r;
       m \<leftarrow> u_mod (hash_str (r_name s)) new_size;
       new_i \<leftarrow> int_index m;
       chain \<leftarrow> rd nh new_i;
       wr nh new_i (r # chain)
     }"

definition resize_symhash :: "symstore \<Rightarrow> symhash \<Rightarrow> symhash option" where
  "resize_symhash st hsh =
     (let new_size = push_bit 1 (h_size hsh)
      in do {
        n \<leftarrow> int_index new_size;
        nh \<leftarrow> fold_opt (\<lambda>nh i. do {
                next_r \<leftarrow> rd (h_data hsh) i;
                fold_opt (resize_move st new_size) next_r nh
              }) [0..<unat (h_size hsh)] (replicate n []);
        Some (hsh\<lparr>h_data := nh, h_size := new_size\<rparr>)
      })"

definition store_symreg :: "symstore \<Rightarrow> symhash \<Rightarrow> nat \<Rightarrow> symhash option" where
  "store_symreg st hsh r =
     do {
       s \<leftarrow> rd st r;
       m \<leftarrow> u_mod (hash_str (r_name s)) (h_size hsh);
       i \<leftarrow> int_index m;
       chain \<leftarrow> rd (h_data hsh) i;
       d \<leftarrow> wr (h_data hsh) i (r # chain);
       (let hsh = hsh\<lparr>h_data := d, h_entries := h_entries hsh + 1\<rparr>
        in if h_entries hsh \<ge> h_size hsh then resize_symhash st hsh else Some hsh)
     }"

fun chain_find :: "symstore \<Rightarrow> (symreg \<Rightarrow> bool) \<Rightarrow> nat list \<Rightarrow> nat option option" where
  "chain_find st P [] = Some None"
| "chain_find st P (p # ps) =
     do { r \<leftarrow> rd st p; if P r then Some (Some p) else chain_find st P ps }"

definition get_sym :: "symstore \<Rightarrow> symhash \<Rightarrow> u8 list \<Rightarrow> nat option option" where
  "get_sym st hsh name =
     do {
       i \<leftarrow> u_mod (hash_str name) (h_size hsh);
       chain \<leftarrow> rd (h_data hsh) (unat i);
       chain_find st (\<lambda>p. r_name p = name) chain
     }"

definition get_sym_typed :: "symstore \<Rightarrow> symhash \<Rightarrow> u8 list \<Rightarrow> int \<Rightarrow> nat option option" where
  "get_sym_typed st hsh name t =
     do {
       i \<leftarrow> u_mod (hash_str name) (h_size hsh);
       chain \<leftarrow> rd (h_data hsh) (unat i);
       chain_find st (\<lambda>p. t = r_set p \<and> r_name p = name) chain
     }"

text \<open>A new symbol is allocated zeroed, at the end of the store.\<close>

definition zeroed_symreg :: symreg where
  "zeroed_symreg = \<lparr>r_name = [], r_subid = None, r_nextkey = None, r_reg = None, r_pcc_sub = None,
     r_used = None, r_first_ins = None, r_last_ins = None, r_type = 0, r_usage = 0, r_set = 0,
     r_want_regno = 0, r_color = 0, r_offset = 0, r_use_count = 0, r_lhs_use_count = 0,
     r_pmc_type = 0\<rparr>"

definition new_symreg :: "u8 list \<Rightarrow> int \<Rightarrow> symreg" where
  "new_symreg name t = zeroed_symreg\<lparr>r_set := t, r_type := VTREG, r_name := name,
                                     r_color := -1, r_want_regno := -1\<rparr>"

definition mk_symreg :: "symstore \<Rightarrow> symhash \<Rightarrow> u8 list \<Rightarrow> int \<Rightarrow> (nat \<times> symstore \<times> symhash) option" where
  "mk_symreg st hsh name t =
     do {
       r \<leftarrow> get_sym_typed st hsh name t;
       (case r of
          Some p \<Rightarrow> Some (p, st, hsh)
        | None \<Rightarrow>
            (let st' = st @ [new_symreg name t]
             in do { h \<leftarrow> store_symreg st' hsh (length st); Some (length st, st', h) }))
     }"

text \<open>\<open>nspace\<close> lists the names of a namespace and of its parents, innermost first.\<close>

definition mk_fullname :: "u8 list option \<Rightarrow> u8 list \<Rightarrow> u8 list" where
  "mk_fullname ns name = (case ns of Some ns \<Rightarrow> ns @ [58, 58] @ name | None \<Rightarrow> name)"

fun find_sym_in :: "symstore \<Rightarrow> u8 list list \<Rightarrow> symhash \<Rightarrow> symhash \<Rightarrow> u8 list \<Rightarrow> nat option option" where
  "find_sym_in st (ns # nspace) hsh ghash name =
     do {
       p \<leftarrow> get_sym st hsh (mk_fullname (Some ns) name);
       (case p of Some p \<Rightarrow> Some (Some p) | None \<Rightarrow> find_sym_in st nspace hsh ghash name)
     }"
| "find_sym_in st [] hsh ghash name =
     do {
       p \<leftarrow> get_sym st hsh name;
       (case p of Some p \<Rightarrow> Some (Some p) | None \<Rightarrow> get_sym st ghash name)
     }"

text \<open>
  \<open>add_ns\<close> mangles the name of a sub in a namespace, whose name is quoted and in brackets.
  The first separator of its parts is looked for with one string, the others with another.
\<close>

fun strstr :: "u8 list \<Rightarrow> u8 list \<Rightarrow> nat option" where
  "strstr [] pat = (if pat = [] then Some 0 else None)"
| "strstr (c # s) pat =
     (if take (length pat) (c # s) = pat then Some 0 else map_option Suc (strstr s pat))"

definition ns_ats :: "u8 list \<Rightarrow> nat \<Rightarrow> u8 list" where
  "ns_ats s p = s[p := 64, p + 1 := 64, p + 2 := 64]"

lemma strstr_take: "strstr s pat = Some p \<Longrightarrow> take (length pat) (drop p s) = pat"
  by (induction s pat arbitrary: p rule: strstr.induct) (auto split: if_splits)

lemma count_list_update_le: "b \<noteq> a \<Longrightarrow> count_list (xs[i := b]) a \<le> count_list xs a"
proof (induction xs arbitrary: i)
  case (Cons c xs)
  then show ?case by (cases i) (simp_all add: le_SucI)
qed simp

lemma count_list_update_less:
  "i < length xs \<Longrightarrow> xs ! i = a \<Longrightarrow> b \<noteq> a \<Longrightarrow> count_list (xs[i := b]) a < count_list xs a"
proof (induction xs arbitrary: i)
  case (Cons c xs)
  then show ?case by (cases i) simp_all
qed simp

lemma ns_ats_quotes:
  assumes "strstr s (34 # pat) = Some p"
  shows "count_list (ns_ats s p) 34 < count_list s 34"
proof -
  have at: "take (Suc (length pat)) (drop p s) = 34 # pat" using strstr_take [OF assms] by simp
  then obtain t where t: "drop p s = 34 # t" by (cases "drop p s") simp_all
  then have p: "p < length s" "s ! p = 34"
    using nth_via_drop [OF t] by (cases "length s \<le> p"; simp)+
  have "count_list (ns_ats s p) 34 \<le> count_list (s[p := 64]) 34"
    unfolding ns_ats_def by (rule order_trans) (rule count_list_update_le; simp)+
  also have "\<dots> < count_list s 34" using p by (intro count_list_update_less) simp_all
  finally show ?thesis .
qed

function ns_ats_rest :: "u8 list \<Rightarrow> u8 list" where
  "ns_ats_rest s =
     (case strstr s [34, 59, 34, 41] of Some p \<Rightarrow> ns_ats_rest (ns_ats s p) | None \<Rightarrow> s)"
  by auto
termination by (relation "measure (\<lambda>s. count_list s 34)") (auto dest: ns_ats_quotes)

declare ns_ats_rest.simps [simp del]

definition add_ns :: "u8 list option \<Rightarrow> u8 list \<Rightarrow> u8 list" where
  "add_ns cur_namespace name =
     (case cur_namespace of
        None \<Rightarrow> name
      | Some ns \<Rightarrow>
          if length ns \<le> 2 then name
          else
            (let ns_name = take (length ns - 1) (ns[0 := 95]) @ [64, 64, 64] @ name
             in case strstr ns_name [34, 59, 34] of
                  Some p \<Rightarrow> ns_ats_rest (ns_ats ns_name p)
                | None \<Rightarrow> ns_name))"

datatype uniq_t = U_add_once | U_add_uniq_label | U_add_uniq_sub | U_add_all

definition VTADDRESS :: u64 where "VTADDRESS = 8"

definition U_LEXICAL :: u64 where "U_LEXICAL = 16"

definition mk_address_all :: "symstore \<Rightarrow> symhash \<Rightarrow> symhash \<Rightarrow> u8 list \<Rightarrow> (nat \<times> symstore \<times> symhash) option" where
  "mk_address_all st hsh ghash name =
     do {
       r \<leftarrow> get_sym st ghash name;
       is_lexical \<leftarrow> (case r of
          Some p \<Rightarrow> do { g \<leftarrow> rd st p; Some (r_usage g AND U_LEXICAL \<noteq> 0) }
        | None \<Rightarrow> Some False);
       (let s = zeroed_symreg\<lparr>r_type := VTADDRESS, r_name := name\<rparr>;
            r = length st
        in do {
          h \<leftarrow> store_symreg (st @ [s]) hsh r;
          Some (r, st @ [if is_lexical then s\<lparr>r_usage := r_usage s OR U_LEXICAL\<rparr> else s], h)
        })
     }"

definition mk_address :: "symstore \<Rightarrow> symhash \<Rightarrow> symhash \<Rightarrow> u8 list option \<Rightarrow> u8 list \<Rightarrow> uniq_t
    \<Rightarrow> (nat \<times> symstore \<times> symhash) outcome" where
  "mk_address st hsh ghash cur_namespace name uniq =
     (if uniq = U_add_all then defined (mk_address_all st hsh ghash name)
      else
        (let sub_name = (if uniq = U_add_uniq_sub then add_ns cur_namespace name else name)
         in obind (defined (get_sym st hsh sub_name)) (\<lambda>r.
            obind (case r of
                     Some p \<Rightarrow> obind (defined (rd st p)) (\<lambda>s.
                       Done (uniq \<noteq> U_add_once \<and> r_type s = VTADDRESS \<and> r_lhs_use_count s \<noteq> 0))
                   | None \<Rightarrow> Done False) (\<lambda>dup.
            if dup then
              (if uniq = U_add_uniq_label then Thrown ''Label already defined''
               else Thrown ''Subroutine already defined'')
            else
              obind (defined (mk_symreg st hsh sub_name 0)) (\<lambda>(r, st, hsh).
              obind (defined (rd st r)) (\<lambda>s.
                let s = s\<lparr>r_type := VTADDRESS\<rparr>;
                    s = (if uniq \<noteq> U_add_once then s\<lparr>r_lhs_use_count := r_lhs_use_count s + 1\<rparr> else s)
                in Done (r, st[r := s], hsh)))))))"

text \<open>\<open>clear_locals\<close> and the symbols it frees, in order.\<close>

definition clear_locals :: "symhash \<Rightarrow> (symhash \<times> nat list) option" where
  "clear_locals hsh =
     do {
       (d, freed) \<leftarrow> fold_opt (\<lambda>(d, freed) i. do {
                 chain \<leftarrow> rd d i;
                 d \<leftarrow> wr d i [];
                 Some (d, freed @ chain)
               }) [0..<unat (h_size hsh)] (h_data hsh, []);
       Some (hsh\<lparr>h_data := d, h_entries := 0\<rparr>, freed)
     }"

section \<open>Tables in use\<close>

definition sym_slot :: "symstore \<Rightarrow> u32 \<Rightarrow> nat \<Rightarrow> nat" where
  "sym_slot st sz p = unat (hash_str (r_name (st ! p)) mod sz)"

definition h_syms :: "symhash \<Rightarrow> nat list" where
  "h_syms hsh = concat (h_data hsh)"

definition symtab_ok :: "symstore \<Rightarrow> symhash \<Rightarrow> bool" where
  "symtab_ok st hsh \<longleftrightarrow> length (h_data hsh) = unat (h_size hsh) \<and> unat (h_size hsh) < 2 ^ 31 \<and>
     unat (h_entries hsh) = length (h_syms hsh) \<and> unat (h_entries hsh) < unat (h_size hsh) \<and>
     distinct (h_syms hsh) \<and>
     (\<forall>i < length (h_data hsh). \<forall>p \<in> set (h_data hsh ! i).
        p < length st \<and> sym_slot st (h_size hsh) p = i)"

text \<open>No two symbols of a table agree in name and register file.\<close>

definition sym_uniq :: "symstore \<Rightarrow> symhash \<Rightarrow> bool" where
  "sym_uniq st hsh \<longleftrightarrow> inj_on (\<lambda>p. (r_name (st ! p), r_set (st ! p))) (set (h_syms hsh))"

lemma sint_small:
  assumes "unat (w :: u32) < 2 ^ 31"
  shows "sint w = int (unat w)"
proof -
  have "uint w < 2 ^ 31" 
    by (metis assms of_nat_less_iff of_nat_numeral of_nat_power uint_nat)
  moreover have "- (2 ^ 31) \<le> uint w" by (rule order_trans [of _ 0]) simp_all
  ultimately have "signed_take_bit 31 (uint w) = uint w" by (intro signed_take_bit_int_eq_self)
  then have "sint w = uint w" by (simp add: sint_uint)
  then show ?thesis using uint_nat [of w] by (rule trans)
qed

lemma int_index_small: "unat w < 2 ^ 31 \<Longrightarrow> int_index w = Some (unat w)"
  by (simp add: int_index_def sint_small)

lemma u_mod_pos: "0 < unat b \<Longrightarrow> u_mod a b = Some (a mod b)"
  by (auto simp: u_mod_def)

lemma unat_mod_less: "0 < unat b \<Longrightarrow> unat (a mod b :: u32) < unat b"
  by (simp add: unat_mod)

lemma chain_find_eq:
  "\<forall>p \<in> set ps. p < length st \<Longrightarrow> chain_find st P ps = Some (find (\<lambda>p. P (st ! p)) ps)"
  by (induction ps) simp_all

lemma create_symhash_ok: "symtab_ok st create_symhash" "h_syms create_symhash = []"
  by (simp_all add: symtab_ok_def create_symhash_def h_syms_def)

lemma create_symhash_size [simp]: "h_size create_symhash = 16"
  by (simp add: create_symhash_def)

lemma symtab_okD:
  assumes "symtab_ok st hsh"
  shows "0 < unat (h_size hsh)" "length (h_data hsh) = unat (h_size hsh)"
    "unat (h_size hsh) < 2 ^ 31" "distinct (h_syms hsh)" "unat (h_entries hsh) = length (h_syms hsh)"
    "unat (h_entries hsh) < unat (h_size hsh)"
    "p \<in> set (h_syms hsh) \<Longrightarrow> p < length st"
    "p \<in> set (h_syms hsh) \<Longrightarrow> p \<in> set (h_data hsh ! sym_slot st (h_size hsh) p)"
    "i < length (h_data hsh) \<Longrightarrow> p \<in> set (h_data hsh ! i) \<Longrightarrow> p < length st \<and> sym_slot st (h_size hsh) p = i"
    "i < length (h_data hsh) \<Longrightarrow> p \<in> set (h_data hsh ! i) \<Longrightarrow> p \<in> set (h_syms hsh)"
proof -
  show "p < length st" "p \<in> set (h_data hsh ! sym_slot st (h_size hsh) p)"
    if "p \<in> set (h_syms hsh)"
  proof -
    from that obtain c where "c \<in> set (h_data hsh)" "p \<in> set c" by (auto simp: h_syms_def)
    then obtain i where "i < length (h_data hsh)" "p \<in> set (h_data hsh ! i)"
      by (auto simp: in_set_conv_nth [of c])
    with assms show "p < length st" "p \<in> set (h_data hsh ! sym_slot st (h_size hsh) p)"
      by (auto simp: symtab_ok_def)
  qed
  show "p \<in> set (h_syms hsh)" if "i < length (h_data hsh)" "p \<in> set (h_data hsh ! i)"
    using that by (auto simp: h_syms_def)
qed (use assms in \<open>auto simp: symtab_ok_def\<close>)

lemma symtab_ok_cong:
  assumes "symtab_ok st hsh" "length st \<le> length st'"
    "\<And>p. p \<in> set (h_syms hsh) \<Longrightarrow> r_name (st' ! p) = r_name (st ! p)"
  shows "symtab_ok st' hsh"
proof -
  have "p < length st' \<and> sym_slot st' (h_size hsh) p = i"
    if "i < length (h_data hsh)" "p \<in> set (h_data hsh ! i)" for i p
    using symtab_okD(9,10) [OF assms(1) that] assms(2,3) by (auto simp: sym_slot_def)
  then show ?thesis using assms(1) unfolding symtab_ok_def by blast
qed

lemma sym_uniq_cong:
  assumes "sym_uniq st hsh"
    "\<And>p. p \<in> set (h_syms hsh) \<Longrightarrow> r_name (st' ! p) = r_name (st ! p) \<and> r_set (st' ! p) = r_set (st ! p)"
  shows "sym_uniq st' hsh"
  using assms unfolding sym_uniq_def by (subst inj_on_cong [of _ _ "\<lambda>p. (r_name (st ! p), r_set (st ! p))"]) auto

section \<open>Lookup\<close>

lemma chain_lookup:
  assumes ok: "symtab_ok st hsh" and r: "find (\<lambda>p. r_name (st ! p) = name \<and> Q p)
      (h_data hsh ! unat (hash_str name mod h_size hsh)) = r"
  shows "case r of
      Some p \<Rightarrow> p \<in> set (h_syms hsh) \<and> r_name (st ! p) = name \<and> Q p
    | None \<Rightarrow> \<not> (\<exists>p \<in> set (h_syms hsh). r_name (st ! p) = name \<and> Q p)"
proof -
  let ?i = "unat (hash_str name mod h_size hsh)"
  have i: "?i < length (h_data hsh)" using symtab_okD(1,2) [OF ok] unat_mod_less by simp
  show ?thesis
  proof (cases r)
    case None
    then have no: "\<not> (\<exists>p \<in> set (h_data hsh ! ?i). r_name (st ! p) = name \<and> Q p)"
      using r by (auto simp: find_None_iff)
    have "p \<in> set (h_data hsh ! ?i)" if "p \<in> set (h_syms hsh)" "r_name (st ! p) = name" for p
      using symtab_okD(8) [OF ok that(1)] that(2) by (simp add: sym_slot_def)
    with no None show ?thesis by auto
  next
    case (Some p)
    then have "p \<in> set (h_data hsh ! ?i)" "r_name (st ! p) = name" "Q p"
      using r by (auto simp: find_Some_iff)
    with Some symtab_okD(10) [OF ok i] show ?thesis by simp
  qed
qed

lemma chain_below:
  "symtab_ok st hsh \<Longrightarrow> \<forall>p \<in> set (h_data hsh ! unat (a mod h_size hsh)). p < length st"
  using symtab_okD(1,2,9) unat_mod_less by (metis (no_types))

lemma get_sym_eq:
  assumes "symtab_ok st hsh"
  shows "get_sym st hsh name = Some (find (\<lambda>p. r_name (st ! p) = name \<and> True)
            (h_data hsh ! unat (hash_str name mod h_size hsh)))"
  using symtab_okD(1,2) [OF assms] unat_mod_less chain_below [OF assms]
  by (simp add: get_sym_def u_mod_pos chain_find_eq)

lemma get_sym_typed_eq:
  assumes "symtab_ok st hsh"
  shows "get_sym_typed st hsh name t = Some (find (\<lambda>p. r_name (st ! p) = name \<and> r_set (st ! p) = t)
            (h_data hsh ! unat (hash_str name mod h_size hsh)))"
proof -
  have e: "(\<lambda>p. t = r_set (st ! p) \<and> r_name (st ! p) = name)
         = (\<lambda>p. r_name (st ! p) = name \<and> r_set (st ! p) = t)" by auto
  show ?thesis using symtab_okD(1,2) [OF assms] unat_mod_less chain_below [OF assms]
    by (simp add: get_sym_typed_def u_mod_pos chain_find_eq e)
qed


section \<open>Doubling the table\<close>

lemma mset_buckets:
  "mset (concat (map (\<lambda>j. rev (filter (\<lambda>p. f p = j) ps)) [0..<n])) = filter_mset (\<lambda>p. f p < n) (mset ps)"
proof (induction n)
  case 0
  then show ?case by simp
next
  case (Suc n)
  have "filter_mset (\<lambda>p. f p < Suc n) (mset ps)
      = filter_mset (\<lambda>p. f p < n) (mset ps) + filter_mset (\<lambda>p. f p = n) (mset ps)"
    by (rule multiset_eqI) (auto simp: less_Suc_eq)
  then show ?case using Suc by (simp add: mset_filter)
qed

lemma fold_opt_concat:
  assumes "n \<le> length d"
  shows "fold_opt (\<lambda>s i. do { c \<leftarrow> rd d i; fold_opt g c s }) [0..<n] s = fold_opt g (concat (take n d)) s"
  using assms
proof (induction n)
  case 0
  then show ?case by simp
next
  case (Suc n)
  have e: "(\<lambda>s'. fold_opt g (d ! n) s' \<bind> fold_opt (\<lambda>s i. rd d i \<bind> (\<lambda>c. fold_opt g c s)) [])
      = fold_opt g (d ! n)" by (rule ext) (simp add: Option.bind_rzero split: Option.bind_split)
  from Suc show ?case by (simp add: take_Suc_conv_app_nth e)
qed

lemma resize_move_eq:
  assumes "p < length st" "0 < unat sz" "unat sz < 2 ^ 31" "length nh = unat sz"
  shows "resize_move st sz nh p = Some (nh[sym_slot st sz p := p # nh ! sym_slot st sz p])"
proof -
  have "unat (hash_str (r_name (st ! p)) mod sz) < unat sz" using assms(2) by (rule unat_mod_less)
  then show ?thesis using assms by (simp add: resize_move_def u_mod_pos int_index_small sym_slot_def)
qed

lemma resize_move_all:
  assumes "\<forall>p \<in> set ps. p < length st" "0 < unat sz" "unat sz < 2 ^ 31"
  shows "fold_opt (resize_move st sz) ps (replicate (unat sz) []) =
    Some (map (\<lambda>j. rev (filter (\<lambda>p. sym_slot st sz p = j) ps)) [0..<unat sz])"
proof -
  have "\<exists>nh. fold_opt (resize_move st sz) ps (replicate (unat sz) []) = Some nh \<and>
      nh = map (\<lambda>j. rev (filter (\<lambda>p. sym_slot st sz p = j) ps)) [0..<unat sz]"
  proof (rule fold_opt_invariant)
    show "replicate (unat sz) [] = map (\<lambda>j. rev (filter (\<lambda>p. sym_slot st sz p = j) [])) [0..<unat sz]"
      by (rule nth_equalityI) simp_all
  next
    fix ys x zs nh
    assume ps: "ps = ys @ x # zs"
      and nh: "nh = map (\<lambda>j. rev (filter (\<lambda>p. sym_slot st sz p = j) ys)) [0..<unat sz]"
    have "resize_move st sz nh x = Some (nh[sym_slot st sz x := x # nh ! sym_slot st sz x])"
      using assms ps nh by (intro resize_move_eq) simp_all
    moreover have "nh[sym_slot st sz x := x # nh ! sym_slot st sz x] =
        map (\<lambda>j. rev (filter (\<lambda>p. sym_slot st sz p = j) (ys @ [x]))) [0..<unat sz]"
      using assms(2) unat_mod_less by (intro nth_equalityI) (auto simp: nh nth_list_update sym_slot_def)
    ultimately show "\<exists>s'. resize_move st sz nh x = Some s' \<and>
        s' = map (\<lambda>j. rev (filter (\<lambda>p. sym_slot st sz p = j) (ys @ [x]))) [0..<unat sz]" by simp
  qed
  then show ?thesis by simp
qed

text \<open>
  Doubling keeps the symbols and puts each in the chain of its new slot.  It reverses the
  chains: of two symbols with one slot the one that was found last is found first.
\<close>

lemma unat_double: "unat (w :: u32) < 2 ^ 30 \<Longrightarrow> unat (push_bit 1 w) = 2 * unat w"
  by (simp add: unat_word_ariths push_bit_eq_mult)

lemma resize_symhash_chains:
  assumes "length (h_data hsh) = unat (h_size hsh)" "0 < unat (h_size hsh)" "unat (h_size hsh) < 2 ^ 30"
    "\<forall>p \<in> set (h_syms hsh). p < length st"
  shows "resize_symhash st hsh = Some (hsh\<lparr>h_size := push_bit 1 (h_size hsh),
      h_data := map (\<lambda>j. rev (filter (\<lambda>p. sym_slot st (push_bit 1 (h_size hsh)) p = j) (h_syms hsh)))
                    [0..<2 * unat (h_size hsh)]\<rparr>)"
proof -
  define n where "n = push_bit 1 (h_size hsh)"
  have n: "unat n = 2 * unat (h_size hsh)" unfolding n_def using assms(3) by (rule unat_double)
  have "fold_opt (resize_move st n) (concat (take (unat (h_size hsh)) (h_data hsh))) (replicate (unat n) [])
      = Some (map (\<lambda>j. rev (filter (\<lambda>p. sym_slot st n p = j) (h_syms hsh))) [0..<unat n])"
  proof -
    have "0 < unat n" "unat n < 2 ^ 31" using n assms(2,3) by simp_all
    with assms(1,4) show ?thesis by (simp add: h_syms_def [symmetric] resize_move_all)
  qed
  then show ?thesis using n assms(1,3)
    unfolding resize_symhash_def Let_def n_def [symmetric]
    by (simp add: int_index_small fold_opt_concat)
qed

lemma symtab_ok_resized:
  assumes "length (h_data hsh) = unat (h_size hsh)" "0 < unat (h_size hsh)" "unat (h_size hsh) < 2 ^ 30"
    "\<forall>p \<in> set (h_syms hsh). p < length st" "distinct (h_syms hsh)"
    "unat (h_entries hsh) = length (h_syms hsh)" "unat (h_entries hsh) \<le> unat (h_size hsh)"
  shows "\<exists>hsh'. resize_symhash st hsh = Some hsh' \<and> symtab_ok st hsh' \<and>
      mset (h_syms hsh') = mset (h_syms hsh) \<and> unat (h_size hsh') = 2 * unat (h_size hsh)"
proof -
  define n where "n = push_bit 1 (h_size hsh)"
  let ?d = "map (\<lambda>j. rev (filter (\<lambda>p. sym_slot st n p = j) (h_syms hsh))) [0..<2 * unat (h_size hsh)]"
  let ?h = "hsh\<lparr>h_size := n, h_data := ?d\<rparr>"
  have n: "unat n = 2 * unat (h_size hsh)" unfolding n_def using assms(3) by (rule unat_double)
  have "sym_slot st n p < unat n" for p
    unfolding sym_slot_def using assms(2) n by (intro unat_mod_less) simp
  then have ms: "mset (h_syms ?h) = mset (h_syms hsh)"
    using n by (simp add: h_syms_def [of ?h] mset_buckets)
  have "distinct (h_syms ?h)" "length (h_syms ?h) = length (h_syms hsh)"
    using ms assms(5) mset_eq_imp_distinct_iff mset_eq_length by blast+
  then have "symtab_ok st ?h" using assms n by (auto simp: symtab_ok_def)
  then show ?thesis using resize_symhash_chains [OF assms(1-4)] ms n by (simp add: n_def)
qed

section \<open>Storing a symbol\<close>

lemma mset_concat_push:
  assumes "i < length d"
  shows "mset (concat (d[i := r # d ! i])) = add_mset r (mset (concat d))"
proof -
  have "concat d = concat (take i d) @ d ! i @ concat (drop (Suc i) d)"
    using arg_cong [OF id_take_nth_drop [OF assms], of concat] by simp
  then show ?thesis using assms by (simp add: upd_conv_take_nth_drop)
qed

lemma store_symreg_ok:
  assumes ok: "symtab_ok st hsh" and r: "r < length st" "r \<notin> set (h_syms hsh)"
    and lim: "unat (h_size hsh) < 2 ^ 30"
  shows "\<exists>hsh'. store_symreg st hsh r = Some hsh' \<and> symtab_ok st hsh' \<and>
      mset (h_syms hsh') = add_mset r (mset (h_syms hsh)) \<and>
      (h_size hsh' = h_size hsh \<or> unat (h_size hsh') = 2 * unat (h_size hsh))"
proof -
  let ?i = "sym_slot st (h_size hsh) r"
  let ?h = "hsh\<lparr>h_data := (h_data hsh)[?i := r # h_data hsh ! ?i], h_entries := h_entries hsh + 1\<rparr>"
  note D = symtab_okD [OF ok]
  have i: "?i < length (h_data hsh)" using D(1,2) unat_mod_less by (simp add: sym_slot_def)
  have ms: "mset (h_syms ?h) = add_mset r (mset (h_syms hsh))"
    using i by (simp add: h_syms_def mset_concat_push)
  then have syms: "set (h_syms ?h) = insert r (set (h_syms hsh))" "length (h_syms ?h) = Suc (length (h_syms hsh))"
    using mset_eq_setD [of "h_syms ?h" "r # h_syms hsh"] mset_eq_length [of "h_syms ?h" "r # h_syms hsh"] by simp_all
  have dist: "distinct (h_syms ?h)"
    using ms D(4) r(2) mset_eq_imp_distinct_iff [of "h_syms ?h" "r # h_syms hsh"] by simp
  have ent: "unat (h_entries hsh + 1) = Suc (unat (h_entries hsh))"
    using D(3,6) by (simp add: unat_word_ariths)
  have eq: "store_symreg st hsh r
      = (if h_size hsh \<le> h_entries hsh + 1 then resize_symhash st ?h else Some ?h)"
    using D(1,2,3) r(1) i
    by (simp add: store_symreg_def u_mod_pos int_index_small sym_slot_def unat_mod_less Let_def)
  show ?thesis
  proof (cases "h_size hsh \<le> h_entries hsh + 1")
    case True
    have "\<exists>hsh'. resize_symhash st ?h = Some hsh' \<and> symtab_ok st hsh' \<and>
        mset (h_syms hsh') = mset (h_syms ?h) \<and> unat (h_size hsh') = 2 * unat (h_size ?h)"
      using D r(1) lim syms dist ent by (intro symtab_ok_resized) auto
    with True ms eq show ?thesis by auto
  next
    case False
    have "\<forall>j < length (h_data ?h). \<forall>p \<in> set (h_data ?h ! j).
        p < length st \<and> sym_slot st (h_size ?h) p = j"
    proof (intro allI impI ballI)
      fix j p assume j: "j < length (h_data ?h)" and p: "p \<in> set (h_data ?h ! j)"
      show "p < length st \<and> sym_slot st (h_size ?h) p = j"
      proof (cases "p \<in> set (h_data hsh ! j)")
        case True
        with j D(9) [of j p] show ?thesis by simp
      next
        case False
        with p i have "p = r \<and> j = ?i" by (cases "j = ?i") simp_all
        with r(1) show ?thesis by simp
      qed
    qed
    moreover have "unat (h_entries ?h) < unat (h_size ?h)"
      using False by (simp add: word_le_nat_alt)
    moreover have "unat (h_entries ?h) = length (h_syms ?h)"
      using D(5) syms(2) ent by simp
    moreover have "length (h_data ?h) = unat (h_size ?h)" "unat (h_size ?h) < 2 ^ 31"
      using D(2,3) by simp_all
    ultimately have "symtab_ok st ?h"
      using dist unfolding symtab_ok_def by blast
    with False ms eq show ?thesis by auto
  qed
qed

end
