(* ===== verification/Imcc_Reg_Alloc.thy ===== *)
theory Imcc_Reg_Alloc
  imports Imcc_Sets Imcc_Symtab
begin

text \<open>
  IMCC's register allocator, \<open>compilers/imcc/reg_alloc.c\<close>: it colors the symbols of a unit's
  table with register numbers, one file of registers for each of the types I, N, S and P.
  The loops over the table visit the chains in order.
\<close>

section \<open>The allocator's part of a unit\<close>

record imcc_ostat =
  deleted_labels :: int
  if_branch :: int
  branch_branch :: int
  branch_cond_loop :: int
  invariants_moved :: int
  deleted_ins :: int
  used_once :: int

record reg_unit =
  ru_hash :: symhash
  ru_n_symbols :: u32
  ru_max_color :: int
  ru_n_vars_used :: "int list"
  ru_n_regs_used :: "int list"
  ru_first_avail :: "int list"
  ru_ostat :: imcc_ostat

definition VTREGISTER :: u64 where "VTREGISTER = 0x36"

definition REG_NEEDS_ALLOC :: "symreg \<Rightarrow> bool" where
  "REG_NEEDS_ALLOC r \<longleftrightarrow> r_type r AND VTREGISTER \<noteq> 0"

text \<open>The letters I, N, S, P, and the switch on them.\<close>

definition reg_sets :: "int list" where
  "reg_sets = [73, 78, 83, 80]"

definition set_index :: "int \<Rightarrow> nat option" where
  "set_index t =
     (if t = 73 then Some 0 else if t = 78 then Some 1 else if t = 83 then Some 2
      else if t = 80 then Some 3 else None)"

text \<open>Conversion of a value to \<open>int\<close>.\<close>

definition c_int :: "int \<Rightarrow> int" where
  "c_int x = sint (word_of_int x :: u32)"

definition hash_syms :: "symhash \<Rightarrow> nat list option" where
  "hash_syms hsh = map_option concat (those (map (rd (h_data hsh)) [0..<unat (h_size hsh)]))"

section \<open>Statistics\<close>

definition add_at :: "int list \<Rightarrow> nat \<Rightarrow> int list option" where
  "add_at s j = do { v \<leftarrow> rd s j; wr s j (v + 1) }"

definition make_stat_reg :: "symstore \<Rightarrow> int \<times> int list option \<times> int list option \<Rightarrow> nat
    \<Rightarrow> (int \<times> int list option \<times> int list option) option" where
  "make_stat_reg st = (\<lambda>(max_color, sets, cols) p.
     do {
       r \<leftarrow> rd st p;
       (let max_color = (if r_color r > max_color then c_int (r_color r) else max_color)
        in case set_index (r_set r) of
             None \<Rightarrow> Some (max_color, sets, cols)
           | Some j \<Rightarrow>
               if REG_NEEDS_ALLOC r then do {
                 sets \<leftarrow> (case sets of
                            Some s \<Rightarrow> map_option Some (add_at s j)
                          | None \<Rightarrow> Some None);
                 cols \<leftarrow> (case cols of
                            Some c \<Rightarrow> do {
                              v \<leftarrow> rd c j;
                              if r_color r > v then map_option Some (wr c j (c_int (r_color r)))
                              else Some (Some c)
                            }
                          | None \<Rightarrow> Some None);
                 Some (max_color, sets, cols)
               }
               else Some (max_color, sets, cols))
     })"

definition make_stat :: "symstore \<Rightarrow> reg_unit \<Rightarrow> int list option \<Rightarrow> int list option
    \<Rightarrow> (reg_unit \<times> int list option \<times> int list option) option" where
  "make_stat st u sets cols =
     do {
       ps \<leftarrow> hash_syms (ru_hash u);
       (m, sets, cols) \<leftarrow> fold_opt (make_stat_reg st) ps (ru_max_color u, sets, cols);
       cols \<leftarrow> (case cols of
                  Some c \<Rightarrow> map_option Some (fold_opt add_at [0..<4] c)
                | None \<Rightarrow> Some None);
       Some (u\<lparr>ru_max_color := m\<rparr>, sets, cols)
     }"

definition imc_stat_init :: "symstore \<Rightarrow> reg_unit \<Rightarrow> reg_unit option" where
  "imc_stat_init st u =
     do {
       (u, sets, _) \<leftarrow> make_stat st u (Some (ru_n_vars_used u)) None;
       sets \<leftarrow> sets;
       used \<leftarrow> fold_opt (\<lambda>l j. wr l j (-1)) [0..<4] (ru_n_regs_used u);
       avail \<leftarrow> fold_opt (\<lambda>l j. wr l j 0) [0..<4] (ru_first_avail u);
       Some (u\<lparr>ru_n_vars_used := sets, ru_n_regs_used := used, ru_first_avail := avail,
               ru_ostat := \<lparr>deleted_labels = 0, if_branch = 0, branch_branch = 0, branch_cond_loop = 0,
                            invariants_moved = 0, deleted_ins = 0, used_once = 0\<rparr>\<rparr>)
     }"

text \<open>The last step of \<open>imc_reg_alloc\<close>, which records the numbers of registers used.\<close>

definition final_stat :: "symstore \<Rightarrow> reg_unit \<Rightarrow> reg_unit option" where
  "final_stat st u =
     do {
       (u, _, cols) \<leftarrow> make_stat st u None (Some (ru_n_regs_used u));
       cols \<leftarrow> cols;
       Some (u\<lparr>ru_n_regs_used := cols\<rparr>)
     }"

section \<open>Allocation\<close>

definition first_avail :: "symstore \<Rightarrow> reg_unit \<Rightarrow> int \<Rightarrow> (u32 \<times> imc_set) option" where
  "first_avail st u reg_set =
     (let n = (if sint (ru_n_symbols u) > ru_max_color u then sint (ru_n_symbols u) else ru_max_color u)
      in do {
        ps \<leftarrow> hash_syms (ru_hash u);
        allocated \<leftarrow> fold_opt (\<lambda>a p. do {
            r \<leftarrow> rd st p;
            if r_set r = reg_set \<and> REG_NEEDS_ALLOC r \<and> r_color r \<ge> 0
            then set_add a (word_of_int (r_color r)) else Some a
          }) ps (set_make (word_of_int n + 1));
        first \<leftarrow> set_first_zero allocated;
        Some (first, allocated)
      })"

definition allocate_uniq_reg :: "u64 \<Rightarrow> symstore \<times> reg_unit \<times> imc_set option list \<Rightarrow> nat
    \<Rightarrow> (symstore \<times> reg_unit \<times> imc_set option list) option" where
  "allocate_uniq_reg usage = (\<lambda>(st, u, sets) p.
     do {
       r \<leftarrow> rd st p;
       (case set_index (r_set r) of
          None \<Rightarrow> Some (st, u, sets)
        | Some j \<Rightarrow>
            if REG_NEEDS_ALLOC r \<and> r_color r = -1 \<and> r_usage r AND usage \<noteq> 0 \<and> r_use_count r \<noteq> 0
            then do {
              s \<leftarrow> rd sets j;
              (first_reg, avail) \<leftarrow> (case s of
                  Some a \<Rightarrow> do { f \<leftarrow> set_first_zero a; Some (f, a) }
                | None \<Rightarrow> first_avail st u (r_set r));
              avail \<leftarrow> set_add avail first_reg;
              st \<leftarrow> wr st p (r\<lparr>r_color := uint first_reg\<rparr>);
              l \<leftarrow> wr (ru_first_avail u) j (sint (first_reg + 1));
              sets \<leftarrow> wr sets j (Some avail);
              Some (st, u\<lparr>ru_first_avail := l\<rparr>, sets)
            }
            else Some (st, u, sets))
     })"

definition allocate_uniq :: "symstore \<Rightarrow> reg_unit \<Rightarrow> u64 \<Rightarrow> (symstore \<times> reg_unit) option" where
  "allocate_uniq st u usage =
     do {
       ps \<leftarrow> hash_syms (ru_hash u);
       (st, u, _) \<leftarrow> fold_opt (allocate_uniq_reg usage) ps (st, u, [None, None, None, None]);
       Some (st, u)
     }"

definition allocate_lexicals :: "symstore \<Rightarrow> reg_unit \<Rightarrow> (symstore \<times> reg_unit) option" where
  "allocate_lexicals st u = allocate_uniq st u U_LEXICAL"

text \<open>The increment of an \<open>int\<close>, undefined at the end of its range.\<close>

definition inc_int :: "int \<Rightarrow> int option" where
  "inc_int x = (if x < 2 ^ 31 - 1 then Some (x + 1) else None)"

definition clear_color :: "symstore \<Rightarrow> nat \<Rightarrow> symstore option" where
  "clear_color st p =
     do { r \<leftarrow> rd st p; if REG_NEEDS_ALLOC r then wr st p (r\<lparr>r_color := -1\<rparr>) else Some st }"

definition vanilla_reg :: "reg_unit \<Rightarrow> int \<Rightarrow> symstore \<times> imc_set \<times> int \<Rightarrow> nat
    \<Rightarrow> (symstore \<times> imc_set \<times> int) option" where
  "vanilla_reg u reg_set = (\<lambda>(st, avail, first_reg) p.
     do {
       r \<leftarrow> rd st p;
       if r_set r \<noteq> reg_set then Some (st, avail, first_reg)
       else if REG_NEEDS_ALLOC r \<and> r_color r = -1 then do {
         c \<leftarrow> set_contains avail (word_of_int first_reg);
         first_reg \<leftarrow> (if c then map_option (sint \<circ> fst) (first_avail st u reg_set) else Some first_reg);
         avail \<leftarrow> set_add avail (word_of_int first_reg);
         st \<leftarrow> wr st p (r\<lparr>r_color := first_reg\<rparr>);
         first_reg \<leftarrow> inc_int first_reg;
         Some (st, avail, first_reg)
       }
       else Some (st, avail, first_reg)
     })"

definition vanilla_set :: "symstore \<times> reg_unit \<Rightarrow> nat \<Rightarrow> (symstore \<times> reg_unit) option" where
  "vanilla_set = (\<lambda>(st, u) j.
     do {
       reg_set \<leftarrow> rd reg_sets j;
       (first_reg, avail) \<leftarrow> first_avail st u reg_set;
       ps \<leftarrow> hash_syms (ru_hash u);
       (st, _, first_reg) \<leftarrow> fold_opt (vanilla_reg u reg_set) ps (st, avail, sint first_reg);
       l \<leftarrow> wr (ru_first_avail u) j first_reg;
       Some (st, u\<lparr>ru_first_avail := l\<rparr>)
     })"

definition vanilla_reg_alloc :: "symstore \<Rightarrow> reg_unit \<Rightarrow> (symstore \<times> reg_unit) option" where
  "vanilla_reg_alloc st u =
     do {
       ps \<leftarrow> hash_syms (ru_hash u);
       st \<leftarrow> fold_opt clear_color ps st;
       fold_opt vanilla_set [0..<4] (st, u)
     }"

section \<open>Loops over the table\<close>

lemma hash_syms_eq:
  assumes "symtab_ok st hsh"
  shows "hash_syms hsh = Some (h_syms hsh)"
proof -
  have "those (map (rd (h_data hsh)) [0..<length (h_data hsh)]) = Some (map ((!) (h_data hsh)) [0..<length (h_data hsh)])"
    by (rule those_map_Some) simp
  then show ?thesis using symtab_okD(2) [OF assms] map_nth [of "h_data hsh"]
    by (simp add: hash_syms_def h_syms_def)
qed

lemma set_add_ok:
  assumes "set_wf s" "unat (s_length s) + 8 < 2 ^ 32"
  shows "\<exists>s'. set_add s e = Some s' \<and> set_wf s' \<and> unat (s_length s') \<le> unat (s_length s) + 8 \<and>
    (\<forall>x. mem_bit (s_bmp s') x \<longrightarrow> x = unat e \<or> mem_bit (s_bmp s) x)"
proof (cases "unat e div 8 \<le> unat (s_length s) div 8")
  case True
  from set_add_in_range [OF assms(1) this] show ?thesis by auto
next
  case False
  then have "unat (s_length s) div 8 < unat e div 8" by simp
  from set_add_growing [OF assms(1) this assms(2)] assms(2) show ?thesis
    by (auto simp: unat_word_ariths)
qed

lemma clear_colors:
  assumes "\<forall>p \<in> set ps. p < length st"
  shows "\<exists>st'. fold_opt clear_color ps st = Some st' \<and> length st' = length st \<and>
    (\<forall>p. st' ! p = (if p \<in> set ps \<and> REG_NEEDS_ALLOC (st ! p) then (st ! p)\<lparr>r_color := -1\<rparr> else st ! p))"
proof (rule fold_opt_invariant [where I = "\<lambda>ys st'. length st' = length st \<and>
    (\<forall>p. st' ! p = (if p \<in> set ys \<and> REG_NEEDS_ALLOC (st ! p) then (st ! p)\<lparr>r_color := -1\<rparr> else st ! p))"])
  fix ys x zs s
  assume "ps = ys @ x # zs" and s: "length s = length st \<and>
    (\<forall>p. s ! p = (if p \<in> set ys \<and> REG_NEEDS_ALLOC (st ! p) then (st ! p)\<lparr>r_color := -1\<rparr> else st ! p))"
  then have x: "x < length s" using assms by simp
  have n: "REG_NEEDS_ALLOC (s ! x) = REG_NEEDS_ALLOC (st ! x)"
    using s by (simp add: REG_NEEDS_ALLOC_def)
  let ?s = "s[x := if REG_NEEDS_ALLOC (st ! x) then (s ! x)\<lparr>r_color := -1\<rparr> else s ! x]"
  have "clear_color s x = Some ?s" using x n by (simp add: clear_color_def)
  moreover have "?s ! p = (if p \<in> set (ys @ [x]) \<and> REG_NEEDS_ALLOC (st ! p) then (st ! p)\<lparr>r_color := -1\<rparr> else st ! p)" for p
    using s x by (cases "p = x") (simp_all add: nth_list_update)
  ultimately show "\<exists>s'. clear_color s x = Some s' \<and> length s' = length st \<and>
      (\<forall>p. s' ! p = (if p \<in> set (ys @ [x]) \<and> REG_NEEDS_ALLOC (st ! p) then (st ! p)\<lparr>r_color := -1\<rparr> else st ! p))"
    using s by auto
qed simp

section \<open>The registers of one file\<close>

definition alloc_regs :: "symstore \<Rightarrow> symhash \<Rightarrow> int \<Rightarrow> nat list" where
  "alloc_regs st hsh t = filter (\<lambda>p. r_set (st ! p) = t \<and> REG_NEEDS_ALLOC (st ! p)) (h_syms hsh)"

text \<open>The symbols \<open>ps\<close> have the colors 0, 1, 2, and so on; the rest of the store is unchanged.\<close>

definition colored :: "symstore \<Rightarrow> symstore \<Rightarrow> nat list \<Rightarrow> bool" where
  "colored st st' ps \<longleftrightarrow> length st' = length st \<and> (\<forall>p. p \<notin> set ps \<longrightarrow> st' ! p = st ! p) \<and>
     (\<forall>i < length ps. st' ! (ps ! i) = (st ! (ps ! i))\<lparr>r_color := int i\<rparr>)"

lemma colored_Nil [simp]: "colored st st []"
  by (simp add: colored_def)

lemma colored_snoc:
  assumes "colored st st' ps" "p \<notin> set ps" "p < length st"
  shows "colored st (st'[p := (st ! p)\<lparr>r_color := int (length ps)\<rparr>]) (ps @ [p])"
proof -
  let ?st = "st'[p := (st ! p)\<lparr>r_color := int (length ps)\<rparr>]"
  have l: "length ?st = length st" using assms(1) by (simp add: colored_def)
  have "?st ! q = st ! q" if "q \<notin> set (ps @ [p])" for q
    using that assms(1) by (simp add: colored_def)
  moreover have "?st ! ((ps @ [p]) ! i) = (st ! ((ps @ [p]) ! i))\<lparr>r_color := int i\<rparr>"
    if "i < length (ps @ [p])" for i
  proof (cases "i < length ps")
    case True
    then have "ps ! i \<noteq> p" using assms(2) nth_mem by metis
    with True assms(1) show ?thesis by (simp add: colored_def nth_append)
  next
    case False
    with that have "i = length ps" by simp
    with assms(3) l show ?thesis by simp
  qed
  ultimately show ?thesis using l unfolding colored_def by blast
qed

definition avail_len :: "reg_unit \<Rightarrow> u32" where
  "avail_len u = word_of_int (if sint (ru_n_symbols u) > ru_max_color u then sint (ru_n_symbols u)
                              else ru_max_color u) + 1"

lemma set_first_zero_empty:
  assumes "unat n + 8 < 2 ^ 32"
  shows "set_first_zero (set_make n) = Some 0"
proof -
  have no: "\<not> in_set (set_make n) e" for e by (simp add: in_set_def)
  from set_first_zero_bytes_Some [of "set_make n" 0] assms obtain r where
    "set_first_zero (set_make n) = Some r" "\<forall>e < unat r. in_set (set_make n) e"
    by (auto simp: set_first_zero_def no)
  with no have "unat r = 0" by blast
  with \<open>set_first_zero (set_make n) = Some r\<close> show ?thesis by (simp add: unat_eq_zero)
qed

lemma first_avail_fresh:
  assumes "symtab_ok st (ru_hash u)" "\<forall>p \<in> set (alloc_regs st (ru_hash u) t). r_color (st ! p) = -1"
    "unat (avail_len u) + 8 < 2 ^ 32"
  shows "first_avail st u t = Some (0, set_make (avail_len u))"
proof -
  let ?f = "\<lambda>a p. do {
            r \<leftarrow> rd st p;
            if r_set r = t \<and> REG_NEEDS_ALLOC r \<and> r_color r \<ge> 0
            then set_add a (word_of_int (r_color r)) else Some a }"
  have "\<exists>a. fold_opt ?f (h_syms (ru_hash u)) (set_make (avail_len u)) = Some a \<and> a = set_make (avail_len u)"
  proof (rule fold_opt_invariant)
    fix ys x zs a assume "h_syms (ru_hash u) = ys @ x # zs" and a: "a = set_make (avail_len u)"
    then have x: "x \<in> set (h_syms (ru_hash u))" by simp
    then have "r_set (st ! x) = t \<and> REG_NEEDS_ALLOC (st ! x) \<longrightarrow> r_color (st ! x) = -1"
      using assms(2) by (auto simp: alloc_regs_def)
    then show "\<exists>s'. ?f a x = Some s' \<and> s' = set_make (avail_len u)"
      using symtab_okD(7) [OF assms(1) x] a by auto
  qed simp
  then show ?thesis using hash_syms_eq [OF assms(1)] set_first_zero_empty [OF assms(3)]
    unfolding first_avail_def Let_def avail_len_def by simp
qed

lemma sint_zero_u32: "sint (0 :: u32) = 0"
  by simp

lemma word_of_int_small: "n < 2 ^ 32 \<Longrightarrow> unat (word_of_int (int n) :: u32) = n"
  by (simp add: unat_of_nat_u32)

lemma vanilla_set_colors:
  assumes ok: "symtab_ok st (ru_hash u)" and fresh: "\<forall>p \<in> set (alloc_regs st (ru_hash u) t). r_color (st ! p) = -1"
    and lim: "unat (avail_len u) + 8 * length (h_syms (ru_hash u)) + 8 < 2 ^ 32"
    and j: "j < 4" "reg_sets ! j = t" "length (ru_first_avail u) = 4"
  shows "\<exists>st'. vanilla_set (st, u) j = Some (st', u\<lparr>ru_first_avail :=
        (ru_first_avail u)[j := int (length (alloc_regs st (ru_hash u) t))]\<rparr>) \<and>
      colored st st' (alloc_regs st (ru_hash u) t)"
proof -
  let ?ps = "h_syms (ru_hash u)" and ?L = "unat (avail_len u)"
  define F where "F = filter (\<lambda>p. r_set (st ! p) = t \<and> REG_NEEDS_ALLOC (st ! p))"
  note D = symtab_okD [OF ok]
  have "\<exists>r. fold_opt (vanilla_reg u t) ?ps (st, set_make (avail_len u), 0) = Some r \<and>
      (case r of (st', a, k) \<Rightarrow> colored st st' (F ?ps) \<and> k = int (length (F ?ps)) \<and> set_wf a \<and>
         unat (s_length a) \<le> ?L + 8 * length (F ?ps) \<and> (\<forall>x. mem_bit (s_bmp a) x \<longrightarrow> x < length (F ?ps)))"
  proof (rule fold_opt_invariant [where I = "\<lambda>ys r. case r of (st', a, k) \<Rightarrow>
       colored st st' (F ys) \<and> k = int (length (F ys)) \<and> set_wf a \<and>
       unat (s_length a) \<le> ?L + 8 * length (F ys) \<and> (\<forall>x. mem_bit (s_bmp a) x \<longrightarrow> x < length (F ys))"])
    show "case (st, set_make (avail_len u), 0) of (st', a, k) \<Rightarrow>
       colored st st' (F []) \<and> k = int (length (F [])) \<and> set_wf a \<and>
       unat (s_length a) \<le> ?L + 8 * length (F []) \<and> (\<forall>x. mem_bit (s_bmp a) x \<longrightarrow> x < length (F []))"
      by (simp add: F_def)
  next
    fix ys x zs r
    assume ps: "?ps = ys @ x # zs" and I: "case r of (st', a, k) \<Rightarrow>
       colored st st' (F ys) \<and> k = int (length (F ys)) \<and> set_wf a \<and>
       unat (s_length a) \<le> ?L + 8 * length (F ys) \<and> (\<forall>x. mem_bit (s_bmp a) x \<longrightarrow> x < length (F ys))"
    obtain st' a k where r: "r = (st', a, k)" by (cases r)
    let ?k = "length (F ys)"
    have k: "k = int ?k" and col: "colored st st' (F ys)" and wf: "set_wf a"
      and len: "unat (s_length a) \<le> ?L + 8 * ?k" and mem: "\<forall>x. mem_bit (s_bmp a) x \<longrightarrow> x < ?k"
      using I r by simp_all
    have x: "x \<in> set ?ps" "x \<notin> set ys" using ps D(4) by auto
    have xl: "x < length st'" "st' ! x = st ! x" "x \<notin> set (F ys)"
      using x D(7) [OF x(1)] col by (auto simp: colored_def F_def)
    have small: "?k < length ?ps" using ps length_filter_le [of _ ys] by (simp add: F_def le_imp_less_Suc trans_le_add1)
    then have "?k + 1 < 2 ^ 31" using D(3,5,6) by linarith
    show "\<exists>s'. vanilla_reg u t r x = Some s' \<and> (case s' of (st', a, k) \<Rightarrow>
       colored st st' (F (ys @ [x])) \<and> k = int (length (F (ys @ [x]))) \<and> set_wf a \<and>
       unat (s_length a) \<le> ?L + 8 * length (F (ys @ [x])) \<and>
       (\<forall>y. mem_bit (s_bmp a) y \<longrightarrow> y < length (F (ys @ [x]))))"
    proof (cases "r_set (st ! x) = t \<and> REG_NEEDS_ALLOC (st ! x)")
      case False
      then show ?thesis using I r xl by (auto simp: vanilla_reg_def F_def)
    next
      case True
      then have FF: "F (ys @ [x]) = F ys @ [x]" by (simp add: F_def)
      have color: "r_color (st ! x) = -1" using True x(1) fresh by (simp add: alloc_regs_def)
      have w: "unat (word_of_int (int ?k) :: u32) = ?k"
        using \<open>?k + 1 < 2 ^ 31\<close> by (intro word_of_int_small) simp
      have no: "set_contains a (word_of_int (int ?k)) = Some False"
        using mem w by (auto simp: set_contains_eq [OF wf])
      have "unat (s_length a) + 8 < 2 ^ 32" using len lim small by linarith
      from set_add_ok [OF wf this, of "word_of_int (int ?k)"] w obtain a' where
        a': "set_add a (word_of_int (int ?k)) = Some a'" "set_wf a'"
        "unat (s_length a') \<le> unat (s_length a) + 8"
        "\<forall>x. mem_bit (s_bmp a') x \<longrightarrow> x = ?k \<or> mem_bit (s_bmp a) x" by auto
      have "vanilla_reg u t r x = Some (st'[x := (st ! x)\<lparr>r_color := int ?k\<rparr>], a', int ?k + 1)"
        using True color no a'(1) xl \<open>?k + 1 < 2 ^ 31\<close>
        by (simp add: vanilla_reg_def r k inc_int_def)
      moreover have "colored st (st'[x := (st ! x)\<lparr>r_color := int ?k\<rparr>]) (F (ys @ [x]))"
        unfolding FF using colored_snoc [OF col xl(3)] D(7) [OF x(1)] by simp
      moreover have "unat (s_length a') \<le> ?L + 8 * length (F (ys @ [x]))"
        using a'(3) len FF by simp
      moreover have "y < length (F (ys @ [x]))" if "mem_bit (s_bmp a') y" for y
        using a'(4) that mem FF by (auto simp: less_Suc_eq)
      ultimately show ?thesis using a'(2) FF by simp
    qed
  qed
  then obtain st' a where
    "fold_opt (vanilla_reg u t) ?ps (st, set_make (avail_len u), 0) = Some (st', a, int (length (F ?ps)))"
    "colored st st' (F ?ps)" by auto
  moreover have "first_avail st u t = Some (0, set_make (avail_len u))"
    using lim by (intro first_avail_fresh [OF ok fresh]) simp
  ultimately show ?thesis
    using j hash_syms_eq [OF ok] by (simp add: vanilla_set_def reg_sets_def F_def alloc_regs_def)
qed

end
