(* ===== verification/Imcc_Reg_Alloc_Claims.thy ===== *)
theory Imcc_Reg_Alloc_Claims
  imports Imcc_Reg_Alloc
begin

text \<open>
  What the register allocator promises: registers of one file get different numbers, from
  zero on without gaps, and the unit records how many there are.
\<close>

section \<open>All files\<close>

definition same_but_color :: "symstore \<Rightarrow> symstore \<Rightarrow> bool" where
  "same_but_color st st' \<longleftrightarrow> length st' = length st \<and> (\<forall>p. \<exists>c. st' ! p = (st ! p)\<lparr>r_color := c\<rparr>)"

lemma same_but_color_refl: "same_but_color st st"
proof -
  have "st ! p = (st ! p)\<lparr>r_color := r_color (st ! p)\<rparr>" for p by simp
  then show ?thesis unfolding same_but_color_def by blast
qed

lemma same_but_color_trans: "same_but_color a b \<Longrightarrow> same_but_color b c \<Longrightarrow> same_but_color a c"
proof -
  assume 1: "same_but_color a b" and 2: "same_but_color b c"
  have "\<exists>x. c ! p = (a ! p)\<lparr>r_color := x\<rparr>" for p
  proof -
    from 1 obtain x where "b ! p = (a ! p)\<lparr>r_color := x\<rparr>" unfolding same_but_color_def by blast
    moreover from 2 obtain y where "c ! p = (b ! p)\<lparr>r_color := y\<rparr>" unfolding same_but_color_def by blast
    ultimately have "c ! p = (a ! p)\<lparr>r_color := y\<rparr>" by simp
    then show ?thesis by blast
  qed
  with 1 2 show ?thesis by (simp add: same_but_color_def)
qed

lemma same_but_color_sel:
  assumes "same_but_color st st'"
  shows "length st' = length st" "r_name (st' ! p) = r_name (st ! p)" "r_set (st' ! p) = r_set (st ! p)"
    "REG_NEEDS_ALLOC (st' ! p) = REG_NEEDS_ALLOC (st ! p)"
proof -
  from assms obtain c where "st' ! p = (st ! p)\<lparr>r_color := c\<rparr>" unfolding same_but_color_def by blast
  then show "r_name (st' ! p) = r_name (st ! p)" "r_set (st' ! p) = r_set (st ! p)"
    "REG_NEEDS_ALLOC (st' ! p) = REG_NEEDS_ALLOC (st ! p)" by (simp_all add: REG_NEEDS_ALLOC_def)
qed (use assms in \<open>simp add: same_but_color_def\<close>)

lemma colored_same: "colored st st' ps \<Longrightarrow> same_but_color st st'"
proof -
  assume c: "colored st st' ps"
  have "\<exists>c. st' ! p = (st ! p)\<lparr>r_color := c\<rparr>" for p
  proof (cases "p \<in> set ps")
    case True
    then obtain i where "i < length ps" "p = ps ! i" by (auto simp: in_set_conv_nth)
    with c show ?thesis unfolding colored_def by blast
  next
    case False
    with c have "st' ! p = (st ! p)\<lparr>r_color := r_color (st ! p)\<rparr>" by (simp add: colored_def)
    then show ?thesis by blast
  qed
  with c show ?thesis by (simp add: same_but_color_def colored_def)
qed

lemma same_alloc_regs:
  assumes "same_but_color st st'"
  shows "alloc_regs st' hsh t = alloc_regs st hsh t"
  by (simp add: alloc_regs_def same_but_color_sel [OF assms])

lemma same_symtab_ok:
  assumes "same_but_color st st'" "symtab_ok st hsh"
  shows "symtab_ok st' hsh"
  using same_but_color_sel(1,2) [OF assms(1)] by (intro symtab_ok_cong [OF assms(2)]) simp_all

lemma alloc_regs_disjoint:
  "p \<in> set (alloc_regs st hsh t) \<Longrightarrow> p \<in> set (alloc_regs st hsh t') \<Longrightarrow> t = t'"
  by (auto simp: alloc_regs_def)

lemma reg_sets_length [simp]: "length reg_sets = 4"
  by (simp add: reg_sets_def)

lemma reg_sets_inj: "i < 4 \<Longrightarrow> j < 4 \<Longrightarrow> reg_sets ! i = reg_sets ! j \<Longrightarrow> i = j"
  by (auto simp: reg_sets_def less_Suc_eq numeral_eq_Suc)

text \<open>After the first \<open>n\<close> files: these are colored, and the other symbols unchanged.\<close>

definition vanilla_inv :: "symstore \<Rightarrow> reg_unit \<Rightarrow> nat \<Rightarrow> symstore \<times> reg_unit \<Rightarrow> bool" where
  "vanilla_inv st u n = (\<lambda>(s, v). same_but_color st s \<and>
     (\<forall>p. (\<forall>j < n. p \<notin> set (alloc_regs st (ru_hash u) (reg_sets ! j))) \<longrightarrow> s ! p = st ! p) \<and>
     (\<forall>j < n. \<forall>i < length (alloc_regs st (ru_hash u) (reg_sets ! j)).
        r_color (s ! (alloc_regs st (ru_hash u) (reg_sets ! j) ! i)) = int i) \<and>
     (\<exists>l. v = u\<lparr>ru_first_avail := l\<rparr> \<and> length l = 4 \<and>
        (\<forall>j < n. l ! j = int (length (alloc_regs st (ru_hash u) (reg_sets ! j))))))"

lemma vanilla_inv_step:
  assumes ok: "symtab_ok st (ru_hash u)"
    and fresh: "\<forall>p \<in> set (h_syms (ru_hash u)). REG_NEEDS_ALLOC (st ! p) \<longrightarrow> r_color (st ! p) = -1"
    and lim: "unat (avail_len u) + 8 * length (h_syms (ru_hash u)) + 8 < 2 ^ 32"
    and inv: "vanilla_inv st u n x" and n: "n < 4"
  shows "\<exists>x'. vanilla_set x n = Some x' \<and> vanilla_inv st u (Suc n) x'"
proof -
  obtain s v where x: "x = (s, v)" by (cases x)
  let ?R = "\<lambda>j. alloc_regs st (ru_hash u) (reg_sets ! j)"
  obtain l where l: "v = u\<lparr>ru_first_avail := l\<rparr>" "length l = 4" "\<forall>j < n. l ! j = int (length (?R j))"
    using inv x unfolding vanilla_inv_def by auto
  have same: "same_but_color st s" and other: "\<forall>p. (\<forall>j < n. p \<notin> set (?R j)) \<longrightarrow> s ! p = st ! p"
    and col: "\<forall>j < n. \<forall>i < length (?R j). r_color (s ! (?R j ! i)) = int i"
    using inv x unfolding vanilla_inv_def by auto
  have R: "alloc_regs s (ru_hash v) (reg_sets ! n) = ?R n"
    using same_alloc_regs [OF same] l(1) by simp
  have disj: "p \<notin> set (?R j)" if "p \<in> set (?R n)" "j < n" for p j
    using that n alloc_regs_disjoint [of p st "ru_hash u"] reg_sets_inj [of j n] by auto
  have "r_color (s ! p) = -1" if "p \<in> set (?R n)" for p
  proof -
    have "s ! p = st ! p" using other disj [OF that] by blast
    with that fresh show ?thesis by (simp add: alloc_regs_def)
  qed
  moreover have h: "ru_hash v = ru_hash u" "avail_len v = avail_len u" "ru_first_avail v = l"
    using l(1) by (simp_all add: avail_len_def)
  ultimately have "\<exists>s'. vanilla_set (s, v) n = Some (s', v\<lparr>ru_first_avail :=
        (ru_first_avail v)[n := int (length (alloc_regs s (ru_hash v) (reg_sets ! n)))]\<rparr>) \<and>
      colored s s' (alloc_regs s (ru_hash v) (reg_sets ! n))"
    using same_symtab_ok [OF same ok] lim n l(2) R h
    by (intro vanilla_set_colors) simp_all
  then obtain s' where s': "vanilla_set (s, v) n = Some (s', u\<lparr>ru_first_avail := l[n := int (length (?R n))]\<rparr>)"
    "colored s s' (?R n)" unfolding R using l(1) by auto
  have c1: "\<forall>p. (\<forall>j < Suc n. p \<notin> set (?R j)) \<longrightarrow> s' ! p = st ! p"
    using s'(2) other by (auto simp: colored_def)
  have c2: "r_color (s' ! (?R j ! i)) = int i" if "j < Suc n" "i < length (?R j)" for j i
  proof (cases "j = n")
    case True
    with that s'(2) show ?thesis by (simp add: colored_def)
  next
    case False
    then have "j < n" using that by simp
    then have "?R j ! i \<notin> set (?R n)" using disj [of "?R j ! i" j] that(2) nth_mem by blast
    with s'(2) have "s' ! (?R j ! i) = s ! (?R j ! i)" by (simp add: colored_def)
    with col \<open>j < n\<close> that(2) show ?thesis by simp
  qed
  have c3: "\<forall>j < Suc n. (l[n := int (length (?R n))]) ! j = int (length (?R j))"
    using l(2,3) n by (auto simp: nth_list_update less_Suc_eq)
  have "same_but_color st s'" using same colored_same [OF s'(2)] by (rule same_but_color_trans)
  then have "vanilla_inv st u (Suc n) (s', u\<lparr>ru_first_avail := l[n := int (length (?R n))]\<rparr>)"
    unfolding vanilla_inv_def using c1 c2 c3 l(2) by auto
  with s'(1) x show ?thesis by blast
qed

lemma vanilla_sets:
  assumes "symtab_ok st (ru_hash u)"
    "\<forall>p \<in> set (h_syms (ru_hash u)). REG_NEEDS_ALLOC (st ! p) \<longrightarrow> r_color (st ! p) = -1"
    "unat (avail_len u) + 8 * length (h_syms (ru_hash u)) + 8 < 2 ^ 32" "length (ru_first_avail u) = 4"
  shows "\<exists>x. fold_opt vanilla_set [0..<4] (st, u) = Some x \<and> vanilla_inv st u 4 x"
proof -
  have "\<exists>l. u = u\<lparr>ru_first_avail := l\<rparr> \<and> length l = 4"
    using assms(4) by (intro exI [of _ "ru_first_avail u"]) simp
  then have v0: "vanilla_inv st u 0 (st, u)"
    unfolding vanilla_inv_def using same_but_color_refl by auto
  note step = vanilla_inv_step [OF assms(1-3)]
  from step [OF v0] obtain x1 where 1: "vanilla_set (st, u) 0 = Some x1" "vanilla_inv st u 1 x1" by auto
  from step [OF 1(2)] obtain x2 where 2: "vanilla_set x1 1 = Some x2" "vanilla_inv st u 2 x2"
    by (auto simp: numeral_2_eq_2)
  from step [OF 2(2)] obtain x3 where 3: "vanilla_set x2 2 = Some x3" "vanilla_inv st u 3 x3"
    by (auto simp: numeral_3_eq_3)
  from step [OF 3(2)] obtain x4 where 4: "vanilla_set x3 3 = Some x4" "vanilla_inv st u 4 x4"
    by (auto simp: eval_nat_numeral)
  have "[0..<4] = [0, 1, 2, 3::nat]" by (simp add: upt_rec)
  with 1 2 3 4 show ?thesis by simp
qed

lemma list4_eq:
  "length l = 4 \<Longrightarrow> \<forall>j < 4. l ! j = f (reg_sets ! j) \<Longrightarrow> l = map f reg_sets"
  by (rule nth_equalityI) simp_all

text \<open>The allocator colors the registers of each file in the order of the table.\<close>

lemma vanilla_reg_alloc_colors:
  assumes ok: "symtab_ok st (ru_hash u)" and avail: "length (ru_first_avail u) = 4"
    and lim: "unat (avail_len u) + 8 * length (h_syms (ru_hash u)) + 8 < 2 ^ 32"
  shows "\<exists>st'. vanilla_reg_alloc st u = Some (st',
        u\<lparr>ru_first_avail := map (\<lambda>t. int (length (alloc_regs st (ru_hash u) t))) reg_sets\<rparr>) \<and>
      same_but_color st st' \<and>
      (\<forall>t \<in> set reg_sets. \<forall>i < length (alloc_regs st (ru_hash u) t).
         r_color (st' ! (alloc_regs st (ru_hash u) t ! i)) = int i) \<and>
      (\<forall>p. p \<notin> set (h_syms (ru_hash u)) \<or> \<not> REG_NEEDS_ALLOC (st ! p) \<longrightarrow> st' ! p = st ! p)"
proof -
  let ?ps = "h_syms (ru_hash u)"
  obtain s where s: "fold_opt clear_color ?ps st = Some s" "length s = length st"
    "\<forall>p. s ! p = (if p \<in> set ?ps \<and> REG_NEEDS_ALLOC (st ! p) then (st ! p)\<lparr>r_color := -1\<rparr> else st ! p)"
    using clear_colors [of ?ps st] symtab_okD(7) [OF ok] by blast
  have "\<exists>c. s ! p = (st ! p)\<lparr>r_color := c\<rparr>" for p
  proof -
    have "st ! p = (st ! p)\<lparr>r_color := r_color (st ! p)\<rparr>" by simp
    with s(3) show ?thesis by (metis (full_types))
  qed
  then have same: "same_but_color st s" using s(2) by (simp add: same_but_color_def)
  have R: "alloc_regs s (ru_hash u) t = alloc_regs st (ru_hash u) t" for t
    using same by (rule same_alloc_regs)
  have "\<forall>p \<in> set ?ps. REG_NEEDS_ALLOC (s ! p) \<longrightarrow> r_color (s ! p) = -1"
    using s(3) same_but_color_sel(4) [OF same] by simp
  from vanilla_sets [OF same_symtab_ok [OF same ok] this lim avail] obtain x where
    x: "fold_opt vanilla_set [0..<4] (s, u) = Some x" "vanilla_inv s u 4 x" by blast
  obtain st' v where xe: "x = (st', v)" by (cases x)
  obtain l where l: "v = u\<lparr>ru_first_avail := l\<rparr>" "length l = 4"
    "\<forall>j < 4. l ! j = int (length (alloc_regs st (ru_hash u) (reg_sets ! j)))"
    using x(2) xe unfolding vanilla_inv_def R by auto
  have st': "same_but_color s st'"
    "\<forall>p. (\<forall>j < 4. p \<notin> set (alloc_regs st (ru_hash u) (reg_sets ! j))) \<longrightarrow> st' ! p = s ! p"
    "\<forall>j < 4. \<forall>i < length (alloc_regs st (ru_hash u) (reg_sets ! j)).
        r_color (st' ! (alloc_regs st (ru_hash u) (reg_sets ! j) ! i)) = int i"
    using x(2) xe unfolding vanilla_inv_def R by auto
  have "vanilla_reg_alloc st u = Some (st',
        u\<lparr>ru_first_avail := map (\<lambda>t. int (length (alloc_regs st (ru_hash u) t))) reg_sets\<rparr>)"
    using hash_syms_eq [OF ok] s(1) x(1) xe l(1) list4_eq [OF l(2,3)] by (simp add: vanilla_reg_alloc_def)
  moreover have "same_but_color st st'" using same st'(1) by (rule same_but_color_trans)
  moreover have "r_color (st' ! (alloc_regs st (ru_hash u) t ! i)) = int i"
    if t: "t \<in> set reg_sets" and i: "i < length (alloc_regs st (ru_hash u) t)" for t i
  proof -
    obtain j where "j < 4" "reg_sets ! j = t" using t by (auto simp: in_set_conv_nth)
    with st'(3) i show ?thesis by blast
  qed
  moreover have "st' ! p = st ! p" if "p \<notin> set ?ps \<or> \<not> REG_NEEDS_ALLOC (st ! p)" for p
  proof -
    have "p \<notin> set (alloc_regs st (ru_hash u) t)" for t using that by (auto simp: alloc_regs_def)
    with st'(2) have "st' ! p = s ! p" by blast
    with s(3) that show ?thesis by auto
  qed
  ultimately show ?thesis by blast
qed

section \<open>The statistics\<close>

lemma set_index_iff: "set_index t = Some j \<longleftrightarrow> j < 4 \<and> reg_sets ! j = t"
proof (cases "j < 4")
  case True
  then have "j = 0 \<or> j = 1 \<or> j = 2 \<or> j = 3" by linarith
  then show ?thesis by (auto simp: set_index_def reg_sets_def)
next
  case False
  then show ?thesis by (auto simp: set_index_def split: if_splits)
qed

lemma c_int_small: "n < 2 ^ 31 \<Longrightarrow> c_int (int n) = int n"
  by (simp add: c_int_def sint_small unat_of_nat_u32)

text \<open>Counts of the registers of each file among the first symbols.\<close>

abbreviation file_counts :: "symstore \<Rightarrow> nat list \<Rightarrow> int list" where
  "file_counts st ps \<equiv> map (\<lambda>t. int (length (filter (\<lambda>p. r_set (st ! p) = t \<and> REG_NEEDS_ALLOC (st ! p)) ps)) - 1) reg_sets"

lemma make_stat_counts:
  assumes ok: "symtab_ok st hsh"
    and col: "\<forall>t \<in> set reg_sets. \<forall>i < length (alloc_regs st hsh t). r_color (st ! (alloc_regs st hsh t ! i)) = int i"
  shows "\<exists>r. fold_opt (make_stat_reg st) (h_syms hsh) (m, None, Some (replicate 4 (-1))) = Some r \<and>
    (\<exists>m'. r = (m', None, Some (file_counts st (h_syms hsh))))"
proof (rule fold_opt_invariant [where I = "\<lambda>ys r. \<exists>m'. r = (m', None, Some (file_counts st ys))"])
  show "\<exists>m'. (m, None, Some (replicate 4 (-1))) = (m', None, Some (file_counts st []))"
    by (auto simp: reg_sets_def numeral_eq_Suc)
next
  fix ys x zs and r :: "int \<times> int list option \<times> int list option"
  assume ps: "h_syms hsh = ys @ x # zs" and "\<exists>m'. r = (m', None, Some (file_counts st ys))"
  then obtain m' where r: "r = (m', None, Some (file_counts st ys))" by blast
  define F where "F t = filter (\<lambda>p. r_set (st ! p) = t \<and> REG_NEEDS_ALLOC (st ! p))" for t
  note D = symtab_okD [OF ok]
  have x: "x < length st" using D(7) [of x] ps by simp
  show "\<exists>r'. make_stat_reg st r x = Some r' \<and> (\<exists>m'. r' = (m', None, Some (file_counts st (ys @ [x]))))"
  proof (cases "r_set (st ! x) \<in> set reg_sets \<and> REG_NEEDS_ALLOC (st ! x)")
    case False
    then have "file_counts st (ys @ [x]) = file_counts st ys" by auto
    moreover have "set_index (r_set (st ! x)) = None \<or> \<not> REG_NEEDS_ALLOC (st ! x)"
      using False set_index_iff by (cases "set_index (r_set (st ! x))") (auto simp: in_set_conv_nth)
    ultimately show ?thesis using x r by (auto simp: make_stat_reg_def split: option.splits)
  next
    case True
    then obtain j where j: "j < 4" "reg_sets ! j = r_set (st ! x)" by (auto simp: in_set_conv_nth)
    let ?t = "r_set (st ! x)" and ?k = "length (F (r_set (st ! x)) ys)"
    have "alloc_regs st hsh ?t = F ?t ys @ x # F ?t zs"
      using True ps by (simp add: alloc_regs_def F_def)
    then have k: "?k < length (alloc_regs st hsh ?t)" "alloc_regs st hsh ?t ! ?k = x" by simp_all
    have c: "r_color (st ! x) = int ?k" using bspec [OF col, of ?t] True k by force
    have "?k \<le> length ys" by (simp add: F_def)
    moreover have "length ys < length (h_syms hsh)" using ps by simp
    ultimately have "?k < 2 ^ 31" using D(3,5,6) by linarith
    then have ci: "c_int (int ?k) = int ?k" by (rule c_int_small)
    have "(file_counts st ys)[j := int ?k] = file_counts st (ys @ [x])"
    proof (rule nth_equalityI)
      fix i assume "i < length ((file_counts st ys)[j := int ?k])"
      then have i: "i < 4" by simp
      show "(file_counts st ys)[j := int ?k] ! i = file_counts st (ys @ [x]) ! i"
      proof (cases "i = j")
        case True
        then show ?thesis using j \<open>r_set (st ! x) \<in> set reg_sets \<and> REG_NEEDS_ALLOC (st ! x)\<close>
          by (simp add: F_def)
      next
        case False
        then have "reg_sets ! i \<noteq> r_set (st ! x)" using reg_sets_inj [OF i j(1)] j(2) by auto
        then show ?thesis using i False by simp
      qed
    qed simp
    moreover have "rd (file_counts st ys) j = Some (int ?k - 1)"
      using j by (simp add: F_def)
    ultimately show ?thesis using x r True j c ci set_index_iff [of ?t j]
      by (simp add: make_stat_reg_def Let_def)
  qed
qed

lemma add_at_all: "length c = 4 \<Longrightarrow> fold_opt add_at [0..<4] c = Some (map (\<lambda>v. v + 1) c)"
  by (auto simp: upt_rec add_at_def numeral_eq_Suc length_Suc_conv)

text \<open>
  C13. The allocator gives the registers of each of the files I, N, S and P the numbers 0, 1, 2,
  and so on in the order of the symbol table, so that no two share a number and none is
  left out; it changes no other symbol and nothing but colors.  The unit then records, as
  the next free number and as the number of registers that the sub needs at run time, how
  many there are of each file.
\<close>

theorem vanilla_reg_alloc_correct:
  assumes "symtab_ok st (ru_hash u)" "length (ru_first_avail u) = 4"
    "unat (avail_len u) + 8 * length (h_syms (ru_hash u)) + 8 < 2 ^ 32"
    "ru_n_regs_used u = replicate 4 (-1)"
  shows "\<exists>st' u' u''. vanilla_reg_alloc st u = Some (st', u') \<and> final_stat st' u' = Some u'' \<and>
    same_but_color st st' \<and>
    (\<forall>t \<in> set reg_sets. \<forall>i < length (alloc_regs st (ru_hash u) t).
       r_color (st' ! (alloc_regs st (ru_hash u) t ! i)) = int i) \<and>
    (\<forall>p. p \<notin> set (h_syms (ru_hash u)) \<or> \<not> REG_NEEDS_ALLOC (st ! p) \<longrightarrow> st' ! p = st ! p) \<and>
    ru_first_avail u' = map (\<lambda>t. int (length (alloc_regs st (ru_hash u) t))) reg_sets \<and>
    ru_n_regs_used u'' = map (\<lambda>t. int (length (alloc_regs st (ru_hash u) t))) reg_sets"
proof -
  let ?n = "map (\<lambda>t. int (length (alloc_regs st (ru_hash u) t))) reg_sets"
  obtain st' where a: "vanilla_reg_alloc st u = Some (st', u\<lparr>ru_first_avail := ?n\<rparr>)"
    and same: "same_but_color st st'"
    and col: "\<forall>t \<in> set reg_sets. \<forall>i < length (alloc_regs st (ru_hash u) t).
       r_color (st' ! (alloc_regs st (ru_hash u) t ! i)) = int i"
    and rest: "\<forall>p. p \<notin> set (h_syms (ru_hash u)) \<or> \<not> REG_NEEDS_ALLOC (st ! p) \<longrightarrow> st' ! p = st ! p"
    using vanilla_reg_alloc_colors [OF assms(1-3)] by blast
  let ?u = "u\<lparr>ru_first_avail := ?n\<rparr>"
  have ok: "symtab_ok st' (ru_hash u)" using same assms(1) by (rule same_symtab_ok)
  obtain m' where f: "fold_opt (make_stat_reg st') (h_syms (ru_hash u)) (ru_max_color u, None, Some (replicate 4 (-1)))
      = Some (m', None, Some (file_counts st' (h_syms (ru_hash u))))"
    using make_stat_counts [OF ok, of "ru_max_color u"] col same_alloc_regs [OF same] by auto
  have n: "map (\<lambda>v. v + 1) (file_counts st' (h_syms (ru_hash u))) = ?n"
    using same_alloc_regs [OF same, of "ru_hash u"] by (simp add: alloc_regs_def)
  have "final_stat st' ?u = Some (?u\<lparr>ru_max_color := m', ru_n_regs_used := ?n\<rparr>)"
    using f hash_syms_eq [OF ok] assms(4) add_at_all [of "file_counts st' (h_syms (ru_hash u))"] n
    by (simp add: final_stat_def make_stat_def)
  with a same col rest show ?thesis by auto
qed

section \<open>Unused numbers\<close>

text \<open>A symbol that \<open>allocate_uniq\<close> is to color, and the colors of a file in use.\<close>

definition eligible :: "u64 \<Rightarrow> symreg \<Rightarrow> bool" where
  "eligible usage r \<longleftrightarrow> r_set r \<in> set reg_sets \<and> REG_NEEDS_ALLOC r \<and> r_color r = -1 \<and>
     r_usage r AND usage \<noteq> 0 \<and> r_use_count r \<noteq> 0"

definition file_colors :: "symstore \<Rightarrow> symhash \<Rightarrow> int \<Rightarrow> int set" where
  "file_colors st hsh t = {r_color (st ! p) | p. p \<in> set (alloc_regs st hsh t) \<and> 0 \<le> r_color (st ! p)}"

definition colors_distinct :: "symstore \<Rightarrow> symhash \<Rightarrow> bool" where
  "colors_distinct st hsh \<longleftrightarrow> (\<forall>t. \<forall>p \<in> set (alloc_regs st hsh t). \<forall>q \<in> set (alloc_regs st hsh t).
     0 \<le> r_color (st ! p) \<and> r_color (st ! p) = r_color (st ! q) \<longrightarrow> p = q)"

text \<open>A set that holds the colors of a file.\<close>

definition avail_set :: "symstore \<Rightarrow> symhash \<Rightarrow> int \<Rightarrow> nat \<Rightarrow> imc_set \<Rightarrow> bool" where
  "avail_set st hsh t n a \<longleftrightarrow> set_wf a \<and> unat (s_length a) = n + 1 \<and>
     (\<forall>e. mem_bit (s_bmp a) e \<longleftrightarrow> int e \<in> file_colors st hsh t)"

lemma file_colors_member:
  "p \<in> set (alloc_regs st hsh t) \<Longrightarrow> 0 \<le> r_color (st ! p) \<Longrightarrow> r_color (st ! p) \<in> file_colors st hsh t"
  by (auto simp: file_colors_def)

lemma set_add_below:
  assumes "set_wf a" "unat (s_length a) = n + 1" "e \<le> n" "n < 2 ^ 31"
  shows "\<exists>a'. set_add a (word_of_nat e) = Some a' \<and> set_wf a' \<and> unat (s_length a') = n + 1 \<and>
    (\<forall>x. mem_bit (s_bmp a') x \<longleftrightarrow> x = e \<or> mem_bit (s_bmp a) x)"
proof -
  have e: "unat (word_of_nat e :: u32) = e" using assms(3,4) by (intro unat_of_nat_u32) simp
  have "unat (word_of_nat e :: u32) div 8 \<le> unat (s_length a) div 8"
    using assms(2,3) e by (simp add: div_le_mono)
  from set_add_in_range [OF assms(1) this] e assms(2) show ?thesis by auto
qed

lemma first_avail_set:
  assumes ok: "symtab_ok st (ru_hash u)" and n: "unat (avail_len u) = n + 1" "n < 2 ^ 31"
    and le: "\<forall>c \<in> file_colors st (ru_hash u) t. c \<le> int n"
  shows "\<exists>a. avail_set st (ru_hash u) t n a \<and>
    first_avail st u t = do { f \<leftarrow> set_first_zero a; Some (f, a) }"
proof -
  let ?ps = "h_syms (ru_hash u)"
  let ?f = "\<lambda>a p. do {
            r \<leftarrow> rd st p;
            if r_set r = t \<and> REG_NEEDS_ALLOC r \<and> r_color r \<ge> 0
            then set_add a (word_of_int (r_color r)) else Some a }"
  let ?P = "\<lambda>p. r_set (st ! p) = t \<and> REG_NEEDS_ALLOC (st ! p) \<and> 0 \<le> r_color (st ! p)"
  have "\<exists>a. fold_opt ?f ?ps (set_make (avail_len u)) = Some a \<and> (set_wf a \<and> unat (s_length a) = n + 1 \<and>
      (\<forall>e. mem_bit (s_bmp a) e \<longleftrightarrow> (\<exists>p \<in> set ?ps. ?P p \<and> r_color (st ! p) = int e)))"
  proof (rule fold_opt_invariant [where I = "\<lambda>ys a. set_wf a \<and> unat (s_length a) = n + 1 \<and>
      (\<forall>e. mem_bit (s_bmp a) e \<longleftrightarrow> (\<exists>p \<in> set ys. ?P p \<and> r_color (st ! p) = int e))"])
    fix ys x zs a
    assume ps: "?ps = ys @ x # zs" and I: "set_wf a \<and> unat (s_length a) = n + 1 \<and>
      (\<forall>e. mem_bit (s_bmp a) e \<longleftrightarrow> (\<exists>p \<in> set ys. ?P p \<and> r_color (st ! p) = int e))"
    then have x: "x \<in> set ?ps" "x < length st" using symtab_okD(7) [OF ok, of x] by simp_all
    show "\<exists>a'. ?f a x = Some a' \<and> (set_wf a' \<and> unat (s_length a') = n + 1 \<and>
      (\<forall>e. mem_bit (s_bmp a') e \<longleftrightarrow> (\<exists>p \<in> set (ys @ [x]). ?P p \<and> r_color (st ! p) = int e)))"
    proof (cases "?P x")
      case True
      define e where "e = nat (r_color (st ! x))"
      have e: "r_color (st ! x) = int e" using True by (simp add: e_def)
      have "r_color (st ! x) \<in> file_colors st (ru_hash u) t"
        using True x by (intro file_colors_member) (simp_all add: alloc_regs_def)
      then have "e \<le> n" using le e by force
      from set_add_below [OF _ _ this n(2), of a] I obtain a' where
        "set_add a (word_of_nat e) = Some a'" "set_wf a'" "unat (s_length a') = n + 1"
        "\<forall>y. mem_bit (s_bmp a') y \<longleftrightarrow> y = e \<or> mem_bit (s_bmp a) y" by blast
      with I True x e show ?thesis by auto
    next
      case False
      then show ?thesis using I x by auto
    qed
  qed (simp add: n)
  then obtain a where a: "fold_opt ?f ?ps (set_make (avail_len u)) = Some a" "set_wf a"
    "unat (s_length a) = n + 1"
    "\<forall>e. mem_bit (s_bmp a) e \<longleftrightarrow> (\<exists>p \<in> set ?ps. ?P p \<and> r_color (st ! p) = int e)" by blast
  have "int e \<in> file_colors st (ru_hash u) t \<longleftrightarrow> (\<exists>p \<in> set ?ps. ?P p \<and> r_color (st ! p) = int e)" for e
    by (auto simp: file_colors_def alloc_regs_def) (metis of_nat_0_le_iff)
  with a have "avail_set st (ru_hash u) t n a" by (simp add: avail_set_def)
  moreover have "first_avail st u t = do { f \<leftarrow> set_first_zero a; Some (f, a) }"
    using hash_syms_eq [OF ok] a(1) unfolding first_avail_def Let_def avail_len_def by simp
  ultimately show ?thesis by blast
qed

text \<open>With fewer colors than the set has room for, its first unused number is a fresh color.\<close>

lemma set_first_zero_fresh:
  assumes a: "avail_set st hsh t n a" and few: "card (file_colors st hsh t) \<le> n" and n: "n < 2 ^ 31"
    and fin: "finite (file_colors st hsh t)"
  shows "\<exists>r. set_first_zero a = Some (word_of_nat r) \<and> r \<le> n \<and> int r \<notin> file_colors st hsh t"
proof -
  have wf: "set_wf a" "unat (s_length a) = n + 1"
    and mem: "\<And>e. mem_bit (s_bmp a) e \<longleftrightarrow> int e \<in> file_colors st hsh t"
    using a by (simp_all add: avail_set_def)
  have below: "m \<le> card (file_colors st hsh t)" if "\<forall>e < m. in_set a e" for m
  proof -
    have "int ` {..<m} \<subseteq> file_colors st hsh t" using that mem by (auto simp: in_set_def)
    with fin have "card (int ` {..<m}) \<le> card (file_colors st hsh t)" by (rule card_mono)
    then show ?thesis by (simp add: card_image)
  qed
  have "unat (s_length a) + 8 < 2 ^ 32" using wf(2) n by simp
  from set_first_zero_bytes_Some [OF wf(1) this, of 0] obtain w where
    w: "set_first_zero a = Some w"
    "\<not> in_set a (unat w) \<and> (\<forall>e < unat w. in_set a e)
     \<or> w = s_length a \<and> (\<forall>e \<le> unat (s_length a). in_set a e)"
    by (auto simp: set_first_zero_def)
  have "\<not> (\<forall>e \<le> unat (s_length a). in_set a e)"
  proof
    assume "\<forall>e \<le> unat (s_length a). in_set a e"
    then have "\<forall>e < n + 1. in_set a e" using wf(2) by simp
    from below [OF this] few show False by simp
  qed
  with w(2) have w2: "\<not> in_set a (unat w)" "\<forall>e < unat w. in_set a e" by auto
  then have "unat w \<le> n" using below [of "unat w"] few by simp
  moreover from this w2(1) wf(2) mem have "int (unat w) \<notin> file_colors st hsh t" by (simp add: in_set_def)
  ultimately show ?thesis using w(1) by (intro exI [of _ "unat w"]) simp
qed

section \<open>Allocating unique registers\<close>

definition uniq_inv :: "u64 \<Rightarrow> symstore \<Rightarrow> reg_unit \<Rightarrow> nat \<Rightarrow> nat list
    \<Rightarrow> symstore \<times> reg_unit \<times> imc_set option list \<Rightarrow> bool" where
  "uniq_inv usage st u n ys = (\<lambda>(s, v, sets). same_but_color st s \<and> colors_distinct s (ru_hash u) \<and>
     (\<forall>p. if p \<in> set ys \<and> eligible usage (st ! p)
          then 0 \<le> r_color (s ! p) \<and> r_color (s ! p) \<le> int n else s ! p = st ! p) \<and>
     (\<exists>l. v = u\<lparr>ru_first_avail := l\<rparr> \<and> length l = 4) \<and> length sets = 4 \<and>
     (\<forall>j < 4. \<forall>a. sets ! j = Some a \<longrightarrow> avail_set s (ru_hash u) (reg_sets ! j) n a))"

text \<open>One more color: what it does to the colors of the files.\<close>

lemma new_color:
  assumes cd: "colors_distinct s hsh" and x: "x \<in> set (alloc_regs s hsh t)" "r_color (s ! x) = -1"
    and xl: "x < length s" and r: "int r \<notin> file_colors s hsh t"
    and s': "s' = s[x := (s ! x)\<lparr>r_color := int r\<rparr>]"
  shows "same_but_color s s'" "colors_distinct s' hsh"
    "file_colors s' hsh t = insert (int r) (file_colors s hsh t)"
    "t' \<noteq> t \<Longrightarrow> file_colors s' hsh t' = file_colors s hsh t'"
proof -
  have "\<exists>c. s' ! p = (s ! p)\<lparr>r_color := c\<rparr>" for p
  proof (cases "p = x")
    case True
    with xl show ?thesis by (auto simp: s')
  next
    case False
    then have "s' ! p = (s ! p)\<lparr>r_color := r_color (s ! p)\<rparr>" by (simp add: s')
    then show ?thesis by blast
  qed
  then show same: "same_but_color s s'" by (simp add: same_but_color_def s')
  have R: "alloc_regs s' hsh q = alloc_regs s hsh q" for q using same by (rule same_alloc_regs)
  have c: "r_color (s' ! p) = (if p = x then int r else r_color (s ! p))" for p
    using xl by (simp add: s')
  have only: "x \<notin> set (alloc_regs s hsh q)" if "q \<noteq> t" for q
    using alloc_regs_disjoint [OF x(1)] that by blast
  show "file_colors s' hsh t = insert (int r) (file_colors s hsh t)"
  proof (intro equalityI subsetI)
    fix k assume "k \<in> file_colors s' hsh t"
    then show "k \<in> insert (int r) (file_colors s hsh t)"
      unfolding file_colors_def R by (auto simp: c split: if_splits)
  next
    fix k assume "k \<in> insert (int r) (file_colors s hsh t)"
    then consider "k = int r" | p where "p \<in> set (alloc_regs s hsh t)" "k = r_color (s ! p)" "0 \<le> k"
      by (auto simp: file_colors_def)
    then show "k \<in> file_colors s' hsh t"
    proof cases
      case 1
      with x(1) show ?thesis using file_colors_member [of x s' hsh t] by (simp add: R c)
    next
      case 2
      then have "p \<noteq> x" using x(2) by auto
      with 2 show ?thesis using file_colors_member [of p s' hsh t] by (simp add: R c)
    qed
  qed
  show "file_colors s' hsh t' = file_colors s hsh t'" if "t' \<noteq> t"
    using only [OF that] unfolding file_colors_def R by (auto simp: c)
  have neq: "r_color (s ! p) \<noteq> int r" if "p \<in> set (alloc_regs s hsh t)" for p
    using r file_colors_member [OF that] by auto
  show "colors_distinct s' hsh"
    unfolding colors_distinct_def R
  proof (intro allI ballI impI)
    fix q p p'
    assume p: "p \<in> set (alloc_regs s hsh q)" "p' \<in> set (alloc_regs s hsh q)"
      and e: "0 \<le> r_color (s' ! p) \<and> r_color (s' ! p) = r_color (s' ! p')"
    show "p = p'"
    proof (cases "p = x \<or> p' = x")
      case True
      then have "q = t" using p only by blast
      with True e p neq [of p] neq [of p'] show ?thesis by (auto simp: c split: if_splits)
    next
      case False
      with e have "0 \<le> r_color (s ! p) \<and> r_color (s ! p) = r_color (s ! p')" by (simp add: c)
      with cd p show ?thesis unfolding colors_distinct_def by blast
    qed
  qed
qed

lemma allocate_uniq_step:
  assumes ok: "symtab_ok st (ru_hash u)" and n: "unat (avail_len u) = n + 1" "n < 2 ^ 31"
    and room: "\<forall>t \<in> set reg_sets. length (alloc_regs st (ru_hash u) t) \<le> n"
    and le: "\<forall>p \<in> set (h_syms (ru_hash u)). r_color (st ! p) \<le> int n"
    and inv: "uniq_inv usage st u n ys z" and x: "x \<in> set (h_syms (ru_hash u))" "x \<notin> set ys"
  shows "\<exists>z'. allocate_uniq_reg usage z x = Some z' \<and> uniq_inv usage st u n (ys @ [x]) z'"
proof -
  obtain s v sets where z: "z = (s, v, sets)" by (cases z)
  obtain l where v: "v = u\<lparr>ru_first_avail := l\<rparr>" "length l = 4"
    using inv z unfolding uniq_inv_def by auto
  have h: "ru_hash v = ru_hash u" "avail_len v = avail_len u" "ru_first_avail v = l"
    "v\<lparr>ru_first_avail := k\<rparr> = u\<lparr>ru_first_avail := k\<rparr>" for k
    using v(1) by (simp_all add: avail_len_def)
  have same: "same_but_color st s" and cd: "colors_distinct s (ru_hash u)"
    and colr: "\<And>p. if p \<in> set ys \<and> eligible usage (st ! p)
          then 0 \<le> r_color (s ! p) \<and> r_color (s ! p) \<le> int n else s ! p = st ! p"
    and sets: "length sets = 4" "\<And>j a. j < 4 \<Longrightarrow> sets ! j = Some a \<Longrightarrow> avail_set s (ru_hash u) (reg_sets ! j) n a"
    using inv z unfolding uniq_inv_def by auto
  have sx: "s ! x = st ! x" using colr [of x] x(2) by simp
  have ok': "symtab_ok s (ru_hash u)" using same ok by (rule same_symtab_ok)
  have xl: "x < length s" using symtab_okD(7) [OF ok' x(1)] .
  show ?thesis
  proof (cases "eligible usage (st ! x)")
    case False
    then have "allocate_uniq_reg usage z x = Some z"
      using xl sx set_index_iff [of "r_set (st ! x)"] unfolding z allocate_uniq_reg_def
      by (cases "set_index (r_set (st ! x))") (auto simp: eligible_def in_set_conv_nth)
    moreover have "uniq_inv usage st u n (ys @ [x]) z"
      using inv False sx unfolding z uniq_inv_def by auto
    ultimately show ?thesis by blast
  next
    case True
    let ?t = "r_set (st ! x)"
    obtain j where j: "j < 4" "reg_sets ! j = ?t" using True by (auto simp: eligible_def in_set_conv_nth)
    have xR: "x \<in> set (alloc_regs s (ru_hash u) ?t)" "r_color (s ! x) = -1"
      using True x(1) sx by (simp_all add: alloc_regs_def eligible_def)
    have le': "\<forall>c \<in> file_colors s (ru_hash u) ?t. c \<le> int n"
    proof
      fix c assume "c \<in> file_colors s (ru_hash u) ?t"
      then obtain p where p: "p \<in> set (alloc_regs s (ru_hash u) ?t)" "c = r_color (s ! p)"
        by (auto simp: file_colors_def)
      with le colr [of p] show "c \<le> int n" by (auto simp: alloc_regs_def split: if_splits)
    qed
    have sub: "file_colors s (ru_hash u) ?t \<subseteq> (\<lambda>p. r_color (s ! p)) ` set (alloc_regs s (ru_hash u) ?t)"
      by (auto simp: file_colors_def)
    have "card (file_colors s (ru_hash u) ?t) \<le> length (alloc_regs s (ru_hash u) ?t)"
      using surj_card_le [OF _ sub] card_length le_trans by blast
    then have few: "card (file_colors s (ru_hash u) ?t) \<le> n"
      using room True same_alloc_regs [OF same, of "ru_hash u"] by (force simp: eligible_def)
    have fin: "finite (file_colors s (ru_hash u) ?t)" using sub finite_surj by blast
    have "\<exists>a. avail_set s (ru_hash u) ?t n a \<and>
        (case sets ! j of Some a \<Rightarrow> do { f \<leftarrow> set_first_zero a; Some (f, a) } | None \<Rightarrow> first_avail s v ?t)
          = do { f \<leftarrow> set_first_zero a; Some (f, a) }"
    proof (cases "sets ! j")
      case None
      then show ?thesis
        using first_avail_set [of s v n ?t] ok' n le' h by simp
    next
      case (Some a)
      with sets(2) [OF j(1) Some] j(2) show ?thesis by auto
    qed
    then obtain a where a: "avail_set s (ru_hash u) ?t n a"
      "(case sets ! j of Some a \<Rightarrow> do { f \<leftarrow> set_first_zero a; Some (f, a) } | None \<Rightarrow> first_avail s v ?t)
          = do { f \<leftarrow> set_first_zero a; Some (f, a) }" by blast
    obtain r where r: "set_first_zero a = Some (word_of_nat r)" "r \<le> n"
      "int r \<notin> file_colors s (ru_hash u) ?t"
      using set_first_zero_fresh [OF a(1) few n(2) fin] by blast
    have ur: "uint (word_of_nat r :: u32) = int r"
      using r(2) n(2) by (simp add: uint_nat unat_of_nat_u32)
    obtain a' where a': "set_add a (word_of_nat r) = Some a'" "set_wf a'" "unat (s_length a') = n + 1"
      "\<forall>y. mem_bit (s_bmp a') y \<longleftrightarrow> y = r \<or> mem_bit (s_bmp a) y"
      using set_add_below [OF _ _ r(2) n(2), of a] a(1) by (auto simp: avail_set_def)
    define s' where "s' = s[x := (s ! x)\<lparr>r_color := int r\<rparr>]"
    note N = new_color [OF cd xR xl r(3) s'_def]
    let ?l = "l[j := sint (word_of_nat r + 1 :: u32)]"
    let ?z = "(s', u\<lparr>ru_first_avail := ?l\<rparr>, sets[j := Some a'])"
    have "allocate_uniq_reg usage z x = Some ?z"
      using True j a(2) r(1) a'(1) xl sx h v(2) sets(1) set_index_iff [of ?t j] ur
      unfolding z allocate_uniq_reg_def
      by (simp add: eligible_def s'_def)
    moreover have "uniq_inv usage st u n (ys @ [x]) ?z"
    proof -
      have 1: "if p \<in> set (ys @ [x]) \<and> eligible usage (st ! p)
          then 0 \<le> r_color (s' ! p) \<and> r_color (s' ! p) \<le> int n else s' ! p = st ! p" for p
        using colr [of p] True r(2) xl by (cases "p = x") (simp_all add: s'_def)
      have 2: "avail_set s' (ru_hash u) (reg_sets ! i) n b"
        if "i < 4" "sets[j := Some a'] ! i = Some b" for i b
      proof (cases "i = j")
        case True
        then have "b = a'" using that sets(1) by simp
        with True j a' a(1) N(3) show ?thesis by (simp add: avail_set_def)
      next
        case False
        then have "reg_sets ! i \<noteq> ?t" using reg_sets_inj [OF that(1) j(1)] j(2) by auto
        with False that sets(2) [of i b] N(4) show ?thesis by (simp add: avail_set_def)
      qed
      have "same_but_color st s'" using same N(1) by (rule same_but_color_trans)
      with 1 2 N(2) v sets(1) show ?thesis unfolding uniq_inv_def by auto
    qed
    ultimately show ?thesis by blast
  qed
qed

text \<open>
  C14. \<open>allocate_uniq\<close> gives every symbol of the wanted usage that has no register yet a
  number no other symbol of its file has, provided the unit counts at least as many symbols
  as a file has registers and no color exceeds that count: afterwards no two registers of a
  file share a number, none exceeds the count, and all other symbols are as before.  The
  driver's call for lexicals does not meet the proviso: it is made before the symbols are
  counted, and \<open>lexicals_share_registers\<close> shows what happens then.
\<close>

theorem allocate_uniq_fresh:
  assumes "symtab_ok st (ru_hash u)" "length (ru_first_avail u) = 4"
    "unat (avail_len u) = n + 1" "n < 2 ^ 31"
    "\<forall>t \<in> set reg_sets. length (alloc_regs st (ru_hash u) t) \<le> n"
    "\<forall>p \<in> set (h_syms (ru_hash u)). r_color (st ! p) \<le> int n"
    "colors_distinct st (ru_hash u)"
  shows "\<exists>st' u'. allocate_uniq st u usage = Some (st', u') \<and> same_but_color st st' \<and>
    colors_distinct st' (ru_hash u) \<and>
    (\<forall>p. if p \<in> set (h_syms (ru_hash u)) \<and> eligible usage (st ! p)
         then 0 \<le> r_color (st' ! p) \<and> r_color (st' ! p) \<le> int n else st' ! p = st ! p)"
proof -
  let ?ps = "h_syms (ru_hash u)"
  have "\<exists>z. fold_opt (allocate_uniq_reg usage) ?ps (st, u, [None, None, None, None]) = Some z \<and>
      uniq_inv usage st u n ?ps z"
  proof (rule fold_opt_invariant)
    have "\<exists>l. u = u\<lparr>ru_first_avail := l\<rparr> \<and> length l = 4"
      using assms(2) by (intro exI [of _ "ru_first_avail u"]) simp
    then show "uniq_inv usage st u n [] (st, u, [None, None, None, None])"
      using assms(7) same_but_color_refl
      by (auto simp: uniq_inv_def less_Suc_eq numeral_eq_Suc)
  next
    fix ys x zs z assume "?ps = ys @ x # zs" "uniq_inv usage st u n ys z"
    moreover then have "x \<in> set ?ps" "x \<notin> set ys" using symtab_okD(4) [OF assms(1)] by auto
    ultimately show "\<exists>z'. allocate_uniq_reg usage z x = Some z' \<and> uniq_inv usage st u n (ys @ [x]) z'"
      using allocate_uniq_step [OF assms(1,3-6)] by blast
  qed
  then obtain s v sets where
    "fold_opt (allocate_uniq_reg usage) ?ps (st, u, [None, None, None, None]) = Some (s, v, sets)"
    "uniq_inv usage st u n ?ps (s, v, sets)" by (metis prod_cases3)
  then show ?thesis
    using hash_syms_eq [OF assms(1)] by (auto simp: allocate_uniq_def uniq_inv_def)
qed

text \<open>With no usage at all, as the allocator's driver calls it, it does nothing.\<close>

lemma allocate_uniq_none:
  assumes "symtab_ok st (ru_hash u)"
  shows "allocate_uniq st u 0 = Some (st, u)"
proof -
  let ?z = "(st, u, [None, None, None, None :: imc_set option])"
  have "\<exists>z. fold_opt (allocate_uniq_reg 0) (h_syms (ru_hash u)) ?z = Some z \<and> z = ?z"
  proof (rule fold_opt_invariant)
    fix ys x zs and z :: "symstore \<times> reg_unit \<times> imc_set option list"
    assume "h_syms (ru_hash u) = ys @ x # zs" "z = ?z"
    then show "\<exists>z'. allocate_uniq_reg 0 z x = Some z' \<and> z' = ?z"
      using symtab_okD(7) [OF assms, of x] by (auto simp: allocate_uniq_reg_def split: option.split)
  qed simp
  then show ?thesis using hash_syms_eq [OF assms] by (simp add: allocate_uniq_def)
qed

section \<open>Examples\<close>

text \<open>Lexicals of one letter, as integers, in the table of a unit that counts \<open>n\<close> symbols.\<close>

definition lexical :: "u8 \<Rightarrow> symreg" where
  "lexical c = (new_symreg [c] 73)\<lparr>r_usage := U_LEXICAL, r_use_count := 1\<rparr>"

definition unit_of_syms :: "nat list list \<Rightarrow> u32 \<Rightarrow> u32 \<Rightarrow> reg_unit" where
  "unit_of_syms d k n = \<lparr>ru_hash = \<lparr>h_data = d @ replicate (16 - length d) [], h_size = 16, h_entries = k\<rparr>,
     ru_n_symbols = n, ru_max_color = 0, ru_n_vars_used = [0, 0, 0, 0], ru_n_regs_used = replicate 4 (-1),
     ru_first_avail = [0, 0, 0, 0],
     ru_ostat = \<lparr>deleted_labels = 0, if_branch = 0, branch_branch = 0, branch_cond_loop = 0,
                 invariants_moved = 0, deleted_ins = 0, used_once = 0\<rparr>\<rparr>"

definition two_lexicals :: symstore where
  "two_lexicals = [lexical 97, lexical 98]"

definition two_unit :: reg_unit where
  "two_unit = unit_of_syms [[], [0], [1]] 2 2"

lemma two_data: "i < 16 \<Longrightarrow> h_data (ru_hash two_unit) ! i = (if i = 1 then [0] else if i = 2 then [1] else [])"
  by (simp add: two_unit_def unit_of_syms_def nth_append nth_Cons')

lemma two_hash: "h_size (ru_hash two_unit) = 16" "h_entries (ru_hash two_unit) = 2"
  "length (h_data (ru_hash two_unit)) = 16" "length two_lexicals = 2"
  by (simp_all add: two_unit_def unit_of_syms_def two_lexicals_def)

lemma two_syms: "h_syms (ru_hash two_unit) = [0, 1]"
  by (simp add: two_unit_def unit_of_syms_def h_syms_def)

lemma two_slots: "sym_slot two_lexicals 16 0 = 1" "sym_slot two_lexicals 16 1 = 2"
  by (simp_all add: sym_slot_def two_lexicals_def lexical_def hash_str_def new_symreg_def)

lemma two_ok: "symtab_ok two_lexicals (ru_hash two_unit)"
  using two_slots by (auto simp: symtab_ok_def two_hash two_syms two_data split: if_splits)

lemma two_sel:
  assumes "p \<in> {0, 1}"
  shows "REG_NEEDS_ALLOC (two_lexicals ! p)" "r_set (two_lexicals ! p) = 73" "r_color (two_lexicals ! p) = -1"
  using assms by (auto simp: two_lexicals_def lexical_def new_symreg_def zeroed_symreg_def
      REG_NEEDS_ALLOC_def VTREG_def VTREGISTER_def)

lemma two_regs: "alloc_regs two_lexicals (ru_hash two_unit) t = (if t = 73 then [0, 1] else [])"
  using two_sel [of 0] two_sel [of 1] by (simp add: alloc_regs_def two_syms)

lemma two_len: "unat (avail_len two_unit) = 3" "length (ru_first_avail two_unit) = 4"
  "ru_n_regs_used two_unit = replicate 4 (-1)"
  by (simp_all add: avail_len_def two_unit_def unit_of_syms_def)

theorem vanilla_reg_alloc_correct_witness:
  "\<exists>st' u' u''. vanilla_reg_alloc two_lexicals two_unit = Some (st', u') \<and> final_stat st' u' = Some u'' \<and>
     r_color (st' ! 1) = 1 \<and> ru_n_regs_used u'' = [2, 0, 0, 0]"
proof -
  obtain st' u' u'' where "vanilla_reg_alloc two_lexicals two_unit = Some (st', u')" "final_stat st' u' = Some u''"
    "\<forall>t \<in> set reg_sets. \<forall>i < length (alloc_regs two_lexicals (ru_hash two_unit) t).
       r_color (st' ! (alloc_regs two_lexicals (ru_hash two_unit) t ! i)) = int i"
    "ru_n_regs_used u'' = map (\<lambda>t. int (length (alloc_regs two_lexicals (ru_hash two_unit) t))) reg_sets"
    using vanilla_reg_alloc_correct [OF two_ok two_len(2) _ two_len(3)] by (auto simp: two_len two_syms)
  then show ?thesis by (force simp: two_regs reg_sets_def)
qed

theorem allocate_uniq_fresh_witness:
  "\<exists>st' u'. allocate_uniq two_lexicals two_unit U_LEXICAL = Some (st', u') \<and>
     colors_distinct st' (ru_hash two_unit)"
proof -
  have "colors_distinct two_lexicals (ru_hash two_unit)"
    using two_sel by (auto simp: colors_distinct_def two_regs split: if_splits)
  moreover have "\<forall>t \<in> set reg_sets. length (alloc_regs two_lexicals (ru_hash two_unit) t) \<le> 2"
    by (simp add: two_regs)
  moreover have "\<forall>p \<in> set (h_syms (ru_hash two_unit)). r_color (two_lexicals ! p) \<le> int 2"
    using two_sel by (simp add: two_syms)
  ultimately show ?thesis
    using allocate_uniq_fresh [OF two_ok two_len(2), of 2 U_LEXICAL] two_len(1) by auto
qed

text \<open>
  When the unit has not counted its symbols yet, as is the case when the driver allocates the
  lexicals, the set of numbers is too short: the fourth lexical shares the third's number.
\<close>

lemma lexicals_share_registers:
  "map_option (map r_color \<circ> fst)
     (allocate_lexicals (map lexical [97, 98, 99, 100]) (unit_of_syms [[], [0], [1], [2], [3]] 4 0))
   = Some [0, 1, 2, 2]"
  by code_simp

end
