(* ===== verification/Imcc_Symtab_Claims.thy ===== *)
theory Imcc_Symtab_Claims
  imports Imcc_Symtab
begin

text \<open>
  What IMCC's symbol tables promise: a table is a finite map from names and register files
  to symbols, which \<open>mk_symreg\<close> extends; what doubling does to lookups; labels are defined
  once.
\<close>

lemma option_eqI: "(\<And>p. x = Some p \<longleftrightarrow> y = Some p) \<Longrightarrow> x = y"
  by (cases x; cases y) auto

section \<open>Tables as maps\<close>

definition sym_map :: "symstore \<Rightarrow> symhash \<Rightarrow> u8 list \<times> int \<rightharpoonup> nat" where
  "sym_map st hsh k = (case get_sym_typed st hsh (fst k) (snd k) of Some r \<Rightarrow> r | None \<Rightarrow> None)"

lemma get_sym_typed_Some:
  "symtab_ok st hsh \<Longrightarrow> get_sym_typed st hsh name t = Some (sym_map st hsh (name, t))"
  by (simp add: sym_map_def get_sym_typed_eq)

lemma sym_map_Some_iff:
  assumes ok: "symtab_ok st hsh" and un: "sym_uniq st hsh"
  shows "sym_map st hsh (name, t) = Some p \<longleftrightarrow>
    p \<in> set (h_syms hsh) \<and> r_name (st ! p) = name \<and> r_set (st ! p) = t"
proof -
  let ?r = "find (\<lambda>p. r_name (st ! p) = name \<and> r_set (st ! p) = t)
      (h_data hsh ! unat (hash_str name mod h_size hsh))"
  have m: "sym_map st hsh (name, t) = ?r" using ok by (simp add: sym_map_def get_sym_typed_eq)
  have "case ?r of
      Some p \<Rightarrow> p \<in> set (h_syms hsh) \<and> r_name (st ! p) = name \<and> r_set (st ! p) = t
    | None \<Rightarrow> \<not> (\<exists>p \<in> set (h_syms hsh). r_name (st ! p) = name \<and> r_set (st ! p) = t)"
    by (rule chain_lookup [OF ok refl])
  then show ?thesis using un unfolding m sym_uniq_def
    by (cases ?r) (auto dest: inj_onD)
qed

lemma new_symreg_sel [simp]: "r_name (new_symreg n t) = n" "r_set (new_symreg n t) = t"
  "r_color (new_symreg n t) = -1" "r_type (new_symreg n t) = VTREG"
  by (simp_all add: new_symreg_def zeroed_symreg_def)

text \<open>A stored symbol with a new key extends the map.\<close>

lemma store_new_symreg:
  assumes ok: "symtab_ok st hsh" and un: "sym_uniq st hsh" and lim: "unat (h_size hsh) < 2 ^ 30"
    and new: "sym_map st hsh (name, t) = None"
    and s: "r_name s = name" "r_set s = t"
  shows "\<exists>hsh'. store_symreg (st @ [s]) hsh (length st) = Some hsh' \<and>
      symtab_ok (st @ [s]) hsh' \<and> sym_uniq (st @ [s]) hsh' \<and>
      sym_map (st @ [s]) hsh' = (sym_map st hsh)((name, t) \<mapsto> length st) \<and>
      mset (h_syms hsh') = add_mset (length st) (mset (h_syms hsh))"
proof -
  let ?st = "st @ [s]" and ?r = "length st"
  have old: "?st ! p = st ! p" "p \<noteq> ?r" if "p \<in> set (h_syms hsh)" for p
    using symtab_okD(7) [OF ok that] by (simp_all add: nth_append)
  have ok': "symtab_ok ?st hsh" using ok old by (intro symtab_ok_cong [OF ok]) simp_all
  have un': "sym_uniq ?st hsh" using old by (intro sym_uniq_cong [OF un]) simp_all
  have "\<exists>hsh'. store_symreg ?st hsh ?r = Some hsh' \<and> symtab_ok ?st hsh' \<and>
      mset (h_syms hsh') = add_mset ?r (mset (h_syms hsh)) \<and>
      (h_size hsh' = h_size hsh \<or> unat (h_size hsh') = 2 * unat (h_size hsh))"
    using ok' lim old by (intro store_symreg_ok) auto
  then obtain hsh' where h: "store_symreg ?st hsh ?r = Some hsh'" "symtab_ok ?st hsh'"
    "mset (h_syms hsh') = add_mset ?r (mset (h_syms hsh))" by blast
  from h(3) have syms: "set (h_syms hsh') = insert ?r (set (h_syms hsh))"
    using mset_eq_setD [of "h_syms hsh'" "?r # h_syms hsh"] by simp
  have no: "\<not> (r_name (st ! p) = name \<and> r_set (st ! p) = t)" if "p \<in> set (h_syms hsh)" for p
    using new that sym_map_Some_iff [OF ok un, of name t p] by auto
  have "(r_name (?st ! ?r), r_set (?st ! ?r)) \<noteq> (r_name (?st ! p), r_set (?st ! p))"
    if "p \<in> set (h_syms hsh)" for p
    using no [OF that] old(1) [OF that] s by auto
  then have un2: "sym_uniq ?st hsh'"
    using un' unfolding sym_uniq_def syms inj_on_insert by blast
  have "sym_map ?st hsh' k = ((sym_map st hsh)((name, t) \<mapsto> ?r)) k" for k
  proof (cases k)
    case k: (Pair n u)
    have "sym_map ?st hsh' (n, u) = (if (n, u) = (name, t) then Some ?r else sym_map st hsh (n, u))"
    proof (rule option_eqI)
      fix p
      show "sym_map ?st hsh' (n, u) = Some p \<longleftrightarrow>
          (if (n, u) = (name, t) then Some ?r else sym_map st hsh (n, u)) = Some p"
      proof (cases "p = ?r")
        case True
        with old(2) s show ?thesis
          by (auto simp: sym_map_Some_iff [OF h(2) un2] sym_map_Some_iff [OF ok un] syms)
      next
        case False
        with old(1) [of p] no [of p] show ?thesis
          by (cases "p \<in> set (h_syms hsh)")
             (auto simp: sym_map_Some_iff [OF h(2) un2] sym_map_Some_iff [OF ok un] syms
                   simp del: nth_append_length)
      qed
    qed
    then show ?thesis by (simp add: k)
  qed
  then show ?thesis using h un2 by blast
qed

text \<open>
  C11. \<open>mk_symreg\<close> implements an update of the map from name and register file to symbol: the
  symbol there is returned and nothing changes, or a new one without a register is stored;
  either way it is found under its name and file from then on, across a doubling of the
  table, other lookups are as before, and the table stays well-formed with unique keys.
\<close>

theorem mk_symreg_correct:
  assumes "symtab_ok st hsh" "sym_uniq st hsh" "unat (h_size hsh) < 2 ^ 30"
  shows "\<exists>p st' hsh'. mk_symreg st hsh name t = Some (p, st', hsh') \<and>
    symtab_ok st' hsh' \<and> sym_uniq st' hsh' \<and>
    sym_map st' hsh' = (sym_map st hsh)((name, t) \<mapsto> p) \<and>
    get_sym_typed st' hsh' name t = Some (Some p) \<and> r_name (st' ! p) = name \<and> r_set (st' ! p) = t \<and>
    (case sym_map st hsh (name, t) of
       Some q \<Rightarrow> p = q \<and> st' = st \<and> hsh' = hsh
     | None \<Rightarrow> p = length st \<and> st' = st @ [new_symreg name t] \<and> r_color (st' ! p) = -1)"
proof (cases "sym_map st hsh (name, t)")
  case None
  let ?st = "st @ [new_symreg name t]"
  have "\<exists>hsh'. store_symreg ?st hsh (length st) = Some hsh' \<and>
      symtab_ok ?st hsh' \<and> sym_uniq ?st hsh' \<and>
      sym_map ?st hsh' = (sym_map st hsh)((name, t) \<mapsto> length st) \<and>
      mset (h_syms hsh') = add_mset (length st) (mset (h_syms hsh))"
    using assms None by (intro store_new_symreg) simp_all
  then obtain hsh' where "store_symreg ?st hsh (length st) = Some hsh'" "symtab_ok ?st hsh'"
    "sym_uniq ?st hsh'" "sym_map ?st hsh' = (sym_map st hsh)((name, t) \<mapsto> length st)" by blast
  with None assms(1) show ?thesis by (simp add: mk_symreg_def get_sym_typed_Some)
next
  case (Some q)
  then have "r_name (st ! q) = name" "r_set (st ! q) = t"
    using sym_map_Some_iff [OF assms(1,2)] by blast+
  with Some assms show ?thesis by (auto simp: mk_symreg_def get_sym_typed_Some)
qed

theorem mk_symreg_correct_witness:
  "\<exists>p st' hsh'. mk_symreg [] create_symhash [97] 73 = Some (p, st', hsh') \<and> symtab_ok st' hsh'"
  using mk_symreg_correct [of "[]" create_symhash "[97]" 73]
  by (simp add: create_symhash_ok sym_uniq_def) blast

section \<open>Lookups and doubling\<close>

lemma find_append: "find P (xs @ ys) = (case find P xs of Some x \<Rightarrow> Some x | None \<Rightarrow> find P ys)"
  by (induction xs) simp_all

lemma find_none: "(\<And>x. x \<in> set xs \<Longrightarrow> \<not> P x) \<Longrightarrow> find P xs = None"
  by (simp add: find_None_iff)

lemma find_concat_one:
  assumes "i < length d" "\<And>j p. j < length d \<Longrightarrow> p \<in> set (d ! j) \<Longrightarrow> P p \<Longrightarrow> j = i"
  shows "find P (concat d) = find P (d ! i)"
proof -
  have "concat d = concat (take i d) @ d ! i @ concat (drop (Suc i) d)"
    using arg_cong [OF id_take_nth_drop [OF assms(1)], of concat] by simp
  moreover have "find P (concat (take i d)) = None"
  proof (rule find_none)
    fix p assume "p \<in> set (concat (take i d))"
    then obtain j where "j < i" "p \<in> set (d ! j)" by (auto simp: in_set_conv_nth [of _ "take i d"])
    with assms(1) assms(2) [of j p] show "\<not> P p" by auto
  qed
  moreover have "find P (concat (drop (Suc i) d)) = None"
  proof (rule find_none)
    fix p assume "p \<in> set (concat (drop (Suc i) d))"
    then obtain c where "c \<in> set (drop (Suc i) d)" "p \<in> set c" by auto
    then obtain k where "k < length (drop (Suc i) d)" "p \<in> set (drop (Suc i) d ! k)"
      by (auto simp: in_set_conv_nth [of c])
    moreover have "Suc i + k < length d" using \<open>k < length (drop (Suc i) d)\<close> by simp
    ultimately show "\<not> P p" using assms(2) [of "Suc i + k" p] by auto
  qed
  ultimately show ?thesis by (simp add: find_append split: option.split)
qed

lemma find_filter: "(\<And>x. P x \<Longrightarrow> Q x) \<Longrightarrow> find P (filter Q xs) = find P xs"
  by (induction xs) auto

lemma get_sym_first:
  assumes "symtab_ok st hsh"
  shows "get_sym st hsh name = Some (find (\<lambda>p. r_name (st ! p) = name) (h_syms hsh))"
proof -
  let ?i = "unat (hash_str name mod h_size hsh)"
  have i: "?i < length (h_data hsh)" using symtab_okD(1,2) [OF assms] unat_mod_less by simp
  have "find (\<lambda>p. r_name (st ! p) = name) (h_syms hsh) = find (\<lambda>p. r_name (st ! p) = name) (h_data hsh ! ?i)"
    unfolding h_syms_def using i
  proof (rule find_concat_one)
    fix j p assume "j < length (h_data hsh)" "p \<in> set (h_data hsh ! j)" "r_name (st ! p) = name"
    then show "j = ?i" using symtab_okD(9) [OF assms, of j p] by (simp add: sym_slot_def)
  qed
  then show ?thesis by (simp add: get_sym_eq [OF assms])
qed

text \<open>
  Doubling a table keeps its symbols and its well-formedness, but reverses the order in
  which symbols of one name are found: where \<open>get_sym\<close> returned the first of them, it
  returns the last afterwards.  Names that occur once are looked up as before.
\<close>

theorem resize_symhash_lookup:
  assumes "symtab_ok st hsh" "unat (h_size hsh) < 2 ^ 30"
  shows "\<exists>hsh'. resize_symhash st hsh = Some hsh' \<and> symtab_ok st hsh' \<and>
    mset (h_syms hsh') = mset (h_syms hsh) \<and> unat (h_size hsh') = 2 * unat (h_size hsh) \<and>
    (\<forall>name. get_sym st hsh name = Some (find (\<lambda>p. r_name (st ! p) = name) (h_syms hsh)) \<and>
            get_sym st hsh' name = Some (find (\<lambda>p. r_name (st ! p) = name) (rev (h_syms hsh))))"
proof -
  note D = symtab_okD [OF assms(1)]
  have below: "\<forall>p \<in> set (h_syms hsh). p < length st" using D(7) by blast
  have "\<exists>hsh'. resize_symhash st hsh = Some hsh' \<and> symtab_ok st hsh' \<and>
      mset (h_syms hsh') = mset (h_syms hsh) \<and> unat (h_size hsh') = 2 * unat (h_size hsh)"
    using D(1-6) assms(2) below by (intro symtab_ok_resized) simp_all
  then obtain hsh' where h: "resize_symhash st hsh = Some hsh'" "symtab_ok st hsh'"
    "mset (h_syms hsh') = mset (h_syms hsh)" "unat (h_size hsh') = 2 * unat (h_size hsh)" by blast
  have d: "h_data hsh' ! j = rev (filter (\<lambda>p. sym_slot st (h_size hsh') p = j) (h_syms hsh))"
    if "j < unat (h_size hsh')" for j
    using h(1,4) that resize_symhash_chains [OF D(2,1) assms(2) below] by auto
  have "get_sym st hsh' name = Some (find (\<lambda>p. r_name (st ! p) = name) (rev (h_syms hsh)))" for name
  proof -
    let ?j = "unat (hash_str name mod h_size hsh')"
    have "?j < unat (h_size hsh')" using symtab_okD(1) [OF h(2)] by (rule unat_mod_less)
    moreover have "find (\<lambda>p. r_name (st ! p) = name)
        (filter (\<lambda>p. sym_slot st (h_size hsh') p = ?j) (rev (h_syms hsh)))
      = find (\<lambda>p. r_name (st ! p) = name) (rev (h_syms hsh))"
      by (rule find_filter) (simp add: sym_slot_def)
    ultimately show ?thesis by (simp add: get_sym_eq [OF h(2)] d rev_filter)
  qed
  with h get_sym_first [OF assms(1)] show ?thesis by blast
qed

theorem resize_symhash_lookup_witness:
  "\<exists>hsh'. resize_symhash [] create_symhash = Some hsh' \<and> h_syms hsh' = []"
  using resize_symhash_lookup [of "[]" create_symhash]
  by (simp add: create_symhash_ok) blast

section \<open>Labels\<close>

lemma sym_table_cong:
  assumes "symtab_ok st hsh" "sym_uniq st hsh" "length st \<le> length st'"
    "\<And>p. p \<in> set (h_syms hsh) \<Longrightarrow> r_name (st' ! p) = r_name (st ! p) \<and> r_set (st' ! p) = r_set (st ! p)"
  shows "symtab_ok st' hsh" "sym_uniq st' hsh" "sym_map st' hsh = sym_map st hsh"
proof -
  show ok: "symtab_ok st' hsh" using assms by (intro symtab_ok_cong [OF assms(1)]) auto
  show un: "sym_uniq st' hsh" using assms(4) by (rule sym_uniq_cong [OF assms(2)])
  show "sym_map st' hsh = sym_map st hsh"
  proof
    fix k
    show "sym_map st' hsh k = sym_map st hsh k"
    proof (rule option_eqI)
      fix p
      show "sym_map st' hsh k = Some p \<longleftrightarrow> sym_map st hsh k = Some p"
        using assms(4) [of p]
        by (cases k) (auto simp: sym_map_Some_iff [OF ok un] sym_map_Some_iff [OF assms(1,2)])
    qed
  qed
qed

text \<open>Where only labels have a name, \<open>get_sym\<close> finds the label.\<close>

lemma get_sym_label:
  assumes "symtab_ok st hsh" "sym_uniq st hsh"
    "\<forall>p \<in> set (h_syms hsh). r_name (st ! p) = name \<longrightarrow> r_set (st ! p) = 0"
  shows "get_sym st hsh name = Some (sym_map st hsh (name, 0))"
proof -
  have "find (\<lambda>p. r_name (st ! p) = name) (h_syms hsh) = sym_map st hsh (name, 0)"
  proof (cases "find (\<lambda>p. r_name (st ! p) = name) (h_syms hsh)")
    case None
    then have "sym_map st hsh (name, 0) \<noteq> Some p" for p
      by (auto simp: sym_map_Some_iff [OF assms(1,2)] find_None_iff)
    with None show ?thesis by (cases "sym_map st hsh (name, 0)") auto
  next
    case (Some p)
    then have "p \<in> set (h_syms hsh)" "r_name (st ! p) = name"
      by (auto simp: find_Some_iff)
    then have "sym_map st hsh (name, 0) = Some p"
      using assms(3) by (simp add: sym_map_Some_iff [OF assms(1,2)])
    with Some show ?thesis by simp
  qed
  then show ?thesis by (simp add: get_sym_first [OF assms(1)])
qed

lemma mk_address_label_found:
  assumes "symtab_ok st hsh" "sym_uniq st hsh"
    "\<forall>p \<in> set (h_syms hsh). r_name (st ! p) = name \<longrightarrow> r_set (st ! p) = 0"
    "sym_map st hsh (name, 0) = Some p"
  shows "mk_address st hsh ghash ns name U_add_uniq_label =
    (if r_type (st ! p) = VTADDRESS \<and> r_lhs_use_count (st ! p) \<noteq> 0 then Thrown ''Label already defined''
     else Done (p, st[p := (st ! p)\<lparr>r_type := VTADDRESS, r_lhs_use_count := r_lhs_use_count (st ! p) + 1\<rparr>], hsh))"
proof -
  have "p < length st" using symtab_okD(7) [OF assms(1)] assms(4) sym_map_Some_iff [OF assms(1,2)] by blast
  moreover have "mk_symreg st hsh name 0 = Some (p, st, hsh)"
    using assms(1,4) by (simp add: mk_symreg_def get_sym_typed_Some)
  ultimately show ?thesis
    using assms(4) get_sym_label [OF assms(1-3)] by (simp add: mk_address_def)
qed

text \<open>
  The search for a defined label goes by the name alone, the creation of it by name and
  register file.  A register that has the name of the label and was made after it hides the
  label from the search: a second definition is not detected and the label counts two.
\<close>

definition hidden_label :: "(nat \<times> symstore \<times> symhash) outcome" where
  "hidden_label =
     obind (mk_address [] create_symhash create_symhash None [120] U_add_uniq_label) (\<lambda>(_, st, hsh).
     obind (defined (mk_symreg st hsh [120] 73)) (\<lambda>(_, st, hsh).
     mk_address st hsh create_symhash None [120] U_add_uniq_label))"

lemma second_definition_missed:
  "case hidden_label of Done (p, st, hsh) \<Rightarrow> p = 0 \<and> r_type (st ! 0) = VTADDRESS \<and> r_lhs_use_count (st ! 0) = 2
   | _ \<Rightarrow> False"
  by code_simp

text \<open>
  C12. A label whose name no register of the unit has can be defined once.
  \<open>_mk_address\<close> with \<open>U_add_uniq_label\<close> throws for a label that is already defined, marks
  one that was only referred to as defined, and stores a new one otherwise, which keeps the
  table well-formed and other lookups as they were; a second definition of it throws.  All
  symbols of the name must be of register file 0, that of labels:
  \<open>second_definition_missed\<close> shows that the test fails otherwise.  The table must be below
  the size at which doubling it overflows.
\<close>

theorem mk_address_label_once:
  assumes "symtab_ok st hsh" "sym_uniq st hsh" "unat (h_size hsh) < 2 ^ 30"
    "\<forall>p \<in> set (h_syms hsh). r_name (st ! p) = name \<longrightarrow> r_set (st ! p) = 0"
  shows "case sym_map st hsh (name, 0) of
      Some p \<Rightarrow>
        mk_address st hsh ghash ns name U_add_uniq_label =
          (if r_type (st ! p) = VTADDRESS \<and> r_lhs_use_count (st ! p) \<noteq> 0
           then Thrown ''Label already defined''
           else Done (p, st[p := (st ! p)\<lparr>r_type := VTADDRESS,
                                          r_lhs_use_count := r_lhs_use_count (st ! p) + 1\<rparr>], hsh))
    | None \<Rightarrow> \<exists>st' hsh'.
        mk_address st hsh ghash ns name U_add_uniq_label = Done (length st, st', hsh') \<and>
        st' = st @ [(new_symreg name 0)\<lparr>r_type := VTADDRESS, r_lhs_use_count := 1\<rparr>] \<and>
        symtab_ok st' hsh' \<and> sym_uniq st' hsh' \<and>
        sym_map st' hsh' = (sym_map st hsh)((name, 0) \<mapsto> length st) \<and>
        mk_address st' hsh' ghash ns name U_add_uniq_label = Thrown ''Label already defined''"
proof (cases "sym_map st hsh (name, 0)")
  case (Some p)
  then show ?thesis using mk_address_label_found [OF assms(1,2,4) Some] by simp
next
  case None
  let ?s = "new_symreg name 0" and ?p = "length st"
  let ?s' = "?s\<lparr>r_type := VTADDRESS, r_lhs_use_count := 1\<rparr>"
  have "\<exists>hsh'. store_symreg (st @ [?s]) hsh ?p = Some hsh' \<and>
      symtab_ok (st @ [?s]) hsh' \<and> sym_uniq (st @ [?s]) hsh' \<and>
      sym_map (st @ [?s]) hsh' = (sym_map st hsh)((name, 0) \<mapsto> ?p) \<and>
      mset (h_syms hsh') = add_mset ?p (mset (h_syms hsh))"
    using assms None by (intro store_new_symreg) simp_all
  then obtain hsh' where h: "store_symreg (st @ [?s]) hsh ?p = Some hsh'"
    "symtab_ok (st @ [?s]) hsh'" "sym_uniq (st @ [?s]) hsh'"
    "sym_map (st @ [?s]) hsh' = (sym_map st hsh)((name, 0) \<mapsto> ?p)"
    "mset (h_syms hsh') = add_mset ?p (mset (h_syms hsh))" by blast
  have same: "r_name ((st @ [?s']) ! p) = r_name ((st @ [?s]) ! p) \<and> r_set ((st @ [?s']) ! p) = r_set ((st @ [?s]) ! p)" for p
    by (simp add: nth_append nth_Cons')
  have ok: "symtab_ok (st @ [?s']) hsh'" "sym_uniq (st @ [?s']) hsh'"
    "sym_map (st @ [?s']) hsh' = (sym_map st hsh)((name, 0) \<mapsto> ?p)"
    using sym_table_cong [OF h(2,3), of "st @ [?s']"] same h(4) by simp_all
  have mk: "mk_address st hsh ghash ns name U_add_uniq_label = Done (?p, st @ [?s'], hsh')"
    using None h(1) assms(1) get_sym_label [OF assms(1,2,4)]
    by (simp add: mk_address_def mk_symreg_def get_sym_typed_Some new_symreg_def zeroed_symreg_def)
  have "set (h_syms hsh') = insert ?p (set (h_syms hsh))"
    using h(5) mset_eq_setD [of "h_syms hsh'" "?p # h_syms hsh"] by simp
  then have only: "\<forall>p \<in> set (h_syms hsh'). r_name ((st @ [?s']) ! p) = name \<longrightarrow> r_set ((st @ [?s']) ! p) = 0"
    using assms(4) symtab_okD(7) [OF assms(1)] by (auto simp: nth_append)
  have "mk_address (st @ [?s']) hsh' ghash ns name U_add_uniq_label = Thrown ''Label already defined''"
    using mk_address_label_found [OF ok(1,2) only, of ?p ghash ns] ok(3) by simp
  with None mk ok show ?thesis by simp
qed

theorem mk_address_label_once_witness:
  "\<exists>st' hsh'. mk_address [] create_symhash create_symhash None [120] U_add_uniq_label = Done (0, st', hsh') \<and>
     mk_address st' hsh' create_symhash None [120] U_add_uniq_label = Thrown ''Label already defined''"
proof -
  have none: "sym_map [] create_symhash ([120], 0) = None"
    using sym_map_Some_iff [of "[]" create_symhash "[120]" 0]
    by (auto simp: create_symhash_ok sym_uniq_def intro: option_eqI)
  show ?thesis
    using mk_address_label_once [of "[]" create_symhash "[120]" create_symhash None]
    by (simp add: create_symhash_ok sym_uniq_def none) blast
qed

text \<open>
  The second separator of a namespace with three parts is left alone: the search for it has
  a stray parenthesis.
\<close>

lemma add_ns_separators:
  "add_ns (Some ([91, 34, 97, 34, 59, 34, 98, 34, 59, 34, 99, 34, 93])) [102] =
     [95, 34, 97, 64, 64, 64, 98, 34, 59, 34, 99, 34, 64, 64, 64, 102]"
  by (simp add: add_ns_def ns_ats_rest.simps ns_ats_def)

end
