(* ===== verification/Parrot_Hash.thy ===== *)
theory Parrot_Hash
  imports Parrot_Base
begin

text \<open>
  Parrot's hash tables, \<open>src/hash.c\<close> and \<open>include/parrot/hash.h\<close>: one block of memory
  holds the buckets and an index of chains; unused buckets are on a free list, and
  an empty free list doubles the block.

  A \<open>void *\<close> (key or value) is a 64-bit word, \<open>0\<close> being \<open>NULL\<close>.  A bucket pointer is
  a block and a position in it; a pointer into a block that was given back is
  dangling, and following it is \<open>None\<close>.  Every allocation returns a block that was
  never used before, together with the allocator it came from; giving a block back
  to another allocator is \<open>None\<close>.
\<close>

section \<open>Data\<close>

datatype hash_key_type =
    Hash_key_type_int | Hash_key_type_cstring | Hash_key_type_STRING | Hash_key_type_PMC
  | Hash_key_type_ptr | Hash_key_type_PMC_ptr | Hash_key_type_STRING_enc

datatype parrot_data_type =
    enum_type_undef | enum_type_INTVAL | enum_type_FLOATVAL | enum_type_STRING
  | enum_type_PMC | enum_type_ptr

type_synonym bucket_ptr = "nat \<times> nat"

record hash_bucket =
  b_next :: "bucket_ptr option"
  b_key :: u64
  b_value :: u64

datatype storage = Memory_chunk | Fixed_size nat

record hash =
  h_block :: nat
  h_storage :: storage
  buckets :: "hash_bucket list"
  index :: "bucket_ptr option list"
  free_list :: "bucket_ptr option"
  entries :: nat
  h_mask :: u64
  key_type :: hash_key_type
  entry_type :: parrot_data_type
  seed :: u64

text \<open>
  What the keys point to, none of it changed by the hash: C strings, Parrot strings
  (their cached hash value, which \<open>STRING_hash\<close> fills on first use, their encoding and
  bytes, and \<open>STRING_equal\<close>) and PMCs (their type and the vtable functions).
\<close>

record hash_env =
  cstr_at :: "u64 \<Rightarrow> u8 list"
  str_hashval :: "u64 \<Rightarrow> u64"
  str_encoding :: "u64 \<Rightarrow> u64"
  str_bytes :: "u64 \<Rightarrow> u8 list"
  str_equal :: "u64 \<Rightarrow> u64 \<Rightarrow> bool"
  pmc_base_type :: "u64 \<Rightarrow> u64"
  pmc_is_equal :: "u64 \<Rightarrow> u64 \<Rightarrow> bool"
  pmc_hashvalue :: "u64 \<Rightarrow> u64"

definition INITIAL_SIZE :: u64 where "INITIAL_SIZE = 2"
definition SPLIT_POINT :: u64 where "SPLIT_POINT = 16"

definition HASH_ALLOC_SIZE :: "nat \<Rightarrow> nat" where
  "HASH_ALLOC_SIZE n = n * 24 + n * 8"

section \<open>Hashing and comparing keys\<close>

fun Parrot_hash_buffer :: "u8 list \<Rightarrow> nat \<Rightarrow> u64 \<Rightarrow> u64 option" where
  "Parrot_hash_buffer buf 0 hashval = Some hashval"
| "Parrot_hash_buffer [] (Suc len) hashval = None"
| "Parrot_hash_buffer (c # buf) (Suc len) hashval =
     (let hashval = hashval + push_bit 5 hashval in Parrot_hash_buffer buf len (hashval + ucast c))"

fun key_hash_cstring_from :: "u8 list \<Rightarrow> u64 \<Rightarrow> u64" where
  "key_hash_cstring_from [] h = h"
| "key_hash_cstring_from (c # p) h =
     (let h = h + push_bit 5 h in key_hash_cstring_from p (h + ucast c))"

definition key_hash_cstring :: "hash_env \<Rightarrow> u64 \<Rightarrow> u64 \<Rightarrow> u64" where
  "key_hash_cstring E v sd = key_hash_cstring_from (cstr_at E v) sd"

definition key_hash :: "hash_env \<Rightarrow> hash \<Rightarrow> u64 \<Rightarrow> u64" where
  "key_hash E h key =
     (if key_type h = Hash_key_type_STRING \<or> key_type h = Hash_key_type_STRING_enc
      then str_hashval E key
      else if key_type h = Hash_key_type_cstring then key_hash_cstring E key (seed h)
      else if key_type h = Hash_key_type_PMC then pmc_hashvalue E key
      else key XOR seed h)"

text \<open>The comparisons, as whether the C function returns 0.\<close>

definition hash_compare_string :: "hash_env \<Rightarrow> u64 \<Rightarrow> u64 \<Rightarrow> bool" where
  "hash_compare_string E a b = str_equal E a b"

text \<open>\<open>memcmp\<close> reads as many bytes of both strings as the first one has.\<close>

definition hash_compare_string_enc :: "hash_env \<Rightarrow> u64 \<Rightarrow> u64 \<Rightarrow> bool" where
  "hash_compare_string_enc E a b =
     (if str_hashval E a \<noteq> str_hashval E b then False
      else if str_encoding E a \<noteq> str_encoding E b then False
      else str_bytes E a = take (length (str_bytes E a)) (str_bytes E b))"

definition hash_compare_pmc :: "hash_env \<Rightarrow> u64 \<Rightarrow> u64 \<Rightarrow> bool" where
  "hash_compare_pmc E a b =
     (if a = b then True
      else if pmc_base_type E a \<noteq> pmc_base_type E b then False
      else pmc_is_equal E a b)"

definition hash_compare :: "hash_env \<Rightarrow> hash \<Rightarrow> u64 \<Rightarrow> u64 \<Rightarrow> bool" where
  "hash_compare E h a b =
     (if a = b then True
      else if key_type h = Hash_key_type_STRING then hash_compare_string E a b
      else if key_type h = Hash_key_type_STRING_enc then hash_compare_string_enc E a b
      else if key_type h = Hash_key_type_cstring then cstr_at E a = cstr_at E b
      else if key_type h = Hash_key_type_PMC then hash_compare_pmc E a b
      else False)"

section \<open>Memory\<close>

definition bucket_at :: "hash \<Rightarrow> bucket_ptr \<Rightarrow> hash_bucket option" where
  "bucket_at h p = (if fst p = h_block h then rd (buckets h) (snd p) else None)"

definition put_bucket :: "hash \<Rightarrow> bucket_ptr \<Rightarrow> hash_bucket \<Rightarrow> hash option" where
  "put_bucket h p b =
     (if fst p = h_block h
      then do { bs \<leftarrow> wr (buckets h) (snd p) b; Some (h\<lparr>buckets := bs\<rparr>) }
      else None)"

definition set_index :: "hash \<Rightarrow> nat \<Rightarrow> bucket_ptr option \<Rightarrow> hash option" where
  "set_index h i p = do { ix \<leftarrow> wr (index h) i p; Some (h\<lparr>index := ix\<rparr>) }"

definition slot :: "hash \<Rightarrow> u64 \<Rightarrow> nat" where
  "slot h hashval = unat (hashval AND h_mask h)"

text \<open>
  A \<open>HashBucket **\<close>: the address of an index entry or of a bucket's \<open>next\<close> field.
\<close>

datatype bucket_loc = Slot nat | Next bucket_ptr

fun rd_loc :: "hash \<Rightarrow> bucket_loc \<Rightarrow> bucket_ptr option option" where
  "rd_loc h (Slot i) = rd (index h) i"
| "rd_loc h (Next p) = map_option b_next (bucket_at h p)"

fun wr_loc :: "hash \<Rightarrow> bucket_loc \<Rightarrow> bucket_ptr option \<Rightarrow> hash option" where
  "wr_loc h (Slot i) q = set_index h i q"
| "wr_loc h (Next p) q = do { b \<leftarrow> bucket_at h p; put_bucket h p (b\<lparr>b_next := q\<rparr>) }"

text \<open>The two allocators: large blocks come from \<open>Parrot_gc_allocate_memory_chunk\<close>.\<close>

definition storage_for :: "u64 \<Rightarrow> storage" where
  "storage_for new_size =
     (if new_size > SPLIT_POINT then Memory_chunk else Fixed_size (HASH_ALLOC_SIZE (unat new_size)))"

definition free_storage :: "hash \<Rightarrow> storage \<Rightarrow> unit option" where
  "free_storage h s = c_assert (h_storage h = s)"

section \<open>Construction\<close>

definition Parrot_hash_create :: "u64 \<Rightarrow> parrot_data_type \<Rightarrow> hash_key_type \<Rightarrow> hash" where
  "Parrot_hash_create hash_seed val_type hkey_type =
     \<lparr>h_block = 0, h_storage = Fixed_size 0, buckets = [], index = [], free_list = None,
      entries = 0, h_mask = 0, key_type = hkey_type, entry_type = val_type, seed = hash_seed\<rparr>"

definition Parrot_hash_new :: "u64 \<Rightarrow> hash" where
  "Parrot_hash_new sd = Parrot_hash_create sd enum_type_PMC Hash_key_type_STRING"

definition Parrot_hash_new_cstring_hash :: "u64 \<Rightarrow> hash" where
  "Parrot_hash_new_cstring_hash sd = Parrot_hash_create sd enum_type_PMC Hash_key_type_cstring"

definition Parrot_hash_new_pointer_hash :: "u64 \<Rightarrow> hash" where
  "Parrot_hash_new_pointer_hash sd = Parrot_hash_create sd enum_type_ptr Hash_key_type_ptr"

definition Parrot_hash_new_intval_hash :: "u64 \<Rightarrow> hash" where
  "Parrot_hash_new_intval_hash sd = Parrot_hash_create sd enum_type_INTVAL Hash_key_type_int"

text \<open>The doubling loop of \<open>allocate_buckets\<close>; it does not end for a size above \<open>2 ^ 63\<close>.\<close>

partial_function (option) grow_size :: "u64 \<Rightarrow> u64 \<Rightarrow> u64 option" where
  "grow_size sz new_size = (if sz > new_size then grow_size sz (push_bit 1 new_size) else Some new_size)"

declare grow_size.simps [code]

definition empty_bucket :: hash_bucket where
  "empty_bucket = \<lparr>b_next = None, b_key = 0, b_value = 0\<rparr>"

definition push_free :: "hash \<Rightarrow> nat \<Rightarrow> hash option" where
  "push_free h i =
     do {
       b \<leftarrow> bucket_at h (h_block h, i);
       h \<leftarrow> put_bucket h (h_block h, i) (b\<lparr>b_next := free_list h\<rparr>);
       Some (h\<lparr>free_list := Some (h_block h, i)\<rparr>)
     }"

definition allocate_buckets :: "hash \<Rightarrow> u64 \<Rightarrow> hash option" where
  "allocate_buckets h sz =
     do {
       new_size \<leftarrow> grow_size sz INITIAL_SIZE;
       let n = unat new_size;
           h = h\<lparr>h_block := h_block h + 1, h_storage := storage_for new_size,
                 buckets := replicate n empty_bucket, index := replicate n None,
                 h_mask := new_size - 1\<rparr>
       in fold_opt push_free (rev [0..<n]) h
     }"

definition Parrot_hash_create_sized ::
  "u64 \<Rightarrow> parrot_data_type \<Rightarrow> hash_key_type \<Rightarrow> u64 \<Rightarrow> hash option" where
  "Parrot_hash_create_sized sd val_type hkey_type sz =
     allocate_buckets (Parrot_hash_create sd val_type hkey_type) sz"

definition Parrot_hash_destroy :: "hash \<Rightarrow> unit option" where
  "Parrot_hash_destroy h =
     (if buckets h \<noteq> []
      then (if h_mask h > SPLIT_POINT then free_storage h Memory_chunk
            else free_storage h (Fixed_size (HASH_ALLOC_SIZE (unat (h_mask h + 1)))))
      else Some ())"

definition Parrot_hash_size :: "hash \<Rightarrow> nat" where
  "Parrot_hash_size h = entries h"

section \<open>Doubling\<close>

text \<open>
  The buckets are copied to a new block, so the pointers in the index and in the
  \<open>next\<close> fields still point to the old one until \<open>(char * )*index + offset\<close> moves
  them.  \<open>old\<close> is the old block.
\<close>

definition relocate :: "nat \<Rightarrow> nat \<Rightarrow> bucket_ptr \<Rightarrow> bucket_ptr option" where
  "relocate old new p = (if fst p = old then Some (new, snd p) else None)"

partial_function (option) expand_chain ::
  "hash_env \<Rightarrow> nat \<Rightarrow> nat \<Rightarrow> bucket_loc \<Rightarrow> hash \<Rightarrow> hash option" where
  "expand_chain E old i loc h =
     do {
       cur \<leftarrow> rd_loc h loc;
       (case cur of
          None \<Rightarrow> Some h
        | Some p \<Rightarrow> do {
            bp \<leftarrow> relocate old (h_block h) p;
            b \<leftarrow> bucket_at h bp;
            let hashval =
                  (if key_type h = Hash_key_type_STRING \<or> key_type h = Hash_key_type_STRING_enc
                   then str_hashval E (b_key b) else key_hash E h (b_key b));
                new_loc = slot h hashval
            in if i \<noteq> new_loc
               then do {
                 h \<leftarrow> wr_loc h loc (b_next b);
                 head \<leftarrow> rd (index h) new_loc;
                 h \<leftarrow> wr_loc h (Next bp) head;
                 h \<leftarrow> set_index h new_loc (Some bp);
                 expand_chain E old i loc h
               }
               else do {
                 h \<leftarrow> wr_loc h loc (Some bp);
                 expand_chain E old i (Next bp) h
               }
          })
     }"

declare expand_chain.simps [code]

definition link_free :: "nat \<Rightarrow> hash \<Rightarrow> nat \<Rightarrow> hash option" where
  "link_free end_b h j =
     wr_loc h (Next (h_block h, j)) (if j = end_b then None else Some (h_block h, j + 1))"

definition expand_hash :: "hash_env \<Rightarrow> hash \<Rightarrow> hash option" where
  "expand_hash E h =
     (let old = h_block h;
          old_size = h_mask h + 1;
          new_size = push_bit 1 old_size;
          n = unat old_size
      in do {
        c_assert (n \<le> length (buckets h) \<and> n \<le> length (index h));
        free_storage h (storage_for old_size);
        let h = h\<lparr>h_block := h_block h + 1, h_storage := storage_for new_size,
                  buckets := take n (buckets h) @ replicate n empty_bucket,
                  index := take n (index h) @ replicate n None,
                  h_mask := new_size - 1\<rparr>
        in do {
          h \<leftarrow> fold_opt (\<lambda>h i. expand_chain E old i (Slot i) h) [0..<n] h;
          h \<leftarrow> fold_opt (link_free (n + n - 1)) [n..<n + n] h;
          Some (h\<lparr>free_list := Some (h_block h, n)\<rparr>)
        }
      })"

section \<open>Lookup and update\<close>

text \<open>A chain is followed to the first bucket that matches, or to its end.\<close>

partial_function (option) find_bucket ::
  "hash \<Rightarrow> (u64 \<Rightarrow> bool) \<Rightarrow> bucket_ptr option \<Rightarrow> bucket_ptr option option" where
  "find_bucket h match bucket =
     (case bucket of
        None \<Rightarrow> Some None
      | Some p \<Rightarrow> do {
          b \<leftarrow> bucket_at h p;
          if match (b_key b) then Some (Some p) else find_bucket h match (b_next b)
        })"

declare find_bucket.simps [code]

definition string_match :: "hash_env \<Rightarrow> u64 \<Rightarrow> u64 \<Rightarrow> u64 \<Rightarrow> bool" where
  "string_match E s hashval s2 =
     (if s = s2 then True
      else if hashval = str_hashval E s2
      then (if str_encoding E s = str_encoding E s2
            then length (str_bytes E s) = length (str_bytes E s2) \<and> str_bytes E s = str_bytes E s2
            else str_equal E s s2)
      else False)"

definition parrot_hash_get_bucket_string ::
  "hash_env \<Rightarrow> hash \<Rightarrow> u64 \<Rightarrow> u64 \<Rightarrow> bucket_ptr option option" where
  "parrot_hash_get_bucket_string E h s hashval =
     do { bucket \<leftarrow> rd (index h) (slot h hashval); find_bucket h (string_match E s hashval) bucket }"

definition Parrot_hash_get_bucket :: "hash_env \<Rightarrow> hash \<Rightarrow> u64 \<Rightarrow> bucket_ptr option option" where
  "Parrot_hash_get_bucket E h key =
     (if entries h = 0 then Some None
      else if key_type h = Hash_key_type_STRING
      then parrot_hash_get_bucket_string E h key (str_hashval E key)
      else do {
        bucket \<leftarrow> rd (index h) (slot h (key_hash E h key));
        find_bucket h (hash_compare E h key) bucket
      })"

definition Parrot_hash_get :: "hash_env \<Rightarrow> hash \<Rightarrow> u64 \<Rightarrow> u64 option" where
  "Parrot_hash_get E h key =
     (if entries h = 0 then Some 0
      else do {
        bucket \<leftarrow>
          (if key_type h = Hash_key_type_STRING
           then parrot_hash_get_bucket_string E h key (str_hashval E key)
           else Parrot_hash_get_bucket E h key);
        (case bucket of None \<Rightarrow> Some 0 | Some p \<Rightarrow> map_option b_value (bucket_at h p))
      })"

definition Parrot_hash_exists :: "hash_env \<Rightarrow> hash \<Rightarrow> u64 \<Rightarrow> bool option" where
  "Parrot_hash_exists E h key = map_option (\<lambda>b. b \<noteq> None) (Parrot_hash_get_bucket E h key)"

definition parrot_hash_store_value_in_bucket ::
  "hash_env \<Rightarrow> hash \<Rightarrow> bucket_ptr option \<Rightarrow> u64 \<Rightarrow> u64 \<Rightarrow> u64 \<Rightarrow> hash option" where
  "parrot_hash_store_value_in_bucket E h bucket hashval key v =
     (case bucket of
        Some p \<Rightarrow> do { b \<leftarrow> bucket_at h p; put_bucket h p (b\<lparr>b_value := v\<rparr>) }
      | None \<Rightarrow> do {
          h \<leftarrow> (if free_list h = None then expand_hash E h else Some h);
          p \<leftarrow> free_list h;
          b \<leftarrow> bucket_at h p;
          head \<leftarrow> rd (index h) (slot h hashval);
          h \<leftarrow> Some (h\<lparr>entries := entries h + 1, free_list := b_next b\<rparr>);
          h \<leftarrow> put_bucket h p \<lparr>b_next = head, b_key = key, b_value = v\<rparr>;
          set_index h (slot h hashval) (Some p)
        })"

text \<open>\<open>Parrot_hash_put\<close> returns the old bucket of the key, \<open>NULL\<close> for a new key.\<close>

definition Parrot_hash_put :: "hash_env \<Rightarrow> hash \<Rightarrow> u64 \<Rightarrow> u64 \<Rightarrow> (hash \<times> bucket_ptr option) option" where
  "Parrot_hash_put E h key v =
     do {
       (h, bucket, hashval) \<leftarrow>
         (if buckets h = []
          then do { h \<leftarrow> allocate_buckets h INITIAL_SIZE; Some (h, None, key_hash E h key) }
          else if key_type h = Hash_key_type_STRING
          then (let hashval = str_hashval E key
                in do { b \<leftarrow> parrot_hash_get_bucket_string E h key hashval; Some (h, b, hashval) })
          else (let hashval = key_hash E h key
                in do {
                  head \<leftarrow> rd (index h) (slot h hashval);
                  b \<leftarrow> find_bucket h (hash_compare E h key) head;
                  Some (h, b, hashval)
                }));
       h \<leftarrow> parrot_hash_store_value_in_bucket E h bucket hashval key v;
       Some (h, bucket)
     }"

partial_function (option) delete_from ::
  "hash_env \<Rightarrow> hash \<Rightarrow> u64 \<Rightarrow> bucket_loc \<Rightarrow> hash option" where
  "delete_from E h key prev =
     do {
       cur \<leftarrow> rd_loc h prev;
       (case cur of
          None \<Rightarrow> Some h
        | Some current \<Rightarrow> do {
            b \<leftarrow> bucket_at h current;
            if hash_compare E h key (b_key b)
            then do {
              h \<leftarrow> wr_loc h prev (b_next b);
              h \<leftarrow> Some (h\<lparr>entries := entries h - 1\<rparr>);
              b \<leftarrow> bucket_at h current;
              h \<leftarrow> put_bucket h current (b\<lparr>b_next := free_list h, b_key := 0\<rparr>);
              Some (h\<lparr>free_list := Some current\<rparr>)
            }
            else delete_from E h key (Next current)
          })
     }"

declare delete_from.simps [code]

definition Parrot_hash_delete :: "hash_env \<Rightarrow> hash \<Rightarrow> u64 \<Rightarrow> hash option" where
  "Parrot_hash_delete E h key =
     (let hashval = slot h (key_hash E h key)
      in if buckets h \<noteq> [] then delete_from E h key (Slot hashval) else Some h)"

end
