(* ===== verification/Parrot_Hash_Rep.thy ===== *)
theory Parrot_Hash_Rep
  imports Parrot_Hash "HOL-Library.Multiset"
begin

text \<open>
  The representation invariant of the hash tables: every bucket is on exactly one
  chain or on the free list, every chain holds the keys of its slot, no two entries
  have equal keys.  Lookup, doubling, storing and deleting are proved against it.
\<close>

section \<open>Chains\<close>

text \<open>\<open>lseg n t p xs q\<close>: from \<open>p\<close>, the \<open>next\<close> pointers \<open>n\<close> lead through the buckets \<open>xs\<close> of block \<open>t\<close> to \<open>q\<close>.\<close>

fun lseg :: "(nat \<Rightarrow> bucket_ptr option) \<Rightarrow> nat \<Rightarrow> bucket_ptr option \<Rightarrow> nat list \<Rightarrow> bucket_ptr option \<Rightarrow> bool" where
  "lseg n t p [] q \<longleftrightarrow> p = q"
| "lseg n t p (x # xs) q \<longleftrightarrow> p = Some (t, x) \<and> lseg n t (n x) xs q"

lemma lseg_frame: "(\<And>x. x \<in> set xs \<Longrightarrow> n' x = n x) \<Longrightarrow> lseg n' t p xs q = lseg n t p xs q"
  by (induction xs arbitrary: p) auto

lemma lseg_upd [simp]: "y \<notin> set xs \<Longrightarrow> lseg (n(y := v)) t p xs q = lseg n t p xs q"
  by (rule lseg_frame) auto

lemma lseg_append: "lseg n t p (xs @ ys) q \<longleftrightarrow> (\<exists>r. lseg n t p xs r \<and> lseg n t r ys q)"
  by (induction xs arbitrary: p) auto

abbreviation nxt :: "hash \<Rightarrow> nat \<Rightarrow> bucket_ptr option" where
  "nxt h x \<equiv> b_next (buckets h ! x)"

text \<open>The hash with other \<open>next\<close> pointers and another index.\<close>

definition relink :: "hash \<Rightarrow> bucket_ptr option list \<Rightarrow> (nat \<Rightarrow> bucket_ptr option) \<Rightarrow> hash" where
  "relink h ix f = h\<lparr>index := ix,
     buckets := map (\<lambda>x. (buckets h ! x)\<lparr>b_next := f x\<rparr>) [0..<length (buckets h)]\<rparr>"

lemma relink_sel [simp]:
  "h_block (relink h ix f) = h_block h" "index (relink h ix f) = ix"
  "length (buckets (relink h ix f)) = length (buckets h)"
  "key_hash E (relink h ix f) = key_hash E h" "slot (relink h ix f) = slot h"
  "key_type (relink h ix f) = key_type h" "free_list (relink h ix f) = free_list h"
  "h_mask (relink h ix f) = h_mask h" "entries (relink h ix f) = entries h"
  "h_storage (relink h ix f) = h_storage h"
  "hash_compare E (relink h ix f) = hash_compare E h"
  "entry_type (relink h ix f) = entry_type h" "seed (relink h ix f) = seed h"
  by (simp_all add: relink_def key_hash_def slot_def hash_compare_def fun_eq_iff)

lemma relink_bucket:
  "x < length (buckets h) \<Longrightarrow> buckets (relink h ix f) ! x = (buckets h ! x)\<lparr>b_next := f x\<rparr>"
  by (simp add: relink_def)

lemma relink_id: "relink h (index h) (nxt h) = h"
proof -
  have "map (\<lambda>x. (buckets h ! x)\<lparr>b_next := nxt h x\<rparr>) [0..<length (buckets h)] = buckets h"
    by (rule nth_equalityI) simp_all
  then show ?thesis by (simp add: relink_def)
qed

lemma bucket_at_relink [simp]:
  "x < length (buckets h) \<Longrightarrow>
     bucket_at (relink h ix f) (h_block h, x) = Some ((buckets h ! x)\<lparr>b_next := f x\<rparr>)"
  by (simp add: bucket_at_def relink_bucket)

lemma set_index_relink [simp]:
  "i < length ix \<Longrightarrow> set_index (relink h ix f) i q = Some (relink h (ix[i := q]) f)"
  by (simp add: set_index_def relink_def)

lemma put_next_relink [simp]:
  assumes "x < length (buckets h)"
  shows "put_bucket (relink h ix f) (h_block h, x) ((buckets h ! x)\<lparr>b_next := q\<rparr>)
    = Some (relink h ix (f(x := q)))"
proof -
  have "(buckets (relink h ix f))[x := (buckets h ! x)\<lparr>b_next := q\<rparr>] = buckets (relink h ix (f(x := q)))"
    using assms by (intro nth_equalityI) (auto simp: nth_list_update relink_bucket)
  then show ?thesis using assms by (simp add: put_bucket_def relink_def)
qed

lemma loc_relink [simp]:
  "i < length ix \<Longrightarrow> rd_loc (relink h ix f) (Slot i) = Some (ix ! i)"
  "x < length (buckets h) \<Longrightarrow> rd_loc (relink h ix f) (Next (h_block h, x)) = Some (f x)"
  "i < length ix \<Longrightarrow> wr_loc (relink h ix f) (Slot i) q = Some (relink h (ix[i := q]) f)"
  "x < length (buckets h) \<Longrightarrow> wr_loc (relink h ix f) (Next (h_block h, x)) q = Some (relink h ix (f(x := q)))"
  by simp_all

lemma find_bucket_lseg:
  assumes "lseg (nxt h) (h_block h) p xs None" "set xs \<subseteq> {..<length (buckets h)}"
  shows "find_bucket h m p = Some (map_option (Pair (h_block h)) (find (\<lambda>x. m (b_key (buckets h ! x))) xs))"
  using assms
proof (induction xs arbitrary: p)
  case Nil
  then show ?case by (simp add: find_bucket.simps [of h m])
next
  case (Cons x xs)
  then show ?case by (subst find_bucket.simps) (simp add: bucket_at_def)
qed

section \<open>Moving one chain\<close>

definition home :: "hash_env \<Rightarrow> hash \<Rightarrow> nat \<Rightarrow> nat" where
  "home E h x = slot h (key_hash E h (b_key (buckets h ! x)))"

fun loc_ok :: "hash \<Rightarrow> nat \<Rightarrow> bucket_loc \<Rightarrow> bool" where
  "loc_ok h i (Slot k) \<longleftrightarrow> k = i"
| "loc_ok h i (Next p) \<longleftrightarrow> fst p = h_block h \<and> snd p < length (buckets h)"

fun loc_val :: "bucket_ptr option list \<Rightarrow> (nat \<Rightarrow> bucket_ptr option) \<Rightarrow> bucket_loc \<Rightarrow> bucket_ptr option" where
  "loc_val ix f (Slot k) = ix ! k"
| "loc_val ix f (Next p) = f (snd p)"

fun loc_nodes :: "bucket_loc \<Rightarrow> nat set" where
  "loc_nodes (Slot k) = {}"
| "loc_nodes (Next p) = {snd p}"

fun loc_slots :: "bucket_loc \<Rightarrow> nat set" where
  "loc_slots (Slot k) = {k}"
| "loc_slots (Next p) = {}"

definition moves_to :: "hash_env \<Rightarrow> hash \<Rightarrow> nat \<Rightarrow> bucket_ptr option list \<times> (nat \<Rightarrow> bucket_ptr option)
    \<Rightarrow> bucket_loc \<Rightarrow> nat \<Rightarrow> nat \<Rightarrow> nat list \<Rightarrow> nat list
    \<Rightarrow> bucket_ptr option list \<times> (nat \<Rightarrow> bucket_ptr option) \<Rightarrow> bool" where
  "moves_to E h blk st loc i j zs ms st' \<longleftrightarrow>
     length (fst st') = length (fst st)
     \<and> (\<forall>k. k \<noteq> j \<and> k \<notin> loc_slots loc \<longrightarrow> fst st' ! k = fst st ! k)
     \<and> (\<forall>x. x \<notin> set zs \<and> x \<notin> loc_nodes loc \<longrightarrow> snd st' x = snd st x)
     \<and> lseg (snd st') blk (loc_val (fst st') (snd st') loc) (filter (\<lambda>z. home E h z = i) zs) None
     \<and> lseg (snd st') blk (fst st' ! j) (rev (filter (\<lambda>z. home E h z \<noteq> i) zs) @ ms) None"

lemma rd_loc_val:
  "loc_ok h i loc \<Longrightarrow> i < length ix \<Longrightarrow> rd_loc (relink h ix f) loc = Some (loc_val ix f loc)"
  by (cases loc) auto

lemma expand_chain_moves:
  assumes "old \<noteq> h_block h" "i < length ix" "j < length ix" "i \<noteq> j"
    and "loc_ok h i loc" "loc_nodes loc \<inter> (set zs \<union> set ms) = {}"
    and "lseg f old (loc_val ix f loc) zs None" "distinct zs" "set zs \<subseteq> {..<length (buckets h)}"
    and "\<forall>z \<in> set zs. home E h z = i \<or> home E h z = j"
    and "lseg f (h_block h) (ix ! j) ms None" "set ms \<inter> set zs = {}"
  shows "\<exists>ix' f'. expand_chain E old i loc (relink h ix f) = Some (relink h ix' f')
    \<and> moves_to E h (h_block h) (ix, f) loc i j zs ms (ix', f')"
  using assms
proof (induction zs arbitrary: ix f loc ms)
  case Nil
  have "rd_loc (relink h ix f) loc = Some None" using rd_loc_val Nil by simp
  then have "expand_chain E old i loc (relink h ix f) = Some (relink h ix f)"
    by (subst expand_chain.simps) simp
  moreover have "moves_to E h (h_block h) (ix, f) loc i j [] ms (ix, f)"
    using Nil by (simp add: moves_to_def)
  ultimately show ?case by blast
next
  case (Cons z zs)
  let ?t = "h_block h"
  have z: "z < length (buckets h)" "z \<notin> set zs" "z \<notin> set ms" "z \<notin> loc_nodes loc"
    using Cons.prems(6,8,9,12) by auto
  have cur: "rd_loc (relink h ix f) loc = Some (Some (old, z))" "lseg f old (f z) zs None"
    using rd_loc_val [OF Cons.prems(5,2), of f] Cons.prems(7) by auto
  have hv: "key_type h = Hash_key_type_STRING \<Longrightarrow> str_hashval E k = key_hash E h k"
    "key_type h = Hash_key_type_STRING_enc \<Longrightarrow> str_hashval E k = key_hash E h k" for k
    by (simp_all add: key_hash_def)
  have hz: "slot h (key_hash E h (b_key (buckets h ! z))) = home E h z" by (simp add: home_def)
  note step = expand_chain.simps [of E old i loc "relink h ix f"]
  show ?case
  proof (cases "home E h z = i")
    case True
    define ix1 where "ix1 = (case loc of Slot k \<Rightarrow> ix[k := Some (?t, z)] | Next p \<Rightarrow> ix)"
    define f1 where "f1 = (case loc of Slot k \<Rightarrow> f | Next p \<Rightarrow> f(snd p := Some (?t, z)))"
    have w: "wr_loc (relink h ix f) loc (Some (?t, z)) = Some (relink h ix1 f1)"
      using Cons.prems(2,5) unfolding ix1_def f1_def by (cases loc) auto
    have fz: "f1 x = f x" if "x \<notin> loc_nodes loc" for x
      using that unfolding f1_def by (cases loc) auto
    have ix1: "length ix1 = length ix" "ix1 ! k = ix ! k" if "k \<notin> loc_slots loc" for k
      using that unfolding ix1_def by (cases loc; auto)+
    have l1: "length ix1 = length ix" unfolding ix1_def by (cases loc) auto
    have j: "j \<notin> loc_slots loc" using Cons.prems(4,5) by (cases loc) auto
    have e: "expand_chain E old i loc (relink h ix f) = expand_chain E old i (Next (?t, z)) (relink h ix1 f1)"
      using cur(1) z(1) w True hv hz by (subst step) (simp add: relocate_def Let_def)
    have nodes: "loc_nodes loc \<inter> set zs = {}" "loc_nodes loc \<inter> set ms = {}" using Cons.prems(6) by auto
    have fl: "lseg f1 t p zs q = lseg f t p zs q" "lseg f1 t p ms q = lseg f t p ms q" for t p q
      using nodes fz by (intro lseg_frame; blast)+
    have s1: "lseg f1 old (f1 z) zs None"
      using cur(2) fz [OF z(4)] fl(1) by simp
    have s2: "lseg f1 ?t (ix1 ! j) ms None"
      using Cons.prems(11) ix1(2) [OF j] fl(2) by simp
    obtain ix' f' where r: "expand_chain E old i (Next (?t, z)) (relink h ix1 f1) = Some (relink h ix' f')"
      "moves_to E h ?t (ix1, f1) (Next (?t, z)) i j zs ms (ix', f')"
      using Cons.IH [of ix1 "Next (?t, z)" ms f1] Cons.prems l1 z s1 s2 by auto
    note M = r(2) [unfolded moves_to_def, simplified]
    have zn: "f' x = f1 x" if "x \<notin> set zs" "x \<noteq> z" for x using M that by blast
    have lv: "loc_val ix' f' loc = Some (?t, z)"
    proof (cases loc)
      case (Slot k)
      then have "k = i" using Cons.prems(5) by simp
      then show ?thesis using M Slot Cons.prems(2,4) by (simp add: ix1_def)
    next
      case (Next p)
      then have "snd p \<notin> set zs" "snd p \<noteq> z" using nodes(1) z(4) by auto
      then show ?thesis using zn Next by (simp add: f1_def)
    qed
    have "moves_to E h ?t (ix, f) loc i j (z # zs) ms (ix', f')"
      unfolding moves_to_def
    proof (intro conjI allI impI, goal_cases)
      case 1 show ?case using M l1 by simp
    next
      case (2 k) then show ?case using M ix1(2) by simp
    next
      case (3 x) then show ?case using zn fz by simp
    next
      case 4 show ?case using M True lv by simp
    next
      case 5 show ?case using M True by simp
    qed
    then show ?thesis using e r(1) by metis
  next
    case False
    then have hj: "home E h z = j" using Cons.prems(10) by simp
    define ix1 where "ix1 = (case loc of Slot k \<Rightarrow> ix[k := f z] | Next p \<Rightarrow> ix)"
    define f1 where "f1 = (case loc of Slot k \<Rightarrow> f | Next p \<Rightarrow> f(snd p := f z))"
    have w: "wr_loc (relink h ix f) loc (f z) = Some (relink h ix1 f1)"
      using Cons.prems(2,5) unfolding ix1_def f1_def by (cases loc) auto
    have fz: "f1 x = f x" if "x \<notin> loc_nodes loc" for x
      using that unfolding f1_def by (cases loc) auto
    have ix1: "ix1 ! k = ix ! k" if "k \<notin> loc_slots loc" for k
      using that unfolding ix1_def by (cases loc; auto)
    have l1: "length ix1 = length ix" unfolding ix1_def by (cases loc) auto
    have j: "j \<notin> loc_slots loc" using Cons.prems(4,5) by (cases loc) auto
    let ?f = "f1(z := ix ! j)" and ?ix = "ix1[j := Some (?t, z)]"
    have e: "expand_chain E old i loc (relink h ix f) = expand_chain E old i loc (relink h ?ix ?f)"
      using cur(1) z(1) w False hv hz hj Cons.prems(3,4) l1 ix1 [OF j]
      by (subst step) (simp add: relocate_def Let_def)
    have nodes: "loc_nodes loc \<inter> set zs = {}" "loc_nodes loc \<inter> set ms = {}" using Cons.prems(6) by auto
    have fl: "lseg f1 t p zs q = lseg f t p zs q" "lseg f1 t p ms q = lseg f t p ms q" for t p q
      using nodes fz by (intro lseg_frame; blast)+
    have lv: "loc_val ?ix ?f loc = f z"
      using Cons.prems(2,4,5) z(4) by (cases loc) (auto simp: ix1_def f1_def)
    have s1: "lseg ?f old (loc_val ?ix ?f loc) zs None"
      unfolding lv using cur(2) z(2) fl(1) by simp
    have s2: "lseg ?f ?t (?ix ! j) (z # ms) None"
      using Cons.prems(3,11) l1 z(3) fl(2) ix1 [OF j] by simp
    have n2: "loc_nodes loc \<inter> (set zs \<union> set (z # ms)) = {}" using nodes z(4) by auto
    have "\<exists>ix' f'. expand_chain E old i loc (relink h ?ix ?f) = Some (relink h ix' f')
      \<and> moves_to E h ?t (?ix, ?f) loc i j zs (z # ms) (ix', f')"
      by (rule Cons.IH) (fact s1 s2 n2 | use Cons.prems l1 z in \<open>simp del: fun_upd_apply\<close>)+
    then obtain ix' f' where r: "expand_chain E old i loc (relink h ?ix ?f) = Some (relink h ix' f')"
      "moves_to E h ?t (?ix, ?f) loc i j zs (z # ms) (ix', f')" by blast
    note M = r(2) [unfolded moves_to_def fst_conv snd_conv]
    have "moves_to E h ?t (ix, f) loc i j (z # zs) ms (ix', f')"
      unfolding moves_to_def fst_conv snd_conv
    proof (intro conjI allI impI, goal_cases)
      case 1 show ?case using M l1 by simp
    next
      case (2 k) then show ?case using M ix1 by simp
    next
      case (3 x) then show ?case using M fz by simp
    next
      case 4 show ?case using M False by simp
    next
      case 5 show ?case using M False by simp
    qed
    then show ?thesis using e r(1) by metis
  qed
qed

section \<open>The invariant\<close>

definition keys_ok :: "hash_env \<Rightarrow> hash \<Rightarrow> bool" where
  "keys_ok E h \<longleftrightarrow>
     (\<forall>a b. hash_compare E h a b \<longrightarrow> hash_compare E h b a \<and> key_hash E h a = key_hash E h b)
     \<and> (\<forall>a b c. hash_compare E h a b \<and> hash_compare E h b c \<longrightarrow> hash_compare E h a c)
     \<and> (key_type h = Hash_key_type_STRING \<longrightarrow>
          (\<forall>a b. string_match E a (str_hashval E a) b = hash_compare E h a b))"

definition slots_for :: "nat \<Rightarrow> u64" where
  "slots_for e = push_bit e 1"

definition hash_rep :: "hash_env \<Rightarrow> hash \<Rightarrow> nat list list \<Rightarrow> nat list \<Rightarrow> bool" where
  "hash_rep E h cs fr \<longleftrightarrow>
     (\<exists>e. 0 < e \<and> e < 64 \<and> length cs = 2 ^ e \<and> h_mask h = slots_for e - 1 \<and> h_storage h = storage_for (slots_for e))
     \<and> length (index h) = length cs \<and> length (buckets h) = length cs
     \<and> (\<forall>k < length cs. lseg (nxt h) (h_block h) (index h ! k) (cs ! k) None)
     \<and> lseg (nxt h) (h_block h) (free_list h) fr None
     \<and> distinct (concat cs @ fr) \<and> set (concat cs @ fr) = {..<length cs}
     \<and> (\<forall>k < length cs. \<forall>x \<in> set (cs ! k). home E h x = k)
     \<and> (\<forall>x \<in> set (concat cs). \<forall>y \<in> set (concat cs). x \<noteq> y \<longrightarrow>
          \<not> hash_compare E h (b_key (buckets h ! x)) (b_key (buckets h ! y)))
     \<and> entries h = length (concat cs)
     \<and> (\<forall>x \<in> set fr. b_key (buckets h ! x) = 0)"

lemma hash_repD:
  assumes "hash_rep E h cs fr"
  shows "length (index h) = length cs" "length (buckets h) = length cs"
    "k < length cs \<Longrightarrow> lseg (nxt h) (h_block h) (index h ! k) (cs ! k) None"
    "lseg (nxt h) (h_block h) (free_list h) fr None"
    "distinct (concat cs @ fr)" "set (concat cs @ fr) = {..<length cs}"
    "k < length cs \<Longrightarrow> x \<in> set (cs ! k) \<Longrightarrow> home E h x = k"
    "x \<in> set (concat cs) \<Longrightarrow> y \<in> set (concat cs) \<Longrightarrow> x \<noteq> y \<Longrightarrow>
       \<not> hash_compare E h (b_key (buckets h ! x)) (b_key (buckets h ! y))"
    "entries h = length (concat cs)"
    "x \<in> set fr \<Longrightarrow> b_key (buckets h ! x) = 0"
    "x \<in> set (concat cs) \<Longrightarrow> x < length cs" "x \<in> set fr \<Longrightarrow> x < length cs"
proof -
  show "x \<in> set (concat cs) \<Longrightarrow> x < length cs" "x \<in> set fr \<Longrightarrow> x < length cs"
    using assms unfolding hash_rep_def by auto
qed (use assms in \<open>unfold hash_rep_def; blast\<close>)+

lemma unat_slots_for: "e < 64 \<Longrightarrow> unat (slots_for e) = 2 ^ e"
proof -
  assume e: "e < 64"
  have "unat (push_bit e (1 :: u64)) = take_bit 64 (push_bit e 1)"
    by (simp add: unsigned_push_bit_eq del: push_bit_of_1)
  also have "\<dots> = 2 ^ e"
  proof -
    have "(2::nat) ^ e < 2 ^ 64" using e by (rule power_strict_increasing) simp
    then show ?thesis by (simp add: take_bit_eq_mod)
  qed
  finally show ?thesis by (simp add: slots_for_def)
qed

lemma slot_mod:
  assumes "h_mask h = slots_for e - 1"
  shows "slot h hv = unat hv mod 2 ^ e"
proof -
  have "h_mask h = Bit_Operations.mask e"
    using assms by (simp add: slots_for_def mask_eq_exp_minus_1 push_bit_eq_mult)
  then have "slot h hv = unat (take_bit e hv)" by (simp add: slot_def take_bit_eq_mask)
  also have "\<dots> = take_bit e (unat hv)" by (rule unsigned_take_bit_eq)
  finally show ?thesis by (simp only: take_bit_eq_mod)
qed

lemma hash_rep_slot:
  assumes "hash_rep E h cs fr"
  shows "slot h hv < length cs"
proof -
  obtain e where "length cs = 2 ^ e" "h_mask h = slots_for e - 1" using assms by (auto simp: hash_rep_def)
  then show ?thesis by (simp add: slot_mod)
qed

lemma chain_in_concat: "k < length cs \<Longrightarrow> x \<in> set (cs ! k) \<Longrightarrow> x \<in> set (concat cs)"
  by auto

lemma distinct_concat_nth:
  assumes "distinct (concat cs)" "j < length cs" "k < length cs" "j \<noteq> k"
  shows "set (cs ! j) \<inter> set (cs ! k) = {}" "distinct (cs ! k)"
  using assms
proof (induction cs arbitrary: j k)
  case (Cons c cs)
  {
    case 1
    then show ?case using Cons.IH(1) [of "j - 1" "k - 1"]
      by (cases j; cases k) (fastforce simp: nth_mem)+
  next
    case 2
    then show ?case using distinct_concat_iff [of "c # cs"] by (metis nth_mem distinct_concat_iff)
  }
qed simp_all

section \<open>Doubling\<close>

definition stay :: "hash_env \<Rightarrow> hash \<Rightarrow> nat list list \<Rightarrow> nat \<Rightarrow> nat list" where
  "stay E h cs k = filter (\<lambda>z. home E h z = k) (cs ! k)"

definition moved :: "hash_env \<Rightarrow> hash \<Rightarrow> nat list list \<Rightarrow> nat \<Rightarrow> nat list" where
  "moved E h cs k = rev (filter (\<lambda>z. home E h z \<noteq> k) (cs ! k))"

lemma mset_stay_moved:
  "mset (concat (map (stay E h cs) [0..<length cs] @ map (moved E h cs) [0..<length cs])) = mset (concat cs)"
proof -
  have "mset (concat (map (stay E h cs) ks @ map (moved E h cs) ks)) = mset (concat (map ((!) cs) ks))" for ks
  proof (induction ks)
    case (Cons k ks)
    have "mset (stay E h cs k) + mset (moved E h cs k) = mset (cs ! k)"
      by (simp add: stay_def moved_def union_filter_mset_complement)
    have "mset (concat (map (stay E h cs) (k # ks) @ map (moved E h cs) (k # ks)))
        = (mset (stay E h cs k) + mset (moved E h cs k))
          + mset (concat (map (stay E h cs) ks @ map (moved E h cs) ks))"
      by simp
    then show ?case
      unfolding Cons \<open>mset (stay E h cs k) + mset (moved E h cs k) = mset (cs ! k)\<close> by simp
  qed simp
  then show ?thesis by (simp add: map_nth)
qed

definition split_upto :: "hash_env \<Rightarrow> hash \<Rightarrow> bucket_ptr option list \<Rightarrow> nat list list \<Rightarrow> nat
    \<Rightarrow> bucket_ptr option list \<Rightarrow> (nat \<Rightarrow> bucket_ptr option) \<Rightarrow> bool" where
  "split_upto E h ix0 cs i ix f \<longleftrightarrow>
     length ix = length cs + length cs
     \<and> (\<forall>k < length cs. if k < i
          then lseg f (h_block h) (ix ! k) (stay E h cs k) None
             \<and> lseg f (h_block h) (ix ! (k + length cs)) (moved E h cs k) None
          else ix ! k = ix0 ! k \<and> ix ! (k + length cs) = None)
     \<and> (\<forall>k < length cs. i \<le> k \<longrightarrow> (\<forall>x \<in> set (cs ! k). f x = nxt h x))"

lemma split_step:
  assumes S: "split_upto E h ix0 cs i ix f" and i: "i < length cs" and old: "old \<noteq> h_block h"
    and chain: "lseg (nxt h) old (ix0 ! i) (cs ! i) None"
    and d: "distinct (concat cs)" and b: "set (concat cs) \<subseteq> {..<length (buckets h)}"
    and home: "\<forall>z \<in> set (cs ! i). home E h z = i \<or> home E h z = i + length cs"
  shows "\<exists>ix' f'. expand_chain E old i (Slot i) (relink h ix f) = Some (relink h ix' f')
           \<and> split_upto E h ix0 cs (Suc i) ix' f'"
proof -
  let ?n = "length cs"
  have S1: "length ix = ?n + ?n" and S3: "\<And>x. x \<in> set (cs ! i) \<Longrightarrow> f x = nxt h x"
    using S i unfolding split_upto_def by auto
  have Si: "ix ! i = ix0 ! i" "ix ! (i + ?n) = None" using S i unfolding split_upto_def by auto
  have Slt: "lseg f (h_block h) (ix ! k) (stay E h cs k) None"
      "lseg f (h_block h) (ix ! (k + ?n)) (moved E h cs k) None" if "k < i" for k
    using S i that unfolding split_upto_def by auto
  have Sgt: "ix ! k = ix0 ! k" "ix ! (k + ?n) = None" "\<And>x. x \<in> set (cs ! k) \<Longrightarrow> f x = nxt h x"
    if "i \<le> k" "k < ?n" for k
    using S that unfolding split_upto_def by auto
  have l: "lseg f old (loc_val ix f (Slot i)) (cs ! i) None"
    using chain S3 lseg_frame [of "cs ! i" f "nxt h"] Si by simp
  have di: "distinct (cs ! i)" using d i distinct_concat_iff nth_mem by blast
  have bi: "set (cs ! i) \<subseteq> {..<length (buckets h)}" using b i by (meson chain_in_concat subset_iff)
  have side: "i < length ix" "i + ?n < length ix" "i \<noteq> i + ?n" "loc_ok h i (Slot i)"
      "loc_nodes (Slot i) \<inter> (set (cs ! i) \<union> set []) = {}"
      "lseg f (h_block h) (ix ! (i + ?n)) [] None" "set [] \<inter> set (cs ! i) = {}"
    using S1 Si i by (auto simp del: length_greater_0_conv)
  from expand_chain_moves [OF old side(1-5) l di bi home side(6,7)]
  obtain ix' f' where r: "expand_chain E old i (Slot i) (relink h ix f) = Some (relink h ix' f')"
    and M: "moves_to E h (h_block h) (ix, f) (Slot i) i (i + ?n) (cs ! i) [] (ix', f')" by blast
  have M1: "length ix' = ?n + ?n" "\<And>k. k \<noteq> i \<Longrightarrow> k \<noteq> i + ?n \<Longrightarrow> ix' ! k = ix ! k"
      "\<And>x. x \<notin> set (cs ! i) \<Longrightarrow> f' x = f x"
      "lseg f' (h_block h) (ix' ! i) (stay E h cs i) None"
      "lseg f' (h_block h) (ix' ! (i + ?n)) (moved E h cs i) None"
    using M S1 unfolding moves_to_def stay_def moved_def by auto
  have fr: "f' x = f x" if "x \<in> set (cs ! k)" "k \<noteq> i" "k < ?n" for x k
    using M1(3) distinct_concat_nth(1) [OF d that(3) i that(2)] that(1) by blast
  have "split_upto E h ix0 cs (Suc i) ix' f'"
    unfolding split_upto_def
  proof (intro conjI allI impI, goal_cases)
    case 1 show ?case by (fact M1(1))
  next
    case (2 k)
    show ?case
    proof (cases "k < i")
      case True
      then have "lseg f' (h_block h) p (stay E h cs k) None = lseg f (h_block h) p (stay E h cs k) None"
        "lseg f' (h_block h) p (moved E h cs k) None = lseg f (h_block h) p (moved E h cs k) None" for p
        using fr 2 by (auto intro!: lseg_frame simp: stay_def moved_def)
      then show ?thesis using Slt [OF True] True M1(2) [of k] M1(2) [of "k + ?n"] i by simp
    next
      case False
      then show ?thesis using M1 Sgt [of k] 2 i by (cases "k = i") simp_all
    qed
  next
    case (3 k)
    then show ?case using fr Sgt(3) [of k] by simp
  qed
  then show ?thesis using r by blast
qed

lemma link_free_upto:
  assumes "a \<le> m" "m \<le> length (buckets h)"
  shows "fold_opt (link_free l) [a..<m] (relink h ix f)
    = Some (relink h ix (\<lambda>x. if a \<le> x \<and> x < m then (if x = l then None else Some (h_block h, x + 1)) else f x))"
  using assms
proof (induction m rule: dec_induct)
  case base
  have "(\<lambda>x. if a \<le> x \<and> x < a then (if x = l then None else Some (h_block h, x + 1)) else f x) = f"
    by (rule ext) auto
  then show ?case by (simp only: upt_conv_Nil [OF order_refl] fold_opt.simps)
next
  case (step m)
  let ?f = "\<lambda>m x. if a \<le> x \<and> x < m then (if x = l then None else Some (h_block h, x + 1)) else f x"
  have eq: "(?f m)(m := if m = l then None else Some (h_block h, m + 1)) = ?f (Suc m)"
    using step.hyps by (auto simp: fun_eq_iff)
  have m: "m < length (buckets h)" using step.prems by simp
  have "link_free l (relink h ix (?f m)) m = Some (relink h ix (?f (Suc m)))"
    unfolding link_free_def relink_sel loc_relink(4) [OF m] eq ..
  moreover have "[a..<Suc m] = [a..<m] @ [m]" using step.hyps by simp
  ultimately show ?case using step by simp
qed

lemma lseg_upt:
  assumes "a < b" "\<And>x. a \<le> x \<Longrightarrow> x < b \<Longrightarrow> g x = (if x = b - 1 then None else Some (t, x + 1))"
  shows "lseg g t (Some (t, a)) [a..<b] None"
  using assms
proof (induction "b - a" arbitrary: a)
  case (Suc d)
  show ?case
  proof (cases "Suc a < b")
    case True
    then have "lseg g t (Some (t, Suc a)) [Suc a..<b] None" using Suc by simp
    then show ?thesis using True Suc.prems by (simp add: upt_conv_Cons)
  next
    case False
    then have "b = Suc a" using Suc.prems(1) by simp
    then show ?thesis using Suc.prems(2) [of a] by simp
  qed
qed simp

lemma slots_for_Suc: "push_bit 1 (slots_for e) = slots_for (Suc e)"
  by (simp add: slots_for_def push_bit_eq_mult)

lemma mod_double:
  fixes v n i :: nat
  assumes "v mod n = i" "0 < n"
  shows "v mod (n + n) = i \<or> v mod (n + n) = i + n"
proof -
  have "v mod (n + n) = n * (v div n mod 2) + v mod n"
    using mod_mult2_eq [of v n 2] by (simp add: mult_2 [symmetric] mult.commute)
  moreover have "v div n mod 2 = 0 \<or> v div n mod 2 = 1" by auto
  ultimately show ?thesis using assms(1) by auto
qed

text \<open>What an operation keeps of the hash's parameters.\<close>

definition same_kind :: "hash \<Rightarrow> hash \<Rightarrow> bool" where
  "same_kind h h' \<longleftrightarrow> key_type h' = key_type h \<and> entry_type h' = entry_type h \<and> seed h' = seed h"

lemma same_kind_fun:
  assumes "same_kind h h'"
  shows "key_hash E h' = key_hash E h" "hash_compare E h' = hash_compare E h" "keys_ok E h' = keys_ok E h"
proof -
  show 1: "key_hash E h' = key_hash E h" "hash_compare E h' = hash_compare E h"
    using assms by (simp_all add: same_kind_def key_hash_def hash_compare_def fun_eq_iff)
  then show "keys_ok E h' = keys_ok E h" using assms by (simp add: keys_ok_def same_kind_def)
qed

lemma same_kind_refl [simp]: "same_kind h h" and same_kind_trans: "same_kind a b \<Longrightarrow> same_kind b c \<Longrightarrow> same_kind a c"
  by (simp_all add: same_kind_def)

text \<open>The keys and values of the buckets on the chains.\<close>

definition kvs :: "hash \<Rightarrow> nat list list \<Rightarrow> (u64 \<times> u64) multiset" where
  "kvs h cs = image_mset (\<lambda>x. (b_key (buckets h ! x), b_value (buckets h ! x))) (mset (concat cs))"

lemma expand_hash_rep:
  assumes rep: "hash_rep E h cs []" and small: "length cs < 2 ^ 62"
  shows "\<exists>h' cs' fr'. expand_hash E h = Some h' \<and> hash_rep E h' cs' fr' \<and> fr' \<noteq> []
    \<and> same_kind h h' \<and> kvs h' cs' = kvs h cs \<and> length cs' = 2 * length cs"
proof -
  let ?n = "length cs"
  note R = hash_repD [OF rep]
  obtain e where e: "0 < e" "e < 64" "?n = 2 ^ e" "h_mask h = slots_for e - 1" "h_storage h = storage_for (slots_for e)"
    using rep by (auto simp: hash_rep_def)
  have "(2::nat) ^ e < 2 ^ 62" using small e(3) by simp
  then have e62: "e < 62" by (rule power_less_imp_less_exp [rotated]) simp
  have n: "unat (h_mask h + 1) = ?n" using e unat_slots_for by simp
  have npos: "0 < ?n" using e(3) by simp
  let ?h1 = "h\<lparr>h_block := h_block h + 1, h_storage := storage_for (slots_for (Suc e)),
      buckets := buckets h @ replicate ?n empty_bucket,
      index := index h @ replicate ?n None, h_mask := slots_for (Suc e) - 1\<rparr>"
  let ?t = "h_block ?h1" and ?ix0 = "index ?h1"
  have kh: "key_hash E ?h1 = key_hash E h" by (simp add: key_hash_def fun_eq_iff)
  have old: "buckets ?h1 ! x = buckets h ! x" if "x < ?n" for x using that R(2) by (simp add: nth_append)
  have new: "buckets ?h1 ! x = empty_bucket" if "?n \<le> x" "x < ?n + ?n" for x
    using that R(2) by (simp add: nth_append)
  have home: "home E ?h1 x = k \<or> home E ?h1 x = k + ?n" if "k < ?n" "x \<in> set (cs ! k)" for k x
  proof -
    have x: "x < ?n" using R(11) chain_in_concat [OF that] .
    have "home E h x = k" using R(7) [OF that] .
    then have "unat (key_hash E h (b_key (buckets h ! x))) mod ?n = k"
      using e(3,4) by (simp add: home_def slot_mod)
    moreover have "home E ?h1 x = unat (key_hash E h (b_key (buckets h ! x))) mod (?n + ?n)"
      using slot_mod [of ?h1 "Suc e"] e(3) old [OF x] unfolding home_def kh by (simp add: mult_2)
    ultimately show ?thesis using mod_double npos by metis
  qed
  have d: "distinct (concat cs)" and b: "set (concat cs) \<subseteq> {..<length (buckets ?h1)}"
    using R(2,5) R(11) by (auto simp del: set_concat simp: subset_iff intro: trans_less_add1)
  have chain: "lseg (nxt ?h1) (h_block h) (?ix0 ! k) (cs ! k) None" if "k < ?n" for k
  proof -
    have "lseg (nxt h) (h_block h) (index h ! k) (cs ! k) None" by (rule R(3) [OF that])
    moreover have "nxt ?h1 x = nxt h x" if "x \<in> set (cs ! k)" for x
      using old R(11) chain_in_concat [OF \<open>k < ?n\<close> that] by metis
    ultimately show ?thesis
      using lseg_frame [of "cs ! k" "nxt ?h1" "nxt h"] that R(1) by (simp add: nth_append)
  qed
  have "\<exists>s. fold_opt (\<lambda>h' i. expand_chain E (h_block h) i (Slot i) h') [0..<?n] ?h1 = Some s
    \<and> (\<exists>ix f. s = relink ?h1 ix f \<and> split_upto E ?h1 ?ix0 cs (length [0..<?n]) ix f)"
  proof (rule fold_opt_invariant [where I = "\<lambda>is s. \<exists>ix f. s = relink ?h1 ix f
        \<and> split_upto E ?h1 ?ix0 cs (length is) ix f"])
    have "split_upto E ?h1 ?ix0 cs (length []) ?ix0 (nxt ?h1)"
      using R(1) by (simp add: split_upto_def nth_append)
    then show "\<exists>ix f. ?h1 = relink ?h1 ix f \<and> split_upto E ?h1 ?ix0 cs (length []) ix f"
      using relink_id [of ?h1] by metis
  next
    fix ys i zs s
    assume l: "[0..<?n] = ys @ i # zs"
      and "\<exists>ix f. s = relink ?h1 ix f \<and> split_upto E ?h1 ?ix0 cs (length ys) ix f"
    then obtain ix f where s: "s = relink ?h1 ix f" "split_upto E ?h1 ?ix0 cs (length ys) ix f" by blast
    have "i = [0..<?n] ! length ys" "length ys < ?n"
      using arg_cong [OF l, of "\<lambda>v. v ! length ys"] arg_cong [OF l, of length] by simp_all
    then have i: "i = length ys" "i < ?n" by simp_all
    have "h_block h \<noteq> h_block ?h1" by simp
    from split_step [OF s(2) [folded i(1)] i(2) this chain [OF i(2)] d b] home [OF i(2)]
    obtain ix' f' where "expand_chain E (h_block h) i (Slot i) (relink ?h1 ix f) = Some (relink ?h1 ix' f')"
      "split_upto E ?h1 ?ix0 cs (Suc i) ix' f'" by blast
    then show "\<exists>s'. expand_chain E (h_block h) i (Slot i) s = Some s'
      \<and> (\<exists>ix f. s' = relink ?h1 ix f \<and> split_upto E ?h1 ?ix0 cs (length (ys @ [i])) ix f)"
      using s(1) i(1) by auto
  qed
  then obtain ix f where moves: "fold_opt (\<lambda>h' i. expand_chain E (h_block h) i (Slot i) h') [0..<?n] ?h1
      = Some (relink ?h1 ix f)" and S: "split_upto E ?h1 ?ix0 cs ?n ix f" by auto
  let ?f = "\<lambda>x. if ?n \<le> x \<and> x < ?n + ?n then (if x = ?n + ?n - 1 then None else Some (?t, x + 1)) else f x"
  have links: "fold_opt (link_free (?n + ?n - 1)) [?n..<?n + ?n] (relink ?h1 ix f) = Some (relink ?h1 ix ?f)"
    by (rule link_free_upto) (use R(2) in simp_all)
  let ?h' = "(relink ?h1 ix ?f)\<lparr>free_list := Some (?t, ?n)\<rparr>"
  let ?cs = "map (stay E ?h1 cs) [0..<?n] @ map (moved E ?h1 cs) [0..<?n]" and ?fr = "[?n..<?n + ?n]"
  have m1: "h_mask h + 1 = slots_for e" "unat (slots_for e) = ?n" using e unat_slots_for by simp_all
  have "expand_hash E h = do {
      h \<leftarrow> fold_opt (\<lambda>h' i. expand_chain E (h_block h) i (Slot i) h') [0..<?n] ?h1;
      h \<leftarrow> fold_opt (link_free (?n + ?n - 1)) [?n..<?n + ?n] h;
      Some (h\<lparr>free_list := Some (h_block h, ?n)\<rparr>) }"
    unfolding expand_hash_def Let_def m1 slots_for_Suc free_storage_def e(5) R(1,2)
    by (simp add: R(1,2))
  then have "expand_hash E h = Some ?h'" unfolding moves by (simp only: links bind.bind_lunit) simp
  moreover have mset: "mset (concat ?cs) = mset (concat cs)" by (rule mset_stay_moved)
  then have sets: "set (concat ?cs) = set (concat cs)" by (rule mset_eq_setD)
  have lt: "x < ?n" if "x \<in> set (concat ?cs)" for x using that R(11) unfolding sets by blast
  have bk: "b_key (buckets ?h' ! x) = b_key (buckets h ! x)" "b_value (buckets ?h' ! x) = b_value (buckets h ! x)"
    if "x < ?n" for x using that R(2) by (simp_all add: relink_def nth_append)
  have nx: "nxt ?h' x = ?f x" if "x < ?n + ?n" for x using that R(2) by (simp add: relink_def)
  have hm: "home E ?h' x = home E ?h1 x" if "x < ?n" for x
    using bk(1) [OF that] old [OF that] by (simp add: home_def slot_def key_hash_def)
  have cmp: "hash_compare E ?h' = hash_compare E h" by (simp add: hash_compare_def fun_eq_iff)
  have lf: "lseg (nxt ?h') ?t p xs None = lseg f ?t p xs None" if "set xs \<subseteq> set (concat cs)" for p xs
  proof (rule lseg_frame)
    fix x assume "x \<in> set xs"
    then have "x < ?n" using that R(11) by blast
    then show "nxt ?h' x = f x" using nx [of x] by simp
  qed
  have parts: "set (stay E ?h1 cs k) \<subseteq> set (concat cs)" "set (moved E ?h1 cs k) \<subseteq> set (concat cs)" if "k < ?n" for k
    using that chain_in_concat [OF that] by (auto simp: stay_def moved_def simp del: set_concat)
  have "hash_rep E ?h' ?cs ?fr"
    unfolding hash_rep_def
  proof (intro conjI allI impI ballI, goal_cases)
    case 1
    show ?case using e e62 by (intro exI [of _ "Suc e"]) simp
  next
    case 2 show ?case using S by (simp add: split_upto_def)
  next
    case 3 show ?case using R(2) by simp
  next
    case (4 k)
    have *: "lseg f ?t (ix ! j) (stay E ?h1 cs j) None" "lseg f ?t (ix ! (j + ?n)) (moved E ?h1 cs j) None"
      if "j < ?n" for j using S that by (simp_all add: split_upto_def)
    show ?case
    proof (cases "k < ?n")
      case True
      then show ?thesis using *(1) [OF True] lf [OF parts(1) [OF True]] by (simp add: nth_append)
    next
      case False
      then have j: "k - ?n < ?n" "k - ?n + ?n = k" using 4 by simp_all
      then show ?thesis using *(2) [OF j(1)] lf [OF parts(2) [OF j(1)]] False by (simp add: nth_append)
    qed
  next
    case 5
    have "lseg (nxt ?h') ?t (Some (?t, ?n)) [?n..<?n + ?n] None"
      by (rule lseg_upt) (use npos nx in simp_all)
    then show ?case by simp
  next
    case 6
    have "distinct (concat ?cs)" using mset d mset_eq_imp_distinct_iff by blast
    moreover have "set (concat ?cs) \<inter> set ?fr = {}" using lt by (force simp del: set_concat concat_append)
    ultimately show ?case unfolding distinct_append by simp
  next
    case 7
    have "set (concat ?cs) = {..<?n}" using R(6) sets by simp
    then have "set (concat ?cs @ ?fr) = {..<?n} \<union> {?n..<?n + ?n}" unfolding set_append by simp
    also have "\<dots> = {..<length ?cs}" by auto
    finally show ?case .
  next
    case (8 k x)
    show ?case
    proof (cases "k < ?n")
      case True
      then have "x \<in> set (stay E ?h1 cs k)" using 8 by (simp add: nth_append)
      moreover have "x < ?n" using calculation parts(1) [OF True] R(11) by blast
      ultimately show ?thesis using hm by (simp add: stay_def)
    next
      case False
      then have j: "k - ?n < ?n" "k - ?n + ?n = k" using 8 by simp_all
      then have x: "x \<in> set (moved E ?h1 cs (k - ?n))" using 8 False by (simp add: nth_append)
      then have "x < ?n" using parts(2) [OF j(1)] R(11) by blast
      then show ?thesis using hm x home [OF j(1), of x] j(2) by (auto simp: moved_def)
    qed
  next
    case (9 x y)
    then have xy: "x \<in> set (concat cs)" "y \<in> set (concat cs)" using sets by blast+
    have "b_key (buckets ?h' ! x) = b_key (buckets h ! x)" "b_key (buckets ?h' ! y) = b_key (buckets h ! y)"
      using bk(1) R(11) xy by blast+
    then show ?case using R(8) [OF xy 9(3)] unfolding cmp by simp
  next
    case 10
    have "length (concat ?cs) = length (concat cs)" using mset by (rule mset_eq_length)
    then show ?case using R(9) by simp
  next
    case (11 x)
    then have "?n \<le> x" "x < ?n + ?n" by simp_all
    then show ?case using new R(2) by (simp add: relink_def empty_bucket_def nth_append)
  qed
  moreover have "same_kind h ?h'" by (simp add: same_kind_def relink_def)
  moreover have "kvs ?h' ?cs = kvs h cs"
    unfolding kvs_def mset
    by (rule image_mset_cong) (use bk R(11) in \<open>simp del: set_concat\<close>)
  moreover have "?fr \<noteq> []" "length ?cs = 2 * ?n" using npos by simp_all
  ultimately show ?thesis by blast
qed

section \<open>Lookup\<close>

abbreviation chain_find :: "hash_env \<Rightarrow> hash \<Rightarrow> nat list list \<Rightarrow> u64 \<Rightarrow> nat option" where
  "chain_find E h cs key \<equiv>
     find (\<lambda>x. hash_compare E h key (b_key (buckets h ! x))) (cs ! slot h (key_hash E h key))"

lemma chain_find_Some:
  assumes rep: "hash_rep E h cs fr" and keys: "keys_ok E h"
  shows "chain_find E h cs key = Some x \<longleftrightarrow>
    x \<in> set (concat cs) \<and> hash_compare E h key (b_key (buckets h ! x))"
proof
  assume "chain_find E h cs key = Some x"
  then have "x \<in> set (cs ! slot h (key_hash E h key))" "hash_compare E h key (b_key (buckets h ! x))"
    by (auto simp: find_Some_iff)
  with chain_in_concat [OF hash_rep_slot [OF rep]]
  show "x \<in> set (concat cs) \<and> hash_compare E h key (b_key (buckets h ! x))" by (intro conjI)
next
  assume x: "x \<in> set (concat cs) \<and> hash_compare E h key (b_key (buckets h ! x))"
  then obtain c where "c \<in> set cs" "x \<in> set c" by auto
  then obtain j where j: "j < length cs" "x \<in> set (cs ! j)" by (metis in_set_conv_nth)
  have "key_hash E h key = key_hash E h (b_key (buckets h ! x))"
    using keys x unfolding keys_ok_def by blast
  then have jx: "j = slot h (key_hash E h key)" using hash_repD(7) [OF rep j] by (simp add: home_def)
  have "chain_find E h cs key \<noteq> None" using j x jx by (auto simp: find_None_iff)
  then obtain y where y: "chain_find E h cs key = Some y" by blast
  then have "y \<in> set (cs ! j)" "hash_compare E h key (b_key (buckets h ! y))"
    using jx by (auto simp: find_Some_iff)
  moreover have "y \<in> set (concat cs)" using calculation(1) j(1) by (rule chain_in_concat [rotated])
  moreover have "hash_compare E h (b_key (buckets h ! x)) (b_key (buckets h ! y))"
    using keys x calculation(2) unfolding keys_ok_def by blast
  ultimately have "x = y" using hash_repD(8) [OF rep, of x y] x by blast
  then show "chain_find E h cs key = Some x" using y by simp
qed

lemma chain_find_None:
  assumes rep: "hash_rep E h cs fr" and keys: "keys_ok E h"
  shows "chain_find E h cs key = None \<longleftrightarrow>
    (\<forall>x \<in> set (concat cs). \<not> hash_compare E h key (b_key (buckets h ! x)))"
  using chain_find_Some [OF assms] by (metis not_Some_eq)

lemma chain_walk:
  assumes rep: "hash_rep E h cs fr"
  shows "\<exists>p. rd (index h) (slot h hv) = Some p \<and>
    find_bucket h m p = Some (map_option (Pair (h_block h)) (find (\<lambda>x. m (b_key (buckets h ! x))) (cs ! slot h hv)))"
proof -
  let ?s = "slot h hv"
  have s: "?s < length cs" by (rule hash_rep_slot [OF rep])
  have "set (cs ! ?s) \<subseteq> {..<length (buckets h)}"
    using hash_repD(2,11) [OF rep] chain_in_concat [OF s] by auto
  from find_bucket_lseg [OF hash_repD(3) [OF rep s] this] show ?thesis
    using s hash_repD(1) [OF rep] by simp
qed

lemma string_find:
  assumes "hash_rep E h cs fr" "keys_ok E h" "key_type h = Hash_key_type_STRING"
  shows "parrot_hash_get_bucket_string E h key (str_hashval E key)
    = Some (map_option (Pair (h_block h)) (chain_find E h cs key))"
proof -
  have "string_match E key (str_hashval E key) = hash_compare E h key" for key
    using assms(2,3) unfolding keys_ok_def by (intro ext) blast
  moreover have "key_hash E h key = str_hashval E key" using assms(3) by (simp add: key_hash_def)
  ultimately show ?thesis
    using chain_walk [OF assms(1), of "str_hashval E key" "hash_compare E h key"]
    by (auto simp: parrot_hash_get_bucket_string_def)
qed

lemma get_bucket_rep:
  assumes "hash_rep E h cs fr" "keys_ok E h"
  shows "Parrot_hash_get_bucket E h key = Some (map_option (Pair (h_block h)) (chain_find E h cs key))"
proof (cases "entries h = 0")
  case True
  then have "concat cs = []" using hash_repD(9) [OF assms(1)] by simp
  then have "chain_find E h cs key = None"
    unfolding chain_find_None [OF assms] by (simp only: list.set ball_empty)
  then show ?thesis using True by (simp add: Parrot_hash_get_bucket_def)
next
  case False
  then show ?thesis
    using string_find [OF assms] chain_walk [OF assms(1), of "key_hash E h key" "hash_compare E h key"]
    by (auto simp: Parrot_hash_get_bucket_def)
qed

lemma get_rep:
  assumes "hash_rep E h cs fr" "keys_ok E h"
  shows "Parrot_hash_get E h key
    = Some (case chain_find E h cs key of None \<Rightarrow> 0 | Some x \<Rightarrow> b_value (buckets h ! x))"
proof (cases "entries h = 0")
  case True
  then have "concat cs = []" using hash_repD(9) [OF assms(1)] by simp
  then have "chain_find E h cs key = None"
    unfolding chain_find_None [OF assms] by (simp only: list.set ball_empty)
  then show ?thesis using True by (simp add: Parrot_hash_get_def)
next
  case False
  have "bucket_at h (h_block h, x) = Some (buckets h ! x)" if "chain_find E h cs key = Some x" for x
    using that hash_repD(2,11) [OF assms(1)] unfolding chain_find_Some [OF assms] by (simp add: bucket_at_def)
  then show ?thesis
    using False string_find [OF assms] get_bucket_rep [OF assms]
    by (auto simp: Parrot_hash_get_def split: option.split)
qed

text \<open>Lookup in terms of the multiset of entries.\<close>

lemma lookup_present:
  assumes "hash_rep E h cs fr" "keys_ok E h" "(k, v) \<in># kvs h cs" "hash_compare E h key k"
  shows "Parrot_hash_get E h key = Some v" "Parrot_hash_exists E h key = Some True"
proof -
  obtain x where "x \<in> set (concat cs)" "k = b_key (buckets h ! x)" "v = b_value (buckets h ! x)"
    using assms(3) by (auto simp: kvs_def)
  then have "chain_find E h cs key = Some x" using assms(4) chain_find_Some [OF assms(1,2)] by blast
  then show "Parrot_hash_get E h key = Some v" "Parrot_hash_exists E h key = Some True"
    using \<open>v = _\<close> by (simp_all add: get_rep [OF assms(1,2)] Parrot_hash_exists_def get_bucket_rep [OF assms(1,2)])
qed

lemma lookup_absent:
  assumes "hash_rep E h cs fr" "keys_ok E h" "\<And>k v. (k, v) \<in># kvs h cs \<Longrightarrow> \<not> hash_compare E h key k"
  shows "Parrot_hash_get E h key = Some 0" "Parrot_hash_exists E h key = Some False"
proof -
  have "\<not> hash_compare E h key (b_key (buckets h ! x))" if "x \<in> set (concat cs)" for x
    using that assms(3) [of "b_key (buckets h ! x)" "b_value (buckets h ! x)"] by (auto simp: kvs_def)
  then have "chain_find E h cs key = None" using chain_find_None [OF assms(1,2)] by blast
  then show "Parrot_hash_get E h key = Some 0" "Parrot_hash_exists E h key = Some False"
    by (simp_all add: get_rep [OF assms(1,2)] Parrot_hash_exists_def get_bucket_rep [OF assms(1,2)])
qed

section \<open>Changing one chain\<close>

lemma mset_concat_update:
  "s < length cs \<Longrightarrow> mset (concat (cs[s := ys])) + mset (cs ! s) = mset (concat cs) + mset ys"
  by (induction cs arbitrary: s) (auto simp: nth_Cons split: nat.split)

lemma hash_rep_update:
  assumes rep: "hash_rep E h cs fr" and s: "s < length cs"
    and same: "h_block h' = h_block h" "h_mask h' = h_mask h" "h_storage h' = h_storage h"
      "length (index h') = length (index h)" "length (buckets h') = length (buckets h)" "same_kind h h'"
    and chain: "lseg (nxt h') (h_block h) (index h' ! s) ys None"
    and others: "\<And>k. k < length cs \<Longrightarrow> k \<noteq> s \<Longrightarrow> index h' ! k = index h ! k"
      "\<And>k x. k < length cs \<Longrightarrow> k \<noteq> s \<Longrightarrow> x \<in> set (cs ! k) \<Longrightarrow>
         nxt h' x = nxt h x \<and> b_key (buckets h' ! x) = b_key (buckets h ! x)"
    and free: "lseg (nxt h') (h_block h) (free_list h') fr' None"
    and mset: "mset ys + mset fr' = mset (cs ! s) + mset fr"
    and home: "\<And>x. x \<in> set ys \<Longrightarrow> home E h' x = s"
    and uniq: "\<And>x y. x \<in> set (concat (cs[s := ys])) \<Longrightarrow> y \<in> set (concat (cs[s := ys])) \<Longrightarrow> x \<noteq> y \<Longrightarrow>
        \<not> hash_compare E h (b_key (buckets h' ! x)) (b_key (buckets h' ! y))"
    and count: "entries h' = length (concat (cs[s := ys]))"
    and zero: "\<And>x. x \<in> set fr' \<Longrightarrow> b_key (buckets h' ! x) = 0"
  shows "hash_rep E h' (cs[s := ys]) fr'"
proof -
  note R = hash_repD [OF rep]
  have all: "mset (concat (cs[s := ys]) @ fr') = mset (concat cs @ fr)"
  proof -
    have "mset (concat (cs[s := ys])) + mset fr' + (mset (cs ! s) + mset fr)
        = (mset (concat (cs[s := ys])) + mset (cs ! s)) + (mset fr' + mset fr)" by (simp only: ac_simps)
    also have "\<dots> = mset (concat cs) + (mset ys + mset fr') + mset fr"
      unfolding mset_concat_update [OF s, of ys] by (simp only: ac_simps)
    also have "\<dots> = mset (concat cs) + mset fr + (mset (cs ! s) + mset fr)"
      unfolding mset by (simp only: ac_simps)
    finally show ?thesis by simp
  qed
  have hm: "home E h' x = home E h x" if "b_key (buckets h' ! x) = b_key (buckets h ! x)" for x
    using that same_kind_fun(1) [OF same(6), of E] same(2) by (simp add: home_def slot_def)
  show ?thesis
    unfolding hash_rep_def
  proof (intro conjI allI impI ballI, goal_cases)
    case 1 show ?case using rep same by (simp add: hash_rep_def)
  next
    case 2 show ?case using R(1) same by simp
  next
    case 3 show ?case using R(2) same by simp
  next
    case (4 k)
    show ?case
    proof (cases "k = s")
      case True
      then show ?thesis using chain s same(1) by simp
    next
      case False
      have k: "k < length cs" using 4 by simp
      have "lseg (nxt h') t p (cs ! k) None = lseg (nxt h) t p (cs ! k) None" for t p
        by (rule lseg_frame) (use others(2) [OF k False] in blast)
      then show ?thesis using R(3) [OF k] others(1) [OF k False] False same(1) by simp
    qed
  next
    case 5 show ?case using free same(1) by simp
  next
    case 6 show ?case using all R(5) mset_eq_imp_distinct_iff by blast
  next
    case 7 show ?case using mset_eq_setD [OF all] R(6) by simp
  next
    case (8 k x)
    show ?case
    proof (cases "k = s")
      case True
      then show ?thesis using home 8 s by simp
    next
      case False
      then have k: "k < length cs" "x \<in> set (cs ! k)" using 8 by simp_all
      then show ?thesis using hm others(2) [OF k(1) False k(2)] R(7) [OF k] by simp
    qed
  next
    case (9 x y) then show ?case using uniq same_kind_fun(2) [OF same(6)] by metis
  next
    case 10 show ?case by (rule count)
  next
    case (11 x) then show ?case by (rule zero)
  qed
qed

section \<open>Storing\<close>

definition put_kvs :: "(u64 \<Rightarrow> bool) \<Rightarrow> u64 \<Rightarrow> u64 \<Rightarrow> (u64 \<times> u64) multiset \<Rightarrow> (u64 \<times> u64) multiset" where
  "put_kvs m key v M =
     (if \<exists>kv \<in># M. m (fst kv)
      then image_mset (\<lambda>kv. if m (fst kv) then (fst kv, v) else kv) M
      else add_mset (key, v) M)"

lemma store_existing:
  assumes rep: "hash_rep E h cs fr" and keys: "keys_ok E h" and x: "chain_find E h cs key = Some x"
  shows "\<exists>h'. parrot_hash_store_value_in_bucket E h (Some (h_block h, x)) hv key v = Some h'
    \<and> hash_rep E h' cs fr \<and> same_kind h h' \<and> kvs h' cs = put_kvs (hash_compare E h key) key v (kvs h cs)"
proof -
  note R = hash_repD [OF rep]
  have xc: "x \<in> set (concat cs)" "hash_compare E h key (b_key (buckets h ! x))"
    using x chain_find_Some [OF rep keys] by blast+
  have xn: "x < length (buckets h)" using R(2) R(11) [OF xc(1)] by simp
  let ?h' = "h\<lparr>buckets := (buckets h)[x := (buckets h ! x)\<lparr>b_value := v\<rparr>]\<rparr>"
  have b: "b_key (buckets ?h' ! y) = b_key (buckets h ! y)" "nxt ?h' y = nxt h y" for y
    using xn by (cases "y = x"; simp)+
  have kind: "same_kind h ?h'" by (simp add: same_kind_def)
  have "hash_rep E ?h' cs fr"
  proof -
    have "lseg (nxt ?h') t p xs None = lseg (nxt h) t p xs None" for t p xs
      by (rule lseg_frame) (rule b(2))
    moreover have "home E ?h' = home E h"
      using b(1) by (simp add: home_def slot_def key_hash_def fun_eq_iff)
    ultimately show ?thesis
      using rep unfolding hash_rep_def same_kind_fun(2) [OF kind] b(1) by simp
  qed
  moreover have "kvs ?h' cs = put_kvs (hash_compare E h key) key v (kvs h cs)"
  proof -
    have eq: "hash_compare E h key (b_key (buckets h ! y)) \<longleftrightarrow> y = x" if "y \<in> set (concat cs)" for y
      using chain_find_Some [OF rep keys, of key y] x that by auto
    have ex: "\<exists>kv \<in># kvs h cs. hash_compare E h key (fst kv)" using xc by (auto simp: kvs_def)
    have "kvs ?h' cs = image_mset (\<lambda>kv. if hash_compare E h key (fst kv) then (fst kv, v) else kv) (kvs h cs)"
      unfolding kvs_def multiset.map_comp
    proof (rule image_mset_cong)
      fix y assume "y \<in># mset (concat cs)"
      then have "hash_compare E h key (b_key (buckets h ! y)) \<longleftrightarrow> y = x" using eq by (simp only: set_mset_mset)
      then show "(b_key (buckets ?h' ! y), b_value (buckets ?h' ! y)) =
          ((\<lambda>kv. if hash_compare E h key (fst kv) then (fst kv, v) else kv) \<circ>
           (\<lambda>x. (b_key (buckets h ! x), b_value (buckets h ! x)))) y"
        using xn by (cases "y = x") simp_all
    qed
    then show ?thesis using ex by (simp add: put_kvs_def)
  qed
  moreover have "parrot_hash_store_value_in_bucket E h (Some (h_block h, x)) hv key v = Some ?h'"
    using xn by (simp add: parrot_hash_store_value_in_bucket_def bucket_at_def put_bucket_def)
  ultimately show ?thesis using kind by blast
qed

lemma store_free:
  assumes rep: "hash_rep E h cs fr" and free: "free_list h \<noteq> None"
    and new: "\<And>y. y \<in> set (concat cs) \<Longrightarrow> \<not> hash_compare E h key (b_key (buckets h ! y))"
    and sym: "keys_ok E h" and hv: "hv = key_hash E h key"
  shows "\<exists>h' cs' fr'. parrot_hash_store_value_in_bucket E h None hv key v = Some h'
    \<and> hash_rep E h' cs' fr' \<and> same_kind h h' \<and> kvs h' cs' = add_mset (key, v) (kvs h cs)
    \<and> length cs' = length cs"
proof -
  note R = hash_repD [OF rep]
  obtain x fr' where fr: "fr = x # fr'" using R(4) free by (cases fr) auto
  then have fx: "free_list h = Some (h_block h, x)" "lseg (nxt h) (h_block h) (nxt h x) fr' None"
    using R(4) by simp_all
  let ?s = "slot h hv"
  have s: "?s < length cs" by (rule hash_rep_slot [OF rep])
  have xn: "x < length (buckets h)" using R(2) R(12) [of x] fr by simp
  have d: "x \<notin> set (concat cs)" "x \<notin> set fr'" using R(5) fr by auto
  let ?b = "\<lparr>b_next = index h ! ?s, b_key = key, b_value = v\<rparr>"
  let ?h' = "h\<lparr>entries := entries h + 1, free_list := nxt h x, buckets := (buckets h)[x := ?b],
               index := (index h)[?s := Some (h_block h, x)]\<rparr>"
  have store: "parrot_hash_store_value_in_bucket E h None hv key v = Some ?h'"
    using fx(1) xn s R(1)
    by (simp add: parrot_hash_store_value_in_bucket_def bucket_at_def put_bucket_def set_index_def slot_def)
  have kind: "same_kind h ?h'" by (simp add: same_kind_def)
  have b: "buckets ?h' ! y = (if y = x then ?b else buckets h ! y)" for y using xn by simp
  have xin: "x \<notin> set (cs ! k)" if "k < length cs" for k using d(1) chain_in_concat [OF that] by blast
  have lf: "lseg (nxt ?h') t p xs None = lseg (nxt h) t p xs None" if "x \<notin> set xs" for t p xs
    by (rule lseg_frame) (use b that in auto)
  let ?cs = "cs[?s := x # cs ! ?s]"
  have cc: "mset (concat ?cs) = add_mset x (mset (concat cs))"
    using mset_concat_update [OF s, of "x # cs ! ?s"] by simp
  have keys: "b_key (buckets ?h' ! y) = b_key (buckets h ! y)" if "y \<in> set (concat cs)" for y
    using b that d(1) by metis
  have kx: "b_key (buckets ?h' ! x) = key" using b by simp
  have "hash_rep E ?h' ?cs fr'"
  proof (rule hash_rep_update [OF rep s])
    show "lseg (nxt ?h') (h_block h) (index ?h' ! ?s) (x # cs ! ?s) None"
      using lf [OF xin [OF s]] R(3) [OF s] s R(1) xn by simp
    show "lseg (nxt ?h') (h_block h) (free_list ?h') fr' None" using lf [OF d(2)] fx(2) by simp
    show "entries ?h' = length (concat ?cs)"
      using mset_eq_length [of "concat ?cs" "x # concat cs"] cc R(9) by simp
    show "home E ?h' y = ?s" if "y \<in> set (x # cs ! ?s)" for y
    proof (cases "y = x")
      case True
      then show ?thesis using kx hv same_kind_fun(1) [OF kind] by (simp add: home_def slot_def)
    next
      case False
      then have y: "y \<in> set (cs ! ?s)" using that by simp
      then have "home E ?h' y = home E h y"
        using keys chain_in_concat [OF s y] same_kind_fun(1) [OF kind, of E] by (simp add: home_def slot_def del: set_concat)
      then show ?thesis using R(7) [OF s y] by simp
    qed
    show "\<not> hash_compare E h (b_key (buckets ?h' ! y)) (b_key (buckets ?h' ! z))"
      if "y \<in> set (concat ?cs)" "z \<in> set (concat ?cs)" "y \<noteq> z" for y z
    proof -
      have "set (concat ?cs) = insert x (set (concat cs))" using mset_eq_setD [of "concat ?cs" "x # concat cs"] cc by simp
      then have yz: "y = x \<or> y \<in> set (concat cs)" "z = x \<or> z \<in> set (concat cs)" using that by blast+
      have sy: "hash_compare E h c key \<Longrightarrow> hash_compare E h key c" for c using sym unfolding keys_ok_def by blast
      show ?thesis
      proof (cases "y = x")
        case True
        then have "z \<in> set (concat cs)" using yz that(3) by blast
        then show ?thesis using keys kx new True by metis
      next
        case False
        then have y: "y \<in> set (concat cs)" using yz by blast
        show ?thesis
        proof (cases "z = x")
          case True
          then show ?thesis using keys [OF y] kx new [OF y] sy by metis
        next
          case False
          then have "z \<in> set (concat cs)" using yz by blast
          then show ?thesis using R(8) [OF y _ that(3)] keys y by metis
        qed
      qed
    qed
    show "nxt ?h' y = nxt h y \<and> b_key (buckets ?h' ! y) = b_key (buckets h ! y)"
      if "k < length cs" "k \<noteq> ?s" "y \<in> set (cs ! k)" for k y
      using that xin [OF that(1)] b by auto
    show "b_key (buckets ?h' ! y) = 0" if "y \<in> set fr'" for y
      using b [of y] that d(2) R(10) [of y] fr by auto
  qed (use kind fr R(1) in simp_all)
  moreover have "kvs ?h' ?cs = add_mset (key, v) (kvs h cs)"
  proof -
    have "image_mset (\<lambda>y. (b_key (buckets ?h' ! y), b_value (buckets ?h' ! y))) (mset (concat cs)) = kvs h cs"
      unfolding kvs_def by (rule image_mset_cong) (use b d(1) in \<open>auto simp del: set_concat\<close>)
    then show ?thesis unfolding kvs_def cc using xn by simp
  qed
  ultimately show ?thesis using store kind by (intro exI [of _ ?h'] exI [of _ ?cs] exI [of _ fr']) simp
qed

lemma store_new:
  assumes rep: "hash_rep E h cs fr" and small: "length (concat cs) < 2 ^ 62"
    and new: "\<And>k w. (k, w) \<in># kvs h cs \<Longrightarrow> \<not> hash_compare E h key k"
    and sym: "keys_ok E h" and hv: "hv = key_hash E h key"
  shows "\<exists>h' cs' fr'. parrot_hash_store_value_in_bucket E h None hv key v = Some h'
    \<and> hash_rep E h' cs' fr' \<and> same_kind h h' \<and> kvs h' cs' = add_mset (key, v) (kvs h cs)"
proof -
  have new': "\<not> hash_compare E g key (b_key (buckets g ! y))"
    if "y \<in> set (concat ds)" "kvs g ds = kvs h cs" "same_kind h g" for g ds y
  proof -
    have "(b_key (buckets g ! y), b_value (buckets g ! y)) \<in># kvs g ds" using that(1) by (auto simp: kvs_def)
    then show ?thesis using new that(2) same_kind_fun(2) [OF that(3)] by simp
  qed
  show ?thesis
  proof (cases "free_list h = None")
    case False
    then show ?thesis using store_free [OF rep False new' sym hv, where v = v] by fastforce
  next
    case True
    then have fr: "fr = []" using hash_repD(4) [OF rep] by (cases fr) simp_all
    have "card (set (concat cs)) = length (concat cs)" 
      by (rule distinct_card) (use hash_repD(5) [OF rep] in simp)
    then have "length cs < 2 ^ 62" using hash_repD(6) [OF rep] small fr by (simp del: set_concat)
    from expand_hash_rep [OF rep [unfolded fr] this] obtain g ds gr where g:
      "expand_hash E h = Some g" "hash_rep E g ds gr" "gr \<noteq> []" "same_kind h g"
      "kvs g ds = kvs h cs" "length ds = 2 * length cs" by blast
    have fl: "free_list g \<noteq> None" using hash_repD(4) [OF g(2)] g(3) by (cases gr) auto
    have "parrot_hash_store_value_in_bucket E h None hv key v = parrot_hash_store_value_in_bucket E g None hv key v"
      using True fl g(1) by (cases "free_list g") (simp_all add: parrot_hash_store_value_in_bucket_def)
    moreover have "keys_ok E g" "hv = key_hash E g key" using sym hv same_kind_fun [OF g(4), of E] by simp_all
    from store_free [OF g(2) fl new' [OF _ g(5,4)] this, where v = v] obtain h' cs' fr' where
      "parrot_hash_store_value_in_bucket E g None hv key v = Some h'" "hash_rep E h' cs' fr'"
      "same_kind g h'" "kvs h' cs' = add_mset (key, v) (kvs g ds)" "length cs' = length ds" by blast
    ultimately show ?thesis using g(4-6) same_kind_trans by fastforce
  qed
qed

section \<open>Putting\<close>

text \<open>A fresh table: no memory yet.\<close>

definition hash_blank :: "hash \<Rightarrow> bool" where
  "hash_blank h \<longleftrightarrow> buckets h = [] \<and> entries h = 0 \<and> free_list h = None"

lemma grow_size_2: "grow_size 2 2 = Some 2"
  by (subst grow_size.simps) simp

lemma allocate_relink:
  assumes "n = length (buckets h)"
  shows "fold_opt push_free (rev [0..<n]) (h\<lparr>free_list := None\<rparr>)
    = Some ((relink h (index h) (\<lambda>x. if x < n - 1 then Some (h_block h, x + 1) else None))
              \<lparr>free_list := if n = 0 then None else Some (h_block h, 0)\<rparr>)" (is "_ = Some (?r (\<lambda>x. ?g x))")
proof -
  let ?f = "\<lambda>m x. if m \<le> x \<and> x < n - 1 then Some (h_block h, x + 1) else if m \<le> x \<and> x < n then None else nxt h x"
  let ?st = "\<lambda>m. (relink h (index h) (?f m))\<lparr>free_list := if m < n then Some (h_block h, m) else None\<rparr>"
  have step: "push_free (?st (Suc m)) m = Some (?st m)" if "m < n" for m
  proof -
    have eq: "(?f (Suc m))(m := if Suc m < n then Some (h_block h, Suc m) else None) = ?f m"
      using that by (auto simp: fun_eq_iff)
    have "push_free (?st (Suc m)) m
        = Some ((relink h (index h) ((?f (Suc m))(m := if Suc m < n then Some (h_block h, Suc m) else None)))
            \<lparr>free_list := Some (h_block h, m)\<rparr>)"
    proof -
      let ?g = "?f (Suc m)" and ?fl = "if Suc m < n then Some (h_block h, Suc m) else None"
      have m: "m < length (buckets h)" using that assms by simp
      have at: "bucket_at (r\<lparr>free_list := q\<rparr>) p = bucket_at r p"
        "put_bucket (r\<lparr>free_list := q\<rparr>) p b = map_option (\<lambda>r. r\<lparr>free_list := q\<rparr>) (put_bucket r p b)" for r :: hash and p q b
        by (simp_all add: bucket_at_def put_bucket_def wr_def)
      show ?thesis
        unfolding push_free_def at using m by (simp add: at del: fun_upd_apply)
    qed
    also have "\<dots> = Some (?st m)" unfolding eq using that by simp
    finally show ?thesis .
  qed
  have "fold_opt push_free (rev [m..<n]) (?st n) = Some (?st m)" if "m \<le> n" for m
    using that
  proof (induction m rule: inc_induct)
    case base
    show ?case by simp
  next
    case (step k)
    have "rev [k..<n] = rev [Suc k..<n] @ [k]" using step.hyps(2) by (simp add: upt_conv_Cons)
    then show ?case using step(3) step.hyps(2) \<open>\<And>m. m < n \<Longrightarrow> push_free (?st (Suc m)) m = Some (?st m)\<close> by simp
  qed
  from this [of 0] have "fold_opt push_free (rev [0..<n]) (?st n) = Some (?st 0)" by simp
  moreover have "?st n = h\<lparr>free_list := None\<rparr>"
  proof -
    have "relink h (index h) (?f n) = relink h (index h) (nxt h)"
      using assms by (simp add: relink_def)
    then show ?thesis by (simp add: relink_id)
  qed
  moreover have "relink h (index h) (?f 0) = relink h (index h) (\<lambda>x. if x < n - 1 then Some (h_block h, x + 1) else None)"
    using assms by (simp add: relink_def)
  ultimately show ?thesis by simp
qed

lemma allocate_buckets_rep:
  assumes blank: "entries h = 0" "free_list h = None" and grow: "grow_size sz INITIAL_SIZE = Some (slots_for e)"
    and e: "0 < e" "e < 64"
  shows "\<exists>h' cs fr. allocate_buckets h sz = Some h' \<and> hash_rep E h' cs fr \<and> same_kind h h'
    \<and> kvs h' cs = {#} \<and> length cs = 2 ^ e"
proof -
  let ?n = "2 ^ e :: nat"
  let ?h = "h\<lparr>h_block := h_block h + 1, h_storage := storage_for (slots_for e),
      buckets := replicate ?n empty_bucket, index := replicate ?n None, h_mask := slots_for e - 1\<rparr>"
  let ?g = "\<lambda>x. if x < ?n - 1 then Some (h_block ?h, x + 1) else None"
  let ?h' = "(relink ?h (index ?h) ?g)\<lparr>free_list := Some (h_block ?h, 0)\<rparr>"
  have n: "unat (slots_for e) = ?n" using unat_slots_for e(2) by blast
  have "?h\<lparr>free_list := None\<rparr> = ?h" using blank(2) by simp
  then have "allocate_buckets h sz = fold_opt push_free (rev [0..<?n]) (?h\<lparr>free_list := None\<rparr>)"
    by (simp add: allocate_buckets_def grow n Let_def)
  also have "\<dots> = Some ?h'" using allocate_relink [of ?n ?h] by simp
  finally have "allocate_buckets h sz = Some ?h'" .
  moreover have "hash_rep E ?h' (replicate ?n []) [0..<?n]"
    unfolding hash_rep_def
  proof (intro conjI allI impI ballI, goal_cases)
    case 1 show ?case using e by (intro exI [of _ e]) simp
  next
    case 5
    have "lseg ?g (h_block ?h) (Some (h_block ?h, 0)) [0..<?n] None"
    proof (rule lseg_upt)
      fix x assume "x < ?n"
      then have "x < ?n - 1 \<longleftrightarrow> x \<noteq> ?n - 1" by linarith
      then show "?g x = (if x = ?n - 1 then None else Some (h_block ?h, x + 1))" by simp
    qed simp
    moreover have "lseg (nxt ?h') t p [0..<?n] None = lseg ?g t p [0..<?n] None" for t p
      by (rule lseg_frame) (simp add: relink_def)
    ultimately show ?case by simp
  next
    case (11 x) then show ?case by (simp add: relink_def empty_bucket_def)
  qed (use blank(1) in \<open>auto simp: concat_replicate_trivial\<close>)
  moreover have "same_kind h ?h'" by (simp add: same_kind_def)
  ultimately show ?thesis by (intro exI [of _ ?h'] exI [of _ "replicate ?n []"] exI [of _ "[0..<?n]"])
      (simp add: kvs_def concat_replicate_trivial)
qed

lemma put_rep:
  assumes rep: "hash_rep E h cs fr" and keys: "keys_ok E h" and small: "size (kvs h cs) < 2 ^ 62"
  shows "\<exists>h' r cs' fr'. Parrot_hash_put E h key v = Some (h', r) \<and> hash_rep E h' cs' fr' \<and> same_kind h h'
    \<and> kvs h' cs' = put_kvs (hash_compare E h key) key v (kvs h cs)"
proof -
  let ?b = "map_option (Pair (h_block h)) (chain_find E h cs key)" and ?hv = "key_hash E h key"
  have "0 < length cs" using rep by (auto simp: hash_rep_def)
  then have ne: "buckets h \<noteq> []" using hash_repD(2) [OF rep] by auto
  have hv: "key_type h = Hash_key_type_STRING \<Longrightarrow> str_hashval E key = ?hv" by (simp add: key_hash_def)
  have put: "Parrot_hash_put E h key v
      = map_option (\<lambda>h'. (h', ?b)) (parrot_hash_store_value_in_bucket E h ?b ?hv key v)"
  proof (cases "key_type h = Hash_key_type_STRING")
    case True
    then show ?thesis
      using ne string_find [OF rep keys True, of key] hv
      by (simp add: Parrot_hash_put_def Let_def) (auto split: Option.bind_split option.split)
  next
    case False
    obtain p where p: "rd (index h) (slot h ?hv) = Some p" "find_bucket h (hash_compare E h key) p = Some ?b"
      using chain_walk [OF rep, of ?hv "hash_compare E h key"] by blast
    then show ?thesis
      using ne False by (simp add: Parrot_hash_put_def Let_def) (auto split: Option.bind_split option.split)
  qed
  show ?thesis
  proof (cases "chain_find E h cs key")
    case (Some x)
    then show ?thesis using store_existing [OF rep keys Some, of ?hv v] put by fastforce
  next
    case None
    then have new: "\<not> hash_compare E h key k" if "(k, w) \<in># kvs h cs" for k w
      using that chain_find_None [OF rep keys, of key] by (auto simp: kvs_def)
    have "put_kvs (hash_compare E h key) key v (kvs h cs) = add_mset (key, v) (kvs h cs)"
      using new by (auto simp: put_kvs_def)
    then show ?thesis
      using store_new [OF rep _ new keys refl, where v = v] small put None by (fastforce simp: kvs_def)
  qed
qed

lemma slots_for_1: "slots_for (Suc 0) = 2"
  by (simp add: slots_for_def)

lemma put_blank:
  assumes "hash_blank h" "keys_ok E h"
  shows "\<exists>h' cs' fr'. Parrot_hash_put E h key v = Some (h', None) \<and> hash_rep E h' cs' fr' \<and> same_kind h h'
    \<and> kvs h' cs' = {#(key, v)#}"
proof -
  have "grow_size INITIAL_SIZE INITIAL_SIZE = Some (slots_for (Suc 0))"
    by (simp add: INITIAL_SIZE_def grow_size_2 slots_for_1)
  then obtain g ds gr where g: "allocate_buckets h INITIAL_SIZE = Some g" "hash_rep E g ds gr"
      "same_kind h g" "kvs g ds = {#}" "length ds = 2"
    using allocate_buckets_rep [of h INITIAL_SIZE "Suc 0" E] assms(1) by (auto simp: hash_blank_def)
  have "keys_ok E g" using assms(2) same_kind_fun(3) [OF g(3)] by simp
  then obtain h' cs' fr' where h': "parrot_hash_store_value_in_bucket E g None (key_hash E g key) key v = Some h'"
      "hash_rep E h' cs' fr'" "same_kind g h'" "kvs h' cs' = add_mset (key, v) {#}"
  proof -
    have "length (concat ds) = 0" using arg_cong [OF g(4), of size] by (simp add: kvs_def)
    then have "length (concat ds) < 2 ^ 62" by (simp del: length_0_conv)
    from store_new [OF g(2) this _ \<open>keys_ok E g\<close> refl, of key v] g(4) show ?thesis using that by auto
  qed
  have "Parrot_hash_put E h key v = Some (h', None)"
    using assms(1) g(1) h'(1) by (simp add: Parrot_hash_put_def hash_blank_def)
  then show ?thesis using h' g(3,5) same_kind_trans by fastforce
qed

section \<open>Deleting\<close>

lemma lseg_unlink:
  assumes "lseg f t p (us @ w # x # vs) q" "distinct (us @ w # x # vs)"
  shows "lseg (f(w := f x)) t p (us @ w # vs) q"
  using assms by (induction us arbitrary: p) auto

definition unlink_at :: "hash \<Rightarrow> bucket_loc \<Rightarrow> bucket_ptr \<Rightarrow> hash option" where
  "unlink_at h prev current =
     do {
       b \<leftarrow> bucket_at h current;
       h \<leftarrow> wr_loc h prev (b_next b);
       h \<leftarrow> Some (h\<lparr>entries := entries h - 1\<rparr>);
       b \<leftarrow> bucket_at h current;
       h \<leftarrow> put_bucket h current (b\<lparr>b_next := free_list h, b_key := 0\<rparr>);
       Some (h\<lparr>free_list := Some current\<rparr>)
     }"

text \<open>The walk unlinks the first match, from the index entry or from its predecessor.\<close>

lemma delete_step:
  assumes "rd_loc h prev = Some (Some (h_block h, x))" "x < length (buckets h)"
  shows "delete_from E h key prev =
    (if hash_compare E h key (b_key (buckets h ! x)) then unlink_at h prev (h_block h, x)
     else delete_from E h key (Next (h_block h, x)))"
proof -
  have b: "bucket_at h (h_block h, x) = Some (buckets h ! x)" using assms(2) by (simp add: bucket_at_def)
  show ?thesis using assms(1) b by (subst delete_from.simps) (simp add: unlink_at_def)
qed

lemma delete_from_find:
  assumes "rd_loc h prev = Some p" "lseg (nxt h) (h_block h) p zs None" "set zs \<subseteq> {..<length (buckets h)}"
  shows "delete_from E h key prev =
    (case find (\<lambda>x. hash_compare E h key (b_key (buckets h ! x))) zs of
       None \<Rightarrow> Some h
     | Some x \<Rightarrow> let us = takeWhile (\<lambda>x. \<not> hash_compare E h key (b_key (buckets h ! x))) zs
                in unlink_at h (if us = [] then prev else Next (h_block h, last us)) (h_block h, x))"
  using assms
proof (induction zs arbitrary: p prev)
  case Nil
  then show ?case by (subst delete_from.simps) simp
next
  case (Cons x zs)
  have p: "p = Some (h_block h, x)" "lseg (nxt h) (h_block h) (nxt h x) zs None" "x < length (buckets h)"
    using Cons.prems by simp_all
  have step: "delete_from E h key prev =
    (if hash_compare E h key (b_key (buckets h ! x)) then unlink_at h prev (h_block h, x)
     else delete_from E h key (Next (h_block h, x)))"
    by (rule delete_step) (use Cons.prems(1) p in simp_all)
  show ?case
  proof (cases "hash_compare E h key (b_key (buckets h ! x))")
    case True
    then show ?thesis using step by simp
  next
    case False
    have "rd_loc h (Next (h_block h, x)) = Some (nxt h x)" using p(3) by (simp add: bucket_at_def)
    from Cons.IH [OF this p(2)] Cons.prems(3) False step show ?thesis
      by (auto split: option.split simp: Let_def)
  qed
qed

lemma unlink_rep:
  assumes rep: "hash_rep E h cs fr" and s: "s < length cs" and c: "cs ! s = us @ x # vs"
  shows "\<exists>h'. unlink_at h (if us = [] then Slot s else Next (h_block h, last us)) (h_block h, x) = Some h'
    \<and> hash_rep E h' (cs[s := us @ vs]) (x # fr) \<and> same_kind h h'
    \<and> kvs h' (cs[s := us @ vs]) = kvs h (cs[s := us @ vs])
    \<and> set (concat (cs[s := us @ vs])) \<subseteq> set (concat cs) - {x}"
proof -
  note R = hash_repD [OF rep]
  let ?t = "h_block h" and ?n = "length (buckets h)"
  let ?prev = "if us = [] then Slot s else Next (?t, last us)"
  define ix where "ix = (if us = [] then (index h)[s := nxt h x] else index h)"
  define f where "f = (if us = [] then nxt h else (nxt h)(last us := nxt h x))"
  have xs: "x \<in> set (cs ! s)" "x \<in> set (concat cs)" using c chain_in_concat [OF s, of x] by simp_all
  then have xn: "x < ?n" using R(2,11) by simp
  have dist: "distinct (cs ! s)" using R(5) s distinct_concat_iff nth_mem by (metis distinct_append)
  have lu: "us \<noteq> [] \<Longrightarrow> last us < ?n \<and> last us \<noteq> x \<and> last us \<in> set (cs ! s)"
  proof -
    assume ne: "us \<noteq> []"
    then have "last us \<in> set us" by simp
    then have "last us \<in> set (cs ! s)" "last us \<noteq> x" using c dist by auto
    then show ?thesis using R(2) R(11) [OF chain_in_concat [OF s]] by simp
  qed
  have fx: "f x = nxt h x" using lu unfolding f_def by auto
  let ?bs = "(buckets (relink h ix f))[x := (buckets h ! x)\<lparr>b_next := free_list h, b_key := 0\<rparr>]"
  let ?h' = "(relink h ix f)\<lparr>entries := entries h - 1, buckets := ?bs, free_list := Some (?t, x)\<rparr>"
  have unl: "unlink_at h ?prev (?t, x) = Some ?h'"
  proof -
    have "bucket_at h (?t, x) = Some (buckets h ! x)" using xn by (simp add: bucket_at_def)
    moreover have "wr_loc h ?prev (nxt h x) = Some (relink h ix f)"
      using loc_relink(3,4) [where h = h and ix = "index h" and f = "nxt h" and q = "nxt h x"] s R(1) lu
      unfolding relink_id ix_def f_def by simp
    ultimately show ?thesis using xn fx
      by (simp add: unlink_at_def bucket_at_def put_bucket_def relink_bucket)
  qed
  have b: "b_value (buckets ?h' ! y) = b_value (buckets h ! y)"
      "b_key (buckets ?h' ! y) = (if y = x then 0 else b_key (buckets h ! y))"
      "nxt ?h' y = (if y = x then free_list h else f y)" if "y < ?n" for y
    using that xn by (simp_all add: nth_list_update relink_bucket)
  have kind: "same_kind h ?h'" by (simp add: same_kind_def)
  let ?cs = "cs[s := us @ vs]"
  have cc: "add_mset x (mset (concat ?cs)) = mset (concat cs)"
    using mset_concat_update [OF s, of "us @ vs"] c by simp
  have ms: "mset (x # concat ?cs) = mset (concat cs)" using cc by simp
  then have "distinct (x # concat ?cs)" using R(5) mset_eq_imp_distinct_iff by (metis distinct_append)
  then have sub: "set (concat ?cs) \<subseteq> set (concat cs) - {x}" using mset_eq_setD [OF ms] by auto
  have n: "y < ?n" if "y \<in> set (concat cs)" for y using R(2,11) that by simp
  have kx: "b_key (buckets ?h' ! y) = b_key (buckets h ! y)" if "y \<in> set (concat ?cs)" for y
  proof -
    have "y \<in> set (concat cs)" "y \<noteq> x" using sub that by blast+
    then show ?thesis using b(2) [OF n [OF \<open>y \<in> set (concat cs)\<close>]] by (simp only: if_False)
  qed
  have cs_s: "set (us @ vs) \<subseteq> set (concat ?cs)" using s chain_in_concat [of s ?cs] by (auto simp del: set_concat)
  have "hash_rep E ?h' ?cs (x # fr)"
  proof (rule hash_rep_update [OF rep s])
    show "lseg (nxt ?h') ?t (index ?h' ! s) (us @ vs) None"
    proof -
      have "lseg (nxt h) ?t (index h ! s) (us @ x # vs) None" using R(3) [OF s] c by simp
      then have "lseg f ?t (ix ! s) (us @ vs) None"
      proof (cases us rule: rev_cases)
        case Nil
        then show ?thesis using \<open>lseg (nxt h) ?t (index h ! s) (us @ x # vs) None\<close> s R(1)
          by (simp add: ix_def f_def)
      next
        case (snoc ws w)
        then show ?thesis
          using lseg_unlink [of "nxt h" ?t "index h ! s" ws w x vs None] dist c
            \<open>lseg (nxt h) ?t (index h ! s) (us @ x # vs) None\<close> by (simp add: ix_def f_def)
      qed
      moreover have "lseg (nxt ?h') ?t p (us @ vs) None = lseg f ?t p (us @ vs) None" for p
      proof (rule lseg_frame)
        fix y assume "y \<in> set (us @ vs)"
        then have "y \<in> set (concat cs)" "y \<noteq> x" using cs_s sub by blast+
        then show "nxt ?h' y = f y" using b(3) [OF n [OF \<open>y \<in> set (concat cs)\<close>]] by (simp only: if_False)
      qed
      ultimately show ?thesis by simp
    qed
    show "index ?h' ! k = index h ! k" if "k < length cs" "k \<noteq> s" for k using that by (simp add: ix_def)
    show "nxt ?h' y = nxt h y \<and> b_key (buckets ?h' ! y) = b_key (buckets h ! y)"
      if "k < length cs" "k \<noteq> s" "y \<in> set (cs ! k)" for k y
    proof -
      have "y \<notin> set (cs ! s)" using distinct_concat_nth(1) [of cs k s] R(5) that s by auto
      then have "y \<noteq> x" "us \<noteq> [] \<Longrightarrow> y \<noteq> last us" using xs lu by auto
      moreover have "y < ?n" using n chain_in_concat [OF that(1,3)] .
      ultimately show ?thesis using b [of y] by (auto simp: f_def)
    qed
    show "lseg (nxt ?h') ?t (free_list ?h') (x # fr) None"
    proof -
      have y: "y \<notin> set (cs ! s)" "y < ?n" if "y \<in> set fr" for y
        using R(2,5,12) that chain_in_concat [OF s, of y] by auto
      have "lseg (nxt ?h') ?t p fr None = lseg (nxt h) ?t p fr None" for p
      proof (rule lseg_frame)
        fix z assume z: "z \<in> set fr"
        have "z \<noteq> x" "us \<noteq> [] \<Longrightarrow> z \<noteq> last us" using y(1) [OF z] xs(1) lu by auto
        then show "nxt ?h' z = nxt h z" using b(3) [OF y(2) [OF z]] by (simp add: f_def)
      qed
      then show ?thesis using R(4) b(3) [OF xn] by simp
    qed
    show "home E ?h' y = s" if "y \<in> set (us @ vs)" for y
    proof -
      have "b_key (buckets ?h' ! y) = b_key (buckets h ! y)" using kx that cs_s by blast
      moreover have "y \<in> set (cs ! s)" using that c by auto
      ultimately show ?thesis
        using R(7) [OF s, of y] same_kind_fun(1) [OF kind, of E] by (simp add: home_def slot_def)
    qed
    show "\<not> hash_compare E h (b_key (buckets ?h' ! y)) (b_key (buckets ?h' ! z))"
      if "y \<in> set (concat ?cs)" "z \<in> set (concat ?cs)" "y \<noteq> z" for y z
      using R(8) [of y z] that kx sub by (simp only:) blast
    show "entries ?h' = length (concat ?cs)"
      using arg_cong [OF cc, of size] R(9) by (simp del: mset_concat)
    show "b_key (buckets ?h' ! y) = 0" if "y \<in> set (x # fr)" for y
      using that b(2) [of y] R(2,10,12) xn by auto
  qed (use kind c R(1) in \<open>simp_all add: ix_def\<close>)
  moreover have "kvs ?h' ?cs = kvs h ?cs"
    unfolding kvs_def by (rule image_mset_cong) (use kx b(1) n sub in \<open>simp only: set_mset_mset; blast\<close>)
  ultimately show ?thesis using unl kind sub by (intro exI [of _ ?h'] conjI)
qed

lemma dropWhile_find:
  "find P xs = Some x \<Longrightarrow> dropWhile (\<lambda>x. \<not> P x) xs = x # tl (dropWhile (\<lambda>x. \<not> P x) xs)"
  by (induction xs) (auto split: if_splits)

lemma delete_rep:
  assumes rep: "hash_rep E h cs fr" and keys: "keys_ok E h"
  shows "\<exists>h' cs' fr'. Parrot_hash_delete E h key = Some h' \<and> hash_rep E h' cs' fr' \<and> same_kind h h'
    \<and> kvs h' cs' = filter_mset (\<lambda>kv. \<not> hash_compare E h key (fst kv)) (kvs h cs) \<and> length cs' = length cs"
proof -
  let ?s = "slot h (key_hash E h key)" and ?m = "\<lambda>x. hash_compare E h key (b_key (buckets h ! x))"
  have s: "?s < length cs" by (rule hash_rep_slot [OF rep])
  have "buckets h \<noteq> []" using hash_repD(2) [OF rep] s by auto
  moreover have "set (cs ! ?s) \<subseteq> {..<length (buckets h)}"
    using hash_repD(2,11) [OF rep] chain_in_concat [OF s] by auto
  moreover have "rd_loc h (Slot ?s) = Some (index h ! ?s)" using s hash_repD(1) [OF rep] by simp
  ultimately have del: "Parrot_hash_delete E h key =
     (case chain_find E h cs key of None \<Rightarrow> Some h
      | Some x \<Rightarrow> let us = takeWhile (\<lambda>x. \<not> ?m x) (cs ! ?s)
                in unlink_at h (if us = [] then Slot ?s else Next (h_block h, last us)) (h_block h, x))"
    using delete_from_find [OF _ hash_repD(3) [OF rep s]] by (simp add: Parrot_hash_delete_def)
  show ?thesis
  proof (cases "chain_find E h cs key")
    case None
    then have "\<forall>kv \<in># kvs h cs. \<not> hash_compare E h key (fst kv)"
      using chain_find_None [OF rep keys, of key] by (auto simp: kvs_def)
    then have "filter_mset (\<lambda>kv. \<not> hash_compare E h key (fst kv)) (kvs h cs) = kvs h cs"
      by (simp add: filter_mset_eq_conv)
    then show ?thesis using del None rep by fastforce
  next
    case (Some x)
    let ?us = "takeWhile (\<lambda>x. \<not> ?m x) (cs ! ?s)"
    have x: "?m x" "x \<in> set (concat cs)" using Some chain_find_Some [OF rep keys] by blast+
    have "find ?m (cs ! ?s) = Some x" by (rule Some)
    then have "dropWhile (\<lambda>x. \<not> ?m x) (cs ! ?s) = x # tl (dropWhile (\<lambda>x. \<not> ?m x) (cs ! ?s))"
      by (rule dropWhile_find)
    then obtain vs where c: "cs ! ?s = ?us @ x # vs" by (metis takeWhile_dropWhile_id)
    let ?cs = "cs[?s := ?us @ vs]"
    from unlink_rep [OF rep s c] obtain h' where h':
      "unlink_at h (if ?us = [] then Slot ?s else Next (h_block h, last ?us)) (h_block h, x) = Some h'"
      "hash_rep E h' ?cs (x # fr)" "same_kind h h'" "kvs h' ?cs = kvs h ?cs"
      "set (concat ?cs) \<subseteq> set (concat cs) - {x}" by blast
    have "\<not> ?m y" if "y \<in> set (concat ?cs)" for y
    proof
      assume "?m y"
      moreover have "y \<in> set (concat cs)" "y \<noteq> x" using that h'(5) by blast+
      ultimately have "chain_find E h cs key = Some y" using chain_find_Some [OF rep keys] by blast
      then show False using Some \<open>y \<noteq> x\<close> by simp
    qed
    then have "\<forall>kv \<in># kvs h ?cs. \<not> hash_compare E h key (fst kv)"
      unfolding kvs_def set_image_mset set_mset_mset by (simp del: set_concat)
    then have "filter_mset (\<lambda>kv. \<not> hash_compare E h key (fst kv)) (kvs h ?cs) = kvs h ?cs"
      by (simp add: filter_mset_eq_conv)
    moreover have "kvs h cs = add_mset (b_key (buckets h ! x), b_value (buckets h ! x)) (kvs h ?cs)"
    proof -
      have "mset (concat cs) = add_mset x (mset (concat ?cs))"
        using mset_concat_update [OF s, of "?us @ vs"] arg_cong [OF c, of mset] by simp
      then show ?thesis by (simp add: kvs_def)
    qed
    ultimately have "kvs h' ?cs = filter_mset (\<lambda>kv. \<not> hash_compare E h key (fst kv)) (kvs h cs)"
      using h'(4) x(1) by simp
    moreover have "Parrot_hash_delete E h key = Some h'" using del Some h'(1) by (simp add: Let_def)
    ultimately show ?thesis using h'(2,3) by fastforce
  qed
qed

end
