(* ===== verification/Parrot_Hash_Iter.thy ===== *)
theory Parrot_Hash_Iter
  imports Parrot_Hash_Rep
begin

text \<open>
  Going through a hash table, \<open>src/hash.c\<close>: the two iteration macros, marking for the
  garbage collector, freezing and thawing, cloning.  The code run for a bucket never
  changes the table it comes from, so an iteration is the list of its buckets.
\<close>

section \<open>Iteration\<close>

text \<open>
  \<open>parrot_hash_iterate_linear\<close> scans the bucket store until it has found as many used
  buckets as there are entries; a bucket is used when its key is not \<open>NULL\<close>.  Reading
  behind the store is \<open>None\<close>.
\<close>

fun iterate_linear_from :: "nat \<Rightarrow> hash_bucket list \<Rightarrow> hash_bucket list option" where
  "iterate_linear_from 0 bs = Some []"
| "iterate_linear_from (Suc n) [] = None"
| "iterate_linear_from (Suc n) (b # bs) =
     (if b_key b \<noteq> 0 then map_option ((#) b) (iterate_linear_from n bs)
      else iterate_linear_from (Suc n) bs)"

definition parrot_hash_iterate_linear :: "hash \<Rightarrow> hash_bucket list option" where
  "parrot_hash_iterate_linear h = iterate_linear_from (entries h) (buckets h)"

partial_function (option) chain_buckets :: "hash \<Rightarrow> bucket_ptr option \<Rightarrow> hash_bucket list option" where
  "chain_buckets h bucket =
     (case bucket of
        None \<Rightarrow> Some []
      | Some p \<Rightarrow> do {
          b \<leftarrow> bucket_at h p;
          bs \<leftarrow> chain_buckets h (b_next b);
          Some (b # bs)
        })"

declare chain_buckets.simps [code]

definition iterate_slot :: "hash \<Rightarrow> nat \<Rightarrow> hash_bucket list option" where
  "iterate_slot h loc = do { p \<leftarrow> rd (index h) loc; chain_buckets h p }"

definition parrot_hash_iterate_indexed :: "hash \<Rightarrow> hash_bucket list option" where
  "parrot_hash_iterate_indexed h =
     (if entries h \<noteq> 0
      then map_option concat (those (map (iterate_slot h) [0..<unat (h_mask h) + 1]))
      else Some [])"

definition parrot_hash_iterate :: "hash \<Rightarrow> hash_bucket list option" where
  "parrot_hash_iterate h =
     (if key_type h = Hash_key_type_int \<or> key_type h = Hash_key_type_cstring
         \<or> key_type h = Hash_key_type_ptr
      then parrot_hash_iterate_indexed h
      else parrot_hash_iterate_linear h)"

section \<open>Marking\<close>

datatype gc_mark = Mark_STRING u64 | Mark_PMC u64 | Mark_PObj u64

definition mark_alive :: "(u64 \<Rightarrow> gc_mark) \<Rightarrow> u64 \<Rightarrow> gc_mark option" where
  "mark_alive m p = do { c_assert (p \<noteq> 0); Some (m p) }"

definition parrot_mark_hash_keys :: "hash \<Rightarrow> gc_mark list option" where
  "parrot_mark_hash_keys h =
     do {
       bs \<leftarrow> parrot_hash_iterate h;
       if key_type h = Hash_key_type_STRING \<or> key_type h = Hash_key_type_STRING_enc
       then those (map (\<lambda>b. mark_alive Mark_STRING (b_key b)) bs)
       else those (map (\<lambda>b. mark_alive Mark_PMC (b_key b)) bs)
     }"

definition parrot_mark_hash_values :: "hash \<Rightarrow> gc_mark list option" where
  "parrot_mark_hash_values h =
     (if entry_type h = enum_type_STRING
      then do { bs \<leftarrow> parrot_hash_iterate h; those (map (\<lambda>b. mark_alive Mark_STRING (b_value b)) bs) }
      else if entry_type h = enum_type_PMC
      then do { bs \<leftarrow> parrot_hash_iterate h; those (map (\<lambda>b. mark_alive Mark_PMC (b_value b)) bs) }
      else Some [])"

definition mark_two :: "(u64 \<Rightarrow> gc_mark) \<Rightarrow> (u64 \<Rightarrow> gc_mark) \<Rightarrow> hash_bucket \<Rightarrow> gc_mark list option" where
  "mark_two mk mv b =
     do { k \<leftarrow> mark_alive mk (b_key b); v \<leftarrow> mark_alive mv (b_value b); Some [k, v] }"

definition parrot_mark_hash_both :: "hash \<Rightarrow> gc_mark list option" where
  "parrot_mark_hash_both h =
     do {
       bs \<leftarrow> parrot_hash_iterate h;
       if (key_type h = Hash_key_type_STRING \<or> key_type h = Hash_key_type_STRING_enc)
          \<and> entry_type h = enum_type_PMC
       then map_option concat (those (map (mark_two Mark_STRING Mark_PMC) bs))
       else map_option concat (those (map (mark_two Mark_PObj Mark_PObj) bs))
     }"

definition Parrot_hash_mark :: "hash \<Rightarrow> gc_mark list option" where
  "Parrot_hash_mark h =
     (if buckets h = [] then Some []
      else (let mark_value = entry_type h = enum_type_STRING \<or> entry_type h = enum_type_PMC;
                mark_key = key_type h = Hash_key_type_STRING \<or> key_type h = Hash_key_type_STRING_enc
                  \<or> key_type h = Hash_key_type_PMC \<or> key_type h = Hash_key_type_PMC_ptr
            in if mark_key
               then (if mark_value then parrot_mark_hash_both h else parrot_mark_hash_keys h)
               else (if mark_value then parrot_mark_hash_values h else Some [])))"

section \<open>Freezing and thawing\<close>

text \<open>
  The visit info is a PMC, and what is pushed on it or shifted from it goes through its
  vtable: the functions of the class are arguments, on a state of the image.  The classes
  the system has for this are modelled in \<open>Image_IO\<close>.  Enumerations are pushed as integers.
\<close>

record 'w image_push =
  push_integer :: "'w \<Rightarrow> u64 \<Rightarrow> 'w outcome"
  push_string :: "'w \<Rightarrow> u64 \<Rightarrow> 'w outcome"
  push_pmc :: "'w \<Rightarrow> u64 \<Rightarrow> 'w outcome"

record 'r image_shift =
  shift_integer :: "'r \<Rightarrow> (u64 \<times> 'r) outcome"
  shift_string :: "'r \<Rightarrow> (u64 \<times> 'r) outcome"
  shift_pmc :: "'r \<Rightarrow> (u64 \<times> 'r) outcome"

fun key_type_code :: "hash_key_type \<Rightarrow> u64" where
  "key_type_code Hash_key_type_int = 0"
| "key_type_code Hash_key_type_cstring = 1"
| "key_type_code Hash_key_type_STRING = 2"
| "key_type_code Hash_key_type_PMC = 3"
| "key_type_code Hash_key_type_ptr = 4"
| "key_type_code Hash_key_type_PMC_ptr = 5"
| "key_type_code Hash_key_type_STRING_enc = 6"

fun data_type_code :: "parrot_data_type \<Rightarrow> u64" where
  "data_type_code enum_type_undef = 0"
| "data_type_code enum_type_INTVAL = 1"
| "data_type_code enum_type_FLOATVAL = 2"
| "data_type_code enum_type_STRING = 3"
| "data_type_code enum_type_PMC = 4"
| "data_type_code enum_type_ptr = 29"

definition freeze_key :: "'w image_push \<Rightarrow> hash_key_type \<Rightarrow> 'w \<Rightarrow> u64 \<Rightarrow> 'w outcome" where
  "freeze_key V kt info key =
     (case kt of
        Hash_key_type_int \<Rightarrow> push_integer V info key
      | Hash_key_type_STRING \<Rightarrow> push_string V info key
      | Hash_key_type_STRING_enc \<Rightarrow> push_string V info key
      | Hash_key_type_PMC \<Rightarrow> push_pmc V info key
      | Hash_key_type_PMC_ptr \<Rightarrow> push_pmc V info key
      | _ \<Rightarrow> Thrown ''unimplemented key type'')"

definition freeze_value :: "'w image_push \<Rightarrow> parrot_data_type \<Rightarrow> 'w \<Rightarrow> u64 \<Rightarrow> 'w outcome" where
  "freeze_value V et info v =
     (case et of
        enum_type_INTVAL \<Rightarrow> push_integer V info v
      | enum_type_STRING \<Rightarrow> push_string V info v
      | enum_type_PMC \<Rightarrow> push_pmc V info v
      | _ \<Rightarrow> Thrown ''unimplemented value type'')"

definition freeze_bucket :: "'w image_push \<Rightarrow> hash \<Rightarrow> 'w \<Rightarrow> hash_bucket \<Rightarrow> 'w outcome" where
  "freeze_bucket V h info b =
     obind (freeze_key V (key_type h) info (b_key b)) (\<lambda>info. freeze_value V (entry_type h) info (b_value b))"

definition Parrot_hash_freeze :: "'w image_push \<Rightarrow> hash \<Rightarrow> 'w \<Rightarrow> 'w outcome" where
  "Parrot_hash_freeze V h info =
     obind (push_integer V info (word_of_nat (entries h))) (\<lambda>info.
     obind (push_integer V info (key_type_code (key_type h))) (\<lambda>info.
     obind (push_integer V info (data_type_code (entry_type h))) (\<lambda>info.
     obind (defined (parrot_hash_iterate h)) (\<lambda>bs.
     ofold (freeze_bucket V h) bs info))))"

definition thaw_key :: "'r image_shift \<Rightarrow> hash_key_type \<Rightarrow> 'r \<Rightarrow> (u64 \<times> 'r) outcome" where
  "thaw_key V kt info =
     (case kt of
        Hash_key_type_int \<Rightarrow> shift_integer V info
      | Hash_key_type_STRING \<Rightarrow> shift_string V info
      | Hash_key_type_STRING_enc \<Rightarrow> shift_string V info
      | Hash_key_type_PMC \<Rightarrow> shift_pmc V info
      | Hash_key_type_PMC_ptr \<Rightarrow> shift_pmc V info
      | _ \<Rightarrow> Thrown ''unimplemented key type'')"

definition thaw_value :: "'r image_shift \<Rightarrow> parrot_data_type \<Rightarrow> 'r \<Rightarrow> (u64 \<times> 'r) outcome" where
  "thaw_value V et info =
     (case et of
        enum_type_INTVAL \<Rightarrow> shift_integer V info
      | enum_type_STRING \<Rightarrow> shift_string V info
      | enum_type_PMC \<Rightarrow> shift_pmc V info
      | _ \<Rightarrow> Thrown ''unimplemented value type'')"

text \<open>One round of the special loop for string keys and integer values, and of the general one.\<close>

definition thaw_fast :: "'r image_shift \<Rightarrow> hash_env \<Rightarrow> hash \<times> 'r \<Rightarrow> nat \<Rightarrow> (hash \<times> 'r) outcome" where
  "thaw_fast V E st j =
     (case st of (h, info) \<Rightarrow>
        obind (shift_string V info) (\<lambda>(key, info).
        obind (shift_integer V info) (\<lambda>(i, info).
        obind (defined (parrot_hash_store_value_in_bucket E h None (str_hashval E key) key i)) (\<lambda>h.
        Done (h, info)))))"

definition thaw_entry :: "'r image_shift \<Rightarrow> hash_env \<Rightarrow> hash_key_type \<Rightarrow> parrot_data_type
    \<Rightarrow> hash \<times> 'r \<Rightarrow> nat \<Rightarrow> (hash \<times> 'r) outcome" where
  "thaw_entry V E kt et st j =
     (case st of (h, info) \<Rightarrow>
        obind (thaw_key V kt info) (\<lambda>(key, info).
        obind (thaw_value V et info) (\<lambda>(v, info).
        obind (defined (Parrot_hash_put E h key v)) (\<lambda>(h, _). Done (h, info)))))"

definition find_key_type :: "u64 \<Rightarrow> hash_key_type option" where
  "find_key_type c = find (\<lambda>k. key_type_code k = c)
     [Hash_key_type_int, Hash_key_type_cstring, Hash_key_type_STRING, Hash_key_type_PMC,
      Hash_key_type_ptr, Hash_key_type_PMC_ptr, Hash_key_type_STRING_enc]"

definition find_data_type :: "u64 \<Rightarrow> parrot_data_type option" where
  "find_data_type c = find (\<lambda>k. data_type_code k = c)
     [enum_type_undef, enum_type_INTVAL, enum_type_FLOATVAL, enum_type_STRING, enum_type_PMC, enum_type_ptr]"

definition Parrot_hash_thaw :: "'r image_shift \<Rightarrow> hash_env \<Rightarrow> u64 \<Rightarrow> 'r \<Rightarrow> (hash \<times> 'r) outcome" where
  "Parrot_hash_thaw V E hash_seed info =
     obind (shift_integer V info) (\<lambda>(num_entries, info).
     obind (shift_integer V info) (\<lambda>(kc, info).
     obind (shift_integer V info) (\<lambda>(ec, info).
     obind (defined (find_key_type kc)) (\<lambda>kt.
     obind (defined (find_data_type ec)) (\<lambda>et.
     obind (defined (Parrot_hash_create_sized hash_seed et kt num_entries)) (\<lambda>h.
     if kt = Hash_key_type_STRING \<and> et = enum_type_INTVAL
     then ofold (thaw_fast V E) [0..<unat num_entries] (h, info)
     else ofold (thaw_entry V E kt et) [0..<unat num_entries] (h, info)))))))"

section \<open>Cloning\<close>

text \<open>The collector's \<open>PMCNULL\<close> and \<open>VTABLE_clone\<close> are parameters.\<close>

definition clone_value :: "u64 \<Rightarrow> (u64 \<Rightarrow> u64) \<Rightarrow> bool \<Rightarrow> parrot_data_type \<Rightarrow> u64 \<Rightarrow> u64 outcome" where
  "clone_value pmcnull vtable_clone deep et v =
     (case et of
        enum_type_STRING \<Rightarrow> Done v
      | enum_type_PMC \<Rightarrow>
          Done (if v = pmcnull \<or> v = 0 then pmcnull else if deep then vtable_clone v else v)
      | enum_type_undef \<Rightarrow> Done v
      | enum_type_ptr \<Rightarrow> Done v
      | enum_type_INTVAL \<Rightarrow> Done v
      | _ \<Rightarrow> Thrown ''hash corruption'')"

definition clone_bucket ::
  "hash_env \<Rightarrow> u64 \<Rightarrow> (u64 \<Rightarrow> u64) \<Rightarrow> bool \<Rightarrow> parrot_data_type \<Rightarrow> hash \<Rightarrow> hash_bucket \<Rightarrow> hash outcome" where
  "clone_bucket E pmcnull vtable_clone deep et dest b =
     obind (clone_value pmcnull vtable_clone deep et (b_value b)) (\<lambda>valtmp.
       if b_key b \<noteq> 0
       then defined (parrot_hash_store_value_in_bucket E dest None (key_hash E dest (b_key b)) (b_key b) valtmp)
       else Done dest)"

definition free_buckets :: "hash \<Rightarrow> unit option" where
  "free_buckets h =
     (if buckets h \<noteq> []
      then (if h_mask h + 1 > SPLIT_POINT then free_storage h Memory_chunk
            else free_storage h (Fixed_size (HASH_ALLOC_SIZE (unat (h_mask h + 1)))))
      else Some ())"

definition Parrot_hash_clone_prunable ::
  "hash_env \<Rightarrow> u64 \<Rightarrow> (u64 \<Rightarrow> u64) \<Rightarrow> hash \<Rightarrow> hash \<Rightarrow> bool \<Rightarrow> hash outcome" where
  "Parrot_hash_clone_prunable E pmcnull vtable_clone h dest deep =
     obind (defined (free_buckets dest)) (\<lambda>_.
     obind (defined (allocate_buckets dest (h_mask h))) (\<lambda>dest.
     obind (defined (parrot_hash_iterate h)) (\<lambda>bs.
     ofold (clone_bucket E pmcnull vtable_clone deep (entry_type h)) bs dest)))"

definition Parrot_hash_clone ::
  "hash_env \<Rightarrow> u64 \<Rightarrow> (u64 \<Rightarrow> u64) \<Rightarrow> hash \<Rightarrow> hash \<Rightarrow> hash outcome" where
  "Parrot_hash_clone E pmcnull vtable_clone h dest =
     Parrot_hash_clone_prunable E pmcnull vtable_clone h dest True"

section \<open>Updating from another table\<close>

text \<open>
  The conversions of keys and values between tables of different types are
  parameters here; the component of the conversions models them.
\<close>

definition update_entry ::
  "hash_env \<Rightarrow> (u64 \<Rightarrow> u64 outcome) \<Rightarrow> (u64 \<Rightarrow> u64 outcome) \<Rightarrow> hash \<Rightarrow> hash_bucket \<Rightarrow> hash outcome" where
  "update_entry E conv_key conv_value h b =
     obind (conv_key (b_key b)) (\<lambda>key.
     obind (conv_value (b_value b)) (\<lambda>v.
     obind (defined (Parrot_hash_put E h key v)) (\<lambda>(h, _). Done h)))"

definition Parrot_hash_update_with ::
  "hash_env \<Rightarrow> (u64 \<Rightarrow> u64 outcome) \<Rightarrow> (u64 \<Rightarrow> u64 outcome) \<Rightarrow> hash \<Rightarrow> hash \<Rightarrow> hash outcome" where
  "Parrot_hash_update_with E conv_key conv_value h other =
     (if entries other = 0 then Done h
      else if key_type h = key_type other \<and> entry_type h = entry_type other
      then
        obind (if entries h = 0
               then obind (defined (free_buckets h)) (\<lambda>_. defined (allocate_buckets h (h_mask other)))
               else Done h) (\<lambda>h.
        obind (defined (parrot_hash_iterate other)) (\<lambda>bs.
        ofold (update_entry E Done Done) bs h))
      else
        obind (defined (parrot_hash_iterate other)) (\<lambda>bs.
        ofold (update_entry E (if key_type h \<noteq> key_type other then conv_key else Done)
                              (if entry_type h \<noteq> entry_type other then conv_value else Done)) bs h))"

end
