(* ===== verification/Parrot_Hash_Convert.thy ===== *)
theory Parrot_Hash_Convert
  imports Parrot_Hash_Iter
begin

text \<open>
  Conversions between the stored \<open>void *\<close> keys and values of a hash table and
  integers, strings, PMCs and numbers, at the end of \<open>src/hash.c\<close>, and
  \<open>Parrot_hash_update\<close>, which uses them.  Strings and PMCs are addresses, numbers their
  bit patterns; the string and PMC functions the code calls are the fields of
  \<open>conv_env\<close>.
\<close>

datatype key_flag = KEY_integer_FLAG | KEY_string_FLAG | KEY_pmc_FLAG | KEY_other_FLAG

record conv_env = hash_env +
  PMCNULL :: u64
  STRINGNULL :: u64
  Parrot_str_to_int :: "u64 \<Rightarrow> u64"
  Parrot_str_from_int :: "u64 \<Rightarrow> u64"
  Parrot_str_to_num :: "u64 \<Rightarrow> u64"
  Parrot_str_from_num :: "u64 \<Rightarrow> u64"
  VTABLE_get_integer :: "u64 \<Rightarrow> u64"
  VTABLE_get_string :: "u64 \<Rightarrow> u64"
  VTABLE_get_number :: "u64 \<Rightarrow> u64"
  Parrot_pmc_box_integer :: "u64 \<Rightarrow> u64"
  Parrot_pmc_box_string :: "u64 \<Rightarrow> u64"
  Parrot_pmc_box_number :: "u64 \<Rightarrow> u64"
  num_to_int :: "u64 \<Rightarrow> u64"
  int_to_num :: "u64 \<Rightarrow> u64"
  is_Key :: "u64 \<Rightarrow> bool"
  Parrot_key_type :: "u64 \<Rightarrow> key_flag"
  Parrot_key_integer :: "u64 \<Rightarrow> u64"
  Parrot_key_string :: "u64 \<Rightarrow> u64"
  Parrot_key_pmc :: "u64 \<Rightarrow> u64"

definition PMC_IS_NULL :: "conv_env \<Rightarrow> u64 \<Rightarrow> bool" where
  "PMC_IS_NULL C p \<longleftrightarrow> p = PMCNULL C \<or> p = 0"

definition STRING_IS_NULL :: "conv_env \<Rightarrow> u64 \<Rightarrow> bool" where
  "STRING_IS_NULL C s \<longleftrightarrow> s = STRINGNULL C \<or> s = 0"

section \<open>Keys\<close>

definition Parrot_hash_key_from_int :: "conv_env \<Rightarrow> hash \<Rightarrow> u64 \<Rightarrow> u64 outcome" where
  "Parrot_hash_key_from_int C h key =
     (case key_type h of
        Hash_key_type_int \<Rightarrow> Done key
      | Hash_key_type_PMC \<Rightarrow> Done (Parrot_pmc_box_integer C key)
      | Hash_key_type_PMC_ptr \<Rightarrow> Done (Parrot_pmc_box_integer C key)
      | Hash_key_type_STRING \<Rightarrow> Done (Parrot_str_from_int C key)
      | Hash_key_type_STRING_enc \<Rightarrow> Done (Parrot_str_from_int C key)
      | _ \<Rightarrow> Thrown ''Hash: unsupported key_type'')"

definition Parrot_hash_key_from_string :: "conv_env \<Rightarrow> hash \<Rightarrow> u64 \<Rightarrow> u64 outcome" where
  "Parrot_hash_key_from_string C h key =
     (case key_type h of
        Hash_key_type_int \<Rightarrow> Done (Parrot_str_to_int C key)
      | Hash_key_type_PMC \<Rightarrow> Done (Parrot_pmc_box_string C key)
      | Hash_key_type_PMC_ptr \<Rightarrow> Done (Parrot_pmc_box_string C key)
      | Hash_key_type_STRING \<Rightarrow> Done key
      | Hash_key_type_STRING_enc \<Rightarrow> Done key
      | _ \<Rightarrow> Thrown ''Hash: unsupported key_type'')"

definition unbox_key :: "conv_env \<Rightarrow> u64 \<Rightarrow> u64 outcome" where
  "unbox_key C key =
     (if is_Key C key
      then (case Parrot_key_type C key of
              KEY_integer_FLAG \<Rightarrow> Done (Parrot_pmc_box_integer C (Parrot_key_integer C key))
            | KEY_string_FLAG \<Rightarrow> Done (Parrot_pmc_box_string C (Parrot_key_string C key))
            | KEY_pmc_FLAG \<Rightarrow> Done (Parrot_key_pmc C key)
            | _ \<Rightarrow> Thrown ''hash: unexpected type of Key'')
      else Done key)"

definition pmc_key_string :: "conv_env \<Rightarrow> u64 \<Rightarrow> u64 outcome" where
  "pmc_key_string C key =
     (let tmp = VTABLE_get_string C key
      in if STRING_IS_NULL C tmp then Thrown ''hash: can't use null as key'' else Done tmp)"

definition Parrot_hash_key_from_pmc :: "conv_env \<Rightarrow> hash \<Rightarrow> u64 \<Rightarrow> u64 outcome" where
  "Parrot_hash_key_from_pmc C h key =
     (case key_type h of
        Hash_key_type_int \<Rightarrow> Done (VTABLE_get_integer C key)
      | Hash_key_type_PMC \<Rightarrow> unbox_key C key
      | Hash_key_type_PMC_ptr \<Rightarrow> unbox_key C key
      | Hash_key_type_STRING \<Rightarrow> pmc_key_string C key
      | Hash_key_type_STRING_enc \<Rightarrow> pmc_key_string C key
      | _ \<Rightarrow> Thrown ''Hash: unsupported key_type'')"

definition Parrot_hash_key_to_int :: "conv_env \<Rightarrow> hash \<Rightarrow> u64 \<Rightarrow> u64 outcome" where
  "Parrot_hash_key_to_int C h key =
     (case key_type h of
        Hash_key_type_int \<Rightarrow> Done key
      | Hash_key_type_PMC \<Rightarrow> Done (VTABLE_get_integer C key)
      | Hash_key_type_PMC_ptr \<Rightarrow> Done (VTABLE_get_integer C key)
      | Hash_key_type_STRING \<Rightarrow> Done (Parrot_str_to_int C key)
      | Hash_key_type_STRING_enc \<Rightarrow> Done (Parrot_str_to_int C key)
      | _ \<Rightarrow> Thrown ''Hash: unsupported key_type'')"

definition Parrot_hash_key_to_string :: "conv_env \<Rightarrow> hash \<Rightarrow> u64 \<Rightarrow> u64 outcome" where
  "Parrot_hash_key_to_string C h key =
     (case key_type h of
        Hash_key_type_int \<Rightarrow> Done (Parrot_str_from_int C key)
      | Hash_key_type_PMC \<Rightarrow> Done (VTABLE_get_string C key)
      | Hash_key_type_PMC_ptr \<Rightarrow> Done (VTABLE_get_string C key)
      | Hash_key_type_STRING \<Rightarrow> Done key
      | Hash_key_type_STRING_enc \<Rightarrow> Done key
      | _ \<Rightarrow> Thrown ''Hash: unsupported key_type'')"

definition Parrot_hash_key_to_pmc :: "conv_env \<Rightarrow> hash \<Rightarrow> u64 \<Rightarrow> u64 outcome" where
  "Parrot_hash_key_to_pmc C h key =
     (case key_type h of
        Hash_key_type_int \<Rightarrow> Done (Parrot_pmc_box_integer C key)
      | Hash_key_type_PMC \<Rightarrow> Done key
      | Hash_key_type_PMC_ptr \<Rightarrow> Done key
      | Hash_key_type_STRING \<Rightarrow> Done (Parrot_pmc_box_string C key)
      | Hash_key_type_STRING_enc \<Rightarrow> Done (Parrot_pmc_box_string C key)
      | _ \<Rightarrow> Thrown ''Hash: unsupported key_type'')"

section \<open>Values\<close>

definition Parrot_hash_value_from_int :: "conv_env \<Rightarrow> hash \<Rightarrow> u64 \<Rightarrow> u64 outcome" where
  "Parrot_hash_value_from_int C h v =
     (case entry_type h of
        enum_type_INTVAL \<Rightarrow> Done v
      | enum_type_PMC \<Rightarrow> Done (Parrot_pmc_box_integer C v)
      | enum_type_STRING \<Rightarrow> Done (Parrot_str_from_int C v)
      | _ \<Rightarrow> Thrown ''Hash: unsupported entry_type'')"

definition Parrot_hash_value_from_string :: "conv_env \<Rightarrow> hash \<Rightarrow> u64 \<Rightarrow> u64 outcome" where
  "Parrot_hash_value_from_string C h v =
     (case entry_type h of
        enum_type_INTVAL \<Rightarrow> Done (if STRING_IS_NULL C v then 0 else Parrot_str_to_int C v)
      | enum_type_STRING \<Rightarrow> Done v
      | enum_type_PMC \<Rightarrow> Done (if STRING_IS_NULL C v then PMCNULL C else Parrot_pmc_box_string C v)
      | _ \<Rightarrow> Thrown ''Hash: unsupported entry_type'')"

definition Parrot_hash_value_from_pmc :: "conv_env \<Rightarrow> hash \<Rightarrow> u64 \<Rightarrow> u64 outcome" where
  "Parrot_hash_value_from_pmc C h v =
     (case entry_type h of
        enum_type_INTVAL \<Rightarrow> Done (if PMC_IS_NULL C v then 0 else VTABLE_get_integer C v)
      | enum_type_STRING \<Rightarrow> Done (if PMC_IS_NULL C v then PMCNULL C else VTABLE_get_string C v)
      | enum_type_PMC \<Rightarrow> Done v
      | _ \<Rightarrow> Thrown ''Hash: unsupported entry_type'')"

definition Parrot_hash_value_from_number :: "conv_env \<Rightarrow> hash \<Rightarrow> u64 \<Rightarrow> u64 outcome" where
  "Parrot_hash_value_from_number C h v =
     (case entry_type h of
        enum_type_INTVAL \<Rightarrow> Done (num_to_int C v)
      | enum_type_STRING \<Rightarrow> Done (Parrot_str_from_num C v)
      | enum_type_PMC \<Rightarrow> Done (Parrot_pmc_box_number C v)
      | _ \<Rightarrow> Thrown ''Hash: unsupported entry_type'')"

definition Parrot_hash_value_to_int :: "conv_env \<Rightarrow> hash \<Rightarrow> u64 \<Rightarrow> u64 outcome" where
  "Parrot_hash_value_to_int C h v =
     (case entry_type h of
        enum_type_ptr \<Rightarrow> Done v
      | enum_type_INTVAL \<Rightarrow> Done v
      | enum_type_STRING \<Rightarrow> Done (Parrot_str_to_int C v)
      | enum_type_PMC \<Rightarrow> Done (VTABLE_get_integer C v)
      | _ \<Rightarrow> Thrown ''Hash: unsupported entry_type'')"

definition Parrot_hash_value_to_string :: "conv_env \<Rightarrow> hash \<Rightarrow> u64 \<Rightarrow> u64 outcome" where
  "Parrot_hash_value_to_string C h v =
     (case entry_type h of
        enum_type_INTVAL \<Rightarrow> Done (Parrot_str_from_int C v)
      | enum_type_STRING \<Rightarrow> Done v
      | enum_type_PMC \<Rightarrow> Done (VTABLE_get_string C v)
      | _ \<Rightarrow> Thrown ''Hash: unsupported entry_type'')"

definition Parrot_hash_value_to_pmc :: "conv_env \<Rightarrow> hash \<Rightarrow> u64 \<Rightarrow> u64 outcome" where
  "Parrot_hash_value_to_pmc C h v =
     (case entry_type h of
        enum_type_INTVAL \<Rightarrow> Done (Parrot_pmc_box_integer C v)
      | enum_type_STRING \<Rightarrow> Done (Parrot_pmc_box_string C v)
      | enum_type_PMC \<Rightarrow> Done v
      | _ \<Rightarrow> Thrown ''Hash: unsupported entry_type'')"

definition Parrot_hash_value_to_number :: "conv_env \<Rightarrow> hash \<Rightarrow> u64 \<Rightarrow> u64 outcome" where
  "Parrot_hash_value_to_number C h v =
     (case entry_type h of
        enum_type_INTVAL \<Rightarrow> Done (int_to_num C v)
      | enum_type_STRING \<Rightarrow> Done (Parrot_str_to_num C v)
      | enum_type_PMC \<Rightarrow> Done (VTABLE_get_number C v)
      | _ \<Rightarrow> Thrown ''Hash: unsupported entry_type'')"

section \<open>Update\<close>

text \<open>
  The conversions of a bucket of \<open>other\<close> to the types of \<open>hash\<close>, chosen by the types
  of \<open>hash\<close>.
\<close>

definition update_key :: "conv_env \<Rightarrow> hash_key_type \<Rightarrow> hash \<Rightarrow> u64 \<Rightarrow> u64 outcome" where
  "update_key C kt other key =
     (case kt of
        Hash_key_type_int \<Rightarrow> Parrot_hash_key_to_int C other key
      | Hash_key_type_STRING \<Rightarrow> Parrot_hash_key_to_string C other key
      | Hash_key_type_STRING_enc \<Rightarrow> Parrot_hash_key_to_string C other key
      | Hash_key_type_PMC \<Rightarrow> Parrot_hash_key_to_pmc C other key
      | Hash_key_type_PMC_ptr \<Rightarrow> Parrot_hash_key_to_pmc C other key
      | _ \<Rightarrow> Thrown ''unimplemented key type'')"

definition update_value :: "conv_env \<Rightarrow> parrot_data_type \<Rightarrow> hash \<Rightarrow> u64 \<Rightarrow> u64 outcome" where
  "update_value C et other v =
     (case et of
        enum_type_INTVAL \<Rightarrow> Parrot_hash_value_to_int C other v
      | enum_type_STRING \<Rightarrow> Parrot_hash_value_to_string C other v
      | enum_type_PMC \<Rightarrow> Parrot_hash_value_to_pmc C other v
      | _ \<Rightarrow> Thrown ''unimplemented value type'')"

definition Parrot_hash_update :: "conv_env \<Rightarrow> hash \<Rightarrow> hash \<Rightarrow> hash outcome" where
  "Parrot_hash_update C h other =
     Parrot_hash_update_with (hash_env.truncate C)
       (update_key C (key_type h) other) (update_value C (entry_type h) other) h other"

end
