(* ===== verification/Parrot_Hash_Props.thy ===== *)
theory Parrot_Hash_Props
  imports Parrot_Hash_Convert
begin

text \<open>
  The contract of the hash tables.  A table holds the multiset of its entries; what
  each operation does to it, and what lookup returns, is stated over that multiset.
  The locales \<open>fresh_store\<close> and \<open>dictionary\<close> are what the bulk operations (update,
  thaw, clone) need of storing and putting.
\<close>

section \<open>Iteration visits the entries\<close>

lemma chain_buckets_lseg:
  assumes "lseg (nxt h) (h_block h) p xs None" "set xs \<subseteq> {..<length (buckets h)}"
  shows "chain_buckets h p = Some (map ((!) (buckets h)) xs)"
  using assms
proof (induction xs arbitrary: p)
  case Nil
  then show ?case by (subst chain_buckets.simps) simp
next
  case (Cons x xs)
  then show ?case by (subst chain_buckets.simps) (simp add: bucket_at_def)
qed

lemma rep_mask:
  assumes "hash_rep E h cs fr"
  shows "unat (h_mask h) + 1 = length cs" "unat (h_mask h + 1) = length cs" "h_storage h = storage_for (h_mask h + 1)"
proof -
  obtain e where e: "0 < e" "e < 64" "length cs = 2 ^ e" "h_mask h = slots_for e - 1"
      "h_storage h = storage_for (slots_for e)"
    using assms by (auto simp: hash_rep_def)
  have u: "unat (slots_for e) = 2 ^ e" by (rule unat_slots_for [OF e(2)])
  then have "slots_for e \<noteq> 0" by auto
  then have "unat (slots_for e - 1) = 2 ^ e - 1" using u by (simp add: unat_minus_one)
  then show "unat (h_mask h) + 1 = length cs" using e(3,4) by simp
  show "unat (h_mask h + 1) = length cs" "h_storage h = storage_for (h_mask h + 1)" using e u by simp_all
qed

lemma concat_map_nth: "concat (map (\<lambda>k. map f (cs ! k)) [0..<length cs]) = map f (concat cs)"
proof -
  have "map (\<lambda>k. map f (cs ! k)) [0..<length cs] = map (map f) cs"
    by (rule nth_equalityI) simp_all
  then show ?thesis by (simp add: map_concat)
qed

lemma indexed_rep:
  assumes rep: "hash_rep E h cs fr"
  shows "parrot_hash_iterate_indexed h = Some (map ((!) (buckets h)) (concat cs))"
proof (cases "entries h = 0")
  case True
  then have "concat cs = []" using hash_repD(9) [OF rep] by simp
  then show ?thesis using True by (simp only: parrot_hash_iterate_indexed_def) simp
next
  case False
  have slots: "iterate_slot h k = Some (map ((!) (buckets h)) (cs ! k))" if "k \<in> set [0..<length cs]" for k
  proof -
    have k: "k < length cs" using that by simp
    have "set (cs ! k) \<subseteq> {..<length (buckets h)}"
      using hash_repD(2,11) [OF rep] chain_in_concat [OF k] by auto
    from chain_buckets_lseg [OF hash_repD(3) [OF rep k] this] show ?thesis
      using k hash_repD(1) [OF rep] by (simp add: iterate_slot_def)
  qed
  have "those (map (iterate_slot h) [0..<length cs])
      = Some (map (\<lambda>k. map ((!) (buckets h)) (cs ! k)) [0..<length cs])"
    by (rule those_map_Some) (rule slots)
  then show ?thesis using False rep_mask(1) [OF rep] concat_map_nth [of "(!) (buckets h)" cs]
    by (simp add: parrot_hash_iterate_indexed_def del: upt_Suc)
qed

lemma iterate_linear_filter:
  "iterate_linear_from (length (filter (\<lambda>b. b_key b \<noteq> 0) bs)) bs = Some (filter (\<lambda>b. b_key b \<noteq> 0) bs)"
proof (induction bs)
  case (Cons b bs)
  show ?case
  proof (cases "b_key b = 0")
    case True
    then show ?thesis using Cons by (cases "length (filter (\<lambda>b. b_key b \<noteq> 0) bs)") simp_all
  qed (use Cons in simp)
qed simp

lemma linear_rep:
  assumes rep: "hash_rep E h cs fr" and nonnull: "\<forall>(k, v) \<in># kvs h cs. k \<noteq> 0"
  shows "\<exists>bs. parrot_hash_iterate_linear h = Some bs
    \<and> mset bs = image_mset ((!) (buckets h)) (mset (concat cs))"
proof -
  note R = hash_repD [OF rep]
  let ?u = "\<lambda>b. b_key b \<noteq> 0" and ?f = "(!) (buckets h)"
  have "mset (concat cs @ fr) = mset [0..<length cs]"
    using R(5,6) by (subst set_eq_iff_mset_eq_distinct [symmetric]) auto
  moreover have "buckets h = map ?f [0..<length cs]" unfolding R(2) [symmetric] by (rule map_nth [symmetric])
  ultimately have "mset (buckets h) = image_mset ?f (mset (concat cs)) + image_mset ?f (mset fr)"
    by (metis image_mset_union mset_append mset_map)
  then have "mset (filter ?u (buckets h))
      = filter_mset ?u (image_mset ?f (mset (concat cs))) + filter_mset ?u (image_mset ?f (mset fr))"
    by simp
  also have "filter_mset ?u (image_mset ?f (mset (concat cs))) = image_mset ?f (mset (concat cs))"
    using nonnull by (auto simp: filter_mset_eq_conv kvs_def)
  also have "filter_mset ?u (image_mset ?f (mset fr)) = {#}"
    using R(10) by (auto simp: filter_mset_eq_conv)
  finally have m: "mset (filter ?u (buckets h)) = image_mset ?f (mset (concat cs))" by simp
  then have "length (filter ?u (buckets h)) = entries h"
    using mset_eq_length [of "filter ?u (buckets h)" "map ?f (concat cs)"] m R(9) by (simp del: mset_filter)
  then have "parrot_hash_iterate_linear h = Some (filter ?u (buckets h))"
    using iterate_linear_filter [of "buckets h"] by (simp add: parrot_hash_iterate_linear_def)
  then show ?thesis using m by blast
qed

section \<open>The contract\<close>

abbreviation entry_of :: "hash_bucket \<Rightarrow> u64 \<times> u64" where
  "entry_of b \<equiv> (b_key b, b_value b)"

text \<open>The entries, read off the chains.\<close>

definition hash_dict :: "hash \<Rightarrow> (u64 \<times> u64) multiset" where
  "hash_dict h = mset (map entry_of (the (parrot_hash_iterate_indexed h)))"

definition hash_ok :: "hash_env \<Rightarrow> hash \<Rightarrow> bool" where
  "hash_ok E h \<longleftrightarrow> keys_ok E h \<and> (hash_blank h \<or> (\<exists>cs fr. hash_rep E h cs fr))"

text \<open>The scan of the bucket store takes a \<open>NULL\<close> key for an unused bucket.\<close>

definition scannable :: "hash \<Rightarrow> bool" where
  "scannable h \<longleftrightarrow> (key_type h = Hash_key_type_int \<or> key_type h = Hash_key_type_cstring
      \<or> key_type h = Hash_key_type_ptr) \<or> (\<forall>(k, v) \<in># hash_dict h. k \<noteq> 0)"

lemma dict_rep: "hash_rep E h cs fr \<Longrightarrow> hash_dict h = kvs h cs"
  by (simp add: hash_dict_def indexed_rep kvs_def image_mset.compositionality comp_def)

lemma dict_blank: "hash_blank h \<Longrightarrow> hash_dict h = {#}"
  by (simp add: hash_dict_def hash_blank_def parrot_hash_iterate_indexed_def)

lemma hash_ok_cases:
  assumes "hash_ok E h"
  obtains (blank) "hash_blank h" "keys_ok E h" "hash_dict h = {#}"
    | (rep) cs fr where "hash_rep E h cs fr" "keys_ok E h" "hash_dict h = kvs h cs"
  using assms dict_rep dict_blank unfolding hash_ok_def by blast

lemma hash_okI: "hash_rep E h cs fr \<Longrightarrow> keys_ok E h \<Longrightarrow> hash_ok E h"
  by (auto simp: hash_ok_def)

lemma blank_create: "hash_blank (Parrot_hash_create sd et kt)"
  by (simp add: hash_blank_def Parrot_hash_create_def)

text \<open>
  The laws of the keys hold by themselves for integers, pointers and C strings.
\<close>

lemma keys_ok_plain:
  assumes "key_type h \<in> {Hash_key_type_int, Hash_key_type_ptr, Hash_key_type_PMC_ptr, Hash_key_type_cstring}"
  shows "keys_ok E h"
proof (cases "key_type h = Hash_key_type_cstring")
  case True
  then have "hash_compare E h a b \<longleftrightarrow> cstr_at E a = cstr_at E b" for a b by (simp add: hash_compare_def)
  moreover have "key_hash E h a = key_hash_cstring_from (cstr_at E a) (seed h)" for a
    using True by (simp add: key_hash_def key_hash_cstring_def)
  ultimately show ?thesis using True by (simp add: keys_ok_def)
next
  case False
  then have "hash_compare E h a b \<longleftrightarrow> a = b" for a b using assms by (auto simp: hash_compare_def)
  then show ?thesis using assms False by (auto simp: keys_ok_def)
qed

lemma iterate_ok:
  assumes "hash_ok E h" "scannable h"
  shows "\<exists>bs. parrot_hash_iterate h = Some bs \<and> mset (map entry_of bs) = hash_dict h"
  using assms(1)
proof (cases rule: hash_ok_cases)
  case blank
  then show ?thesis
    by (simp add: parrot_hash_iterate_def parrot_hash_iterate_indexed_def parrot_hash_iterate_linear_def hash_blank_def)
next
  case (rep cs fr)
  show ?thesis
  proof (cases "key_type h = Hash_key_type_int \<or> key_type h = Hash_key_type_cstring \<or> key_type h = Hash_key_type_ptr")
    case True
    then show ?thesis using indexed_rep [OF rep(1)]
      by (simp add: parrot_hash_iterate_def hash_dict_def del: mset_map)
  next
    case False
    then have "\<forall>(k, v) \<in># kvs h cs. k \<noteq> 0" using assms(2) rep(3) by (auto simp: scannable_def)
    from linear_rep [OF rep(1) this] obtain bs where bs: "parrot_hash_iterate_linear h = Some bs"
      "mset bs = image_mset ((!) (buckets h)) (mset (concat cs))" by blast
    then have "mset (map entry_of bs) = kvs h cs" by (simp add: kvs_def image_mset.compositionality comp_def)
    then show ?thesis using False bs(1) rep(3) by (auto simp: parrot_hash_iterate_def)
  qed
qed

lemma put_ok:
  assumes "hash_ok E h" "size (hash_dict h) < 2 ^ 62"
  shows "\<exists>h' r. Parrot_hash_put E h key v = Some (h', r) \<and> hash_ok E h' \<and> same_kind h h'
    \<and> hash_dict h' = put_kvs (hash_compare E h key) key v (hash_dict h)"
  using assms(1)
proof (cases rule: hash_ok_cases)
  case blank
  obtain h' cs' fr' where h': "Parrot_hash_put E h key v = Some (h', None)" "hash_rep E h' cs' fr'"
      "same_kind h h'" "kvs h' cs' = {#(key, v)#}"
    using put_blank [OF blank(1,2)] by blast
  then have "keys_ok E h'" using blank(2) same_kind_fun(3) [OF h'(3)] by simp
  then show ?thesis using h' dict_rep [OF h'(2)] blank(3) hash_okI [OF h'(2)] by (simp add: put_kvs_def)
next
  case (rep cs fr)
  then obtain h' r cs' fr' where h': "Parrot_hash_put E h key v = Some (h', r)" "hash_rep E h' cs' fr'"
      "same_kind h h'" "kvs h' cs' = put_kvs (hash_compare E h key) key v (kvs h cs)"
    using put_rep [OF rep(1,2)] assms(2) by force
  then have "keys_ok E h'" using rep(2) same_kind_fun(3) [OF h'(3)] by simp
  then show ?thesis using h' dict_rep [OF h'(2)] rep(3) hash_okI [OF h'(2)] by simp
qed

section \<open>Bulk insertion\<close>

lemma ofold_defined: "ofold (\<lambda>s x. defined (g s x)) xs s = defined (fold_opt g xs s)"
proof (induction xs arbitrary: s)
  case (Cons x xs)
  then show ?case by (cases "g s x") simp_all
qed simp

definition apart :: "(u64 \<Rightarrow> u64 \<Rightarrow> bool) \<Rightarrow> (u64 \<times> u64) list \<Rightarrow> bool" where
  "apart eq es \<longleftrightarrow> sorted_wrt (\<lambda>a b. \<not> eq (fst b) (fst a)) es"

text \<open>Inserting entries whose keys are new.\<close>

locale fresh_store =
  fixes ok :: "'h \<Rightarrow> bool"
    and dict :: "'h \<Rightarrow> (u64 \<times> u64) multiset"
    and eq :: "u64 \<Rightarrow> u64 \<Rightarrow> bool"
    and ins :: "'h \<Rightarrow> u64 \<Rightarrow> u64 \<Rightarrow> 'h option"
    and bound :: nat
  assumes ins: "ok h \<Longrightarrow> size (dict h) < bound \<Longrightarrow> \<forall>kv \<in># dict h. \<not> eq k (fst kv) \<Longrightarrow>
    \<exists>h'. ins h k v = Some h' \<and> ok h' \<and> dict h' = add_mset (k, v) (dict h)"
begin

lemma ins_all:
  assumes "ok h" "size (dict h) + length es \<le> bound" "apart eq es"
    and "\<forall>kv \<in># dict h. \<forall>e \<in> set es. \<not> eq (fst e) (fst kv)"
  shows "\<exists>h'. fold_opt (\<lambda>h e. ins h (fst e) (snd e)) es h = Some h' \<and> ok h' \<and> dict h' = dict h + mset es"
  using assms
proof (induction es arbitrary: h)
  case Nil
  then show ?case by simp
next
  case (Cons e es)
  have "size (dict h) < bound" "\<forall>kv \<in># dict h. \<not> eq (fst e) (fst kv)" using Cons.prems by simp_all
  from ins [OF Cons.prems(1) this, of "snd e"] obtain h1 where h1:
    "ins h (fst e) (snd e) = Some h1" "ok h1" "dict h1 = add_mset e (dict h)" by auto
  have "size (dict h1) + length es \<le> bound" using Cons.prems(2) h1(3) by simp
  moreover have "apart eq es" "\<forall>kv \<in># dict h1. \<forall>e \<in> set es. \<not> eq (fst e) (fst kv)"
    using Cons.prems(3,4) h1(3) by (auto simp: apart_def)
  ultimately obtain h' where "fold_opt (\<lambda>h e. ins h (fst e) (snd e)) es h1 = Some h'" "ok h'"
      "dict h' = dict h1 + mset es" using Cons.IH [OF h1(2)] by blast
  then show ?case using h1 by simp
qed

end

text \<open>Putting entries one after the other, keys old or new.\<close>

locale dictionary =
  fixes ok :: "'h \<Rightarrow> bool"
    and dict :: "'h \<Rightarrow> (u64 \<times> u64) multiset"
    and eq :: "u64 \<Rightarrow> u64 \<Rightarrow> bool"
    and put :: "'h \<Rightarrow> u64 \<Rightarrow> u64 \<Rightarrow> 'h option"
    and bound :: nat
  assumes put: "ok h \<Longrightarrow> size (dict h) < bound \<Longrightarrow>
    \<exists>h'. put h k v = Some h' \<and> ok h' \<and> dict h' = put_kvs (eq k) k v (dict h)"
begin

lemma put_all:
  assumes "ok h" "size (dict h) + length es \<le> bound"
  shows "\<exists>h'. fold_opt (\<lambda>h e. put h (fst e) (snd e)) es h = Some h' \<and> ok h'
    \<and> dict h' = foldl (\<lambda>M e. put_kvs (eq (fst e)) (fst e) (snd e) M) (dict h) es"
  using assms
proof (induction es arbitrary: h)
  case Nil
  then show ?case by simp
next
  case (Cons e es)
  have "size (dict h) < bound" using Cons.prems(2) by simp
  from put [OF Cons.prems(1) this, of "fst e" "snd e"] obtain h1 where h1:
    "put h (fst e) (snd e) = Some h1" "ok h1" "dict h1 = put_kvs (eq (fst e)) (fst e) (snd e) (dict h)" by blast
  have "size (dict h1) \<le> size (dict h) + 1" using h1(3) by (simp add: put_kvs_def)
  then have "size (dict h1) + length es \<le> bound" using Cons.prems(2) by simp
  from Cons.IH [OF h1(2) this] h1 show ?case by simp
qed

end

sublocale dictionary \<subseteq> fresh_store ok dict eq put bound
proof
  fix h k v
  assume h: "ok h" "size (dict h) < bound" "\<forall>kv \<in># dict h. \<not> eq k (fst kv)"
  then have "put_kvs (eq k) k v (dict h) = add_mset (k, v) (dict h)" by (auto simp: put_kvs_def)
  with put [OF h(1,2), of k v]
  show "\<exists>h'. put h k v = Some h' \<and> ok h' \<and> dict h' = add_mset (k, v) (dict h)" by simp
qed

abbreviation hash_put :: "hash_env \<Rightarrow> hash \<Rightarrow> u64 \<Rightarrow> u64 \<Rightarrow> hash option" where
  "hash_put E h k v \<equiv> map_option fst (Parrot_hash_put E h k v)"

interpretation tab: dictionary "\<lambda>h. hash_ok E h \<and> same_kind g h" hash_dict "hash_compare E g"
  "hash_put E" "2 ^ 62" for E g
proof
  fix h k v
  assume h: "hash_ok E h \<and> same_kind g h" "size (hash_dict h) < 2 ^ 62"
  have "hash_compare E h = hash_compare E g" using h(1) same_kind_fun(2) by blast
  moreover obtain h' r where "Parrot_hash_put E h k v = Some (h', r)" "hash_ok E h'" "same_kind h h'"
      "hash_dict h' = put_kvs (hash_compare E h k) k v (hash_dict h)"
    using put_ok [of E h k v] h by blast
  ultimately show "\<exists>h'. hash_put E h k v = Some h' \<and> (hash_ok E h' \<and> same_kind g h')
      \<and> hash_dict h' = put_kvs (hash_compare E g k) k v (hash_dict h)"
    using h(1) same_kind_trans by fastforce
qed

definition table_of :: "hash_env \<Rightarrow> hash \<Rightarrow> hash \<Rightarrow> bool" where
  "table_of E g h \<longleftrightarrow> keys_ok E h \<and> same_kind g h \<and> (\<exists>cs fr. hash_rep E h cs fr)"

interpretation raw: fresh_store "table_of E g" hash_dict "hash_compare E g"
  "\<lambda>h k v. parrot_hash_store_value_in_bucket E h None (key_hash E g k) k v" "2 ^ 62" for E g
proof
  fix h k v
  assume h: "table_of E g h" "size (hash_dict h) < 2 ^ 62" "\<forall>kv \<in># hash_dict h. \<not> hash_compare E g k (fst kv)"
  then obtain cs fr where rep: "hash_rep E h cs fr" "keys_ok E h" "same_kind g h"
    by (auto simp: table_of_def)
  note K = same_kind_fun [OF rep(3), of E]
  have "length (concat cs) < 2 ^ 62" using h(2) dict_rep [OF rep(1)] by (simp add: kvs_def)
  moreover have "\<not> hash_compare E h k k'" if "(k', w) \<in># kvs h cs" for k' w
    using h(3) that dict_rep [OF rep(1)] K(2) by fastforce
  ultimately obtain h' cs' fr' where h': "parrot_hash_store_value_in_bucket E h None (key_hash E h k) k v = Some h'"
      "hash_rep E h' cs' fr'" "same_kind h h'" "kvs h' cs' = add_mset (k, v) (kvs h cs)"
    using store_new [OF rep(1) _ _ rep(2) refl, of k v] by blast
  have "table_of E g h'"
    using h'(2,3) rep(2,3) same_kind_trans same_kind_fun(3) [OF h'(3)] unfolding table_of_def by blast
  then show "\<exists>h'. parrot_hash_store_value_in_bucket E h None (key_hash E g k) k v = Some h' \<and> table_of E g h'
      \<and> hash_dict h' = add_mset (k, v) (hash_dict h)"
    using h' K(1) dict_rep [OF rep(1)] dict_rep [OF h'(2)] by simp
qed

end
