(* ===== verification/Parrot_Hash_Claims.thy ===== *)
theory Parrot_Hash_Claims
  imports Parrot_Hash_Props
begin

text \<open>The properties of the hash tables.\<close>

section \<open>Single operations\<close>

definition plain_env :: hash_env where
  "plain_env = \<lparr>cstr_at = \<lambda>_. [], str_hashval = \<lambda>s. s, str_encoding = \<lambda>_. 0, str_bytes = \<lambda>_. [],
     str_equal = (=), pmc_base_type = \<lambda>_. 0, pmc_is_equal = (=), pmc_hashvalue = \<lambda>p. p\<rparr>"

abbreviation empty_int_hash :: hash where
  "empty_int_hash \<equiv> Parrot_hash_new_intval_hash 0"

lemma hash_ok_create:
  assumes "kt \<in> {Hash_key_type_int, Hash_key_type_ptr, Hash_key_type_PMC_ptr, Hash_key_type_cstring}"
  shows "hash_ok E (Parrot_hash_create sd et kt)" "hash_dict (Parrot_hash_create sd et kt) = {#}"
proof -
  have "keys_ok E (Parrot_hash_create sd et kt)"
    by (rule keys_ok_plain) (use assms in \<open>simp add: Parrot_hash_create_def\<close>)
  then show "hash_ok E (Parrot_hash_create sd et kt)" using blank_create by (simp add: hash_ok_def)
  show "hash_dict (Parrot_hash_create sd et kt) = {#}" by (rule dict_blank [OF blank_create])
qed

lemma empty_int_hash [simp]: "hash_ok E empty_int_hash" "hash_dict empty_int_hash = {#}"
  using hash_ok_create [of Hash_key_type_int] by (simp_all add: Parrot_hash_new_intval_hash_def)

text \<open>
  C15. \<open>Parrot_hash_put\<close> succeeds on every well-formed table of fewer than \<open>2 ^ 62\<close>
  entries, doubling it when needed; it replaces the value of an equal key, or adds
  one entry, and keeps all others.
\<close>

theorem Parrot_hash_put_correct:
  assumes "hash_ok E h" and "size (hash_dict h) < 2 ^ 62"
  shows "\<exists>h' r. Parrot_hash_put E h key v = Some (h', r) \<and> hash_ok E h' \<and> same_kind h h'
    \<and> hash_dict h' =
        (if \<exists>kv \<in># hash_dict h. hash_compare E h key (fst kv)
         then image_mset (\<lambda>kv. if hash_compare E h key (fst kv) then (fst kv, v) else kv) (hash_dict h)
         else add_mset (key, v) (hash_dict h))"
  using put_ok [OF assms, of key v] by (simp add: put_kvs_def)

theorem Parrot_hash_put_correct_witness:
  "\<exists>h' r. Parrot_hash_put plain_env empty_int_hash 5 7 = Some (h', r) \<and> hash_dict h' = {#(5, 7)#}"
proof -
  have "size (hash_dict empty_int_hash) < 2 ^ 62" by simp
  from Parrot_hash_put_correct [OF empty_int_hash(1) this] show ?thesis by fastforce
qed

lemma delete_ok:
  assumes "hash_ok E h"
  shows "\<exists>h'. Parrot_hash_delete E h key = Some h' \<and> hash_ok E h' \<and> same_kind h h'
    \<and> hash_dict h' = filter_mset (\<lambda>kv. \<not> hash_compare E h key (fst kv)) (hash_dict h)"
  using assms
proof (cases rule: hash_ok_cases)
  case blank
  then show ?thesis using assms by (simp add: Parrot_hash_delete_def hash_blank_def)
next
  case (rep cs fr)
  from delete_rep [OF rep(1,2), of key] obtain h' cs' fr' where h': "Parrot_hash_delete E h key = Some h'"
    "hash_rep E h' cs' fr'" "same_kind h h'"
    "kvs h' cs' = filter_mset (\<lambda>kv. \<not> hash_compare E h key (fst kv)) (kvs h cs)" by blast
  then have "keys_ok E h'" using rep(2) same_kind_fun(3) [OF h'(3)] by simp
  then show ?thesis using h' dict_rep [OF h'(2)] rep(3) hash_okI [OF h'(2)] by simp
qed

text \<open>
  C16. \<open>Parrot_hash_delete\<close> succeeds on every well-formed table and removes exactly the
  entry of the key, if there is one.
\<close>

theorem Parrot_hash_delete_correct:
  assumes "hash_ok E h"
  shows "\<exists>h'. Parrot_hash_delete E h key = Some h' \<and> hash_ok E h' \<and> same_kind h h'
    \<and> hash_dict h' = filter_mset (\<lambda>kv. \<not> hash_compare E h key (fst kv)) (hash_dict h)"
  using assms by (rule delete_ok)

definition one_entry :: hash where
  "one_entry = the (hash_put plain_env empty_int_hash 5 7)"

lemma one_entry: "hash_ok plain_env one_entry" "hash_dict one_entry = {#(5, 7)#}"
  "same_kind empty_int_hash one_entry"
proof -
  have "size (hash_dict empty_int_hash) < 2 ^ 62" by simp
  from put_ok [OF empty_int_hash(1) this, of plain_env 5 7] obtain h' r where
    "Parrot_hash_put plain_env empty_int_hash 5 7 = Some (h', r)" "hash_ok plain_env h'"
    "same_kind empty_int_hash h'" "hash_dict h' = {#(5, 7)#}" by (auto simp: put_kvs_def)
  then show "hash_ok plain_env one_entry" "hash_dict one_entry = {#(5, 7)#}" "same_kind empty_int_hash one_entry"
    by (simp_all add: one_entry_def)
qed

lemma one_entry_compare: "hash_compare plain_env one_entry a b \<longleftrightarrow> a = b"
  using one_entry(3)
  by (auto simp: hash_compare_def same_kind_def Parrot_hash_new_intval_hash_def Parrot_hash_create_def)

theorem Parrot_hash_delete_correct_witness:
  "\<exists>h'. Parrot_hash_delete plain_env one_entry 5 = Some h' \<and> hash_dict h' = {#}"
  using Parrot_hash_delete_correct [OF one_entry(1), of 5]
  by (auto simp: one_entry(2) one_entry_compare)

lemma lookup_ok:
  assumes "hash_ok E h"
  shows "(\<forall>k v. (k, v) \<in># hash_dict h \<and> hash_compare E h key k \<longrightarrow>
            Parrot_hash_get E h key = Some v \<and> Parrot_hash_exists E h key = Some True)
    \<and> ((\<forall>k v. (k, v) \<in># hash_dict h \<longrightarrow> \<not> hash_compare E h key k) \<longrightarrow>
            Parrot_hash_get E h key = Some 0 \<and> Parrot_hash_exists E h key = Some False)
    \<and> Parrot_hash_size h = size (hash_dict h)"
  using assms
proof (cases rule: hash_ok_cases)
  case blank
  then show ?thesis
    by (simp add: Parrot_hash_get_def Parrot_hash_exists_def Parrot_hash_get_bucket_def
        Parrot_hash_size_def hash_blank_def)
next
  case (rep cs fr)
  have "Parrot_hash_size h = size (hash_dict h)"
    using hash_repD(9) [OF rep(1)] rep(3) by (simp add: Parrot_hash_size_def kvs_def)
  then show ?thesis
    using lookup_present [OF rep(1,2)] lookup_absent [OF rep(1,2)] unfolding rep(3) by blast
qed

text \<open>
  C17. Lookup agrees with the entries: \<open>Parrot_hash_get\<close> returns the value of an entry
  with an equal key, \<open>NULL\<close> when there is none, \<open>Parrot_hash_exists\<close> says which, and
  \<open>Parrot_hash_size\<close> counts the entries.
\<close>

theorem Parrot_hash_lookup_correct:
  assumes "hash_ok E h"
  shows "(\<forall>k v. (k, v) \<in># hash_dict h \<and> hash_compare E h key k \<longrightarrow>
            Parrot_hash_get E h key = Some v \<and> Parrot_hash_exists E h key = Some True)
    \<and> ((\<forall>k v. (k, v) \<in># hash_dict h \<longrightarrow> \<not> hash_compare E h key k) \<longrightarrow>
            Parrot_hash_get E h key = Some 0 \<and> Parrot_hash_exists E h key = Some False)
    \<and> Parrot_hash_size h = size (hash_dict h)"
  using assms by (rule lookup_ok)

theorem Parrot_hash_lookup_correct_witness:
  "Parrot_hash_get plain_env one_entry 5 = Some 7 \<and> Parrot_hash_exists plain_env one_entry 6 = Some False"
proof -
  have "(5, 7) \<in># hash_dict one_entry" "hash_compare plain_env one_entry 5 5"
    "\<forall>k v. (k, v) \<in># hash_dict one_entry \<longrightarrow> \<not> hash_compare plain_env one_entry 6 k"
    by (simp_all add: one_entry(2) one_entry_compare)
  then show ?thesis using Parrot_hash_lookup_correct [OF one_entry(1)] by blast
qed

text \<open>
  The tables for integer, C string and pointer keys are well-formed and empty
  from the start: integer, pointer and C string keys hash and compare lawfully,
  whatever memory holds.
\<close>

theorem Parrot_hash_new_ok:
  "hash_ok E (Parrot_hash_new_intval_hash sd) \<and> hash_ok E (Parrot_hash_new_cstring_hash sd)
   \<and> hash_ok E (Parrot_hash_new_pointer_hash sd)
   \<and> hash_dict (Parrot_hash_new_intval_hash sd) = {#} \<and> hash_dict (Parrot_hash_new_cstring_hash sd) = {#}
   \<and> hash_dict (Parrot_hash_new_pointer_hash sd) = {#} \<and> hash_dict (Parrot_hash_new sd) = {#}"
  using hash_ok_create [of Hash_key_type_int] hash_ok_create [of Hash_key_type_cstring]
    hash_ok_create [of Hash_key_type_ptr] dict_blank [OF blank_create]
  by (simp add: Parrot_hash_new_intval_hash_def Parrot_hash_new_cstring_hash_def
      Parrot_hash_new_pointer_hash_def Parrot_hash_new_def)

text \<open>
  C18. Iteration visits every entry of a well-formed table exactly once, and stays
  inside the bucket store.  The scan that is used for string and PMC keys needs keys
  other than \<open>NULL\<close>.
\<close>

theorem parrot_hash_iterate_visits:
  assumes "hash_ok E h" and "scannable h"
  shows "\<exists>bs. parrot_hash_iterate h = Some bs \<and> mset (map entry_of bs) = hash_dict h"
  using assms by (rule iterate_ok)

lemma one_entry_scannable: "scannable one_entry"
  using one_entry(3) by (simp add: scannable_def same_kind_def Parrot_hash_new_intval_hash_def Parrot_hash_create_def)

theorem parrot_hash_iterate_visits_witness:
  "\<exists>bs. parrot_hash_iterate one_entry = Some bs \<and> mset (map entry_of bs) = {#(5, 7)#}"
  using parrot_hash_iterate_visits [OF one_entry(1) one_entry_scannable] by (simp add: one_entry(2))

section \<open>Giving storage back\<close>

lemma storage_match:
  assumes "0 < e" "e < 64"
  shows "(slots_for e - 1 > SPLIT_POINT) = (slots_for e > SPLIT_POINT)"
proof -
  have u: "unat (slots_for e) = 2 ^ e" by (rule unat_slots_for [OF assms(2)])
  then have "slots_for e \<noteq> 0" by auto
  then have v: "unat (slots_for e - 1) = 2 ^ e - 1" using u by (simp add: unat_minus_one)
  have "(2::nat) ^ e - 1 > 16 \<longleftrightarrow> (2::nat) ^ e > 16"
  proof (cases "e \<le> 4")
    case True
    then have "(2::nat) ^ e \<le> 2 ^ 4" by (rule power_increasing) simp
    then show ?thesis by simp
  next
    case False
    then have "(2::nat) ^ 5 \<le> 2 ^ e" by (intro power_increasing) simp_all
    then show ?thesis by simp
  qed
  then show ?thesis using u v by (simp add: SPLIT_POINT_def word_less_nat_alt)
qed

lemma rep_free:
  assumes "hash_rep E h cs fr"
  shows "free_buckets h = Some ()" "Parrot_hash_destroy h = Some ()"
proof -
  obtain e where e: "0 < e" "e < 64" "h_mask h = slots_for e - 1" "h_storage h = storage_for (slots_for e)"
    using assms by (auto simp: hash_rep_def)
  have m: "h_mask h + 1 = slots_for e" using e(3) by simp
  show "free_buckets h = Some ()" unfolding free_buckets_def m free_storage_def e(4) storage_for_def by simp
  show "Parrot_hash_destroy h = Some ()"
    unfolding Parrot_hash_destroy_def m e(3) storage_match [OF e(1,2)] free_storage_def e(4) storage_for_def
    by simp
qed

lemma destroy_ok:
  assumes "hash_ok E h"
  shows "Parrot_hash_destroy h = Some ()"
  using assms
proof (cases rule: hash_ok_cases)
  case blank
  then show ?thesis by (simp add: Parrot_hash_destroy_def hash_blank_def)
next
  case (rep cs fr)
  from rep_free(2) [OF rep(1)] show ?thesis .
qed

text \<open>
  \<open>Parrot_hash_destroy\<close> gives the bucket store of a well-formed table back to the
  allocator it came from, although it decides by the mask and \<open>allocate_buckets\<close> and
  \<open>expand_hash\<close> by the size.
\<close>

theorem Parrot_hash_destroy_safe:
  assumes "hash_ok E h"
  shows "Parrot_hash_destroy h = Some ()"
  using assms by (rule destroy_ok)

theorem Parrot_hash_destroy_safe_witness: "Parrot_hash_destroy one_entry = Some ()"
  by (rule Parrot_hash_destroy_safe [OF one_entry(1)])

end
