(* ===== verification/Parrot_Hash_Bulk.thy ===== *)
theory Parrot_Hash_Bulk
  imports Parrot_Hash_Claims
begin

text \<open>
  The operations on whole hash tables: cloning, updating one table from another, marking.
  Loops that insert entries, which freezing and thawing share.
\<close>

section \<open>Entries have different keys\<close>

definition sep :: "(u64 \<Rightarrow> u64 \<Rightarrow> bool) \<Rightarrow> (u64 \<times> u64) multiset \<Rightarrow> bool" where
  "sep eq M \<longleftrightarrow> (\<forall>a \<in># M. \<forall>b \<in># M - {#a#}. \<not> eq (fst b) (fst a))"

lemma sep_apart: "sep eq (mset es) \<Longrightarrow> apart eq es"
  unfolding apart_def
proof (induction es)
  case (Cons e es)
  have "sep eq (mset es)"
    using Cons.prems by (auto simp: sep_def dest: in_diffD)
  moreover have "\<not> eq (fst b) (fst e)" if "b \<in> set es" for b
    using Cons.prems that by (auto simp: sep_def)
  ultimately show ?case using Cons.IH by simp
qed simp

lemma sep_filter:
  assumes s: "sep eq M"
  shows "sep eq (filter_mset P M)"
  unfolding sep_def
proof (intro ballI)
  fix a b assume a: "a \<in># filter_mset P M" and b: "b \<in># filter_mset P M - {#a#}"
  have "filter_mset P M - {#a#} = filter_mset P (M - {#a#})" using a by simp
  with b have "b \<in># filter_mset P (M - {#a#})" by (simp only:)
  then have "b \<in># M - {#a#}" by (simp del: filter_diff_mset)
  then show "\<not> eq (fst b) (fst a)" using s a by (simp add: sep_def)
qed

lemma sep_rep:
  assumes "hash_rep E h cs fr"
  shows "sep (hash_compare E h) (kvs h cs)"
  unfolding sep_def
proof (intro ballI)
  let ?f = "\<lambda>x. entry_of (buckets h ! x)"
  fix a b assume "a \<in># kvs h cs" and b: "b \<in># kvs h cs - {#a#}"
  then obtain x where x: "x \<in># mset (concat cs)" "a = ?f x" by (auto simp: kvs_def)
  then have "kvs h cs - {#a#} = image_mset ?f (mset (concat cs) - {#x#})"
    by (simp add: kvs_def image_mset_Diff)
  then obtain y where y: "y \<in># mset (concat cs) - {#x#}" "b = ?f y" using b by auto
  have d: "distinct (concat cs)" using hash_repD(5) [OF assms] by simp
  then have "set_mset (mset (concat cs) - {#x#}) = set (concat cs) - {x}"
    by (simp only: mset_remove1 [symmetric] set_mset_mset set_remove1_eq)
  then have "y \<noteq> x" using y(1) by simp
  then show "\<not> hash_compare E h (fst b) (fst a)"
    using hash_repD(8) [OF assms, of y x] x y(2) in_diffD [OF y(1)] by simp
qed

lemma sep_ok:
  assumes "hash_ok E h"
  shows "sep (hash_compare E h) (hash_dict h)"
  using assms
proof (cases rule: hash_ok_cases)
  case blank
  then show ?thesis by (simp add: sep_def)
next
  case (rep cs fr)
  then show ?thesis using sep_rep [OF rep(1)] by simp
qed

section \<open>Allocation\<close>

lemma grow_size_ex:
  assumes "0 < e" "e < 64" "unat sz \<le> 2 ^ 63"
  shows "\<exists>e'. e \<le> e' \<and> e' < 64 \<and> grow_size sz (slots_for e) = Some (slots_for e')"
  using assms(1,2)
proof (induction "63 - e" arbitrary: e rule: less_induct)
  case less
  show ?case
  proof (cases "sz > slots_for e")
    case False
    then have "grow_size sz (slots_for e) = Some (slots_for e)" by (subst grow_size.simps) simp
    then show ?thesis using less.prems by blast
  next
    case True
    then have "(2::nat) ^ e < 2 ^ 63"
      using assms(3) unat_slots_for [OF less.prems(2)] by (simp add: word_less_nat_alt)
    then have e: "e < 63" by (simp add: power_strict_increasing_iff del: power_numeral)
    then have "63 - Suc e < 63 - e" "0 < Suc e" "Suc e < 64" by simp_all
    from less.hyps [OF this]
    obtain e' where "Suc e \<le> e'" "e' < 64" "grow_size sz (slots_for (Suc e)) = Some (slots_for e')" by blast
    moreover have "grow_size sz (slots_for e) = grow_size sz (slots_for (Suc e))"
      by (subst grow_size.simps) (simp only: if_P [OF True] slots_for_Suc)
    ultimately show ?thesis by (intro exI [of _ e']) simp
  qed
qed

lemma allocate_ok:
  assumes "entries h = 0" "free_list h = None" "unat sz \<le> 2 ^ 63" "keys_ok E h"
  shows "\<exists>h'. allocate_buckets h sz = Some h' \<and> table_of E h h' \<and> hash_dict h' = {#}"
proof -
  obtain e where e: "1 \<le> e" "e < 64" "grow_size sz (slots_for 1) = Some (slots_for e)"
    using grow_size_ex [of 1 sz] assms(3) by auto
  have "grow_size sz INITIAL_SIZE = Some (slots_for e)"
    using e(3) slots_for_1 by (simp add: INITIAL_SIZE_def)
  then obtain h' cs fr where h': "allocate_buckets h sz = Some h'" "hash_rep E h' cs fr" "same_kind h h'"
    "kvs h' cs = {#}"
    using allocate_buckets_rep [OF assms(1,2)] e by (metis less_eq_Suc_le One_nat_def)
  then show ?thesis
    using same_kind_fun(3) [OF h'(3)] assms(4) dict_rep [OF h'(2)] by (auto simp: table_of_def)
qed

lemma table_of_ok: "table_of E g h \<Longrightarrow> hash_ok E h \<and> same_kind g h"
  by (auto simp: table_of_def hash_ok_def)

lemma mask_bound:
  assumes "hash_ok E h" "entries h \<noteq> 0"
  shows "unat (h_mask h) \<le> 2 ^ 63"
  using assms(1)
proof (cases rule: hash_ok_cases)
  case blank
  then show ?thesis using assms(2) by (simp add: hash_blank_def)
next
  case (rep cs fr)
  then obtain e where e: "0 < e" "e < 64" "length cs = 2 ^ e" by (auto simp: hash_rep_def)
  then have "(2::nat) ^ e \<le> 2 ^ 63" by (intro power_increasing) simp_all
  then show ?thesis using rep_mask(1) [OF rep(1)] e(3) by simp
qed

text \<open>Comparing depends on the key type alone, and the laws of the keys as well.\<close>

lemma compare_type: "key_type h = key_type g \<Longrightarrow> hash_compare E h = hash_compare E g"
  by (simp add: hash_compare_def fun_eq_iff)

lemma keys_ok_type:
  assumes "key_type h = key_type g" "keys_ok E g"
  shows "keys_ok E h"
proof (cases "key_type g \<in> {Hash_key_type_int, Hash_key_type_ptr, Hash_key_type_PMC_ptr, Hash_key_type_cstring}")
  case True
  then show ?thesis using assms(1) by (intro keys_ok_plain) simp
next
  case False
  then have "key_type g \<in> {Hash_key_type_STRING, Hash_key_type_STRING_enc, Hash_key_type_PMC}"
    by (cases "key_type g") simp_all
  then have k: "key_hash E h = key_hash E g" unfolding key_hash_def fun_eq_iff assms(1) by auto
  show ?thesis using assms(2) unfolding keys_ok_def compare_type [OF assms(1), of E] assms(1) k .
qed

section \<open>Loops that insert\<close>

text \<open>
  A loop whose rounds each insert one entry, or none.  \<open>w xs h\<close> is the state of the
  loop with the rounds \<open>xs\<close> still to come.
\<close>

context fresh_store
begin

lemma ins_loop:
  assumes "ok h" "size (dict h) + length (List.map_filter f xs) \<le> bound" "apart eq (List.map_filter f xs)"
    and "\<forall>kv \<in># dict h. \<forall>e \<in> set (List.map_filter f xs). \<not> eq (fst e) (fst kv)" "length js = length xs"
    and step: "\<And>h x xs j. ok h \<Longrightarrow> (x, j) \<in> R \<Longrightarrow> step (w (x # xs) h) j =
       (case f x of None \<Rightarrow> Done (w xs h) | Some e \<Rightarrow> obind (defined (ins h (fst e) (snd e))) (\<lambda>h. Done (w xs h)))"
    and "set (zip xs js) \<subseteq> R"
  shows "\<exists>h'. ofold step js (w xs h) = Done (w [] h') \<and> ok h' \<and> dict h' = dict h + mset (List.map_filter f xs)"
  using assms(1-5,7)
proof (induction xs arbitrary: h js)
  case Nil
  then show ?case by (auto simp: map_filter_simps)
next
  case (Cons x xs)
  obtain j js' where js: "js = j # js'" "length js' = length xs" using Cons.prems(5) by (cases js) auto
  have x: "(x, j) \<in> R" "set (zip xs js') \<subseteq> R" using Cons.prems(6) js by simp_all
  show ?case
  proof (cases "f x")
    case None
    then show ?thesis using Cons.IH [OF Cons.prems(1) _ _ _ js(2) x(2)] Cons.prems js step [OF Cons.prems(1) x(1)]
      by (simp add: map_filter_simps)
  next
    case (Some e)
    have m: "List.map_filter f (x # xs) = e # List.map_filter f xs" using Some by (simp add: map_filter_simps)
    have "size (dict h) < bound" "\<forall>kv \<in># dict h. \<not> eq (fst e) (fst kv)"
      using Cons.prems(2,4) unfolding m by simp_all
    from ins [OF Cons.prems(1) this, of "snd e"] obtain h1 where h1:
      "ins h (fst e) (snd e) = Some h1" "ok h1" "dict h1 = add_mset e (dict h)" by auto
    have "size (dict h1) + length (List.map_filter f xs) \<le> bound" "apart eq (List.map_filter f xs)"
      "\<forall>kv \<in># dict h1. \<forall>e \<in> set (List.map_filter f xs). \<not> eq (fst e) (fst kv)"
      using Cons.prems(2-4) h1(3) unfolding m by (auto simp: apart_def)
    from Cons.IH [OF h1(2) this js(2) x(2)] obtain h' where
      "ofold step js' (w xs h1) = Done (w [] h')" "ok h'" "dict h' = dict h1 + mset (List.map_filter f xs)" by auto
    then show ?thesis using h1 js step [OF Cons.prems(1) x(1)] Some m by (intro exI [of _ h']) simp
  qed
qed

end

section \<open>Updating, as lookup sees it\<close>

lemma foldl_puts:
  assumes eq: "\<forall>a b. eq a b \<longrightarrow> eq b a" "\<forall>a b c. eq a b \<and> eq b c \<longrightarrow> eq a c" "\<forall>a. eq a a"
    and ap: "apart eq es"
  shows "\<forall>e \<in> set es. eq key (fst e) \<longrightarrow>
      (\<exists>k'. (k', snd e) \<in># foldl (\<lambda>M e. put_kvs (eq (fst e)) (fst e) (snd e) M) M es \<and> eq key k')"
    and "\<forall>e \<in> set es. \<not> eq key (fst e) \<Longrightarrow> eq key k' \<Longrightarrow>
      (k', v) \<in># foldl (\<lambda>M e. put_kvs (eq (fst e)) (fst e) (snd e) M) M es \<longleftrightarrow> (k', v) \<in># M"
proof -
  have keep: "(k', v) \<in># put_kvs (eq k2) k2 v2 M \<longleftrightarrow> (k', v) \<in># M" if "\<not> eq key k2" "eq key k'" for k2 v2 M k' v
  proof -
    have n: "\<not> eq k2 k'" using that eq(1,2) by blast
    then have "k2 \<noteq> k'" using eq(3) by blast
    then show ?thesis using n by (auto simp: put_kvs_def image_iff split: if_splits)
  qed
  have same: "(k', v) \<in># foldl (\<lambda>M e. put_kvs (eq (fst e)) (fst e) (snd e) M) M es \<longleftrightarrow> (k', v) \<in># M"
    if "\<forall>e \<in> set es. \<not> eq key (fst e)" "eq key k'" for es M k' v
    using that by (induction es arbitrary: M) (simp_all add: keep)
  then show "\<forall>e \<in> set es. \<not> eq key (fst e) \<Longrightarrow> eq key k' \<Longrightarrow>
      (k', v) \<in># foldl (\<lambda>M e. put_kvs (eq (fst e)) (fst e) (snd e) M) M es \<longleftrightarrow> (k', v) \<in># M" by blast
  show "\<forall>e \<in> set es. eq key (fst e) \<longrightarrow>
      (\<exists>k'. (k', snd e) \<in># foldl (\<lambda>M e. put_kvs (eq (fst e)) (fst e) (snd e) M) M es \<and> eq key k')"
    using ap
  proof (induction es arbitrary: M)
    case (Cons e es)
    have rest: "apart eq es" "\<forall>b \<in> set es. \<not> eq (fst b) (fst e)" using Cons.prems by (simp_all add: apart_def)
    have "\<exists>k'. (k', snd e) \<in># put_kvs (eq (fst e)) (fst e) (snd e) M \<and> eq key k'" if "eq key (fst e)"
    proof (cases "\<exists>kv \<in># M. eq (fst e) (fst kv)")
      case True
      then obtain kv where kv: "kv \<in># M" "eq (fst e) (fst kv)" by blast
      then have "(fst kv, snd e) \<in># put_kvs (eq (fst e)) (fst e) (snd e) M"
        by (auto simp: put_kvs_def image_iff intro!: bexI [of _ kv])
      then show ?thesis using that kv(2) eq(2) by blast
    next
      case False
      then show ?thesis using that by (intro exI [of _ "fst e"]) (simp add: put_kvs_def)
    qed
    moreover have "\<forall>b \<in> set es. \<not> eq key (fst b)" if "eq key (fst e)" using rest(2) that eq(1,2) by blast
    ultimately have "\<exists>k'. (k', snd e) \<in># foldl (\<lambda>M e. put_kvs (eq (fst e)) (fst e) (snd e) M)
        (put_kvs (eq (fst e)) (fst e) (snd e) M) es \<and> eq key k'" if "eq key (fst e)" using that same by blast
    then show ?case using Cons.IH [OF rest(1)] by simp
  qed simp
qed

section \<open>Cloning\<close>

definition cloned :: "u64 \<Rightarrow> (u64 \<Rightarrow> u64) \<Rightarrow> bool \<Rightarrow> parrot_data_type \<Rightarrow> u64 \<Rightarrow> u64" where
  "cloned pmcnull vtable_clone deep et v =
     (if et = enum_type_PMC then (if v = pmcnull \<or> v = 0 then pmcnull else if deep then vtable_clone v else v)
      else v)"

text \<open>
  C19. Cloning into a new table of the same key type succeeds and copies every entry,
  its value cloned as the entry type asks, except the one whose key word is \<open>0\<close>.  For a
  table of integer keys that is an ordinary entry, and it is lost.
\<close>

theorem Parrot_hash_clone_entries:
  assumes "hash_ok E h" and "scannable h" and "size (hash_dict h) < 2 ^ 62" and "entries h \<noteq> 0"
    and "hash_blank dest" and "key_type dest = key_type h"
    and "entry_type h \<in> {enum_type_STRING, enum_type_PMC, enum_type_undef, enum_type_ptr, enum_type_INTVAL}"
  shows "\<exists>dest'. Parrot_hash_clone_prunable E pmcnull vtable_clone h dest deep = Done dest'
    \<and> hash_ok E dest' \<and> same_kind dest dest'
    \<and> hash_dict dest' = image_mset (\<lambda>kv. (fst kv, cloned pmcnull vtable_clone deep (entry_type h) (snd kv)))
        (filter_mset (\<lambda>kv. fst kv \<noteq> 0) (hash_dict h))"
proof -
  let ?c = "cloned pmcnull vtable_clone deep (entry_type h)"
  let ?f = "\<lambda>b. if b_key b \<noteq> 0 then Some (b_key b, ?c (b_value b)) else None"
  obtain bs where bs: "parrot_hash_iterate h = Some bs" "mset (map entry_of bs) = hash_dict h"
    using iterate_ok [OF assms(1,2)] by blast
  have "keys_ok E h" using assms(1) by (simp add: hash_ok_def)
  then have kd: "keys_ok E dest" by (rule keys_ok_type [OF assms(6)])
  obtain d where d: "allocate_buckets dest (h_mask h) = Some d" "table_of E dest d" "hash_dict d = {#}"
    using allocate_ok [OF _ _ mask_bound [OF assms(1,4)] kd] assms(5) by (auto simp: hash_blank_def)
  have f: "List.map_filter ?f bs = map (\<lambda>kv. (fst kv, ?c (snd kv))) (filter (\<lambda>kv. fst kv \<noteq> 0) (map entry_of bs))"
    by (induction bs) (simp_all add: map_filter_simps)
  then have m: "mset (List.map_filter ?f bs)
      = image_mset (\<lambda>kv. (fst kv, ?c (snd kv))) (filter_mset (\<lambda>kv. fst kv \<noteq> 0) (hash_dict h))"
    by (simp only: mset_map mset_filter bs(2) [symmetric])
  have "apart (hash_compare E h) (filter (\<lambda>kv. fst kv \<noteq> 0) (map entry_of bs))"
    by (rule sep_apart) (simp only: mset_filter bs(2) sep_filter [OF sep_ok [OF assms(1)]])
  then have ap: "apart (hash_compare E dest) (List.map_filter ?f bs)"
    unfolding f compare_type [OF assms(6)] by (simp add: apart_def sorted_wrt_map)
  have "length (List.map_filter ?f bs) = size (filter_mset (\<lambda>kv. fst kv \<noteq> 0) (hash_dict h))"
    using arg_cong [OF m, of size] by simp
  also have "\<dots> \<le> size (hash_dict h)" by (rule size_filter_mset_lesseq)
  finally have len: "size (hash_dict d) + length (List.map_filter ?f bs) \<le> 2 ^ 62" using assms(3) d(3) by simp
  have step: "clone_bucket E pmcnull vtable_clone deep (entry_type h) g b
      = (case ?f b of None \<Rightarrow> Done g | Some e \<Rightarrow> obind (defined (parrot_hash_store_value_in_bucket E g None
           (key_hash E dest (fst e)) (fst e) (snd e))) Done)"
    if "table_of E dest g" for g b
  proof -
    have "key_hash E g = key_hash E dest" using that same_kind_fun(1) by (auto simp: table_of_def)
    moreover have "clone_value pmcnull vtable_clone deep (entry_type h) v = Done (?c v)" for v
      using assms(7) by (auto simp: clone_value_def cloned_def)
    moreover have "obind r Done = r" for r :: "hash outcome" by (cases r) simp_all
    ultimately show ?thesis by (simp add: clone_bucket_def)
  qed
  have "\<exists>d'. ofold (clone_bucket E pmcnull vtable_clone deep (entry_type h)) bs d = Done d'
    \<and> table_of E dest d' \<and> hash_dict d' = hash_dict d + mset (List.map_filter ?f bs)"
  proof (rule raw.ins_loop [where w = "\<lambda>_ h. h" and R = "{(x, j). x = j}" and js = bs, OF d(2) len ap])
    show "clone_bucket E pmcnull vtable_clone deep (entry_type h) g j
      = (case ?f b of None \<Rightarrow> Done g | Some e \<Rightarrow> obind (defined (parrot_hash_store_value_in_bucket E g None
           (key_hash E dest (fst e)) (fst e) (snd e))) (\<lambda>h. Done h))" if "table_of E dest g" "(b, j) \<in> {(x, j). x = j}" for g b j
      using step [OF that(1), of b] that(2) by (simp only: mem_Collect_eq prod.case)
  qed (auto simp: d(3) zip_same)
  then obtain d' where d': "ofold (clone_bucket E pmcnull vtable_clone deep (entry_type h)) bs d = Done d'"
    "table_of E dest d'" "hash_dict d' = hash_dict d + mset (List.map_filter ?f bs)" by blast
  have "free_buckets dest = Some ()" using assms(5) by (simp add: free_buckets_def hash_blank_def)
  then show ?thesis using d(1) d' bs(1) table_of_ok [OF d'(2)] m d(3)
    by (simp add: Parrot_hash_clone_prunable_def)
qed

lemma one_entry_types: "key_type one_entry = Hash_key_type_int" "entry_type one_entry = enum_type_INTVAL"
    "entries one_entry = 1"
proof -
  show "key_type one_entry = Hash_key_type_int" "entry_type one_entry = enum_type_INTVAL"
    using one_entry(3) by (simp_all add: same_kind_def Parrot_hash_new_intval_hash_def Parrot_hash_create_def)
  show "entries one_entry = 1"
    using lookup_ok [OF one_entry(1)] by (simp add: one_entry(2) Parrot_hash_size_def)
qed

lemma empty_int_hash_sel:
  "hash_blank empty_int_hash" "key_type empty_int_hash = Hash_key_type_int"
  "entry_type empty_int_hash = enum_type_INTVAL" "buckets empty_int_hash = []" "entries empty_int_hash = 0"
  by (simp_all add: hash_blank_def Parrot_hash_new_intval_hash_def Parrot_hash_create_def)

theorem Parrot_hash_clone_entries_witness:
  "\<exists>dest'. Parrot_hash_clone_prunable plain_env 1 id one_entry empty_int_hash True = Done dest'
    \<and> hash_dict dest' = {#(5, 7)#}"
proof -
  have "size (hash_dict one_entry) < 2 ^ 62" "key_type empty_int_hash = key_type one_entry"
    "entries one_entry \<noteq> 0"
    "entry_type one_entry \<in> {enum_type_STRING, enum_type_PMC, enum_type_undef, enum_type_ptr, enum_type_INTVAL}"
    by (simp_all add: one_entry one_entry_types empty_int_hash_sel)
  from Parrot_hash_clone_entries [OF one_entry(1) one_entry_scannable this(1,3) empty_int_hash_sel(1) this(2,4), of 1 id True]
  show ?thesis by (auto simp: one_entry cloned_def one_entry_types)
qed

section \<open>Updating\<close>

text \<open>
  C20. Updating a table from another of the same types succeeds, and lookup then finds
  the value of the other table when it has the key, else the old one.  The target
  must not have been emptied: when it has no entries it must be a new table.
\<close>

theorem Parrot_hash_update_lookup:
  assumes "hash_ok (hash_env.truncate C) h" and "hash_ok (hash_env.truncate C) other" and "scannable other"
    and "key_type h = key_type other" and "entry_type h = entry_type other"
    and "size (hash_dict h) + size (hash_dict other) \<le> 2 ^ 62" and "entries h = 0 \<longrightarrow> hash_blank h"
  shows "\<exists>h'. Parrot_hash_update C h other = Done h' \<and> hash_ok (hash_env.truncate C) h' \<and> same_kind h h'
    \<and> (\<forall>key. Parrot_hash_get (hash_env.truncate C) h' key =
         (if Parrot_hash_exists (hash_env.truncate C) other key = Some True
          then Parrot_hash_get (hash_env.truncate C) other key
          else Parrot_hash_get (hash_env.truncate C) h key))"
proof (cases "entries other = 0")
  case True
  then show ?thesis using assms(1)
    by (simp add: Parrot_hash_update_def Parrot_hash_update_with_def Parrot_hash_exists_def Parrot_hash_get_bucket_def)
next
  case False
  let ?E = "hash_env.truncate C"
  let ?eq = "hash_compare ?E h"
  note L = lookup_ok [OF assms(2)] and Lh = lookup_ok [OF assms(1)]
  have k: "keys_ok ?E h" using assms(1) by (simp add: hash_ok_def)
  obtain bs where bs: "parrot_hash_iterate other = Some bs" "mset (map entry_of bs) = hash_dict other"
    using iterate_ok [OF assms(2,3)] by blast
  have "length (map entry_of bs) = size (hash_dict other)" unfolding bs(2) [symmetric] by simp
  then have len: "length (map entry_of bs) = size (hash_dict other)" .
  obtain g where g: "(if entries h = 0
       then obind (defined (free_buckets h)) (\<lambda>_. defined (allocate_buckets h (h_mask other)))
       else Done h) = Done g" "hash_ok ?E g" "same_kind h g" "hash_dict g = hash_dict h"
  proof (cases "entries h = 0")
    case True
    then have b: "hash_blank h" using assms(7) by blast
    then obtain g where "allocate_buckets h (h_mask other) = Some g" "table_of ?E h g" "hash_dict g = {#}"
      using allocate_ok [OF _ _ mask_bound [OF assms(2) False] k] by (auto simp: hash_blank_def)
    moreover have "free_buckets h = Some ()" using b by (simp add: free_buckets_def hash_blank_def)
    ultimately show thesis using that [of g] True table_of_ok [of ?E h g] dict_blank [OF b] by simp
  qed (use assms(1) that [of h] in simp)
  have "size (hash_dict g) + length (map entry_of bs) \<le> 2 ^ 62" using assms(6) g(4) len by simp
  then obtain h' where h': "fold_opt (\<lambda>h e. hash_put ?E h (fst e) (snd e)) (map entry_of bs) g = Some h'"
    "hash_ok ?E h'" "same_kind h h'"
    "hash_dict h' = foldl (\<lambda>M e. put_kvs (?eq (fst e)) (fst e) (snd e) M) (hash_dict g) (map entry_of bs)"
    using tab.put_all [of ?E g h "map entry_of bs"] g(2,3) by blast
  have "update_entry ?E Done Done h b = defined (hash_put ?E h (b_key b) (b_value b))" for h b
    by (cases "Parrot_hash_put ?E h (b_key b) (b_value b)") (auto simp: update_entry_def)
  then have "update_entry ?E Done Done = (\<lambda>h b. defined (hash_put ?E h (b_key b) (b_value b)))" by (intro ext)
  then have "ofold (update_entry ?E Done Done) bs g = defined (fold_opt (\<lambda>h b. hash_put ?E h (b_key b) (b_value b)) bs g)"
    by (simp only: ofold_defined)
  also have "\<dots> = Done h'"
    using h'(1) fold_opt_cong_map [of bs "\<lambda>h b. hash_put ?E h (b_key b) (b_value b)"
      "\<lambda>h e. hash_put ?E h (fst e) (snd e)" entry_of g] by simp
  finally have "Parrot_hash_update C h other = Done h'"
    using False g(1) bs(1) assms(4,5) by (simp add: Parrot_hash_update_def Parrot_hash_update_with_def)
  moreover have "Parrot_hash_get ?E h' key = (if Parrot_hash_exists ?E other key = Some True
      then Parrot_hash_get ?E other key else Parrot_hash_get ?E h key)" for key
  proof -
    have ap: "apart ?eq (map entry_of bs)"
      using sep_apart [of "hash_compare ?E other" "map entry_of bs"] sep_ok [OF assms(2)] bs(2)
      unfolding compare_type [OF assms(4)] by simp
    have law: "\<forall>a b. ?eq a b \<longrightarrow> ?eq b a" "\<forall>a b c. ?eq a b \<and> ?eq b c \<longrightarrow> ?eq a c" "\<forall>a. ?eq a a"
      using k unfolding keys_ok_def by (blast, blast) (simp add: hash_compare_def)
    have mem: "set (map entry_of bs) = set_mset (hash_dict other)"
      unfolding bs(2) [symmetric] by (simp only: set_mset_mset)
    note F = foldl_puts [where eq = ?eq and es = "map entry_of bs" and M = "hash_dict g", OF law ap, folded h'(4), unfolded g(4) mem]
    note L' = lookup_ok [OF h'(2)]
    have eq': "hash_compare ?E h' = ?eq" "hash_compare ?E other = ?eq"
      using same_kind_fun(2) [OF h'(3)] compare_type [OF assms(4)] by simp_all
    show ?thesis
    proof (cases "\<exists>k v. (k, v) \<in># hash_dict other \<and> ?eq key k")
      case True
      then obtain k1 v1 where kv: "(k1, v1) \<in># hash_dict other" "?eq key k1" by blast
      then obtain k' where k': "(k', v1) \<in># hash_dict h'" "?eq key k'" using F(1) [where key = key] by fastforce
      have "Parrot_hash_get ?E other key = Some v1" "Parrot_hash_exists ?E other key = Some True"
        using L [of key] kv unfolding eq' by blast+
      moreover have "Parrot_hash_get ?E h' key = Some v1" using L' [of key] k' unfolding eq' by blast
      ultimately show ?thesis by simp
    next
      case False
      then have none: "\<forall>e \<in># hash_dict other. \<not> ?eq key (fst e)" by auto
      have "Parrot_hash_exists ?E other key = Some False" using L [of key] False unfolding eq' by blast
      moreover have "Parrot_hash_get ?E h' key = Parrot_hash_get ?E h key"
      proof (cases "\<exists>k v. (k, v) \<in># hash_dict h \<and> ?eq key k")
        case True
        then obtain k1 v1 where kv: "(k1, v1) \<in># hash_dict h" "?eq key k1" by blast
        then have "(k1, v1) \<in># hash_dict h'" using F(2) [OF none kv(2)] by simp
        then show ?thesis using L' [of key] Lh [of key] kv unfolding eq' by simp
      next
        case False
        then have "\<forall>k v. (k, v) \<in># hash_dict h' \<longrightarrow> \<not> ?eq key k" using F(2) [OF none] by blast
        then have "Parrot_hash_get ?E h' key = Some 0" using L' [of key] unfolding eq' by blast
        moreover have "Parrot_hash_get ?E h key = Some 0" using Lh [of key] False by blast
        ultimately show ?thesis by simp
      qed
      ultimately show ?thesis by simp
    qed
  qed
  ultimately show ?thesis using h'(2,3) by blast
qed

definition plain_conv :: conv_env where
  "plain_conv = hash_env.extend plain_env \<lparr>PMCNULL = 1, STRINGNULL = 1, Parrot_str_to_int = id, Parrot_str_from_int = id,
     Parrot_str_to_num = id, Parrot_str_from_num = id, VTABLE_get_integer = id, VTABLE_get_string = id,
     VTABLE_get_number = id, Parrot_pmc_box_integer = id, Parrot_pmc_box_string = id, Parrot_pmc_box_number = id,
     num_to_int = id, int_to_num = id, is_Key = \<lambda>_. False, Parrot_key_type = \<lambda>_. KEY_other_FLAG,
     Parrot_key_integer = id, Parrot_key_string = id, Parrot_key_pmc = id\<rparr>"

lemma plain_conv_truncate: "hash_env.truncate plain_conv = plain_env"
  by (simp add: plain_conv_def hash_env.defs)

theorem Parrot_hash_update_lookup_witness:
  "\<exists>h'. Parrot_hash_update plain_conv empty_int_hash one_entry = Done h' \<and> Parrot_hash_get plain_env h' 5 = Some 7"
proof -
  have "(5, 7) \<in># hash_dict one_entry" "hash_compare plain_env one_entry 5 5"
    by (simp_all add: one_entry(2) one_entry_compare)
  then have "Parrot_hash_get plain_env one_entry 5 = Some 7" "Parrot_hash_exists plain_env one_entry 5 = Some True"
    using lookup_ok [OF one_entry(1), of 5] by blast+
  moreover have "key_type empty_int_hash = key_type one_entry" "entry_type empty_int_hash = entry_type one_entry"
    "size (hash_dict empty_int_hash) + size (hash_dict one_entry) \<le> 2 ^ 62"
    "entries empty_int_hash = 0 \<longrightarrow> hash_blank empty_int_hash"
    by (simp_all add: one_entry one_entry_types empty_int_hash_sel)
  ultimately show ?thesis
    using Parrot_hash_update_lookup [where C = plain_conv and h = empty_int_hash and other = one_entry,
      unfolded plain_conv_truncate, OF empty_int_hash(1) one_entry(1) one_entry_scannable] by fastforce
qed

definition emptied_hash :: hash where
  "emptied_hash = the (Parrot_hash_delete plain_env one_entry 5)"

definition two_entries :: hash where
  "two_entries = the (hash_put plain_env one_entry 6 8)"

text \<open>
  Updating a table that has lost all its entries gives its buckets back but keeps
  its free list, behind the new buckets.  When the new buckets are used up, the next
  put takes a bucket of the memory given back instead of doubling the table.
\<close>

theorem Parrot_hash_update_emptied:
  "Parrot_hash_update plain_conv empty_int_hash two_entries \<noteq> Undefined
   \<and> (case Parrot_hash_update plain_conv empty_int_hash two_entries of
        Done h \<Rightarrow> Parrot_hash_put plain_env h 9 9 \<noteq> None | _ \<Rightarrow> False)
   \<and> (case Parrot_hash_update plain_conv emptied_hash two_entries of
        Done h \<Rightarrow> Parrot_hash_put plain_env h 9 9 = None | _ \<Rightarrow> False)"
  by code_simp

end
