(* ===== verification/Parrot_Hash_Misc.thy ===== *)
theory Parrot_Hash_Misc
  imports Parrot_Hash_Bulk
begin

text \<open>
  Marking and conversions, and the remaining functions of \<open>src/hash.c\<close>: hashing buffers
  and pointers, destroying C tables, flattening one aggregate into another.
\<close>

section \<open>Marking\<close>

fun mark_addr :: "gc_mark \<Rightarrow> u64" where
  "mark_addr (Mark_STRING p) = p"
| "mark_addr (Mark_PMC p) = p"
| "mark_addr (Mark_PObj p) = p"

definition collected_key :: "hash_key_type \<Rightarrow> bool" where
  "collected_key kt \<longleftrightarrow> kt \<in> {Hash_key_type_STRING, Hash_key_type_STRING_enc, Hash_key_type_PMC, Hash_key_type_PMC_ptr}"

definition collected_value :: "parrot_data_type \<Rightarrow> bool" where
  "collected_value et \<longleftrightarrow> et \<in> {enum_type_STRING, enum_type_PMC}"

lemma those_marks:
  assumes "\<forall>b \<in> set bs. f b \<noteq> 0"
  shows "those (map (\<lambda>b. mark_alive m (f b)) bs) = Some (map (m \<circ> f) bs)"
  unfolding comp_def by (rule those_map_Some) (use assms in \<open>simp add: mark_alive_def\<close>)

lemma those_marks_two:
  assumes "\<forall>b \<in> set bs. b_key b \<noteq> 0 \<and> b_value b \<noteq> 0"
  shows "those (map (mark_two mk mv) bs) = Some (map (\<lambda>b. [mk (b_key b), mv (b_value b)]) bs)"
  by (rule those_map_Some) (use assms in \<open>simp add: mark_two_def mark_alive_def\<close>)

lemma mset_two: "mset (map mark_addr (concat (map (\<lambda>b. [mk (f b), mv (g b)]) bs)))
    = image_mset (mark_addr \<circ> mk \<circ> f) (mset bs) + image_mset (mark_addr \<circ> mv \<circ> g) (mset bs)"
  by (induction bs) simp_all

lemma marks_of:
  assumes bs: "parrot_hash_iterate h = Some bs" and ne: "buckets h \<noteq> []"
    and nn: "\<forall>b \<in> set bs. b_key b \<noteq> 0 \<and> b_value b \<noteq> 0"
  shows "\<exists>ms. Parrot_hash_mark h = Some ms \<and> mset (map mark_addr ms) =
      (if collected_key (key_type h) then image_mset b_key (mset bs) else {#})
      + (if collected_value (entry_type h) then image_mset b_value (mset bs) else {#})"
proof -
  have addr: "mark_addr \<circ> m \<circ> f = f" if "m \<in> {Mark_STRING, Mark_PMC, Mark_PObj}" for m and f :: "hash_bucket \<Rightarrow> u64"
    using that by (auto simp: fun_eq_iff)
  have key: "parrot_mark_hash_keys h = Some (map ((if key_type h = Hash_key_type_STRING \<or> key_type h = Hash_key_type_STRING_enc
      then Mark_STRING else Mark_PMC) \<circ> b_key) bs)"
    using bs nn those_marks [of bs b_key] by (simp add: parrot_mark_hash_keys_def)
  have val: "parrot_mark_hash_values h = Some (map ((if entry_type h = enum_type_STRING then Mark_STRING else Mark_PMC) \<circ> b_value) bs)"
    if "collected_value (entry_type h)"
    using bs nn those_marks [of bs b_value] that by (auto simp: parrot_mark_hash_values_def collected_value_def)
  have both: "\<exists>mk mv. parrot_mark_hash_both h = Some (concat (map (\<lambda>b. [mk (b_key b), mv (b_value b)]) bs))
      \<and> mk \<in> {Mark_STRING, Mark_PMC, Mark_PObj} \<and> mv \<in> {Mark_STRING, Mark_PMC, Mark_PObj}"
    using bs those_marks_two [OF nn] by (auto simp: parrot_mark_hash_both_def)
  note a = addr [of Mark_STRING] addr [of Mark_PMC] addr [of Mark_PObj]
  consider "collected_key (key_type h)" "collected_value (entry_type h)"
    | "collected_key (key_type h)" "\<not> collected_value (entry_type h)"
    | "\<not> collected_key (key_type h)" "collected_value (entry_type h)"
    | "\<not> collected_key (key_type h)" "\<not> collected_value (entry_type h)" by blast
  then show ?thesis
  proof cases
    case 1
    then have m: "Parrot_hash_mark h = parrot_mark_hash_both h"
      using ne by (auto simp: Parrot_hash_mark_def collected_key_def collected_value_def)
    obtain mk mv where mm: "parrot_mark_hash_both h = Some (concat (map (\<lambda>b. [mk (b_key b), mv (b_value b)]) bs))"
      "mk \<in> {Mark_STRING, Mark_PMC, Mark_PObj}" "mv \<in> {Mark_STRING, Mark_PMC, Mark_PObj}" using both by blast
    show ?thesis unfolding m mm(1) using 1 by (simp add: mset_two addr [OF mm(2)] addr [OF mm(3)] del: mset_map)
  next
    case 2
    then have "Parrot_hash_mark h = parrot_mark_hash_keys h"
      using ne by (auto simp: Parrot_hash_mark_def collected_key_def collected_value_def)
    then show ?thesis using key 2 a by (auto simp: image_mset.compositionality comp_assoc [symmetric])
  next
    case 3
    then have "Parrot_hash_mark h = parrot_mark_hash_values h"
      using ne by (auto simp: Parrot_hash_mark_def collected_key_def collected_value_def)
    then show ?thesis using val 3 a by (auto simp: image_mset.compositionality comp_assoc [symmetric])
  next
    case 4
    then have "Parrot_hash_mark h = Some []"
      using ne by (auto simp: Parrot_hash_mark_def collected_key_def collected_value_def)
    then show ?thesis using 4 by simp
  qed
qed

text \<open>
  Marking a well-formed table without \<open>NULL\<close> keys and values never fails an
  assertion and marks every key and every value that the collector owns, each once
  for its entry, and nothing else.
\<close>

theorem Parrot_hash_mark_covers:
  assumes "hash_ok E h" and "\<forall>kv \<in># hash_dict h. fst kv \<noteq> 0 \<and> snd kv \<noteq> 0"
  shows "\<exists>ms. Parrot_hash_mark h = Some ms \<and> mset (map mark_addr ms) =
      (if collected_key (key_type h) then image_mset fst (hash_dict h) else {#})
      + (if collected_value (entry_type h) then image_mset snd (hash_dict h) else {#})"
  using assms(1)
proof (cases rule: hash_ok_cases)
  case blank
  then show ?thesis by (simp add: Parrot_hash_mark_def hash_blank_def)
next
  case (rep cs fr)
  have "scannable h" using assms(2) by (auto simp: scannable_def)
  then obtain bs where bs: "parrot_hash_iterate h = Some bs" "mset (map entry_of bs) = hash_dict h"
    using iterate_ok [OF assms(1)] by blast
  have "buckets h \<noteq> []" using rep(1) by (auto simp: hash_rep_def)
  moreover have "\<forall>b \<in> set bs. b_key b \<noteq> 0 \<and> b_value b \<noteq> 0"
    using assms(2) unfolding bs(2) [symmetric] by simp
  moreover note marks_of [OF bs(1) calculation]
  moreover have "image_mset fst (hash_dict h) = image_mset b_key (mset bs)"
    "image_mset snd (hash_dict h) = image_mset b_value (mset bs)"
    unfolding bs(2) [symmetric] by (simp_all add: image_mset.compositionality comp_def)
  ultimately show ?thesis by (simp only:)
qed

theorem Parrot_hash_mark_covers_witness:
  "\<exists>ms. Parrot_hash_mark one_entry = Some ms \<and> mset (map mark_addr ms) = {#}"
proof -
  have "\<forall>kv \<in># hash_dict one_entry. fst kv \<noteq> 0 \<and> snd kv \<noteq> 0" by (simp add: one_entry(2))
  from Parrot_hash_mark_covers [OF one_entry(1) this] show ?thesis
    by (simp add: one_entry_types collected_key_def collected_value_def)
qed

section \<open>Conversions\<close>

text \<open>
  The conversions of integers to stored keys and values are undone by the
  conversions back, for the types both accept, and throw for the other types; so do
  the conversions of strings, but for integer tables.  The string and PMC functions
  must undo each other.
\<close>

theorem Parrot_hash_conversions:
  assumes "\<forall>i. Parrot_str_to_int C (Parrot_str_from_int C i) = i"
    and "\<forall>i. VTABLE_get_integer C (Parrot_pmc_box_integer C i) = i"
    and "\<forall>s. VTABLE_get_string C (Parrot_pmc_box_string C s) = s"
  shows "obind (Parrot_hash_key_from_int C h i) (Parrot_hash_key_to_int C h) =
      (if key_type h \<in> {Hash_key_type_cstring, Hash_key_type_ptr} then Thrown ''Hash: unsupported key_type'' else Done i)
    \<and> (key_type h \<noteq> Hash_key_type_int \<longrightarrow>
        obind (Parrot_hash_key_from_string C h s) (Parrot_hash_key_to_string C h) =
          (if key_type h \<in> {Hash_key_type_cstring, Hash_key_type_ptr} then Thrown ''Hash: unsupported key_type'' else Done s))
    \<and> obind (Parrot_hash_value_from_int C h i) (Parrot_hash_value_to_int C h) =
      (if entry_type h \<in> {enum_type_INTVAL, enum_type_PMC, enum_type_STRING} then Done i
       else Thrown ''Hash: unsupported entry_type'')
    \<and> (entry_type h \<in> {enum_type_PMC, enum_type_STRING} \<and> \<not> STRING_IS_NULL C s \<longrightarrow>
        obind (Parrot_hash_value_from_string C h s) (Parrot_hash_value_to_string C h) = Done s)"
proof (intro conjI impI, goal_cases)
  case 1
  show ?case using assms by (cases "key_type h") (simp_all add: Parrot_hash_key_from_int_def Parrot_hash_key_to_int_def)
next
  case 2
  then show ?case using assms
    by (cases "key_type h") (simp_all add: Parrot_hash_key_from_string_def Parrot_hash_key_to_string_def)
next
  case 3
  show ?case using assms
    by (cases "entry_type h") (simp_all add: Parrot_hash_value_from_int_def Parrot_hash_value_to_int_def)
next
  case 4
  then show ?case using assms
    by (cases "entry_type h") (simp_all add: Parrot_hash_value_from_string_def Parrot_hash_value_to_string_def)
qed

theorem Parrot_hash_conversions_witness:
  "obind (Parrot_hash_key_from_int plain_conv one_entry 3) (Parrot_hash_key_to_int plain_conv one_entry) = Done 3"
proof -
  have "\<forall>i. Parrot_str_to_int plain_conv (Parrot_str_from_int plain_conv i) = i"
    "\<forall>i. VTABLE_get_integer plain_conv (Parrot_pmc_box_integer plain_conv i) = i"
    "\<forall>s. VTABLE_get_string plain_conv (Parrot_pmc_box_string plain_conv s) = s"
    by (simp_all add: plain_conv_def hash_env.defs)
  from Parrot_hash_conversions [OF this, of one_entry 3] show ?thesis by (simp add: one_entry_types)
qed

section \<open>Destroying a table of C memory\<close>

text \<open>
  The calls of \<open>mem_gc_free\<close> and of the callback, in their order; giving memory back is
  outside the model.
\<close>

datatype c_free = Mem_gc_free u64 | Value_free u64

definition Parrot_hash_chash_destroy :: "hash \<Rightarrow> c_free list option" where
  "Parrot_hash_chash_destroy h =
     do {
       bs \<leftarrow> parrot_hash_iterate h;
       Parrot_hash_destroy h;
       Some (concat (map (\<lambda>b. [Mem_gc_free (b_key b), Mem_gc_free (b_value b)]) bs))
     }"

definition Parrot_hash_chash_destroy_values :: "hash \<Rightarrow> c_free list option" where
  "Parrot_hash_chash_destroy_values h =
     do {
       bs \<leftarrow> parrot_hash_iterate h;
       Parrot_hash_destroy h;
       Some (concat (map (\<lambda>b. [Mem_gc_free (b_key b), Value_free (b_value b)]) bs))
     }"

lemma mset_calls: "mset (concat (map (\<lambda>b. [f (b_key b), g (b_value b)]) bs))
    = image_mset (f \<circ> fst) (mset (map entry_of bs)) + image_mset (g \<circ> snd) (mset (map entry_of bs))"
  by (induction bs) simp_all

text \<open>
  Destroying a well-formed C table frees each key and each value exactly once, and
  the bucket store afterwards; with a callback the values go to the callback instead.
\<close>

theorem Parrot_hash_chash_destroy_frees:
  assumes "hash_ok E h" and "scannable h"
  shows "\<exists>cs vs. Parrot_hash_chash_destroy h = Some cs
    \<and> mset cs = image_mset (Mem_gc_free \<circ> fst) (hash_dict h) + image_mset (Mem_gc_free \<circ> snd) (hash_dict h)
    \<and> Parrot_hash_chash_destroy_values h = Some vs
    \<and> mset vs = image_mset (Mem_gc_free \<circ> fst) (hash_dict h) + image_mset (Value_free \<circ> snd) (hash_dict h)"
proof -
  obtain bs where bs: "parrot_hash_iterate h = Some bs" "mset (map entry_of bs) = hash_dict h"
    using iterate_ok [OF assms] by blast
  show ?thesis unfolding Parrot_hash_chash_destroy_def Parrot_hash_chash_destroy_values_def bs(1) destroy_ok [OF assms(1)]
    by (simp add: mset_calls bs(2) del: mset_concat mset_map)
qed

theorem Parrot_hash_chash_destroy_frees_witness:
  "\<exists>vs. Parrot_hash_chash_destroy_values one_entry = Some vs \<and> mset vs = {#Mem_gc_free 5, Value_free 7#}"
  using Parrot_hash_chash_destroy_frees [OF one_entry(1) one_entry_scannable] by (auto simp: one_entry(2))

section \<open>Hashing buffers and pointers\<close>

definition swap_bits :: "u8 \<Rightarrow> u8" where
  "swap_bits c = fold (\<lambda>j tmp. tmp OR push_bit (8 - j - 1) (1 AND drop_bit j c)) [0..<8] 0"

definition byte_of :: "u64 \<Rightarrow> nat \<Rightarrow> u8" where
  "byte_of h i = ucast (drop_bit (8 * i) h)"

definition set_byte :: "u64 \<Rightarrow> nat \<Rightarrow> u8 \<Rightarrow> u64" where
  "set_byte h i b = (h AND NOT (push_bit (8 * i) 255)) OR push_bit (8 * i) (ucast b)"

definition Parrot_hash_pointer :: "u64 \<Rightarrow> u64 \<Rightarrow> u64" where
  "Parrot_hash_pointer p hashval =
     fold (\<lambda>i h. set_byte h i (swap_bits (byte_of h i))) [0..<8] (hashval XOR p)"

lemma bit_swap_upto:
  assumes "m \<le> 8"
  shows "bit (fold (\<lambda>j tmp. tmp OR push_bit (8 - j - 1) (1 AND drop_bit j c)) [0..<m] (0 :: u8)) n
    \<longleftrightarrow> (\<exists>j < m. n = 8 - j - 1 \<and> bit c j)"
  using assms
proof (induction m)
  case (Suc m)
  have "bit (push_bit (8 - m - 1) (1 AND drop_bit m c)) n \<longleftrightarrow> n = 8 - m - 1 \<and> bit c m" if "m < 8"
    using that by (auto simp: bit_simps)
  then show ?case using Suc by (auto simp: bit_or_iff less_Suc_eq)
qed simp

lemma bit_swap_bits: "bit (swap_bits c) n \<longleftrightarrow> n < 8 \<and> bit c (7 - n)"
proof -
  have "(\<exists>j < 8. n = 8 - j - 1 \<and> bit c j) \<longleftrightarrow> n < 8 \<and> bit c (7 - n)"
    by (auto intro!: exI [of _ "7 - n"])
  then show ?thesis unfolding swap_bits_def bit_swap_upto [OF order_refl] .
qed

lemma swap_bits_inj: "swap_bits a = swap_bits b \<longleftrightarrow> a = b"
proof
  assume s: "swap_bits a = swap_bits b"
  show "a = b"
  proof (rule bit_word_eqI)
    fix n assume "n < LENGTH(8)"
    then have "7 - n < 8" "7 - (7 - n) = n" by auto
    then have "bit (swap_bits a) (7 - n) = bit a n" "bit (swap_bits b) (7 - n) = bit b n"
      unfolding bit_swap_bits by simp_all
    then show "bit a n = bit b n" using s by simp
  qed
qed simp

lemma bit_byte_of: "bit (byte_of h i) n \<longleftrightarrow> n < 8 \<and> bit h (8 * i + n)"
  by (auto simp: byte_of_def bit_simps dest: bit_imp_le_length)

lemma set_byte_mask: "set_byte h i b = (h AND NOT (push_bit (8 * i) (Bit_Operations.mask 8))) OR push_bit (8 * i) (ucast b)"
proof -
  have "(255 :: u64) = Bit_Operations.mask 8" by (simp add: mask_eq_exp_minus_1)
  then show ?thesis by (simp only: set_byte_def)
qed

lemma byte_of_set_byte:
  assumes "i < 8" "j < 8"
  shows "byte_of (set_byte h i b) j = (if i = j then b else byte_of h j)"
proof (rule bit_word_eqI)
  fix n assume "n < LENGTH(8)"
  then have n: "n < 8" by simp
  show "bit (byte_of (set_byte h i b) j) n = bit (if i = j then b else byte_of h j) n"
  proof (cases "i = j")
    case True
    then show ?thesis using n assms unfolding set_byte_mask by (auto simp: bit_byte_of bit_simps)
  next
    case False
    then have "\<not> 8 * i \<le> 8 * j + n \<or> 8 \<le> 8 * j + n - 8 * i" using n by auto
    then show ?thesis using n assms False unfolding set_byte_mask
      by (auto simp: bit_byte_of bit_simps dest: bit_imp_le_length)
  qed
qed

lemma byte_of_inj:
  assumes "\<forall>i < 8. byte_of a i = byte_of b i"
  shows "a = b"
proof (rule bit_word_eqI)
  fix n assume "n < LENGTH(64)"
  then have "n div 8 < 8" "n mod 8 < 8" "8 * (n div 8) + n mod 8 = n" by auto
  then show "bit a n = bit b n" using assms bit_byte_of [of a "n div 8" "n mod 8"] bit_byte_of [of b "n div 8" "n mod 8"]
    by metis
qed

lemma swap_bytes:
  assumes "m \<le> 8" "j < 8"
  shows "byte_of (fold (\<lambda>i h. set_byte h i (swap_bits (byte_of h i))) [0..<m] h) j
    = (if j < m then swap_bits (byte_of h j) else byte_of h j)"
  using assms(1)
proof (induction m)
  case (Suc m)
  then show ?case using assms(2) by (auto simp: byte_of_set_byte less_Suc_eq)
qed simp

text \<open>
  \<open>Parrot_hash_buffer\<close> reads exactly its buffer, in one or several pieces, and on the
  bytes of a C string it is the hash of the C string; \<open>Parrot_hash_pointer\<close> is a perfect
  hash: it tells any two pointers apart.
\<close>

theorem Parrot_hash_functions:
  "Parrot_hash_buffer (cstr_at E v) (length (cstr_at E v)) sd = Some (key_hash_cstring E v sd)
   \<and> Parrot_hash_buffer (buf @ rest) (length buf + len) hv
       = Option.bind (Parrot_hash_buffer buf (length buf) hv) (Parrot_hash_buffer rest len)
   \<and> (Parrot_hash_buffer buf len hv = None \<longleftrightarrow> length buf < len)
   \<and> (Parrot_hash_pointer p hv = Parrot_hash_pointer q hv \<longleftrightarrow> p = q)"
proof (intro conjI)
  show "Parrot_hash_buffer (cstr_at E v) (length (cstr_at E v)) sd = Some (key_hash_cstring E v sd)"
  proof -
    have "Parrot_hash_buffer b (length b) sd = Some (key_hash_cstring_from b sd)" for b
      by (induction b arbitrary: sd) (simp_all add: Let_def)
    then show ?thesis by (simp add: key_hash_cstring_def)
  qed
  show "Parrot_hash_buffer (buf @ rest) (length buf + len) hv
       = Option.bind (Parrot_hash_buffer buf (length buf) hv) (Parrot_hash_buffer rest len)"
    by (induction buf arbitrary: hv) (simp_all add: Let_def)
  show "Parrot_hash_buffer buf len hv = None \<longleftrightarrow> length buf < len"
    by (induction buf len hv rule: Parrot_hash_buffer.induct) (simp_all add: Let_def)
  show "Parrot_hash_pointer p hv = Parrot_hash_pointer q hv \<longleftrightarrow> p = q"
  proof
    assume e: "Parrot_hash_pointer p hv = Parrot_hash_pointer q hv"
    have "byte_of (hv XOR p) i = byte_of (hv XOR q) i" if "i < 8" for i
      using that swap_bytes [of 8 i "hv XOR p"] swap_bytes [of 8 i "hv XOR q"] e
      unfolding Parrot_hash_pointer_def by (simp add: swap_bits_inj)
    then have "hv XOR p = hv XOR q" by (intro byte_of_inj) simp
    then have "hv XOR (hv XOR p) = hv XOR (hv XOR q)" by simp
    then show "p = q" by (simp add: xor.assoc [symmetric])
  qed simp
qed

section \<open>Flattening\<close>

text \<open>
  The destination is a PMC, used through \<open>VTABLE_set_pmc_keyed_str\<close> and
  \<open>VTABLE_exists_keyed_str\<close>, which are parameters.
\<close>

definition flatten_bucket ::
  "conv_env \<Rightarrow> ('d \<Rightarrow> u64 \<Rightarrow> u64 \<Rightarrow> 'd) \<Rightarrow> ('d \<Rightarrow> u64 \<Rightarrow> bool) \<Rightarrow> bool \<Rightarrow> hash \<Rightarrow> 'd \<Rightarrow> hash_bucket \<Rightarrow> 'd outcome" where
  "flatten_bucket C set_keyed exists_keyed overwrite src_hash dest b =
     (if overwrite \<or> \<not> exists_keyed dest (b_key b)
      then obind (Parrot_hash_value_to_pmc C src_hash (b_value b)) (\<lambda>v. Done (set_keyed dest (b_key b) v))
      else Done dest)"

definition Parrot_hash_flatten_hash_into ::
  "conv_env \<Rightarrow> ('d \<Rightarrow> u64 \<Rightarrow> u64 \<Rightarrow> 'd) \<Rightarrow> ('d \<Rightarrow> u64 \<Rightarrow> bool) \<Rightarrow> 'd \<Rightarrow> hash \<Rightarrow> bool \<Rightarrow> 'd outcome" where
  "Parrot_hash_flatten_hash_into C set_keyed exists_keyed dest src_hash overwrite =
     obind (defined (parrot_hash_iterate src_hash)) (\<lambda>bs.
     ofold (flatten_bucket C set_keyed exists_keyed overwrite src_hash) bs dest)"

text \<open>Flattening into a map: the entries of the table are laid over or under it.\<close>

lemma flatten_into_map:
  assumes "\<forall>b \<in> set bs. Parrot_hash_value_to_pmc C src_hash (b_value b) = Done (f (b_value b))"
    and "distinct (map b_key bs)"
  shows "ofold (flatten_bucket C (\<lambda>d k v. d(k \<mapsto> v)) (\<lambda>d k. d k \<noteq> None) overwrite src_hash) bs dest
    = Done (if overwrite then dest ++ map_of (map (\<lambda>b. (b_key b, f (b_value b))) bs)
            else map_of (map (\<lambda>b. (b_key b, f (b_value b))) bs) ++ dest)"
  using assms
proof (induction bs arbitrary: dest)
  case (Cons b bs)
  have n: "b_key b \<notin> fst ` set (map (\<lambda>b. (b_key b, f (b_value b))) bs)" using Cons.prems(2) by force
  then have m: "map_of (map (\<lambda>b. (b_key b, f (b_value b))) bs) (b_key b) = None"
    by (simp add: map_of_eq_None_iff)
  show ?case
    using Cons m by (auto simp: flatten_bucket_def fun_eq_iff map_add_def split: option.split)
qed simp

end
