(* ===== verification/Str_Base.thy ===== *)
theory Str_Base
  imports Parrot_Base
begin

text \<open>
  Parrot strings, \<open>include/parrot/string.h\<close>, \<open>include/parrot/pobj.h\<close> and
  \<open>src/string/encoding/unicode.h\<close>: the string header, iterators, scan bounds, and the
  macros of the Unicode encodings.

  The storage a string points to is the list of its bytes from \<open>strstart\<close> on.  Positions
  and lengths are natural numbers (no storage has \<open>2 ^ 63\<close> bytes); a position in front
  of the storage, where the unsigned arithmetic of the code wraps around, is \<open>None\<close>.
  Code points are 64-bit words, \<open>UINTVAL\<close>.
\<close>

section \<open>Strings, iterators, bounds\<close>

datatype encoding_ptr =
    Parrot_ascii_encoding_ptr | Parrot_latin1_encoding_ptr | Parrot_binary_encoding_ptr
  | Parrot_utf8_encoding_ptr | Parrot_utf16_encoding_ptr | Parrot_ucs2_encoding_ptr
  | Parrot_ucs4_encoding_ptr

record parrot_string =
  strstart :: "u8 list"
  bufused :: nat
  strlen :: nat
  hashval :: u64
  encoding :: encoding_ptr

record string_iter =
  bytepos :: nat
  charpos :: nat

definition STRING_ITER_INIT :: string_iter where
  "STRING_ITER_INIT = \<lparr>bytepos = 0, charpos = 0\<rparr>"

text \<open>\<open>delim\<close> is the bit pattern of an \<open>INTVAL\<close>, \<open>- 1\<close> for none.\<close>

record string_bounds =
  bnd_bytes :: nat
  bnd_chars :: int
  bnd_delim :: u64

definition move :: "nat \<Rightarrow> int \<Rightarrow> nat option" where
  "move p n = (if 0 \<le> int p + n then Some (nat (int p + n)) else None)"

section \<open>Unicode\<close>

definition UNICODE_SURROGATE_MASK :: u64 where "UNICODE_SURROGATE_MASK = 0x3FF"
definition UNICODE_HIGH_SURROGATE_FIRST :: u64 where "UNICODE_HIGH_SURROGATE_FIRST = 0xD800"
definition UNICODE_LOW_SURROGATE_FIRST :: u64 where "UNICODE_LOW_SURROGATE_FIRST = 0xDC00"

definition UNICODE_IS_SURROGATE :: "u64 \<Rightarrow> bool" where
  "UNICODE_IS_SURROGATE c \<longleftrightarrow> c \<ge> 0xD800 \<and> c \<le> 0xDFFF"

definition UNICODE_IS_HIGH_SURROGATE :: "u64 \<Rightarrow> bool" where
  "UNICODE_IS_HIGH_SURROGATE c \<longleftrightarrow> c AND NOT UNICODE_SURROGATE_MASK = UNICODE_HIGH_SURROGATE_FIRST"

definition UNICODE_IS_LOW_SURROGATE :: "u64 \<Rightarrow> bool" where
  "UNICODE_IS_LOW_SURROGATE c \<longleftrightarrow> c AND NOT UNICODE_SURROGATE_MASK = UNICODE_LOW_SURROGATE_FIRST"

definition UNICODE_IS_INVARIANT :: "u64 \<Rightarrow> bool" where
  "UNICODE_IS_INVARIANT c \<longleftrightarrow> c < 0x80"

definition UNICODE_IS_NON_CHARACTER :: "u64 \<Rightarrow> bool" where
  "UNICODE_IS_NON_CHARACTER c \<longleftrightarrow> c AND 0xFFFE = 0xFFFE \<or> (c \<ge> 0xFDD0 \<and> c \<le> 0xFDEF)"

definition UNICODE_IS_INVALID :: "u64 \<Rightarrow> bool" where
  "UNICODE_IS_INVALID c \<longleftrightarrow> c \<ge> 0xD800 \<and>
     (if c \<le> 0xFDEF then c \<le> 0xDFFF \<or> c \<ge> 0xFDD0
      else c AND 0xFFFE = 0xFFFE \<or> c > 0x10FFFF)"

definition UNICODE_HIGH_SURROGATE :: "u64 \<Rightarrow> u64" where
  "UNICODE_HIGH_SURROGATE c = drop_bit 10 c + (UNICODE_HIGH_SURROGATE_FIRST - drop_bit 10 0x10000)"

definition UNICODE_LOW_SURROGATE :: "u64 \<Rightarrow> u64" where
  "UNICODE_LOW_SURROGATE c = (c AND UNICODE_SURROGATE_MASK) OR UNICODE_LOW_SURROGATE_FIRST"

definition UNICODE_DECODE_SURROGATE :: "u64 \<Rightarrow> u64 \<Rightarrow> u64" where
  "UNICODE_DECODE_SURROGATE high low =
     push_bit 10 high + low
     - (push_bit 10 UNICODE_HIGH_SURROGATE_FIRST + UNICODE_LOW_SURROGATE_FIRST - 0x10000)"

definition UNISKIP :: "u64 \<Rightarrow> nat" where
  "UNISKIP uv = (if uv < 0x80 then 1 else if uv < 0x800 then 2 else if uv < 0x10000 then 3 else 4)"

definition UTF16SKIP :: "u64 \<Rightarrow> nat" where
  "UTF16SKIP c = (if UNICODE_IS_HIGH_SURROGATE c then 2 else 1)"

definition UTF8_IS_START :: "u64 \<Rightarrow> bool" where
  "UTF8_IS_START c \<longleftrightarrow> c \<ge> 0xC2 \<and> c \<le> 0xF4"

definition UTF8_IS_CONTINUATION :: "u64 \<Rightarrow> bool" where
  "UTF8_IS_CONTINUATION c \<longleftrightarrow> c AND 0xC0 = 0x80"

definition UTF8_START_MARK :: "nat \<Rightarrow> u64" where
  "UTF8_START_MARK len = drop_bit len 0xFF00 AND 0xFF"

definition UTF8_START_MASK :: "nat \<Rightarrow> u64" where
  "UTF8_START_MASK len = drop_bit len 0x7F"

definition UTF8_CONTINUATION_MARK :: u64 where "UTF8_CONTINUATION_MARK = 0x80"
definition UTF8_CONTINUATION_MASK :: u64 where "UTF8_CONTINUATION_MASK = 0x3F"
definition UTF8_ACCUMULATION_SHIFT :: nat where "UTF8_ACCUMULATION_SHIFT = 6"

definition UTF8_ACCUMULATE :: "u64 \<Rightarrow> u64 \<Rightarrow> u64" where
  "UTF8_ACCUMULATE old new = push_bit UTF8_ACCUMULATION_SHIFT old OR (new AND UTF8_CONTINUATION_MASK)"

definition UTF8_IS_OVERLONG :: "u64 \<Rightarrow> u64 \<Rightarrow> bool" where
  "UTF8_IS_OVERLONG c1 c2 \<longleftrightarrow> (c1 = 0xE0 \<and> c2 < 0xA0) \<or> (c1 = 0xF0 \<and> c2 < 0x90)"

section \<open>Exceptions of the string functions\<close>

definition encoding_ord_error :: "nat \<Rightarrow> int \<Rightarrow> 'a outcome" where
  "encoding_ord_error len offset =
     Thrown (if len = 0 then ''Cannot get character of empty string''
             else if offset \<ge> 0 then ''Cannot get character past end of string''
             else ''Cannot get character before beginning of string'')"

text \<open>The index check of the \<open>ord\<close> functions: a negative index counts from the end.\<close>

definition ord_index :: "nat \<Rightarrow> int \<Rightarrow> nat outcome" where
  "ord_index len idx =
     (let idx = (if idx < 0 then idx + int len else idx)
      in if idx < 0 \<or> int len \<le> idx then encoding_ord_error len idx else Done (nat idx))"

section \<open>Lemmas on reads and words\<close>

lemma rd_append [simp]: "rd (xs @ ys) (length xs + n) = rd ys n"
  by (simp add: rd_def nth_append)

lemma rd_append_0 [simp]: "rd (xs @ ys) (length xs) = rd ys 0"
  using rd_append [of xs ys 0] by simp

lemma rd_Cons_0 [simp]: "rd (x # xs) 0 = Some x"
  by (simp add: rd_def)

lemma rd_Cons_Suc [simp]: "rd (x # xs) (Suc n) = rd xs n"
  by (simp add: rd_def)

lemma rd_Nil [simp]: "rd [] n = None"
  by (simp add: rd_def)

lemma unat_p2: "k < LENGTH('a) \<Longrightarrow> unat (2 ^ k :: 'a::len word) = 2 ^ k"
proof -
  assume k: "k < LENGTH('a)"
  have "unat (word_of_nat (2 ^ k) :: 'a word) = 2 ^ k"
    by (rule unat_of_nat_small) (use k in \<open>simp add: power_strict_increasing_iff\<close>)
  then show ?thesis by simp
qed

lemma unat_less_p2: "k < LENGTH('a) \<Longrightarrow> (x :: 'a::len word) < 2 ^ k \<longleftrightarrow> unat x < 2 ^ k"
  by (simp add: word_less_nat_alt unat_p2)

lemma high_bits_0:
  assumes "(x :: 'a::len word) < 2 ^ k" "k \<le> n"
  shows "\<not> bit x n"
proof (cases "k < LENGTH('a)")
  case True
  then have "take_bit k (unat x) = unat x" using assms(1) by (simp add: unat_less_p2 take_bit_nat_eq_self)
  then have "bit (unat x) n = bit (take_bit k (unat x)) n" by simp
  then have "\<not> bit (unat x) n" using assms(2) by (simp add: bit_take_bit_iff)
  then show ?thesis using bit_imp_le_length [of x n] by (auto simp: bit_unsigned_iff)
next
  case False
  then show ?thesis using assms(2) bit_imp_le_length [of x n] by linarith
qed

lemma or_eq_plus: "(a :: 'a::len word) AND b = 0 \<Longrightarrow> a OR b = a + b"
  by (rule disjunctive_add_eq_or [symmetric])

lemma less_drop_bit:
  assumes "(c :: u64) < 2 ^ (n + k)" "n + k < 64"
  shows "drop_bit n c < 2 ^ k"
proof -
  have "unat c < 2 ^ (n + k)" using assms by (simp add: unat_less_p2)
  moreover have "take_bit 64 (unat c) = unat c" by (rule take_bit_nat_eq_self) (use unsigned_less [of c] in simp)
  then have "unat (drop_bit n c) = unat c div 2 ^ n"
    unfolding unsigned_drop_bit_eq by (simp add: drop_bit_eq_div)
  ultimately have "unat (drop_bit n c) < 2 ^ k"
    by (simp add: power_add less_mult_imp_div_less mult.commute)
  then show ?thesis using assms(2) by (simp add: unat_less_p2)
qed

end
