(* ===== verification/Str_Utf8.thy ===== *)
theory Str_Utf8
  imports Str_Base
begin

text \<open>
  The UTF-8 encoding, \<open>src/string/encoding/utf8.c\<close>.  A \<open>utf8_t *\<close> is a position in the
  storage; a read outside is \<open>None\<close>, and undefined where an exception is possible.
\<close>

section \<open>The table of lengths\<close>

definition Parrot_utf8skip :: "nat list" where
  "Parrot_utf8skip =
     replicate 128 1 @ replicate 64 1 @ replicate 32 2 @ replicate 16 3
     @ replicate 8 4 @ replicate 4 5 @ replicate 4 6"

definition UTF8SKIP :: "u8 \<Rightarrow> nat" where
  "UTF8SKIP c = Parrot_utf8skip ! unat c"

section \<open>Decoding and encoding\<close>

text \<open>The loop over the continuation bytes; \<open>check\<close> is whether it tests them.\<close>

fun utf8_decode_from :: "u8 list \<Rightarrow> nat \<Rightarrow> nat \<Rightarrow> u64 \<Rightarrow> u64 option" where
  "utf8_decode_from m 0 p c = Some c"
| "utf8_decode_from m (Suc n) p c =
     do { b \<leftarrow> rd m (p + 1); utf8_decode_from m n (p + 1) (UTF8_ACCUMULATE c (ucast b)) }"

definition utf8_decode :: "u8 list \<Rightarrow> nat \<Rightarrow> u64 option" where
  "utf8_decode m p =
     do {
       b \<leftarrow> rd m p;
       if UTF8_IS_START (ucast b)
       then (let len = UTF8SKIP b in utf8_decode_from m (len - 1) p (ucast b AND UTF8_START_MASK len))
       else Some (ucast b)
     }"

text \<open>The bytes are written from the last one back to the one after the first.\<close>

fun utf8_encode_from :: "u8 list \<Rightarrow> nat \<Rightarrow> nat \<Rightarrow> u64 \<Rightarrow> (u8 list \<times> u64) option" where
  "utf8_encode_from m ptr 0 c = Some (m, c)"
| "utf8_encode_from m ptr (Suc n) c =
     do {
       m \<leftarrow> wr m (ptr + Suc n) (ucast ((c AND UTF8_CONTINUATION_MASK) OR UTF8_CONTINUATION_MARK));
       utf8_encode_from m ptr n (drop_bit UTF8_ACCUMULATION_SHIFT c)
     }"

definition utf8_encode :: "u8 list \<Rightarrow> nat \<Rightarrow> u64 \<Rightarrow> (u8 list \<times> nat) outcome" where
  "utf8_encode m ptr c =
     (if c < 0x80 then obind (defined (wr m ptr (ucast c))) (\<lambda>m. Done (m, ptr + 1))
      else if UNICODE_IS_INVALID c then Thrown ''Invalid character for UTF-8 encoding''
      else (let len = UNISKIP c
            in obind (defined (utf8_encode_from m ptr (len - 1) c)) (\<lambda>(m, c).
               obind (defined (wr m ptr (ucast (c OR UTF8_START_MARK len)))) (\<lambda>m. Done (m, ptr + len)))))"

section \<open>Moving\<close>

fun utf8_skip_forward :: "u8 list \<Rightarrow> nat \<Rightarrow> nat \<Rightarrow> nat option" where
  "utf8_skip_forward m p 0 = Some p"
| "utf8_skip_forward m p (Suc n) = do { b \<leftarrow> rd m p; utf8_skip_forward m (p + UTF8SKIP b) n }"

text \<open>One character back: over the continuation bytes in front of the position.\<close>

fun utf8_back :: "u8 list \<Rightarrow> nat \<Rightarrow> nat option" where
  "utf8_back m 0 = None"
| "utf8_back m (Suc p) =
     do { b \<leftarrow> rd m p; if UTF8_IS_CONTINUATION (ucast b) then utf8_back m p else Some p }"

fun utf8_skip_backward :: "u8 list \<Rightarrow> nat \<Rightarrow> nat \<Rightarrow> nat option" where
  "utf8_skip_backward m p 0 = Some p"
| "utf8_skip_backward m p (Suc n) = do { p \<leftarrow> utf8_back m p; utf8_skip_backward m p n }"

definition utf8_move :: "u8 list \<Rightarrow> nat \<Rightarrow> int \<Rightarrow> nat option" where
  "utf8_move m p skip =
     (if skip > 0 then utf8_skip_forward m p (nat skip)
      else if skip < 0 then utf8_skip_backward m p (nat (- skip))
      else Some p)"

section \<open>Scanning\<close>

text \<open>The continuation bytes of one character, tested; \<open>i\<close> is the position of the last one.\<close>

fun utf8_scan_continuation :: "u8 list \<Rightarrow> nat \<Rightarrow> nat \<Rightarrow> u64 \<Rightarrow> (nat \<times> u64) outcome" where
  "utf8_scan_continuation p 0 i c = Done (i, c)"
| "utf8_scan_continuation p (Suc n) i c =
     obind (defined (rd p (i + 1))) (\<lambda>b.
     if \<not> UTF8_IS_CONTINUATION (ucast b) then Thrown ''Malformed UTF-8 string''
     else utf8_scan_continuation p n (i + 1) (UTF8_ACCUMULATE c (ucast b)))"

text \<open>
  One round of the loop of \<open>utf8_partial_scan\<close>: \<open>Inl\<close> the bytes missing of an unfinished
  character, or \<open>Inr\<close> the position of its last byte and the character.
\<close>

definition utf8_scan_char :: "u8 list \<Rightarrow> nat \<Rightarrow> nat \<Rightarrow> (nat \<times> u64 + nat \<times> u64) outcome" where
  "utf8_scan_char p len i =
     obind (defined (rd p i)) (\<lambda>b. let c = ucast b in
     if UTF8_IS_START c
     then (let len2 = UTF8SKIP b in
           if i + len2 > len then Done (Inl (i + len2 - len, c))
           else obind (defined (rd p (i + 1))) (\<lambda>b1.
                if UTF8_IS_OVERLONG c (ucast b1) then Thrown ''Overlong form in UTF-8 string''
                else obind (utf8_scan_continuation p (len2 - 1) i (c AND UTF8_START_MASK len2)) (\<lambda>(i, c).
                     if UNICODE_IS_INVALID c then Thrown ''Invalid character in UTF-8 string''
                     else Done (Inr (i, c)))))
     else if \<not> UNICODE_IS_INVARIANT c then Thrown ''Malformed UTF-8 string''
     else Done (Inr (i, c)))"

text \<open>\<open>n\<close> is how many characters may still come, \<open>max_chars - chars\<close>.\<close>

fun utf8_scan_loop :: "u8 list \<Rightarrow> nat \<Rightarrow> u64 \<Rightarrow> nat \<Rightarrow> nat \<Rightarrow> nat \<Rightarrow> u64 \<Rightarrow> (nat \<times> nat \<times> u64 \<times> nat) outcome" where
  "utf8_scan_loop p len delim 0 i chars c = Done (i, chars, c, 0)"
| "utf8_scan_loop p len delim (Suc n) i chars c =
     (if \<not> i < len then Done (i, chars, c, 0)
      else obind (utf8_scan_char p len i) (\<lambda>r.
        case r of
          Inl (res, c) \<Rightarrow> Done (i, chars, c, res)
        | Inr (i, c) \<Rightarrow>
            if c = delim then Done (i + 1, chars + 1, c, 0)
            else utf8_scan_loop p len delim n (i + 1) (chars + 1) c))"

definition utf8_partial_scan :: "u8 list \<Rightarrow> string_bounds \<Rightarrow> (nat \<times> string_bounds) outcome" where
  "utf8_partial_scan buf bounds =
     (let len = bnd_bytes bounds;
          max_chars = (if bnd_chars bounds < 0 then len else nat (bnd_chars bounds))
      in obind (utf8_scan_loop buf len (bnd_delim bounds) max_chars 0 0 (- 1)) (\<lambda>(i, chars, c, res).
         Done (res, \<lparr>bnd_bytes = i, bnd_chars = int chars, bnd_delim = c\<rparr>)))"

definition utf8_scan :: "parrot_string \<Rightarrow> parrot_string outcome" where
  "utf8_scan src =
     obind (utf8_partial_scan (strstart src) \<lparr>bnd_bytes = bufused src, bnd_chars = - 1, bnd_delim = - 1\<rparr>)
       (\<lambda>(res, bounds).
         if bnd_bytes bounds \<noteq> bufused src then Thrown ''Unaligned end in UTF-8 string''
         else Done (src\<lparr>strlen := nat (bnd_chars bounds)\<rparr>))"

definition utf8_ord :: "parrot_string \<Rightarrow> int \<Rightarrow> u64 outcome" where
  "utf8_ord src idx =
     obind (ord_index (strlen src) idx) (\<lambda>idx.
     defined (do { start \<leftarrow> utf8_skip_forward (strstart src) 0 idx; utf8_decode (strstart src) start }))"

section \<open>Iterators\<close>

definition utf8_iter_get :: "parrot_string \<Rightarrow> string_iter \<Rightarrow> int \<Rightarrow> u64 option" where
  "utf8_iter_get str i offset =
     do {
       cp \<leftarrow> move (charpos i) offset;
       c_assert (cp < strlen str);
       ptr \<leftarrow> utf8_move (strstart str) (bytepos i) offset;
       utf8_decode (strstart str) ptr
     }"

definition utf8_iter_skip :: "parrot_string \<Rightarrow> string_iter \<Rightarrow> int \<Rightarrow> string_iter option" where
  "utf8_iter_skip str i skip =
     do {
       cp \<leftarrow> move (charpos i) skip;
       c_assert (cp \<le> strlen str);
       ptr \<leftarrow> utf8_move (strstart str) (bytepos i) skip;
       c_assert (ptr \<le> bufused str);
       Some \<lparr>bytepos = ptr, charpos = cp\<rparr>
     }"

definition utf8_iter_get_and_advance :: "parrot_string \<Rightarrow> string_iter \<Rightarrow> (u64 \<times> string_iter) option" where
  "utf8_iter_get_and_advance str i =
     do {
       c \<leftarrow> utf8_decode (strstart str) (bytepos i);
       b \<leftarrow> rd (strstart str) (bytepos i);
       c_assert (bytepos i + UTF8SKIP b \<le> bufused str);
       Some (c, \<lparr>bytepos = bytepos i + UTF8SKIP b, charpos = charpos i + 1\<rparr>)
     }"

definition utf8_iter_set_and_advance :: "parrot_string \<Rightarrow> string_iter \<Rightarrow> u64 \<Rightarrow> (parrot_string \<times> string_iter) outcome" where
  "utf8_iter_set_and_advance str i c =
     obind (utf8_encode (strstart str) (bytepos i) c) (\<lambda>(m, end).
     Done (str\<lparr>strstart := m\<rparr>, \<lparr>bytepos = end, charpos = charpos i + 1\<rparr>))"

end
