(* ===== verification/Str_Scan.thy ===== *)
theory Str_Scan
  imports Str_Base
begin

text \<open>
  Scanning.  \<open>utf8_partial_scan\<close> and \<open>utf16_partial_scan\<close> have the same loop around a
  different step.  The locale states what the loop needs of the step: on the units of a
  valid code point it returns that code point, and otherwise it throws, or reports an
  unfinished character, or has found the units of a valid code point.  From this the
  loop accepts exactly the storage of lists of valid code points, and counts them.
\<close>

definition code_points :: "u64 list \<Rightarrow> bool" where
  "code_points cs \<longleftrightarrow> (\<forall>c \<in> set cs. \<not> UNICODE_IS_INVALID c)"

lemma code_points_simps [simp]: "code_points []" "code_points (c # cs) \<longleftrightarrow> \<not> UNICODE_IS_INVALID c \<and> code_points cs"
  "code_points (xs @ ys) \<longleftrightarrow> code_points xs \<and> code_points ys"
  by (auto simp: code_points_def)

lemma invalid_range: "\<not> UNICODE_IS_INVALID c \<Longrightarrow> c < 0x110000"
  by (cases "c \<ge> 0xD800"; cases "c \<le> 0xFDEF")
    (auto simp: UNICODE_IS_INVALID_def word_le_nat_alt word_less_nat_alt)

lemma valid_not_minus_1: "\<not> UNICODE_IS_INVALID c \<Longrightarrow> c \<noteq> - 1"
proof -
  have "UNICODE_IS_INVALID (- 1)" by code_simp
  then show "\<not> UNICODE_IS_INVALID c \<Longrightarrow> c \<noteq> - 1" by blast
qed

locale scanner =
  fixes scan_char :: "u8 list \<Rightarrow> nat \<Rightarrow> nat \<Rightarrow> (nat \<times> u64 + nat \<times> u64) outcome"
    and scan_loop :: "u8 list \<Rightarrow> nat \<Rightarrow> u64 \<Rightarrow> nat \<Rightarrow> nat \<Rightarrow> nat \<Rightarrow> u64 \<Rightarrow> (nat \<times> nat \<times> u64 \<times> nat) outcome"
    and width :: nat
    and chunk :: "u64 \<Rightarrow> u8 list"
    and units :: "u64 \<Rightarrow> nat"
  assumes loop_0: "scan_loop p len delim 0 i chars c = Done (i, chars, c, 0)"
    and loop_Suc: "scan_loop p len delim (Suc n) i chars c =
      (if \<not> i < len then Done (i, chars, c, 0)
       else obind (scan_char p len i) (\<lambda>r.
         case r of
           Inl (res, c) \<Rightarrow> Done (i, chars, c, res)
         | Inr (i, c) \<Rightarrow>
             if c = delim then Done (i + 1, chars + 1, c, 0)
             else scan_loop p len delim n (i + 1) (chars + 1) c))"
    and width: "0 < width"
    and chunk_length: "length (chunk c) = width * units c" "0 < units c"
    and char_valid: "\<not> UNICODE_IS_INVALID c \<Longrightarrow> length pre = width * i \<Longrightarrow> i + units c \<le> len
      \<Longrightarrow> scan_char (pre @ chunk c @ post) len i = Done (Inr (i + units c - 1, c))"
    and char_sound: "i < len \<Longrightarrow> width * len \<le> length p \<Longrightarrow>
      (\<exists>e. scan_char p len i = Thrown e) \<or> (\<exists>r c. scan_char p len i = Done (Inl (r, c)) \<and> 0 < r)
      \<or> (\<exists>c. scan_char p len i = Done (Inr (i + units c - 1, c)) \<and> \<not> UNICODE_IS_INVALID c
            \<and> i + units c \<le> len \<and> take (width * units c) (drop (width * i) p) = chunk c)"
begin

lemma sound:
  assumes "scan_loop p len (- 1) n i chars c = Done (len, chars', c', res)" "i \<le> len" "width * len \<le> length p"
  shows "\<exists>cs. code_points cs \<and> take (width * (len - i)) (drop (width * i) p) = concat (map chunk cs) \<and> chars' = chars + length cs"
  using assms
proof (induction n arbitrary: i chars c)
  case 0
  then show ?case by (intro exI [of _ "[]"]) (simp add: loop_0)
next
  case (Suc n)
  show ?case
  proof (cases "i < len")
    case False
    then show ?thesis using Suc.prems by (intro exI [of _ "[]"]) (simp add: loop_Suc)
  next
    case True
    consider e where "scan_char p len i = Thrown e" | r c where "scan_char p len i = Done (Inl (r, c))" "0 < r"
      | d where "scan_char p len i = Done (Inr (i + units d - 1, d))" "\<not> UNICODE_IS_INVALID d"
          "i + units d \<le> len" "take (width * units d) (drop (width * i) p) = chunk d"
      using char_sound [OF True Suc.prems(3)] by metis
    then show ?thesis
    proof cases
      case (3 d)
      have j: "i + units d - 1 + 1 = i + units d" using chunk_length(2) [of d] by simp
      have "scan_loop p len (- 1) n (i + units d) (chars + 1) d = Done (len, chars', c', res)"
        using Suc.prems(1) True 3(1) valid_not_minus_1 [OF 3(2)] j by (simp add: loop_Suc)
      from Suc.IH [OF this 3(3) Suc.prems(3)] obtain cs where cs: "code_points cs" "chars' = chars + 1 + length cs"
          "take (width * (len - (i + units d))) (drop (width * (i + units d)) p) = concat (map chunk cs)" by blast
      have l: "width * (len - i) = width * units d + width * (len - (i + units d))"
        using 3(3) by (simp add: distrib_left [symmetric])
      have "take (width * (len - i)) (drop (width * i) p) = concat (map chunk (d # cs))"
        unfolding l take_add using 3(4) cs(3) by (simp add: distrib_left add.commute)
      then show ?thesis using cs(1,2) 3(2) by (intro exI [of _ "d # cs"]) simp
    qed (use Suc.prems(1) True in \<open>simp_all add: loop_Suc\<close>)
  qed
qed

lemma complete:
  assumes "code_points cs" "length cs \<le> n" "length pre = width * i"
  shows "\<exists>c'. scan_loop (pre @ concat (map chunk cs) @ post) (i + sum_list (map units cs)) (- 1) n i chars c
    = Done (i + sum_list (map units cs), chars + length cs, c', 0)"
  using assms
proof (induction cs arbitrary: pre n i chars c)
  case Nil
  then show ?case by (cases n) (simp_all add: loop_0 loop_Suc)
next
  case (Cons d cs)
  obtain m where n: "n = Suc m" "length cs \<le> m" using Cons.prems(2) by (cases n) simp_all
  have d: "\<not> UNICODE_IS_INVALID d" "code_points cs" using Cons.prems(1) by simp_all
  have sc: "scan_char (pre @ chunk d @ concat (map chunk cs) @ post) (i + (units d + sum_list (map units cs))) i
      = Done (Inr (i + units d - 1, d))"
    by (rule char_valid [OF d(1) Cons.prems(3)]) simp
  have j: "Suc (i + units d - Suc 0) = i + units d" using chunk_length(2) [of d] by simp
  have "length (pre @ chunk d) = width * (i + units d)" using Cons.prems(3) chunk_length(1) by (simp add: distrib_left)
  from Cons.IH [OF d(2) n(2) this, of "Suc chars" d] obtain c' where
    "scan_loop ((pre @ chunk d) @ concat (map chunk cs) @ post) (i + units d + sum_list (map units cs)) (- 1) m
      (i + units d) (Suc chars) d = Done (i + units d + sum_list (map units cs), Suc chars + length cs, c', 0)" by blast
  then show ?case using sc n(1) j chunk_length(2) [of d] valid_not_minus_1 [OF d(1)] by (simp add: loop_Suc add.assoc)
qed

lemma no_undefined:
  assumes "width * len \<le> length p"
  shows "scan_loop p len delim n i chars c \<noteq> Undefined"
proof (induction n arbitrary: i chars c)
  case (Suc n)
  show ?case
  proof (cases "i < len")
    case True
    from char_sound [OF True assms] show ?thesis
      by (elim disjE exE conjE) (use Suc True in \<open>simp_all add: loop_Suc\<close>)
  qed (simp add: loop_Suc)
qed (simp add: loop_0)

lemma length_chunks: "length (concat (map chunk cs)) = width * sum_list (map units cs)" "length cs \<le> sum_list (map units cs)"
proof -
  show "length (concat (map chunk cs)) = width * sum_list (map units cs)"
    by (induction cs) (simp_all add: chunk_length(1) distrib_left)
  show "length cs \<le> sum_list (map units cs)"
  proof (induction cs)
    case (Cons c cs)
    then show ?case using chunk_length(2) [of c] by simp
  qed simp
qed

text \<open>The loop over a whole storage, with neither a limit nor a delimiter.\<close>

theorem scan_loop_iff:
  assumes "width * len \<le> length p"
  shows "(\<exists>c res. scan_loop p len (- 1) len 0 0 (- 1) = Done (len, chars, c, res)) \<longleftrightarrow>
    (\<exists>cs. code_points cs \<and> take (width * len) p = concat (map chunk cs) \<and> chars = length cs)"
proof
  assume "\<exists>c res. scan_loop p len (- 1) len 0 0 (- 1) = Done (len, chars, c, res)"
  then show "\<exists>cs. code_points cs \<and> take (width * len) p = concat (map chunk cs) \<and> chars = length cs"
    using sound [OF _ _ assms, of len 0 0 "- 1" chars] by auto
next
  assume "\<exists>cs. code_points cs \<and> take (width * len) p = concat (map chunk cs) \<and> chars = length cs"
  then obtain cs where cs: "code_points cs" "take (width * len) p = concat (map chunk cs)" "chars = length cs" by blast
  have "width * len = width * sum_list (map units cs)"
    using arg_cong [OF cs(2), of length] assms by (simp add: length_chunks(1))
  then have l: "len = sum_list (map units cs)" using width by simp
  have p: "p = concat (map chunk cs) @ drop (width * len) p" unfolding cs(2) [symmetric] by simp
  have "length cs \<le> len" unfolding l by (rule length_chunks(2))
  from complete [OF cs(1) this, of "[]" 0 "drop (width * len) p" 0 "- 1"] obtain c where
    "scan_loop (concat (map chunk cs) @ drop (width * len) p) (sum_list (map units cs)) (- 1) len 0 0 (- 1)
      = Done (sum_list (map units cs), length cs, c, 0)" by auto
  then have "scan_loop p len (- 1) len 0 0 (- 1) = Done (len, length cs, c, 0)"
    unfolding p [symmetric] l [symmetric] .
  then show "\<exists>c res. scan_loop p len (- 1) len 0 0 (- 1) = Done (len, chars, c, res)" using cs(3) by blast
qed

end

end
