(* ===== verification/Str_Utf8_Rep.thy ===== *)
theory Str_Utf8_Rep
  imports Str_Utf8 Str_Scan
begin

text \<open>
  What the bytes of UTF-8 mean: the table of the Unicode standard as a function from
  code points to bytes, and the operations of \<open>Str_Utf8\<close> on storage that holds the bytes
  of a list of code points.
\<close>

section \<open>The bytes of a code point\<close>

definition utf8_cont :: "u64 \<Rightarrow> u8" where
  "utf8_cont c = ucast (0x80 OR (c AND 0x3F))"

definition utf8_bytes :: "u64 \<Rightarrow> u8 list" where
  "utf8_bytes c =
     (if c < 0x80 then [ucast c]
      else if c < 0x800 then [ucast (0xC0 OR drop_bit 6 c), utf8_cont c]
      else if c < 0x10000 then [ucast (0xE0 OR drop_bit 12 c), utf8_cont (drop_bit 6 c), utf8_cont c]
      else [ucast (0xF0 OR drop_bit 18 c), utf8_cont (drop_bit 12 c), utf8_cont (drop_bit 6 c), utf8_cont c])"

lemma length_utf8_bytes: "length (utf8_bytes c) = UNISKIP c"
  by (simp add: utf8_bytes_def UNISKIP_def)

lemma masks [simp]:
  "UTF8_START_MASK 2 = 0x1F" "UTF8_START_MASK 3 = 0x0F" "UTF8_START_MASK 4 = 0x07"
  "UTF8_START_MARK 2 = 0xC0" "UTF8_START_MARK 3 = 0xE0" "UTF8_START_MARK 4 = 0xF0"
  by (simp_all add: UTF8_START_MASK_def UTF8_START_MARK_def)

lemma less_8: "(n :: nat) < 8 \<longleftrightarrow> n = 0 \<or> n = 1 \<or> n = 2 \<or> n = 3 \<or> n = 4 \<or> n = 5 \<or> n = 6 \<or> n = 7"
  by auto

text \<open>Bits of the constants, at a position that is not known.\<close>

lemma bits_below:
  assumes "n < 8"
  shows "bit (0x3F :: u64) n \<longleftrightarrow> n < 6" "bit (0x1F :: u64) n \<longleftrightarrow> n < 5"
      "bit (0x0F :: u64) n \<longleftrightarrow> n < 4" "bit (0x07 :: u64) n \<longleftrightarrow> n < 3"
      "bit (0x80 :: u64) n \<longleftrightarrow> n = 7" "bit (0xC0 :: u64) n \<longleftrightarrow> n = 6 \<or> n = 7" "bit (0xE0 :: u64) n \<longleftrightarrow> n = 5 \<or> n = 6 \<or> n = 7"
      "bit (0xF0 :: u64) n \<longleftrightarrow> n = 4 \<or> n = 5 \<or> n = 6 \<or> n = 7"
  using assms unfolding less_8 by (elim disjE; simp)+

lemma bit_const:
  "bit (0x3F :: u64) n \<longleftrightarrow> n < 6" "bit (0x1F :: u64) n \<longleftrightarrow> n < 5" "bit (0x0F :: u64) n \<longleftrightarrow> n < 4" "bit (0x07 :: u64) n \<longleftrightarrow> n < 3"
  "bit (0x80 :: u64) n \<longleftrightarrow> n = 7" "bit (0xC0 :: u64) n \<longleftrightarrow> n = 6 \<or> n = 7" "bit (0xE0 :: u64) n \<longleftrightarrow> n = 5 \<or> n = 6 \<or> n = 7"
  "bit (0xF0 :: u64) n \<longleftrightarrow> n = 4 \<or> n = 5 \<or> n = 6 \<or> n = 7"
proof -
  have out: "bit k n \<longleftrightarrow> n < 8 \<and> bit k n" if "(k :: u64) < 2 ^ 8" for k
    using high_bits_0 [OF that, of n] by (cases "n < 8") auto
  have inn: "n < 8 \<and> bit (0x3F :: u64) n \<longleftrightarrow> n < 6" "n < 8 \<and> bit (0x1F :: u64) n \<longleftrightarrow> n < 5"
      "n < 8 \<and> bit (0x0F :: u64) n \<longleftrightarrow> n < 4" "n < 8 \<and> bit (0x07 :: u64) n \<longleftrightarrow> n < 3"
      "n < 8 \<and> bit (0x80 :: u64) n \<longleftrightarrow> n = 7" "n < 8 \<and> bit (0xC0 :: u64) n \<longleftrightarrow> n = 6 \<or> n = 7"
      "n < 8 \<and> bit (0xE0 :: u64) n \<longleftrightarrow> n = 5 \<or> n = 6 \<or> n = 7"
      "n < 8 \<and> bit (0xF0 :: u64) n \<longleftrightarrow> n = 4 \<or> n = 5 \<or> n = 6 \<or> n = 7"
    using bits_below [of n] by auto
  show "bit (0x3F :: u64) n \<longleftrightarrow> n < 6" "bit (0x1F :: u64) n \<longleftrightarrow> n < 5"
      "bit (0x0F :: u64) n \<longleftrightarrow> n < 4" "bit (0x07 :: u64) n \<longleftrightarrow> n < 3"
      "bit (0x80 :: u64) n \<longleftrightarrow> n = 7" "bit (0xC0 :: u64) n \<longleftrightarrow> n = 6 \<or> n = 7" "bit (0xE0 :: u64) n \<longleftrightarrow> n = 5 \<or> n = 6 \<or> n = 7"
      "bit (0xF0 :: u64) n \<longleftrightarrow> n = 4 \<or> n = 5 \<or> n = 6 \<or> n = 7"
    by (subst out, simp, rule inn)+
qed

lemma ucast_u8:
  assumes "(y :: u64) < 256"
  shows "ucast (ucast y :: u8) = y" "unat (ucast y :: u8) = unat y"
proof -
  have "unat y < 256" using assms by (simp add: word_less_nat_alt)
  then show u: "unat (ucast y :: u8) = unat y" by (simp add: unsigned_ucast_eq unsigned_take_bit_eq take_bit_nat_eq_self)
  then have "unat (ucast (ucast y :: u8) :: u64) = unat y"
    using \<open>unat y < 256\<close> by (simp add: unsigned_ucast_eq unsigned_take_bit_eq take_bit_nat_eq_self)
  then show "ucast (ucast y :: u8) = y" by (simp add: word_unat_eq_iff)
qed

lemma ucast_64_8: "unat (ucast (b :: u8) :: u64) = unat b"
proof -
  have "unat b < 256" using unsigned_less [of b] by simp
  then show ?thesis by (simp add: unsigned_ucast_eq unsigned_take_bit_eq take_bit_nat_eq_self)
qed

section \<open>Lead and continuation bytes\<close>

lemma cont_byte:
  "(ucast (utf8_cont c) :: u64) = 0x80 OR (c AND 0x3F)" "UTF8_IS_CONTINUATION (ucast (utf8_cont c))"
  "(ucast (utf8_cont c) :: u64) AND 0x3F = c AND 0x3F"
proof -
  show e: "(ucast (utf8_cont c) :: u64) = 0x80 OR (c AND 0x3F)"
    unfolding utf8_cont_def by (rule bit_word_eqI) (unfold bit_unsigned_iff bit_or_iff bit_and_iff bit_const, auto)
  show "UTF8_IS_CONTINUATION (ucast (utf8_cont c))"
    unfolding UTF8_IS_CONTINUATION_def e by (rule bit_word_eqI) (unfold bit_or_iff bit_and_iff bit_const, auto)
  show "(ucast (utf8_cont c) :: u64) AND 0x3F = c AND 0x3F"
    unfolding e by (rule bit_word_eqI) (unfold bit_or_iff bit_and_iff bit_const, auto)
qed

lemma lead_sum:
  assumes "(k :: u64) AND x = 0" "unat k + unat x < 256"
  shows "ucast (ucast (k OR x) :: u8) = k OR x" "unat (ucast (k OR x) :: u8) = unat k + unat x"
proof -
  have s: "k OR x = k + x" by (rule or_eq_plus [OF assms(1)])
  have "unat (k + x) = unat k + unat x" using assms(2) unat_add_lem [of k x] by simp
  then have u: "unat (k OR x) = unat k + unat x" using s by simp
  then have "k OR x < 256" using assms(2) by (simp add: word_less_nat_alt)
  from ucast_u8 [OF this] u show "ucast (ucast (k OR x) :: u8) = k OR x" "unat (ucast (k OR x) :: u8) = unat k + unat x"
    by simp_all
qed

lemma lead_byte:
  "x < 2 ^ 5 \<Longrightarrow> ucast (ucast (0xC0 OR x :: u64) :: u8) = 0xC0 OR x \<and> unat (ucast (0xC0 OR x :: u64) :: u8) = 0xC0 + unat x
     \<and> (0xC0 OR x) AND 0x1F = x"
  "x < 2 ^ 4 \<Longrightarrow> ucast (ucast (0xE0 OR x :: u64) :: u8) = 0xE0 OR x \<and> unat (ucast (0xE0 OR x :: u64) :: u8) = 0xE0 + unat x
     \<and> (0xE0 OR x) AND 0x0F = x"
  "x < 2 ^ 3 \<Longrightarrow> ucast (ucast (0xF0 OR x :: u64) :: u8) = 0xF0 OR x \<and> unat (ucast (0xF0 OR x :: u64) :: u8) = 0xF0 + unat x
     \<and> (0xF0 OR x) AND 0x07 = x"
proof -
  have z: "(k :: u64) AND x = 0" if "x < 2 ^ e" "\<And>n. bit k n \<Longrightarrow> e \<le> n" for k e
    by (rule bit_word_eqI) (use that high_bits_0 [OF that(1)] in \<open>auto simp: bit_and_iff\<close>)
  have m: "(k OR x) AND msk = x" if "x < 2 ^ e" "\<And>n. bit (k :: u64) n \<Longrightarrow> e \<le> n" "\<And>n. bit msk n \<longleftrightarrow> n < e" for k msk e
  proof (rule bit_word_eqI)
    fix n show "bit ((k OR x) AND msk) n = bit x n"
      using that(2) [of n] that(3) [of n] high_bits_0 [OF that(1), of n] by (auto simp: bit_and_iff bit_or_iff)
  qed
  {
    assume x: "x < 2 ^ 5"
    then have "unat x < 32" by (simp add: word_less_nat_alt)
    moreover have "0xC0 AND x = 0" by (rule z [OF x]) (unfold bit_const, auto)
    moreover have "(0xC0 OR x) AND 0x1F = x" by (rule m [OF x]) (unfold bit_const, auto)
    ultimately show "ucast (ucast (0xC0 OR x :: u64) :: u8) = 0xC0 OR x \<and> unat (ucast (0xC0 OR x :: u64) :: u8) = 0xC0 + unat x
     \<and> (0xC0 OR x) AND 0x1F = x" using lead_sum [of "0xC0" x] by simp
  next
    assume x: "x < 2 ^ 4"
    then have "unat x < 16" by (simp add: word_less_nat_alt)
    moreover have "0xE0 AND x = 0" by (rule z [OF x]) (unfold bit_const, auto)
    moreover have "(0xE0 OR x) AND 0x0F = x" by (rule m [OF x]) (unfold bit_const, auto)
    ultimately show "ucast (ucast (0xE0 OR x :: u64) :: u8) = 0xE0 OR x \<and> unat (ucast (0xE0 OR x :: u64) :: u8) = 0xE0 + unat x
     \<and> (0xE0 OR x) AND 0x0F = x" using lead_sum [of "0xE0" x] by simp
  next
    assume x: "x < 2 ^ 3"
    then have "unat x < 8" by (simp add: word_less_nat_alt)
    moreover have "0xF0 AND x = 0" by (rule z [OF x]) (unfold bit_const, auto)
    moreover have "(0xF0 OR x) AND 0x07 = x" by (rule m [OF x]) (unfold bit_const, auto)
    ultimately show "ucast (ucast (0xF0 OR x :: u64) :: u8) = 0xF0 OR x \<and> unat (ucast (0xF0 OR x :: u64) :: u8) = 0xF0 + unat x
     \<and> (0xF0 OR x) AND 0x07 = x" using lead_sum [of "0xF0" x] by simp
  }
qed

lemma utf8skip_ranges:
  "unat b < 0xC0 \<Longrightarrow> UTF8SKIP b = 1"
  "0xC0 \<le> unat b \<Longrightarrow> unat b < 0xE0 \<Longrightarrow> UTF8SKIP b = 2"
  "0xE0 \<le> unat b \<Longrightarrow> unat b < 0xF0 \<Longrightarrow> UTF8SKIP b = 3"
  "0xF0 \<le> unat b \<Longrightarrow> unat b < 0xF8 \<Longrightarrow> UTF8SKIP b = 4"
  unfolding UTF8SKIP_def Parrot_utf8skip_def by (auto simp: nth_append)

lemma start_byte: "UTF8_IS_START (ucast (b :: u8)) \<longleftrightarrow> 0xC2 \<le> unat b \<and> unat b \<le> 0xF4"
  by (simp add: UTF8_IS_START_def word_le_nat_alt ucast_64_8)

lemma unat_drop_bit: "unat (drop_bit n (c :: u64)) = unat c div 2 ^ n"
proof -
  have "take_bit 64 (unat c) = unat c" by (rule take_bit_nat_eq_self) (use unsigned_less [of c] in simp)
  then show ?thesis unfolding unsigned_drop_bit_eq by (simp add: drop_bit_eq_div)
qed

lemma continuation_byte: "UTF8_IS_CONTINUATION (ucast (b :: u8)) \<longleftrightarrow> 0x80 \<le> unat b \<and> unat b < 0xC0"
proof -
  let ?b = "ucast b :: u64"
  have "unat b < 256" using unsigned_less [of b] by simp
  then have u: "unat ?b < 256" by (simp add: ucast_64_8)
  then have "?b < 2 ^ 8" by (simp add: word_less_nat_alt)
  note h = high_bits_0 [OF this]
  have h': "bit ?b k \<Longrightarrow> k = 6 \<or> k = 7" if "6 \<le> k" for k using h [of k] that by (cases "8 \<le> k") auto
  have d: "drop_bit 6 (?b AND 0xC0) = drop_bit 6 ?b"
  proof (rule bit_word_eqI)
    fix n show "bit (drop_bit 6 (?b AND 0xC0)) n = bit (drop_bit 6 ?b) n"
      unfolding bit_drop_bit_eq o_def bit_and_iff bit_const using h' [of "6 + n"] by auto
  qed
  have e: "?b AND 0xC0 = push_bit 6 (drop_bit 6 ?b)"
  proof (rule bit_word_eqI)
    fix n assume "n < LENGTH(64)"
    then show "bit (?b AND 0xC0) n = bit (push_bit 6 (drop_bit 6 ?b)) n"
      unfolding bit_push_bit_iff bit_drop_bit_eq o_def bit_and_iff bit_const using h' [of n] by auto
  qed
  have "UTF8_IS_CONTINUATION ?b \<longleftrightarrow> drop_bit 6 ?b = 2"
  proof
    assume "UTF8_IS_CONTINUATION ?b"
    then have "drop_bit 6 (?b AND 0xC0) = drop_bit 6 0x80" by (simp only: UTF8_IS_CONTINUATION_def)
    then show "drop_bit 6 ?b = 2" unfolding d by simp
  next
    assume "drop_bit 6 ?b = 2"
    then show "UTF8_IS_CONTINUATION ?b" unfolding UTF8_IS_CONTINUATION_def e by simp
  qed
  also have "\<dots> \<longleftrightarrow> unat ?b div 64 = 2" using unat_drop_bit [of 6 ?b] by (simp add: word_unat_eq_iff)
  also have "\<dots> \<longleftrightarrow> 0x80 \<le> unat b \<and> unat b < 0xC0" unfolding ucast_64_8 by linarith
  finally show ?thesis .
qed

lemma unat_cont: "unat (ucast (utf8_cont c) :: u64) = 0x80 + unat c mod 64"
proof -
  have t: "c AND 0x3F = take_bit 6 c"
    by (rule bit_word_eqI) (unfold bit_and_iff bit_take_bit_iff bit_const, auto)
  have u: "unat (take_bit 6 c) = unat c mod 64" unfolding unsigned_take_bit_eq by (simp add: take_bit_eq_mod)
  have l: "unat c mod 64 < 18446744073709551488" using mod_less_divisor [of 64 "unat c"] by linarith
  have "0x80 AND take_bit 6 c = 0"
    by (rule bit_word_eqI) (unfold bit_and_iff bit_take_bit_iff bit_const, auto)
  then have "0x80 OR take_bit 6 c = 0x80 + take_bit 6 c" by (rule or_eq_plus)
  moreover have "unat (0x80 + take_bit 6 c) = unat (0x80 :: u64) + unat (take_bit 6 c)"
    using unat_add_lem [of "0x80" "take_bit 6 c"] u l by simp
  ultimately show ?thesis unfolding cont_byte(1) t using u by simp
qed

lemma drop_drop: "drop_bit 6 (drop_bit 6 c) = drop_bit 12 (c :: u64)" "drop_bit 6 (drop_bit 12 c) = drop_bit 18 (c :: u64)"
  by simp_all

lemma accumulate:
  assumes "b AND 0x3F = c AND 0x3F"
  shows "UTF8_ACCUMULATE (drop_bit 6 c) b = c"
  unfolding UTF8_ACCUMULATE_def UTF8_CONTINUATION_MASK_def UTF8_ACCUMULATION_SHIFT_def assms
  by (rule bit_word_eqI) (unfold bit_or_iff bit_and_iff bit_push_bit_iff bit_drop_bit_eq bit_const, auto)

lemma four: "Suc (Suc (Suc (Suc 0))) = 4"
  by simp

lemma utf8_bytes_cases:
  assumes "\<not> UNICODE_IS_INVALID c"
  obtains (one) b where "utf8_bytes c = [b]" "ucast b = c" "c < 0x80" "UTF8SKIP b = 1"
      "\<not> UTF8_IS_START (ucast b)" "\<not> UTF8_IS_CONTINUATION (ucast b)"
    | (more) b x xs where "utf8_bytes c = b # x # xs" "UTF8SKIP b = Suc (Suc (length xs))" "UTF8_IS_START (ucast b)"
      "\<not> UTF8_IS_CONTINUATION (ucast b)" "\<forall>y \<in> set (x # xs). UTF8_IS_CONTINUATION (ucast y)"
      "foldl (\<lambda>a b. UTF8_ACCUMULATE a (ucast b)) (ucast b AND UTF8_START_MASK (Suc (Suc (length xs)))) (x # xs) = c"
      "\<not> UTF8_IS_OVERLONG (ucast b) (ucast x)" "c \<ge> 0x80"
proof -
  have c4: "unat c < 0x110000" using invalid_range [OF assms] by (simp add: word_less_nat_alt)
  note A = accumulate [OF cont_byte(3)]
  consider "unat c < 0x80" | "0x80 \<le> unat c" "unat c < 0x800" | "0x800 \<le> unat c" "unat c < 0x10000" | "0x10000 \<le> unat c"
    by linarith
  then show thesis
  proof cases
    case 1
    let ?b = "ucast c :: u8"
    have c: "c < 256" "c < 0x80" using 1 by (simp_all add: word_less_nat_alt)
    note u = ucast_u8 [OF c(1)]
    show thesis
    proof (rule one [of ?b])
      show "\<not> UTF8_IS_START (ucast ?b)" "\<not> UTF8_IS_CONTINUATION (ucast ?b)"
        unfolding start_byte continuation_byte u(2) using 1 by auto
      show "UTF8SKIP ?b = 1" by (rule utf8skip_ranges) (use 1 u(2) in simp)
    qed (use u c in \<open>simp_all add: utf8_bytes_def\<close>)
  next
    case 2
    let ?x = "drop_bit 6 c" and ?b = "ucast (0xC0 OR drop_bit 6 c) :: u8"
    have c: "c < 0x800" "\<not> c < 0x80" using 2 by (simp_all add: word_less_nat_alt)
    have "?x < 2 ^ 5" by (rule less_drop_bit) (use c in simp_all)
    note L = lead_byte(1) [OF this]
    have u: "unat ?b = 0xC0 + unat c div 64" using L unat_drop_bit [of 6 c] by simp
    show thesis
    proof (rule more [of ?b "utf8_cont c" "[]"])
      show "UTF8SKIP ?b = Suc (Suc (length ([] :: u8 list)))"
        using utf8skip_ranges(2) [of ?b] u 2 by simp
      show "UTF8_IS_START (ucast ?b)" "\<not> UTF8_IS_CONTINUATION (ucast ?b)"
        unfolding start_byte continuation_byte u using 2 by auto
      show "\<not> UTF8_IS_OVERLONG (ucast ?b) (ucast (utf8_cont c))"
        using u 2 by (auto simp: UTF8_IS_OVERLONG_def word_unat_eq_iff ucast_64_8)
    qed (use L c A [of c] cont_byte(2) in \<open>simp_all add: utf8_bytes_def numeral_2_eq_2 [symmetric]\<close>)
  next
    case 3
    let ?x = "drop_bit 12 c" and ?b = "ucast (0xE0 OR drop_bit 12 c) :: u8"
    have c: "c < 0x10000" "\<not> c < 0x80" "\<not> c < 0x800" using 3 by (simp_all add: word_less_nat_alt)
    have "?x < 2 ^ 4" by (rule less_drop_bit) (use c in simp_all)
    note L = lead_byte(2) [OF this]
    have u: "unat ?b = 0xE0 + unat c div 4096" using L unat_drop_bit [of 12 c] by simp
    show thesis
    proof (rule more [of ?b "utf8_cont (drop_bit 6 c)" "[utf8_cont c]"])
      show "UTF8SKIP ?b = Suc (Suc (length [utf8_cont c]))"
        using utf8skip_ranges(3) [of ?b] u 3 by simp
      show "UTF8_IS_START (ucast ?b)" "\<not> UTF8_IS_CONTINUATION (ucast ?b)"
        unfolding start_byte continuation_byte u using 3 by auto
      show "\<not> UTF8_IS_OVERLONG (ucast ?b) (ucast (utf8_cont (drop_bit 6 c)))"
        using u 3 unat_cont [of "drop_bit 6 c"] unat_drop_bit [of 6 c]
        by (auto simp: UTF8_IS_OVERLONG_def word_unat_eq_iff word_less_nat_alt ucast_64_8)
    qed (use L c A [of c] A [of "drop_bit 6 c"] cont_byte(2) in \<open>simp_all add: utf8_bytes_def numeral_3_eq_3 [symmetric] drop_drop del: drop_bit_drop_bit\<close>)
  next
    case 4
    let ?x = "drop_bit 18 c" and ?b = "ucast (0xF0 OR drop_bit 18 c) :: u8"
    have c: "c < 0x200000" "\<not> c < 0x80" "\<not> c < 0x800" "\<not> c < 0x10000" using 4 c4 by (simp_all add: word_less_nat_alt)
    have "?x < 2 ^ 3" by (rule less_drop_bit) (use c in simp_all)
    note L = lead_byte(3) [OF this]
    have u: "unat ?b = 0xF0 + unat c div 262144" using L unat_drop_bit [of 18 c] by simp
    show thesis
    proof (rule more [of ?b "utf8_cont (drop_bit 12 c)" "[utf8_cont (drop_bit 6 c), utf8_cont c]"])
      show "UTF8SKIP ?b = Suc (Suc (length [utf8_cont (drop_bit 6 c), utf8_cont c]))"
        using utf8skip_ranges(4) [of ?b] u c4 by simp
      show "UTF8_IS_START (ucast ?b)" "\<not> UTF8_IS_CONTINUATION (ucast ?b)"
        unfolding start_byte continuation_byte u using c4 by auto
      show "\<not> UTF8_IS_OVERLONG (ucast ?b) (ucast (utf8_cont (drop_bit 12 c)))"
        using u 4 unat_cont [of "drop_bit 12 c"] unat_drop_bit [of 12 c]
        by (auto simp: UTF8_IS_OVERLONG_def word_unat_eq_iff word_less_nat_alt ucast_64_8)
    qed (use L c A [of c] A [of "drop_bit 6 c"] A [of "drop_bit 12 c"] cont_byte(2) in
      \<open>simp_all add: utf8_bytes_def four drop_drop del: drop_bit_drop_bit\<close>)
  qed
qed

section \<open>Decoding and encoding in storage\<close>

lemma decode_from_list:
  "utf8_decode_from (pre @ b # bs @ post) (length bs) (length pre) a
   = Some (foldl (\<lambda>a b. UTF8_ACCUMULATE a (ucast b)) a bs)"
proof (induction bs arbitrary: pre b a)
  case (Cons x bs)
  have "rd (pre @ b # (x # bs) @ post) (length pre + 1) = Some x"
    using rd_append [of "pre @ [b]" "x # bs @ post" 0] by simp
  moreover have "utf8_decode_from ((pre @ [b]) @ x # bs @ post) (length bs) (length (pre @ [b])) (UTF8_ACCUMULATE a (ucast x))
      = Some (foldl (\<lambda>a b. UTF8_ACCUMULATE a (ucast b)) (UTF8_ACCUMULATE a (ucast x)) bs)" by (rule Cons)
  ultimately show ?case by simp
qed simp

lemma utf8_decode_at:
  assumes "\<not> UNICODE_IS_INVALID c"
  shows "utf8_decode (pre @ utf8_bytes c @ post) (length pre) = Some c"
  using assms
proof (cases rule: utf8_bytes_cases)
  case (one b)
  then show ?thesis by (simp add: utf8_decode_def)
next
  case (more b x xs)
  then show ?thesis using decode_from_list [of pre b "x # xs" post] by (simp add: utf8_decode_def)
qed

lemma utf8_encode_from_numeral:
  "utf8_encode_from m ptr (numeral k) c =
     do {
       m \<leftarrow> wr m (ptr + numeral k) (ucast ((c AND UTF8_CONTINUATION_MASK) OR UTF8_CONTINUATION_MARK));
       utf8_encode_from m ptr (pred_numeral k) (drop_bit UTF8_ACCUMULATION_SHIFT c)
     }"
  by (simp add: numeral_eq_Suc)

lemma utf8_encode_at:
  assumes "\<not> UNICODE_IS_INVALID c" "length old = length (utf8_bytes c)"
  shows "utf8_encode (pre @ old @ post) (length pre) c = Done (pre @ utf8_bytes c @ post, length pre + length (utf8_bytes c))"
proof -
  have cont: "ucast ((x AND UTF8_CONTINUATION_MASK) OR UTF8_CONTINUATION_MARK) = utf8_cont x" for x
    by (simp add: utf8_cont_def UTF8_CONTINUATION_MASK_def UTF8_CONTINUATION_MARK_def or.commute)
  have w: "wr (pre @ ys @ z # zs) (length pre + length ys) v = Some (pre @ ys @ v # zs)" for ys z zs v
    using wr_append [of "pre @ ys" z zs v] by simp
  have w1: "wr (pre @ a # zs) (length pre) v = Some (pre @ v # zs)" for a v zs by (rule wr_append)
  have w2: "wr (pre @ a # b # zs) (Suc (length pre)) v = Some (pre @ a # v # zs)" for a b v zs using w [of "[a]" b zs v] by simp
  have w3: "wr (pre @ a # b # c # zs) (length pre + 2) v = Some (pre @ a # b # v # zs)" for a b c v zs
    using w [of "[a, b]" c zs v] by simp
  have w4: "wr (pre @ a # b # c # d # zs) (length pre + 3) v = Some (pre @ a # b # c # v # zs)" for a b c d v zs
    using w [of "[a, b, c]" d zs v] by (simp add: numeral_3_eq_3)
  have lead: "x OR 0xC0 = 0xC0 OR x" "x OR 0xE0 = 0xE0 OR x" "x OR 0xF0 = 0xF0 OR x" for x :: u64
    by (simp_all only: or.commute)
  note ws = lead w1 w2 w3 w4 cont UTF8_ACCUMULATION_SHIFT_def utf8_encode_def utf8_bytes_def UNISKIP_def
  have len: "length old = UNISKIP c" using assms(2) by (simp add: length_utf8_bytes)
  consider "c < 0x80" | "\<not> c < 0x80" "c < 0x800" | "\<not> c < 0x80" "\<not> c < 0x800" "c < 0x10000"
    | "\<not> c < 0x80" "\<not> c < 0x800" "\<not> c < 0x10000" by blast
  then show ?thesis
  proof cases
    case 1
    then obtain a where "old = [a]" using len by (auto simp: UNISKIP_def length_Suc_conv)
    then show ?thesis using 1 by (simp add: ws)
  next
    case 2
    then obtain a b where "old = [a, b]" using len by (auto simp: UNISKIP_def length_Suc_conv numeral_2_eq_2)
    then show ?thesis using 2 assms(1) by (simp add: ws)
  next
    case 3
    then obtain a b d where "old = [a, b, d]" using len by (auto simp: UNISKIP_def length_Suc_conv numeral_3_eq_3)
    then show ?thesis using 3 assms(1) by (simp add: ws utf8_encode_from_numeral list_update_append)
  next
    case 4
    then obtain a b d e where "old = [a, b, d, e]" using len by (auto simp: UNISKIP_def length_Suc_conv four [symmetric])
    then show ?thesis using 4 assms(1) by (simp add: ws utf8_encode_from_numeral list_update_append)
  qed
qed

section \<open>Moving in storage\<close>

lemma utf8_skip_forward_chars:
  assumes "\<forall>c \<in> set cs. \<not> UNICODE_IS_INVALID c"
  shows "utf8_skip_forward (pre @ concat (map utf8_bytes cs) @ post) (length pre) (length cs)
    = Some (length pre + length (concat (map utf8_bytes cs)))"
  using assms
proof (induction cs arbitrary: pre)
  case (Cons c cs)
  have v: "\<not> UNICODE_IS_INVALID c" using Cons.prems by simp
  obtain b bs where b: "utf8_bytes c = b # bs" "UTF8SKIP b = length (utf8_bytes c)"
    using v by (cases rule: utf8_bytes_cases) auto
  have "utf8_skip_forward ((pre @ utf8_bytes c) @ concat (map utf8_bytes cs) @ post) (length (pre @ utf8_bytes c)) (length cs)
    = Some (length (pre @ utf8_bytes c) + length (concat (map utf8_bytes cs)))"
    using Cons.prems by (intro Cons.IH) simp
  then show ?case using b by (simp add: add.assoc)
qed simp

lemma utf8_back_over:
  assumes "\<not> UTF8_IS_CONTINUATION (ucast b)" "\<forall>y \<in> set bs. UTF8_IS_CONTINUATION (ucast y)"
  shows "utf8_back (pre @ b # bs @ post) (length pre + Suc (length bs)) = Some (length pre)"
  using assms(2)
proof (induction bs arbitrary: post rule: rev_induct)
  case Nil
  then show ?case using assms(1) by simp
next
  case (snoc y bs)
  have "rd (pre @ b # (bs @ [y]) @ post) (length pre + Suc (length bs)) = Some y"
    using rd_append [of "pre @ b # bs" "y # post" 0] by simp
  then show ?case using snoc.IH [of "y # post"] snoc.prems by simp
qed

lemma utf8_back_char:
  assumes "\<not> UNICODE_IS_INVALID c"
  shows "utf8_back (pre @ utf8_bytes c @ post) (length pre + length (utf8_bytes c)) = Some (length pre)"
  using assms
proof (cases rule: utf8_bytes_cases)
  case (one b)
  then show ?thesis using utf8_back_over [of b "[]" pre post] by simp
next
  case (more b x xs)
  then show ?thesis using utf8_back_over [of b "x # xs" pre post] by simp
qed

lemma utf8_skip_backward_chars:
  assumes "\<forall>c \<in> set cs. \<not> UNICODE_IS_INVALID c"
  shows "utf8_skip_backward (pre @ concat (map utf8_bytes cs) @ post) (length pre + length (concat (map utf8_bytes cs))) (length cs)
    = Some (length pre)"
  using assms
proof (induction cs arbitrary: post rule: rev_induct)
  case (snoc c cs)
  let ?B = "concat (map utf8_bytes cs)"
  have "utf8_back ((pre @ ?B) @ utf8_bytes c @ post) (length (pre @ ?B) + length (utf8_bytes c)) = Some (length (pre @ ?B))"
    by (rule utf8_back_char) (use snoc.prems in simp)
  moreover have "utf8_skip_backward (pre @ ?B @ (utf8_bytes c @ post)) (length pre + length ?B) (length cs) = Some (length pre)"
    using snoc.prems by (intro snoc.IH) simp
  ultimately show ?case by (simp add: add.assoc)
qed simp

section \<open>Scanning accepts exactly the bytes of valid code points\<close>

abbreviation accumulated :: "u64 \<Rightarrow> u8 list \<Rightarrow> u64" where
  "accumulated a bs \<equiv> foldl (\<lambda>a b. UTF8_ACCUMULATE a (ucast b)) a bs"

lemma scan_continuation:
  assumes "i + n < length p"
  shows "utf8_scan_continuation p n i a =
     (if \<forall>y \<in> set (take n (drop (i + 1) p)). UTF8_IS_CONTINUATION (ucast y)
      then Done (i + n, accumulated a (take n (drop (i + 1) p)))
      else Thrown ''Malformed UTF-8 string'')"
  using assms
proof (induction n arbitrary: i a)
  case (Suc n)
  have "drop (i + 1) p = p ! (i + 1) # drop (i + 1 + 1) p"
    using Suc.prems by (simp add: Cons_nth_drop_Suc)
  then have t: "take (Suc n) (drop (i + 1) p) = p ! (i + 1) # take n (drop (i + 1 + 1) p)" by simp
  show ?case unfolding t using Suc by simp
qed simp

text \<open>Appending six bits, and splitting them off again.\<close>

lemma unat_accumulate:
  assumes "unat a < 2 ^ 58"
  shows "unat (UTF8_ACCUMULATE a b) = 64 * unat a + unat b mod 64" "drop_bit 6 (UTF8_ACCUMULATE a b) = a"
    "utf8_cont (UTF8_ACCUMULATE a b) = utf8_cont b"
proof -
  have "a < 2 ^ 58" using assms by (simp add: word_less_nat_alt)
  note h = high_bits_0 [OF this]
  have t: "UTF8_ACCUMULATE a b = push_bit 6 a OR take_bit 6 b"
    unfolding UTF8_ACCUMULATE_def UTF8_CONTINUATION_MASK_def UTF8_ACCUMULATION_SHIFT_def
    by (rule bit_word_eqI) (unfold bit_or_iff bit_and_iff bit_push_bit_iff bit_take_bit_iff bit_const, auto)
  show d: "drop_bit 6 (UTF8_ACCUMULATE a b) = a"
    unfolding t
  proof (rule bit_word_eqI)
    fix n show "bit (drop_bit 6 (push_bit 6 a OR take_bit 6 b)) n = bit a n"
      using h [of n] bit_imp_le_length [of a n]
      by (cases "58 \<le> n") (auto simp: bit_drop_bit_eq bit_or_iff bit_push_bit_iff bit_take_bit_iff)
  qed
  have m: "UTF8_ACCUMULATE a b AND 0x3F = b AND 0x3F"
    unfolding t by (rule bit_word_eqI) (unfold bit_or_iff bit_and_iff bit_push_bit_iff bit_take_bit_iff bit_const, auto)
  then show "utf8_cont (UTF8_ACCUMULATE a b) = utf8_cont b" by (simp only: utf8_cont_def)
  have mb: "w AND 0x3F = take_bit 6 w" for w :: u64
    by (rule bit_word_eqI) (unfold bit_and_iff bit_take_bit_iff bit_const, auto)
  have u: "unat (take_bit 6 w) = unat w mod 64" for w :: u64 unfolding unsigned_take_bit_eq by (simp add: take_bit_eq_mod)
  have "unat (UTF8_ACCUMULATE a b) div 64 = unat a" using unat_drop_bit [of 6 "UTF8_ACCUMULATE a b"] d by simp
  moreover have "unat (UTF8_ACCUMULATE a b) mod 64 = unat b mod 64"
    using m unfolding mb by (simp only: u [symmetric])
  ultimately show "unat (UTF8_ACCUMULATE a b) = 64 * unat a + unat b mod 64"
    using mult_div_mod_eq [of 64 "unat (UTF8_ACCUMULATE a b)"] by simp
qed

lemma mod_between: "k * q \<le> n \<Longrightarrow> n < k * q + k \<Longrightarrow> n mod k = n - k * q" for n k q :: nat
proof -
  assume "k * q \<le> n" "n < k * q + k"
  then have "n = (n - k * q) + k * q" "n - k * q < k" by simp_all
  then show ?thesis by (metis mod_mult_self2 mod_less mult.commute)
qed

lemma cont_of_continuation:
  assumes "UTF8_IS_CONTINUATION (ucast (y :: u8))"
  shows "utf8_cont (ucast y) = y"
proof -
  have r: "0x80 \<le> unat y" "unat y < 0xC0" using assms by (simp_all add: continuation_byte)
  have "unat (ucast (utf8_cont (ucast y)) :: u64) = 0x80 + unat y mod 64" unfolding unat_cont by (simp only: ucast_64_8)
  also have "\<dots> = unat y" using r mod_between [of 64 2 "unat y"] by simp
  finally show ?thesis by (simp add: ucast_64_8 word_unat_eq_iff)
qed

lemma and_low:
  "unat (b AND 0x1F) = unat (b :: u64) mod 32" "unat (b AND 0x0F) = unat b mod 16" "unat (b AND 0x07) = unat b mod 8"
proof -
  have "b AND 0x1F = take_bit 5 b" "b AND 0x0F = take_bit 4 b" "b AND 0x07 = take_bit 3 b"
    by (rule bit_word_eqI, unfold bit_and_iff bit_take_bit_iff bit_const, auto)+
  moreover have "unat (take_bit n b) = unat b mod 2 ^ n" for n unfolding unsigned_take_bit_eq by (simp add: take_bit_eq_mod)
  ultimately show "unat (b AND 0x1F) = unat (b :: u64) mod 32" "unat (b AND 0x0F) = unat b mod 16" "unat (b AND 0x07) = unat b mod 8"
    by simp_all
qed

lemma utf8_bytes_of:
  assumes s: "UTF8_IS_START (ucast b)" and l: "UTF8SKIP b = Suc (length ys)"
    and c: "\<forall>y \<in> set ys. UTF8_IS_CONTINUATION (ucast y)" and o: "\<not> UTF8_IS_OVERLONG (ucast b) (ucast (hd ys))"
  shows "utf8_bytes (accumulated (ucast b AND UTF8_START_MASK (Suc (length ys))) ys) = b # ys"
proof -
  have r: "0xC2 \<le> unat b" "unat b \<le> 0xF4" using s by (simp_all add: start_byte)
  have ub: "unat (ucast b :: u64) = unat b" by (rule ucast_64_8)
  have lead: "ucast (k OR x) = b" if "unat (ucast (k OR x :: u64) :: u8) = unat b" for k x
    using that by (simp add: word_unat_eq_iff)
  consider "unat b < 0xE0" | "0xE0 \<le> unat b" "unat b < 0xF0" | "0xF0 \<le> unat b" by linarith
  then show ?thesis
  proof cases
    case 1
    then have "length ys = 1" using l r utf8skip_ranges(2) [of b] by simp
    then obtain y where ys: "ys = [y]" by (auto simp: length_Suc_conv)
    let ?x = "ucast b AND 0x1F :: u64" and ?c = "UTF8_ACCUMULATE (ucast b AND 0x1F) (ucast y)"
    have x: "unat ?x = unat b mod 32" using and_low(1) ub by simp
    then have x2: "unat ?x < 32" "2 \<le> unat ?x" "0xC0 + unat ?x = unat b" using r 1 mod_between [of 32 6 "unat b"] by simp_all
    then have a: "unat ?x < 2 ^ 58" "?x < 2 ^ 5" by (simp_all add: word_less_nat_alt)
    note A = unat_accumulate [OF a(1), of "ucast y"] and L = lead_byte(1) [OF a(2)]
    have c': "0x80 \<le> unat ?c" "unat ?c < 0x800" using A(1) x2 mod_less_divisor [of 64 "unat (ucast y :: u64)"] by linarith+
    have "ucast (0xC0 OR ?x) = b" by (rule lead) (use L x2(3) in simp)
    then show ?thesis
      using c' A cont_of_continuation [of y] c unfolding ys
      by (simp add: utf8_bytes_def word_less_nat_alt numeral_2_eq_2 [symmetric])
  next
    case 2
    then have "length ys = 2" using l utf8skip_ranges(3) [of b] by simp
    then obtain y z where ys: "ys = [y, z]" by (auto simp: length_Suc_conv numeral_2_eq_2)
    let ?x = "ucast b AND 0x0F :: u64"
    let ?d = "UTF8_ACCUMULATE (ucast b AND 0x0F) (ucast y)"
    let ?c = "UTF8_ACCUMULATE ?d (ucast z)"
    have x: "unat ?x = unat b mod 16" using and_low(2) ub by simp
    then have x2: "unat ?x < 16" "0xE0 + unat ?x = unat b" using 2 mod_between [of 16 14 "unat b"] by simp_all
    then have a: "unat ?x < 2 ^ 58" "?x < 2 ^ 4" by (simp_all add: word_less_nat_alt)
    note A = unat_accumulate [OF a(1), of "ucast y"] and L = lead_byte(2) [OF a(2)]
    have yz: "UTF8_IS_CONTINUATION (ucast y)" "UTF8_IS_CONTINUATION (ucast z)" using c ys by simp_all
    have ry: "0x80 \<le> unat y" "unat y < 0xC0" using yz(1) by (simp_all add: continuation_byte)
    have d: "32 \<le> unat ?d" "unat ?d < 1024"
    proof -
      show "unat ?d < 1024" using A(1) x2 mod_less_divisor [of 64 "unat (ucast y :: u64)"] by linarith
      show "32 \<le> unat ?d"
      proof (cases "unat ?x = 0")
        case True
        then have "ucast b = (0xE0 :: u64)" using x2(2) ub by (simp add: word_unat_eq_iff)
        then have "\<not> (ucast y :: u64) < 0xA0" using o ys by (simp add: UTF8_IS_OVERLONG_def)
        then have "0xA0 \<le> unat y" by (simp add: word_less_nat_alt ucast_64_8)
        then have "32 \<le> unat (ucast y :: u64) mod 64" unfolding ucast_64_8 using ry mod_between [of 64 2 "unat y"] by simp
        then show ?thesis using A(1) by linarith
      qed (use A(1) in linarith)
    qed
    have a2: "unat ?d < 2 ^ 58" using d(2) by simp
    note A2 = unat_accumulate [OF a2, of "ucast z"]
    have c': "0x800 \<le> unat ?c" "unat ?c < 0x10000"
      using A2(1) d mod_less_divisor [of 64 "unat (ucast z :: u64)"] by linarith+
    have "ucast (0xE0 OR ?x) = b" by (rule lead) (use L x2(2) in simp)
    moreover have "drop_bit 12 ?c = ?x" using A(2) A2(2) drop_drop(1) [of ?c] by simp
    ultimately show ?thesis
      using c' A A2 cont_of_continuation [OF yz(1)] cont_of_continuation [OF yz(2)] unfolding ys
      by (simp add: utf8_bytes_def word_less_nat_alt numeral_3_eq_3 [symmetric])
  next
    case 3
    then have "length ys = 3" using l r utf8skip_ranges(4) [of b] by simp
    then obtain y z w where ys: "ys = [y, z, w]" by (auto simp: length_Suc_conv numeral_3_eq_3)
    let ?x = "ucast b AND 0x07 :: u64"
    let ?d = "UTF8_ACCUMULATE (ucast b AND 0x07) (ucast y)"
    let ?e = "UTF8_ACCUMULATE ?d (ucast z)"
    let ?c = "UTF8_ACCUMULATE ?e (ucast w)"
    have x: "unat ?x = unat b mod 8" using and_low(3) ub by simp
    then have x2: "unat ?x < 8" "0xF0 + unat ?x = unat b" using 3 r mod_between [of 8 30 "unat b"] by simp_all
    then have a: "unat ?x < 2 ^ 58" "?x < 2 ^ 3" by (simp_all add: word_less_nat_alt)
    note A = unat_accumulate [OF a(1), of "ucast y"] and L = lead_byte(3) [OF a(2)]
    have yz: "UTF8_IS_CONTINUATION (ucast y)" "UTF8_IS_CONTINUATION (ucast z)" "UTF8_IS_CONTINUATION (ucast w)" using c ys by simp_all
    have ry: "0x80 \<le> unat y" "unat y < 0xC0" using yz(1) by (simp_all add: continuation_byte)
    have d: "16 \<le> unat ?d" "unat ?d < 512"
    proof -
      show "unat ?d < 512" using A(1) x2 mod_less_divisor [of 64 "unat (ucast y :: u64)"] by linarith
      show "16 \<le> unat ?d"
      proof (cases "unat ?x = 0")
        case True
        then have "ucast b = (0xF0 :: u64)" using x2(2) ub by (simp add: word_unat_eq_iff)
        then have "\<not> (ucast y :: u64) < 0x90" using o ys by (simp add: UTF8_IS_OVERLONG_def)
        then have "0x90 \<le> unat y" by (simp add: word_less_nat_alt ucast_64_8)
        then have "16 \<le> unat (ucast y :: u64) mod 64" unfolding ucast_64_8 using ry mod_between [of 64 2 "unat y"] by simp
        then show ?thesis using A(1) by linarith
      qed (use A(1) in linarith)
    qed
    have a2: "unat ?d < 2 ^ 58" using d(2) by simp
    note A2 = unat_accumulate [OF a2, of "ucast z"]
    have e: "1024 \<le> unat ?e" "unat ?e < 32768"
      using A2(1) d mod_less_divisor [of 64 "unat (ucast z :: u64)"] by linarith+
    have a3: "unat ?e < 2 ^ 58" using e(2) by simp
    note A3 = unat_accumulate [OF a3, of "ucast w"]
    have c': "0x10000 \<le> unat ?c" using A3(1) e by linarith
    have "ucast (0xF0 OR ?x) = b" by (rule lead) (use L x2(2) in simp)
    moreover have "drop_bit 12 ?c = ?d" "drop_bit 18 ?c = ?x"
      using A(2) A2(2) A3(2) drop_drop(1) [of ?c] drop_drop(2) [of ?c] by (simp_all del: drop_bit_drop_bit)
    ultimately show ?thesis
      using c' A A2 A3 cont_of_continuation [OF yz(1)] cont_of_continuation [OF yz(2)] cont_of_continuation [OF yz(3)] unfolding ys
      by (simp add: utf8_bytes_def word_less_nat_alt four)
  qed
qed

lemma utf8_scan_char_valid:
  assumes v: "\<not> UNICODE_IS_INVALID c" and len: "length pre + length (utf8_bytes c) \<le> len"
  shows "utf8_scan_char (pre @ utf8_bytes c @ post) len (length pre) = Done (Inr (length pre + length (utf8_bytes c) - 1, c))"
  using v
proof (cases rule: utf8_bytes_cases)
  case (one b)
  then show ?thesis by (simp add: utf8_scan_char_def UNICODE_IS_INVARIANT_def)
next
  case (more b x xs)
  have r: "rd (pre @ b # (x # xs) @ post) (length pre + 1) = Some x"
    using rd_append [of "pre @ [b]" "x # xs @ post" 0] by simp
  have t: "take (Suc (length xs)) (drop (length pre + 1) (pre @ b # (x # xs) @ post)) = x # xs" by simp
  have sc: "utf8_scan_continuation (pre @ b # (x # xs) @ post) (Suc (length xs)) (length pre) a
      = Done (length pre + Suc (length xs), accumulated a (x # xs))" for a
    using scan_continuation [of "length pre" "Suc (length xs)" "pre @ b # (x # xs) @ post" a] more(5) unfolding t
    by (simp del: utf8_scan_continuation.simps)
  then show ?thesis using more(1-4,6,7) r len v by (simp add: utf8_scan_char_def del: utf8_scan_continuation.simps)
qed

lemma utf8_scan_char_sound:
  assumes i: "i < len" and len: "len \<le> length p"
  obtains (thrown) e where "utf8_scan_char p len i = Thrown e"
    | (short) r c where "utf8_scan_char p len i = Done (Inl (r, c))" "0 < r"
    | (char) j c where "utf8_scan_char p len i = Done (Inr (j, c))" "\<not> UNICODE_IS_INVALID c"
        "Suc j = i + length (utf8_bytes c)" "j < len" "take (length (utf8_bytes c)) (drop i p) = utf8_bytes c"
proof -
  let ?b = "p ! i"
  have r: "rd p i = Some ?b" using i len by simp
  have d: "drop i p = ?b # drop (Suc i) p" using i len by (simp add: Cons_nth_drop_Suc)
  show thesis
  proof (cases "UTF8_IS_START (ucast ?b)")
    case False
    show thesis
    proof (cases "UNICODE_IS_INVARIANT (ucast ?b)")
      case True
      let ?c = "ucast ?b :: u64"
      have c: "?c < 0x80" using True by (simp add: UNICODE_IS_INVARIANT_def)
      then have u: "unat ?c < 128" by (simp add: word_less_nat_alt)
      then have "unat (ucast ?c :: u8) = unat ?b" using ucast_u8(2) [of ?c] by (simp add: word_less_nat_alt ucast_64_8)
      then have b: "ucast ?c = ?b" by (simp add: word_unat_eq_iff)
      have bs: "utf8_bytes ?c = [?b]" unfolding utf8_bytes_def if_P [OF c] b ..
      have v: "\<not> UNICODE_IS_INVALID ?c" using u by (simp add: UNICODE_IS_INVALID_def word_le_nat_alt)
      show thesis
      proof (rule char [of i ?c])
        show "utf8_scan_char p len i = Done (Inr (i, ?c))" using False True r by (simp add: utf8_scan_char_def)
      qed (use bs v i d in simp_all)
    qed (use False r in \<open>auto intro: thrown simp: utf8_scan_char_def\<close>)
  next
    case True
    let ?n = "UTF8SKIP ?b"
    have rng: "0xC2 \<le> unat ?b" "unat ?b \<le> 0xF4" using True by (simp_all add: start_byte)
    consider "unat ?b < 0xE0" | "0xE0 \<le> unat ?b" "unat ?b < 0xF0" | "0xF0 \<le> unat ?b" by linarith
    then have n2: "2 \<le> ?n" using utf8skip_ranges(2-4) [of ?b] rng by cases simp_all
    show thesis
    proof (cases "i + ?n > len")
      case True
      show thesis by (rule short [of "i + ?n - len" "ucast ?b"])
        (use True \<open>UTF8_IS_START _\<close> r in \<open>simp_all add: utf8_scan_char_def\<close>)
    next
      case False
      let ?ys = "take (?n - 1) (drop (i + 1) p)"
      have ys: "length ?ys = ?n - 1" "?ys \<noteq> []" "hd ?ys = p ! (i + 1)"
        using False n2 len by (auto simp: hd_take hd_drop_conv_nth)
      have n: "Suc (length ?ys) = ?n" using ys(1) n2 by simp
      have r1: "rd p (i + 1) = Some (p ! (i + 1))" using False n2 len by simp
      have lt: "i + (?n - 1) < length p" using False n2 len by simp
      let ?c = "accumulated (ucast ?b AND UTF8_START_MASK ?n) ?ys"
      have eq: "utf8_scan_char p len i =
          (if UTF8_IS_OVERLONG (ucast ?b) (ucast (p ! (i + 1))) then Thrown ''Overlong form in UTF-8 string''
           else if \<not> (\<forall>y \<in> set ?ys. UTF8_IS_CONTINUATION (ucast y)) then Thrown ''Malformed UTF-8 string''
           else if UNICODE_IS_INVALID ?c then Thrown ''Invalid character in UTF-8 string''
           else Done (Inr (i + (?n - 1), ?c)))"
        using \<open>UTF8_IS_START _\<close> r r1 False scan_continuation [OF lt] by (simp add: utf8_scan_char_def Let_def)
      show thesis
      proof (cases "UTF8_IS_OVERLONG (ucast ?b) (ucast (p ! (i + 1))) \<or> \<not> (\<forall>y \<in> set ?ys. UTF8_IS_CONTINUATION (ucast y)) \<or> UNICODE_IS_INVALID ?c")
        case True
        then have "\<exists>e. utf8_scan_char p len i = Thrown e" unfolding eq by auto
        then show thesis using thrown by blast
      next
        case ok: False
        have b: "utf8_bytes ?c = ?b # ?ys"
          using utf8_bytes_of [of ?b ?ys] \<open>UTF8_IS_START _\<close> n ok ys(3) by simp
        show thesis
        proof (rule char [of "i + (?n - 1)" ?c])
          show "utf8_scan_char p len i = Done (Inr (i + (?n - 1), ?c))" using eq ok by simp
          show "take (length (utf8_bytes ?c)) (drop i p) = utf8_bytes ?c" unfolding b d using ys(1) by simp
          show "Suc (i + (?n - 1)) = i + length (utf8_bytes ?c)" unfolding b using n by simp
        qed (use ok False n2 in simp_all)
      qed
    qed
  qed
qed

abbreviation utf8_all :: "u64 list \<Rightarrow> u8 list" where
  "utf8_all cs \<equiv> concat (map utf8_bytes cs)"

lemma utf8_bytes_nonempty: "0 < length (utf8_bytes c)"
  by (simp add: length_utf8_bytes UNISKIP_def)

text \<open>The scanner: its units are bytes.\<close>

lemma utf8_scan_char_cases:
  assumes "i < len" "len \<le> length p"
  shows "(\<exists>e. utf8_scan_char p len i = Thrown e) \<or> (\<exists>r c. utf8_scan_char p len i = Done (Inl (r, c)) \<and> 0 < r)
      \<or> (\<exists>c. utf8_scan_char p len i = Done (Inr (i + UNISKIP c - 1, c)) \<and> \<not> UNICODE_IS_INVALID c
            \<and> i + UNISKIP c \<le> len \<and> take (UNISKIP c) (drop i p) = utf8_bytes c)"
  using assms
proof (cases rule: utf8_scan_char_sound)
  case (char j c)
  then have "j = i + UNISKIP c - 1" "i + UNISKIP c \<le> len" by (simp_all add: length_utf8_bytes)
  then show ?thesis using char by (auto simp: length_utf8_bytes)
qed blast+

interpretation utf8: scanner utf8_scan_char utf8_scan_loop 1 utf8_bytes UNISKIP
proof unfold_locales
  fix c i len :: nat and pre post :: "u8 list" and d
  show "length (utf8_bytes d) = 1 * UNISKIP d" "0 < UNISKIP d" by (simp_all add: length_utf8_bytes UNISKIP_def)
  assume "\<not> UNICODE_IS_INVALID d" "length pre = 1 * i" "i + UNISKIP d \<le> len"
  then show "utf8_scan_char (pre @ utf8_bytes d @ post) len i = Done (Inr (i + UNISKIP d - 1, d))"
    using utf8_scan_char_valid [of d pre len post] by (simp add: length_utf8_bytes)
qed (use utf8_scan_char_cases in auto)

lemma utf8_scan_iff:
  assumes "bufused s \<le> length (strstart s)"
  shows "utf8_scan s = Done s' \<longleftrightarrow>
      (\<exists>cs. code_points cs \<and> take (bufused s) (strstart s) = utf8_all cs \<and> s' = s\<lparr>strlen := length cs\<rparr>)"
    and "utf8_scan s \<noteq> Undefined"
proof -
  let ?r = "utf8_scan_loop (strstart s) (bufused s) (- 1) (bufused s) 0 0 (- 1)"
  have sc: "utf8_scan s = obind ?r (\<lambda>(i, chars, c, res). if i \<noteq> bufused s then Thrown ''Unaligned end in UTF-8 string''
      else Done (s\<lparr>strlen := chars\<rparr>))"
    by (cases ?r) (auto simp: utf8_scan_def utf8_partial_scan_def)
  show "utf8_scan s \<noteq> Undefined"
    using utf8.no_undefined [of "bufused s" "strstart s"] assms unfolding sc by (cases ?r) (auto split: prod.splits)
  have "utf8_scan s = Done s' \<longleftrightarrow> (\<exists>chars. (\<exists>c res. ?r = Done (bufused s, chars, c, res)) \<and> s' = s\<lparr>strlen := chars\<rparr>)"
    unfolding sc by (cases ?r) (auto split: prod.splits)
  then show "utf8_scan s = Done s' \<longleftrightarrow>
      (\<exists>cs. code_points cs \<and> take (bufused s) (strstart s) = utf8_all cs \<and> s' = s\<lparr>strlen := length cs\<rparr>)"
    using utf8.scan_loop_iff [of "bufused s" "strstart s"] assms by auto
qed

end
