(* ===== verification/Str_Utf16.thy ===== *)
theory Str_Utf16
  imports Str_Utf8_Rep
begin

text \<open>
  The UTF-16 encoding, \<open>src/string/encoding/utf16.c\<close>.  A \<open>utf16_t *\<close> is the position of
  its first byte; the two bytes of a unit are stored in the order of a little-endian
  machine.
\<close>

definition rd16 :: "u8 list \<Rightarrow> nat \<Rightarrow> u64 option" where
  "rd16 m p = do { lo \<leftarrow> rd m p; hi \<leftarrow> rd m (p + 1); Some (ucast lo OR push_bit 8 (ucast hi)) }"

definition wr16 :: "u8 list \<Rightarrow> nat \<Rightarrow> u64 \<Rightarrow> u8 list option" where
  "wr16 m p c = do { m \<leftarrow> wr m p (ucast c); wr m (p + 1) (ucast (drop_bit 8 c)) }"

section \<open>Decoding, encoding, moving\<close>

definition utf16_decode :: "u8 list \<Rightarrow> nat \<Rightarrow> u64 option" where
  "utf16_decode m p =
     do {
       c \<leftarrow> rd16 m p;
       if UNICODE_IS_HIGH_SURROGATE c
       then do { low \<leftarrow> rd16 m (p + 2); Some (UNICODE_DECODE_SURROGATE c low) }
       else Some c
     }"

definition utf16_encode :: "u8 list \<Rightarrow> nat \<Rightarrow> u64 \<Rightarrow> (u8 list \<times> nat) outcome" where
  "utf16_encode m ptr c =
     (if c < 0xFFFE
      then (if UNICODE_IS_SURROGATE c \<or> (c \<ge> 0xFDD0 \<and> c \<le> 0xFDEF)
            then Thrown ''Invalid character for UTF-16 encoding''
            else obind (defined (wr16 m ptr c)) (\<lambda>m. Done (m, ptr + 2)))
      else (if c AND 0xFFFE = 0xFFFE \<or> c > 0x10FFFF
            then Thrown ''Invalid character for UTF-16 encoding''
            else obind (defined (wr16 m ptr (UNICODE_HIGH_SURROGATE c))) (\<lambda>m.
                 obind (defined (wr16 m (ptr + 2) (UNICODE_LOW_SURROGATE c))) (\<lambda>m. Done (m, ptr + 4)))))"

fun utf16_skip_forward :: "u8 list \<Rightarrow> nat \<Rightarrow> nat \<Rightarrow> nat option" where
  "utf16_skip_forward m p 0 = Some p"
| "utf16_skip_forward m p (Suc n) = do { c \<leftarrow> rd16 m p; utf16_skip_forward m (p + 2 * UTF16SKIP c) n }"

definition utf16_back :: "u8 list \<Rightarrow> nat \<Rightarrow> nat option" where
  "utf16_back m p =
     do {
       c_assert (2 \<le> p);
       c \<leftarrow> rd16 m (p - 2);
       if UNICODE_IS_LOW_SURROGATE c then do { c_assert (4 \<le> p); Some (p - 4) } else Some (p - 2)
     }"

fun utf16_skip_backward :: "u8 list \<Rightarrow> nat \<Rightarrow> nat \<Rightarrow> nat option" where
  "utf16_skip_backward m p 0 = Some p"
| "utf16_skip_backward m p (Suc n) = do { p \<leftarrow> utf16_back m p; utf16_skip_backward m p n }"

definition utf16_move :: "u8 list \<Rightarrow> nat \<Rightarrow> int \<Rightarrow> nat option" where
  "utf16_move m p skip =
     (if skip > 0 then utf16_skip_forward m p (nat skip)
      else if skip < 0 then utf16_skip_backward m p (nat (- skip))
      else Some p)"

section \<open>Scanning\<close>

text \<open>
  One round of the loop: \<open>Inl\<close> for a high surrogate at the end, or \<open>Inr\<close> the position, in
  units, of the last unit and the character.
\<close>

definition utf16_scan_char :: "u8 list \<Rightarrow> nat \<Rightarrow> nat \<Rightarrow> (nat \<times> u64 + nat \<times> u64) outcome" where
  "utf16_scan_char p len i =
     obind (defined (rd16 p (2 * i))) (\<lambda>c.
     obind (if UNICODE_IS_HIGH_SURROGATE c
            then (if i + 1 \<ge> len then Done (Inl (2, c))
                  else obind (defined (rd16 p (2 * (i + 1)))) (\<lambda>low.
                       if \<not> UNICODE_IS_LOW_SURROGATE low then Thrown ''Malformed UTF-16 string''
                       else Done (Inr (i + 1, UNICODE_DECODE_SURROGATE c low))))
            else if UNICODE_IS_LOW_SURROGATE c then Thrown ''Malformed UTF-16 string''
            else Done (Inr (i, c))) (\<lambda>r.
     case r of
       Inl x \<Rightarrow> Done (Inl x)
     | Inr (i, c) \<Rightarrow>
         if UNICODE_IS_NON_CHARACTER c then Thrown ''Non-character in UTF-16 string''
         else Done (Inr (i, c))))"

fun utf16_scan_loop :: "u8 list \<Rightarrow> nat \<Rightarrow> u64 \<Rightarrow> nat \<Rightarrow> nat \<Rightarrow> nat \<Rightarrow> u64 \<Rightarrow> (nat \<times> nat \<times> u64 \<times> nat) outcome" where
  "utf16_scan_loop p len delim 0 i chars c = Done (i, chars, c, 0)"
| "utf16_scan_loop p len delim (Suc n) i chars c =
     (if \<not> i < len then Done (i, chars, c, 0)
      else obind (utf16_scan_char p len i) (\<lambda>r.
        case r of
          Inl (res, c) \<Rightarrow> Done (i, chars, c, res)
        | Inr (i, c) \<Rightarrow>
            if c = delim then Done (i + 1, chars + 1, c, 0)
            else utf16_scan_loop p len delim n (i + 1) (chars + 1) c))"

definition utf16_partial_scan :: "u8 list \<Rightarrow> string_bounds \<Rightarrow> (nat \<times> string_bounds) outcome" where
  "utf16_partial_scan buf bounds =
     (let len = bnd_bytes bounds div 2;
          max_chars = (if bnd_chars bounds < 0 then len else nat (bnd_chars bounds))
      in obind (utf16_scan_loop buf len (bnd_delim bounds) max_chars 0 0 (- 1)) (\<lambda>(i, chars, c, res).
         Done (res, \<lparr>bnd_bytes = 2 * i, bnd_chars = int chars, bnd_delim = c\<rparr>)))"

definition utf16_scan :: "parrot_string \<Rightarrow> parrot_string outcome" where
  "utf16_scan src =
     obind (utf16_partial_scan (strstart src) \<lparr>bnd_bytes = bufused src, bnd_chars = - 1, bnd_delim = - 1\<rparr>)
       (\<lambda>(res, bounds).
         if bnd_bytes bounds \<noteq> bufused src then Thrown ''Unaligned end in UTF-16 string''
         else Done (src\<lparr>strlen := nat (bnd_chars bounds)\<rparr>))"

definition utf16_ord :: "parrot_string \<Rightarrow> int \<Rightarrow> u64 outcome" where
  "utf16_ord src idx =
     obind (ord_index (strlen src) idx) (\<lambda>idx.
     defined (do { start \<leftarrow> utf16_skip_forward (strstart src) 0 idx; utf16_decode (strstart src) start }))"

section \<open>Iterators\<close>

definition utf16_iter_get :: "parrot_string \<Rightarrow> string_iter \<Rightarrow> int \<Rightarrow> u64 option" where
  "utf16_iter_get str i offset =
     do {
       cp \<leftarrow> move (charpos i) offset;
       c_assert (cp \<le> strlen str);
       ptr \<leftarrow> utf16_move (strstart str) (bytepos i) offset;
       utf16_decode (strstart str) ptr
     }"

definition utf16_iter_skip :: "parrot_string \<Rightarrow> string_iter \<Rightarrow> int \<Rightarrow> string_iter option" where
  "utf16_iter_skip str i skip =
     do {
       cp \<leftarrow> move (charpos i) skip;
       c_assert (cp \<le> strlen str);
       ptr \<leftarrow> utf16_move (strstart str) (bytepos i) skip;
       c_assert (ptr \<le> bufused str);
       Some \<lparr>bytepos = ptr, charpos = cp\<rparr>
     }"

definition utf16_iter_get_and_advance :: "parrot_string \<Rightarrow> string_iter \<Rightarrow> (u64 \<times> string_iter) option" where
  "utf16_iter_get_and_advance str i =
     do {
       c \<leftarrow> utf16_decode (strstart str) (bytepos i);
       u \<leftarrow> rd16 (strstart str) (bytepos i);
       let bp = bytepos i + (if UNICODE_IS_HIGH_SURROGATE u then 4 else 2)
       in do { c_assert (bp \<le> bufused str); Some (c, \<lparr>bytepos = bp, charpos = charpos i + 1\<rparr>) }
     }"

definition utf16_iter_set_and_advance :: "parrot_string \<Rightarrow> string_iter \<Rightarrow> u64 \<Rightarrow> (parrot_string \<times> string_iter) outcome" where
  "utf16_iter_set_and_advance str i c =
     obind (utf16_encode (strstart str) (bytepos i) c) (\<lambda>(m, end).
     obind (defined (c_assert (end \<le> bufused str))) (\<lambda>_.
     Done (str\<lparr>strstart := m\<rparr>, \<lparr>bytepos = end, charpos = charpos i + 1\<rparr>)))"

section \<open>The bytes of a code point\<close>

definition u16_bytes :: "u64 \<Rightarrow> u8 list" where
  "u16_bytes c = [ucast c, ucast (drop_bit 8 c)]"

definition utf16_bytes :: "u64 \<Rightarrow> u8 list" where
  "utf16_bytes c =
     (if c < 0x10000 then u16_bytes c
      else u16_bytes (0xD800 + drop_bit 10 (c - 0x10000)) @ u16_bytes (0xDC00 + take_bit 10 c))"

lemma rd16_at:
  assumes "c < 0x10000"
  shows "rd16 (pre @ u16_bytes c @ post) (length pre) = Some c"
proof -
  have "c < 2 ^ 16" using assms by simp
  note h = high_bits_0 [OF this]
  have "(ucast (ucast c :: u8) :: u64) OR push_bit 8 (ucast (ucast (drop_bit 8 c) :: u8)) = c"
  proof (rule bit_word_eqI)
    fix n assume "n < LENGTH(64)"
    then show "bit ((ucast (ucast c :: u8) :: u64) OR push_bit 8 (ucast (ucast (drop_bit 8 c) :: u8))) n = bit c n"
      using h [of n] by (cases "n < 8"; cases "16 \<le> n") (auto simp: bit_simps)
  qed
  moreover have "rd (pre @ u16_bytes c @ post) (length pre + 1) = Some (ucast (drop_bit 8 c))"
    using rd_append [of pre "u16_bytes c @ post" 1] by (simp add: u16_bytes_def)
  ultimately show ?thesis by (simp add: rd16_def u16_bytes_def)
qed

lemma wr16_at: "wr16 (pre @ a # b # post) (length pre) c = Some (pre @ u16_bytes c @ post)"
  by (simp add: wr16_def u16_bytes_def wr_def list_update_append)

lemma surrogate_iff:
  "UNICODE_IS_HIGH_SURROGATE c \<longleftrightarrow> unat c div 1024 = 54" "UNICODE_IS_LOW_SURROGATE c \<longleftrightarrow> unat c div 1024 = 55"
proof -
  have m: "(0x3FF :: u64) = Bit_Operations.mask 10" by (simp add: mask_eq_exp_minus_1)
  have e: "c AND NOT 0x3FF = push_bit 10 (drop_bit 10 c)"
    unfolding m by (rule bit_word_eqI) (auto simp: bit_simps)
  have d: "drop_bit 10 (c AND NOT 0x3FF) = drop_bit 10 c"
    unfolding e by (rule bit_word_eqI) (auto simp: bit_simps dest: bit_imp_le_length)
  have "c AND NOT 0x3FF = push_bit 10 k \<longleftrightarrow> drop_bit 10 c = k" if "drop_bit 10 (push_bit 10 k) = k" for k
    using e d that by metis
  from this [of 54] this [of 55]
  show "UNICODE_IS_HIGH_SURROGATE c \<longleftrightarrow> unat c div 1024 = 54" "UNICODE_IS_LOW_SURROGATE c \<longleftrightarrow> unat c div 1024 = 55"
    using unat_drop_bit [of 10 c]
    by (simp_all add: UNICODE_IS_HIGH_SURROGATE_def UNICODE_IS_LOW_SURROGATE_def UNICODE_SURROGATE_MASK_def
        UNICODE_HIGH_SURROGATE_FIRST_def UNICODE_LOW_SURROGATE_FIRST_def word_unat_eq_iff)
qed

end
