(* ===== verification/Str_Utf16_Rep.thy ===== *)
theory Str_Utf16_Rep
  imports Str_Utf16
begin

text \<open>
  The operations of \<open>Str_Utf16\<close> on storage that holds the units of a list of code points:
  one unit for a code point below \<open>0x10000\<close>, a pair of surrogates above.
\<close>

section \<open>Surrogates\<close>

lemma surrogate_range:
  "UNICODE_IS_HIGH_SURROGATE c \<longleftrightarrow> 0xD800 \<le> unat c \<and> unat c < 0xDC00"
  "UNICODE_IS_LOW_SURROGATE c \<longleftrightarrow> 0xDC00 \<le> unat c \<and> unat c < 0xE000"
  unfolding surrogate_iff by arith+

lemma unat_push: "unat x * 2 ^ n < 2 ^ 64 \<Longrightarrow> unat (push_bit n x) = unat x * 2 ^ n" for x :: u64
  unfolding unsigned_push_bit_eq by (simp add: push_bit_eq_mult take_bit_nat_eq_self)

lemma unat_pair:
  assumes "UNICODE_IS_HIGH_SURROGATE h" "UNICODE_IS_LOW_SURROGATE l"
  shows "unat (UNICODE_DECODE_SURROGATE h l) = 0x10000 + 1024 * (unat h - 0xD800) + (unat l - 0xDC00)"
proof -
  have h: "0xD800 \<le> unat h" "unat h < 0xDC00" and l: "0xDC00 \<le> unat l" "unat l < 0xE000"
    using assms by (simp_all add: surrogate_range)
  have p: "unat (push_bit 10 h) = 1024 * unat h"
    using unat_push [of h 10] h(2) by simp
  have s: "unat (push_bit 10 h + l) = 1024 * unat h + unat l"
    using unat_add_lem [of "push_bit 10 h" l] p h(2) l(2) by simp
  have k: "push_bit 10 UNICODE_HIGH_SURROGATE_FIRST + UNICODE_LOW_SURROGATE_FIRST - 0x10000 = (0x35FDC00 :: u64)"
    by (simp add: UNICODE_HIGH_SURROGATE_FIRST_def UNICODE_LOW_SURROGATE_FIRST_def push_bit_eq_mult)
  have "(0x35FDC00 :: u64) \<le> push_bit 10 h + l" unfolding word_le_nat_alt s using h(1) l(1) by simp
  then have "unat (push_bit 10 h + l - 0x35FDC00) = 1024 * unat h + unat l - 0x35FDC00"
    using unat_sub [of "0x35FDC00" "push_bit 10 h + l"] s by simp
  also have "\<dots> = 0x10000 + 1024 * (unat h - 0xD800) + (unat l - 0xDC00)" using h(1) l(1) by arith
  finally show ?thesis unfolding UNICODE_DECODE_SURROGATE_def k .
qed

lemma rd16_pair: "rd16 (pre @ a # b # post) (length pre) = Some (ucast a OR push_bit 8 (ucast b))"
  using rd_append [of pre "a # b # post" 1] by (simp add: rd16_def)

lemma unit_of_bytes:
  fixes a b :: u8
  defines "u \<equiv> ucast a OR push_bit 8 (ucast b) :: u64"
  shows "u < 0x10000" "u16_bytes u = [a, b]"
proof -
  have z: "ucast a AND push_bit 8 (ucast b) = (0 :: u64)"
    by (rule bit_word_eqI) (auto simp: bit_simps dest: bit_imp_le_length)
  have ab: "unat a < 256" "unat b < 256" using unsigned_less [of a] unsigned_less [of b] by simp_all
  have pb: "unat (push_bit 8 (ucast b) :: u64) = 256 * unat b"
    using unat_push [of "ucast b" 8] ab(2) by (simp add: ucast_64_8)
  have u: "unat u = unat a + 256 * unat b"
    unfolding u_def or_eq_plus [OF z] using unat_add_lem [of "ucast a" "push_bit 8 (ucast b) :: u64"] pb ab
    by (simp add: ucast_64_8)
  then show "u < 0x10000" using ab by (simp add: word_less_nat_alt)
  have "ucast u = a" "ucast (drop_bit 8 u) = b"
    unfolding u_def by (rule bit_word_eqI; auto simp: bit_simps dest: bit_imp_le_length)+
  then show "u16_bytes u = [a, b]" by (simp add: u16_bytes_def)
qed

lemma minus_plane:
  assumes "0x10000 \<le> (n :: nat)"
  shows "n mod 1024 = (n - 0x10000) mod 1024" "n div 1024 = 64 + (n - 0x10000) div 1024"
proof -
  obtain k where "n = 0x10000 + k" using le_Suc_ex [OF assms] by blast
  then have n: "n = 64 * 1024 + k" "n - 0x10000 = k" by simp_all
  show "n mod 1024 = (n - 0x10000) mod 1024" unfolding n(2) unfolding n(1) by (rule mod_mult_self3)
  show "n div 1024 = 64 + (n - 0x10000) div 1024" unfolding n(2) unfolding n(1) by (rule div_mult_self3) simp
qed

lemma utf16_units:
  assumes v: "\<not> UNICODE_IS_INVALID c"
  obtains (one) "c < 0x10000" "utf16_bytes c = u16_bytes c" "\<not> UNICODE_IS_HIGH_SURROGATE c" "\<not> UNICODE_IS_LOW_SURROGATE c"
    | (two) h l where "0x10000 \<le> c" "utf16_bytes c = u16_bytes h @ u16_bytes l" "h < 0x10000" "l < 0x10000"
        "UNICODE_IS_HIGH_SURROGATE h" "UNICODE_IS_LOW_SURROGATE l" "UNICODE_DECODE_SURROGATE h l = c"
        "UNICODE_HIGH_SURROGATE c = h" "UNICODE_LOW_SURROGATE c = l"
proof (cases "c < 0x10000")
  case True
  have "\<not> (0xD800 \<le> unat c \<and> unat c \<le> 0xDFFF)" using v by (auto simp: UNICODE_IS_INVALID_def word_le_nat_alt)
  then show thesis using True one by (auto simp: utf16_bytes_def surrogate_range)
next
  case False
  have r: "0x10000 \<le> unat c" "unat c < 0x110000"
    using False invalid_range [OF v] by (simp_all add: word_less_nat_alt)
  define h :: u64 where "h = 0xD800 + drop_bit 10 (c - 0x10000)"
  define l :: u64 where "l = 0xDC00 + take_bit 10 c"
  have s: "unat (c - 0x10000) = unat c - 0x10000" using unat_sub [of "0x10000" c] r(1) by (simp add: word_le_nat_alt)
  have d: "unat (drop_bit 10 (c - 0x10000)) = (unat c - 0x10000) div 1024" unfolding unat_drop_bit s by simp
  have d2: "(unat c - 0x10000) div 1024 < 1024" using r by (simp add: less_mult_imp_div_less)
  have h: "unat h = 0xD800 + (unat c - 0x10000) div 1024"
    unfolding h_def using unat_add_lem [of "0xD800" "drop_bit 10 (c - 0x10000)"] d d2 by simp
  have t: "unat (take_bit 10 c) = unat c mod 1024" unfolding unsigned_take_bit_eq by (simp add: take_bit_eq_mod)
  have t2: "unat c mod 1024 < 1024" by simp
  have l: "unat l = 0xDC00 + unat c mod 1024"
    unfolding l_def using unat_add_lem [of "0xDC00" "take_bit 10 c"] t t2 by simp
  have hs: "UNICODE_IS_HIGH_SURROGATE h" "UNICODE_IS_LOW_SURROGATE l" "h < 0x10000" "l < 0x10000"
    using h l d2 t2 by (simp_all add: surrogate_range word_less_nat_alt)
  have "unat (UNICODE_DECODE_SURROGATE h l) = 0x10000 + 1024 * ((unat c - 0x10000) div 1024) + unat c mod 1024"
    unfolding unat_pair [OF hs(1,2)] h l diff_add_inverse ..
  also note minus_plane(1) [OF r(1)]
  also have "0x10000 + 1024 * ((unat c - 0x10000) div 1024) + (unat c - 0x10000) mod 1024 = unat c"
    using mult_div_mod_eq [of 1024 "unat c - 0x10000"] r(1) by linarith
  finally have dec: "UNICODE_DECODE_SURROGATE h l = c" by (simp add: word_unat_eq_iff)
  show thesis
  proof (rule two [of h l])
    show "0x10000 \<le> c" "utf16_bytes c = u16_bytes h @ u16_bytes l"
      using False by (simp_all add: utf16_bytes_def h_def l_def)
    have "unat (UNICODE_HIGH_SURROGATE c) = unat h"
    proof -
      have "unat (drop_bit 10 c) = unat c div 1024" unfolding unat_drop_bit by simp
      moreover note minus_plane(2) [OF r(1)]
      ultimately have "unat (drop_bit 10 c + 0xD7C0) = 0xD7C0 + (64 + (unat c - 0x10000) div 1024)"
        using unat_add_lem [of "drop_bit 10 c" "0xD7C0"] d2 by simp
      then show ?thesis using h by (simp add: UNICODE_HIGH_SURROGATE_def UNICODE_HIGH_SURROGATE_FIRST_def drop_bit_eq_div)
    qed
    then show "UNICODE_HIGH_SURROGATE c = h" by (simp add: word_unat_eq_iff)
    have m: "(0x3FF :: u64) = Bit_Operations.mask 10" by (simp add: mask_eq_exp_minus_1)
    have tb: "c AND UNICODE_SURROGATE_MASK = take_bit 10 c" by (simp add: UNICODE_SURROGATE_MASK_def m take_bit_eq_mask)
    have "take_bit 10 c AND push_bit 10 k = 0" for k :: u64
      by (rule bit_word_eqI) (auto simp: bit_take_bit_iff bit_and_iff bit_push_bit_iff)
    from this [of 55] have "take_bit 10 c AND 0xDC00 = 0" by (simp add: push_bit_eq_mult)
    then show "UNICODE_LOW_SURROGATE c = l"
      unfolding UNICODE_LOW_SURROGATE_def tb UNICODE_LOW_SURROGATE_FIRST_def l_def by (simp add: or_eq_plus add.commute)
  qed (use hs dec in simp_all)
qed

section \<open>Decoding, encoding, moving in storage\<close>

lemma not_non_character: "c < 0xFFFE \<Longrightarrow> c AND 0xFFFE \<noteq> (0xFFFE :: u64)"
  using word_and_le2 [of c "0xFFFE"] by (metis linorder_not_less)

lemma invalid_iff:
  "UNICODE_IS_INVALID c \<longleftrightarrow>
    (if c < 0xFFFE then UNICODE_IS_SURROGATE c \<or> (c \<ge> 0xFDD0 \<and> c \<le> 0xFDEF) else c AND 0xFFFE = 0xFFFE \<or> c > 0x10FFFF)"
proof (cases "c < 0xFFFE")
  case True
  then have "\<not> c > 0x10FFFF" "c AND 0xFFFE \<noteq> 0xFFFE" using not_non_character by (auto simp: word_less_nat_alt)
  moreover have "c \<le> 0xDFFF \<Longrightarrow> c \<le> 0xFDEF" "c \<ge> 0xFDD0 \<Longrightarrow> c \<ge> 0xD800"
    by (simp_all add: word_le_nat_alt)
  ultimately show ?thesis using True by (auto simp: UNICODE_IS_INVALID_def UNICODE_IS_SURROGATE_def)
next
  case False
  then have "c \<ge> 0xD800" "\<not> c \<le> 0xFDEF" by (simp_all add: word_le_nat_alt word_less_nat_alt)
  then show ?thesis using False by (simp add: UNICODE_IS_INVALID_def)
qed

lemma length_u16_bytes [simp]: "length (u16_bytes c) = 2"
  by (simp add: u16_bytes_def)

lemma rd16_at2: "c < 0x10000 \<Longrightarrow> length pre = p \<Longrightarrow> rd16 (pre @ u16_bytes c @ post) p = Some c"
  using rd16_at by blast

lemma utf16_decode_at:
  assumes "\<not> UNICODE_IS_INVALID c"
  shows "utf16_decode (pre @ utf16_bytes c @ post) (length pre) = Some c"
  using assms
proof (cases rule: utf16_units)
  case (two h l)
  have "rd16 ((pre @ u16_bytes h) @ u16_bytes l @ post) (length pre + 2) = Some l"
    by (rule rd16_at2) (use two in simp_all)
  then show ?thesis using two rd16_at [of h pre "u16_bytes l @ post"] by (simp add: utf16_decode_def)
qed (simp add: utf16_decode_def rd16_at)

lemma wr16_at2: "length old = 2 \<Longrightarrow> wr16 (pre @ old @ post) (length pre) c = Some (pre @ u16_bytes c @ post)"
  using wr16_at by (auto simp: length_Suc_conv numeral_2_eq_2)

lemma utf16_encode_invalid: "UNICODE_IS_INVALID c \<Longrightarrow> utf16_encode m p c = Thrown ''Invalid character for UTF-16 encoding''"
  by (auto simp: utf16_encode_def invalid_iff split: if_splits)

lemma utf16_encode_at:
  assumes v: "\<not> UNICODE_IS_INVALID c" and old: "length old = length (utf16_bytes c)"
  shows "utf16_encode (pre @ old @ post) (length pre) c = Done (pre @ utf16_bytes c @ post, length pre + length (utf16_bytes c))"
  using v
proof (cases rule: utf16_units)
  case one
  have "c < 0xFFFE"
  proof (rule ccontr)
    assume n: "\<not> c < 0xFFFE"
    then have "c = 0xFFFE \<or> c = 0xFFFF" using one(1) by (auto simp: word_less_nat_alt word_unat_eq_iff)
    then show False using v by (auto simp: UNICODE_IS_INVALID_def)
  qed
  then show ?thesis using v old one(2) wr16_at2 [of old pre post c] by (simp add: utf16_encode_def invalid_iff)
next
  case (two h l)
  have n: "\<not> c < 0xFFFE" using two(1) by (simp add: word_less_nat_alt word_le_nat_alt)
  have "length (take 2 old) = 2" "length (drop 2 old) = 2" using old two(2) by simp_all
  then obtain o1 o2 where o: "old = o1 @ o2" "length o1 = 2" "length o2 = 2"
    using append_take_drop_id [of 2 old] by metis
  have "wr16 (pre @ old @ post) (length pre) h = Some (pre @ u16_bytes h @ o2 @ post)"
    using wr16_at2 [of o1 pre "o2 @ post" h] o by simp
  moreover have "wr16 (pre @ u16_bytes h @ o2 @ post) (length pre + 2) l = Some (pre @ u16_bytes h @ u16_bytes l @ post)"
    using wr16_at2 [of o2 "pre @ u16_bytes h" post l] o by simp
  ultimately show ?thesis using v n two(2,8,9) by (simp add: utf16_encode_def invalid_iff)
qed

abbreviation utf16_all :: "u64 list \<Rightarrow> u8 list" where
  "utf16_all cs \<equiv> concat (map utf16_bytes cs)"

definition utf16_units_of :: "u64 \<Rightarrow> nat" where
  "utf16_units_of c = (if c < 0x10000 then 1 else 2)"

lemma length_utf16_bytes: "length (utf16_bytes c) = 2 * utf16_units_of c" "0 < utf16_units_of c"
  by (simp_all add: utf16_bytes_def utf16_units_of_def)

lemma utf16_first_unit:
  assumes "\<not> UNICODE_IS_INVALID c"
  obtains u where "rd16 (pre @ utf16_bytes c @ post) (length pre) = Some u" "UTF16SKIP u = utf16_units_of c"
proof -
  have "\<exists>u. rd16 (pre @ utf16_bytes c @ post) (length pre) = Some u \<and> UTF16SKIP u = utf16_units_of c"
    using assms
  proof (cases rule: utf16_units)
    case one
    then show ?thesis by (simp add: rd16_at UTF16SKIP_def utf16_units_of_def)
  next
    case (two h l)
    then have "\<not> c < 0x10000" by simp
    then show ?thesis using two by (simp add: rd16_at UTF16SKIP_def utf16_units_of_def)
  qed
  then show thesis using that by blast
qed

lemma utf16_skip_forward_chars:
  assumes "code_points cs"
  shows "utf16_skip_forward (pre @ utf16_all cs @ post) (length pre) (length cs) = Some (length pre + length (utf16_all cs))"
  using assms
proof (induction cs arbitrary: pre)
  case (Cons c cs)
  from utf16_first_unit [of c pre "utf16_all cs @ post"] Cons.prems obtain u where
    "rd16 (pre @ utf16_bytes c @ utf16_all cs @ post) (length pre) = Some u" "UTF16SKIP u = utf16_units_of c" by auto
  moreover have "utf16_skip_forward ((pre @ utf16_bytes c) @ utf16_all cs @ post) (length (pre @ utf16_bytes c)) (length cs)
    = Some (length (pre @ utf16_bytes c) + length (utf16_all cs))"
    using Cons.prems by (intro Cons.IH) simp
  ultimately show ?case by (simp add: length_utf16_bytes(1) add.assoc)
qed simp

lemma utf16_back_char:
  assumes "\<not> UNICODE_IS_INVALID c"
  shows "utf16_back (pre @ utf16_bytes c @ post) (length pre + length (utf16_bytes c)) = Some (length pre)"
  using assms
proof (cases rule: utf16_units)
  case (two h l)
  have "rd16 ((pre @ u16_bytes h) @ u16_bytes l @ post) (length pre + 2) = Some l"
    by (rule rd16_at2) (use two in simp_all)
  then show ?thesis using two by (simp add: utf16_back_def)
qed (simp add: utf16_back_def rd16_at)

lemma utf16_skip_backward_chars:
  assumes "code_points cs"
  shows "utf16_skip_backward (pre @ utf16_all cs @ post) (length pre + length (utf16_all cs)) (length cs) = Some (length pre)"
  using assms
proof (induction cs arbitrary: post rule: rev_induct)
  case (snoc c cs)
  let ?B = "utf16_all cs"
  have "utf16_back ((pre @ ?B) @ utf16_bytes c @ post) (length (pre @ ?B) + length (utf16_bytes c)) = Some (length (pre @ ?B))"
    by (rule utf16_back_char) (use snoc.prems in simp)
  moreover have "utf16_skip_backward (pre @ ?B @ (utf16_bytes c @ post)) (length pre + length ?B) (length cs) = Some (length pre)"
    using snoc.prems by (intro snoc.IH) simp
  ultimately show ?case by (simp add: add.assoc)
qed simp

section \<open>Scanning\<close>

lemma non_character_iff:
  assumes "c < 0x110000" "\<not> (0xD800 \<le> unat c \<and> unat c < 0xE000)"
  shows "UNICODE_IS_NON_CHARACTER c \<longleftrightarrow> UNICODE_IS_INVALID c"
proof -
  have "\<not> UNICODE_IS_SURROGATE c" "\<not> c > 0x10FFFF"
    using assms by (auto simp: UNICODE_IS_SURROGATE_def word_less_nat_alt word_le_nat_alt)
  moreover have "\<not> c < 0xFFFE \<Longrightarrow> \<not> c \<le> 0xFDEF" by (simp add: word_less_nat_alt word_le_nat_alt)
  ultimately show ?thesis using not_non_character [of c] by (auto simp: UNICODE_IS_NON_CHARACTER_def invalid_iff)
qed

lemma valid_not_non_character: "\<not> UNICODE_IS_INVALID c \<Longrightarrow> \<not> UNICODE_IS_NON_CHARACTER c"
proof -
  assume v: "\<not> UNICODE_IS_INVALID c"
  have "\<not> (0xD800 \<le> unat c \<and> unat c < 0xE000)" using v by (auto simp: UNICODE_IS_INVALID_def word_le_nat_alt)
  from non_character_iff [OF invalid_range [OF v] this] v show ?thesis by simp
qed

lemma utf16_scan_char_valid:
  assumes v: "\<not> UNICODE_IS_INVALID c" and i: "length pre = 2 * i" and len: "i + utf16_units_of c \<le> len"
  shows "utf16_scan_char (pre @ utf16_bytes c @ post) len i = Done (Inr (i + utf16_units_of c - 1, c))"
  using v
proof (cases rule: utf16_units)
  case one
  have "rd16 (pre @ u16_bytes c @ post) (2 * i) = Some c" by (rule rd16_at2) (use one i in simp_all)
  then show ?thesis using one valid_not_non_character [OF v] by (simp add: utf16_scan_char_def utf16_units_of_def)
next
  case (two h l)
  have u: "utf16_units_of c = 2" using two(1) by (simp add: utf16_units_of_def word_less_nat_alt word_le_nat_alt)
  have "rd16 (pre @ u16_bytes h @ u16_bytes l @ post) (2 * i) = Some h" by (rule rd16_at2) (use two i in simp_all)
  moreover have "rd16 ((pre @ u16_bytes h) @ u16_bytes l @ post) (2 * (i + 1)) = Some l" by (rule rd16_at2) (use two i in simp_all)
  ultimately show ?thesis using two u len valid_not_non_character [OF v] by (simp add: utf16_scan_char_def)
qed

lemma rd16_take:
  assumes "p + 2 \<le> length m"
  obtains u where "rd16 m p = Some u" "u < 0x10000" "take 2 (drop p m) = u16_bytes u"
proof -
  have "drop p m = m ! p # m ! (p + 1) # drop (p + 2) m" using assms by (simp add: Cons_nth_drop_Suc)
  moreover have "rd16 m p = Some (ucast (m ! p) OR push_bit 8 (ucast (m ! (p + 1))))" using assms by (simp add: rd16_def)
  ultimately show thesis using that unit_of_bytes by (simp add: numeral_2_eq_2)
qed

lemma digits:
  assumes "1024 * a + b = 1024 * a' + b'" "b < 1024" "b' < (1024 :: nat)"
  shows "a = a'" "b = b'"
  using arg_cong [OF assms(1), of "\<lambda>x. x div 1024"] arg_cong [OF assms(1), of "\<lambda>x. x mod 1024"] assms(2,3) by simp_all

lemma utf16_scan_char_cases:
  assumes i: "i < len" and len: "2 * len \<le> length p"
  shows "(\<exists>e. utf16_scan_char p len i = Thrown e) \<or> (\<exists>r c. utf16_scan_char p len i = Done (Inl (r, c)) \<and> 0 < r)
      \<or> (\<exists>c. utf16_scan_char p len i = Done (Inr (i + utf16_units_of c - 1, c)) \<and> \<not> UNICODE_IS_INVALID c
            \<and> i + utf16_units_of c \<le> len \<and> take (2 * utf16_units_of c) (drop (2 * i) p) = utf16_bytes c)"
proof -
  obtain u where u: "rd16 p (2 * i) = Some u" "u < 0x10000" "take 2 (drop (2 * i) p) = u16_bytes u"
    using rd16_take [of "2 * i" p] i len by auto
  consider "UNICODE_IS_HIGH_SURROGATE u" "i + 1 \<ge> len" | "UNICODE_IS_HIGH_SURROGATE u" "i + 1 < len"
    | "\<not> UNICODE_IS_HIGH_SURROGATE u" "UNICODE_IS_LOW_SURROGATE u" | "\<not> UNICODE_IS_HIGH_SURROGATE u" "\<not> UNICODE_IS_LOW_SURROGATE u"
    by linarith
  then show ?thesis
  proof cases
    case 2
    obtain l where l: "rd16 p (2 * (i + 1)) = Some l" "l < 0x10000" "take 2 (drop (2 * (i + 1)) p) = u16_bytes l"
      using rd16_take [of "2 * (i + 1)" p] 2(2) len by auto
    show ?thesis
    proof (cases "UNICODE_IS_LOW_SURROGATE l \<and> \<not> UNICODE_IS_NON_CHARACTER (UNICODE_DECODE_SURROGATE u l)")
      case True
      let ?c = "UNICODE_DECODE_SURROGATE u l"
      have r: "0xD800 \<le> unat u" "unat u < 0xDC00" "0xDC00 \<le> unat l" "unat l < 0xE000"
        using 2(1) True by (simp_all add: surrogate_range)
      have c: "unat ?c = 0x10000 + 1024 * (unat u - 0xD800) + (unat l - 0xDC00)" by (rule unat_pair) (use 2(1) True in simp_all)
      then have c2: "0x10000 \<le> unat ?c" "unat ?c < 0x110000" using r by linarith+
      then have v: "\<not> UNICODE_IS_INVALID ?c" using True non_character_iff [of ?c] by (simp add: word_less_nat_alt)
      have un: "utf16_units_of ?c = 2" using c2 by (simp add: utf16_units_of_def word_less_nat_alt)
      have "utf16_bytes ?c = u16_bytes u @ u16_bytes l"
        using v
      proof (cases rule: utf16_units)
        case one
        then show ?thesis using c2 by (simp add: word_less_nat_alt)
      next
        case (two h' l')
        note r' = two(5,6) [unfolded surrogate_range]
        have e: "1024 * (unat u - 0xD800) + (unat l - 0xDC00) = 1024 * (unat h' - 0xD800) + (unat l' - 0xDC00)"
          using unat_pair [OF two(5,6)] c two(7) by simp
        have lt: "unat l - 0xDC00 < 1024" "unat l' - 0xDC00 < 1024" using r r' by linarith+
        note digits [OF e lt]
        then have "unat h' = unat u" "unat l' = unat l" using r r' by linarith+
        then have "h' = u" "l' = l" by (simp_all add: word_unat_eq_iff)
        then show ?thesis using two(2) by simp
      qed
      moreover have "take (2 * 2) (drop (2 * i) p) = u16_bytes u @ u16_bytes l"
        using u(3) l(3) take_add [of 2 2 "drop (2 * i) p"] by simp
      ultimately show ?thesis using 2 u(1) l(1) True v un by (auto simp: utf16_scan_char_def)
    qed (use 2 u(1) l(1) in \<open>auto simp: utf16_scan_char_def\<close>)
  next
    case 4
    show ?thesis
    proof (cases "UNICODE_IS_NON_CHARACTER u")
      case False
      have n: "\<not> (0xD800 \<le> unat u \<and> unat u < 0xE000)" using 4 unfolding surrogate_range by linarith
      have "u < 0x110000" using u(2) by (simp add: word_less_nat_alt)
      then have "\<not> UNICODE_IS_INVALID u" using non_character_iff n False by blast
      then show ?thesis using 4 False u i by (auto simp: utf16_scan_char_def utf16_units_of_def utf16_bytes_def)
    qed (use 4 u(1) in \<open>simp add: utf16_scan_char_def\<close>)
  qed (use u(1) in \<open>auto simp: utf16_scan_char_def\<close>)
qed

interpretation utf16: scanner utf16_scan_char utf16_scan_loop 2 utf16_bytes utf16_units_of
  by unfold_locales (use length_utf16_bytes utf16_scan_char_valid utf16_scan_char_cases in simp_all)

lemma utf16_scan_iff:
  assumes "bufused s \<le> length (strstart s)"
  shows "utf16_scan s = Done s' \<longleftrightarrow>
      (\<exists>cs. code_points cs \<and> take (bufused s) (strstart s) = utf16_all cs \<and> s' = s\<lparr>strlen := length cs\<rparr>)"
    and "utf16_scan s \<noteq> Undefined"
proof -
  let ?n = "bufused s div 2"
  let ?r = "utf16_scan_loop (strstart s) ?n (- 1) ?n 0 0 (- 1)"
  have l: "2 * ?n \<le> length (strstart s)" using assms by simp
  have sc: "utf16_scan s = obind ?r (\<lambda>(i, chars, c, res). if 2 * i \<noteq> bufused s then Thrown ''Unaligned end in UTF-16 string''
      else Done (s\<lparr>strlen := chars\<rparr>))"
    by (cases ?r) (auto simp: utf16_scan_def utf16_partial_scan_def)
  show "utf16_scan s \<noteq> Undefined"
    using utf16.no_undefined [OF l] unfolding sc by (cases ?r) (auto split: prod.splits)
  have "i = ?n \<and> 2 * ?n = bufused s" if "bufused s = 2 * i" for i using that by simp
  then have e: "2 * i \<noteq> bufused s \<longleftrightarrow> \<not> (i = ?n \<and> 2 * ?n = bufused s)" for i by metis
  have "utf16_scan s = Done s' \<longleftrightarrow>
      (\<exists>chars. (\<exists>c res. ?r = Done (?n, chars, c, res)) \<and> 2 * ?n = bufused s \<and> s' = s\<lparr>strlen := chars\<rparr>)"
    unfolding sc e by (cases ?r) (auto split: prod.splits)
  also have "\<dots> \<longleftrightarrow> (\<exists>cs. code_points cs \<and> take (2 * ?n) (strstart s) = utf16_all cs \<and> 2 * ?n = bufused s \<and> s' = s\<lparr>strlen := length cs\<rparr>)"
    using utf16.scan_loop_iff [OF l] by auto
  also have "\<dots> \<longleftrightarrow> (\<exists>cs. code_points cs \<and> take (bufused s) (strstart s) = utf16_all cs \<and> s' = s\<lparr>strlen := length cs\<rparr>)"
  proof -
    have "2 * ?n = bufused s" if "take (bufused s) (strstart s) = utf16_all cs" for cs
      using arg_cong [OF that, of length] assms by (simp add: utf16.length_chunks(1))
    then show ?thesis by metis
  qed
  finally show "utf16_scan s = Done s' \<longleftrightarrow>
      (\<exists>cs. code_points cs \<and> take (bufused s) (strstart s) = utf16_all cs \<and> s' = s\<lparr>strlen := length cs\<rparr>)" .
qed

end
