(* ===== verification/Str_Fixed.thy ===== *)
theory Str_Fixed
  imports Str_Utf16 Parrot_Hash
begin

text \<open>
  The encodings with a fixed number of bytes per code point: the fixed8 functions of
  \<open>src/string/encoding/shared.c\<close>, which ASCII, Latin-1 and binary strings share, the scans
  of \<open>ascii.c\<close>, \<open>latin1.c\<close> and \<open>binary.c\<close>, and \<open>ucs2.c\<close> and \<open>ucs4.c\<close>.  A \<open>utf32_t\<close> is a signed 32-bit integer, so a
  unit is sign-extended when it becomes a code point.
\<close>

section \<open>One byte\<close>

definition fixed8_limit :: "encoding_ptr \<Rightarrow> u64" where
  "fixed8_limit e = (if e = Parrot_ascii_encoding_ptr then 0x80 else 0x100)"

definition fixed8_ord :: "parrot_string \<Rightarrow> int \<Rightarrow> u64 outcome" where
  "fixed8_ord src idx =
     obind (ord_index (strlen src) idx) (\<lambda>idx. defined (do { b \<leftarrow> rd (strstart src) idx; Some (ucast b) }))"

definition fixed8_hash :: "parrot_string \<Rightarrow> u64 \<Rightarrow> (parrot_string \<times> u64) option" where
  "fixed8_hash s h0 =
     do { h \<leftarrow> Parrot_hash_buffer (strstart s) (strlen s) h0; Some (s\<lparr>hashval := h\<rparr>, h) }"

definition fixed8_iter_get :: "parrot_string \<Rightarrow> string_iter \<Rightarrow> int \<Rightarrow> u64 option" where
  "fixed8_iter_get str i offset =
     do {
       cp \<leftarrow> move (charpos i) offset;
       c_assert (cp < bufused str);
       b \<leftarrow> rd (strstart str) cp;
       Some (ucast b)
     }"

definition fixed8_iter_skip :: "parrot_string \<Rightarrow> string_iter \<Rightarrow> int \<Rightarrow> string_iter option" where
  "fixed8_iter_skip str i skip =
     do {
       bp \<leftarrow> move (bytepos i) skip;
       cp \<leftarrow> move (charpos i) skip;
       c_assert (bp \<le> bufused str);
       Some \<lparr>bytepos = bp, charpos = cp\<rparr>
     }"

definition fixed8_iter_get_and_advance :: "parrot_string \<Rightarrow> string_iter \<Rightarrow> (u64 \<times> string_iter) option" where
  "fixed8_iter_get_and_advance str i =
     do {
       b \<leftarrow> rd (strstart str) (charpos i);
       c_assert (bytepos i + 1 \<le> bufused str);
       Some (ucast b, \<lparr>bytepos = bytepos i + 1, charpos = charpos i + 1\<rparr>)
     }"

definition fixed8_iter_set_and_advance :: "parrot_string \<Rightarrow> string_iter \<Rightarrow> u64 \<Rightarrow> (parrot_string \<times> string_iter) outcome" where
  "fixed8_iter_set_and_advance str i c =
     (if c \<ge> fixed8_limit (encoding str) then Thrown ''Lossy conversion to single byte encoding''
      else obind (defined (wr (strstart str) (charpos i) (ucast c))) (\<lambda>m.
        Done (str\<lparr>strstart := m, bufused := max (bufused str) (bytepos i + 1)\<rparr>,
              \<lparr>bytepos = bytepos i + 1, charpos = charpos i + 1\<rparr>)))"

definition latin1_scan :: "parrot_string \<Rightarrow> parrot_string outcome" where
  "latin1_scan src = Done (src\<lparr>strlen := bufused src\<rparr>)"

fun latin1_find_delim :: "u8 list \<Rightarrow> u64 \<Rightarrow> nat \<Rightarrow> nat \<Rightarrow> u64 \<Rightarrow> (nat \<times> u64) option" where
  "latin1_find_delim buf delim 0 i c = Some (i, c)"
| "latin1_find_delim buf delim (Suc n) i c =
     do {
       b \<leftarrow> rd buf i;
       if ucast b = delim then Some (i + 1, ucast b) else latin1_find_delim buf delim n (i + 1) (ucast b)
     }"

text \<open>A \<open>char\<close> is signed; without a delimiter the last byte is read, in front of \<open>buf\<close> when there is none.\<close>

definition latin1_partial_scan :: "u8 list \<Rightarrow> string_bounds \<Rightarrow> (nat \<times> string_bounds) outcome" where
  "latin1_partial_scan buf bounds =
     (let len = (if bnd_chars bounds \<ge> 0 then min (nat (bnd_chars bounds)) (bnd_bytes bounds) else bnd_bytes bounds)
      in obind (defined
           (if 0 \<le>s bnd_delim bounds then latin1_find_delim buf (bnd_delim bounds) len 0 (- 1)
            else do { i \<leftarrow> move len (- 1); b \<leftarrow> rd buf i; Some (len, scast b) })) (\<lambda>(len, c).
         Done (0, \<lparr>bnd_bytes = len, bnd_chars = int len, bnd_delim = c\<rparr>)))"

fun ascii_check_from :: "u8 list \<Rightarrow> nat \<Rightarrow> nat \<Rightarrow> unit outcome" where
  "ascii_check_from p 0 i = Done ()"
| "ascii_check_from p (Suc n) i =
     obind (defined (rd p i)) (\<lambda>b.
     if b \<ge> 0x80 then Thrown ''Invalid character in ASCII string'' else ascii_check_from p n (i + 1))"

definition ascii_scan :: "parrot_string \<Rightarrow> parrot_string outcome" where
  "ascii_scan src =
     obind (ascii_check_from (strstart src) (bufused src) 0) (\<lambda>_. Done (src\<lparr>strlen := bufused src\<rparr>))"

fun ascii_scan_from :: "u8 list \<Rightarrow> u64 \<Rightarrow> nat \<Rightarrow> nat \<Rightarrow> u64 \<Rightarrow> (nat \<times> u64) outcome" where
  "ascii_scan_from buf delim 0 i c = Done (i, c)"
| "ascii_scan_from buf delim (Suc n) i c =
     obind (defined (rd buf i)) (\<lambda>b.
     if b \<ge> 0x80 then Thrown ''Invalid character in ASCII string''
     else if ucast b = delim then Done (i + 1, ucast b) else ascii_scan_from buf delim n (i + 1) (ucast b))"

definition ascii_partial_scan :: "u8 list \<Rightarrow> string_bounds \<Rightarrow> (nat \<times> string_bounds) outcome" where
  "ascii_partial_scan buf bounds =
     (let len = (if bnd_chars bounds \<ge> 0 then min (nat (bnd_chars bounds)) (bnd_bytes bounds) else bnd_bytes bounds)
      in obind (ascii_scan_from buf (bnd_delim bounds) len 0 (- 1)) (\<lambda>(len, c).
         Done (0, \<lparr>bnd_bytes = len, bnd_chars = int len, bnd_delim = c\<rparr>)))"

definition binary_scan :: "parrot_string \<Rightarrow> parrot_string outcome" where
  "binary_scan src = Done (src\<lparr>strlen := bufused src\<rparr>)"

definition binary_partial_scan :: "u8 list \<Rightarrow> string_bounds \<Rightarrow> (nat \<times> string_bounds) outcome" where
  "binary_partial_scan buf bounds =
     (let len = (if bnd_chars bounds \<ge> 0 then min (nat (bnd_chars bounds)) (bnd_bytes bounds) else bnd_bytes bounds)
      in obind (defined
           (if 0 \<le>s bnd_delim bounds then latin1_find_delim buf (bnd_delim bounds) len 0 (- 1)
            else do { i \<leftarrow> move len (- 1); b \<leftarrow> rd buf i; Some (len, scast b) })) (\<lambda>(len, c).
         Done (0, \<lparr>bnd_bytes = len, bnd_chars = int len, bnd_delim = c\<rparr>)))"

section \<open>Two bytes\<close>

definition ucs2_check_codepoint :: "u64 \<Rightarrow> unit outcome" where
  "ucs2_check_codepoint c =
     (if UNICODE_IS_SURROGATE c \<or> (c \<ge> 0xFDD0 \<and> c \<le> 0xFDEF) \<or> c \<ge> 0xFFFE
      then Thrown ''Invalid character in UCS-2 string'' else Done ())"

fun ucs2_check_from :: "u8 list \<Rightarrow> nat \<Rightarrow> nat \<Rightarrow> unit outcome" where
  "ucs2_check_from p 0 i = Done ()"
| "ucs2_check_from p (Suc n) i =
     obind (defined (rd16 p (2 * i))) (\<lambda>c. obind (ucs2_check_codepoint c) (\<lambda>_. ucs2_check_from p n (i + 1)))"

definition ucs2_scan :: "parrot_string \<Rightarrow> parrot_string outcome" where
  "ucs2_scan src =
     (if odd (bufused src) then Thrown ''Unaligned end in UCS-2 string''
      else obind (ucs2_check_from (strstart src) (bufused src div 2) 0) (\<lambda>_.
        Done (src\<lparr>strlen := bufused src div 2\<rparr>)))"

fun ucs2_scan_from :: "u8 list \<Rightarrow> u64 \<Rightarrow> nat \<Rightarrow> nat \<Rightarrow> u64 \<Rightarrow> (nat \<times> u64) outcome" where
  "ucs2_scan_from p delim 0 i c = Done (i, c)"
| "ucs2_scan_from p delim (Suc n) i c =
     obind (defined (rd16 p (2 * i))) (\<lambda>c.
     obind (ucs2_check_codepoint c) (\<lambda>_.
     if c = delim then Done (i + 1, c) else ucs2_scan_from p delim n (i + 1) c))"

definition ucs2_partial_scan :: "u8 list \<Rightarrow> string_bounds \<Rightarrow> (nat \<times> string_bounds) outcome" where
  "ucs2_partial_scan buf bounds =
     (let len = bnd_bytes bounds div 2;
          len = (if bnd_chars bounds \<ge> 0 then min (nat (bnd_chars bounds)) len else len)
      in obind (ucs2_scan_from buf (bnd_delim bounds) len 0 (- 1)) (\<lambda>(len, c).
         Done (0, \<lparr>bnd_bytes = 2 * len, bnd_chars = int len, bnd_delim = c\<rparr>)))"

definition ucs2_ord :: "parrot_string \<Rightarrow> int \<Rightarrow> u64 outcome" where
  "ucs2_ord src idx =
     obind (ord_index (strlen src) idx) (\<lambda>idx. defined (rd16 (strstart src) (2 * idx)))"

definition ucs2_iter_get :: "parrot_string \<Rightarrow> string_iter \<Rightarrow> int \<Rightarrow> u64 option" where
  "ucs2_iter_get str i offset = do { cp \<leftarrow> move (charpos i) offset; rd16 (strstart str) (2 * cp) }"

definition ucs2_iter_skip :: "parrot_string \<Rightarrow> string_iter \<Rightarrow> int \<Rightarrow> string_iter option" where
  "ucs2_iter_skip str i skip =
     do {
       cp \<leftarrow> move (charpos i) skip;
       bp \<leftarrow> move (bytepos i) (skip * 2);
       Some \<lparr>bytepos = bp, charpos = cp\<rparr>
     }"

definition ucs2_iter_get_and_advance :: "parrot_string \<Rightarrow> string_iter \<Rightarrow> (u64 \<times> string_iter) option" where
  "ucs2_iter_get_and_advance str i =
     do {
       c \<leftarrow> rd16 (strstart str) (2 * charpos i);
       Some (c, \<lparr>bytepos = bytepos i + 2, charpos = charpos i + 1\<rparr>)
     }"

definition ucs2_iter_set_and_advance :: "parrot_string \<Rightarrow> string_iter \<Rightarrow> u64 \<Rightarrow> (parrot_string \<times> string_iter) outcome" where
  "ucs2_iter_set_and_advance str i c =
     obind (ucs2_check_codepoint c) (\<lambda>_.
     obind (defined (wr16 (strstart str) (2 * charpos i) c)) (\<lambda>m.
     Done (str\<lparr>strstart := m\<rparr>, \<lparr>bytepos = bytepos i + 2, charpos = charpos i + 1\<rparr>)))"

text \<open>The hash loops of \<open>ucs2.c\<close> and \<open>ucs4.c\<close>, over the units from position \<open>p\<close> on.\<close>

fun ucs2_hash_from :: "u8 list \<Rightarrow> nat \<Rightarrow> nat \<Rightarrow> u64 \<Rightarrow> u64 option" where
  "ucs2_hash_from m 0 p h = Some h"
| "ucs2_hash_from m (Suc n) p h =
     (let h = h + push_bit 5 h in do { c \<leftarrow> rd16 m p; ucs2_hash_from m n (p + 2) (h + c) })"

definition ucs2_hash :: "parrot_string \<Rightarrow> u64 \<Rightarrow> (parrot_string \<times> u64) option" where
  "ucs2_hash s h0 =
     do { h \<leftarrow> ucs2_hash_from (strstart s) (strlen s) 0 h0; Some (s\<lparr>hashval := h\<rparr>, h) }"

section \<open>Four bytes\<close>

definition rd32 :: "u8 list \<Rightarrow> nat \<Rightarrow> u64 option" where
  "rd32 m p =
     do {
       a \<leftarrow> rd m p; b \<leftarrow> rd m (p + 1); c \<leftarrow> rd m (p + 2); d \<leftarrow> rd m (p + 3);
       Some (scast (ucast a OR push_bit 8 (ucast b) OR push_bit 16 (ucast c) OR push_bit 24 (ucast d) :: u32))
     }"

definition wr32 :: "u8 list \<Rightarrow> nat \<Rightarrow> u64 \<Rightarrow> u8 list option" where
  "wr32 m p c =
     do {
       m \<leftarrow> wr m p (ucast c);
       m \<leftarrow> wr m (p + 1) (ucast (drop_bit 8 c));
       m \<leftarrow> wr m (p + 2) (ucast (drop_bit 16 c));
       wr m (p + 3) (ucast (drop_bit 24 c))
     }"

fun ucs4_check_from :: "u8 list \<Rightarrow> nat \<Rightarrow> nat \<Rightarrow> unit outcome" where
  "ucs4_check_from p 0 i = Done ()"
| "ucs4_check_from p (Suc n) i =
     obind (defined (rd32 p (4 * i))) (\<lambda>c.
     if UNICODE_IS_INVALID c then Thrown ''Invalid character in UCS-4 string'' else ucs4_check_from p n (i + 1))"

definition ucs4_scan :: "parrot_string \<Rightarrow> parrot_string outcome" where
  "ucs4_scan src =
     (if bufused src mod 4 \<noteq> 0 then Thrown ''Unaligned end in UCS-4 string''
      else obind (ucs4_check_from (strstart src) (bufused src div 4) 0) (\<lambda>_.
        Done (src\<lparr>strlen := bufused src div 4\<rparr>)))"

text \<open>
  Here the character is an \<open>INTVAL\<close>, so a negative one is not \<open>>= 0xD800\<close>, and the number
  of units is \<open>bounds->bytes >> 1\<close>.
\<close>

fun ucs4_scan_from :: "u8 list \<Rightarrow> u64 \<Rightarrow> nat \<Rightarrow> nat \<Rightarrow> u64 \<Rightarrow> (nat \<times> u64) outcome" where
  "ucs4_scan_from p delim 0 i c = Done (i, c)"
| "ucs4_scan_from p delim (Suc n) i c =
     obind (defined (rd32 p (4 * i))) (\<lambda>c.
     if 0 \<le>s c \<and> UNICODE_IS_INVALID c then Thrown ''Invalid character in UCS-4 string''
     else if c = delim then Done (i + 1, c) else ucs4_scan_from p delim n (i + 1) c)"

definition ucs4_partial_scan :: "u8 list \<Rightarrow> string_bounds \<Rightarrow> (nat \<times> string_bounds) outcome" where
  "ucs4_partial_scan buf bounds =
     (let len = bnd_bytes bounds div 2;
          len = (if bnd_chars bounds \<ge> 0 then min (nat (bnd_chars bounds)) len else len)
      in obind (ucs4_scan_from buf (bnd_delim bounds) len 0 (- 1)) (\<lambda>(len, c).
         Done (0, \<lparr>bnd_bytes = 4 * len, bnd_chars = int len, bnd_delim = c\<rparr>)))"

definition ucs4_ord :: "parrot_string \<Rightarrow> int \<Rightarrow> u64 outcome" where
  "ucs4_ord src idx =
     obind (ord_index (strlen src) idx) (\<lambda>idx. defined (rd32 (strstart src) (4 * idx)))"

definition ucs4_iter_get :: "parrot_string \<Rightarrow> string_iter \<Rightarrow> int \<Rightarrow> u64 option" where
  "ucs4_iter_get str i offset = do { cp \<leftarrow> move (charpos i) offset; rd32 (strstart str) (4 * cp) }"

definition ucs4_iter_skip :: "parrot_string \<Rightarrow> string_iter \<Rightarrow> int \<Rightarrow> string_iter option" where
  "ucs4_iter_skip str i skip =
     do {
       cp \<leftarrow> move (charpos i) skip;
       bp \<leftarrow> move (bytepos i) (skip * 4);
       Some \<lparr>bytepos = bp, charpos = cp\<rparr>
     }"

definition ucs4_iter_get_and_advance :: "parrot_string \<Rightarrow> string_iter \<Rightarrow> (u64 \<times> string_iter) option" where
  "ucs4_iter_get_and_advance str i =
     do {
       c \<leftarrow> rd32 (strstart str) (4 * charpos i);
       Some (c, \<lparr>bytepos = bytepos i + 4, charpos = charpos i + 1\<rparr>)
     }"

definition ucs4_iter_set_and_advance :: "parrot_string \<Rightarrow> string_iter \<Rightarrow> u64 \<Rightarrow> (parrot_string \<times> string_iter) outcome" where
  "ucs4_iter_set_and_advance str i c =
     (if UNICODE_IS_INVALID c then Thrown ''Invalid character in UCS-4 string''
      else obind (defined (wr32 (strstart str) (4 * charpos i) c)) (\<lambda>m.
        Done (str\<lparr>strstart := m\<rparr>, \<lparr>bytepos = bytepos i + 4, charpos = charpos i + 1\<rparr>)))"

fun ucs4_hash_from :: "u8 list \<Rightarrow> nat \<Rightarrow> nat \<Rightarrow> u64 \<Rightarrow> u64 option" where
  "ucs4_hash_from m 0 p h = Some h"
| "ucs4_hash_from m (Suc n) p h =
     (let h = h + push_bit 5 h in do { c \<leftarrow> rd32 m p; ucs4_hash_from m n (p + 4) (h + c) })"

definition ucs4_hash :: "parrot_string \<Rightarrow> u64 \<Rightarrow> (parrot_string \<times> u64) option" where
  "ucs4_hash s h0 =
     do { h \<leftarrow> ucs4_hash_from (strstart s) (strlen s) 0 h0; Some (s\<lparr>hashval := h\<rparr>, h) }"

end
