(* ===== verification/Str_Encoding.thy ===== *)
theory Str_Encoding
  imports Str_Utf16_Rep Str_Fixed
begin

text \<open>
  What the string functions need of an encoding, as a locale: a string holds a list of
  code points when its storage starts with their bytes, and the iterator functions move,
  read and write by code point.  Every encoding of \<open>src/string/encoding/\<close> is an
  interpretation; the functions dispatched through \<open>s->encoding\<close> inherit the laws.
\<close>

section \<open>Storage of code points\<close>

definition iter_at :: "(u64 \<Rightarrow> u8 list) \<Rightarrow> u64 list \<Rightarrow> nat \<Rightarrow> string_iter" where
  "iter_at chunk cs k = \<lparr>bytepos = length (concat (map chunk (take k cs))), charpos = k\<rparr>"

definition holds :: "(u64 \<Rightarrow> u8 list) \<Rightarrow> (u64 \<Rightarrow> bool) \<Rightarrow> parrot_string \<Rightarrow> u64 list \<Rightarrow> bool" where
  "holds chunk valid s cs \<longleftrightarrow>
     (\<forall>c \<in> set cs. valid c) \<and> strlen s = length cs \<and> bufused s = length (concat (map chunk cs))
     \<and> (\<exists>post. strstart s = concat (map chunk cs) @ post)"

lemma iter_at_simps [simp]: "charpos (iter_at chunk cs k) = k"
  "bytepos (iter_at chunk cs k) = length (concat (map chunk (take k cs)))"
  by (simp_all add: iter_at_def)

lemma iter_at_0: "iter_at chunk cs 0 = STRING_ITER_INIT"
  by (simp add: iter_at_def STRING_ITER_INIT_def)

lemma move_0 [simp]: "move k 0 = Some k"
  by (simp add: move_def)

lemma chunks_split:
  assumes "k < length cs"
  shows "concat (map chunk cs) = concat (map chunk (take k cs)) @ chunk (cs ! k) @ concat (map chunk (drop (Suc k) cs))"
    and "concat (map chunk (take (Suc k) cs)) = concat (map chunk (take k cs)) @ chunk (cs ! k)"
proof -
  show "concat (map chunk (take (Suc k) cs)) = concat (map chunk (take k cs)) @ chunk (cs ! k)"
    using assms by (simp add: take_Suc_conv_app_nth)
  have "cs = take k cs @ cs ! k # drop (Suc k) cs" using assms by (simp add: id_take_nth_drop)
  then show "concat (map chunk cs) = concat (map chunk (take k cs)) @ chunk (cs ! k) @ concat (map chunk (drop (Suc k) cs))"
    by (metis concat.simps(2) concat_append list.simps(9) map_append)
qed

lemma chunks_between:
  assumes "k \<le> j" "j \<le> length cs"
  shows "concat (map chunk (take j cs)) = concat (map chunk (take k cs)) @ concat (map chunk (take (j - k) (drop k cs)))"
    and "concat (map chunk cs) = concat (map chunk (take k cs)) @ concat (map chunk (take (j - k) (drop k cs)))
      @ concat (map chunk (drop j cs))"
proof -
  have t: "take j cs = take k cs @ take (j - k) (drop k cs)" using assms take_add [of k "j - k" cs] by simp
  then show "concat (map chunk (take j cs)) = concat (map chunk (take k cs)) @ concat (map chunk (take (j - k) (drop k cs)))" by simp
  have "cs = take k cs @ take (j - k) (drop k cs) @ drop j cs" using t append_take_drop_id [of j cs] by simp
  then show "concat (map chunk cs) = concat (map chunk (take k cs)) @ concat (map chunk (take (j - k) (drop k cs)))
      @ concat (map chunk (drop j cs))" by (metis concat_append map_append)
qed

lemma length_chunks_take: "length (concat (map chunk (take k cs))) \<le> length (concat (map chunk cs))"
  by (metis append_take_drop_id concat_append le_add1 length_append map_append)

section \<open>Moving by characters in an encoding of variable length\<close>

locale char_walk =
  fixes skip_forward skip_backward :: "u8 list \<Rightarrow> nat \<Rightarrow> nat \<Rightarrow> nat option"
    and mv :: "u8 list \<Rightarrow> nat \<Rightarrow> int \<Rightarrow> nat option"
    and chunk :: "u64 \<Rightarrow> u8 list"
  assumes mv: "mv m p n = (if n > 0 then skip_forward m p (nat n) else if n < 0 then skip_backward m p (nat (- n)) else Some p)"
    and forward: "code_points cs \<Longrightarrow>
      skip_forward (pre @ concat (map chunk cs) @ post) (length pre) (length cs) = Some (length pre + length (concat (map chunk cs)))"
    and backward: "code_points cs \<Longrightarrow>
      skip_backward (pre @ concat (map chunk cs) @ post) (length pre + length (concat (map chunk cs))) (length cs) = Some (length pre)"
begin

lemma move_chars:
  assumes cs: "code_points cs" and "k \<le> length cs" "j \<le> length cs" and j: "move k n = Some j"
  shows "mv (concat (map chunk cs) @ post) (length (concat (map chunk (take k cs)))) n = Some (length (concat (map chunk (take j cs))))"
proof -
  have n: "int j = int k + n" using j by (auto simp: move_def split: if_splits)
  have valid: "code_points (take a (drop b cs))" for a b
    using cs by (auto simp: code_points_def dest: in_set_takeD in_set_dropD)
  consider "n = 0" | "n > 0" | "n < 0" by linarith
  then show ?thesis
  proof cases
    case 2
    then have le: "k \<le> j" and nn: "nat n = j - k" using n by simp_all
    note b = chunks_between [OF le assms(3), of chunk]
    have "length (take (j - k) (drop k cs)) = j - k" using assms by simp
    from forward [OF valid [of "j - k" k], of "concat (map chunk (take k cs))" "concat (map chunk (drop j cs)) @ post", unfolded this]
    show ?thesis unfolding mv b using 2 nn by simp
  next
    case 3
    then have le: "j \<le> k" and nn: "nat (- n) = k - j" using n by simp_all
    note b = chunks_between [OF le assms(2), of chunk]
    have "length (take (k - j) (drop j cs)) = k - j" using assms by simp
    from backward [OF valid [of "k - j" j], of "concat (map chunk (take j cs))" "concat (map chunk (drop k cs)) @ post", unfolded this]
    show ?thesis unfolding mv b using 3 nn by simp
  qed (use n in \<open>simp add: mv\<close>)
qed

end

interpretation utf8w: char_walk utf8_skip_forward utf8_skip_backward utf8_move utf8_bytes
  by unfold_locales (simp_all add: utf8_move_def utf8_skip_forward_chars utf8_skip_backward_chars code_points_def)

interpretation utf16w: char_walk utf16_skip_forward utf16_skip_backward utf16_move utf16_bytes
  by unfold_locales (simp_all add: utf16_move_def utf16_skip_forward_chars utf16_skip_backward_chars)

section \<open>The laws of an encoding\<close>

locale str_encoding =
  fixes e :: encoding_ptr
    and max_bytes :: nat
    and chunk :: "u64 \<Rightarrow> u8 list"
    and valid :: "u64 \<Rightarrow> bool"
    and iter_get :: "parrot_string \<Rightarrow> string_iter \<Rightarrow> int \<Rightarrow> u64 option"
    and iter_skip :: "parrot_string \<Rightarrow> string_iter \<Rightarrow> int \<Rightarrow> string_iter option"
    and iter_get_and_advance :: "parrot_string \<Rightarrow> string_iter \<Rightarrow> (u64 \<times> string_iter) option"
    and iter_set_and_advance :: "parrot_string \<Rightarrow> string_iter \<Rightarrow> u64 \<Rightarrow> (parrot_string \<times> string_iter) outcome"
    and str_ord :: "parrot_string \<Rightarrow> int \<Rightarrow> u64 outcome"
  assumes chunk_length: "0 < length (chunk c)" "length (chunk c) \<le> max_bytes"
    and chunk_prefix: "valid c \<Longrightarrow> valid d \<Longrightarrow> chunk c @ p = chunk d @ q \<Longrightarrow> c = d"
    and get: "holds chunk valid s cs \<Longrightarrow> k \<le> length cs \<Longrightarrow> move k n = Some j \<Longrightarrow> j < length cs
      \<Longrightarrow> iter_get s (iter_at chunk cs k) n = Some (cs ! j)"
    and skip: "holds chunk valid s cs \<Longrightarrow> k \<le> length cs \<Longrightarrow> move k n = Some j \<Longrightarrow> j \<le> length cs
      \<Longrightarrow> iter_skip s (iter_at chunk cs k) n = Some (iter_at chunk cs j)"
    and get_and_advance: "holds chunk valid s cs \<Longrightarrow> k < length cs
      \<Longrightarrow> iter_get_and_advance s (iter_at chunk cs k) = Some (cs ! k, iter_at chunk cs (Suc k))"
    and set_and_advance: "\<forall>d \<in> set ds. valid d \<Longrightarrow> valid c \<Longrightarrow> encoding s = e
      \<Longrightarrow> strstart s = concat (map chunk ds) @ old @ post \<Longrightarrow> length old = length (chunk c)
      \<Longrightarrow> length (concat (map chunk ds)) + length (chunk c) \<le> bufused s
      \<Longrightarrow> iter_set_and_advance s \<lparr>bytepos = length (concat (map chunk ds)), charpos = length ds\<rparr> c
        = Done (s\<lparr>strstart := concat (map chunk ds) @ chunk c @ post\<rparr>,
                \<lparr>bytepos = length (concat (map chunk ds)) + length (chunk c), charpos = Suc (length ds)\<rparr>)"
    and set_invalid: "encoding s = e \<Longrightarrow> \<not> valid c \<Longrightarrow> \<exists>x. iter_set_and_advance s i c = Thrown x"
    and ord: "holds chunk valid s cs \<Longrightarrow> str_ord s idx = obind (ord_index (length cs) idx) (\<lambda>k. Done (cs ! k))"
begin

text \<open>Overwriting a code point by one with the same number of bytes.\<close>

lemma set_then_get:
  assumes "holds chunk valid s cs" "encoding s = e" "k < length cs" "valid c" "length (chunk c) = length (chunk (cs ! k))"
  shows "\<exists>s' i. iter_set_and_advance s (iter_at chunk cs k) c = Done (s', i) \<and> holds chunk valid s' (cs[k := c])
    \<and> encoding s' = encoding s \<and> i = iter_at chunk (cs[k := c]) (Suc k)"
proof -
  obtain post where h: "\<forall>d \<in> set cs. valid d" "strlen s = length cs" "bufused s = length (concat (map chunk cs))"
    "strstart s = concat (map chunk cs) @ post" using assms(1) by (auto simp: holds_def)
  note sp = chunks_split(1) [OF assms(3), of chunk]
  let ?ds = "take k cs" and ?post = "concat (map chunk (drop (Suc k) cs)) @ post"
  have ds: "\<forall>d \<in> set ?ds. valid d" "length ?ds = k" using h(1) assms(3) by (auto dest: in_set_takeD)
  have "iter_set_and_advance s \<lparr>bytepos = length (concat (map chunk ?ds)), charpos = length ?ds\<rparr> c
      = Done (s\<lparr>strstart := concat (map chunk ?ds) @ chunk c @ ?post\<rparr>,
              \<lparr>bytepos = length (concat (map chunk ?ds)) + length (chunk c), charpos = Suc (length ?ds)\<rparr>)"
    by (rule set_and_advance [where old = "chunk (cs ! k)"]) (use assms h ds sp in simp_all)
  then have set: "iter_set_and_advance s (iter_at chunk cs k) c
      = Done (s\<lparr>strstart := concat (map chunk ?ds) @ chunk c @ ?post\<rparr>,
              \<lparr>bytepos = length (concat (map chunk ?ds)) + length (chunk c), charpos = Suc k\<rparr>)"
    using ds(2) by (simp add: iter_at_def)
  have u: "cs[k := c] = ?ds @ c # drop (Suc k) cs" using assms(3) by (simp add: upd_conv_take_nth_drop)
  have "\<forall>d \<in> set (cs[k := c]). valid d" using h(1) assms(4) set_update_subset_insert [of cs k c] by auto
  moreover have l: "length (concat (map chunk cs)) = length (concat (map chunk (cs[k := c])))"
    unfolding u sp using assms(5) by simp
  ultimately have "holds chunk valid (s\<lparr>strstart := concat (map chunk (cs[k := c])) @ post\<rparr>) (cs[k := c])"
    using h(2,3) by (simp add: holds_def)
  moreover have "concat (map chunk ?ds) @ chunk c @ ?post = concat (map chunk (cs[k := c])) @ post"
    unfolding u by simp
  ultimately have "holds chunk valid (s\<lparr>strstart := concat (map chunk ?ds) @ chunk c @ ?post\<rparr>) (cs[k := c])" by (simp only:)
  moreover have "iter_at chunk (cs[k := c]) (Suc k) = \<lparr>bytepos = length (concat (map chunk ?ds)) + length (chunk c), charpos = Suc k\<rparr>"
    using ds(2) unfolding u by (simp add: iter_at_def)
  moreover have "encoding (s\<lparr>strstart := x\<rparr>) = encoding s" for x by simp
  ultimately show ?thesis using set by metis
qed

end

lemma iter_at_split:
  assumes "holds chunk valid s cs" "k < length cs"
  obtains post where "strstart s = concat (map chunk (take k cs)) @ chunk (cs ! k) @ post" "valid (cs ! k)"
    "length (concat (map chunk (take k cs))) + length (chunk (cs ! k)) \<le> bufused s"
    "length (concat (map chunk (take (Suc k) cs))) = length (concat (map chunk (take k cs))) + length (chunk (cs ! k))"
proof -
  obtain post where h: "\<forall>d \<in> set cs. valid d" "bufused s = length (concat (map chunk cs))"
    "strstart s = concat (map chunk cs) @ post" using assms(1) by (auto simp: holds_def)
  note sp = chunks_split [OF assms(2), of chunk]
  show thesis by (rule that [of "concat (map chunk (drop (Suc k) cs)) @ post"]) (use h sp assms(2) in simp_all)
qed

section \<open>UTF-8 and UTF-16\<close>

lemma code_points_iff: "(\<forall>c \<in> set cs. \<not> UNICODE_IS_INVALID c) \<longleftrightarrow> code_points cs"
  by (simp add: code_points_def)

lemma ord_index_Done: "ord_index n idx = Done k \<Longrightarrow> k < n"
  by (auto simp: ord_index_def encoding_ord_error_def Let_def split: if_splits)

interpretation utf8e: str_encoding Parrot_utf8_encoding_ptr 4 utf8_bytes "\<lambda>c. \<not> UNICODE_IS_INVALID c"
  utf8_iter_get utf8_iter_skip utf8_iter_get_and_advance utf8_iter_set_and_advance utf8_ord
proof (unfold_locales, goal_cases)
  case (3 c d p q)
  then show ?case using utf8_decode_at [of c "[]" p] utf8_decode_at [of d "[]" q] by simp
next
  case (4 s cs k n j)
  then obtain post where h: "code_points cs" "strlen s = length cs" "strstart s = utf8_all cs @ post"
    by (auto simp: holds_def code_points_def)
  obtain post2 where p: "strstart s = utf8_all (take j cs) @ utf8_bytes (cs ! j) @ post2" "\<not> UNICODE_IS_INVALID (cs ! j)"
    using iter_at_split [OF 4(1,4)] by blast
  have "utf8_move (strstart s) (length (utf8_all (take k cs))) n = Some (length (utf8_all (take j cs)))"
    unfolding h(3) by (rule utf8w.move_chars) (use 4 h in simp_all)
  then show ?case using 4(3,4) h(2) utf8_decode_at [OF p(2), of "utf8_all (take j cs)" post2] p(1)
    by (simp add: utf8_iter_get_def)
next
  case (5 s cs k n j)
  then obtain post where h: "code_points cs" "strlen s = length cs" "strstart s = utf8_all cs @ post" "bufused s = length (utf8_all cs)"
    by (auto simp: holds_def code_points_def)
  have "utf8_move (strstart s) (length (utf8_all (take k cs))) n = Some (length (utf8_all (take j cs)))"
    unfolding h(3) by (rule utf8w.move_chars) (use 5 h in simp_all)
  then show ?case using 5(3,4) h(2,4) length_chunks_take [of utf8_bytes j cs] by (simp add: utf8_iter_skip_def iter_at_def)
next
  case (6 s cs k)
  then obtain post where p: "strstart s = utf8_all (take k cs) @ utf8_bytes (cs ! k) @ post" "\<not> UNICODE_IS_INVALID (cs ! k)"
    "length (utf8_all (take k cs)) + length (utf8_bytes (cs ! k)) \<le> bufused s"
    "length (utf8_all (take (Suc k) cs)) = length (utf8_all (take k cs)) + length (utf8_bytes (cs ! k))"
    using iter_at_split [OF 6(1,2)] by blast
  obtain b bs where b: "utf8_bytes (cs ! k) = b # bs" "UTF8SKIP b = length (utf8_bytes (cs ! k))"
    using p(2) by (cases rule: utf8_bytes_cases) auto
  have "rd (strstart s) (length (utf8_all (take k cs))) = Some b" using p(1) b(1) by simp
  then show ?case using utf8_decode_at [OF p(2), of "utf8_all (take k cs)" post] p b(2)
    by (simp add: utf8_iter_get_and_advance_def iter_at_def)
next
  case (7 ds c s old post)
  then show ?case using utf8_encode_at [of c old "utf8_all ds" post] by (simp add: utf8_iter_set_and_advance_def)
next
  case (8 s c i)
  then have "\<not> c < 0x80" by (auto simp: UNICODE_IS_INVALID_def word_less_nat_alt word_le_nat_alt)
  then show ?case using 8 by (simp add: utf8_iter_set_and_advance_def utf8_encode_def)
next
  case (9 s cs idx)
  show ?case
  proof (cases "ord_index (length cs) idx")
    case (Done k)
    then have k: "k < length cs" by (rule ord_index_Done)
    obtain post where h: "code_points cs" "strlen s = length cs" "strstart s = utf8_all cs @ post"
      using 9 by (auto simp: holds_def code_points_def)
    obtain post2 where p: "strstart s = utf8_all (take k cs) @ utf8_bytes (cs ! k) @ post2" "\<not> UNICODE_IS_INVALID (cs ! k)"
      using iter_at_split [OF 9 k] by blast
    have "\<forall>c \<in> set (take k cs). \<not> UNICODE_IS_INVALID c" using h(1) by (auto simp: code_points_def dest: in_set_takeD)
    from utf8_skip_forward_chars [OF this, of "[]" "utf8_bytes (cs ! k) @ post2"] k p(1)
    have "utf8_skip_forward (strstart s) 0 k = Some (length (utf8_all (take k cs)))" by simp
    then show ?thesis using Done h(2) utf8_decode_at [OF p(2), of "utf8_all (take k cs)" post2] p(1)
      by (simp add: utf8_ord_def)
  qed (use 9 in \<open>simp_all add: utf8_ord_def holds_def\<close>)
qed (simp_all add: length_utf8_bytes UNISKIP_def)

interpretation utf16e: str_encoding Parrot_utf16_encoding_ptr 4 utf16_bytes "\<lambda>c. \<not> UNICODE_IS_INVALID c"
  utf16_iter_get utf16_iter_skip utf16_iter_get_and_advance utf16_iter_set_and_advance utf16_ord
proof (unfold_locales, goal_cases)
  case (3 c d p q)
  then show ?case using utf16_decode_at [of c "[]" p] utf16_decode_at [of d "[]" q] by simp
next
  case (4 s cs k n j)
  then obtain post where h: "code_points cs" "strlen s = length cs" "strstart s = utf16_all cs @ post"
    by (auto simp: holds_def code_points_def)
  obtain post2 where p: "strstart s = utf16_all (take j cs) @ utf16_bytes (cs ! j) @ post2" "\<not> UNICODE_IS_INVALID (cs ! j)"
    using iter_at_split [OF 4(1,4)] by blast
  have "utf16_move (strstart s) (length (utf16_all (take k cs))) n = Some (length (utf16_all (take j cs)))"
    unfolding h(3) by (rule utf16w.move_chars) (use 4 h in simp_all)
  then show ?case using 4(3,4) h(2) utf16_decode_at [OF p(2), of "utf16_all (take j cs)" post2] p(1)
    by (simp add: utf16_iter_get_def)
next
  case (5 s cs k n j)
  then obtain post where h: "code_points cs" "strlen s = length cs" "strstart s = utf16_all cs @ post" "bufused s = length (utf16_all cs)"
    by (auto simp: holds_def code_points_def)
  have "utf16_move (strstart s) (length (utf16_all (take k cs))) n = Some (length (utf16_all (take j cs)))"
    unfolding h(3) by (rule utf16w.move_chars) (use 5 h in simp_all)
  then show ?case using 5(3,4) h(2,4) length_chunks_take [of utf16_bytes j cs] by (simp add: utf16_iter_skip_def iter_at_def)
next
  case (6 s cs k)
  then obtain post where p: "strstart s = utf16_all (take k cs) @ utf16_bytes (cs ! k) @ post" "\<not> UNICODE_IS_INVALID (cs ! k)"
    "length (utf16_all (take k cs)) + length (utf16_bytes (cs ! k)) \<le> bufused s"
    "length (utf16_all (take (Suc k) cs)) = length (utf16_all (take k cs)) + length (utf16_bytes (cs ! k))"
    using iter_at_split [OF 6(1,2)] by blast
  obtain u where u: "rd16 (strstart s) (length (utf16_all (take k cs))) = Some u" "UTF16SKIP u = utf16_units_of (cs ! k)"
    using utf16_first_unit [OF p(2), of "utf16_all (take k cs)" post] p(1) by metis
  then have "length (utf16_bytes (cs ! k)) = (if UNICODE_IS_HIGH_SURROGATE u then 4 else 2)"
    by (auto simp: length_utf16_bytes(1) UTF16SKIP_def split: if_splits)
  then show ?case using utf16_decode_at [OF p(2), of "utf16_all (take k cs)" post] p u(1)
    by (simp add: utf16_iter_get_and_advance_def iter_at_def)
next
  case (7 ds c s old post)
  then show ?case using utf16_encode_at [of c old "utf16_all ds" post] by (simp add: utf16_iter_set_and_advance_def)
next
  case (8 s c i)
  then show ?case by (simp add: utf16_iter_set_and_advance_def utf16_encode_invalid)
next
  case (9 s cs idx)
  show ?case
  proof (cases "ord_index (length cs) idx")
    case (Done k)
    then have k: "k < length cs" by (rule ord_index_Done)
    obtain post where h: "code_points cs" "strlen s = length cs" "strstart s = utf16_all cs @ post"
      using 9 by (auto simp: holds_def code_points_def)
    obtain post2 where p: "strstart s = utf16_all (take k cs) @ utf16_bytes (cs ! k) @ post2" "\<not> UNICODE_IS_INVALID (cs ! k)"
      using iter_at_split [OF 9 k] by blast
    have "code_points (take k cs)" using h(1) by (auto simp: code_points_def dest: in_set_takeD)
    from utf16_skip_forward_chars [OF this, of "[]" "utf16_bytes (cs ! k) @ post2"] k p(1)
    have "utf16_skip_forward (strstart s) 0 k = Some (length (utf16_all (take k cs)))" by simp
    then show ?thesis using Done h(2) utf16_decode_at [OF p(2), of "utf16_all (take k cs)" post2] p(1)
      by (simp add: utf16_ord_def)
  qed (use 9 in \<open>simp_all add: utf16_ord_def holds_def\<close>)
qed (simp_all add: length_utf16_bytes utf16_units_of_def)

section \<open>Encodings of fixed width\<close>

text \<open>One unit per code point, read and written at \<open>width * charpos\<close>.\<close>

locale fixed_units =
  fixes width :: nat
    and chunk :: "u64 \<Rightarrow> u8 list"
    and valid :: "u64 \<Rightarrow> bool"
    and rdu :: "u8 list \<Rightarrow> nat \<Rightarrow> u64 option"
    and wru :: "u8 list \<Rightarrow> nat \<Rightarrow> u64 \<Rightarrow> u8 list option"
  assumes len: "length (chunk c) = width"
    and rdu: "valid c \<Longrightarrow> rdu (pre @ chunk c @ post) (length pre) = Some c"
    and wru: "length old = width \<Longrightarrow> wru (pre @ old @ post) (length pre) c = Some (pre @ chunk c @ post)"
begin

lemma prefix: "valid c \<Longrightarrow> valid d \<Longrightarrow> chunk c @ p = chunk d @ q \<Longrightarrow> c = d"
  using rdu [of c "[]" p] rdu [of d "[]" q] by simp

lemma chunks: "length (concat (map chunk cs)) = width * length cs"
  by (induction cs) (simp_all add: len)

lemma iter: "k \<le> length cs \<Longrightarrow> iter_at chunk cs k = \<lparr>bytepos = width * k, charpos = k\<rparr>"
  by (simp add: iter_at_def chunks)

lemma used: "holds chunk valid s cs \<Longrightarrow> bufused s = width * length cs"
  by (simp add: holds_def chunks)

lemma unit:
  assumes "holds chunk valid s cs" "k < length cs"
  shows "rdu (strstart s) (width * k) = Some (cs ! k)"
proof -
  obtain post where p: "strstart s = concat (map chunk (take k cs)) @ chunk (cs ! k) @ post" "valid (cs ! k)"
    using iter_at_split [OF assms] by blast
  have "length (concat (map chunk (take k cs))) = width * k" unfolding chunks using assms(2) by simp
  then show ?thesis using rdu [OF p(2), of "concat (map chunk (take k cs))" post] p(1) by simp
qed

lemma write_unit: "length old = width \<Longrightarrow> wru (concat (map chunk ds) @ old @ post) (width * length ds) c
    = Some (concat (map chunk ds) @ chunk c @ post)"
  using wru [of old "concat (map chunk ds)" post c] by (simp add: chunks)

lemma move_width: "move k n = Some j \<Longrightarrow> move (width * k) (n * int width) = Some (width * j)"
proof -
  assume "move k n = Some j"
  then have j: "int j = int k + n" by (auto simp: move_def split: if_splits)
  have "int (width * k) + n * int width = int width * (int k + n)" by (simp add: algebra_simps)
  also have "\<dots> = int (width * j)" unfolding j [symmetric] by simp
  finally show ?thesis by (simp add: move_def del: of_nat_mult)
qed

end

abbreviation fixed8_bytes :: "u64 \<Rightarrow> u8 list" where
  "fixed8_bytes c \<equiv> [ucast c]"

definition u32_bytes :: "u64 \<Rightarrow> u8 list" where
  "u32_bytes c = [ucast c, ucast (drop_bit 8 c), ucast (drop_bit 16 c), ucast (drop_bit 24 c)]"

definition ucs2_valid :: "u64 \<Rightarrow> bool" where
  "ucs2_valid c \<longleftrightarrow> \<not> UNICODE_IS_INVALID c \<and> c < 0x10000"

lemma rd32_at:
  assumes "c < 2 ^ 31"
  shows "rd32 (pre @ u32_bytes c @ post) (length pre) = Some c"
proof -
  note h = high_bits_0 [OF assms]
  have b: "(ucast (ucast c :: u8) :: u32) OR push_bit 8 (ucast (ucast (drop_bit 8 c) :: u8))
      OR push_bit 16 (ucast (ucast (drop_bit 16 c) :: u8)) OR push_bit 24 (ucast (ucast (drop_bit 24 c) :: u8)) = ucast c"
    (is "?l = _")
  proof (rule bit_word_eqI)
    fix n assume n: "n < LENGTH(32)"
    consider "n < 8" | "8 \<le> n" "n < 16" | "16 \<le> n" "n < 24" | "24 \<le> n" by linarith
    then show "bit ?l n = bit (ucast c :: u32) n"
      by cases (use n in \<open>auto simp: bit_or_iff bit_push_bit_iff bit_unsigned_iff bit_drop_bit_eq\<close>)
  qed
  have "scast (ucast c :: u32) = c"
  proof (rule bit_word_eqI)
    fix n assume "n < LENGTH(64)"
    then show "bit (scast (ucast c :: u32) :: u64) n = bit c n"
      using h [of n] h [of 31] by (cases "n < 31") (auto simp: bit_simps min_def)
  qed
  moreover have "rd (pre @ u32_bytes c @ post) (length pre + 1) = Some (ucast (drop_bit 8 c))"
    "rd (pre @ u32_bytes c @ post) (length pre + 2) = Some (ucast (drop_bit 16 c))"
    "rd (pre @ u32_bytes c @ post) (length pre + 3) = Some (ucast (drop_bit 24 c))"
    unfolding rd_append by (simp_all add: u32_bytes_def rd_def)
  moreover have "rd (pre @ u32_bytes c @ post) (length pre) = Some (ucast c)" by (simp add: u32_bytes_def)
  ultimately show ?thesis by (simp add: rd32_def b)
qed

lemma wr32_at:
  assumes "length old = 4"
  shows "wr32 (pre @ old @ post) (length pre) c = Some (pre @ u32_bytes c @ post)"
proof -
  obtain x y z w where "old = [x, y, z, w]" using assms by (auto simp: length_Suc_conv numeral_eq_Suc)
  then show ?thesis by (simp add: wr32_def u32_bytes_def wr_def list_update_append)
qed

lemma wr8_at: "length old = 1 \<Longrightarrow> wr (pre @ old @ post) (length pre) v = Some (pre @ [v] @ post)"
  by (auto simp: length_Suc_conv wr_append)

interpretation u16: fixed_units 2 u16_bytes ucs2_valid rd16 wr16
  by unfold_locales (simp_all add: ucs2_valid_def rd16_at wr16_at2)

interpretation u32: fixed_units 4 u32_bytes "\<lambda>c. \<not> UNICODE_IS_INVALID c" rd32 wr32
proof unfold_locales
  fix c pre post assume "\<not> UNICODE_IS_INVALID c"
  then have "c < 2 ^ 31" using invalid_range [of c] by (simp add: word_less_nat_alt)
  then show "rd32 (pre @ u32_bytes c @ post) (length pre) = Some c" by (rule rd32_at)
qed (simp_all add: u32_bytes_def wr32_at)

interpretation u8l: fixed_units 1 fixed8_bytes "\<lambda>c. c < fixed8_limit e"
  "\<lambda>m p. map_option ucast (rd m p)" "\<lambda>m p c. wr m p (ucast c)" for e
proof unfold_locales
  fix c :: u64 and pre post :: "u8 list" assume "c < fixed8_limit e"
  then have "c < 256" by (auto simp: fixed8_limit_def word_less_nat_alt split: if_splits)
  then show "map_option ucast (rd (pre @ [ucast c] @ post) (length pre)) = Some c" using ucast_u8(1) by simp
qed (auto simp: length_Suc_conv)

lemma ucs2_check_iff: "ucs2_check_codepoint c = (if ucs2_valid c then Done () else Thrown ''Invalid character in UCS-2 string'')"
proof (cases "c < 0xFFFE")
  case True
  then have "c < 0x10000" "\<not> c \<ge> 0xFFFE" by (simp_all add: word_less_nat_alt word_le_nat_alt)
  then show ?thesis using True by (auto simp: ucs2_check_codepoint_def ucs2_valid_def invalid_iff)
next
  case False
  have "\<not> ucs2_valid c"
  proof
    assume v: "ucs2_valid c"
    then have "c = 0xFFFE \<or> c = 0xFFFF" using False by (auto simp: ucs2_valid_def word_less_nat_alt word_unat_eq_iff)
    then show False using v by (auto simp: ucs2_valid_def UNICODE_IS_INVALID_def)
  qed
  then show ?thesis using False by (simp add: ucs2_check_codepoint_def not_less)
qed

interpretation ucs2e: str_encoding Parrot_ucs2_encoding_ptr 2 u16_bytes ucs2_valid
  ucs2_iter_get ucs2_iter_skip ucs2_iter_get_and_advance ucs2_iter_set_and_advance ucs2_ord
proof (unfold_locales, goal_cases)
  case (3 c d p q)
  then show ?case by (rule u16.prefix)
next
  case (5 s cs k n j)
  then show ?case using u16.move_width [OF 5(3)] by (simp add: u16.iter ucs2_iter_skip_def)
next
  case (7 ds c s old post)
  then show ?case using u16.write_unit [of old ds post c]
    by (simp add: ucs2_iter_set_and_advance_def ucs2_check_iff u16.chunks)
next
  case (9 s cs idx)
  then show ?case by (cases "ord_index (length cs) idx") (simp_all add: ucs2_ord_def holds_def u16.unit [OF 9 ord_index_Done])
qed (simp_all add: u16.iter u16.unit ucs2_iter_get_def ucs2_iter_get_and_advance_def ucs2_iter_set_and_advance_def ucs2_check_iff)

interpretation ucs4e: str_encoding Parrot_ucs4_encoding_ptr 4 u32_bytes "\<lambda>c. \<not> UNICODE_IS_INVALID c"
  ucs4_iter_get ucs4_iter_skip ucs4_iter_get_and_advance ucs4_iter_set_and_advance ucs4_ord
proof (unfold_locales, goal_cases)
  case (3 c d p q)
  then show ?case by (rule u32.prefix)
next
  case (5 s cs k n j)
  then show ?case using u32.move_width [OF 5(3)] by (simp add: u32.iter ucs4_iter_skip_def)
next
  case (7 ds c s old post)
  then show ?case using u32.write_unit [of old ds post c]
    by (simp add: ucs4_iter_set_and_advance_def u32.chunks u32.len)
next
  case (9 s cs idx)
  then show ?case by (cases "ord_index (length cs) idx") (simp_all add: ucs4_ord_def holds_def u32.unit [OF 9 ord_index_Done])
qed (simp_all add: u32.iter u32.len u32.unit ucs4_iter_get_def ucs4_iter_get_and_advance_def ucs4_iter_set_and_advance_def)

interpretation fixed8e: str_encoding e 1 fixed8_bytes "\<lambda>c. c < fixed8_limit e"
  fixed8_iter_get fixed8_iter_skip fixed8_iter_get_and_advance fixed8_iter_set_and_advance fixed8_ord for e
proof (unfold_locales, goal_cases)
  case (3 c d p q)
  then show ?case by (rule u8l.prefix)
next
  case (4 s cs k n j)
  then show ?case using u8l.unit [OF 4(1,4)] u8l.used [OF 4(1)] by (auto simp: u8l.iter fixed8_iter_get_def)
next
  case (5 s cs k n j)
  then show ?case using u8l.used [OF 5(1)] by (simp add: u8l.iter fixed8_iter_skip_def)
next
  case (6 s cs k)
  then show ?case using u8l.unit [OF 6] u8l.used [OF 6(1)] by (auto simp: u8l.iter fixed8_iter_get_and_advance_def)
next
  case (7 ds c s old post)
  then show ?case using u8l.write_unit [of old ds post c]
    by (auto simp: fixed8_iter_set_and_advance_def u8l.chunks max_def)
next
  case (9 s cs idx)
  have len: "strlen s = length cs" using 9 by (simp add: holds_def)
  show ?case
  proof (cases "ord_index (length cs) idx")
    case (Done k)
    then show ?thesis using u8l.unit [OF 9 ord_index_Done [OF Done]] len by (auto simp: fixed8_ord_def)
  qed (simp_all add: fixed8_ord_def len)
qed (simp_all add: fixed8_iter_set_and_advance_def)

end
