(* ===== verification/Str_Vtable.thy ===== *)
theory Str_Vtable
  imports Str_Encoding
begin

text \<open>
  The tables of functions of the encodings, and the macros of \<open>include/parrot/string.h\<close>
  that call through \<open>s->encoding\<close>.  The functions that several encodings share and that
  call these macros in turn are in \<open>Str_Shared\<close>.
\<close>

record str_vtable =
  max_bytes_per_codepoint :: nat
  vt_scan :: "parrot_string \<Rightarrow> parrot_string outcome"
  vt_ord :: "parrot_string \<Rightarrow> int \<Rightarrow> u64 outcome"
  vt_iter_get :: "parrot_string \<Rightarrow> string_iter \<Rightarrow> int \<Rightarrow> u64 option"
  vt_iter_skip :: "parrot_string \<Rightarrow> string_iter \<Rightarrow> int \<Rightarrow> string_iter option"
  vt_iter_get_and_advance :: "parrot_string \<Rightarrow> string_iter \<Rightarrow> (u64 \<times> string_iter) option"
  vt_iter_set_and_advance :: "parrot_string \<Rightarrow> string_iter \<Rightarrow> u64 \<Rightarrow> (parrot_string \<times> string_iter) outcome"

definition fixed8_vtable :: "(parrot_string \<Rightarrow> parrot_string outcome) \<Rightarrow> str_vtable" where
  "fixed8_vtable scan = \<lparr>max_bytes_per_codepoint = 1, vt_scan = scan, vt_ord = fixed8_ord,
     vt_iter_get = fixed8_iter_get, vt_iter_skip = fixed8_iter_skip,
     vt_iter_get_and_advance = fixed8_iter_get_and_advance, vt_iter_set_and_advance = fixed8_iter_set_and_advance\<rparr>"

definition Parrot_ascii_encoding :: str_vtable where "Parrot_ascii_encoding = fixed8_vtable ascii_scan"
definition Parrot_latin1_encoding :: str_vtable where "Parrot_latin1_encoding = fixed8_vtable latin1_scan"
definition Parrot_binary_encoding :: str_vtable where "Parrot_binary_encoding = fixed8_vtable binary_scan"

definition Parrot_utf8_encoding :: str_vtable where
  "Parrot_utf8_encoding = \<lparr>max_bytes_per_codepoint = 4, vt_scan = utf8_scan, vt_ord = utf8_ord,
     vt_iter_get = utf8_iter_get, vt_iter_skip = utf8_iter_skip,
     vt_iter_get_and_advance = utf8_iter_get_and_advance, vt_iter_set_and_advance = utf8_iter_set_and_advance\<rparr>"

definition Parrot_utf16_encoding :: str_vtable where
  "Parrot_utf16_encoding = \<lparr>max_bytes_per_codepoint = 4, vt_scan = utf16_scan, vt_ord = utf16_ord,
     vt_iter_get = utf16_iter_get, vt_iter_skip = utf16_iter_skip,
     vt_iter_get_and_advance = utf16_iter_get_and_advance, vt_iter_set_and_advance = utf16_iter_set_and_advance\<rparr>"

definition Parrot_ucs2_encoding :: str_vtable where
  "Parrot_ucs2_encoding = \<lparr>max_bytes_per_codepoint = 2, vt_scan = ucs2_scan, vt_ord = ucs2_ord,
     vt_iter_get = ucs2_iter_get, vt_iter_skip = ucs2_iter_skip,
     vt_iter_get_and_advance = ucs2_iter_get_and_advance, vt_iter_set_and_advance = ucs2_iter_set_and_advance\<rparr>"

definition Parrot_ucs4_encoding :: str_vtable where
  "Parrot_ucs4_encoding = \<lparr>max_bytes_per_codepoint = 4, vt_scan = ucs4_scan, vt_ord = ucs4_ord,
     vt_iter_get = ucs4_iter_get, vt_iter_skip = ucs4_iter_skip,
     vt_iter_get_and_advance = ucs4_iter_get_and_advance, vt_iter_set_and_advance = ucs4_iter_set_and_advance\<rparr>"

fun vtable_of :: "encoding_ptr \<Rightarrow> str_vtable" where
  "vtable_of Parrot_ascii_encoding_ptr = Parrot_ascii_encoding"
| "vtable_of Parrot_latin1_encoding_ptr = Parrot_latin1_encoding"
| "vtable_of Parrot_binary_encoding_ptr = Parrot_binary_encoding"
| "vtable_of Parrot_utf8_encoding_ptr = Parrot_utf8_encoding"
| "vtable_of Parrot_utf16_encoding_ptr = Parrot_utf16_encoding"
| "vtable_of Parrot_ucs2_encoding_ptr = Parrot_ucs2_encoding"
| "vtable_of Parrot_ucs4_encoding_ptr = Parrot_ucs4_encoding"

definition STRING_max_bytes_per_codepoint :: "parrot_string \<Rightarrow> nat" where
  "STRING_max_bytes_per_codepoint src = max_bytes_per_codepoint (vtable_of (encoding src))"

definition STRING_scan :: "parrot_string \<Rightarrow> parrot_string outcome" where
  "STRING_scan src = vt_scan (vtable_of (encoding src)) src"

definition STRING_ord :: "parrot_string \<Rightarrow> int \<Rightarrow> u64 outcome" where
  "STRING_ord src offset = vt_ord (vtable_of (encoding src)) src offset"

definition STRING_iter_get :: "parrot_string \<Rightarrow> string_iter \<Rightarrow> int \<Rightarrow> u64 option" where
  "STRING_iter_get str i offset = vt_iter_get (vtable_of (encoding str)) str i offset"

definition STRING_iter_skip :: "parrot_string \<Rightarrow> string_iter \<Rightarrow> int \<Rightarrow> string_iter option" where
  "STRING_iter_skip str i skip = vt_iter_skip (vtable_of (encoding str)) str i skip"

definition STRING_iter_get_and_advance :: "parrot_string \<Rightarrow> string_iter \<Rightarrow> (u64 \<times> string_iter) option" where
  "STRING_iter_get_and_advance str i = vt_iter_get_and_advance (vtable_of (encoding str)) str i"

definition STRING_iter_set_and_advance :: "parrot_string \<Rightarrow> string_iter \<Rightarrow> u64 \<Rightarrow> (parrot_string \<times> string_iter) outcome" where
  "STRING_iter_set_and_advance str i c = vt_iter_set_and_advance (vtable_of (encoding str)) str i c"

section \<open>The code points of a string\<close>

fun chunk_of :: "encoding_ptr \<Rightarrow> u64 \<Rightarrow> u8 list" where
  "chunk_of Parrot_utf8_encoding_ptr = utf8_bytes"
| "chunk_of Parrot_utf16_encoding_ptr = utf16_bytes"
| "chunk_of Parrot_ucs2_encoding_ptr = u16_bytes"
| "chunk_of Parrot_ucs4_encoding_ptr = u32_bytes"
| "chunk_of _ = (\<lambda>c. [ucast c])"

fun valid_in :: "encoding_ptr \<Rightarrow> u64 \<Rightarrow> bool" where
  "valid_in Parrot_utf8_encoding_ptr = (\<lambda>c. \<not> UNICODE_IS_INVALID c)"
| "valid_in Parrot_utf16_encoding_ptr = (\<lambda>c. \<not> UNICODE_IS_INVALID c)"
| "valid_in Parrot_ucs2_encoding_ptr = ucs2_valid"
| "valid_in Parrot_ucs4_encoding_ptr = (\<lambda>c. \<not> UNICODE_IS_INVALID c)"
| "valid_in e = (\<lambda>c. c < fixed8_limit e)"

text \<open>The string \<open>s\<close> is well-formed and its code points are \<open>cs\<close>.\<close>

definition chars :: "parrot_string \<Rightarrow> u64 list \<Rightarrow> bool" where
  "chars s cs \<longleftrightarrow> holds (chunk_of (encoding s)) (valid_in (encoding s)) s cs"

abbreviation bytes_of :: "encoding_ptr \<Rightarrow> u64 list \<Rightarrow> u8 list" where
  "bytes_of e cs \<equiv> concat (map (chunk_of e) cs)"

abbreviation str_iter :: "parrot_string \<Rightarrow> u64 list \<Rightarrow> nat \<Rightarrow> string_iter" where
  "str_iter s cs k \<equiv> iter_at (chunk_of (encoding s)) cs k"

interpretation vt: str_encoding e "max_bytes_per_codepoint (vtable_of e)" "chunk_of e" "valid_in e"
  "vt_iter_get (vtable_of e)" "vt_iter_skip (vtable_of e)" "vt_iter_get_and_advance (vtable_of e)"
  "vt_iter_set_and_advance (vtable_of e)" "vt_ord (vtable_of e)" for e
  by (cases e; simp only: chunk_of.simps valid_in.simps vtable_of.simps;
      insert utf8e.str_encoding_axioms utf16e.str_encoding_axioms ucs2e.str_encoding_axioms ucs4e.str_encoding_axioms
        fixed8e.str_encoding_axioms [of e];
      simp add: Parrot_utf8_encoding_def Parrot_utf16_encoding_def Parrot_ucs2_encoding_def Parrot_ucs4_encoding_def
        Parrot_ascii_encoding_def Parrot_latin1_encoding_def Parrot_binary_encoding_def fixed8_vtable_def)

end
