(* ===== verification/Str_Shared.thy ===== *)
theory Str_Shared
  imports Str_Vtable
begin

text \<open>
  The functions of \<open>src/string/encoding/shared.c\<close> and \<open>src/string/api.c\<close> that work on
  strings of any encoding through the iterators: comparing, searching, hashing, substrings.
  A loop over \<open>iter.charpos\<close> recurses on the characters that are left, since every
  \<open>STRING_iter_get_and_advance\<close> adds one to it.  Whether two arguments are the same
  object is an argument of the definitions, \<open>same\<close>.
\<close>

section \<open>Comparing\<close>

text \<open>\<open>memcmp\<close> of \<open>n\<close> bytes, both objects being at least as long: the first difference decides.\<close>

definition memcmp :: "u8 list \<Rightarrow> u8 list \<Rightarrow> nat \<Rightarrow> int option" where
  "memcmp xs ys n =
     (if n \<le> length xs \<and> n \<le> length ys
      then Some (case dropWhile (\<lambda>(x, y). x = y) (zip (take n xs) (take n ys)) of
             [] \<Rightarrow> 0 | (x, y) # _ \<Rightarrow> if x < y then - 1 else 1)
      else None)"

fun encoding_equal_from :: "parrot_string \<Rightarrow> parrot_string \<Rightarrow> nat \<Rightarrow> string_iter \<Rightarrow> string_iter \<Rightarrow> bool option" where
  "encoding_equal_from lhs rhs 0 l_iter r_iter = Some True"
| "encoding_equal_from lhs rhs (Suc n) l_iter r_iter =
     do {
       (cl, l_iter) \<leftarrow> STRING_iter_get_and_advance lhs l_iter;
       (cr, r_iter) \<leftarrow> STRING_iter_get_and_advance rhs r_iter;
       if cl \<noteq> cr then Some False else encoding_equal_from lhs rhs n l_iter r_iter
     }"

definition encoding_equal :: "bool \<Rightarrow> parrot_string \<Rightarrow> parrot_string \<Rightarrow> bool option" where
  "encoding_equal same lhs rhs =
     (let len = strlen lhs in
      if len \<noteq> strlen rhs then Some False
      else if len = 0 then Some True
      else if same then Some True
      else if hashval lhs \<noteq> 0 \<and> hashval rhs \<noteq> 0 \<and> hashval lhs \<noteq> hashval rhs then Some False
      else if encoding lhs = encoding rhs
      then map_option (\<lambda>r. r = 0) (memcmp (strstart lhs) (strstart rhs) (bufused lhs))
      else encoding_equal_from lhs rhs len STRING_ITER_INIT STRING_ITER_INIT)"

text \<open>The loop of \<open>fixed8_equal\<close>: the position in \<open>buf\<close> is the iterator of the other string.\<close>

fun fixed8_equal_from :: "u8 list \<Rightarrow> parrot_string \<Rightarrow> nat \<Rightarrow> string_iter \<Rightarrow> bool option" where
  "fixed8_equal_from buf rhs 0 iter = Some True"
| "fixed8_equal_from buf rhs (Suc n) iter =
     do {
       cl \<leftarrow> rd buf (charpos iter);
       (cr, iter) \<leftarrow> STRING_iter_get_and_advance rhs iter;
       if ucast cl \<noteq> cr then Some False else fixed8_equal_from buf rhs n iter
     }"

definition fixed8_equal :: "bool \<Rightarrow> parrot_string \<Rightarrow> parrot_string \<Rightarrow> bool option" where
  "fixed8_equal same lhs rhs =
     (let len = strlen lhs in
      if len \<noteq> strlen rhs then Some False
      else if len = 0 then Some True
      else if same then Some True
      else if hashval lhs \<noteq> 0 \<and> hashval rhs \<noteq> 0 \<and> hashval lhs \<noteq> hashval rhs then Some False
      else if STRING_max_bytes_per_codepoint rhs = 1
      then map_option (\<lambda>r. r = 0) (memcmp (strstart lhs) (strstart rhs) len)
      else fixed8_equal_from (strstart lhs) rhs len STRING_ITER_INIT)"

definition STRING_equal :: "bool \<Rightarrow> parrot_string \<Rightarrow> parrot_string \<Rightarrow> bool option" where
  "STRING_equal same lhs rhs =
     (if encoding lhs \<in> {Parrot_ascii_encoding_ptr, Parrot_latin1_encoding_ptr, Parrot_binary_encoding_ptr}
      then fixed8_equal same lhs rhs else encoding_equal same lhs rhs)"

text \<open>The rest of both compare functions: after a common prefix the shorter string is less.\<close>

definition compare_lengths :: "nat \<Rightarrow> nat \<Rightarrow> int" where
  "compare_lengths l_len r_len = (if l_len < r_len then - 1 else if l_len > r_len then 1 else 0)"

fun encoding_compare_from :: "parrot_string \<Rightarrow> parrot_string \<Rightarrow> nat \<Rightarrow> string_iter \<Rightarrow> string_iter \<Rightarrow> int option" where
  "encoding_compare_from lhs rhs 0 l_iter r_iter = Some (compare_lengths (strlen lhs) (strlen rhs))"
| "encoding_compare_from lhs rhs (Suc n) l_iter r_iter =
     do {
       (cl, l_iter) \<leftarrow> STRING_iter_get_and_advance lhs l_iter;
       (cr, r_iter) \<leftarrow> STRING_iter_get_and_advance rhs r_iter;
       if cl \<noteq> cr then Some (if cl < cr then - 1 else 1) else encoding_compare_from lhs rhs n l_iter r_iter
     }"

definition encoding_compare :: "parrot_string \<Rightarrow> parrot_string \<Rightarrow> int option" where
  "encoding_compare lhs rhs =
     (if strlen rhs = 0 then Some (if strlen lhs \<noteq> 0 then 1 else 0)
      else if strlen lhs = 0 then Some (- 1)
      else encoding_compare_from lhs rhs (min (strlen lhs) (strlen rhs)) STRING_ITER_INIT STRING_ITER_INIT)"

fun fixed8_compare_from :: "parrot_string \<Rightarrow> parrot_string \<Rightarrow> nat \<Rightarrow> string_iter \<Rightarrow> int option" where
  "fixed8_compare_from lhs rhs 0 iter = Some (compare_lengths (strlen lhs) (strlen rhs))"
| "fixed8_compare_from lhs rhs (Suc n) iter =
     do {
       cl \<leftarrow> rd (strstart lhs) (charpos iter);
       (cr, iter) \<leftarrow> STRING_iter_get_and_advance rhs iter;
       if ucast cl \<noteq> cr then Some (if ucast cl < cr then - 1 else 1) else fixed8_compare_from lhs rhs n iter
     }"

definition fixed8_compare :: "parrot_string \<Rightarrow> parrot_string \<Rightarrow> int option" where
  "fixed8_compare lhs rhs =
     (let min_len = min (strlen lhs) (strlen rhs) in
      if strlen rhs = 0 then Some (if strlen lhs \<noteq> 0 then 1 else 0)
      else if strlen lhs = 0 then Some (- 1)
      else if STRING_max_bytes_per_codepoint rhs = 1
      then do {
        r \<leftarrow> memcmp (strstart lhs) (strstart rhs) min_len;
        Some (if r \<noteq> 0 then (if r < 0 then - 1 else 1) else compare_lengths (strlen lhs) (strlen rhs))
      }
      else fixed8_compare_from lhs rhs min_len STRING_ITER_INIT)"

definition STRING_compare :: "parrot_string \<Rightarrow> parrot_string \<Rightarrow> int option" where
  "STRING_compare lhs rhs =
     (if encoding lhs \<in> {Parrot_ascii_encoding_ptr, Parrot_latin1_encoding_ptr, Parrot_binary_encoding_ptr}
      then fixed8_compare lhs rhs else encoding_compare lhs rhs)"

section \<open>Hashing\<close>

fun encoding_hash_from :: "parrot_string \<Rightarrow> nat \<Rightarrow> string_iter \<Rightarrow> u64 \<Rightarrow> u64 option" where
  "encoding_hash_from s 0 iter h = Some h"
| "encoding_hash_from s (Suc n) iter h =
     do {
       (c, iter) \<leftarrow> STRING_iter_get_and_advance s iter;
       let h = h + push_bit 5 h in encoding_hash_from s n iter (h + c)
     }"

definition encoding_hash :: "parrot_string \<Rightarrow> u64 \<Rightarrow> (parrot_string \<times> u64) option" where
  "encoding_hash s h0 =
     do { h \<leftarrow> encoding_hash_from s (strlen s) STRING_ITER_INIT h0; Some (s\<lparr>hashval := h\<rparr>, h) }"

definition STRING_hash :: "parrot_string \<Rightarrow> u64 \<Rightarrow> (parrot_string \<times> u64) option" where
  "STRING_hash s h0 =
     (case encoding s of
        Parrot_utf8_encoding_ptr \<Rightarrow> encoding_hash s h0
      | Parrot_utf16_encoding_ptr \<Rightarrow> encoding_hash s h0
      | Parrot_ucs2_encoding_ptr \<Rightarrow> ucs2_hash s h0
      | Parrot_ucs4_encoding_ptr \<Rightarrow> ucs4_hash s h0
      | _ \<Rightarrow> fixed8_hash s h0)"

section \<open>Searching\<close>

text \<open>
  The inner loop of both searches: from behind the first character on, do the rest of
  \<open>search\<close> and the characters at \<open>iter\<close> agree?  With where the iterator stopped.
\<close>

fun match_from :: "parrot_string \<Rightarrow> parrot_string \<Rightarrow> nat \<Rightarrow> string_iter \<Rightarrow> string_iter \<Rightarrow> (bool \<times> string_iter) option" where
  "match_from src search 0 iter search_iter = Some (True, iter)"
| "match_from src search (Suc n) iter search_iter =
     do {
       (c1, iter) \<leftarrow> STRING_iter_get_and_advance src iter;
       (c2, search_iter) \<leftarrow> STRING_iter_get_and_advance search search_iter;
       if c1 = c2 then match_from src search n iter search_iter else Some (False, iter)
     }"

text \<open>The outer loop; \<open>n\<close> is how many positions are left, \<open>start\<close> the next one.\<close>

fun str_index_from :: "parrot_string \<Rightarrow> parrot_string \<Rightarrow> u64 \<Rightarrow> string_iter \<Rightarrow> nat \<Rightarrow> string_iter \<Rightarrow> string_iter
    \<Rightarrow> (int \<times> string_iter \<times> string_iter) option" where
  "str_index_from src search c0 search_start 0 start end = Some (- 1, start, end)"
| "str_index_from src search c0 search_start (Suc n) start end =
     do {
       (c1, next_start) \<leftarrow> STRING_iter_get_and_advance src start;
       if c1 = c0
       then do {
         (found, end) \<leftarrow> match_from src search (strlen search - charpos search_start) next_start search_start;
         if found then Some (int (charpos start), start, end)
         else str_index_from src search c0 search_start n next_start end
       }
       else str_index_from src search c0 search_start n next_start end
     }"

definition Parrot_str_iter_index :: "parrot_string \<Rightarrow> string_iter \<Rightarrow> string_iter \<Rightarrow> parrot_string
    \<Rightarrow> (int \<times> string_iter \<times> string_iter) option" where
  "Parrot_str_iter_index src start end search =
     (if strlen search = 0 then Some (int (charpos start), start, start)
      else do {
        (c0, search_start) \<leftarrow> STRING_iter_get_and_advance search STRING_ITER_INIT;
        str_index_from src search c0 search_start (strlen src + 1 - (charpos start + strlen search)) start end
      })"

definition encoding_index :: "parrot_string \<Rightarrow> parrot_string \<Rightarrow> int \<Rightarrow> int option" where
  "encoding_index src search offset =
     (if offset < 0 \<or> int (strlen src) \<le> offset \<or> strlen search = 0 then Some (- 1)
      else do {
        start \<leftarrow> STRING_iter_skip src STRING_ITER_INIT offset;
        (r, _, _) \<leftarrow> Parrot_str_iter_index src start start search;
        Some r
      })"

text \<open>The loop of \<open>encoding_rindex\<close>; \<open>n\<close> is the character position of \<open>start\<close>.\<close>

fun rindex_from :: "parrot_string \<Rightarrow> parrot_string \<Rightarrow> u64 \<Rightarrow> string_iter \<Rightarrow> nat \<Rightarrow> string_iter \<Rightarrow> int option" where
  "rindex_from src search c0 search_start n start =
     do {
       c1 \<leftarrow> STRING_iter_get src start 0;
       found \<leftarrow> (if c1 = c0
                then do {
                  iter \<leftarrow> STRING_iter_skip src start 1;
                  (found, _) \<leftarrow> match_from src search (strlen search - charpos search_start) iter search_start;
                  Some found
                }
                else Some False);
       if found then Some (int (charpos start))
       else case n of
         0 \<Rightarrow> Some (- 1)
       | Suc n \<Rightarrow> do { start \<leftarrow> STRING_iter_skip src start (- 1); rindex_from src search c0 search_start n start }
     }"

definition encoding_rindex :: "parrot_string \<Rightarrow> parrot_string \<Rightarrow> int \<Rightarrow> int option" where
  "encoding_rindex src search offset =
     (if offset < 0 \<or> strlen search = 0 \<or> strlen src < strlen search then Some (- 1)
      else do {
        start \<leftarrow> STRING_iter_skip src STRING_ITER_INIT (min offset (int (strlen src - strlen search)));
        (c0, search_start) \<leftarrow> STRING_iter_get_and_advance search STRING_ITER_INIT;
        rindex_from src search c0 search_start (charpos start) start
      })"

declare rindex_from.simps [simp del]

end
