(* ===== verification/Str_Shared_Rep.thy ===== *)
theory Str_Shared_Rep
  imports Str_Shared
begin

text \<open>
  The functions of \<open>Str_Shared\<close> in terms of the code points of the strings, whatever their
  encodings: the macros first, by the laws of \<open>str_encoding\<close>, then each loop.
\<close>

section \<open>The macros on strings that hold code points\<close>

lemma chars_strlen: "chars s cs \<Longrightarrow> strlen s = length cs"
  by (simp add: chars_def holds_def)

lemma STRING_get:
  "chars s cs \<Longrightarrow> k \<le> length cs \<Longrightarrow> move k n = Some j \<Longrightarrow> j < length cs \<Longrightarrow> STRING_iter_get s (str_iter s cs k) n = Some (cs ! j)"
  unfolding chars_def STRING_iter_get_def by (rule vt.get)

lemma STRING_skip:
  "chars s cs \<Longrightarrow> k \<le> length cs \<Longrightarrow> move k n = Some j \<Longrightarrow> j \<le> length cs
    \<Longrightarrow> STRING_iter_skip s (str_iter s cs k) n = Some (str_iter s cs j)"
  unfolding chars_def STRING_iter_skip_def by (rule vt.skip)

lemma STRING_get_and_advance:
  "chars s cs \<Longrightarrow> k < length cs \<Longrightarrow> STRING_iter_get_and_advance s (str_iter s cs k) = Some (cs ! k, str_iter s cs (Suc k))"
  unfolding chars_def STRING_iter_get_and_advance_def by (rule vt.get_and_advance)

lemma STRING_ord_chars: "chars s cs \<Longrightarrow> STRING_ord s idx = obind (ord_index (length cs) idx) (\<lambda>k. Done (cs ! k))"
  unfolding chars_def STRING_ord_def by (rule vt.ord)

abbreviation is_fixed8 :: "encoding_ptr \<Rightarrow> bool" where
  "is_fixed8 e \<equiv> e \<in> {Parrot_ascii_encoding_ptr, Parrot_latin1_encoding_ptr, Parrot_binary_encoding_ptr}"

lemma max_bytes_1: "STRING_max_bytes_per_codepoint s = 1 \<longleftrightarrow> is_fixed8 (encoding s)"
  by (cases "encoding s") (simp_all add: STRING_max_bytes_per_codepoint_def Parrot_utf8_encoding_def Parrot_utf16_encoding_def
      Parrot_ucs2_encoding_def Parrot_ucs4_encoding_def Parrot_ascii_encoding_def Parrot_latin1_encoding_def
      Parrot_binary_encoding_def fixed8_vtable_def)

lemmas max_bytes_Suc = max_bytes_1 [unfolded One_nat_def]

lemma fixed8_bytes_all: "is_fixed8 e \<Longrightarrow> bytes_of e cs = map ucast cs"
  by (induction cs) auto

lemma fixed8_chars:
  assumes "chars s cs" "is_fixed8 (encoding s)"
  obtains post where "strstart s = map ucast cs @ post" "\<forall>c \<in> set cs. c < 256" "bufused s = length cs"
proof -
  have "\<forall>c \<in> set cs. c < fixed8_limit (encoding s)" using assms by (auto simp: chars_def holds_def)
  then have "\<forall>c \<in> set cs. c < 256" by (fastforce simp: fixed8_limit_def word_less_nat_alt split: if_splits)
  then show thesis using assms that fixed8_bytes_all [OF assms(2), of cs] by (auto simp: chars_def holds_def)
qed

lemma ucast_back: "\<forall>c \<in> set cs. c < 256 \<Longrightarrow> map ucast (map ucast cs :: u8 list) = (cs :: u64 list)"
  by (induction cs) (simp_all add: ucast_u8)

lemma fixed8_rd:
  assumes "chars s cs" "is_fixed8 (encoding s)" "k < length cs"
  shows "\<exists>b. rd (strstart s) k = Some b \<and> ucast b = cs ! k"
proof -
  obtain post where "strstart s = map ucast cs @ post" "\<forall>c \<in> set cs. c < 256" by (rule fixed8_chars [OF assms(1,2)])
  then show ?thesis using assms(3) ucast_u8(1) [of "cs ! k"] by (simp add: nth_append)
qed

lemma drop_step: "k < length cs \<Longrightarrow> drop k cs = cs ! k # drop (Suc k) cs"
  by (simp add: Cons_nth_drop_Suc)

section \<open>Comparing\<close>

lemma encoding_equal_from_chars:
  assumes "chars l cs" "chars r ds" "k + n \<le> length cs" "k + n \<le> length ds"
  shows "encoding_equal_from l r n (str_iter l cs k) (str_iter r ds k) = Some (take n (drop k cs) = take n (drop k ds))"
  using assms(3,4)
proof (induction n arbitrary: k)
  case (Suc n)
  then show ?case using assms(1,2) by (simp add: STRING_get_and_advance drop_step)
qed simp

lemma fixed8_equal_from_chars:
  assumes "chars l cs" "is_fixed8 (encoding l)" "chars r ds" "k + n \<le> length cs" "k + n \<le> length ds"
  shows "fixed8_equal_from (strstart l) r n (str_iter r ds k) = Some (take n (drop k cs) = take n (drop k ds))"
  using assms(4,5)
proof (induction n arbitrary: k)
  case (Suc n)
  obtain b where "rd (strstart l) k = Some b" "ucast b = cs ! k" using fixed8_rd [OF assms(1,2), of k] Suc.prems by auto
  then show ?case using Suc assms(3) by (simp add: STRING_get_and_advance drop_step)
qed simp

lemma dropWhile_zip: "length xs = length ys \<Longrightarrow> dropWhile (\<lambda>(x, y). x = y) (zip xs ys) = [] \<longleftrightarrow> xs = ys"
  by (induction xs ys rule: list_induct2) auto

lemma memcmp_0:
  "n \<le> length xs \<Longrightarrow> n \<le> length ys \<Longrightarrow> map_option (\<lambda>r. r = 0) (memcmp xs ys n) = Some (take n xs = take n ys)"
proof -
  assume n: "n \<le> length xs" "n \<le> length ys"
  have "(case D of [] \<Rightarrow> 0 | (x, y) # _ \<Rightarrow> if x < y then - 1 else 1) = (0 :: int) \<longleftrightarrow> D = []" for D :: "(u8 \<times> u8) list"
    by (cases D) (auto split: if_splits)
  then show ?thesis using n dropWhile_zip [of "take n xs" "take n ys"] by (simp add: memcmp_def)
qed

text \<open>The bytes of as many code points can be told apart.\<close>

lemma bytes_of_prefix:
  assumes "bytes_of e cs @ p = bytes_of e ds @ q" "length cs = length ds" "\<forall>c \<in> set cs. valid_in e c" "\<forall>c \<in> set ds. valid_in e c"
  shows "cs = ds"
  using assms(2,1,3,4)
proof (induction cs ds rule: list_induct2)
  case (Cons c cs d ds)
  then have "chunk_of e c @ bytes_of e cs @ p = chunk_of e d @ bytes_of e ds @ q" by simp
  moreover from this have "c = d" by (rule vt.chunk_prefix [rotated 2]) (use Cons.prems in simp_all)
  ultimately show ?case using Cons by simp
qed simp

lemma memcmp_chars:
  assumes "chars l cs" "chars r ds" "encoding l = encoding r" "length cs = length ds" "bufused l \<le> length (strstart r)"
  shows "map_option (\<lambda>r. r = 0) (memcmp (strstart l) (strstart r) (bufused l)) = Some (cs = ds)"
proof -
  obtain p q where p: "strstart l = bytes_of (encoding l) cs @ p" "strstart r = bytes_of (encoding l) ds @ q"
      "bufused l = length (bytes_of (encoding l) cs)" "\<forall>c \<in> set cs. valid_in (encoding l) c" "\<forall>c \<in> set ds. valid_in (encoding l) c"
    using assms(1-3) by (auto simp: chars_def holds_def)
  have "bufused l \<le> length (strstart l)" using p by simp
  from memcmp_0 [OF this assms(5)]
  have "map_option (\<lambda>r. r = 0) (memcmp (strstart l) (strstart r) (bufused l))
      = Some (bytes_of (encoding l) cs = take (bufused l) (strstart r))" using p by simp
  moreover have "bytes_of (encoding l) cs = take (bufused l) (strstart r) \<longleftrightarrow> cs = ds"
  proof
    assume "bytes_of (encoding l) cs = take (bufused l) (strstart r)"
    then have "bytes_of (encoding l) cs @ drop (bufused l) (strstart r) = bytes_of (encoding l) ds @ q"
      using p(2) by (metis append_take_drop_id)
    from bytes_of_prefix [OF this assms(4) p(4,5)] show "cs = ds" .
  qed (use p in simp)
  ultimately show ?thesis by simp
qed

text \<open>The order of strings: the first code point that differs, then the lengths.\<close>

fun compare_points :: "u64 list \<Rightarrow> u64 list \<Rightarrow> int" where
  "compare_points [] [] = 0"
| "compare_points [] (d # ds) = - 1"
| "compare_points (c # cs) [] = 1"
| "compare_points (c # cs) (d # ds) = (if c = d then compare_points cs ds else if c < d then - 1 else 1)"

lemma compare_lengths_Suc [simp]: "compare_lengths (Suc m) (Suc n) = compare_lengths m n"
  by (simp add: compare_lengths_def)

lemma compare_points_end: "min (length cs) (length ds) = 0 \<Longrightarrow> compare_points cs ds = compare_lengths (length cs) (length ds)"
  by (cases cs; cases ds) (auto simp: compare_lengths_def)

lemma compare_points_drop_end:
  assumes "k \<le> length cs" "k \<le> length ds" "min (length cs) (length ds) = k"
  shows "compare_points (drop k cs) (drop k ds) = compare_lengths (length cs) (length ds)"
  using assms compare_points_end [of "drop k cs" "drop k ds"] by (auto simp: compare_lengths_def min_def split: if_splits)

lemma encoding_compare_from_chars:
  assumes "chars l cs" "chars r ds" "k + n = min (length cs) (length ds)"
  shows "encoding_compare_from l r n (str_iter l cs k) (str_iter r ds k) = Some (compare_points (drop k cs) (drop k ds))"
  using assms(3)
proof (induction n arbitrary: k)
  case 0
  have k: "k \<le> length cs" "k \<le> length ds" "min (length cs) (length ds) = k" using 0 by linarith+
  show ?case unfolding compare_points_drop_end [OF k] using assms(1,2) by (simp add: chars_strlen)
next
  case (Suc n)
  have k: "k < length cs" "k < length ds" "Suc k + n = min (length cs) (length ds)" using Suc.prems by simp_all
  show ?case unfolding drop_step [OF k(1)] drop_step [OF k(2)]
    using Suc.IH [OF k(3)] STRING_get_and_advance [OF assms(1) k(1)] STRING_get_and_advance [OF assms(2) k(2)] by simp
qed

lemma fixed8_compare_from_chars:
  assumes "chars l cs" "is_fixed8 (encoding l)" "chars r ds" "k + n = min (length cs) (length ds)"
  shows "fixed8_compare_from l r n (str_iter r ds k) = Some (compare_points (drop k cs) (drop k ds))"
  using assms(4)
proof (induction n arbitrary: k)
  case 0
  have k: "k \<le> length cs" "k \<le> length ds" "min (length cs) (length ds) = k" using 0 by linarith+
  show ?case unfolding compare_points_drop_end [OF k] using assms(1,3) by (simp add: chars_strlen)
next
  case (Suc n)
  have k: "k < length cs" "k < length ds" "Suc k + n = min (length cs) (length ds)" using Suc.prems by simp_all
  obtain b where "rd (strstart l) k = Some b" "ucast b = cs ! k" using fixed8_rd [OF assms(1,2) k(1)] by auto
  then show ?case unfolding drop_step [OF k(1)] drop_step [OF k(2)]
    using Suc.IH [OF k(3)] STRING_get_and_advance [OF assms(3) k(2)] by simp
qed

lemma memcmp_step: "memcmp (x # xs) (y # ys) (Suc n) = (if x = y then memcmp xs ys n
    else if n \<le> length xs \<and> n \<le> length ys then Some (if x < y then - 1 else 1) else None)"
  by (simp add: memcmp_def)

lemma memcmp_compare_points:
  assumes "\<forall>c \<in> set cs. c < 256" "\<forall>c \<in> set ds. c < 256"
  shows "\<exists>r. memcmp (map ucast cs @ p) (map ucast ds @ q) (min (length cs) (length ds)) = Some r
    \<and> (if r \<noteq> 0 then (if r < 0 then - 1 else 1) else compare_lengths (length cs) (length ds)) = compare_points cs ds"
  using assms
proof (induction cs ds rule: compare_points.induct)
  case (4 c cs d ds)
  have u: "unat (ucast c :: u8) = unat c" "unat (ucast d :: u8) = unat d" using 4(2,3) ucast_u8(2) by simp_all
  then have eq: "(ucast c :: u8) = ucast d \<longleftrightarrow> c = d" "(ucast c :: u8) < ucast d \<longleftrightarrow> c < d"
    by (simp_all add: word_unat_eq_iff word_less_nat_alt)
  show ?case
  proof (cases "c = d")
    case True
    with 4 obtain r where "memcmp (map ucast cs @ p) (map ucast ds @ q) (min (length cs) (length ds)) = Some r"
      "(if r \<noteq> 0 then (if r < 0 then - 1 else 1) else compare_lengths (length cs) (length ds)) = compare_points cs ds" by auto
    then show ?thesis using True by (intro exI [of _ r]) (auto simp: memcmp_step)
  qed (auto simp: memcmp_step eq)
qed (auto simp: memcmp_def compare_lengths_def)

section \<open>Hashing\<close>

text \<open>The hash of a list of code points; it does not depend on how they are stored.\<close>

definition hash_points :: "u64 list \<Rightarrow> u64 \<Rightarrow> u64" where
  "hash_points cs h0 = foldl (\<lambda>h c. h + push_bit 5 h + c) h0 cs"

lemma hash_points_step: "k < length cs \<Longrightarrow> hash_points (drop k cs) h = hash_points (drop (Suc k) cs) (h + push_bit 5 h + cs ! k)"
  by (simp add: hash_points_def drop_step)

lemma encoding_hash_from_chars:
  assumes "chars s cs" "k + n = length cs"
  shows "encoding_hash_from s n (str_iter s cs k) h = Some (hash_points (drop k cs) h)"
  using assms(2)
proof (induction n arbitrary: k h)
  case (Suc n)
  then show ?case using assms(1) by (simp add: STRING_get_and_advance hash_points_step)
qed (simp add: hash_points_def)

lemma ucs2_hash_from_chars:
  assumes "holds u16_bytes ucs2_valid s cs" "k + n = length cs"
  shows "ucs2_hash_from (strstart s) n (2 * k) h = Some (hash_points (drop k cs) h)"
  using assms(2)
proof (induction n arbitrary: k h)
  case (Suc n)
  then show ?case using Suc.IH [of "Suc k"] u16.unit [OF assms(1), of k] by (simp add: hash_points_step)
qed (simp add: hash_points_def)

lemma ucs4_hash_from_chars:
  assumes "holds u32_bytes (\<lambda>c. \<not> UNICODE_IS_INVALID c) s cs" "k + n = length cs"
  shows "ucs4_hash_from (strstart s) n (4 * k) h = Some (hash_points (drop k cs) h)"
  using assms(2)
proof (induction n arbitrary: k h)
  case (Suc n)
  have k: "4 * k + 4 = 4 * Suc k" by simp
  show ?case using Suc u32.unit [OF assms(1), of k] by (simp add: hash_points_step k del: mult_Suc_right)
qed (simp add: hash_points_def)

lemma hash_buffer_chars:
  "\<forall>c \<in> set cs. c < 256 \<Longrightarrow> Parrot_hash_buffer (map ucast cs @ post) (length cs) h = Some (hash_points cs h)"
  by (induction cs arbitrary: h) (simp_all add: hash_points_def ucast_u8 Let_def)

lemma STRING_hash_chars:
  assumes "chars s cs"
  shows "STRING_hash s h0 = Some (s\<lparr>hashval := hash_points cs h0\<rparr>, hash_points cs h0)"
proof -
  have enc: "encoding_hash s h0 = Some (s\<lparr>hashval := hash_points cs h0\<rparr>, hash_points cs h0)"
    using encoding_hash_from_chars [OF assms, of 0 "length cs" h0] chars_strlen [OF assms]
    by (simp add: encoding_hash_def iter_at_0)
  have fx: "fixed8_hash s h0 = Some (s\<lparr>hashval := hash_points cs h0\<rparr>, hash_points cs h0)" if e: "is_fixed8 (encoding s)"
  proof -
    obtain post where "strstart s = map ucast cs @ post" "\<forall>c \<in> set cs. c < 256" by (rule fixed8_chars [OF assms e])
    then show ?thesis using hash_buffer_chars [of cs post h0] chars_strlen [OF assms] by (simp add: fixed8_hash_def)
  qed
  show ?thesis
  proof (cases "encoding s")
    case Parrot_ucs2_encoding_ptr
    then show ?thesis using ucs2_hash_from_chars [of s cs 0 "length cs" h0] assms chars_strlen [OF assms]
      by (simp add: STRING_hash_def ucs2_hash_def chars_def)
  next
    case Parrot_ucs4_encoding_ptr
    then show ?thesis using ucs4_hash_from_chars [of s cs 0 "length cs" h0] assms chars_strlen [OF assms]
      by (simp add: STRING_hash_def ucs4_hash_def chars_def)
  qed (use enc fx in \<open>simp_all add: STRING_hash_def\<close>)
qed

section \<open>Equality and order of whole strings\<close>

text \<open>A cached hash value is that of the code points, for one seed of the interpreter.\<close>

definition hash_cached :: "u64 \<Rightarrow> parrot_string \<Rightarrow> u64 list \<Rightarrow> bool" where
  "hash_cached h0 s cs \<longleftrightarrow> hashval s = 0 \<or> hashval s = hash_points cs h0"

lemma encoding_equal_chars:
  assumes "chars l cs" "chars r ds" "hash_cached h0 l cs" "hash_cached h0 r ds" "same \<Longrightarrow> l = r"
    and "encoding l = encoding r \<Longrightarrow> bufused l \<le> length (strstart r)"
  shows "encoding_equal same l r = Some (cs = ds)"
proof -
  have len: "strlen l = length cs" "strlen r = length ds" using assms(1,2) by (simp_all add: chars_strlen)
  have same: "same \<Longrightarrow> cs = ds" if "length cs = length ds"
  proof -
    assume "same"
    then have "l = r" by (rule assms(5))
    then obtain p q where "bytes_of (encoding l) cs @ p = bytes_of (encoding l) ds @ q"
      "\<forall>c \<in> set cs. valid_in (encoding l) c" "\<forall>c \<in> set ds. valid_in (encoding l) c"
      using assms(1,2) by (auto simp: chars_def holds_def)
    then show "cs = ds" using bytes_of_prefix that by blast
  qed
  have hash: "cs \<noteq> ds" if "hashval l \<noteq> 0" "hashval r \<noteq> 0" "hashval l \<noteq> hashval r"
    using that assms(3,4) by (auto simp: hash_cached_def)
  show ?thesis
  proof (cases "encoding l = encoding r")
    case True
    then show ?thesis using same hash len memcmp_chars [OF assms(1,2) True _ assms(6)] by (auto simp: encoding_equal_def Let_def)
  next
    case False
    then show ?thesis using same hash len encoding_equal_from_chars [OF assms(1,2), of 0 "length cs"]
      by (auto simp: encoding_equal_def Let_def iter_at_0)
  qed
qed

lemma fixed8_equal_chars:
  assumes "chars l cs" "chars r ds" "hash_cached h0 l cs" "hash_cached h0 r ds" "same \<Longrightarrow> l = r" "is_fixed8 (encoding l)"
  shows "fixed8_equal same l r = Some (cs = ds)"
proof -
  have len: "strlen l = length cs" "strlen r = length ds" using assms(1,2) by (simp_all add: chars_strlen)
  obtain p where p: "strstart l = map ucast cs @ p" "\<forall>c \<in> set cs. c < 256" by (rule fixed8_chars [OF assms(1,6)])
  have inj: "cs = ds" if "map ucast cs = (map ucast ds :: u8 list)" "\<forall>c \<in> set ds. c < 256"
    using ucast_back [OF p(2)] ucast_back [OF that(2)] that(1) by metis
  have same: "cs = ds" if "length cs = length ds" "same"
  proof -
    have "l = r" using assms(5) that by simp
    moreover from this obtain q where "strstart r = map ucast ds @ q" "\<forall>c \<in> set ds. c < 256"
      using fixed8_chars [OF assms(2)] assms(6) by auto
    ultimately show ?thesis using p(1) that(1) inj by (metis append_eq_append_conv length_map)
  qed
  have hash: "cs \<noteq> ds" if "hashval l \<noteq> 0" "hashval r \<noteq> 0" "hashval l \<noteq> hashval r"
    using that assms(3,4) by (auto simp: hash_cached_def)
  show ?thesis
  proof (cases "is_fixed8 (encoding r)")
    case True
    obtain q where q: "strstart r = map ucast ds @ q" "\<forall>c \<in> set ds. c < 256" by (rule fixed8_chars [OF assms(2) True])
    have "map_option (\<lambda>r. r = 0) (memcmp (strstart l) (strstart r) (length cs)) = Some (cs = ds)" if "length cs = length ds"
    proof -
      have "map ucast cs = (map ucast ds :: u8 list) \<longleftrightarrow> cs = ds" using inj q(2) by blast
      then show ?thesis using memcmp_0 [of "length cs" "strstart l" "strstart r"] that p(1) q(1) by simp
    qed
    then show ?thesis using same hash len True by (auto simp: fixed8_equal_def Let_def max_bytes_Suc)
  next
    case False
    then show ?thesis using same hash len fixed8_equal_from_chars [OF assms(1,6,2), of 0 "length cs"]
      by (auto simp: fixed8_equal_def Let_def max_bytes_Suc iter_at_0)
  qed
qed

lemma STRING_equal_chars:
  assumes "chars l cs" "chars r ds" "hash_cached h0 l cs" "hash_cached h0 r ds" "same \<Longrightarrow> l = r"
    and "encoding l = encoding r \<Longrightarrow> bufused l \<le> length (strstart r)"
  shows "STRING_equal same l r = Some (cs = ds)"
  using fixed8_equal_chars [OF assms(1-5)] encoding_equal_chars [OF assms] by (simp add: STRING_equal_def)

lemma compare_points_Nil: "compare_points cs [] = (if cs \<noteq> [] then 1 else 0)" "ds \<noteq> [] \<Longrightarrow> compare_points [] ds = - 1"
  by (cases cs; simp) (cases ds; simp)

lemma STRING_compare_chars:
  assumes "chars l cs" "chars r ds"
  shows "STRING_compare l r = Some (compare_points cs ds)"
proof -
  have len: "strlen l = length cs" "strlen r = length ds" using assms by (simp_all add: chars_strlen)
  have enc: "encoding_compare l r = Some (compare_points cs ds)"
    using encoding_compare_from_chars [OF assms, of 0] len compare_points_Nil [of cs] compare_points_Nil(2) [of ds]
    by (auto simp: encoding_compare_def iter_at_0)
  have fx: "fixed8_compare l r = Some (compare_points cs ds)" if e: "is_fixed8 (encoding l)"
  proof (cases "is_fixed8 (encoding r)")
    case True
    obtain p where p: "strstart l = map ucast cs @ p" "\<forall>c \<in> set cs. c < 256" by (rule fixed8_chars [OF assms(1) e])
    obtain q where q: "strstart r = map ucast ds @ q" "\<forall>c \<in> set ds. c < 256" by (rule fixed8_chars [OF assms(2) True])
    from memcmp_compare_points [OF p(2) q(2), of p q] obtain v where
      v: "memcmp (strstart l) (strstart r) (min (length cs) (length ds)) = Some v"
      "(if v \<noteq> 0 then (if v < 0 then - 1 else 1) else compare_lengths (length cs) (length ds)) = compare_points cs ds"
      unfolding p(1) q(1) by blast
    have "STRING_max_bytes_per_codepoint r = 1" using True max_bytes_1 by blast
    then show ?thesis unfolding fixed8_compare_def Let_def len v(1) v(2) [symmetric]
      using v(2) compare_points_Nil [of cs] compare_points_Nil(2) [of ds] by auto
  next
    case False
    then show ?thesis using fixed8_compare_from_chars [OF assms(1) e assms(2), of 0] len compare_points_Nil [of cs]
        compare_points_Nil(2) [of ds]
      by (auto simp: fixed8_compare_def iter_at_0 max_bytes_Suc Let_def)
  qed
  show ?thesis using enc fx by (simp add: STRING_compare_def)
qed

end
