(* ===== verification/Str_Search_Rep.thy ===== *)
theory Str_Search_Rep
  imports Str_Shared_Rep
begin

text \<open>
  The searches of \<open>Str_Shared\<close>: where the code points of one string occur in another.
\<close>

definition occurs :: "u64 list \<Rightarrow> u64 list \<Rightarrow> nat \<Rightarrow> bool" where
  "occurs ds cs k \<longleftrightarrow> k + length ds \<le> length cs \<and> take (length ds) (drop k cs) = ds"

lemma match_from_chars:
  assumes "chars s cs" "chars t ds" "k + n \<le> length cs" "j + n \<le> length ds"
  shows "\<exists>it. match_from s t n (str_iter s cs k) (str_iter t ds j) = Some (take n (drop k cs) = take n (drop j ds), it)
    \<and> (take n (drop k cs) = take n (drop j ds) \<longrightarrow> it = str_iter s cs (k + n))"
  using assms(3,4)
proof (induction n arbitrary: k j)
  case (Suc n)
  have kj: "k < length cs" "j < length ds" "Suc k + n \<le> length cs" "Suc j + n \<le> length ds" using Suc.prems by simp_all
  show ?case unfolding drop_step [OF kj(1)] drop_step [OF kj(2)]
    using Suc.IH [OF kj(3,4)] STRING_get_and_advance [OF assms(1) kj(1)] STRING_get_and_advance [OF assms(2) kj(2)] by auto
qed simp

text \<open>The first character and then the rest, as both loops try it at position \<open>k\<close>.\<close>

lemma match_rest:
  assumes "chars s cs" "chars t ds" "ds \<noteq> []" "k + length ds \<le> length cs" "cs ! k = hd ds"
  obtains found it where "match_from s t (length ds - 1) (str_iter s cs (Suc k)) (str_iter t ds 1) = Some (found, it)"
    "found \<longleftrightarrow> occurs ds cs k" "found \<Longrightarrow> it = str_iter s cs (k + length ds)"
proof -
  obtain d ds' where ds: "ds = d # ds'" using assms(3) by (cases ds) auto
  have k: "k < length cs" "Suc k + length ds' \<le> length cs" using assms(4) ds by simp_all
  have occ: "occurs ds cs k \<longleftrightarrow> take (length ds') (drop (Suc k) cs) = take (length ds') (drop 1 ds)"
    using assms(4,5) ds k by (simp add: occurs_def drop_step)
  from match_from_chars [OF assms(1,2) k(2), of 1] ds obtain it where
    "match_from s t (length ds') (str_iter s cs (Suc k)) (str_iter t ds 1) = Some (occurs ds cs k, it)"
    "occurs ds cs k \<longrightarrow> it = str_iter s cs (k + length ds)" unfolding occ by auto
  then show thesis using that ds by simp
qed

lemma not_occurs_head: "ds \<noteq> [] \<Longrightarrow> cs ! k \<noteq> hd ds \<Longrightarrow> k < length cs \<Longrightarrow> \<not> occurs ds cs k"
  by (cases ds) (auto simp: occurs_def drop_step)

definition first_occurrence :: "u64 list \<Rightarrow> u64 list \<Rightarrow> nat \<Rightarrow> int \<Rightarrow> bool" where
  "first_occurrence ds cs k r \<longleftrightarrow>
     (r = - 1 \<and> (\<forall>i \<ge> k. \<not> occurs ds cs i)
      \<or> (\<exists>j \<ge> k. r = int j \<and> occurs ds cs j \<and> (\<forall>i. k \<le> i \<and> i < j \<longrightarrow> \<not> occurs ds cs i)))"

lemma first_occurrence_Suc: "\<not> occurs ds cs k \<Longrightarrow> first_occurrence ds cs (Suc k) r \<Longrightarrow> first_occurrence ds cs k r"
  unfolding first_occurrence_def by (metis Suc_leD le_eq_less_or_eq Suc_leI)

lemma str_index_from_chars:
  assumes "chars s cs" "chars t ds" "ds \<noteq> []" "k + length ds + n = length cs + 1 \<or> (n = 0 \<and> length cs < k + length ds)"
  shows "\<exists>r st en. str_index_from s t (hd ds) (str_iter t ds 1) n (str_iter s cs k) en0 = Some (r, st, en)
    \<and> first_occurrence ds cs k r \<and> (r \<noteq> - 1 \<longrightarrow> st = str_iter s cs (nat r) \<and> en = str_iter s cs (nat r + length ds))"
  using assms(4)
proof (induction n arbitrary: k en0)
  case 0
  then have "\<forall>i \<ge> k. \<not> occurs ds cs i" by (auto simp: occurs_def)
  then show ?case by (simp add: first_occurrence_def)
next
  case (Suc n)
  have k: "k + length ds \<le> length cs" "Suc k + length ds + n = length cs + 1" using Suc.prems by simp_all
  have k': "k < length cs" using k(1) assms(3) by (cases ds) simp_all
  note get = STRING_get_and_advance [OF assms(1) k']
  have more: "\<exists>r st en. str_index_from s t (hd ds) (str_iter t ds 1) n (str_iter s cs (Suc k)) en1 = Some (r, st, en)
    \<and> first_occurrence ds cs k r \<and> (r \<noteq> - 1 \<longrightarrow> st = str_iter s cs (nat r) \<and> en = str_iter s cs (nat r + length ds))"
    if "\<not> occurs ds cs k" for en1
    using Suc.IH [of "Suc k" en1] k(2) first_occurrence_Suc [OF that] by auto
  show ?case
  proof (cases "cs ! k = hd ds")
    case False
    then show ?thesis using more [OF not_occurs_head [OF assms(3) False k']] get by simp
  next
    case True
    obtain found it where m: "match_from s t (length ds - 1) (str_iter s cs (Suc k)) (str_iter t ds 1) = Some (found, it)"
      "found \<longleftrightarrow> occurs ds cs k" "found \<Longrightarrow> it = str_iter s cs (k + length ds)"
      using match_rest [OF assms(1-3) k(1) True] by blast
    show ?thesis
    proof (cases "occurs ds cs k")
      case False
      then show ?thesis using more [OF False, of it] get m True chars_strlen [OF assms(2)] by simp
    next
      case occ: True
      have "first_occurrence ds cs k (int k)" using occ by (auto simp: first_occurrence_def)
      then show ?thesis using get m True occ chars_strlen [OF assms(2)] by simp
    qed
  qed
qed

lemma Parrot_str_iter_index_chars:
  assumes "chars s cs" "chars t ds" "ds \<noteq> []" "k \<le> length cs"
  shows "\<exists>r st en. Parrot_str_iter_index s (str_iter s cs k) en0 t = Some (r, st, en)
    \<and> first_occurrence ds cs k r \<and> (r \<noteq> - 1 \<longrightarrow> st = str_iter s cs (nat r) \<and> en = str_iter s cs (nat r + length ds))"
proof -
  have len: "strlen s = length cs" "strlen t = length ds" using assms(1,2) by (simp_all add: chars_strlen)
  have "STRING_iter_get_and_advance t STRING_ITER_INIT = Some (hd ds, str_iter t ds 1)"
    using STRING_get_and_advance [OF assms(2), of 0] assms(3) by (simp add: iter_at_0 hd_conv_nth)
  moreover have "k + length ds + (length cs + 1 - (k + length ds)) = length cs + 1
      \<or> (length cs + 1 - (k + length ds) = 0 \<and> length cs < k + length ds)" by arith
  note str_index_from_chars [OF assms(1-3) this, of en0]
  ultimately show ?thesis using assms(3) len by (simp add: Parrot_str_iter_index_def)
qed

lemma encoding_index_chars:
  assumes "chars s cs" "chars t ds" "ds \<noteq> []" "0 \<le> off" "off < int (length cs)"
  shows "\<exists>r. encoding_index s t off = Some r \<and> first_occurrence ds cs (nat off) r"
proof -
  have len: "strlen s = length cs" "strlen t = length ds" using assms(1,2) by (simp_all add: chars_strlen)
  have "STRING_iter_skip s STRING_ITER_INIT off = Some (str_iter s cs (nat off))"
    using STRING_skip [OF assms(1), of 0 off "nat off"] assms(4,5) by (simp add: iter_at_0 move_def)
  moreover have "nat off \<le> length cs" using assms(5) by simp
  from Parrot_str_iter_index_chars [OF assms(1-3) this, of "str_iter s cs (nat off)"]
  obtain r st en where "Parrot_str_iter_index s (str_iter s cs (nat off)) (str_iter s cs (nat off)) t = Some (r, st, en)"
    "first_occurrence ds cs (nat off) r" by blast
  ultimately show ?thesis using assms(3-5) len by (simp add: encoding_index_def)
qed

definition last_occurrence :: "u64 list \<Rightarrow> u64 list \<Rightarrow> nat \<Rightarrow> int \<Rightarrow> bool" where
  "last_occurrence ds cs k r \<longleftrightarrow>
     (r = - 1 \<and> (\<forall>i \<le> k. \<not> occurs ds cs i)
      \<or> (\<exists>j \<le> k. r = int j \<and> occurs ds cs j \<and> (\<forall>i. j < i \<and> i \<le> k \<longrightarrow> \<not> occurs ds cs i)))"

lemma last_occurrence_Suc: "\<not> occurs ds cs (Suc k) \<Longrightarrow> last_occurrence ds cs k r \<Longrightarrow> last_occurrence ds cs (Suc k) r"
  unfolding last_occurrence_def by (metis le_Suc_eq le_SucI)

lemma last_occurrence_extend:
  assumes "last_occurrence ds cs k r" "k \<le> m" "\<And>i. k < i \<Longrightarrow> i \<le> m \<Longrightarrow> \<not> occurs ds cs i"
  shows "last_occurrence ds cs m r"
  using assms(2,3,1)
proof (induction m rule: dec_induct)
  case (step m)
  have "last_occurrence ds cs m r" by (rule step.IH) (use step.prems in auto)
  then show ?case using step.hyps step.prems(1) last_occurrence_Suc by auto
qed simp

lemma rindex_from_chars:
  assumes "chars s cs" "chars t ds" "ds \<noteq> []" "k + length ds \<le> length cs"
  shows "\<exists>r. rindex_from s t (hd ds) (str_iter t ds 1) k (str_iter s cs k) = Some r \<and> last_occurrence ds cs k r"
  using assms(4)
proof (induction k)
  case 0
  have k: "0 < length cs" using 0 assms(3) by (cases ds; cases cs) simp_all
  have get: "STRING_iter_get s (str_iter s cs 0) 0 = Some (cs ! 0)" by (rule STRING_get [OF assms(1)]) (use k in simp_all)
  have skip: "STRING_iter_skip s (str_iter s cs 0) 1 = Some (str_iter s cs 1)"
    by (rule STRING_skip [OF assms(1)]) (use k in \<open>simp_all add: move_def Suc_le_eq\<close>)
  have len: "strlen t = length ds" using assms(2) by (rule chars_strlen)
  show ?case
  proof (cases "cs ! 0 = hd ds")
    case False
    then show ?thesis using not_occurs_head [OF assms(3) False k] get
      by (subst rindex_from.simps) (simp add: last_occurrence_def)
  next
    case True
    obtain found it where m: "match_from s t (length ds - 1) (str_iter s cs (Suc 0)) (str_iter t ds 1) = Some (found, it)"
      "found \<longleftrightarrow> occurs ds cs 0" using match_rest [OF assms(1-3) 0 True] by blast
    then show ?thesis using get skip True len
      by (subst rindex_from.simps) (simp add: last_occurrence_def)
  qed
next
  case (Suc k)
  have k: "Suc k < length cs" using Suc.prems assms(3) by (cases ds) simp_all
  have get: "STRING_iter_get s (str_iter s cs (Suc k)) 0 = Some (cs ! Suc k)" by (rule STRING_get [OF assms(1)]) (use k in simp_all)
  have skip: "STRING_iter_skip s (str_iter s cs (Suc k)) 1 = Some (str_iter s cs (Suc (Suc k)))"
    by (rule STRING_skip [OF assms(1)]) (use k in \<open>simp_all add: move_def\<close>)
  have prev: "STRING_iter_skip s (str_iter s cs (Suc k)) (- 1) = Some (str_iter s cs k)"
    by (rule STRING_skip [OF assms(1)]) (use k in \<open>simp_all add: move_def\<close>)
  have len: "strlen t = length ds" using assms(2) by (rule chars_strlen)
  obtain r where r: "rindex_from s t (hd ds) (str_iter t ds 1) k (str_iter s cs k) = Some r" "last_occurrence ds cs k r"
    using Suc by auto
  show ?case
  proof (cases "cs ! Suc k = hd ds")
    case False
    then show ?thesis using r last_occurrence_Suc [OF not_occurs_head [OF assms(3) False k] r(2)] get prev
      by (subst rindex_from.simps) simp
  next
    case True
    obtain found it where m: "match_from s t (length ds - 1) (str_iter s cs (Suc (Suc k))) (str_iter t ds 1) = Some (found, it)"
      "found \<longleftrightarrow> occurs ds cs (Suc k)" using match_rest [OF assms(1-3) Suc.prems True] by blast
    show ?thesis
    proof (cases "occurs ds cs (Suc k)")
      case occ: True
      then have "last_occurrence ds cs (Suc k) (int (Suc k))" by (auto simp: last_occurrence_def)
      then show ?thesis using get skip m True len occ by (subst rindex_from.simps) simp
    next
      case False
      then show ?thesis using r last_occurrence_Suc [OF False r(2)] get skip prev m True len
        by (subst rindex_from.simps) simp
    qed
  qed
qed

lemma encoding_rindex_chars:
  assumes "chars s cs" "chars t ds" "ds \<noteq> []" "0 \<le> off"
  shows "\<exists>r. encoding_rindex s t off = Some r \<and> last_occurrence ds cs (nat off) r"
proof -
  have len: "strlen s = length cs" "strlen t = length ds" using assms(1,2) by (simp_all add: chars_strlen)
  show ?thesis
  proof (cases "length cs < length ds")
    case True
    then show ?thesis using len assms(3,4) by (simp add: encoding_rindex_def last_occurrence_def occurs_def)
  next
    case False
    define k where "k = min (nat off) (length cs - length ds)"
    have k: "k + length ds \<le> length cs" using False by (auto simp: k_def)
    have m: "move 0 (min off (int (length cs - length ds))) = Some k" using assms(4) by (auto simp: move_def k_def min_def)
    have "STRING_iter_skip s STRING_ITER_INIT (min off (int (length cs - length ds))) = Some (str_iter s cs k)"
      using STRING_skip [OF assms(1) _ m] k by (simp add: iter_at_0)
    moreover have "STRING_iter_get_and_advance t STRING_ITER_INIT = Some (hd ds, str_iter t ds 1)"
      using STRING_get_and_advance [OF assms(2), of 0] assms(3) by (simp add: iter_at_0 hd_conv_nth)
    moreover from rindex_from_chars [OF assms(1-3) k] obtain r where
      r: "rindex_from s t (hd ds) (str_iter t ds 1) k (str_iter s cs k) = Some r" "last_occurrence ds cs k r" by blast
    moreover have "last_occurrence ds cs (nat off) r"
    proof -
      have "\<not> occurs ds cs i" if "k < i" "i \<le> nat off" for i
        using that False by (auto simp: k_def occurs_def min_def split: if_splits)
      moreover have "k \<le> nat off" by (simp add: k_def)
      ultimately show ?thesis using last_occurrence_extend [OF r(2)] by blast
    qed
    ultimately show ?thesis using False assms(3,4) len by (simp add: encoding_rindex_def)
  qed
qed

end
