(* ===== verification/Str_Convert.thy ===== *)
theory Str_Convert
  imports Str_Search_Rep
begin

text \<open>
  Functions that make strings: copies and substrings, the conversions between encodings
  (\<open>src/string/encoding/shared.c\<close> and the \<open>to_encoding\<close> entries).

  A copy that shares its storage is the same value.  What fresh memory holds is an
  argument, \<open>junk\<close>; the product \<open>(UINTVAL)(n * avg_bytes)\<close> of the allocation estimates is
  a function of \<open>n\<close>, \<open>avg\<close>.
\<close>

definition alloc_bytes :: "(nat \<Rightarrow> u8) \<Rightarrow> nat \<Rightarrow> u8 list" where
  "alloc_bytes junk n = map junk [0..<n]"

definition realloc_bytes :: "(nat \<Rightarrow> u8) \<Rightarrow> u8 list \<Rightarrow> nat \<Rightarrow> u8 list" where
  "realloc_bytes junk m n = take n m @ map junk [length m..<n]"

text \<open>\<open>memcpy\<close> of \<open>n\<close> bytes to position \<open>p\<close>.\<close>

definition memcpy :: "u8 list \<Rightarrow> nat \<Rightarrow> u8 list \<Rightarrow> nat \<Rightarrow> u8 list option" where
  "memcpy dst p src n =
     (if n \<le> length src \<and> p + n \<le> length dst then Some (take p dst @ take n src @ drop (p + n) dst) else None)"

section \<open>Copies and substrings\<close>

definition Parrot_str_copy :: "parrot_string \<Rightarrow> parrot_string" where
  "Parrot_str_copy s = s"

definition Parrot_str_clone :: "(nat \<Rightarrow> u8) \<Rightarrow> parrot_string \<Rightarrow> parrot_string option" where
  "Parrot_str_clone junk s =
     do {
       m \<leftarrow> (if bufused s \<noteq> 0 then memcpy (alloc_bytes junk (bufused s)) 0 (strstart s) (bufused s) else Some []);
       Some \<lparr>strstart = m, bufused = bufused s, strlen = strlen s, hashval = hashval s, encoding = encoding s\<rparr>
     }"

text \<open>\<open>Parrot_str_new_constant(interp, "")\<close>: the terminating zero in the default encoding.\<close>

definition empty_constant :: parrot_string where
  "empty_constant = \<lparr>strstart = [0], bufused = 0, strlen = 0, hashval = 0, encoding = Parrot_ascii_encoding_ptr\<rparr>"

definition encoding_substr :: "parrot_string \<Rightarrow> int \<Rightarrow> int \<Rightarrow> parrot_string outcome" where
  "encoding_substr src offset len =
     (let offset = (if offset < 0 then offset + int (strlen src) else offset) in
      if offset < 0 \<or> int (strlen src) \<le> offset \<or> len \<le> 0
      then (if offset = int (strlen src) \<or> len \<le> 0 then Done empty_constant
            else Thrown ''Cannot take substr outside string'')
      else if offset = 0 \<and> int (strlen src) \<le> len then Done (Parrot_str_copy src)
      else defined (do {
        iter \<leftarrow> (if offset \<noteq> 0 then STRING_iter_skip src STRING_ITER_INIT offset else Some STRING_ITER_INIT);
        let start = bytepos iter;
        c_assert (start \<le> length (strstart src));
        let return_string = (Parrot_str_copy src)\<lparr>strstart := drop start (strstart src), hashval := 0\<rparr>;
        if int (strlen src) - offset \<le> len
        then do {
          used \<leftarrow> move (bufused src) (- int start);
          Some (return_string\<lparr>bufused := used, strlen := strlen src - nat offset\<rparr>)
        }
        else do {
          iter \<leftarrow> STRING_iter_skip src iter len;
          used \<leftarrow> move (bytepos iter) (- int start);
          Some (return_string\<lparr>bufused := used, strlen := nat len\<rparr>)
        }
      }))"

definition fixed_substr :: "parrot_string \<Rightarrow> int \<Rightarrow> int \<Rightarrow> parrot_string outcome" where
  "fixed_substr src offset len =
     (let offset = (if offset < 0 then offset + int (strlen src) else offset) in
      if offset < 0 \<or> int (strlen src) \<le> offset \<or> len \<le> 0
      then (if offset = int (strlen src) \<or> len \<le> 0 then Done empty_constant
            else Thrown ''Cannot take substr outside string'')
      else if offset = 0 \<and> int (strlen src) \<le> len then Done (Parrot_str_copy src)
      else
        let bytes_per_codepoint = STRING_max_bytes_per_codepoint src;
            maxlen = strlen src - nat offset;
            len = min (nat len) maxlen;
            start = nat offset * bytes_per_codepoint
        in defined (do {
          c_assert (start \<le> length (strstart src));
          Some ((Parrot_str_copy src)\<lparr>strstart := drop start (strstart src),
            bufused := len * bytes_per_codepoint, strlen := len, hashval := 0\<rparr>)
        }))"

definition STRING_substr :: "parrot_string \<Rightarrow> int \<Rightarrow> int \<Rightarrow> parrot_string outcome" where
  "STRING_substr src offset len =
     (if encoding src \<in> {Parrot_utf8_encoding_ptr, Parrot_utf16_encoding_ptr}
      then encoding_substr src offset len else fixed_substr src offset len)"

definition Parrot_str_iter_substr :: "parrot_string \<Rightarrow> string_iter \<Rightarrow> string_iter option \<Rightarrow> parrot_string option" where
  "Parrot_str_iter_substr str l r =
     do {
       c_assert (bytepos l \<le> length (strstart str));
       let end = (case r of None \<Rightarrow> \<lparr>bytepos = bufused str, charpos = strlen str\<rparr> | Some r \<Rightarrow> r);
       used \<leftarrow> move (bytepos end) (- int (bytepos l));
       len \<leftarrow> move (charpos end) (- int (charpos l));
       Some ((Parrot_str_copy str)\<lparr>strstart := drop (bytepos l) (strstart str), bufused := used, strlen := len, hashval := 0\<rparr>)
     }"

section \<open>Conversion between encodings\<close>

text \<open>The loop; \<open>n\<close> characters of the source are left.\<close>

fun to_encoding_from :: "(nat \<Rightarrow> nat) \<Rightarrow> (nat \<Rightarrow> u8) \<Rightarrow> nat \<Rightarrow> parrot_string \<Rightarrow> nat \<Rightarrow> string_iter \<Rightarrow> parrot_string
    \<Rightarrow> string_iter \<Rightarrow> (parrot_string \<times> string_iter) outcome" where
  "to_encoding_from avg junk max_bytes src 0 src_iter result dest_iter = Done (result, dest_iter)"
| "to_encoding_from avg junk max_bytes src (Suc n) src_iter result dest_iter =
     obind (defined (STRING_iter_get_and_advance src src_iter)) (\<lambda>(c, src_iter).
     let needed = bytepos dest_iter + max_bytes;
         result = (if needed > bufused result
                   then (let alloc = avg (strlen src - charpos src_iter) + needed
                         in result\<lparr>strstart := realloc_bytes junk (strstart result) alloc, bufused := alloc\<rparr>)
                   else result)
     in obind (STRING_iter_set_and_advance result dest_iter c) (\<lambda>(result, dest_iter).
        to_encoding_from avg junk max_bytes src n src_iter result dest_iter))"

definition encoding_to_encoding :: "(nat \<Rightarrow> nat) \<Rightarrow> (nat \<Rightarrow> u8) \<Rightarrow> parrot_string \<Rightarrow> encoding_ptr \<Rightarrow> parrot_string outcome" where
  "encoding_to_encoding avg junk src enc =
     (let max_bytes = max_bytes_per_codepoint (vtable_of enc);
          src_len = strlen src;
          result = \<lparr>strstart = [], bufused = 0, strlen = src_len, hashval = 0, encoding = enc\<rparr>
      in if encoding src = enc then defined (Parrot_str_clone junk src)
         else if src_len = 0 then Done result
         else
           let alloc = max (avg src_len) max_bytes
           in obind (to_encoding_from avg junk max_bytes src src_len STRING_ITER_INIT
                  (result\<lparr>strstart := alloc_bytes junk alloc, bufused := alloc\<rparr>) STRING_ITER_INIT) (\<lambda>(result, dest_iter).
              Done (result\<lparr>bufused := bytepos dest_iter\<rparr>)))"

fun fixed8_check_limit :: "u8 list \<Rightarrow> u64 \<Rightarrow> nat \<Rightarrow> nat \<Rightarrow> unit outcome" where
  "fixed8_check_limit ptr limit 0 i = Done ()"
| "fixed8_check_limit ptr limit (Suc n) i =
     obind (defined (rd ptr i)) (\<lambda>b.
     if ucast b \<ge> limit then Thrown ''Lossy conversion to single byte encoding''
     else fixed8_check_limit ptr limit n (i + 1))"

fun fixed8_convert_from :: "parrot_string \<Rightarrow> u64 \<Rightarrow> nat \<Rightarrow> string_iter \<Rightarrow> u8 list \<Rightarrow> nat \<Rightarrow> u8 list outcome" where
  "fixed8_convert_from src limit 0 iter m ptr = Done m"
| "fixed8_convert_from src limit (Suc n) iter m ptr =
     obind (defined (STRING_iter_get_and_advance src iter)) (\<lambda>(c, iter).
     if c \<ge> limit then Thrown ''Lossy conversion to single byte encoding''
     else obind (defined (wr m ptr (ucast c))) (\<lambda>m. fixed8_convert_from src limit n iter m (ptr + 1)))"

definition fixed8_to_encoding :: "(nat \<Rightarrow> u8) \<Rightarrow> parrot_string \<Rightarrow> encoding_ptr \<Rightarrow> parrot_string outcome" where
  "fixed8_to_encoding junk src enc =
     (let limit = (if enc = Parrot_ascii_encoding_ptr then 0x80 else 0x100) in
      if STRING_max_bytes_per_codepoint src = 1
      then obind (if limit < 0x100 then fixed8_check_limit (strstart src) limit (strlen src) 0 else Done ()) (\<lambda>_.
        Done ((Parrot_str_copy src)\<lparr>encoding := enc\<rparr>))
      else
        let len = strlen src
        in obind (fixed8_convert_from src limit len STRING_ITER_INIT (alloc_bytes junk len) 0) (\<lambda>m.
           Done \<lparr>strstart = m, bufused = len, strlen = len, hashval = 0, encoding = enc\<rparr>))"

definition utf8_to_encoding :: "(nat \<Rightarrow> nat) \<Rightarrow> (nat \<Rightarrow> u8) \<Rightarrow> parrot_string \<Rightarrow> parrot_string outcome" where
  "utf8_to_encoding avg junk src =
     (if encoding src = Parrot_ascii_encoding_ptr
      then obind (defined (Parrot_str_clone junk src)) (\<lambda>result. Done (result\<lparr>encoding := Parrot_utf8_encoding_ptr\<rparr>))
      else encoding_to_encoding avg junk src Parrot_utf8_encoding_ptr)"

fun widen_bytes :: "(u8 list \<Rightarrow> nat \<Rightarrow> u64 \<Rightarrow> u8 list option) \<Rightarrow> nat \<Rightarrow> u8 list \<Rightarrow> nat \<Rightarrow> nat \<Rightarrow> u8 list \<Rightarrow> u8 list option" where
  "widen_bytes wru width s 0 i m = Some m"
| "widen_bytes wru width s (Suc n) i m =
     do { b \<leftarrow> rd s i; m \<leftarrow> wru m (width * i) (ucast b); widen_bytes wru width s n (i + 1) m }"

definition utf16_to_encoding :: "(nat \<Rightarrow> nat) \<Rightarrow> (nat \<Rightarrow> u8) \<Rightarrow> parrot_string \<Rightarrow> parrot_string outcome" where
  "utf16_to_encoding avg junk src =
     (let src_len = strlen src in
      if STRING_max_bytes_per_codepoint src = 1
      then obind (defined (if src_len \<noteq> 0 then widen_bytes wr16 2 (strstart src) src_len 0 (alloc_bytes junk (2 * src_len)) else Some [])) (\<lambda>m.
        Done \<lparr>strstart = m, bufused = 2 * src_len, strlen = src_len, hashval = 0, encoding = Parrot_ucs2_encoding_ptr\<rparr>)
      else if encoding src = Parrot_utf16_encoding_ptr \<or> encoding src = Parrot_ucs2_encoding_ptr
      then defined (Parrot_str_clone junk src)
      else obind (encoding_to_encoding avg junk src Parrot_utf16_encoding_ptr) (\<lambda>result.
        Done (if bufused result = 2 * strlen result then result\<lparr>encoding := Parrot_ucs2_encoding_ptr\<rparr> else result)))"

definition ucs2_to_encoding :: "(nat \<Rightarrow> nat) \<Rightarrow> (nat \<Rightarrow> u8) \<Rightarrow> parrot_string \<Rightarrow> parrot_string outcome" where
  "ucs2_to_encoding avg junk src =
     obind (utf16_to_encoding avg junk src) (\<lambda>result.
       if encoding result = Parrot_utf16_encoding_ptr then Thrown ''Lossy conversion to UCS-2'' else Done result)"

fun ucs4_convert_from :: "parrot_string \<Rightarrow> nat \<Rightarrow> string_iter \<Rightarrow> u8 list \<Rightarrow> u8 list option" where
  "ucs4_convert_from src 0 iter m = Some m"
| "ucs4_convert_from src (Suc n) iter m =
     do {
       (c, iter') \<leftarrow> STRING_iter_get_and_advance src iter;
       m \<leftarrow> wr32 m (4 * charpos iter) c;
       ucs4_convert_from src n iter' m
     }"

definition ucs4_to_encoding :: "(nat \<Rightarrow> u8) \<Rightarrow> parrot_string \<Rightarrow> parrot_string outcome" where
  "ucs4_to_encoding junk src =
     (let len = strlen src in
      if encoding src = Parrot_ucs4_encoding_ptr then Done (Parrot_str_copy src)
      else obind (defined
        (if STRING_max_bytes_per_codepoint src = 1
         then widen_bytes wr32 4 (strstart src) len 0 (alloc_bytes junk (len * 4))
         else ucs4_convert_from src len STRING_ITER_INIT (alloc_bytes junk (len * 4)))) (\<lambda>m.
        Done \<lparr>strstart = m, bufused = len * 4, strlen = len, hashval = 0, encoding = Parrot_ucs4_encoding_ptr\<rparr>))"

fun STRING_to_encoding :: "(nat \<Rightarrow> nat) \<Rightarrow> (nat \<Rightarrow> u8) \<Rightarrow> encoding_ptr \<Rightarrow> parrot_string \<Rightarrow> parrot_string outcome" where
  "STRING_to_encoding avg junk Parrot_utf8_encoding_ptr src = utf8_to_encoding avg junk src"
| "STRING_to_encoding avg junk Parrot_utf16_encoding_ptr src = utf16_to_encoding avg junk src"
| "STRING_to_encoding avg junk Parrot_ucs2_encoding_ptr src = ucs2_to_encoding avg junk src"
| "STRING_to_encoding avg junk Parrot_ucs4_encoding_ptr src = ucs4_to_encoding junk src"
| "STRING_to_encoding avg junk enc src = fixed8_to_encoding junk src enc"

end
