(* ===== verification/Str_Convert_Rep.thy ===== *)
theory Str_Convert_Rep
  imports Str_Convert
begin

text \<open>
  Substrings and conversions in terms of the code points of the strings.
\<close>

section \<open>Substrings\<close>

lemma chars_iff:
  "chars s cs \<longleftrightarrow> (\<forall>c \<in> set cs. valid_in (encoding s) c) \<and> strlen s = length cs
    \<and> bufused s = length (bytes_of (encoding s) cs) \<and> (\<exists>post. strstart s = bytes_of (encoding s) cs @ post)"
  by (simp add: chars_def holds_def)

lemma chars_slice:
  assumes "chars s cs" "k + n \<le> length cs" "encoding r = encoding s" "strlen r = n"
    and "strstart r = drop (length (bytes_of (encoding s) (take k cs))) (strstart s)"
    and "bufused r = length (bytes_of (encoding s) (take n (drop k cs)))"
  shows "chars r (take n (drop k cs))"
proof -
  obtain post where s: "strstart s = bytes_of (encoding s) cs @ post" "\<forall>c \<in> set cs. valid_in (encoding s) c"
    using assms(1) by (auto simp: chars_iff)
  have "drop k cs = take n (drop k cs) @ drop (k + n) cs"
    using append_take_drop_id [of n "drop k cs"] by (simp add: add.commute)
  then have "cs = take k cs @ take n (drop k cs) @ drop (k + n) cs" using append_take_drop_id [of k cs] by simp
  then have "strstart s = bytes_of (encoding s) (take k cs) @ bytes_of (encoding s) (take n (drop k cs))
      @ bytes_of (encoding s) (drop (k + n) cs) @ post"
    unfolding s(1) by (metis append.assoc concat_append map_append)
  then have "strstart r = bytes_of (encoding s) (take n (drop k cs)) @ bytes_of (encoding s) (drop (k + n) cs) @ post"
    unfolding assms(5) by simp
  moreover have "\<forall>c \<in> set (take n (drop k cs)). valid_in (encoding s) c"
    using s(2) by (auto dest: in_set_takeD in_set_dropD)
  ultimately show ?thesis using assms(2-4,6) by (auto simp: chars_iff)
qed

lemma bytes_of_take:
  assumes "k + n \<le> length cs"
  shows "length (bytes_of e (take (k + n) cs)) = length (bytes_of e (take k cs)) + length (bytes_of e (take n (drop k cs)))"
  by (simp add: take_add)

text \<open>What \<open>substr\<close> promises, on code points.\<close>

definition substr_points :: "u64 list \<Rightarrow> int \<Rightarrow> int \<Rightarrow> u64 list outcome" where
  "substr_points cs offset len =
     (let n = int (length cs); offset = (if offset < 0 then offset + n else offset) in
      if len \<le> 0 \<or> offset = n then Done []
      else if offset < 0 \<or> n < offset then Thrown ''Cannot take substr outside string''
      else Done (take (nat len) (drop (nat offset) cs)))"

lemma empty_constant_chars: "chars empty_constant []"
  by (simp add: chars_iff empty_constant_def)

lemma chars_used: "chars s cs \<Longrightarrow> bufused s = length (bytes_of (encoding s) cs)" "chars s cs \<Longrightarrow> bufused s \<le> length (strstart s)"
  by (auto simp: chars_iff)

lemma encoding_substr_inside:
  assumes s: "chars s cs" and k: "k < length cs" and n: "0 < n"
  shows "\<exists>r. encoding_substr s (int k) (int n) = Done r \<and> chars r (take n (drop k cs)) \<and> encoding r = encoding s"
proof -
  have len: "strlen s = length cs" using s by (rule chars_strlen)
  let ?b = "length (bytes_of (encoding s) (take k cs))"
  have iter: "STRING_iter_skip s STRING_ITER_INIT (int k) = Some (str_iter s cs k)"
    using STRING_skip [OF s, of 0 "int k" k] k by (simp add: iter_at_0 move_def)
  have start: "c_assert (?b \<le> length (strstart s)) = Some ()"
    using chars_used [OF s] length_chunks_take [of "chunk_of (encoding s)" k cs] by simp
  show ?thesis
  proof (cases "k = 0 \<and> length cs \<le> n")
    case True
    then show ?thesis using s k len n by (simp add: encoding_substr_def Parrot_str_copy_def)
  next
    case whole: False
    let ?copy = "(Parrot_str_copy s)\<lparr>strstart := drop ?b (strstart s), hashval := 0\<rparr>"
    have eq: "encoding_substr s (int k) (int n) = defined (if int (length cs) - int k \<le> int n
        then do { used \<leftarrow> move (bufused s) (- int ?b); Some (?copy\<lparr>bufused := used, strlen := length cs - k\<rparr>) }
        else do { iter \<leftarrow> STRING_iter_skip s (str_iter s cs k) (int n); used \<leftarrow> move (bytepos iter) (- int ?b);
          Some (?copy\<lparr>bufused := used, strlen := n\<rparr>) })"
    proof (cases "k = 0")
      case True
      then show ?thesis using whole k n by (simp add: encoding_substr_def Let_def len iter_at_0) (simp add: STRING_ITER_INIT_def)
    next
      case False
      then show ?thesis using k n start iter by (simp add: encoding_substr_def Let_def len)
    qed
    show ?thesis
    proof (cases "length cs - k \<le> n")
      case True
      have t: "take n (drop k cs) = take (length cs - k) (drop k cs)" using True by simp
      have "bufused s = ?b + length (bytes_of (encoding s) (take (length cs - k) (drop k cs)))"
        using bytes_of_take [of k "length cs - k" cs "encoding s"] k chars_used(1) [OF s] by simp
      then have "move (bufused s) (- int ?b) = Some (length (bytes_of (encoding s) (take (length cs - k) (drop k cs))))"
        by (simp add: move_def)
      moreover have "chars (?copy\<lparr>bufused := length (bytes_of (encoding s) (take (length cs - k) (drop k cs))), strlen := length cs - k\<rparr>)
          (take (length cs - k) (drop k cs))"
        by (rule chars_slice [OF s]) (use k in \<open>simp_all add: Parrot_str_copy_def\<close>)
      moreover have "int (length cs) - int k \<le> int n" using True k by linarith
      ultimately show ?thesis unfolding eq t by (simp add: Parrot_str_copy_def)
    next
      case False
      have "STRING_iter_skip s (str_iter s cs k) (int n) = Some (str_iter s cs (k + n))"
        by (rule STRING_skip [OF s]) (use False k in \<open>simp_all add: move_def nat_add_distrib\<close>)
      moreover have "move (length (bytes_of (encoding s) (take (k + n) cs))) (- int ?b)
          = Some (length (bytes_of (encoding s) (take n (drop k cs))))"
        using bytes_of_take [of k n cs "encoding s"] False by (simp add: move_def)
      moreover have "chars (?copy\<lparr>bufused := length (bytes_of (encoding s) (take n (drop k cs))), strlen := n\<rparr>) (take n (drop k cs))"
        by (rule chars_slice [OF s]) (use False in \<open>simp_all add: Parrot_str_copy_def\<close>)
      ultimately show ?thesis unfolding eq using False by (auto simp: Parrot_str_copy_def)
    qed
  qed
qed

lemma fixed_width:
  assumes "encoding s \<notin> {Parrot_utf8_encoding_ptr, Parrot_utf16_encoding_ptr}"
  shows "length (bytes_of (encoding s) cs) = STRING_max_bytes_per_codepoint s * length cs"
proof (cases "encoding s")
  case Parrot_ucs2_encoding_ptr
  then show ?thesis by (simp add: STRING_max_bytes_per_codepoint_def Parrot_ucs2_encoding_def u16.chunks)
next
  case Parrot_ucs4_encoding_ptr
  then show ?thesis by (simp add: STRING_max_bytes_per_codepoint_def Parrot_ucs4_encoding_def u32.chunks)
qed (use assms in \<open>simp_all add: STRING_max_bytes_per_codepoint_def Parrot_ascii_encoding_def Parrot_latin1_encoding_def
    Parrot_binary_encoding_def fixed8_vtable_def u8l.chunks\<close>)

lemma fixed_substr_inside:
  assumes s: "chars s cs" and k: "k < length cs" and n: "0 < n"
    and e: "encoding s \<notin> {Parrot_utf8_encoding_ptr, Parrot_utf16_encoding_ptr}"
  shows "\<exists>r. fixed_substr s (int k) (int n) = Done r \<and> chars r (take n (drop k cs)) \<and> encoding r = encoding s"
proof -
  have len: "strlen s = length cs" using s by (rule chars_strlen)
  let ?w = "STRING_max_bytes_per_codepoint s"
  show ?thesis
  proof (cases "k = 0 \<and> length cs \<le> n")
    case True
    then show ?thesis using s k len n by (simp add: fixed_substr_def Parrot_str_copy_def)
  next
    case False
    let ?n = "min n (length cs - k)"
    have start: "length (bytes_of (encoding s) (take k cs)) = k * ?w" unfolding fixed_width [OF e] using k by simp
    have "k * ?w \<le> length (strstart s)"
      using chars_used [OF s] length_chunks_take [of "chunk_of (encoding s)" k cs] start by simp
    then have "fixed_substr s (int k) (int n) = Done ((Parrot_str_copy s)\<lparr>strstart := drop (k * ?w) (strstart s),
        bufused := ?n * ?w, strlen := ?n, hashval := 0\<rparr>)"
      using False k n len by (auto simp: fixed_substr_def Let_def min_def)
    moreover have "chars ((Parrot_str_copy s)\<lparr>strstart := drop (k * ?w) (strstart s),
        bufused := ?n * ?w, strlen := ?n, hashval := 0\<rparr>) (take ?n (drop k cs))"
      by (rule chars_slice [OF s]) (use k start in \<open>simp_all add: Parrot_str_copy_def fixed_width [OF e] mult.commute\<close>)
    moreover have "take ?n (drop k cs) = take n (drop k cs)" by (simp add: min_def)
    ultimately show ?thesis by (simp add: Parrot_str_copy_def)
  qed
qed

lemma substr_offset: "encoding_substr s offset len = encoding_substr s (if offset < 0 then offset + int (strlen s) else offset) len"
  if "0 \<le> offset + int (strlen s)"
  using that by (simp add: encoding_substr_def Let_def)

lemma fixed_substr_offset: "fixed_substr s offset len = fixed_substr s (if offset < 0 then offset + int (strlen s) else offset) len"
  if "0 \<le> offset + int (strlen s)"
  using that by (simp add: fixed_substr_def Let_def)

lemma STRING_substr_chars:
  assumes s: "chars s cs"
  shows "case substr_points cs offset len of
      Done ds \<Rightarrow> \<exists>r. STRING_substr s offset len = Done r \<and> chars r ds
    | Thrown x \<Rightarrow> STRING_substr s offset len = Thrown x
    | Undefined \<Rightarrow> False"
proof -
  have n: "strlen s = length cs" using s by (rule chars_strlen)
  define o' where "o' = (if offset < 0 then offset + int (length cs) else offset)"
  show ?thesis
  proof (cases "len \<le> 0 \<or> o' < 0 \<or> int (length cs) \<le> o'")
    case True
    have "cs = []" if "len \<le> 0" "int (length cs) \<le> len" using that by (cases cs) auto
    with True show ?thesis
      unfolding substr_points_def STRING_substr_def encoding_substr_def fixed_substr_def Let_def n o'_def [symmetric]
      using empty_constant_chars by (cases "len \<le> 0 \<or> o' = int (length cs)") auto
  next
    case False
    define k where "k = nat o'"
    define m where "m = nat len"
    have k: "o' = int k" "len = int m" "k < length cs" "0 < m" using False by (auto simp: k_def m_def)
    have off: "0 \<le> offset + int (strlen s)" using False by (auto simp: o'_def n split: if_splits)
    have sp: "substr_points cs offset len = Done (take m (drop k cs))"
      using False by (auto simp: substr_points_def Let_def o'_def k_def m_def)
    have "\<exists>r. STRING_substr s offset len = Done r \<and> chars r (take m (drop k cs))"
    proof (cases "encoding s \<in> {Parrot_utf8_encoding_ptr, Parrot_utf16_encoding_ptr}")
      case True
      have "encoding_substr s offset len = encoding_substr s (int k) (int m)"
        using substr_offset [OF off, of len] unfolding n o'_def [symmetric] k(1,2) .
      then show ?thesis using True encoding_substr_inside [OF s k(3,4)] by (auto simp: STRING_substr_def)
    next
      case False
      have "fixed_substr s offset len = fixed_substr s (int k) (int m)"
        using fixed_substr_offset [OF off, of len] unfolding n o'_def [symmetric] k(1,2) .
      then show ?thesis using False fixed_substr_inside [OF s k(3,4) False] by (auto simp: STRING_substr_def)
    qed
    then show ?thesis using sp by simp
  qed
qed

end
