(* ===== verification/Str_Encode_Rep.thy ===== *)
theory Str_Encode_Rep
  imports Str_Convert_Rep
begin

text \<open>
  Conversion between encodings: the code points stay, or the conversion throws because
  the target cannot hold one of them.
\<close>

section \<open>Copies\<close>

lemma Parrot_str_clone_eq:
  assumes "bufused s \<le> length (strstart s)"
  shows "Parrot_str_clone junk s = Some (s\<lparr>strstart := take (bufused s) (strstart s)\<rparr>)"
  using assms by (cases s) (auto simp: Parrot_str_clone_def memcpy_def alloc_bytes_def)

lemma chars_clone: "chars s cs \<Longrightarrow> chars (s\<lparr>strstart := take (bufused s) (strstart s)\<rparr>) cs"
  by (auto simp: chars_iff)

section \<open>The conversion loop\<close>

lemma to_encoding_room:
  assumes "length (strstart r) = bufused r" "strstart r = m @ rest" "needed = length m + w"
    and "r1 = (if needed > bufused r
           then (let alloc = a + needed in r\<lparr>strstart := realloc_bytes junk (strstart r) alloc, bufused := alloc\<rparr>) else r)"
  obtains rest1 where "strstart r1 = m @ rest1" "length (strstart r1) = bufused r1" "w \<le> length rest1"
    "encoding r1 = encoding r" "strlen r1 = strlen r" "hashval r1 = hashval r"
proof (cases "needed > bufused r")
  case True
  then have r1: "r1 = r\<lparr>strstart := strstart r @ map junk [bufused r..<a + needed], bufused := a + needed\<rparr>"
    using assms(1,4) by (simp add: Let_def realloc_bytes_def)
  show thesis
    by (rule that [of "rest @ map junk [bufused r..<a + needed]"]) (use r1 True assms in simp_all)
next
  case False
  then have "r1 = r" using assms(4) by simp
  then show thesis using that [of rest] False assms by simp
qed

lemma to_encoding_from_chars:
  assumes s: "chars s cs" and w: "w = max_bytes_per_codepoint (vtable_of e)"
    and "k + n = length cs" "encoding r = e" "length (strstart r) = bufused r"
      "strstart r = bytes_of e (take k cs) @ rest" "\<forall>c \<in> set (take k cs). valid_in e c"
  shows "if \<forall>c \<in> set (drop k cs). valid_in e c
    then \<exists>r' rest'. to_encoding_from avg junk w s n (str_iter s cs k) r (iter_at (chunk_of e) cs k)
        = Done (r', iter_at (chunk_of e) cs (length cs))
      \<and> encoding r' = e \<and> strlen r' = strlen r \<and> hashval r' = hashval r \<and> strstart r' = bytes_of e cs @ rest'
    else \<exists>x. to_encoding_from avg junk w s n (str_iter s cs k) r (iter_at (chunk_of e) cs k) = Thrown x"
  using assms(3-7)
proof (induction n arbitrary: k r rest)
  case 0
  then show ?case by auto
next
  case (Suc n)
  have k: "k < length cs" "Suc k + n = length cs" using Suc.prems(1) by simp_all
  let ?B = "bytes_of e (take k cs)" and ?c = "cs ! k"
  define r1 where "r1 = (if length ?B + w > bufused r
      then (let alloc = avg (strlen s - Suc k) + (length ?B + w)
            in r\<lparr>strstart := realloc_bytes junk (strstart r) alloc, bufused := alloc\<rparr>) else r)"
  obtain rest1 where r1: "strstart r1 = ?B @ rest1" "length (strstart r1) = bufused r1" "w \<le> length rest1"
    "encoding r1 = e" "strlen r1 = strlen r" "hashval r1 = hashval r"
    using to_encoding_room [OF Suc.prems(3,4) refl r1_def] Suc.prems(2) by metis
  have step: "to_encoding_from avg junk w s (Suc n) (str_iter s cs k) r (iter_at (chunk_of e) cs k)
      = obind (STRING_iter_set_and_advance r1 (iter_at (chunk_of e) cs k) ?c) (\<lambda>(r, i).
          to_encoding_from avg junk w s n (str_iter s cs (Suc k)) r i)"
    using STRING_get_and_advance [OF s k(1)] by (simp add: Let_def r1_def)
  show ?case
  proof (cases "valid_in e ?c")
    case False
    then obtain x where "STRING_iter_set_and_advance r1 (iter_at (chunk_of e) cs k) ?c = Thrown x"
      using vt.set_invalid [OF r1(4)] r1(4) by (auto simp: STRING_iter_set_and_advance_def)
    moreover have "\<not> (\<forall>c \<in> set (drop k cs). valid_in e c)" using False k(1) by (simp add: drop_step)
    ultimately show ?thesis unfolding step by simp
  next
    case True
    let ?L = "length (chunk_of e ?c)"
    let ?r2 = "r1\<lparr>strstart := ?B @ chunk_of e ?c @ drop ?L rest1\<rparr>"
    have L: "?L \<le> length rest1" using vt.chunk_length(2) [of e ?c] w r1(3) by simp
    have "STRING_iter_set_and_advance r1 \<lparr>bytepos = length ?B, charpos = length (take k cs)\<rparr> ?c
        = Done (?r2, \<lparr>bytepos = length ?B + ?L, charpos = Suc (length (take k cs))\<rparr>)"
      unfolding STRING_iter_set_and_advance_def r1(4)
      by (rule vt.set_and_advance [where old = "take ?L rest1"]) (use Suc.prems(5) True r1 L in simp_all)
    moreover have "\<lparr>bytepos = length ?B, charpos = length (take k cs)\<rparr> = iter_at (chunk_of e) cs k"
      using k(1) by (simp add: iter_at_def)
    moreover have b: "bytes_of e (take (Suc k) cs) = ?B @ chunk_of e ?c" by (rule chunks_split(2) [OF k(1)])
    then have "\<lparr>bytepos = length ?B + ?L, charpos = Suc (length (take k cs))\<rparr> = iter_at (chunk_of e) cs (Suc k)"
      unfolding iter_at_def using k(1) by simp
    ultimately have set: "STRING_iter_set_and_advance r1 (iter_at (chunk_of e) cs k) ?c = Done (?r2, iter_at (chunk_of e) cs (Suc k))"
      by simp
    have v: "\<forall>c \<in> set (take (Suc k) cs). valid_in e c" using Suc.prems(5) True k(1) by (auto simp: take_Suc_conv_app_nth)
    have st: "strstart ?r2 = bytes_of e (take (Suc k) cs) @ drop ?L rest1" unfolding b by simp
    have l: "length (strstart ?r2) = bufused ?r2" using r1(1,2) L by simp
    have r2: "encoding ?r2 = e" "strlen ?r2 = strlen r" "hashval ?r2 = hashval r" using r1(4-6) by simp_all
    have d: "(\<forall>c \<in> set (drop k cs). valid_in e c) \<longleftrightarrow> (\<forall>c \<in> set (drop (Suc k) cs). valid_in e c)"
      using True unfolding drop_step [OF k(1)] by simp
    show ?thesis unfolding step set d using Suc.IH [OF k(2) r2(1) l st v, unfolded r2(2,3)] by (auto split: if_splits)
  qed
qed

text \<open>
  The contract of a conversion to \<open>e\<close>: the same code points in \<open>e\<close>, or an exception when
  \<open>e\<close> cannot hold one of them.
\<close>

definition converts :: "parrot_string outcome \<Rightarrow> u64 list \<Rightarrow> encoding_ptr \<Rightarrow> bool" where
  "converts out cs e \<longleftrightarrow>
     (if \<forall>c \<in> set cs. valid_in e c then \<exists>r. out = Done r \<and> chars r cs \<and> encoding r = e else \<exists>x. out = Thrown x)"

lemma converts_Done:
  assumes "chars r cs" "encoding r = e"
  shows "converts (Done r) cs e"
  using assms by (auto simp: converts_def chars_iff)

lemma converts_clone:
  assumes "chars s cs"
  shows "converts (defined (Parrot_str_clone junk s)) cs (encoding s)"
  using converts_Done [OF chars_clone [OF assms], of "encoding s"] Parrot_str_clone_eq [OF chars_used(2) [OF assms]] by simp

lemma encoding_to_encoding_converts:
  assumes s: "chars s cs"
  shows "converts (encoding_to_encoding avg junk s e) cs e"
proof (cases "encoding s = e")
  case True
  then show ?thesis using converts_clone [OF s] by (simp add: encoding_to_encoding_def)
next
  case False
  have len: "strlen s = length cs" using s by (rule chars_strlen)
  let ?w = "max_bytes_per_codepoint (vtable_of e)" and ?a = "max (avg (length cs)) (max_bytes_per_codepoint (vtable_of e))"
  let ?r = "\<lparr>strstart = alloc_bytes junk ?a, bufused = ?a, strlen = length cs, hashval = 0, encoding = e\<rparr>"
  show ?thesis
  proof (cases "cs = []")
    case True
    then show ?thesis using False len by (simp add: encoding_to_encoding_def converts_def chars_iff Let_def)
  next
    case ne: False
    have eq: "encoding_to_encoding avg junk s e = obind (to_encoding_from avg junk ?w s (length cs) STRING_ITER_INIT ?r STRING_ITER_INIT)
        (\<lambda>(result, dest_iter). Done (result\<lparr>bufused := bytepos dest_iter\<rparr>))"
      using False ne len by (simp add: encoding_to_encoding_def Let_def)
    have "length (strstart ?r) = bufused ?r" by (simp add: alloc_bytes_def)
    note loop = to_encoding_from_chars [OF s refl, of 0 "length cs" ?r e "alloc_bytes junk ?a" avg junk, OF _ _ this, simplified iter_at_0]
    show ?thesis
    proof (cases "\<forall>c \<in> set cs. valid_in e c")
      case True
      then obtain r' rest' where "to_encoding_from avg junk ?w s (length cs) STRING_ITER_INIT ?r STRING_ITER_INIT
          = Done (r', iter_at (chunk_of e) cs (length cs))"
        "encoding r' = e" "strlen r' = length cs" "strstart r' = bytes_of e cs @ rest'"
        using loop by auto
      then show ?thesis using True eq by (simp add: converts_def chars_iff)
    next
      case False
      then have "\<exists>x. to_encoding_from avg junk ?w s (length cs) STRING_ITER_INIT ?r STRING_ITER_INIT = Thrown x"
        using loop by (simp split: if_splits)
      then have "\<exists>x. encoding_to_encoding avg junk s e = Thrown x" unfolding eq by auto
      then show ?thesis using False by (simp only: converts_def if_False)
    qed
  qed
qed

section \<open>Single bytes\<close>

lemma fixed8_limit_valid: "is_fixed8 e \<Longrightarrow> valid_in e c \<longleftrightarrow> c < (if e = Parrot_ascii_encoding_ptr then 0x80 else 0x100)"
  by (auto simp: fixed8_limit_def)

lemma fixed8_check_limit_chars:
  assumes "\<forall>c \<in> set cs. c < 256" "i + n = length cs"
  shows "fixed8_check_limit (map ucast cs @ p) limit n i =
    (if \<forall>c \<in> set (drop i cs). c < limit then Done () else Thrown ''Lossy conversion to single byte encoding'')"
  using assms(2)
proof (induction n arbitrary: i)
  case (Suc n)
  have i: "i < length cs" using Suc.prems by simp
  have "rd (map ucast cs @ p) i = Some (ucast (cs ! i))" "ucast (ucast (cs ! i) :: u8) = cs ! i"
    using i assms(1) ucast_u8(1) [of "cs ! i"] by (simp_all add: nth_append)
  then show ?case using Suc.IH [of "i + 1"] Suc.prems by (auto simp: drop_step [OF i] not_le not_less)
qed simp

lemma fixed8_convert_from_chars:
  assumes "chars s cs" "k + n = length cs" "m = map ucast (take k cs) @ rest" "length rest = n"
  shows "fixed8_convert_from s limit n (str_iter s cs k) m k =
    (if \<forall>c \<in> set (drop k cs). c < limit then Done (map ucast cs) else Thrown ''Lossy conversion to single byte encoding'')"
  using assms(2-4)
proof (induction n arbitrary: k m rest)
  case (Suc n)
  have k: "k < length cs" "Suc k + n = length cs" using Suc.prems(1) by simp_all
  obtain x rest' where rest: "rest = x # rest'" "length rest' = n" using Suc.prems(3) by (cases rest) auto
  have "wr m k (ucast (cs ! k)) = Some (map ucast (take (Suc k) cs) @ rest')"
    using wr_append [of "map ucast (take k cs)" x rest' "ucast (cs ! k)"] k(1) Suc.prems(2) rest(1)
    by (simp add: take_Suc_conv_app_nth)
  then show ?case using Suc.IH [OF k(2) refl rest(2)] STRING_get_and_advance [OF assms(1) k(1)]
    by (auto simp: drop_step [OF k(1)] not_le not_less)
qed simp

lemma fixed8_to_encoding_converts:
  assumes s: "chars s cs" and e: "is_fixed8 e"
  shows "converts (fixed8_to_encoding junk s e) cs e"
proof -
  have len: "strlen s = length cs" using s by (rule chars_strlen)
  define limit :: u64 where "limit = (if e = Parrot_ascii_encoding_ptr then 0x80 else 0x100)"
  have v: "(\<forall>c \<in> set cs. valid_in e c) \<longleftrightarrow> (\<forall>c \<in> set cs. c < limit)" using fixed8_limit_valid [OF e] by (simp add: limit_def)
  show ?thesis
  proof (cases "is_fixed8 (encoding s)")
    case True
    obtain p where p: "strstart s = map ucast cs @ p" "\<forall>c \<in> set cs. c < 256" "bufused s = length cs" by (rule fixed8_chars [OF s True])
    have "fixed8_to_encoding junk s e = (if \<forall>c \<in> set cs. c < limit then Done (s\<lparr>encoding := e\<rparr>)
        else Thrown ''Lossy conversion to single byte encoding'')"
      using True p fixed8_check_limit_chars [OF p(2), of 0 "length cs" p limit] len
      by (auto simp: fixed8_to_encoding_def Let_def max_bytes_Suc Parrot_str_copy_def limit_def)
    moreover have "chars (s\<lparr>encoding := e\<rparr>) cs" if "\<forall>c \<in> set cs. c < limit"
      using that v p len fixed8_bytes_all [OF e, of cs] by (simp add: chars_iff)
    ultimately show ?thesis using v by (simp add: converts_def)
  next
    case False
    have "fixed8_to_encoding junk s e = (if \<forall>c \<in> set cs. c < limit
        then Done \<lparr>strstart = map ucast cs, bufused = length cs, strlen = length cs, hashval = 0, encoding = e\<rparr>
        else Thrown ''Lossy conversion to single byte encoding'')"
      using False fixed8_convert_from_chars [OF s, of 0 "length cs" "alloc_bytes junk (length cs)" "alloc_bytes junk (length cs)" limit] len
      by (simp add: fixed8_to_encoding_def Let_def max_bytes_Suc iter_at_0 alloc_bytes_def limit_def [symmetric])
    moreover have "chars \<lparr>strstart = map ucast cs, bufused = length cs, strlen = length cs, hashval = 0, encoding = e\<rparr> cs"
      if "\<forall>c \<in> set cs. c < limit"
      using that v fixed8_bytes_all [OF e, of cs] by (simp add: chars_iff)
    ultimately show ?thesis using v by (simp add: converts_def)
  qed
qed

section \<open>Wide units\<close>

context fixed_units
begin

lemma widen:
  assumes "\<forall>c \<in> set cs. c < 256" "i + n = length cs" "length rest = width * n"
  shows "widen_bytes wru width (map ucast cs @ p) n i (concat (map chunk (take i cs)) @ rest) = Some (concat (map chunk cs))"
  using assms(2,3)
proof (induction n arbitrary: i rest)
  case (Suc n)
  have i: "i < length cs" "i + 1 + n = length cs" using Suc.prems(1) by simp_all
  have rd: "rd (map ucast cs @ p) i = Some (ucast (cs ! i))" "ucast (ucast (cs ! i) :: u8) = cs ! i"
    using i(1) assms(1) ucast_u8(1) [of "cs ! i"] by (simp_all add: nth_append)
  have rest: "length (take width rest) = width" "length (drop width rest) = width * n" using Suc.prems(2) by simp_all
  have "wru (concat (map chunk (take i cs)) @ rest) (width * i) (cs ! i)
      = Some (concat (map chunk (take (i + 1) cs)) @ drop width rest)"
    using write_unit [OF rest(1), of "take i cs" "drop width rest" "cs ! i"] i(1)
    by (simp add: take_Suc_conv_app_nth)
  then show ?case using Suc.IH [OF i(2) rest(2)] rd by simp
qed simp

end

lemma widen_all:
  assumes "\<forall>c \<in> set cs. c < 256"
  shows "widen_bytes wr16 2 (map ucast cs @ p) (length cs) 0 (alloc_bytes junk (2 * length cs)) = Some (concat (map u16_bytes cs))"
    and "widen_bytes wr32 4 (map ucast cs @ p) (length cs) 0 (alloc_bytes junk (length cs * 4)) = Some (concat (map u32_bytes cs))"
  using u16.widen [OF assms, of 0 "length cs" "alloc_bytes junk (2 * length cs)" p]
    u32.widen [OF assms, of 0 "length cs" "alloc_bytes junk (length cs * 4)" p] by (simp_all add: alloc_bytes_def)

lemma byte_valid: "c < 256 \<Longrightarrow> valid_in Parrot_ucs2_encoding_ptr c" "c < 256 \<Longrightarrow> \<not> UNICODE_IS_INVALID c"
  by (auto simp: ucs2_valid_def UNICODE_IS_INVALID_def word_less_nat_alt word_le_nat_alt)

lemma valid_point: "valid_in e c \<Longrightarrow> \<not> UNICODE_IS_INVALID c"
proof -
  have "c < 256" if "c < fixed8_limit e" using that by (auto simp: fixed8_limit_def word_less_nat_alt split: if_splits)
  then show "valid_in e c \<Longrightarrow> \<not> UNICODE_IS_INVALID c" using byte_valid(2) by (cases e) (auto simp: ucs2_valid_def)
qed

lemma ucs4_convert_from_chars:
  assumes "chars s cs" "k + n = length cs" "length rest = 4 * n"
  shows "ucs4_convert_from s n (str_iter s cs k) (concat (map u32_bytes (take k cs)) @ rest) = Some (concat (map u32_bytes cs))"
  using assms(2,3)
proof (induction n arbitrary: k rest)
  case (Suc n)
  have k: "k < length cs" "Suc k + n = length cs" using Suc.prems(1) by simp_all
  have rest: "length (take 4 rest) = 4" "length (drop 4 rest) = 4 * n" using Suc.prems(2) by simp_all
  have "wr32 (concat (map u32_bytes (take k cs)) @ rest) (4 * k) (cs ! k)
      = Some (concat (map u32_bytes (take (Suc k) cs)) @ drop 4 rest)"
    using u32.write_unit [OF rest(1), of "take k cs" "drop 4 rest" "cs ! k"] k(1) by (simp add: take_Suc_conv_app_nth)
  then show ?case using Suc.IH [OF k(2) rest(2)] STRING_get_and_advance [OF assms(1) k(1)] by simp
qed simp

lemma ucs4_to_encoding_converts:
  assumes s: "chars s cs"
  shows "converts (ucs4_to_encoding junk s) cs Parrot_ucs4_encoding_ptr"
proof (cases "encoding s = Parrot_ucs4_encoding_ptr")
  case True
  then show ?thesis using converts_Done [OF s True] by (simp add: ucs4_to_encoding_def Parrot_str_copy_def)
next
  case False
  have len: "strlen s = length cs" using s by (rule chars_strlen)
  let ?r = "\<lparr>strstart = concat (map u32_bytes cs), bufused = length cs * 4, strlen = length cs, hashval = 0,
    encoding = Parrot_ucs4_encoding_ptr\<rparr>"
  have "\<forall>c \<in> set cs. valid_in (encoding s) c" using s by (simp add: chars_iff)
  then have "chars ?r cs" using valid_point by (auto simp: chars_iff u32.chunks)
  moreover have "ucs4_to_encoding junk s = Done ?r"
  proof (cases "is_fixed8 (encoding s)")
    case True
    obtain p where "strstart s = map ucast cs @ p" "\<forall>c \<in> set cs. c < 256" by (rule fixed8_chars [OF s True])
    then show ?thesis using False True widen_all(2) [of cs p junk] len by (simp add: ucs4_to_encoding_def Let_def max_bytes_Suc)
  next
    case f: False
    then show ?thesis using False ucs4_convert_from_chars [OF s, of 0 "length cs" "alloc_bytes junk (length cs * 4)"] len
      by (simp add: ucs4_to_encoding_def Let_def max_bytes_Suc iter_at_0 alloc_bytes_def)
  qed
  ultimately show ?thesis using converts_Done by simp
qed

lemma utf8_to_encoding_converts:
  assumes s: "chars s cs"
  shows "converts (utf8_to_encoding avg junk s) cs Parrot_utf8_encoding_ptr"
proof (cases "encoding s = Parrot_ascii_encoding_ptr")
  case True
  have v: "\<forall>c \<in> set cs. c < 0x80" using s True by (simp add: chars_iff fixed8_limit_def)
  then have "bytes_of Parrot_utf8_encoding_ptr cs = bytes_of (encoding s) cs"
    using True by (induction cs) (simp_all add: utf8_bytes_def)
  moreover have "\<forall>c \<in> set cs. valid_in Parrot_utf8_encoding_ptr c"
    using v byte_valid(2) by (auto simp: word_less_nat_alt)
  moreover note chars_clone [OF s]
  ultimately have "chars (s\<lparr>strstart := take (bufused s) (strstart s), encoding := Parrot_utf8_encoding_ptr\<rparr>) cs"
    by (auto simp: chars_iff)
  then show ?thesis using converts_Done True Parrot_str_clone_eq [OF chars_used(2) [OF s]]
    by (simp add: utf8_to_encoding_def)
next
  case False
  then show ?thesis using encoding_to_encoding_converts [OF s] by (simp add: utf8_to_encoding_def)
qed

text \<open>UTF-16 strings without surrogate pairs become UCS-2.\<close>

lemma utf16_as_ucs2:
  assumes "chars r cs" "encoding r = Parrot_utf16_encoding_ptr" "bufused r = 2 * strlen r"
  shows "chars (r\<lparr>encoding := Parrot_ucs2_encoding_ptr\<rparr>) cs"
proof -
  have v: "\<forall>c \<in> set cs. \<not> UNICODE_IS_INVALID c" "bufused r = length (concat (map utf16_bytes cs))" "strlen r = length cs"
    using assms(1,2) by (auto simp: chars_iff)
  have "2 * sum_list (map utf16_units_of cs) = 2 * length cs" using assms(3) v(2,3) by (simp add: utf16.length_chunks(1))
  then have "sum_list (map utf16_units_of cs) = length cs" by simp
  then have small: "\<forall>c \<in> set cs. c < 0x10000"
  proof (induction cs)
    case (Cons c cs)
    have "length cs \<le> sum_list (map utf16_units_of cs)" by (rule utf16.length_chunks(2))
    then have "utf16_units_of c = 1" "sum_list (map utf16_units_of cs) = length cs"
      using Cons.prems length_utf16_bytes(2) [of c] by simp_all
    moreover from this(2) have "\<forall>c \<in> set cs. c < 0x10000" by (rule Cons.IH)
    ultimately show ?case by (simp add: utf16_units_of_def split: if_splits)
  qed simp
  then have "concat (map u16_bytes cs) = concat (map utf16_bytes cs)" by (induction cs) (simp_all add: utf16_bytes_def)
  then show ?thesis using assms v small by (auto simp: chars_iff ucs2_valid_def)
qed

lemma utf16_to_encoding_chars:
  assumes s: "chars s cs"
  shows "\<exists>r. utf16_to_encoding avg junk s = Done r \<and> chars r cs
    \<and> (encoding r = Parrot_ucs2_encoding_ptr
       \<or> encoding r = Parrot_utf16_encoding_ptr \<and> (encoding s \<noteq> Parrot_utf16_encoding_ptr \<longrightarrow> bufused r \<noteq> 2 * strlen r))"
proof -
  have len: "strlen s = length cs" using s by (rule chars_strlen)
  have v: "\<forall>c \<in> set cs. valid_in (encoding s) c" using s by (simp add: chars_iff)
  consider "is_fixed8 (encoding s)" | "encoding s = Parrot_utf16_encoding_ptr \<or> encoding s = Parrot_ucs2_encoding_ptr"
    | "encoding s = Parrot_utf8_encoding_ptr \<or> encoding s = Parrot_ucs4_encoding_ptr" by (cases "encoding s") auto
  then show ?thesis
  proof cases
    case 1
    obtain p where p: "strstart s = map ucast cs @ p" "\<forall>c \<in> set cs. c < 256" by (rule fixed8_chars [OF s 1])
    let ?r = "\<lparr>strstart = concat (map u16_bytes cs), bufused = 2 * length cs, strlen = length cs, hashval = 0,
      encoding = Parrot_ucs2_encoding_ptr\<rparr>"
    have "chars ?r cs" using p(2) byte_valid(1) by (auto simp: chars_iff u16.chunks)
    moreover have "utf16_to_encoding avg junk s = Done ?r"
      using 1 p widen_all(1) [OF p(2), of p junk] len by (auto simp: utf16_to_encoding_def Let_def max_bytes_Suc)
    ultimately show ?thesis by simp
  next
    case 2
    then have "\<not> is_fixed8 (encoding s)" by auto
    then have "utf16_to_encoding avg junk s = Done (s\<lparr>strstart := take (bufused s) (strstart s)\<rparr>)"
      using 2 Parrot_str_clone_eq [OF chars_used(2) [OF s]] by (simp add: utf16_to_encoding_def Let_def max_bytes_Suc)
    then show ?thesis using chars_clone [OF s] 2 by auto
  next
    case 3
    then have e: "\<not> is_fixed8 (encoding s)" "encoding s \<noteq> Parrot_utf16_encoding_ptr" "encoding s \<noteq> Parrot_ucs2_encoding_ptr" by auto
    have "\<forall>c \<in> set cs. valid_in Parrot_utf16_encoding_ptr c" using v valid_point by auto
    then obtain r where r: "encoding_to_encoding avg junk s Parrot_utf16_encoding_ptr = Done r" "chars r cs"
      "encoding r = Parrot_utf16_encoding_ptr"
      using encoding_to_encoding_converts [OF s, of avg junk Parrot_utf16_encoding_ptr] by (auto simp: converts_def)
    then show ?thesis using e utf16_as_ucs2 [OF r(2,3)] by (simp add: utf16_to_encoding_def Let_def max_bytes_Suc)
  qed
qed

lemma STRING_to_encoding_converts:
  assumes s: "chars s cs" and e: "e \<notin> {Parrot_utf16_encoding_ptr, Parrot_ucs2_encoding_ptr}"
  shows "converts (STRING_to_encoding avg junk e s) cs e"
proof (cases "is_fixed8 e")
  case True
  then have "STRING_to_encoding avg junk e s = fixed8_to_encoding junk s e" by auto
  then show ?thesis using fixed8_to_encoding_converts [OF s True] by simp
next
  case False
  then show ?thesis using e utf8_to_encoding_converts [OF s] ucs4_to_encoding_converts [OF s] by (cases e) auto
qed

end
