(* ===== verification/Str_Scan_Rep.thy ===== *)
theory Str_Scan_Rep
  imports Str_Encode_Rep
begin

text \<open>
  Scanning in every encoding: \<open>STRING_scan\<close> accepts the storage exactly when it holds code
  points of the encoding, and sets \<open>strlen\<close> to their number.
\<close>

section \<open>Checks unit by unit\<close>

locale unit_scan = fixed_units +
  fixes check_from :: "u8 list \<Rightarrow> nat \<Rightarrow> nat \<Rightarrow> unit outcome"
    and error :: string
  assumes check_0: "check_from p 0 i = Done ()"
    and check_Suc: "check_from p (Suc n) i =
      obind (defined (rdu p (width * i))) (\<lambda>c. if valid c then check_from p n (i + 1) else Thrown error)"
    and units: "k + width \<le> length p \<Longrightarrow> \<exists>c. rdu p k = Some c \<and> take width (drop k p) = chunk c"
begin

lemma check_iff:
  assumes "width * (i + n) \<le> length p"
  shows "check_from p n i = Done () \<longleftrightarrow>
      (\<exists>cs. length cs = n \<and> (\<forall>c \<in> set cs. valid c) \<and> take (width * n) (drop (width * i) p) = concat (map chunk cs))"
    and "check_from p n i = Done () \<or> check_from p n i = Thrown error"
proof -
  have "(check_from p n i = Done () \<longleftrightarrow>
      (\<exists>cs. length cs = n \<and> (\<forall>c \<in> set cs. valid c) \<and> take (width * n) (drop (width * i) p) = concat (map chunk cs)))
    \<and> (check_from p n i = Done () \<or> check_from p n i = Thrown error)"
    using assms
  proof (induction n arbitrary: i)
    case 0
    then show ?case by (simp add: check_0)
  next
    case (Suc n)
    have b: "width * (i + 1 + n) \<le> length p" "width * i + width \<le> length p" using Suc.prems by (simp_all add: algebra_simps)
    obtain c where c: "rdu p (width * i) = Some c" "take width (drop (width * i) p) = chunk c" using units [OF b(2)] by blast
    have t: "take (width * Suc n) (drop (width * i) p) = chunk c @ take (width * n) (drop (width * (i + 1)) p)"
      using c(2) take_add [of width "width * n" "drop (width * i) p"] by (simp add: add.commute)
    have split: "(\<exists>cs. length cs = Suc n \<and> (\<forall>c \<in> set cs. valid c) \<and> take (width * Suc n) (drop (width * i) p) = concat (map chunk cs))
      \<longleftrightarrow> valid c \<and> (\<exists>cs. length cs = n \<and> (\<forall>c \<in> set cs. valid c) \<and> take (width * n) (drop (width * (i + 1)) p) = concat (map chunk cs))"
      (is "?L \<longleftrightarrow> valid c \<and> ?R")
    proof
      assume ?L
      then obtain d ds where d: "length ds = n" "valid d" "\<forall>c \<in> set ds. valid c"
        "chunk c @ take (width * n) (drop (width * (i + 1)) p) = chunk d @ concat (map chunk ds)"
        unfolding t by (auto simp: length_Suc_conv)
      have eq: "chunk c = chunk d" "take (width * n) (drop (width * (i + 1)) p) = concat (map chunk ds)"
        using d(4) len [of c] len [of d] by (simp_all add: append_eq_append_conv)
      have "drop (width * i) p = chunk d @ drop width (drop (width * i) p)"
        using append_take_drop_id [of width "drop (width * i) p"] c(2) eq(1) by simp
      then have p: "p = take (width * i) p @ chunk d @ drop width (drop (width * i) p)"
        by (metis append_take_drop_id)
      have "length (take (width * i) p) = width * i" using b(2) by simp
      then have "rdu p (width * i) = Some d"
        using rdu [OF d(2), of "take (width * i) p" "drop width (drop (width * i) p)", folded p] by simp
      then show "valid c \<and> ?R" using c(1) d(1-3) eq(2) by auto
    next
      assume "valid c \<and> ?R"
      then obtain ds where "length ds = n" "valid c" "\<forall>c \<in> set ds. valid c"
        "take (width * n) (drop (width * (i + 1)) p) = concat (map chunk ds)" by blast
      then show ?L unfolding t by (intro exI [of _ "c # ds"]) simp
    qed
    have step: "check_from p (Suc n) i = (if valid c then check_from p n (i + 1) else Thrown error)" using c(1) by (simp add: check_Suc)
    show ?case unfolding split step
      using Suc.IH [OF b(1), THEN conjunct1] Suc.IH [OF b(1), THEN conjunct2] by (cases "valid c") auto
  qed
  then show "check_from p n i = Done () \<longleftrightarrow>
      (\<exists>cs. length cs = n \<and> (\<forall>c \<in> set cs. valid c) \<and> take (width * n) (drop (width * i) p) = concat (map chunk cs))"
    "check_from p n i = Done () \<or> check_from p n i = Thrown error" by blast+
qed

text \<open>A scan that checks the alignment, then the units, and stores their number.\<close>

lemma scan_iff:
  assumes "0 < width" "bufused s \<le> length (strstart s)"
    and "scan s = (if bufused s mod width \<noteq> 0 then Thrown e
      else obind (check_from (strstart s) (bufused s div width) 0) (\<lambda>_. Done (s\<lparr>strlen := bufused s div width\<rparr>)))"
  shows "(scan s = Done s' \<longleftrightarrow> (\<exists>cs. (\<forall>c \<in> set cs. valid c) \<and> take (bufused s) (strstart s) = concat (map chunk cs)
      \<and> s' = s\<lparr>strlen := length cs\<rparr>)) \<and> scan s \<noteq> Undefined"
proof (cases "bufused s mod width = 0")
  case False
  have "bufused s mod width = 0" if "take (bufused s) (strstart s) = concat (map chunk cs)" for cs
    using arg_cong [OF that, of length] assms(2) by (simp add: chunks)
  then show ?thesis using False assms(3) by auto
next
  case True
  then have w: "bufused s = width * (bufused s div width)" using mult_div_mod_eq [of width "bufused s"] by linarith
  then have "width * (0 + bufused s div width) \<le> length (strstart s)" using assms(2) by simp
  note c = check_iff [OF this]
  have "(scan s = Done s' \<longleftrightarrow> check_from (strstart s) (bufused s div width) 0 = Done () \<and> s' = s\<lparr>strlen := bufused s div width\<rparr>)
      \<and> scan s \<noteq> Undefined"
    using assms(3) True c(2) by auto
  moreover have "length cs = bufused s div width" if "take (bufused s) (strstart s) = concat (map chunk cs)" for cs
    using arg_cong [OF that, of length] assms(1,2) by (simp add: chunks)
  ultimately show ?thesis unfolding c(1) using w by auto
qed

end

section \<open>The encodings with checks\<close>

lemma units_rd32:
  assumes "k + 4 \<le> length p"
  shows "\<exists>c. rd32 p k = Some c \<and> take 4 (drop k p) = u32_bytes c"
proof -
  obtain x y z w where d: "x = p ! k" "y = p ! (k + 1)" "z = p ! (k + 2)" "w = p ! (k + 3)" by blast
  have t: "take 4 (drop k p) = [x, y, z, w]"
    using assms by (intro nth_equalityI) (auto simp: d less_Suc_eq numeral_eq_Suc)
  let ?u = "ucast x OR push_bit 8 (ucast y) OR push_bit 16 (ucast z) OR push_bit 24 (ucast w) :: u32"
  have r: "rd32 p k = Some (scast ?u)" using assms by (simp add: rd32_def d)
  have s: "bit (scast (u :: u32) :: u64) n = bit u n" if "n < 32" for u n
    using that by (cases "n = 31") (auto simp: bit_simps min_def)
  have "ucast (scast ?u :: u64) = x" "ucast (drop_bit 8 (scast ?u :: u64)) = y"
      "ucast (drop_bit 16 (scast ?u :: u64)) = z" "ucast (drop_bit 24 (scast ?u :: u64)) = w"
    by (rule bit_word_eqI;
        auto simp: s bit_unsigned_iff bit_drop_bit_eq bit_or_iff bit_push_bit_iff dest: bit_imp_le_length)+
  then show ?thesis using t r by (auto simp: u32_bytes_def)
qed

lemma units_rd16:
  assumes "k + 2 \<le> length p"
  shows "\<exists>c. rd16 p k = Some c \<and> take 2 (drop k p) = u16_bytes c"
  using rd16_take [OF assms] by metis

interpretation ucs2s: unit_scan 2 u16_bytes ucs2_valid rd16 wr16 ucs2_check_from "''Invalid character in UCS-2 string''"
  by unfold_locales (simp_all add: ucs2_check_iff units_rd16 split: option.splits, auto intro!: arg_cong2 [where f = obind])

interpretation ucs4s: unit_scan 4 u32_bytes "\<lambda>c. \<not> UNICODE_IS_INVALID c" rd32 wr32 ucs4_check_from "''Invalid character in UCS-4 string''"
  by unfold_locales (auto simp: units_rd32 intro!: arg_cong2 [where f = obind])

lemma u8_limit: "(ucast (b :: u8) :: u64) < 0x80 \<longleftrightarrow> b < 0x80" "(ucast b :: u64) < 0x100" "ucast (ucast b :: u64) = b"
proof -
  have u: "unat (ucast b :: u64) = unat b" by (rule ucast_64_8)
  show "(ucast b :: u64) < 0x80 \<longleftrightarrow> b < 0x80" by (simp add: word_less_nat_alt u)
  show l: "(ucast b :: u64) < 0x100" using unsigned_less [of b] by (simp add: word_less_nat_alt u)
  show "ucast (ucast b :: u64) = b" using ucast_u8(2) [of "ucast b"] l u by (simp add: word_unat_eq_iff)
qed

interpretation asciis: unit_scan 1 fixed8_bytes "\<lambda>c. c < fixed8_limit Parrot_ascii_encoding_ptr"
  "\<lambda>m p. map_option ucast (rd m p)" "\<lambda>m p c. wr m p (ucast c)" ascii_check_from "''Invalid character in ASCII string''"
proof unfold_locales
  fix p :: "u8 list" and n i k :: nat
  show "ascii_check_from p (Suc n) i = obind (defined (map_option ucast (rd p (1 * i))))
      (\<lambda>c. if c < fixed8_limit Parrot_ascii_encoding_ptr then ascii_check_from p n (i + 1) else Thrown ''Invalid character in ASCII string'')"
    by (cases "rd p i") (auto simp: fixed8_limit_def u8_limit not_less)
  show "k + 1 \<le> length p \<Longrightarrow> \<exists>c :: u64. map_option ucast (rd p k) = Some c \<and> take 1 (drop k p) = [ucast c]"
    by (simp add: u8_limit take_Suc hd_drop_conv_nth)
qed simp

lemma latin1_points:
  assumes "bufused s \<le> length (strstart s)" "e = Parrot_latin1_encoding_ptr \<or> e = Parrot_binary_encoding_ptr"
  shows "(Done (s\<lparr>strlen := bufused s\<rparr>) = Done s' \<longleftrightarrow> (\<exists>cs. (\<forall>c \<in> set cs. valid_in e c)
    \<and> take (bufused s) (strstart s) = bytes_of e cs \<and> s' = s\<lparr>strlen := length cs\<rparr>))"
proof -
  have b: "bytes_of e cs = map ucast cs" for cs using fixed8_bytes_all [of e cs] assms(2) by auto
  have v: "valid_in e c \<longleftrightarrow> c < 0x100" for c using assms(2) by (auto simp: fixed8_limit_def)
  let ?cs = "map ucast (take (bufused s) (strstart s)) :: u64 list"
  have "map ucast ?cs = take (bufused s) (strstart s)" by (simp add: o_def u8_limit(3))
  moreover have "\<forall>c \<in> set ?cs. c < 0x100" by (auto simp: u8_limit(2))
  moreover have "length ?cs = bufused s" using assms(1) by simp
  moreover have "length cs = bufused s" if "take (bufused s) (strstart s) = (map ucast cs :: u8 list)" for cs :: "u64 list"
    using arg_cong [OF that, of length] assms(1) by simp
  ultimately show ?thesis unfolding b v by (metis outcome.inject(1))
qed

lemma STRING_scan_points:
  assumes l: "bufused s \<le> length (strstart s)"
  shows "(STRING_scan s = Done s' \<longleftrightarrow> (\<exists>cs. (\<forall>c \<in> set cs. valid_in (encoding s) c)
    \<and> take (bufused s) (strstart s) = bytes_of (encoding s) cs \<and> s' = s\<lparr>strlen := length cs\<rparr>)) \<and> STRING_scan s \<noteq> Undefined"
proof (cases "encoding s")
  case Parrot_utf8_encoding_ptr
  then show ?thesis using utf8_scan_iff [OF l] by (simp add: STRING_scan_def Parrot_utf8_encoding_def code_points_def)
next
  case Parrot_utf16_encoding_ptr
  then show ?thesis using utf16_scan_iff [OF l] by (simp add: STRING_scan_def Parrot_utf16_encoding_def code_points_def)
next
  case Parrot_ucs2_encoding_ptr
  have "ucs2_scan s = (if bufused s mod 2 \<noteq> 0 then Thrown ''Unaligned end in UCS-2 string''
      else obind (ucs2_check_from (strstart s) (bufused s div 2) 0) (\<lambda>_. Done (s\<lparr>strlen := bufused s div 2\<rparr>)))"
    by (simp add: ucs2_scan_def odd_iff_mod_2_eq_one)
  from ucs2s.scan_iff [where scan = ucs2_scan and s = s and s' = s', OF _ l this] show ?thesis using Parrot_ucs2_encoding_ptr by (simp add: STRING_scan_def Parrot_ucs2_encoding_def)
next
  case Parrot_ucs4_encoding_ptr
  from ucs4s.scan_iff [where scan = ucs4_scan and s = s and s' = s', OF _ l ucs4_scan_def] show ?thesis
    using Parrot_ucs4_encoding_ptr by (simp add: STRING_scan_def Parrot_ucs4_encoding_def)
next
  case Parrot_ascii_encoding_ptr
  have "ascii_scan s = (if bufused s mod 1 \<noteq> 0 then Thrown undefined
      else obind (ascii_check_from (strstart s) (bufused s div 1) 0) (\<lambda>_. Done (s\<lparr>strlen := bufused s div 1\<rparr>)))"
    by (simp add: ascii_scan_def)
  from asciis.scan_iff [where scan = ascii_scan and s = s and s' = s', OF _ l this] show ?thesis
    using Parrot_ascii_encoding_ptr by (simp add: STRING_scan_def Parrot_ascii_encoding_def fixed8_vtable_def)
next
  case Parrot_latin1_encoding_ptr
  then show ?thesis using latin1_points [OF l, of "encoding s" s']
    by (simp add: STRING_scan_def Parrot_latin1_encoding_def fixed8_vtable_def latin1_scan_def)
next
  case Parrot_binary_encoding_ptr
  then show ?thesis using latin1_points [OF l, of "encoding s" s']
    by (simp add: STRING_scan_def Parrot_binary_encoding_def fixed8_vtable_def binary_scan_def)
qed

text \<open>A scan that returns leaves a well-formed string, and a well-formed string scans to itself.\<close>

lemma chars_take:
  assumes l: "bufused s \<le> length (strstart s)"
  shows "chars s cs \<longleftrightarrow> (\<forall>c \<in> set cs. valid_in (encoding s) c) \<and> take (bufused s) (strstart s) = bytes_of (encoding s) cs
    \<and> strlen s = length cs" (is "_ \<longleftrightarrow> ?R")
proof
  assume r: ?R
  then have t: "take (bufused s) (strstart s) = bytes_of (encoding s) cs" by blast
  have "bufused s = length (take (bufused s) (strstart s))" using l by simp
  then have "bufused s = length (bytes_of (encoding s) cs)" unfolding t .
  moreover have "strstart s = bytes_of (encoding s) cs @ drop (bufused s) (strstart s)"
    using append_take_drop_id [of "bufused s" "strstart s"] unfolding t by (rule sym)
  ultimately show "chars s cs" using r unfolding chars_iff by blast
qed (auto simp: chars_iff)

lemma STRING_scan_chars:
  assumes l: "bufused s \<le> length (strstart s)"
  shows "STRING_scan s = Done s' \<longleftrightarrow> (\<exists>cs. chars s' cs \<and> s' = s\<lparr>strlen := length cs\<rparr>)" "STRING_scan s \<noteq> Undefined"
proof -
  have c: "chars (s\<lparr>strlen := length cs\<rparr>) cs \<longleftrightarrow> (\<forall>c \<in> set cs. valid_in (encoding s) c)
      \<and> take (bufused s) (strstart s) = bytes_of (encoding s) cs" for cs
    using chars_take [of "s\<lparr>strlen := length cs\<rparr>" cs] l by simp
  show "STRING_scan s = Done s' \<longleftrightarrow> (\<exists>cs. chars s' cs \<and> s' = s\<lparr>strlen := length cs\<rparr>)"
    unfolding STRING_scan_points [OF l, of s', THEN conjunct1] by (intro ex_cong1) (use c in blast)
  show "STRING_scan s \<noteq> Undefined" using STRING_scan_points [OF l] by blast
qed

end
