(* ===== verification/Util_Search.thy ===== *)
theory Util_Search
  imports Str_Base
begin

text \<open>
  The byte searches of \<open>src/utils.c\<close>, on the storage of two strings of one byte per
  character.  The library functions \<open>memchr\<close> and \<open>memcmp\<close> are those of C: a read outside the
  storage is undefined.
\<close>

section \<open>The code\<close>

text \<open>\<open>memchr\<close> looks at one byte after the other and stops at the first match.\<close>

fun memchr_from :: "u8 list \<Rightarrow> u8 \<Rightarrow> nat \<Rightarrow> nat \<Rightarrow> nat option option" where
  "memchr_from xs c n i =
     (if n = 0 then Some None
      else case xs of
        [] \<Rightarrow> None
      | x # xs \<Rightarrow> if x = c then Some (Some i) else memchr_from xs c (n - 1) (i + 1))"

declare memchr_from.simps [simp del]

definition memchr :: "u8 list \<Rightarrow> nat \<Rightarrow> u8 \<Rightarrow> nat \<Rightarrow> nat option option" where
  "memchr m pos c n = memchr_from (drop pos m) c n pos"

definition memcmp_eq :: "u8 list \<Rightarrow> nat \<Rightarrow> u8 list \<Rightarrow> nat \<Rightarrow> bool option" where
  "memcmp_eq m pos s n =
     (if pos + n \<le> length m \<and> n \<le> length s then Some (take n (drop pos m) = take n s) else None)"

text \<open>The loop; the length that \<open>memchr\<close> gets is unsigned.\<close>

partial_function (option) byte_index_from :: "u8 list \<Rightarrow> int \<Rightarrow> u8 list \<Rightarrow> nat \<Rightarrow> nat \<Rightarrow> int \<Rightarrow> int option" where
  "byte_index_from str_start str_len search_str search_len str_pos len_remain =
     do {
       c \<leftarrow> rd search_str 0;
       search_pos \<leftarrow> memchr str_start str_pos c (nat (len_remain mod 2 ^ 64));
       case search_pos of
         None \<Rightarrow> Some (- 1)
       | Some search_pos \<Rightarrow> do {
           eq \<leftarrow> memcmp_eq str_start search_pos search_str search_len;
           if eq then Some (int search_pos)
           else
             let len_remain = str_len - int search_pos in
             if len_remain < int search_len then Some (- 1)
             else byte_index_from str_start str_len search_str search_len (search_pos + 1) len_remain
         }
     }"

declare byte_index_from.simps [code]

definition Parrot_util_byte_index :: "parrot_string \<Rightarrow> parrot_string \<Rightarrow> u64 \<Rightarrow> int option" where
  "Parrot_util_byte_index base search start_offset =
     byte_index_from (strstart base) (int (strlen base)) (strstart search) (strlen search) (unat start_offset)
       (int (strlen base) - int (unat start_offset))"

fun byte_rindex_from :: "u8 list \<Rightarrow> u8 list \<Rightarrow> nat \<Rightarrow> nat \<Rightarrow> int option" where
  "byte_rindex_from base search searchlen 0 = Some (- 1)"
| "byte_rindex_from base search searchlen (Suc current_offset) =
     do {
       eq \<leftarrow> memcmp_eq base current_offset search searchlen;
       if eq then Some (int current_offset) else byte_rindex_from base search searchlen current_offset
     }"

text \<open>\<open>max_possible_offset\<close> is unsigned, the loop counts a signed variable down to 0.\<close>

definition Parrot_util_byte_rindex :: "parrot_string \<Rightarrow> parrot_string \<Rightarrow> u64 \<Rightarrow> int option" where
  "Parrot_util_byte_rindex base search start_offset =
     (let max_possible_offset = (of_nat (strlen base) - of_nat (strlen search) :: u64);
          max_possible_offset = (if start_offset \<noteq> 0 \<and> start_offset < max_possible_offset then start_offset else max_possible_offset)
      in byte_rindex_from (strstart base) (strstart search) (strlen search) (nat (sint max_possible_offset + 1)))"

section \<open>Occurrences\<close>

text \<open>One byte per character, and all of them in the storage.\<close>

definition byte_string :: "parrot_string \<Rightarrow> u8 list \<Rightarrow> bool" where
  "byte_string s bs \<longleftrightarrow> strlen s = length bs \<and> (\<exists>post. strstart s = bs @ post)"

definition occurs_at :: "u8 list \<Rightarrow> u8 list \<Rightarrow> nat \<Rightarrow> bool" where
  "occurs_at bs ss k \<longleftrightarrow> k + length ss \<le> length bs \<and> take (length ss) (drop k bs) = ss"

lemma memchr_finds:
  assumes "pos \<le> k" "k < length m" "m ! k = c" "\<forall>i. pos \<le> i \<longrightarrow> i < k \<longrightarrow> m ! i \<noteq> c"
  shows "k < pos + n \<Longrightarrow> memchr m pos c n = Some (Some k)" "pos + n \<le> k \<Longrightarrow> memchr m pos c n = Some None"
proof -
  have "(k < pos + n \<longrightarrow> memchr_from (drop pos m) c n pos = Some (Some k)) \<and> (pos + n \<le> k \<longrightarrow> memchr_from (drop pos m) c n pos = Some None)"
    using assms
  proof (induction "k - pos" arbitrary: pos n)
    case 0
    then have "drop pos m = c # drop (Suc pos) m" "pos = k" using Cons_nth_drop_Suc [of pos m] by simp_all
    then show ?case by (subst (1 2) memchr_from.simps) simp
  next
    case (Suc d)
    then have pos: "pos < length m" "m ! pos \<noteq> c" "pos < k" by auto
    then have "drop pos m = m ! pos # drop (Suc pos) m" by (simp add: Cons_nth_drop_Suc)
    moreover have "d = k - Suc pos" "Suc pos \<le> k" "\<forall>i. Suc pos \<le> i \<longrightarrow> i < k \<longrightarrow> m ! i \<noteq> c" using Suc.hyps(2) Suc.prems pos by auto
    note Suc.hyps(1) [OF this(1,2) Suc.prems(2,3) this(3), of "n - 1"]
    ultimately show ?case using pos by (subst (1 2) memchr_from.simps) (cases n; simp)
  qed
  then show "k < pos + n \<Longrightarrow> memchr m pos c n = Some (Some k)" "pos + n \<le> k \<Longrightarrow> memchr m pos c n = Some None"
    by (simp_all add: memchr_def)
qed

lemma memcmp_inside:
  assumes "k + length ss \<le> length bs"
  shows "memcmp_eq (bs @ post) k (ss @ post') (length ss) = Some (occurs_at bs ss k)"
  using assms by (simp add: memcmp_eq_def occurs_at_def)

text \<open>The first occurrence is found, when there is one.\<close>

lemma byte_index_from_first:
  assumes ss: "ss \<noteq> []" and k: "occurs_at bs ss k" "pos \<le> k" "\<forall>i. pos \<le> i \<longrightarrow> i < k \<longrightarrow> \<not> occurs_at bs ss i"
    and r: "int (length bs) \<le> int pos + len_remain" "len_remain < 2 ^ 64" and l: "length bs < 2 ^ 63"
  shows "byte_index_from (bs @ post) (int (length bs)) (ss @ post') (length ss) pos len_remain = Some (int k)"
  using k(2,3) r
proof (induction "k - pos" arbitrary: pos len_remain rule: less_induct)
  case less
  have kin: "k + length ss \<le> length bs" "0 < length ss" using k(1) ss by (simp_all add: occurs_at_def)
  let ?c = "ss ! 0"
  have ck: "bs ! k = ?c"
  proof -
    have "take (length ss) (drop k bs) ! 0 = ?c" using k(1) by (simp add: occurs_at_def)
    then show ?thesis using kin by simp
  qed
  define q where "q = (LEAST q. pos \<le> q \<and> bs ! q = ?c)"
  have q: "pos \<le> q" "bs ! q = ?c" "q \<le> k" "\<forall>i. pos \<le> i \<longrightarrow> i < q \<longrightarrow> bs ! i \<noteq> ?c"
  proof -
    let ?P = "\<lambda>q. pos \<le> q \<and> bs ! q = ?c"
    have "?P q" unfolding q_def by (rule LeastI [of ?P k]) (use ck less.prems(1) in simp)
    then show "pos \<le> q" "bs ! q = ?c" by simp_all
    show "q \<le> k" unfolding q_def by (rule Least_le) (use ck less.prems(1) in simp)
    have "\<not> ?P i" if "i < q" for i using that unfolding q_def by (rule not_less_Least)
    then show "\<forall>i. pos \<le> i \<longrightarrow> i < q \<longrightarrow> bs ! i \<noteq> ?c" by blast
  qed
  have qin: "q < length bs" "q + length ss \<le> length bs" using q(3) kin by linarith+
  have "0 \<le> len_remain" using less.prems(1,3) kin by linarith
  then have "len_remain mod 2 ^ 64 = len_remain" using less.prems(4) by (rule mod_pos_pos_trivial)
  moreover have "int q < int pos + len_remain" using less.prems(3) qin(1) by linarith
  ultimately have n: "q < pos + nat (len_remain mod 2 ^ 64)" using less.prems(1) by linarith
  have "memchr (bs @ post) pos ?c (nat (len_remain mod 2 ^ 64)) = Some (Some q)"
    by (rule memchr_finds(1) [OF q(1) _ _ _ n]) (use qin q in \<open>auto simp: nth_append\<close>)
  moreover have "rd (ss @ post') 0 = Some ?c" using ss by (cases ss) simp_all
  moreover note memcmp_inside [OF qin(2), of post post']
  moreover have "byte_index_from (bs @ post) (int (length bs)) (ss @ post') (length ss) (q + 1) (int (length bs) - int q) = Some (int k)"
    if "\<not> occurs_at bs ss q"
  proof -
    have "q \<noteq> k" using that k(1) by blast
    then have "k - (q + 1) < k - pos" "q + 1 \<le> k" "\<forall>i. q + 1 \<le> i \<longrightarrow> i < k \<longrightarrow> \<not> occurs_at bs ss i"
      using q(1,3) less.prems(2) by auto
    then show ?thesis by (rule less.hyps) (use qin l in auto)
  qed
  moreover have "q = k" if "occurs_at bs ss q"
    using that q(1,3) less.prems(2) by (cases "q = k") auto
  ultimately show ?case using qin by (subst byte_index_from.simps) (auto simp: Let_def)
qed

text \<open>The last occurrence up to a limit is found.\<close>

lemma byte_rindex_from_last:
  assumes "n + length ss \<le> length bs + 1"
  shows "byte_rindex_from (bs @ post) (ss @ post') (length ss) n =
    Some (if \<exists>i < n. occurs_at bs ss i then int (GREATEST i. i < n \<and> occurs_at bs ss i) else - 1)"
  using assms
proof (induction n)
  case (Suc n)
  show ?case
  proof (cases "occurs_at bs ss n")
    case True
    have "(GREATEST i. i < Suc n \<and> occurs_at bs ss i) = n" by (rule Greatest_equality) (use True in auto)
    then show ?thesis using True Suc.prems memcmp_inside [of n ss bs post post'] by auto
  next
    case False
    then have "i < Suc n \<and> occurs_at bs ss i \<longleftrightarrow> i < n \<and> occurs_at bs ss i" for i by (auto simp: less_Suc_eq)
    then show ?thesis using False Suc memcmp_inside [of n ss bs post post'] by auto
  qed
qed simp

lemma byte_index_first:
  assumes b: "byte_string base bs" and s: "byte_string search ss" "ss \<noteq> []" and l: "length bs < 2 ^ 63"
    and k: "occurs_at bs ss k" "unat start \<le> k" "\<forall>i. unat start \<le> i \<longrightarrow> i < k \<longrightarrow> \<not> occurs_at bs ss i"
  shows "Parrot_util_byte_index base search start = Some (int k)"
proof -
  obtain post post' where "strlen base = length bs" "strstart base = bs @ post" "strlen search = length ss" "strstart search = ss @ post'"
    using b s by (auto simp: byte_string_def)
  moreover have "int (length bs) \<le> int (unat start) + (int (length bs) - int (unat start))"
    "int (length bs) - int (unat start) < 2 ^ 64"
  proof -
    have "int (length bs) - int (unat start) \<le> int (length bs)" by (simp only: diff_le_eq of_nat_0_le_iff le_add_same_cancel1)
    also have "\<dots> < 2 ^ 64" using l by simp
    finally show "int (length bs) - int (unat start) < 2 ^ 64" .
  qed simp
  note byte_index_from_first [OF s(2) k this l, of post post']
  ultimately show ?thesis by (simp only: Parrot_util_byte_index_def)
qed

lemma byte_rindex_last:
  assumes b: "byte_string base bs" and s: "byte_string search ss" and l: "length bs < 2 ^ 63" "length ss \<le> length bs"
    and n: "n = (if start \<noteq> 0 then min (unat start) (length bs - length ss) else length bs - length ss)"
  shows "Parrot_util_byte_rindex base search start =
    Some (if \<exists>i \<le> n. occurs_at bs ss i then int (GREATEST i. i \<le> n \<and> occurs_at bs ss i) else - 1)"
proof -
  obtain post post' where p: "strlen base = length bs" "strstart base = bs @ post" "strlen search = length ss" "strstart search = ss @ post'"
    using b s by (auto simp: byte_string_def)
  let ?d = "length bs - length ss"
  have d: "(of_nat (length bs) - of_nat (length ss) :: u64) = of_nat ?d" using l(2) by (simp add: of_nat_diff)
  have u: "unat (of_nat ?d :: u64) = ?d" by (rule unat_of_nat_small) (use l(1) in simp)
  let ?m = "if start \<noteq> 0 \<and> start < of_nat ?d then start else of_nat ?d"
  have m: "unat ?m = n"
  proof -
    have "start < of_nat ?d \<longleftrightarrow> unat start < ?d" unfolding word_less_nat_alt u ..
    then show ?thesis using n u by auto
  qed
  have "n < 2 ^ 63" using n l(1) by (auto simp: min_def)
  then have "sint ?m = int n" 
  proof -
    assume n: "n < 2 ^ 63"
    have "sint ?m = signed_take_bit 63 (int (unat ?m))" by (simp add: sint_uint)
    also have "\<dots> = int n" unfolding m by (rule signed_take_bit_int_eq_self) (use n in auto)
    finally show ?thesis .
  qed
  then have "Parrot_util_byte_rindex base search start = byte_rindex_from (bs @ post) (ss @ post') (length ss) (n + 1)"
    unfolding Parrot_util_byte_rindex_def Let_def p d by (simp add: nat_add_distrib)
  moreover have "n + 1 + length ss \<le> length bs + 1" using n l(2) by (auto simp: min_def)
  ultimately show ?thesis using byte_rindex_from_last [of "n + 1" ss bs post post'] by (simp add: less_Suc_eq_le)
qed

text \<open>
  When the string is not found, bytes behind the string may be taken for its end: the loop
  compares at every position where the first byte matches.  So \<open>bc\<close> is found in \<open>ab\<close> if the
  storage goes on with \<open>c\<close>, and the comparison leaves the storage if it does not.
\<close>

lemma byte_index_beyond_end:
  "Parrot_util_byte_index \<lparr>strstart = [0x61, 0x62, 0x63], bufused = 2, strlen = 2, hashval = 0, encoding = Parrot_ascii_encoding_ptr\<rparr>
     \<lparr>strstart = [0x62, 0x63], bufused = 2, strlen = 2, hashval = 0, encoding = Parrot_ascii_encoding_ptr\<rparr> 0 = Some 1"
  "Parrot_util_byte_index \<lparr>strstart = [0x61, 0x62], bufused = 2, strlen = 2, hashval = 0, encoding = Parrot_ascii_encoding_ptr\<rparr>
     \<lparr>strstart = [0x62, 0x63], bufused = 2, strlen = 2, hashval = 0, encoding = Parrot_ascii_encoding_ptr\<rparr> 0 = None"
  by code_simp+

text \<open>A limit of 0 is no limit for the backwards search: \<open>a\<close> is found at the end of \<open>aba\<close>.\<close>

lemma byte_rindex_zero:
  "Parrot_util_byte_rindex \<lparr>strstart = [0x61, 0x62, 0x61], bufused = 3, strlen = 3, hashval = 0, encoding = Parrot_ascii_encoding_ptr\<rparr>
     \<lparr>strstart = [0x61], bufused = 1, strlen = 1, hashval = 0, encoding = Parrot_ascii_encoding_ptr\<rparr> 0 = Some 2"
  by code_simp

end
