(* ===== verification/Str_Index.thy ===== *)
theory Str_Index
  imports Str_Search_Rep Util_Search
begin

text \<open>
  The searches as strings call them: the functions of the fixed 8-bit encodings in
  \<open>src/string/encoding/shared.c\<close>, the macros that call what an encoding provides, and
  the two functions of \<open>src/string/api.c\<close>.
\<close>

section \<open>The code\<close>

definition fixed8_index :: "parrot_string \<Rightarrow> parrot_string \<Rightarrow> int \<Rightarrow> int option" where
  "fixed8_index src search offset =
     (if STRING_max_bytes_per_codepoint search \<noteq> 1 then encoding_index src search offset
      else if strlen src \<le> unat (word_of_int offset :: u64) \<or> strlen search = 0 then Some (- 1)
      else Parrot_util_byte_index src search (word_of_int offset))"

definition fixed8_rindex :: "parrot_string \<Rightarrow> parrot_string \<Rightarrow> int \<Rightarrow> int option" where
  "fixed8_rindex src search_string offset =
     (if STRING_max_bytes_per_codepoint search_string \<noteq> 1 then encoding_rindex src search_string offset
      else if offset < 0 \<or> strlen search_string = 0 then Some (- 1)
      else Parrot_util_byte_rindex src search_string (word_of_int offset))"

text \<open>The macros call the entries \<open>index\<close> and \<open>rindex\<close> of the encoding of the string.\<close>

definition STRING_index :: "parrot_string \<Rightarrow> parrot_string \<Rightarrow> int \<Rightarrow> int option" where
  "STRING_index src search offset =
     (case encoding src of
        Parrot_ascii_encoding_ptr \<Rightarrow> fixed8_index src search offset
      | Parrot_latin1_encoding_ptr \<Rightarrow> fixed8_index src search offset
      | Parrot_binary_encoding_ptr \<Rightarrow> fixed8_index src search offset
      | _ \<Rightarrow> encoding_index src search offset)"

definition STRING_rindex :: "parrot_string \<Rightarrow> parrot_string \<Rightarrow> int \<Rightarrow> int option" where
  "STRING_rindex src search offset =
     (case encoding src of
        Parrot_ascii_encoding_ptr \<Rightarrow> fixed8_rindex src search offset
      | Parrot_latin1_encoding_ptr \<Rightarrow> fixed8_rindex src search offset
      | Parrot_binary_encoding_ptr \<Rightarrow> fixed8_rindex src search offset
      | _ \<Rightarrow> encoding_rindex src search offset)"

text \<open>The length of a null string is 0.\<close>

definition Parrot_str_length :: "parrot_string option \<Rightarrow> nat" where
  "Parrot_str_length s = (case s of None \<Rightarrow> 0 | Some s \<Rightarrow> strlen s)"

definition Parrot_str_find_reverse_index :: "parrot_string option \<Rightarrow> parrot_string option \<Rightarrow> int \<Rightarrow> int option" where
  "Parrot_str_find_reverse_index src search start =
     (let len = int (Parrot_str_length src)
      in if start \<le> 0 \<or> len = 0 \<or> len < start then Some (- 1)
         else if Parrot_str_length search = 0 then Some (- 1)
         else do { s \<leftarrow> src; t \<leftarrow> search; STRING_rindex s t start })"

section \<open>Bytes and code points\<close>

abbreviation bytewise :: "parrot_string \<Rightarrow> parrot_string \<Rightarrow> bool" where
  "bytewise s t \<equiv> is_fixed8 (encoding s) \<and> is_fixed8 (encoding t)"

lemma dispatch:
  "STRING_index s t off = (if bytewise s t then fixed8_index s t off else encoding_index s t off)"
  "STRING_rindex s t off = (if bytewise s t then fixed8_rindex s t off else encoding_rindex s t off)"
  using max_bytes_1 [of t]
  by (cases "encoding s"; simp add: STRING_index_def STRING_rindex_def fixed8_index_def fixed8_rindex_def)+

lemma fixed8_bytes:
  assumes "chars s cs" "is_fixed8 (encoding s)"
  shows "byte_string s (map ucast cs)" "\<forall>c \<in> set cs. c < 0x100"
  using fixed8_chars [OF assms] chars_strlen [OF assms(1)] by (auto simp: byte_string_def)

lemma unat_word_of_int_small: "0 \<le> n \<Longrightarrow> n < 2 ^ 63 \<Longrightarrow> unat (word_of_int n :: u64) = nat n"
  by (simp add: unat_eq_nat_uint word_of_int_inverse uint_word_of_int)

lemma occurs_at_bytes:
  assumes "\<forall>c \<in> set cs. c < 0x100" "\<forall>c \<in> set ds. c < 0x100"
  shows "occurs_at (map ucast cs) (map ucast ds :: u8 list) k \<longleftrightarrow> occurs ds cs k"
proof -
  let ?xs = "take (length ds) (drop k cs)"
  have x: "\<forall>c \<in> set ?xs. c < 0x100" using assms(1) by (auto dest: in_set_takeD in_set_dropD)
  have "map (ucast :: u64 \<Rightarrow> u8) ?xs = map ucast ds \<longleftrightarrow> ?xs = ds"
    using ucast_back [OF x] ucast_back [OF assms(2)] by metis
  then show ?thesis by (simp add: occurs_at_def occurs_def take_map drop_map)
qed

section \<open>What the searches find\<close>

text \<open>An occurrence that exists is found among bytes.\<close>

lemma fixed8_index_chars:
  assumes "chars s cs" "chars t ds" "bytewise s t" "ds \<noteq> []" "length cs < 2 ^ 63" "0 \<le> off"
    and k: "nat off \<le> k" "occurs ds cs k"
  shows "\<exists>r. fixed8_index s t off = Some r \<and> first_occurrence ds cs (nat off) r"
proof -
  define j where "j = (LEAST j. nat off \<le> j \<and> occurs ds cs j)"
  have j: "nat off \<le> j" "occurs ds cs j" using LeastI [of "\<lambda>j. nat off \<le> j \<and> occurs ds cs j" k] k by (simp_all add: j_def)
  have before: "\<forall>i. nat off \<le> i \<and> i < j \<longrightarrow> \<not> occurs ds cs i" using not_less_Least j_def by blast
  have o: "nat off < length cs" using j assms(4) by (cases ds) (auto simp: occurs_def)
  then have u: "unat (word_of_int off :: u64) = nat off"
    using assms(5,6) by (simp add: unat_word_of_int_small)
  have sl: "strlen s = length cs" "strlen t = length ds" using assms(1,2) by (simp_all add: chars_strlen)
  note s = fixed8_bytes [OF assms(1) conjunct1 [OF assms(3)]] and t = fixed8_bytes [OF assms(2) conjunct2 [OF assms(3)]]
  note oc = occurs_at_bytes [OF s(2) t(2)]
  have "Parrot_util_byte_index s t (word_of_int off) = Some (int j)"
    by (rule byte_index_first [OF s(1) t(1)]) (use assms(4,5) j before u oc in auto)
  then have "fixed8_index s t off = Some (int j)"
    using o u sl assms(3,4) max_bytes_1 [of t] by (simp add: fixed8_index_def)
  then show ?thesis using j before by (auto simp: first_occurrence_def)
qed

lemma fixed8_rindex_chars:
  assumes "chars s cs" "chars t ds" "bytewise s t" "ds \<noteq> []" "length cs < 2 ^ 63" "0 < off" "off < 2 ^ 63"
    and l: "length ds \<le> length cs"
  shows "\<exists>r. fixed8_rindex s t off = Some r \<and> last_occurrence ds cs (nat off) r"
proof -
  have u: "unat (word_of_int off :: u64) = nat off" using assms(6,7) by (simp add: unat_word_of_int_small)
  then have nz: "(word_of_int off :: u64) \<noteq> 0" using assms(6) by (metis unat_0 less_irrefl zero_less_nat_eq)
  have sl: "strlen s = length cs" "strlen t = length ds" using assms(1,2) by (simp_all add: chars_strlen)
  note s = fixed8_bytes [OF assms(1) conjunct1 [OF assms(3)]] and t = fixed8_bytes [OF assms(2) conjunct2 [OF assms(3)]]
  note oc = occurs_at_bytes [OF s(2) t(2)]
  define n where "n = min (nat off) (length cs - length ds)"
  define r where "r = (if \<exists>i \<le> n. occurs ds cs i then int (GREATEST i. i \<le> n \<and> occurs ds cs i) else - 1)"
  have "Parrot_util_byte_rindex s t (word_of_int off) = Some r"
    unfolding r_def oc [symmetric]
    by (rule byte_rindex_last [OF s(1) t(1)]) (use assms(5) l nz u n_def in simp_all)
  then have "fixed8_rindex s t off = Some r"
    using sl assms(3,4,6) max_bytes_1 [of t] by (simp add: fixed8_rindex_def)
  moreover have "last_occurrence ds cs n r"
  proof (cases "\<exists>i \<le> n. occurs ds cs i")
    case False
    then have "r = - 1" by (auto simp: r_def)
    then show ?thesis using False by (simp add: last_occurrence_def)
  next
    case True
    let ?P = "\<lambda>i. i \<le> n \<and> occurs ds cs i"
    have g: "?P (GREATEST i. ?P i)" by (rule GreatestI_ex_nat [of _ n]) (use True in auto)
    have "i \<le> (GREATEST i. ?P i)" if "?P i" for i by (rule Greatest_le_nat [of _ _ n]) (use that in auto)
    then show ?thesis using g True by (fastforce simp: last_occurrence_def r_def)
  qed
  moreover have "\<not> occurs ds cs i" if "n < i" "i \<le> nat off" for i using that l by (auto simp: n_def occurs_def min_def split: if_splits)
  ultimately show ?thesis using last_occurrence_extend [of ds cs n r "nat off"] n_def by auto
qed

section \<open>Where the search for bytes fails\<close>

definition ascii_in :: "u8 list \<Rightarrow> nat \<Rightarrow> parrot_string" where
  "ascii_in m n = \<lparr>strstart = m, bufused = n, strlen = n, hashval = 0, encoding = Parrot_ascii_encoding_ptr\<rparr>"

text \<open>
  Among bytes, a string that does not occur may be found across the end of the storage that
  is used, or the comparison may leave the storage: \<open>bc\<close> in \<open>ab\<close> followed by \<open>c\<close>, and by
  nothing.  Backwards, an offset of 0 is no limit, and for a string that is longer than
  the one searched bytes behind the end are compared again.
\<close>

lemma byte_search_beyond_end:
  "STRING_index (ascii_in [0x61, 0x62, 0x63] 2) (ascii_in [0x62, 0x63] 2) 0 = Some 1"
  "STRING_index (ascii_in [0x61, 0x62] 2) (ascii_in [0x62, 0x63] 2) 0 = None"
  "STRING_rindex (ascii_in [0x61, 0x62, 0x61] 3) (ascii_in [0x61] 1) 0 = Some 2"
  "Parrot_str_find_reverse_index (Some (ascii_in [0x61, 0x62, 0x63, 0x64] 2)) (Some (ascii_in [0x61, 0x62, 0x63] 3)) 1 = Some 0"
  "Parrot_str_find_reverse_index (Some (ascii_in [0x61, 0x62] 2)) (Some (ascii_in [0x61, 0x62, 0x63] 3)) 1 = None"
  by code_simp+

end
