(* ===== verification/Str_Claims.thy ===== *)
theory Str_Claims
  imports Str_Scan_Rep Str_Index
begin

text \<open>
  What the string functions promise to their callers, for strings of every encoding:
  \<open>chars s cs\<close> says that \<open>s\<close> is well-formed and that its code points are \<open>cs\<close>.
\<close>

section \<open>Sample strings\<close>

lemma chars_code:
  "chars s cs \<longleftrightarrow> list_all (valid_in (encoding s)) cs \<and> strlen s = length cs \<and> bufused s = length (bytes_of (encoding s) cs)
    \<and> take (length (bytes_of (encoding s) cs)) (strstart s) = bytes_of (encoding s) cs"
proof -
  have "(\<exists>post. xs = ys @ post) \<longleftrightarrow> take (length ys) xs = ys" for xs ys :: "u8 list"
    by (metis append_eq_conv_conj)
  then show ?thesis by (simp add: chars_iff list_all_iff)
qed

text \<open>\<open>caf\<close> with an acute e, in UTF-8 and in Latin-1; a UTF-16 string with a surrogate pair.\<close>

definition cafe_utf8 :: parrot_string where
  "cafe_utf8 = \<lparr>strstart = [0x63, 0x61, 0x66, 0xC3, 0xA9], bufused = 5, strlen = 4, hashval = 0, encoding = Parrot_utf8_encoding_ptr\<rparr>"

definition cafe_latin1 :: parrot_string where
  "cafe_latin1 = \<lparr>strstart = [0x63, 0x61, 0x66, 0xE9], bufused = 4, strlen = 4, hashval = 0, encoding = Parrot_latin1_encoding_ptr\<rparr>"

definition clef_utf16 :: parrot_string where
  "clef_utf16 = \<lparr>strstart = [0x34, 0xD8, 0x1E, 0xDD, 0x61, 0], bufused = 6, strlen = 2, hashval = 0, encoding = Parrot_utf16_encoding_ptr\<rparr>"

definition af_utf8 :: parrot_string where
  "af_utf8 = \<lparr>strstart = [0x61, 0x66], bufused = 2, strlen = 2, hashval = 0, encoding = Parrot_utf8_encoding_ptr\<rparr>"

lemma samples:
  "chars cafe_utf8 [0x63, 0x61, 0x66, 0xE9]" "chars cafe_latin1 [0x63, 0x61, 0x66, 0xE9]" "chars clef_utf16 [0x1D11E, 0x61]"
  "chars af_utf8 [0x61, 0x66]"
  unfolding chars_code by code_simp+

section \<open>Reading and writing through iterators\<close>

text \<open>
  C22. A code point the encoding can hold, written over one of as many bytes, is read back
  from the same place and nothing else of the string changes; for a code point it cannot
  hold the write throws. This holds for every encoding.
\<close>

theorem STRING_set_get_roundtrip:
  assumes "chars s cs" "k < length cs" "length (chunk_of (encoding s) c) = length (chunk_of (encoding s) (cs ! k))"
  shows "if valid_in (encoding s) c
    then \<exists>s'. STRING_iter_set_and_advance s (str_iter s cs k) c = Done (s', str_iter s (cs[k := c]) (Suc k))
      \<and> encoding s' = encoding s \<and> chars s' (cs[k := c]) \<and> STRING_iter_get s' (str_iter s (cs[k := c]) k) 0 = Some c
    else \<exists>x. STRING_iter_set_and_advance s (str_iter s cs k) c = Thrown x"
proof (cases "valid_in (encoding s) c")
  case True
  obtain s' where r: "vt_iter_set_and_advance (vtable_of (encoding s)) s (str_iter s cs k) c = Done (s', str_iter s (cs[k := c]) (Suc k))"
    "holds (chunk_of (encoding s)) (valid_in (encoding s)) s' (cs[k := c])" "encoding s' = encoding s"
    using vt.set_then_get [OF assms(1) [unfolded chars_def] refl assms(2) True assms(3)] by blast
  then have "chars s' (cs[k := c])" by (simp add: chars_def)
  moreover from this have "STRING_iter_get s' (str_iter s' (cs[k := c]) k) 0 = Some (cs[k := c] ! k)"
    by (rule STRING_get) (use assms(2) in simp_all)
  ultimately show ?thesis using r True assms(2) by (simp add: STRING_iter_set_and_advance_def)
next
  case False
  have "\<exists>x. vt_iter_set_and_advance (vtable_of (encoding s)) s (str_iter s cs k) c = Thrown x"
    by (rule vt.set_invalid) (use False in simp_all)
  with False show ?thesis by (simp add: STRING_iter_set_and_advance_def)
qed

theorem STRING_set_get_roundtrip_witness:
  "\<exists>s'. STRING_iter_set_and_advance cafe_utf8 (str_iter cafe_utf8 [0x63, 0x61, 0x66, 0xE9] 3) 0xE8
      = Done (s', str_iter cafe_utf8 [0x63, 0x61, 0x66, 0xE8] 4) \<and> chars s' [0x63, 0x61, 0x66, 0xE8]"
proof -
  have "3 < length [0x63, 0x61, 0x66, 0xE9 :: u64]" by simp
  moreover have "length (chunk_of (encoding cafe_utf8) 0xE8) = length (chunk_of (encoding cafe_utf8) ([0x63, 0x61, 0x66, 0xE9] ! 3))"
    by code_simp
  moreover have "valid_in (encoding cafe_utf8) 0xE8" by code_simp
  ultimately show ?thesis using STRING_set_get_roundtrip [where k = 3 and c = "0xE8", OF samples(1)] by auto
qed

text \<open>
  C23. Scanning accepts the bytes of a string exactly when they are the bytes of code points
  of its encoding, counts these, and leaves a well-formed string; it never reads outside
  the storage.
\<close>

theorem STRING_scan_well_formed:
  assumes "bufused s \<le> length (strstart s)"
  shows "(STRING_scan s = Done s' \<longleftrightarrow> (\<exists>cs. chars s' cs \<and> s' = s\<lparr>strlen := length cs\<rparr>)) \<and> STRING_scan s \<noteq> Undefined"
  using STRING_scan_chars [OF assms] by blast

theorem STRING_scan_well_formed_witness: "STRING_scan (cafe_utf8\<lparr>strlen := 0\<rparr>) = Done cafe_utf8"
proof -
  have "chars cafe_utf8 [0x63, 0x61, 0x66, 0xE9] \<and> cafe_utf8 = (cafe_utf8\<lparr>strlen := 0\<rparr>)\<lparr>strlen := length [0x63, 0x61, 0x66, 0xE9 :: u64]\<rparr>"
    using samples(1) by (simp add: cafe_utf8_def)
  moreover have "bufused (cafe_utf8\<lparr>strlen := 0\<rparr>) \<le> length (strstart (cafe_utf8\<lparr>strlen := 0\<rparr>))" by (simp add: cafe_utf8_def)
  ultimately show ?thesis using STRING_scan_well_formed [of "cafe_utf8\<lparr>strlen := 0\<rparr>" cafe_utf8] by blast
qed

text \<open>
  C24. \<open>ord\<close> returns the code point at an index, counted from the end when it is negative,
  and outside the string throws the exception that says on which side the index is.
\<close>

theorem STRING_ord_correct:
  assumes "chars s cs"
  shows "STRING_ord s idx =
    (if 0 \<le> idx \<and> idx < int (length cs) then Done (cs ! nat idx)
     else if idx < 0 \<and> - int (length cs) \<le> idx then Done (cs ! (length cs - nat (- idx)))
     else Thrown (if cs = [] then ''Cannot get character of empty string''
                  else if idx \<ge> 0 then ''Cannot get character past end of string''
                  else ''Cannot get character before beginning of string''))"
proof -
  have "nat (idx + int (length cs)) = length cs - nat (- idx)" if "idx < 0" using that by linarith
  then show ?thesis unfolding STRING_ord_chars [OF assms]
    by (auto simp: ord_index_def encoding_ord_error_def Let_def)
qed

theorem STRING_ord_correct_witness: "STRING_ord clef_utf16 (- 2) = Done 0x1D11E"
  using STRING_ord_correct [OF samples(3), of "- 2"] by simp

section \<open>Comparing and hashing\<close>

text \<open>
  C25. Equality of strings is equality of their code points, across encodings, provided
  that the cached hash values, which the code compares first, come from one seed.  Two
  strings of one encoding are compared over the bytes the left one uses, which the storage
  of the right one must have.
\<close>

theorem STRING_equal_correct:
  assumes "chars l cs" "chars r ds" "hash_cached h0 l cs" "hash_cached h0 r ds" "same \<Longrightarrow> l = r"
    and "encoding l = encoding r \<Longrightarrow> bufused l \<le> length (strstart r)"
  shows "STRING_equal same l r = Some (cs = ds)"
  using assms by (rule STRING_equal_chars)

theorem STRING_equal_correct_witness: "STRING_equal False cafe_utf8 cafe_latin1 = Some True"
  using STRING_equal_correct [OF samples(1,2), of 0 False] by (simp add: hash_cached_def cafe_utf8_def cafe_latin1_def)

text \<open>
  C26. The hash of a string is a function of its code points and the seed alone, so strings
  that are equal in different encodings hash alike; the value is cached in the string.
\<close>

theorem STRING_hash_encoding_independent:
  assumes "chars l cs" "chars r cs"
  shows "\<exists>h. STRING_hash l h0 = Some (l\<lparr>hashval := h\<rparr>, h) \<and> STRING_hash r h0 = Some (r\<lparr>hashval := h\<rparr>, h)
    \<and> hash_cached h0 (l\<lparr>hashval := h\<rparr>) cs \<and> hash_cached h0 (r\<lparr>hashval := h\<rparr>) cs"
  using STRING_hash_chars [OF assms(1)] STRING_hash_chars [OF assms(2)] by (simp add: hash_cached_def)

theorem STRING_hash_encoding_independent_witness:
  "\<exists>h. STRING_hash cafe_utf8 7 = Some (cafe_utf8\<lparr>hashval := h\<rparr>, h) \<and> STRING_hash cafe_latin1 7 = Some (cafe_latin1\<lparr>hashval := h\<rparr>, h)"
  using STRING_hash_encoding_independent [OF samples(1,2), of 7] by blast

lemma compare_points_lexord:
  "compare_points cs ds \<in> {- 1, 0, 1} \<and> (compare_points cs ds = - 1 \<longleftrightarrow> (cs, ds) \<in> lexord {(a, b). a < b})
    \<and> (compare_points cs ds = 0 \<longleftrightarrow> cs = ds)"
  by (induction cs ds rule: compare_points.induct) auto

text \<open>
  C27. \<open>compare\<close> is the lexicographic order of the code points, whatever the encodings:
  - 1 for less, 0 for equal, 1 for greater.
\<close>

theorem STRING_compare_lexicographic:
  assumes "chars l cs" "chars r ds"
  shows "\<exists>v \<in> {- 1, 0, 1}. STRING_compare l r = Some v
    \<and> (v = - 1 \<longleftrightarrow> (cs, ds) \<in> lexord {(a, b). a < b}) \<and> (v = 0 \<longleftrightarrow> cs = ds)"
  using STRING_compare_chars [OF assms] compare_points_lexord [of cs ds] by blast

theorem STRING_compare_lexicographic_witness: "\<exists>v. STRING_compare cafe_latin1 clef_utf16 = Some v \<and> v = - 1"
  using STRING_compare_lexicographic [OF samples(2,3)] by auto

section \<open>Searching\<close>

text \<open>
  C28. Searching forwards from an offset inside the string finds the first occurrence at or
  after it, searching backwards the last occurrence at or before it, and both give - 1 when
  there is none; the two strings may be in any two encodings.  When both are in one of the
  three fixed 8-bit encodings, the search is one for bytes and keeps this only in part:
  forwards when there is an occurrence, backwards when the offset is not 0 and the string
  searched for is not the longer one (\<open>byte_search_beyond_end\<close> shows what happens otherwise).
\<close>

theorem STRING_search_correct:
  assumes "chars s cs" "chars t ds" "ds \<noteq> []" "0 \<le> off"
    and "bytewise s t \<longrightarrow> length cs < 2 ^ 63 \<and> off < 2 ^ 63"
  shows "(off < int (length cs) \<and> (bytewise s t \<longrightarrow> (\<exists>k \<ge> nat off. occurs ds cs k))
        \<longrightarrow> (\<exists>r. STRING_index s t off = Some r \<and> first_occurrence ds cs (nat off) r))
    \<and> ((bytewise s t \<longrightarrow> 0 < off \<and> length ds \<le> length cs)
        \<longrightarrow> (\<exists>r. STRING_rindex s t off = Some r \<and> last_occurrence ds cs (nat off) r))"
proof (cases "bytewise s t")
  case True
  then show ?thesis
    using fixed8_index_chars [OF assms(1,2) True assms(3)] fixed8_rindex_chars [OF assms(1,2) True assms(3)] assms(4,5)
    unfolding dispatch by auto
next
  case False
  then show ?thesis
    using encoding_index_chars [OF assms(1-4)] encoding_rindex_chars [OF assms(1-4)]
    unfolding dispatch if_not_P [OF False] by blast
qed

theorem STRING_search_correct_witness:
  "(\<exists>r. STRING_index cafe_latin1 af_utf8 0 = Some r \<and> first_occurrence [0x61, 0x66] [0x63, 0x61, 0x66, 0xE9] 0 r)
    \<and> (\<exists>r. STRING_rindex cafe_latin1 cafe_latin1 2 = Some r
         \<and> last_occurrence [0x63, 0x61, 0x66, 0xE9] [0x63, 0x61, 0x66, 0xE9] 2 r)"
  using STRING_search_correct [OF samples(2,4), of 0] STRING_search_correct [OF samples(2,2), of 2]
  by (simp add: af_utf8_def)

section \<open>Substrings and conversions\<close>

text \<open>
  C29. A substring has the code points that the offset, counted from the end when it is
  negative, and the length select, cut off at the end of the string; an offset outside the
  string throws, and a length of zero or less gives the empty string whatever the offset.
\<close>

theorem STRING_substr_correct:
  assumes "chars s cs"
  shows "let n = int (length cs); o' = (if off < 0 then off + n else off) in
    if len \<le> 0 \<or> 0 \<le> o' \<and> o' \<le> n
    then \<exists>r. STRING_substr s off len = Done r \<and> chars r (if len \<le> 0 then [] else take (nat len) (drop (nat o') cs))
    else STRING_substr s off len = Thrown ''Cannot take substr outside string''"
  using STRING_substr_chars [OF assms, of off len]
  by (auto simp: substr_points_def Let_def split: if_splits)

theorem STRING_substr_correct_witness: "\<exists>r. STRING_substr clef_utf16 (- 1) 5 = Done r \<and> chars r [0x61]"
  using STRING_substr_correct [OF samples(3), of "- 1" 5] by (simp add: Let_def)

text \<open>
  C30. Converting to a fixed 8-bit encoding, UTF-8 or UCS-4 succeeds exactly when the target
  can hold every code point, and then keeps the code points.
\<close>

theorem STRING_to_encoding_correct:
  assumes "chars s cs" "e \<notin> {Parrot_utf16_encoding_ptr, Parrot_ucs2_encoding_ptr}"
  shows "if \<forall>c \<in> set cs. valid_in e c
    then \<exists>r. STRING_to_encoding avg junk e s = Done r \<and> chars r cs \<and> encoding r = e
    else \<exists>x. STRING_to_encoding avg junk e s = Thrown x"
  using STRING_to_encoding_converts [OF assms] by (simp add: converts_def)

theorem STRING_to_encoding_correct_witness:
  "\<exists>r. STRING_to_encoding (\<lambda>n. n) (\<lambda>_. 0) Parrot_utf8_encoding_ptr clef_utf16 = Done r \<and> chars r [0x1D11E, 0x61]
    \<and> encoding r = Parrot_utf8_encoding_ptr"
proof -
  have "\<forall>c \<in> set [0x1D11E, 0x61]. valid_in Parrot_utf8_encoding_ptr c" by code_simp
  then show ?thesis using STRING_to_encoding_correct [OF samples(3), of Parrot_utf8_encoding_ptr "\<lambda>n. n" "\<lambda>_. 0"] by simp
qed

lemma utf16_bytes_small: "\<forall>c \<in> set cs. c < 0x10000 \<Longrightarrow> length (concat (map utf16_bytes cs)) = 2 * length cs"
  by (induction cs) (auto simp: length_utf16_bytes utf16_units_of_def)

lemma utf16_to_encoding_choice:
  assumes s: "chars s cs" and e: "encoding s \<noteq> Parrot_utf16_encoding_ptr"
  shows "\<exists>r. utf16_to_encoding avg junk s = Done r \<and> chars r cs
    \<and> encoding r = (if \<forall>c \<in> set cs. c < 0x10000 then Parrot_ucs2_encoding_ptr else Parrot_utf16_encoding_ptr)"
proof -
  obtain r where r: "utf16_to_encoding avg junk s = Done r" "chars r cs"
    "encoding r = Parrot_ucs2_encoding_ptr \<or> encoding r = Parrot_utf16_encoding_ptr \<and> bufused r \<noteq> 2 * strlen r"
    using utf16_to_encoding_chars [OF s] e by blast
  from r(3) have "encoding r = (if \<forall>c \<in> set cs. c < 0x10000 then Parrot_ucs2_encoding_ptr else Parrot_utf16_encoding_ptr)"
  proof
    assume "encoding r = Parrot_ucs2_encoding_ptr"
    then show ?thesis using r(2) by (auto simp: chars_iff ucs2_valid_def)
  next
    assume "encoding r = Parrot_utf16_encoding_ptr \<and> bufused r \<noteq> 2 * strlen r"
    then show ?thesis using r(2) utf16_bytes_small [of cs] by (auto simp: chars_iff)
  qed
  then show ?thesis using r by blast
qed

lemma utf16_to_encoding_same:
  assumes s: "chars s cs" and e: "encoding s = Parrot_utf16_encoding_ptr"
  shows "\<exists>r. utf16_to_encoding avg junk s = Done r \<and> chars r cs \<and> encoding r = Parrot_utf16_encoding_ptr"
  using chars_clone [OF s] Parrot_str_clone_eq [OF chars_used(2) [OF s]] e
  by (simp add: utf16_to_encoding_def Let_def max_bytes_Suc)

text \<open>
  Converting to UTF-16 always succeeds, keeps the code points and picks UCS-2 when they
  all fit, unless the string was UTF-16 before, which is copied as it is: so a conversion
  of such a string to UCS-2 throws even when every code point fits.
\<close>

theorem utf16_to_encoding_correct:
  assumes "chars s cs"
  shows "let fits = (encoding s \<noteq> Parrot_utf16_encoding_ptr \<and> (\<forall>c \<in> set cs. c < 0x10000)) in
    \<exists>r. STRING_to_encoding avg junk Parrot_utf16_encoding_ptr s = Done r \<and> chars r cs
      \<and> encoding r = (if fits then Parrot_ucs2_encoding_ptr else Parrot_utf16_encoding_ptr)
      \<and> STRING_to_encoding avg junk Parrot_ucs2_encoding_ptr s = (if fits then Done r else Thrown ''Lossy conversion to UCS-2'')"
  using utf16_to_encoding_choice [OF assms, of avg junk] utf16_to_encoding_same [OF assms, of avg junk]
  by (cases "encoding s = Parrot_utf16_encoding_ptr"; cases "\<forall>c \<in> set cs. c < 0x10000")
    (auto simp: ucs2_to_encoding_def Let_def)

theorem utf16_to_encoding_correct_witness:
  "\<exists>r. STRING_to_encoding (\<lambda>n. n) (\<lambda>_. 0) Parrot_utf16_encoding_ptr cafe_utf8 = Done r \<and> chars r [0x63, 0x61, 0x66, 0xE9]
    \<and> encoding r = Parrot_ucs2_encoding_ptr"
  using utf16_to_encoding_correct [OF samples(1), of "\<lambda>n. n" "\<lambda>_. 0"] by (auto simp: Let_def cafe_utf8_def)

end
