(* ===== verification/Str_Api.thy ===== *)
theory Str_Api
  imports Str_Encode_Rep
begin

text \<open>
  Functions of \<open>src/string/api.c\<close> that make strings from strings: creation, single
  characters, concatenation, repetition, replacement, cutting off the end, and bitwise
  operations.  A \<open>STRING *\<close> that may be \<open>STRINGNULL\<close> is an option.
\<close>

type_synonym nstring = "parrot_string option"

definition STRING_length :: "nstring \<Rightarrow> nat" where
  "STRING_length s = (case s of None \<Rightarrow> 0 | Some s \<Rightarrow> strlen s)"

definition Parrot_str_byte_length :: "nstring \<Rightarrow> nat" where
  "Parrot_str_byte_length s = (case s of None \<Rightarrow> 0 | Some s \<Rightarrow> bufused s)"

section \<open>Creation\<close>

definition string_max_bytes :: "parrot_string \<Rightarrow> nat \<Rightarrow> nat" where
  "string_max_bytes s nchars = STRING_max_bytes_per_codepoint s * nchars"

definition Parrot_str_new_noinit :: "(nat \<Rightarrow> u8) \<Rightarrow> nat \<Rightarrow> parrot_string" where
  "Parrot_str_new_noinit junk capacity =
     (let s = \<lparr>strstart = [], bufused = 0, strlen = 0, hashval = 0, encoding = Parrot_ascii_encoding_ptr\<rparr>
      in s\<lparr>strstart := alloc_bytes junk (string_max_bytes s capacity)\<rparr>)"

text \<open>Without the flag for external strings; \<open>buffer\<close> is \<open>None\<close> for \<open>NULL\<close>.\<close>

definition Parrot_str_new_init :: "(nat \<Rightarrow> u8) \<Rightarrow> u8 list option \<Rightarrow> nat \<Rightarrow> encoding_ptr \<Rightarrow> parrot_string outcome" where
  "Parrot_str_new_init junk buffer len enc =
     (let s = \<lparr>strstart = alloc_bytes junk len, bufused = 0, strlen = 0, hashval = 0, encoding = enc\<rparr>
      in case buffer of
           Some b \<Rightarrow> if len = 0 then Done s
                     else obind (defined (memcpy (strstart s) 0 b len)) (\<lambda>m. STRING_scan (s\<lparr>strstart := m, bufused := len\<rparr>))
         | None \<Rightarrow> Done s)"

definition unicode_chr :: "(nat \<Rightarrow> u8) \<Rightarrow> u64 \<Rightarrow> parrot_string outcome" where
  "unicode_chr junk codepoint =
     obind (Parrot_str_new_init junk None 4 Parrot_utf8_encoding_ptr) (\<lambda>dest.
     obind (STRING_iter_set_and_advance (dest\<lparr>bufused := 4, strlen := 1\<rparr>) STRING_ITER_INIT codepoint) (\<lambda>(dest, iter).
     Done (dest\<lparr>bufused := bytepos iter\<rparr>)))"

definition ascii_chr :: "(nat \<Rightarrow> u8) \<Rightarrow> u64 \<Rightarrow> parrot_string outcome" where
  "ascii_chr junk codepoint = Parrot_str_new_init junk (Some [ucast codepoint]) 1 Parrot_ascii_encoding_ptr"

definition latin1_chr :: "(nat \<Rightarrow> u8) \<Rightarrow> u64 \<Rightarrow> parrot_string outcome" where
  "latin1_chr junk codepoint =
     obind (defined (c_assert (codepoint < 0x100))) (\<lambda>_.
     Parrot_str_new_init junk (Some [ucast codepoint]) 1 Parrot_latin1_encoding_ptr)"

definition Parrot_str_chr :: "(nat \<Rightarrow> u8) \<Rightarrow> u64 \<Rightarrow> parrot_string outcome" where
  "Parrot_str_chr junk character =
     (if character > 0xFF then unicode_chr junk character
      else if character > 0x7F then latin1_chr junk character
      else ascii_chr junk character)"

section \<open>Concatenation\<close>

definition string_rep_compatible :: "parrot_string \<Rightarrow> parrot_string \<Rightarrow> encoding_ptr option" where
  "string_rep_compatible a b =
     (if encoding a = encoding b then Some (encoding a)
      else if STRING_max_bytes_per_codepoint a = 1 \<and> STRING_max_bytes_per_codepoint b = 1
      then (if encoding b = Parrot_ascii_encoding_ptr then Some (encoding a)
            else if encoding a = Parrot_ascii_encoding_ptr then Some (encoding b)
            else if encoding a = Parrot_binary_encoding_ptr then Some (encoding a)
            else if encoding b = Parrot_binary_encoding_ptr then Some (encoding b)
            else None)
      else if encoding a = Parrot_utf8_encoding_ptr \<and> encoding b = Parrot_ascii_encoding_ptr
      then Some (if strlen a = bufused a then encoding b else encoding a)
      else if encoding b = Parrot_utf8_encoding_ptr \<and> encoding a = Parrot_ascii_encoding_ptr
      then Some (if strlen b = bufused b then encoding a else encoding b)
      else None)"

text \<open>The encoding two incompatible strings are upgraded to.\<close>

definition concat_upgrade :: "parrot_string \<Rightarrow> parrot_string \<Rightarrow> encoding_ptr" where
  "concat_upgrade a b =
     (if encoding a = Parrot_ucs4_encoding_ptr \<or> encoding b = Parrot_ucs4_encoding_ptr then Parrot_ucs4_encoding_ptr
      else if encoding a = Parrot_utf16_encoding_ptr \<or> encoding b = Parrot_utf16_encoding_ptr
        \<or> encoding a = Parrot_ucs2_encoding_ptr \<or> encoding b = Parrot_ucs2_encoding_ptr then Parrot_utf16_encoding_ptr
      else Parrot_utf8_encoding_ptr)"

text \<open>
  The end of \<open>Parrot_str_concat\<close>, for strings of compatible representation.  \<open>growable\<close> is
  the flag of \<open>a\<close>; there is room behind \<open>a\<close> when its storage is long enough.
\<close>

definition concat_same :: "(nat \<Rightarrow> u8) \<Rightarrow> (parrot_string \<Rightarrow> bool) \<Rightarrow> encoding_ptr \<Rightarrow> parrot_string \<Rightarrow> parrot_string \<Rightarrow> parrot_string option" where
  "concat_same junk growable enc a b =
     (let total_length = bufused a + bufused b in
      do {
        dest \<leftarrow>
          (if growable a \<and> total_length \<le> length (strstart a)
           then do {
             let dest = Parrot_str_copy a;
             m \<leftarrow> memcpy (strstart dest) (bufused dest) (strstart b) (bufused b);
             Some (dest\<lparr>strstart := m, encoding := enc, hashval := 0\<rparr>)
           }
           else do {
             let total_length = (if 4 * bufused b < bufused a then total_length + total_length div 2 else total_length);
             let dest = Parrot_str_new_noinit junk total_length;
             m \<leftarrow> memcpy (strstart dest) 0 (strstart a) (bufused a);
             m \<leftarrow> memcpy m (bufused a) (strstart b) (bufused b);
             Some (dest\<lparr>strstart := m, encoding := enc\<rparr>)
           });
        Some (dest\<lparr>bufused := bufused a + bufused b, strlen := strlen a + strlen b\<rparr>)
      })"

definition Parrot_str_concat :: "(nat \<Rightarrow> nat) \<Rightarrow> (nat \<Rightarrow> u8) \<Rightarrow> (parrot_string \<Rightarrow> bool) \<Rightarrow> nstring \<Rightarrow> nstring \<Rightarrow> nstring outcome" where
  "Parrot_str_concat avg junk growable a b =
     (if a = None \<and> b = None then Done None
      else if STRING_length a = 0
      then (if STRING_length b = 0 then Done (Some empty_constant) else Done (map_option Parrot_str_copy b))
      else if STRING_length b = 0 then Done (map_option Parrot_str_copy a)
      else
        let a = the a; b = the b in
        case string_rep_compatible a b of
          Some enc \<Rightarrow> obind (defined (concat_same junk growable enc a b)) (\<lambda>dest. Done (Some dest))
        | None \<Rightarrow>
            let enc = concat_upgrade a b in
            obind (STRING_to_encoding avg junk enc a) (\<lambda>a.
            obind (STRING_to_encoding avg junk enc b) (\<lambda>b.
            obind (defined (concat_same junk growable enc a b)) (\<lambda>dest. Done (Some dest)))))"

section \<open>Repetition\<close>

text \<open>The copies that are left to make; \<open>UINTVAL\<close> products wrap around.\<close>

fun repeat_from :: "u8 list \<Rightarrow> nat \<Rightarrow> nat \<Rightarrow> nat \<Rightarrow> u8 list \<Rightarrow> u8 list option" where
  "repeat_from src len 0 destpos m = Some m"
| "repeat_from src len (Suc n) destpos m = do { m \<leftarrow> memcpy m destpos src len; repeat_from src len n (destpos + len) m }"

definition Parrot_str_repeat :: "(nat \<Rightarrow> u8) \<Rightarrow> parrot_string \<Rightarrow> u64 \<Rightarrow> parrot_string outcome" where
  "Parrot_str_repeat junk s num =
     obind (Parrot_str_new_init junk None (unat (of_nat (bufused s) * num)) (encoding s)) (\<lambda>dest.
     if num > 0
     then obind (defined (repeat_from (strstart s) (bufused s) (unat num) 0 (strstart dest))) (\<lambda>m.
       Done (dest\<lparr>strstart := m, strlen := unat (of_nat (strlen s) * num), bufused := unat (of_nat (bufused s) * num)\<rparr>))
     else Done dest)"

section \<open>Replacement and cutting\<close>

text \<open>The part of \<open>Parrot_str_replace\<close> after the choice of the encoding.\<close>

definition replace_same :: "(nat \<Rightarrow> u8) \<Rightarrow> encoding_ptr \<Rightarrow> parrot_string \<Rightarrow> parrot_string \<Rightarrow> int \<Rightarrow> int \<Rightarrow> parrot_string outcome" where
  "replace_same junk enc src rep true_offset true_length =
     obind (defined (STRING_iter_skip src STRING_ITER_INIT true_offset)) (\<lambda>start.
     obind (defined (STRING_iter_skip src start true_length)) (\<lambda>end.
     if bytepos end < bytepos start then Thrown ''replace: subend somehow is less than substart''
     else
       let buf_size = bufused src - (bytepos end - bytepos start) + bufused rep
       in obind (defined (do {
            m \<leftarrow> memcpy (alloc_bytes junk buf_size) 0 (strstart src) (bytepos start);
            m \<leftarrow> memcpy m (bytepos start) (strstart rep) (bufused rep);
            c_assert (bytepos end \<le> bufused src);
            memcpy m (bytepos start + bufused rep) (drop (bytepos end) (strstart src)) (bufused src - bytepos end)
          })) (\<lambda>m.
          Done \<lparr>strstart = m, bufused = buf_size, strlen = strlen src - (charpos end - charpos start) + strlen rep,
            hashval = 0, encoding = enc\<rparr>)))"

definition Parrot_str_replace :: "(nat \<Rightarrow> nat) \<Rightarrow> (nat \<Rightarrow> u8) \<Rightarrow> nstring \<Rightarrow> int \<Rightarrow> int \<Rightarrow> nstring \<Rightarrow> parrot_string outcome" where
  "Parrot_str_replace avg junk src offset len rep =
     (case src of None \<Rightarrow> Thrown ''Can't replace in NULL string'' | Some src \<Rightarrow>
      let true_offset = (if offset < 0 then int (strlen src) + offset else offset) in
      if true_offset < 0 \<or> int (strlen src) < true_offset
      then Thrown ''Can only replace inside string or index after end of string''
      else
        let true_length = (if len < 0 \<or> int (strlen src) - true_offset < len then int (strlen src) - true_offset else len)
        in obind
          (case rep of
             None \<Rightarrow> Done (encoding src, src, \<lparr>strstart = [], bufused = 0, strlen = 0, hashval = 0, encoding = encoding src\<rparr>)
           | Some rep \<Rightarrow>
               (case string_rep_compatible src rep of
                  Some enc \<Rightarrow> Done (enc, src, rep)
                | None \<Rightarrow>
                    obind (if encoding src \<noteq> Parrot_utf8_encoding_ptr then STRING_to_encoding avg junk Parrot_utf8_encoding_ptr src else Done src) (\<lambda>src.
                    obind (if encoding rep \<noteq> Parrot_utf8_encoding_ptr then STRING_to_encoding avg junk Parrot_utf8_encoding_ptr rep else Done rep) (\<lambda>rep.
                    Done (encoding src, src, rep))))) (\<lambda>(enc, src, rep).
           replace_same junk enc src rep true_offset true_length))"

definition Parrot_str_chopn :: "parrot_string \<Rightarrow> int \<Rightarrow> parrot_string outcome" where
  "Parrot_str_chopn s n = (let end = - n in STRING_substr s 0 (if n \<ge> 0 then end + int (strlen s) else end))"

definition Parrot_str_boolean :: "nstring \<Rightarrow> bool outcome" where
  "Parrot_str_boolean s =
     (case s of None \<Rightarrow> Done False | Some s \<Rightarrow>
        if strlen s = 0 then Done False
        else if strlen s = 1 then obind (STRING_ord s 0) (\<lambda>c. Done (c \<noteq> 0x30))
        else Done True)"

section \<open>Bitwise operations\<close>

definition not_bytes :: "nstring \<Rightarrow> bool" where
  "not_bytes s \<longleftrightarrow> (case s of None \<Rightarrow> False | Some s \<Rightarrow> STRING_max_bytes_per_codepoint s \<noteq> 1)"

fun bitwise_and_from :: "u8 list \<Rightarrow> u8 list \<Rightarrow> nat \<Rightarrow> nat \<Rightarrow> u8 list \<Rightarrow> u8 list option" where
  "bitwise_and_from m1 m2 0 i dp = Some dp"
| "bitwise_and_from m1 m2 (Suc n) i dp =
     do { x \<leftarrow> rd m1 i; y \<leftarrow> rd m2 i; dp \<leftarrow> wr dp i (x AND y); bitwise_and_from m1 m2 n (i + 1) dp }"

definition Parrot_str_bitwise_and :: "(nat \<Rightarrow> u8) \<Rightarrow> nstring \<Rightarrow> nstring \<Rightarrow> parrot_string outcome" where
  "Parrot_str_bitwise_and junk s1 s2 =
     (if not_bytes s1 \<or> not_bytes s2 then Thrown ''string bitwise_and unsupported''
      else
        let minlen = (case (s1, s2) of (Some a, Some b) \<Rightarrow> (if strlen a > strlen b then strlen b else strlen a) | _ \<Rightarrow> 0)
        in obind (Parrot_str_new_init junk None minlen Parrot_binary_encoding_ptr) (\<lambda>res.
           case (s1, s2) of
             (Some a, Some b) \<Rightarrow>
               obind (defined (bitwise_and_from (strstart a) (strstart b) minlen 0 (strstart res))) (\<lambda>dp.
               Done (res\<lparr>strstart := dp, bufused := minlen, strlen := minlen\<rparr>))
           | _ \<Rightarrow> Done (res\<lparr>bufused := 0, strlen := 0\<rparr>)))"

text \<open>The loop of the macros for or and xor; \<open>f\<close> is the operation.\<close>

fun bitwise_from :: "(u8 \<Rightarrow> u8 \<Rightarrow> u8) \<Rightarrow> u8 list \<Rightarrow> nat \<Rightarrow> u8 list \<Rightarrow> nat \<Rightarrow> nat \<Rightarrow> nat \<Rightarrow> u8 list \<Rightarrow> u8 list option" where
  "bitwise_from f m1 length1 m2 length2 0 i dp = Some dp"
| "bitwise_from f m1 length1 m2 length2 (Suc n) i dp =
     do {
       dp \<leftarrow> (if i < length1
             then (if i < length2 then do { x \<leftarrow> rd m1 i; y \<leftarrow> rd m2 i; wr dp i (f x y) } else do { x \<leftarrow> rd m1 i; wr dp i x })
             else if i < length2 then do { y \<leftarrow> rd m2 i; wr dp i y }
             else Some dp);
       bitwise_from f m1 length1 m2 length2 n (i + 1) dp
     }"

definition bitwise_strings :: "(u8 \<Rightarrow> u8 \<Rightarrow> u8) \<Rightarrow> string \<Rightarrow> (nat \<Rightarrow> u8) \<Rightarrow> nstring \<Rightarrow> nstring \<Rightarrow> parrot_string outcome" where
  "bitwise_strings f message junk s1 s2 =
     (if not_bytes s1 \<or> not_bytes s2 then Thrown message
      else
        let maxlen = (if Parrot_str_byte_length s2 > Parrot_str_byte_length s1 then Parrot_str_byte_length s2 else Parrot_str_byte_length s1)
        in obind (Parrot_str_new_init junk None maxlen Parrot_binary_encoding_ptr) (\<lambda>res.
           if maxlen = 0 then Done (res\<lparr>bufused := 0, strlen := 0\<rparr>)
           else obind (defined (bitwise_from f (case s1 of None \<Rightarrow> [] | Some s \<Rightarrow> strstart s) (STRING_length s1)
                  (case s2 of None \<Rightarrow> [] | Some s \<Rightarrow> strstart s) (STRING_length s2) maxlen 0 (strstart res))) (\<lambda>dp.
                Done (res\<lparr>strstart := dp, bufused := maxlen, strlen := maxlen\<rparr>))))"

definition Parrot_str_bitwise_or :: "(nat \<Rightarrow> u8) \<Rightarrow> nstring \<Rightarrow> nstring \<Rightarrow> parrot_string outcome" where
  "Parrot_str_bitwise_or = bitwise_strings (OR) ''string bitwise_or unsupported''"

definition Parrot_str_bitwise_xor :: "(nat \<Rightarrow> u8) \<Rightarrow> nstring \<Rightarrow> nstring \<Rightarrow> parrot_string outcome" where
  "Parrot_str_bitwise_xor = bitwise_strings (XOR) ''string bitwise_xor unsupported''"

fun bitwise_not_from :: "u8 list \<Rightarrow> nat \<Rightarrow> nat \<Rightarrow> u8 list \<Rightarrow> u8 list option" where
  "bitwise_not_from m 0 i dp = Some dp"
| "bitwise_not_from m (Suc n) i dp = do { x \<leftarrow> rd m i; dp \<leftarrow> wr dp i (NOT x); bitwise_not_from m n (i + 1) dp }"

definition Parrot_str_bitwise_not :: "(nat \<Rightarrow> u8) \<Rightarrow> nstring \<Rightarrow> parrot_string outcome" where
  "Parrot_str_bitwise_not junk s =
     (if not_bytes s then Thrown ''string bitwise_not unsupported''
      else
        let len = Parrot_str_byte_length s
        in obind (Parrot_str_new_init junk None len Parrot_binary_encoding_ptr) (\<lambda>res.
           case s of
             Some a \<Rightarrow>
               if len = 0 then Done (res\<lparr>bufused := 0, strlen := 0\<rparr>)
               else obind (defined (bitwise_not_from (strstart a) (strlen a) 0 (strstart res))) (\<lambda>dp.
                 Done (res\<lparr>strstart := dp, strlen := len, bufused := len\<rparr>))
           | None \<Rightarrow> Done (res\<lparr>bufused := 0, strlen := 0\<rparr>)))"

end
