(* ===== verification/Str_Api_Rep.thy ===== *)
theory Str_Api_Rep
  imports Str_Api
begin

text \<open>
  What the functions of \<open>Str_Api\<close> do to code points.  Two strings are put together byte by
  byte when their representations are compatible, that is, when the bytes of both are those
  of the same code points in the common encoding.
\<close>

section \<open>Compatible representations\<close>

definition same_bytes :: "encoding_ptr \<Rightarrow> encoding_ptr \<Rightarrow> u64 list \<Rightarrow> bool" where
  "same_bytes e e' cs \<longleftrightarrow> (\<forall>c \<in> set cs. chunk_of e c = chunk_of e' c \<and> valid_in e' c)"

lemma same_bytes_refl: "chars s cs \<Longrightarrow> same_bytes (encoding s) (encoding s) cs"
  by (simp add: same_bytes_def chars_iff)

lemma same_bytes_of: "same_bytes e e' cs \<Longrightarrow> bytes_of e cs = bytes_of e' cs"
  by (simp add: same_bytes_def cong: map_cong)

lemma chars_as: "chars s cs \<Longrightarrow> same_bytes (encoding s) e cs \<Longrightarrow> chars (s\<lparr>encoding := e\<rparr>) cs"
  using same_bytes_of [of "encoding s" e cs] by (auto simp: chars_iff same_bytes_def)

lemma one_byte_each:
  assumes "length (concat (map f cs)) = length cs" "\<And>c. 0 < length (f c)"
  shows "\<forall>c \<in> set cs. length (f c) = 1"
proof -
  have "length cs \<le> length (concat (map f cs))" for cs
  proof (induction cs)
    case (Cons c cs)
    have "length (concat (map f (c # cs))) = length (f c) + length (concat (map f cs))" by simp
    then show ?case using Cons.IH assms(2) [of c] by (simp only: list.size)
  qed simp
  note le = this
  show ?thesis using assms(1)
  proof (induction cs)
    case (Cons c cs)
    then have "length (f c) + length (concat (map f cs)) = Suc (length cs)" by simp
    then have "length (f c) = 1 \<and> length (concat (map f cs)) = length cs" using le [of cs] assms(2) [of c] by linarith
    then show ?case using Cons.IH by simp
  qed simp
qed

lemma ascii_bytes: "c < 0x80 \<Longrightarrow> utf8_bytes c = [ucast c]" "c < 0x80 \<Longrightarrow> \<not> UNICODE_IS_INVALID c" "c < 0x80 \<Longrightarrow> c < 0x100"
  by (simp_all add: utf8_bytes_def UNICODE_IS_INVALID_def word_less_nat_alt word_le_nat_alt)

lemma utf8_is_ascii:
  assumes "chars s cs" "encoding s = Parrot_utf8_encoding_ptr" "strlen s = bufused s"
  shows "\<forall>c \<in> set cs. c < 0x80"
proof -
  have "length (concat (map utf8_bytes cs)) = length cs" using assms by (simp add: chars_iff)
  then have "\<forall>c \<in> set cs. length (utf8_bytes c) = 1" by (rule one_byte_each) (rule utf8_bytes_nonempty)
  then show ?thesis by (auto simp: length_utf8_bytes UNISKIP_def split: if_splits)
qed

lemma string_rep_compatible_same:
  assumes a: "chars a cs" and b: "chars b ds" and e: "string_rep_compatible a b = Some e"
  shows "same_bytes (encoding a) e cs \<and> same_bytes (encoding b) e ds"
proof -
  note v = a [unfolded chars_iff] b [unfolded chars_iff]
  show ?thesis
    using e v utf8_is_ascii [OF a] utf8_is_ascii [OF b] ascii_bytes
    by (cases "encoding a"; cases "encoding b")
      (auto simp: string_rep_compatible_def max_bytes_Suc same_bytes_def fixed8_limit_def split: if_splits)
qed

section \<open>Concatenation\<close>

lemma memcpy_two:
  assumes "length m = length x + length y + n"
  shows "do { m \<leftarrow> memcpy m 0 (x @ p) (length x); memcpy m (length x) (y @ q) (length y) }
    = Some (x @ y @ drop (length x + length y) m)"
  using assms by (simp add: memcpy_def add.commute)

lemma concat_same_chars:
  assumes a: "chars a cs" and b: "chars b ds" and s: "same_bytes (encoding a) e cs" "same_bytes (encoding b) e ds"
  shows "\<exists>r. concat_same junk growable e a b = Some r \<and> chars r (cs @ ds) \<and> encoding r = e"
proof -
  obtain p where p: "strstart a = bytes_of e cs @ p" "bufused a = length (bytes_of e cs)" "strlen a = length cs"
    using a same_bytes_of [OF s(1)] by (auto simp: chars_iff)
  obtain q where q: "strstart b = bytes_of e ds @ q" "bufused b = length (bytes_of e ds)" "strlen b = length ds"
    using b same_bytes_of [OF s(2)] by (auto simp: chars_iff)
  have v: "\<forall>c \<in> set (cs @ ds). valid_in e c" using s by (auto simp: same_bytes_def)
  let ?room = "growable a \<and> bufused a + bufused b \<le> length (strstart a)"
  show ?thesis
  proof (cases ?room)
    case True
    have "memcpy (strstart a) (bufused a) (strstart b) (bufused b) = Some (bytes_of e cs @ bytes_of e ds @ drop (length (bytes_of e ds)) p)"
      using True p q by (simp add: memcpy_def)
    then show ?thesis using True p q v by (auto simp: concat_same_def Let_def Parrot_str_copy_def chars_iff)
  next
    case False
    define n where "n = (if 4 * bufused b < bufused a then bufused a + bufused b + (bufused a + bufused b) div 2 else bufused a + bufused b)"
    define m where "m = strstart (Parrot_str_new_noinit junk n)"
    have "length m = n"
      by (simp add: m_def Parrot_str_new_noinit_def Let_def string_max_bytes_def alloc_bytes_def max_bytes_Suc)
    then have "length m = length (bytes_of e cs) + length (bytes_of e ds) + (n - (bufused a + bufused b))"
      using p(2) q(2) by (simp add: n_def)
    from memcpy_two [OF this, of p q] have c: "do { m \<leftarrow> memcpy m 0 (strstart a) (bufused a); memcpy m (bufused a) (strstart b) (bufused b) }
        = Some (bytes_of e cs @ bytes_of e ds @ drop (bufused a + bufused b) m)" using p q by simp
    then obtain m1 where "memcpy m 0 (strstart a) (bufused a) = Some m1"
      "memcpy m1 (bufused a) (strstart b) (bufused b) = Some (bytes_of e cs @ bytes_of e ds @ drop (bufused a + bufused b) m)"
      by (auto simp: bind_eq_Some_conv)
    moreover have "hashval (Parrot_str_new_noinit junk n) = 0" by (simp add: Parrot_str_new_noinit_def Let_def)
    ultimately show ?thesis using False p q v
      unfolding concat_same_def Let_def n_def [symmetric] m_def by (auto simp: chars_iff)
  qed
qed

lemma valid_everywhere: "valid_in e c \<Longrightarrow> valid_in Parrot_utf8_encoding_ptr c" "valid_in e c \<Longrightarrow> valid_in Parrot_ucs4_encoding_ptr c"
  using valid_point by simp_all

text \<open>A conversion for concatenation succeeds, and the bytes are those of the encoding chosen.\<close>

lemma upgrade_chars:
  assumes s: "chars s cs" and e: "e \<in> {Parrot_utf8_encoding_ptr, Parrot_ucs4_encoding_ptr, Parrot_utf16_encoding_ptr}"
  shows "\<exists>r. STRING_to_encoding avg junk e s = Done r \<and> chars r cs \<and> same_bytes (encoding r) e cs"
proof (cases "e = Parrot_utf16_encoding_ptr")
  case True
  obtain r where r: "utf16_to_encoding avg junk s = Done r" "chars r cs"
    "encoding r = Parrot_ucs2_encoding_ptr \<or> encoding r = Parrot_utf16_encoding_ptr"
    using utf16_to_encoding_chars [OF s] by blast
  from r(3) have "same_bytes (encoding r) e cs"
  proof
    assume u: "encoding r = Parrot_ucs2_encoding_ptr"
    then have "\<forall>c \<in> set cs. ucs2_valid c" using r(2) by (simp add: chars_iff)
    then show ?thesis using u True by (auto simp: same_bytes_def ucs2_valid_def utf16_bytes_def)
  qed (use same_bytes_refl [OF r(2)] True in simp)
  then show ?thesis using r True by simp
next
  case False
  then have "e \<notin> {Parrot_utf16_encoding_ptr, Parrot_ucs2_encoding_ptr}" using e by auto
  from STRING_to_encoding_converts [OF s this] have c: "converts (STRING_to_encoding avg junk e s) cs e" .
  have "\<forall>c \<in> set cs. valid_in e c" using s e False valid_everywhere by (auto simp: chars_iff)
  then obtain r where "STRING_to_encoding avg junk e s = Done r" "chars r cs" "encoding r = e"
    using c by (auto simp: converts_def)
  then show ?thesis using same_bytes_refl [of r cs] by auto
qed

lemma concat_upgrade_cases: "concat_upgrade a b \<in> {Parrot_utf8_encoding_ptr, Parrot_ucs4_encoding_ptr, Parrot_utf16_encoding_ptr}"
  by (simp add: concat_upgrade_def)

lemma Parrot_str_concat_chars:
  assumes a: "chars a cs" and b: "chars b ds"
  shows "\<exists>r. Parrot_str_concat avg junk growable (Some a) (Some b) = Done (Some r) \<and> chars r (cs @ ds)"
proof -
  have len: "strlen a = length cs" "strlen b = length ds" using a b by (simp_all add: chars_strlen)
  show ?thesis
  proof (cases "cs = [] \<or> ds = []")
    case True
    then show ?thesis using a b len empty_constant_chars by (auto simp: Parrot_str_concat_def STRING_length_def Parrot_str_copy_def)
  next
    case False
    show ?thesis
    proof (cases "string_rep_compatible a b")
      case (Some e)
      then obtain r where "concat_same junk growable e a b = Some r" "chars r (cs @ ds)"
        using concat_same_chars [OF a b] string_rep_compatible_same [OF a b Some] by blast
      then show ?thesis using Some False len by (simp add: Parrot_str_concat_def STRING_length_def)
    next
      case None
      let ?e = "concat_upgrade a b"
      obtain a' where a': "STRING_to_encoding avg junk ?e a = Done a'" "chars a' cs" "same_bytes (encoding a') ?e cs"
        using upgrade_chars [OF a concat_upgrade_cases] by blast
      obtain b' where b': "STRING_to_encoding avg junk ?e b = Done b'" "chars b' ds" "same_bytes (encoding b') ?e ds"
        using upgrade_chars [OF b concat_upgrade_cases] by blast
      obtain r where "concat_same junk growable ?e a' b' = Some r" "chars r (cs @ ds)"
        using concat_same_chars [OF a'(2) b'(2) a'(3) b'(3)] by blast
      then show ?thesis using None False len a'(1) b'(1) by (simp add: Parrot_str_concat_def STRING_length_def)
    qed
  qed
qed

section \<open>Replacement\<close>

lemma memcpy_at: "length y \<le> length z \<Longrightarrow> memcpy (x @ z) (length x) (y @ q) (length y) = Some (x @ y @ drop (length y) z)"
  by (simp add: memcpy_def)

text \<open>The three copies: what is before, the replacement, what is behind.\<close>

lemma memcpy_three:
  assumes "length m = length x + length y + length z"
  shows "do { m \<leftarrow> memcpy m 0 (x @ p) (length x); m \<leftarrow> memcpy m (length x) (y @ q) (length y);
      memcpy m (length x + length y) (z @ r) (length z) } = Some (x @ y @ z)"
proof -
  have "memcpy m 0 (x @ p) (length x) = Some (x @ drop (length x) m)"
    using memcpy_at [of x m "[]" p] assms by simp
  moreover have "memcpy (x @ drop (length x) m) (length x) (y @ q) (length y) = Some (x @ y @ drop (length x + length y) m)"
    using memcpy_at [of y "drop (length x) m" x q] assms by (simp add: add.commute)
  moreover have "memcpy ((x @ y) @ drop (length x + length y) m) (length (x @ y)) (z @ r) (length z) = Some ((x @ y) @ z)"
    using memcpy_at [of z "drop (length x + length y) m" "x @ y" r] assms by simp
  ultimately show ?thesis by simp
qed

lemma replace_same_chars:
  assumes s: "chars s cs" and r: "strstart rep = bytes_of e ds @ q" "bufused rep = length (bytes_of e ds)" "strlen rep = length ds"
    "\<forall>c \<in> set ds. valid_in e c" and e: "same_bytes (encoding s) e cs" and o: "k + n \<le> length cs"
  shows "\<exists>t. replace_same junk e s rep (int k) (int n) = Done t \<and> chars t (take k cs @ ds @ drop (k + n) cs)"
proof -
  let ?x = "bytes_of e (take k cs)" and ?y = "bytes_of e (take n (drop k cs))" and ?z = "bytes_of e (drop (k + n) cs)" and ?d = "bytes_of e ds"
  have b: "bytes_of (encoding s) l = bytes_of e l" if "set l \<subseteq> set cs" for l
    by (rule same_bytes_of) (use e that in \<open>unfold same_bytes_def, blast\<close>)
  have "drop (k + n) cs = drop n (drop k cs)" by (simp add: add.commute)
  then have cs: "cs = take k cs @ take n (drop k cs) @ drop (k + n) cs" by (simp only: append_take_drop_id)
  obtain p where p: "strstart s = bytes_of e cs @ p" "bufused s = length (bytes_of e cs)" "strlen s = length cs"
    using s b [of cs] by (auto simp: chars_iff)
  have split: "bytes_of e cs = ?x @ ?y @ ?z" 
    by (rule trans [OF arg_cong [OF cs, of "bytes_of e"]]) (simp only: map_append concat_append)
  have it: "str_iter s cs k = \<lparr>bytepos = length ?x, charpos = k\<rparr>"
    "str_iter s cs (k + n) = \<lparr>bytepos = length ?x + length ?y, charpos = k + n\<rparr>"
    using o b [of "take k cs"] b [of "take (k + n) cs"] set_take_subset [of k cs] set_take_subset [of "k + n" cs] bytes_of_take [OF o, of e]
    by (simp_all add: iter_at_def)
  have skip1: "STRING_iter_skip s STRING_ITER_INIT (int k) = Some \<lparr>bytepos = length ?x, charpos = k\<rparr>"
    using STRING_skip [OF s, of 0 "int k" k] o it(1) by (simp add: iter_at_0 move_def)
  have skip2: "STRING_iter_skip s \<lparr>bytepos = length ?x, charpos = k\<rparr> (int n) = Some \<lparr>bytepos = length ?x + length ?y, charpos = k + n\<rparr>"
    using STRING_skip [OF s, of k "int n" "k + n"] o it by (simp add: move_def)
  define m0 where "m0 = alloc_bytes junk (length ?x + length ?z + length ?d)"
  have "do { m \<leftarrow> memcpy m0 0 (strstart s) (length ?x);
      m \<leftarrow> memcpy m (length ?x) (strstart rep) (length ?d);
      memcpy m (length ?x + length ?d) (drop (length ?x + length ?y) (strstart s)) (length ?z) } = Some (?x @ ?d @ ?z)"
    using memcpy_three [of m0 ?x ?d ?z "?y @ ?z @ p" q p] p(1) r(1) split by (simp add: m0_def alloc_bytes_def)
  then obtain m1 m2 where m: "memcpy m0 0 (strstart s) (length ?x) = Some m1" "memcpy m1 (length ?x) (strstart rep) (length ?d) = Some m2"
    "memcpy m2 (length ?x + length ?d) (drop (length ?x + length ?y) (strstart s)) (length ?z) = Some (?x @ ?d @ ?z)"
    by (auto simp: bind_eq_Some_conv)
  have used: "bufused s = length ?x + length ?y + length ?z" using p(2) split by simp
  then have size: "bufused s - (length ?x + length ?y - length ?x) + bufused rep = length ?x + length ?z + length ?d" using r(2) by simp
  let ?t = "\<lparr>strstart = ?x @ ?d @ ?z, bufused = length ?x + length ?z + length ?d, strlen = strlen s - (k + n - k) + strlen rep,
    hashval = 0, encoding = e\<rparr>"
  have "replace_same junk e s rep (int k) (int n) = Done ?t"
    unfolding replace_same_def skip1 defined.simps obind.simps skip2 string_iter.simps Let_def size m0_def [symmetric]
    using m used r(2) by simp
  moreover have "strlen s - (k + n - k) + strlen rep = length (take k cs @ ds @ drop (k + n) cs)" using p(3) r(3) o by simp
  moreover have "\<forall>c \<in> set (take k cs @ ds @ drop (k + n) cs). valid_in e c"
    using e r(4) by (auto simp: same_bytes_def dest: in_set_takeD in_set_dropD)
  ultimately show ?thesis unfolding chars_iff by simp
qed

lemma Parrot_str_replace_unfold:
  assumes "0 \<le> true_offset" "true_offset \<le> int (strlen s)"
    "true_offset = (if offset < 0 then int (strlen s) + offset else offset)"
    "true_length = (if len < 0 \<or> int (strlen s) - true_offset < len then int (strlen s) - true_offset else len)"
  shows "Parrot_str_replace avg junk (Some s) offset len (Some rep) =
    (case string_rep_compatible s rep of
       Some enc \<Rightarrow> replace_same junk enc s rep true_offset true_length
     | None \<Rightarrow>
         obind (if encoding s \<noteq> Parrot_utf8_encoding_ptr then STRING_to_encoding avg junk Parrot_utf8_encoding_ptr s else Done s) (\<lambda>s'.
         obind (if encoding rep \<noteq> Parrot_utf8_encoding_ptr then STRING_to_encoding avg junk Parrot_utf8_encoding_ptr rep else Done rep) (\<lambda>rep'.
         replace_same junk (encoding s') s' rep' true_offset true_length)))"
proof -
  have o: "\<not> (true_offset < 0 \<or> int (strlen s) < true_offset)" using assms(1,2) by simp
  have assoc: "obind (obind x f) g = obind x (\<lambda>y. obind (f y) g)" for x :: "'x outcome" and f :: "'x \<Rightarrow> 'y outcome" and g :: "'y \<Rightarrow> 'z outcome"
    by (cases x) simp_all
  show ?thesis
    unfolding Parrot_str_replace_def option.case Let_def assms(3) [symmetric] assms(4) [symmetric]
    by (simp only: o if_False, cases "string_rep_compatible s rep") (simp_all add: assoc)
qed

lemma Parrot_str_replace_chars:
  assumes s: "chars s cs" and r: "chars rep ds"
    and o: "k \<le> length cs" "int k = (if offset < 0 then int (length cs) + offset else offset)"
    and n: "n = (if len < 0 \<or> int (length cs - k) < len then length cs - k else nat len)"
  shows "\<exists>t. Parrot_str_replace avg junk (Some s) offset len (Some rep) = Done t \<and> chars t (take k cs @ ds @ drop (k + n) cs)"
proof -
  have kn: "k + n \<le> length cs" using o(1) n by (auto split: if_splits)
  have sl: "strlen s = length cs" using s by (rule chars_strlen)
  have len: "int n = (if len < 0 \<or> int (strlen s) - int k < len then int (strlen s) - int k else len)"
    using n o(1) sl by (auto simp: of_nat_diff)
  have "0 \<le> int k" "int k \<le> int (strlen s)" "int k = (if offset < 0 then int (strlen s) + offset else offset)"
    using o sl by simp_all
  note un = Parrot_str_replace_unfold [OF this len, of avg junk rep]
  show ?thesis
  proof (cases "string_rep_compatible s rep")
    case (Some e)
    then have c: "same_bytes (encoding s) e cs" "same_bytes (encoding rep) e ds" using string_rep_compatible_same [OF s r] by blast+
    obtain q where "strstart rep = bytes_of e ds @ q" "bufused rep = length (bytes_of e ds)" "strlen rep = length ds"
      using r same_bytes_of [OF c(2)] by (auto simp: chars_iff)
    moreover have "\<forall>c \<in> set ds. valid_in e c" using c(2) by (simp add: same_bytes_def)
    ultimately show ?thesis unfolding un Some option.case using replace_same_chars [OF s _ _ _ _ c(1) kn] by blast
  next
    case None
    let ?u = "Parrot_utf8_encoding_ptr"
    have conv: "\<exists>t. (if encoding x \<noteq> ?u then STRING_to_encoding avg junk ?u x else Done x) = Done t \<and> chars t xs \<and> encoding t = ?u"
      if x: "chars x xs" for x xs
    proof (cases "encoding x = ?u")
      case False
      have "?u \<notin> {Parrot_utf16_encoding_ptr, Parrot_ucs2_encoding_ptr}" by simp
      from STRING_to_encoding_converts [OF x this] have c: "converts (STRING_to_encoding avg junk ?u x) xs ?u" .
      have "\<forall>c \<in> set xs. valid_in ?u c" using x valid_everywhere(1) by (auto simp: chars_iff)
      then show ?thesis using c False by (simp add: converts_def)
    qed (use x in auto)
    obtain s' where s': "(if encoding s \<noteq> ?u then STRING_to_encoding avg junk ?u s else Done s) = Done s'" "chars s' cs" "encoding s' = ?u"
      using conv [OF s] by blast
    obtain r' where r': "(if encoding rep \<noteq> ?u then STRING_to_encoding avg junk ?u rep else Done rep) = Done r'" "chars r' ds" "encoding r' = ?u"
      using conv [OF r] by blast
    have sm: "same_bytes (encoding s') ?u cs" using same_bytes_refl [OF s'(2)] s'(3) by simp
    obtain q where q: "strstart r' = bytes_of ?u ds @ q" "bufused r' = length (bytes_of ?u ds)" "strlen r' = length ds"
      "\<forall>c \<in> set ds. valid_in ?u c" using r'(2,3) by (auto simp: chars_iff)
    show ?thesis
      unfolding un None option.case s'(1) r'(1) obind.simps s'(3) by (rule replace_same_chars [OF s'(2) q sm kn])
  qed
qed

section \<open>Repetition, cutting\<close>

lemma repeat_from_bytes:
  assumes "st = b @ p" "length pre = pos" "length b * n \<le> length rest"
  shows "repeat_from st (length b) n pos (pre @ rest) = Some (pre @ concat (replicate n b) @ drop (length b * n) rest)"
  using assms(2,3)
proof (induction n arbitrary: pos pre rest)
  case (Suc n)
  have le: "length b \<le> length rest" using Suc.prems(2) by simp
  have "memcpy (pre @ rest) pos st (length b) = Some ((pre @ b) @ drop (length b) rest)"
    unfolding assms(1) Suc.prems(1) [symmetric] using memcpy_at [OF le, of pre p] by simp
  moreover have "length (pre @ b) = pos + length b" "length b * n \<le> length (drop (length b) rest)" using Suc.prems by auto
  ultimately show ?case using Suc.IH [of "pre @ b" "pos + length b" "drop (length b) rest"] by (simp add: add.commute)
qed simp

lemma bytes_of_repeat: "bytes_of e (concat (replicate n cs)) = concat (replicate n (bytes_of e cs))"
  by (induction n) simp_all

lemma Parrot_str_repeat_chars:
  assumes s: "chars s cs" and n: "unat num * max (bufused s) (strlen s) < 2 ^ 64"
  shows "\<exists>r. Parrot_str_repeat junk s num = Done r \<and> chars r (concat (replicate (unat num) cs))"
proof -
  obtain p where p: "strstart s = bytes_of (encoding s) cs @ p" "bufused s = length (bytes_of (encoding s) cs)" "strlen s = length cs"
    "\<forall>c \<in> set cs. valid_in (encoding s) c" using s by (auto simp: chars_iff)
  have mult: "unat (of_nat m * num) = m * unat num" if "m \<le> max (bufused s) (strlen s)" for m
  proof -
    have "m * unat num \<le> max (bufused s) (strlen s) * unat num" using that by (rule mult_le_mono1)
    also have "\<dots> < 2 ^ 64" using n by (simp only: mult.commute)
    finally have "m * unat num < 2 ^ 64" .
    moreover have "of_nat m * num = of_nat (m * unat num)" by simp
    ultimately show ?thesis by (simp only:) (rule unat_of_nat_small, simp)
  qed
  have m: "unat (of_nat (bufused s) * num) = bufused s * unat num" "unat (of_nat (strlen s) * num) = strlen s * unat num"
    using mult by simp_all
  let ?m = "alloc_bytes junk (bufused s * unat num)"
  have "repeat_from (strstart s) (bufused s) (unat num) 0 ?m = Some (concat (replicate (unat num) (bytes_of (encoding s) cs)))"
    using repeat_from_bytes [OF p(1), of "[]" 0 "unat num" ?m] p(2) by (simp add: alloc_bytes_def)
  moreover have "length (concat (replicate (unat num) (bytes_of (encoding s) cs))) = bufused s * unat num"
    using p(2) by (simp add: length_concat sum_list_replicate mult.commute)
  moreover have "length (concat (replicate (unat num) cs)) = strlen s * unat num"
    using p(3) by (simp add: length_concat sum_list_replicate mult.commute)
  moreover have "num = 0 \<or> num > 0" by (auto simp: word_gt_0)
  ultimately show ?thesis using p(4)
    by (auto simp: Parrot_str_repeat_def Parrot_str_new_init_def Let_def m chars_iff bytes_of_repeat)
qed

lemma Parrot_str_chopn_chars:
  assumes "chars s cs"
  shows "\<exists>r. Parrot_str_chopn s n = Done r \<and> chars r (take (if 0 \<le> n then length cs - nat n else nat (- n)) cs)"
proof -
  define m where "m = (if n \<ge> 0 then - n + int (strlen s) else - n)"
  have sl: "strlen s = length cs" using assms by (rule chars_strlen)
  have m: "nat m = (if 0 \<le> n then length cs - nat n else nat (- n))" using sl by (auto simp: m_def)
  have "substr_points cs 0 m = Done (take (nat m) cs)" by (auto simp: substr_points_def Let_def)
  then show ?thesis using STRING_substr_chars [OF assms, of 0 m] unfolding Parrot_str_chopn_def Let_def m_def [symmetric] m [symmetric] by simp
qed

end
