(* ===== verification/Str_Number.thy ===== *)
theory Str_Number
  imports Str_Api_Rep Str_Scan_Rep
begin

text \<open>
  Integers and strings, \<open>src/string/api.c\<close>: \<open>Parrot_str_to_int\<close>, which reads a decimal
  number and throws when it does not fit an \<open>INTVAL\<close>, and \<open>Parrot_str_from_int_base\<close>, which
  writes one.  \<open>INTVAL\<close> and \<open>HUGEINTVAL\<close> are 64-bit integers; a computation that overflows
  them is undefined.
\<close>

section \<open>Reading\<close>

text \<open>
  \<open>c = count-- > 0 ? STRING_iter_get_and_advance(interp, s, &iter) : 0\<close>, the count being
  the characters that are left.
\<close>

definition next_char :: "parrot_string \<Rightarrow> nat \<Rightarrow> string_iter \<Rightarrow> (u64 \<times> nat \<times> string_iter) option" where
  "next_char s count iter =
     (case count of
        0 \<Rightarrow> Some (0, 0, iter)
      | Suc n \<Rightarrow> do { (c, iter) \<leftarrow> STRING_iter_get_and_advance s iter; Some (c, n, iter) })"

definition max_safe :: u64 where "max_safe = 2 ^ 63 div 10"
definition last_dig :: u64 where "last_dig = 2 ^ 63 mod 10"

text \<open>The loops over spaces and digits, with what \<open>next_char\<close> gives after each round.\<close>

fun skip_spaces :: "parrot_string \<Rightarrow> u64 \<Rightarrow> nat \<Rightarrow> string_iter \<Rightarrow> (u64 \<times> nat \<times> string_iter) option" where
  "skip_spaces s c 0 iter = Some (if c = 0x20 then 0 else c, 0, iter)"
| "skip_spaces s c (Suc n) iter =
     (if c = 0x20 then do { (c, iter) \<leftarrow> STRING_iter_get_and_advance s iter; skip_spaces s c n iter }
      else Some (c, Suc n, iter))"

fun to_int_digits :: "parrot_string \<Rightarrow> u64 \<Rightarrow> nat \<Rightarrow> string_iter \<Rightarrow> u64 \<Rightarrow> u64 outcome" where
  "to_int_digits s c count iter i =
     (if c = 0 then Done i
      else
        let nextval = c - 0x30 in
        if nextval > 9 then Done i
        else if i < max_safe \<or> (i = max_safe \<and> nextval \<le> last_dig)
        then (let i = i * 10 + nextval
              in case count of
                   0 \<Rightarrow> Done i
                 | Suc n \<Rightarrow> obind (defined (STRING_iter_get_and_advance s iter)) (\<lambda>(c, iter). to_int_digits s c n iter i))
        else Thrown ''Integer value of String too big'')"

declare to_int_digits.simps [simp del]

definition Parrot_str_to_int :: "nstring \<Rightarrow> int outcome" where
  "Parrot_str_to_int s =
     (case s of None \<Rightarrow> Done 0 | Some s \<Rightarrow>
        obind (defined (do {
          (c, count, iter) \<leftarrow> next_char s (strlen s) STRING_ITER_INIT;
          (c, count, iter) \<leftarrow> skip_spaces s c count iter;
          if c = 0x2D then do { x \<leftarrow> next_char s count iter; Some (True, x) }
          else if c = 0x2B then do { x \<leftarrow> next_char s count iter; Some (False, x) }
          else Some (False, c, count, iter)
        })) (\<lambda>(negative, c, count, iter).
        obind (to_int_digits s c count iter 0) (\<lambda>i.
        if \<not> negative \<and> i > 2 ^ 63 - 1 then Thrown ''Integer value of String too big''
        else Done (sint (if negative then - i else i)))))"

section \<open>Writing\<close>

text \<open>
  The digits are written into \<open>tc\<close> from its end: \<open>p\<close> is the position of the last digit
  written.  The loop is one for every \<open>base\<close> of at least 2.
\<close>

definition digit_char :: "nat \<Rightarrow> u8" where
  "digit_char cur = (if cur < 10 then 0x30 + of_nat cur else 0x61 + of_nat cur - 10)"

function from_uint_digits :: "u8 list \<Rightarrow> nat \<Rightarrow> nat \<Rightarrow> nat \<Rightarrow> (u8 list \<times> nat) option" where
  "from_uint_digits tc p num base =
     (if base < 2 then None
      else do {
        p \<leftarrow> move p (- 1);
        tc \<leftarrow> wr tc p (digit_char (num mod base));
        if num div base \<noteq> 0 then from_uint_digits tc p (num div base) base else Some (tc, p)
      })"
  by pat_completeness auto
termination
  by (relation "measure (\<lambda>(tc, p, num, base). num)")
    (auto simp: div_greater_zero_iff intro!: div_less_dividend)

declare from_uint_digits.simps [simp del]

definition Parrot_str_from_uint :: "(nat \<Rightarrow> u8) \<Rightarrow> u8 list \<Rightarrow> u64 \<Rightarrow> nat \<Rightarrow> bool \<Rightarrow> parrot_string outcome" where
  "Parrot_str_from_uint junk tc num base neg =
     (let tail = 8 * 8 + 1 in
      obind (defined (do {
        c_assert (2 \<le> base \<and> base \<le> 36);
        (tc, p) \<leftarrow> from_uint_digits tc tail (unat num) base;
        if neg then do { p \<leftarrow> move p (- 1); tc \<leftarrow> wr tc p 0x2D; Some (tc, p) } else Some (tc, p)
      })) (\<lambda>(tc, p).
      Parrot_str_new_init junk (Some (drop p tc)) (tail - p) Parrot_ascii_encoding_ptr))"

text \<open>\<open>-num\<close> overflows for the least integer.\<close>

definition Parrot_str_from_int_base :: "(nat \<Rightarrow> u8) \<Rightarrow> u8 list \<Rightarrow> int \<Rightarrow> nat \<Rightarrow> parrot_string outcome" where
  "Parrot_str_from_int_base junk tc num base =
     (let is_neg = num < 0 in
      obind (defined (if is_neg then do { c_assert (num \<noteq> - (2 ^ 63)); Some (- num) } else Some num)) (\<lambda>num.
      Parrot_str_from_uint junk tc (of_int num) base is_neg))"

section \<open>What is read\<close>

text \<open>The number that the code points say, with the digits up to the first other character.\<close>

definition is_digit :: "u64 \<Rightarrow> bool" where
  "is_digit c \<longleftrightarrow> 0x30 \<le> c \<and> c \<le> 0x39"

definition add_digit :: "nat \<Rightarrow> u64 \<Rightarrow> nat" where
  "add_digit v c = 10 * v + (unat c - 0x30)"

definition digits_value :: "u64 list \<Rightarrow> nat" where
  "digits_value cs = foldl add_digit 0 cs"

definition signed_digits :: "u64 list \<Rightarrow> bool \<times> nat" where
  "signed_digits cs =
     (case dropWhile (\<lambda>c. c = 0x20) cs of
        [] \<Rightarrow> (False, 0)
      | c # cs \<Rightarrow>
          if c = 0x2D then (True, digits_value (takeWhile is_digit cs))
          else if c = 0x2B then (False, digits_value (takeWhile is_digit cs))
          else (False, digits_value (takeWhile is_digit (c # cs))))"

lemma is_digit_iff: "is_digit c \<longleftrightarrow> \<not> c - 0x30 > 9"
  unfolding is_digit_def word_le_nat_alt word_less_nat_alt unat_sub_if' using unsigned_less [of c] by auto

lemma is_digit_unat: "is_digit c \<Longrightarrow> unat (c - 0x30) = unat c - 0x30 \<and> unat c - 0x30 \<le> 9"
  unfolding is_digit_def word_le_nat_alt unat_sub_if' by auto

lemma add_digit_le: "v \<le> add_digit v c"
  by (simp add: add_digit_def)

lemma foldl_add_digit_le: "v \<le> foldl add_digit v cs"
proof (induction cs arbitrary: v)
  case (Cons c cs)
  show ?case using add_digit_le [of v c] Cons.IH [of "add_digit v c"] by simp
qed simp

section \<open>Reading is right\<close>

text \<open>One round: the next digit is added when the number stays within \<open>2 ^ 63\<close>.\<close>

lemma max_safe_step:
  assumes "is_digit c" "unat i \<le> 2 ^ 63"
  shows "i < max_safe \<or> (i = max_safe \<and> c - 0x30 \<le> last_dig) \<longleftrightarrow> add_digit (unat i) c \<le> 2 ^ 63"
    and "add_digit (unat i) c \<le> 2 ^ 63 \<Longrightarrow> unat (i * 10 + (c - 0x30)) = add_digit (unat i) c"
proof -
  have m: "unat max_safe = 922337203685477580" "unat last_dig = 8" by (simp_all add: max_safe_def last_dig_def unat_div unat_mod)
  have d: "unat (c - 0x30) = unat c - 0x30" "unat c - 0x30 \<le> 9" using is_digit_unat [OF assms(1)] by simp_all
  show "i < max_safe \<or> (i = max_safe \<and> c - 0x30 \<le> last_dig) \<longleftrightarrow> add_digit (unat i) c \<le> 2 ^ 63"
    unfolding word_less_nat_alt word_le_nat_alt word_unat_eq_iff m d(1) add_digit_def using d(2) by auto
  assume le: "add_digit (unat i) c \<le> 2 ^ 63"
  have "i * 10 + (c - 0x30) = of_nat (unat i * 10 + unat (c - 0x30))" by simp
  also have "unat \<dots> = unat i * 10 + unat (c - 0x30)"
    by (rule unat_of_nat_small) (use le d in \<open>simp add: add_digit_def\<close>)
  finally show "unat (i * 10 + (c - 0x30)) = add_digit (unat i) c" by (simp add: d add_digit_def)
qed

lemma to_int_digits_points:
  assumes s: "chars s cs" and k: "k + n = length cs" and i: "unat i \<le> 2 ^ 63"
  shows "to_int_digits s c n (str_iter s cs k) i =
    (let v = foldl add_digit (unat i) (takeWhile is_digit (c # drop k cs))
     in if v \<le> 2 ^ 63 then Done (of_nat v) else Thrown ''Integer value of String too big'')"
  using k i
proof (induction n arbitrary: c k i)
  case 0
  show ?case
  proof (cases "is_digit c")
    case True
    moreover from True have "c \<noteq> 0" by (auto simp: is_digit_def)
    moreover have "drop k cs = []" using 0 by simp
    moreover note max_safe_step [OF True 0(2)]
    moreover have "i * 10 + (c - 0x30) = of_nat (add_digit (unat i) c)" if "add_digit (unat i) c \<le> 2 ^ 63"
      unfolding max_safe_step(2) [OF True 0(2) that, symmetric] by simp
    ultimately show ?thesis using True by (subst to_int_digits.simps) (simp add: is_digit_iff Let_def)
  next
    case False
    then show ?thesis using 0 by (subst to_int_digits.simps) (simp add: is_digit_iff Let_def)
  qed
next
  case (Suc n)
  have k: "k < length cs" using Suc.prems(1) by simp
  note adv = STRING_get_and_advance [OF s k]
  show ?case
  proof (cases "is_digit c")
    case True
    moreover from True have "c \<noteq> 0" by (auto simp: is_digit_def)
    moreover note step = max_safe_step [OF True Suc.prems(2)]
    moreover have "drop k cs = cs ! k # drop (Suc k) cs" using k by (simp add: Cons_nth_drop_Suc)
    moreover have "foldl add_digit (add_digit (unat i) c) xs \<le> 2 ^ 63 \<Longrightarrow> add_digit (unat i) c \<le> 2 ^ 63" for xs
      using foldl_add_digit_le [of "add_digit (unat i) c" xs] by simp
    moreover have "add_digit (unat i) c \<le> 2 ^ 63 \<Longrightarrow>
      to_int_digits s (cs ! k) n (str_iter s cs (Suc k)) (i * 10 + (c - 0x30)) =
      (let v = foldl add_digit (add_digit (unat i) c) (takeWhile is_digit (cs ! k # drop (Suc k) cs))
       in if v \<le> 2 ^ 63 then Done (of_nat v) else Thrown ''Integer value of String too big'')"
      using Suc.IH [of "Suc k" "i * 10 + (c - 0x30)" "cs ! k"] Suc.prems(1) step(2) by simp
    ultimately show ?thesis using adv
      by (subst to_int_digits.simps) (auto simp: is_digit_iff Let_def)
  next
    case False
    then show ?thesis using Suc.prems by (subst to_int_digits.simps) (simp add: is_digit_iff Let_def)
  qed
qed

text \<open>Spaces are skipped up to the first other character, or to the end.\<close>

lemma skip_spaces_points:
  assumes s: "chars s cs" and k: "k + n = length cs"
  shows "skip_spaces s c n (str_iter s cs k) =
    (case dropWhile (\<lambda>c. c = 0x20) (c # drop k cs) of
       [] \<Rightarrow> Some (0, 0, str_iter s cs (length cs))
     | c' # rest \<Rightarrow> Some (c', length rest, str_iter s cs (length cs - length rest)))"
  using k
proof (induction n arbitrary: c k)
  case (Suc n)
  then have k: "k < length cs" by simp
  have d: "drop k cs = cs ! k # drop (Suc k) cs" using k by (simp add: Cons_nth_drop_Suc)
  have "length cs - Suc k = n" "length cs - Suc n = k" using Suc.prems by simp_all
  then show ?case using Suc.IH [of "Suc k" "cs ! k"] Suc.prems STRING_get_and_advance [OF s k] d by simp
qed (simp add: k)

lemma next_char_points:
  assumes s: "chars s cs" and k: "k + n = length cs"
  shows "next_char s n (str_iter s cs k) =
    Some (case drop k cs of [] \<Rightarrow> (0, 0, str_iter s cs k) | c # rest \<Rightarrow> (c, length rest, str_iter s cs (Suc k)))"
proof (cases n)
  case (Suc m)
  then have k': "k < length cs" "length cs - Suc k = m" using k by simp_all
  have "drop k cs = cs ! k # drop (Suc k) cs" using k' by (simp add: Cons_nth_drop_Suc)
  then show ?thesis using STRING_get_and_advance [OF s k'(1)] Suc k' by (simp add: next_char_def)
qed (use k in \<open>simp add: next_char_def\<close>)

definition int_of_points :: "u64 list \<Rightarrow> int outcome" where
  "int_of_points cs =
     (let (negative, v) = signed_digits cs
      in if v < 2 ^ 63 \<or> (negative \<and> v = 2 ^ 63) then Done (if negative then - int v else int v)
         else Thrown ''Integer value of String too big'')"

text \<open>The end of the function: the sign is applied and the number converted.\<close>

lemma to_int_sign:
  assumes "v \<le> 2 ^ 63"
  shows "(if \<not> negative \<and> (of_nat v :: u64) > 2 ^ 63 - 1 then Thrown e
      else Done (sint (if negative then - of_nat v else of_nat v :: u64))) =
    (if v < 2 ^ 63 \<or> (negative \<and> v = 2 ^ 63) then Done (if negative then - int v else int v) else Thrown e)"
proof -
  have u: "unat (of_nat v :: u64) = v" by (rule unat_of_nat_small) (use assms in simp)
  have m: "(of_nat v :: u64) > 2 ^ 63 - 1 \<longleftrightarrow> \<not> v < 2 ^ 63" unfolding word_less_nat_alt u by auto
  have "sint (- of_nat v :: u64) = - int v"
  proof -
    have "sint (word_of_int (- int v) :: u64) = - int v"
      unfolding sint_sbintrunc' by (rule signed_take_bit_int_eq_self) (use assms in auto)
    then show ?thesis by simp
  qed
  moreover have "sint (of_nat v :: u64) = int v" if "v < 2 ^ 63"
  proof -
    have "sint (word_of_int (int v) :: u64) = int v"
      unfolding sint_sbintrunc' by (rule signed_take_bit_int_eq_self) (use that in auto)
    then show ?thesis by simp
  qed
  ultimately show ?thesis using assms unfolding m by auto
qed

lemma dropWhile_Cons_drop:
  assumes "dropWhile P cs = c # rest"
  shows "drop (length cs - length rest) cs = rest" "length rest < length cs"
proof -
  have "cs = (takeWhile P cs @ [c]) @ rest" using takeWhile_dropWhile_id [of P cs] assms by simp
  then obtain xs where "cs = (xs @ [c]) @ rest" by blast
  then show "drop (length cs - length rest) cs = rest" "length rest < length cs" by simp_all
qed

lemma Parrot_str_to_int_points:
  assumes s: "chars s cs"
  shows "Parrot_str_to_int (Some s) = int_of_points cs"
proof -
  let ?sp = "\<lambda>c :: u64. c = 0x20" and ?e = "''Integer value of String too big''"
  define fin where "fin = (\<lambda>(negative, c, n, it). obind (to_int_digits s c n it 0) (\<lambda>i. if \<not> negative \<and> i > 2 ^ 63 - 1
    then Thrown ?e else Done (sint (if negative then - i else i))))"
  define res where "res negative v = (if v < 2 ^ 63 \<or> (negative \<and> v = 2 ^ 63)
    then Done (if negative then - int v else int v) else Thrown ?e)" for negative v
  let ?rest = "case dropWhile ?sp cs of [] \<Rightarrow> (0, 0, str_iter s cs (length cs))
     | c # rest \<Rightarrow> (c, length rest, str_iter s cs (length cs - length rest))"
  have digits: "fin (negative, c, n, str_iter s cs k) = res negative (digits_value (takeWhile is_digit (c # drop k cs)))"
    if "k + n = length cs" for negative c n k
    using to_int_sign [of "digits_value (takeWhile is_digit (c # drop k cs))" negative ?e]
    by (auto simp: fin_def res_def to_int_digits_points [OF s that] digits_value_def Let_def)
  have at_end: "fin (negative, 0, 0, str_iter s cs (length cs)) = res negative (digits_value [])" for negative
    using digits [of "length cs" 0 negative 0] by (simp add: is_digit_def)
  have points: "int_of_points cs = (case signed_digits cs of (negative, v) \<Rightarrow> res negative v)"
    by (simp add: int_of_points_def res_def)
  have start: "next_char s (strlen s) STRING_ITER_INIT =
      Some (case cs of [] \<Rightarrow> (0, 0, STRING_ITER_INIT) | c # rest \<Rightarrow> (c, length rest, str_iter s cs (Suc 0)))"
    using next_char_points [OF s, of 0 "length cs"] chars_strlen [OF s] by (cases cs) (simp_all add: iter_at_0)
  obtain c0 n0 it0 where first: "next_char s (strlen s) STRING_ITER_INIT = Some (c0, n0, it0)"
    and skip: "skip_spaces s c0 n0 it0 = Some ?rest"
  proof (cases cs)
    case Nil
    then show ?thesis using that start by (simp add: iter_at_0)
  next
    case (Cons c cs')
    then have "c # drop 1 cs = cs" "1 + length cs' = length cs" by simp_all
    from skip_spaces_points [OF s this(2), of c, unfolded this(1)]
    have "skip_spaces s c (length cs') (str_iter s cs (Suc 0)) = Some ?rest"
      by (simp only: One_nat_def split: list.split_asm list.split) auto
    then show ?thesis using that start Cons by simp
  qed
  have "Parrot_str_to_int (Some s) =
    (case ?rest of (c, n, it) \<Rightarrow>
       obind (defined (if c = 0x2D then do { x \<leftarrow> next_char s n it; Some (True, x) }
          else if c = 0x2B then do { x \<leftarrow> next_char s n it; Some (False, x) }
          else Some (False, c, n, it))) fin)"
    unfolding Parrot_str_to_int_def option.case first skip bind.bind_lunit prod.case fin_def
    by (cases ?rest) simp
  also have "\<dots> = int_of_points cs"
  proof (cases "dropWhile ?sp cs")
    case Nil
    then show ?thesis using at_end by (simp add: points signed_digits_def digits_value_def del: dropWhile_eq_Nil_conv)
  next
    case (Cons c rest)
    let ?k = "length cs - length rest"
    note r = dropWhile_Cons_drop [OF Cons]
    have k: "?k + length rest = length cs" using r(2) by simp
    have sign: "\<exists>x. next_char s (length rest) (str_iter s cs ?k) = Some x
      \<and> (\<forall>negative. fin (negative, x) = res negative (digits_value (takeWhile is_digit rest)))"
    proof (cases rest)
      case Nil
      then show ?thesis using next_char_points [OF s k] at_end by simp
    next
      case (Cons a l)
      then have "Suc ?k + length l = length cs" "drop (Suc ?k) cs = l" 
        using r k tl_drop [of ?k cs] by (simp_all add: drop_Suc)
      then show ?thesis using next_char_points [OF s k] digits [of "Suc ?k" "length l" _ a] r Cons by simp
    qed
    have plain: "fin (False, c, length rest, str_iter s cs ?k) = res False (digits_value (takeWhile is_digit (c # rest)))"
      using digits [OF k, of False c] r(1) by simp
    show ?thesis using Cons sign plain by (auto simp: points signed_digits_def simp del: takeWhile.simps)
  qed
  finally show ?thesis .
qed

section \<open>What is written\<close>

text \<open>The digits of a number in a base of at least 2, the most significant first.\<close>

function uint_digits :: "nat \<Rightarrow> nat \<Rightarrow> u8 list" where
  "uint_digits base num =
     (if base < 2 \<or> num div base = 0 then [digit_char (num mod base)]
      else uint_digits base (num div base) @ [digit_char (num mod base)])"
  by pat_completeness auto
termination
  by (relation "measure snd") (auto simp: div_greater_zero_iff intro!: div_less_dividend)

declare uint_digits.simps [simp del]

lemma length_uint_digits:
  assumes "2 \<le> base" "num < 2 ^ k" "0 < k"
  shows "length (uint_digits base num) \<le> k"
  using assms
proof (induction base num arbitrary: k rule: uint_digits.induct)
  case (1 base num)
  show ?case
  proof (cases "base < 2 \<or> num div base = 0")
    case True
    then show ?thesis using 1(4) by (subst uint_digits.simps) auto
  next
    case False
    then have "num div base \<le> num div 2" by (intro div_le_mono2) auto
    moreover have "0 < num div base" using False by simp
    moreover obtain j where j: "k = Suc j" using 1(4) by (cases k) simp_all
    ultimately have "num div base < 2 ^ j" "0 < j" using 1(3) by (auto intro: gr0I)
    then have "length (uint_digits base (num div base)) \<le> j" by (rule 1(1) [OF False 1(2)])
    then show ?thesis using False j by (subst uint_digits.simps) simp
  qed
qed

lemma uint_digits_nonempty: "uint_digits base num \<noteq> []"
  by (subst uint_digits.simps) auto

lemma from_uint_digits_writes:
  assumes "2 \<le> base" "length (uint_digits base num) \<le> p" "p \<le> length tc"
  shows "\<exists>tc'. from_uint_digits tc p num base = Some (tc', p - length (uint_digits base num)) \<and> length tc' = length tc
    \<and> drop (p - length (uint_digits base num)) tc' = uint_digits base num @ drop p tc"
  using assms
proof (induction base num arbitrary: p tc rule: uint_digits.induct)
  case (1 base num)
  let ?d = "digit_char (num mod base)"
  have p: "0 < p" using 1(3) uint_digits_nonempty [of base num] by (cases "uint_digits base num") auto
  have lt: "p - 1 < length tc" using p 1(4) by simp
  have d: "drop (p - 1) (tc[p - 1 := ?d]) = ?d # drop p tc"
    using lt p Cons_nth_drop_Suc [of "p - 1" "tc[p - 1 := ?d]"] by simp
  have mv: "move p (- 1) = Some (p - 1)" using p by (simp add: move_def nat_diff_distrib)
  show ?case
  proof (cases "base < 2 \<or> num div base = 0")
    case True
    then have "uint_digits base num = [?d]" by (subst uint_digits.simps) simp
    moreover have "num div base = 0" using True 1(2) unfolding not_less [symmetric] by blast
    ultimately show ?thesis using 1(2) mv lt d
      by (subst from_uint_digits.simps) simp
  next
    case False
    let ?ds = "uint_digits base (num div base)"
    have u: "uint_digits base num = ?ds @ [?d]" using False by (subst uint_digits.simps) simp
    have "length ?ds \<le> p - 1" "p - 1 \<le> length (tc[p - 1 := ?d])" using u 1(3,4) by simp_all
    then obtain tc' where "from_uint_digits (tc[p - 1 := ?d]) (p - 1) (num div base) base = Some (tc', p - 1 - length ?ds)"
      "length tc' = length tc" "drop (p - 1 - length ?ds) tc' = ?ds @ drop (p - 1) (tc[p - 1 := ?d])"
      using 1(1) [OF False 1(2), of "p - 1" "tc[p - 1 := ?d]"] by auto
    then show ?thesis using False mv lt d u
      by (subst from_uint_digits.simps) (auto simp: diff_diff_add)
  qed
qed

text \<open>In base 10 they are digits, and reading them gives the number back.\<close>

lemma digit_char_digit: "d < 10 \<Longrightarrow> is_digit (ucast (digit_char d)) \<and> unat (ucast (digit_char d) :: u64) = 0x30 + d"
proof -
  assume d: "d < 10"
  have "unat (digit_char d) = 0x30 + d"
  proof -
    have "digit_char d = of_nat (0x30 + d)" using d by (simp add: digit_char_def)
    then show ?thesis by (simp only:) (rule unat_of_nat_small, use d in simp)
  qed
  then have "unat (ucast (digit_char d) :: u64) = 0x30 + d" using d by (simp add: unsigned_ucast_eq take_bit_nat_eq_self)
  then show ?thesis using d by (simp add: is_digit_def word_le_nat_alt)
qed

lemma foldl_digits:
  "foldl add_digit 0 (map ucast (uint_digits 10 num)) = num \<and> list_all is_digit (map ucast (uint_digits 10 num))"
proof (induction num rule: less_induct)
  case (less num)
  note d = digit_char_digit [of "num mod 10"]
  show ?case
  proof (cases "num div 10 = 0")
    case True
    then show ?thesis using d by (subst (1 2) uint_digits.simps) (simp add: add_digit_def)
  next
    case False
    then have "num div 10 < num" by simp
    note less.IH [OF this]
    moreover have "uint_digits 10 num = uint_digits 10 (num div 10) @ [digit_char (num mod 10)]"
      using False by (subst uint_digits.simps) simp
    ultimately show ?thesis using d add_digit_def [of "num div 10"] by simp
  qed
qed

lemma digits_value_uint_digits:
  "digits_value (takeWhile is_digit (map ucast (uint_digits 10 num))) = num"
proof -
  have "takeWhile is_digit (map ucast (uint_digits 10 num)) = map ucast (uint_digits 10 num)"
    using foldl_digits [of num] by (simp add: takeWhile_eq_all_conv list_all_iff)
  then show ?thesis using foldl_digits [of num] by (simp only: digits_value_def)
qed

lemma digit_char_ascii: "d < 36 \<Longrightarrow> (ucast (digit_char d) :: u64) < 0x80"
proof -
  assume d: "d < 36"
  have "unat (digit_char d) = (if d < 10 then 0x30 + d else 0x57 + d)"
  proof -
    have "digit_char d = of_nat (if d < 10 then 0x30 + d else 0x57 + d)" by (simp add: digit_char_def)
    then show ?thesis by (simp only:) (rule unat_of_nat_small, use d in simp)
  qed
  then show ?thesis using d by (simp add: word_less_nat_alt unsigned_ucast_eq take_bit_nat_eq_self)
qed

lemma uint_digits_ascii:
  assumes "2 \<le> base" "base \<le> 36"
  shows "\<forall>b \<in> set (uint_digits base num). (ucast b :: u64) < 0x80"
proof (induction num rule: less_induct)
  case (less num)
  have d: "(ucast (digit_char (num mod base)) :: u64) < 0x80"
    by (rule digit_char_ascii, rule less_le_trans [OF mod_less_divisor]) (use assms in auto)
  show ?case
  proof (cases "base < 2 \<or> num div base = 0")
    case True
    then show ?thesis using d by (subst uint_digits.simps) simp
  next
    case False
    moreover from False have "num div base < num" using assms(1) by (intro div_less_dividend) (auto intro: gr0I)
    ultimately show ?thesis using d less.IH [of "num div base"] by (subst uint_digits.simps) auto
  qed
qed

lemma Parrot_str_new_init_ascii:
  assumes "\<forall>b \<in> set ds. (ucast b :: u64) < 0x80" "ds \<noteq> []"
  shows "\<exists>s. Parrot_str_new_init junk (Some (ds @ q)) (length ds) Parrot_ascii_encoding_ptr = Done s
    \<and> chars s (map ucast ds) \<and> encoding s = Parrot_ascii_encoding_ptr"
proof -
  let ?s = "\<lparr>strstart = ds, bufused = length ds, strlen = 0, hashval = 0, encoding = Parrot_ascii_encoding_ptr\<rparr>"
  have "memcpy (alloc_bytes junk (length ds)) 0 (ds @ q) (length ds) = Some ds"
    using memcpy_at [of ds "alloc_bytes junk (length ds)" "[]" q] by (simp add: alloc_bytes_def)
  then have "Parrot_str_new_init junk (Some (ds @ q)) (length ds) Parrot_ascii_encoding_ptr = STRING_scan ?s"
    using assms(2) by (simp add: Parrot_str_new_init_def Let_def)
  moreover have b: "bytes_of Parrot_ascii_encoding_ptr (map ucast ds) = ds"
    by (induction ds) (simp_all add: u8_limit(3))
  have "chars (?s\<lparr>strlen := length ds\<rparr>) (map ucast ds)"
    unfolding chars_iff using assms(1) b by (auto simp: fixed8_limit_def)
  moreover from this have "STRING_scan ?s = Done (?s\<lparr>strlen := length ds\<rparr>)"
    using STRING_scan_chars(1) [of ?s "?s\<lparr>strlen := length ds\<rparr>"] by auto
  ultimately show ?thesis by auto
qed

lemma Parrot_str_from_uint_chars:
  assumes base: "2 \<le> base" "base \<le> 36" and tc: "65 \<le> length tc"
  shows "\<exists>s. Parrot_str_from_uint junk tc num base neg = Done s \<and> encoding s = Parrot_ascii_encoding_ptr
    \<and> chars s (map ucast ((if neg then [0x2D] else []) @ uint_digits base (unat num)))"
proof -
  let ?ds = "uint_digits base (unat num)" and ?p = "65 - length (uint_digits base (unat num))"
  have len: "length ?ds \<le> 64" by (rule length_uint_digits [OF base(1)]) (use unsigned_less [of num] in simp_all)
  then obtain tc1 where tc1: "from_uint_digits tc 65 (unat num) base = Some (tc1, ?p)" "length tc1 = length tc"
    "drop ?p tc1 = ?ds @ drop 65 tc"
    using from_uint_digits_writes [OF base(1), of "unat num" 65 tc] tc by auto
  let ?out = "(if neg then [0x2D] else []) @ ?ds"
  obtain tc2 p where w: "(if neg then do { p \<leftarrow> move ?p (- 1); tc \<leftarrow> wr tc1 p 0x2D; Some (tc, p) } else Some (tc1, ?p)) = Some (tc2, p)"
    "drop p tc2 = ?out @ drop 65 tc" "65 - p = length ?out"
  proof (cases neg)
    case True
    define p' where "p' = 64 - length ?ds"
    have p': "?p = Suc p'" "p' < length tc1" using len tc tc1(2) by (simp_all add: p'_def)
    have "drop p' (tc1[p' := 0x2D]) = 0x2D # drop (Suc p') tc1"
      using p'(2) Cons_nth_drop_Suc [of p' "tc1[p' := 0x2D]"] by simp
    moreover have "65 - p' = length ?out" using True len by (simp add: p'_def)
    ultimately show ?thesis using that [of "tc1[p' := 0x2D]" p'] True p' tc1(3) by (simp add: move_def)
  qed (use that [of tc1 ?p] tc1 len in simp)
  have "\<forall>b \<in> set ?out. (ucast b :: u64) < 0x80" using uint_digits_ascii [OF base] by auto
  from Parrot_str_new_init_ascii [OF this, of junk "drop 65 tc"] uint_digits_nonempty [of base "unat num"]
  obtain s where s: "Parrot_str_new_init junk (Some (?out @ drop 65 tc)) (length ?out) Parrot_ascii_encoding_ptr = Done s"
    "chars s (map ucast ?out)" "encoding s = Parrot_ascii_encoding_ptr" by auto
  have "Parrot_str_from_uint junk tc num base neg = Done s"
    using base tc1(1) w s(1) by (cases neg) (simp_all add: Parrot_str_from_uint_def Let_def)
  then show ?thesis using s by blast
qed

section \<open>Integers survive being written and read\<close>

lemma dropWhile_digits: "list_all is_digit cs \<Longrightarrow> dropWhile (\<lambda>c. c = 0x20) cs = cs"
  by (cases cs) (auto simp: is_digit_def)

lemma signed_digits_uint:
  "signed_digits (map ucast ((if neg then [0x2D] else []) @ uint_digits 10 num)) = (neg, num)"
proof (cases neg)
  case True
  then show ?thesis using digits_value_uint_digits [of num] by (simp add: signed_digits_def)
next
  case False
  let ?cs = "map ucast (uint_digits 10 num) :: u64 list"
  obtain c cs where c: "?cs = c # cs" using uint_digits_nonempty [of 10 num] by (cases ?cs) auto
  have d: "list_all is_digit ?cs" using foldl_digits [of num] by simp
  then have "is_digit c" unfolding c by simp
  then have "c \<noteq> 0x2D \<and> c \<noteq> 0x2B" by (auto simp: is_digit_def)
  then show ?thesis using False digits_value_uint_digits [of num] dropWhile_digits [OF d] unfolding signed_digits_def by (simp add: c)
qed

lemma int_base_to_int:
  assumes n: "- (2 ^ 63) < n" "n < 2 ^ 63" and tc: "65 \<le> length tc"
  shows "\<exists>s. Parrot_str_from_int_base junk tc n 10 = Done s \<and> Parrot_str_to_int (Some s) = Done n"
proof -
  have u: "unat (of_int \<bar>n\<bar> :: u64) = nat \<bar>n\<bar>"
  proof -
    have "(of_int \<bar>n\<bar> :: u64) = of_nat (nat \<bar>n\<bar>)" by simp
    then show ?thesis by (simp only:) (rule unat_of_nat_small, use n in auto)
  qed
  obtain s where s: "Parrot_str_from_uint junk tc (of_int \<bar>n\<bar>) 10 (n < 0) = Done s"
    "chars s (map ucast ((if n < 0 then [0x2D] else []) @ uint_digits 10 (nat \<bar>n\<bar>)))"
    using Parrot_str_from_uint_chars [of 10 tc junk "of_int \<bar>n\<bar>" "n < 0"] tc unfolding u by auto
  have "Parrot_str_to_int (Some s) = Done n"
    using n unfolding Parrot_str_to_int_points [OF s(2)] int_of_points_def signed_digits_uint by auto
  moreover have "Parrot_str_from_int_base junk tc n 10 = Done s"
    using s(1) n by (auto simp: Parrot_str_from_int_base_def Let_def)
  ultimately show ?thesis by blast
qed

end
