(* ===== verification/Str_Escape.thy ===== *)
theory Str_Escape
  imports Str_Number
begin

text \<open>
  \<open>Parrot_str_escape_truncate\<close> and \<open>Parrot_str_unescape_string\<close> of \<open>src/string/api.c\<close>: strings
  with backslash sequences.  \<open>snprintf\<close>, \<open>isxdigit\<close> and \<open>strtol\<close> are those of C.
\<close>

section \<open>Escaping\<close>

definition HEX_BUF_SIZE :: nat where "HEX_BUF_SIZE = 16"

text \<open>The control characters and the letters behind the backslash; \<open>c\<close> is an \<open>unsigned\<close>.\<close>

definition escape_letter :: "u32 \<Rightarrow> u32 option" where
  "escape_letter c =
     (if c = 0x5C then Some 0x5C
      else if c = 0x07 then Some 0x61
      else if c = 0x08 then Some 0x62
      else if c = 0x0A then Some 0x6E
      else if c = 0x0D then Some 0x72
      else if c = 0x09 then Some 0x74
      else if c = 0x0C then Some 0x66
      else if c = 0x22 then Some 0x22
      else if c = 27 then Some 0x65
      else None)"

text \<open>\<open>"\x{%x}"\<close> and \<open>"\u%04x"\<close>\<close>

definition hex_escape :: "u32 \<Rightarrow> u8 list" where
  "hex_escape c =
     (let ds = uint_digits 16 (unat c)
      in if c < 0x100 \<or> c \<ge> 0x10000 then [0x5C, 0x78, 0x7B] @ ds @ [0x7D]
         else [0x5C, 0x75] @ replicate (4 - length ds) 0x30 @ ds)"

definition escape_resize :: "(nat \<Rightarrow> u8) \<Rightarrow> nat \<Rightarrow> u8 list \<Rightarrow> nat \<Rightarrow> u8 list \<times> nat" where
  "escape_resize junk len m charlen =
     (let charlen = charlen + (len * 2 + HEX_BUF_SIZE) in (realloc_bytes junk m charlen, charlen))"

text \<open>
  The body of the loop: storage, its size and the length written so far; \<open>len\<close> characters
  are to be done.
\<close>

definition escape_char :: "(nat \<Rightarrow> u8) \<Rightarrow> nat \<Rightarrow> u32 \<Rightarrow> u8 list \<times> nat \<times> nat \<Rightarrow> (u8 list \<times> nat \<times> nat) option" where
  "escape_char junk len c st =
     (let (m, charlen, i) = st
      in do {
        (m, charlen, i, c, continue) \<leftarrow>
          (if c < 0x7F
           then do {
             let (m, charlen) = (if i + 2 \<ge> charlen then escape_resize junk len m charlen else (m, charlen));
             (m, i, c) \<leftarrow> (case escape_letter c of
                Some letter \<Rightarrow> do { m \<leftarrow> wr m i 0x5C; Some (m, i + 1, letter) }
              | None \<Rightarrow> Some (m, i, c));
             if c \<ge> 0x20 then do { m \<leftarrow> wr m i (ucast c); Some (m, charlen, i + 1, c, True) }
             else Some (m, charlen, i, c, False)
           }
           else Some (m, charlen, i, c, False));
        if continue then Some (m, charlen, i)
        else do {
          let hex_buf = hex_escape c;
          let hex_len = length hex_buf;
          let (m, charlen) = (if i + hex_len > charlen then escape_resize junk len m charlen else (m, charlen));
          m \<leftarrow> memcpy m i hex_buf hex_len;
          let i = i + hex_len;
          c_assert (i \<le> charlen);
          Some (m, charlen, i)
        }
      })"

fun escape_from :: "(nat \<Rightarrow> u8) \<Rightarrow> parrot_string \<Rightarrow> nat \<Rightarrow> string_iter \<Rightarrow> u8 list \<times> nat \<times> nat \<Rightarrow> (u8 list \<times> nat \<times> nat) option" where
  "escape_from junk src 0 iter st = Some st"
| "escape_from junk src (Suc n) iter st =
     do {
       (c, iter) \<leftarrow> STRING_iter_get_and_advance src iter;
       st \<leftarrow> escape_char junk (Suc n) (ucast c) st;
       escape_from junk src n iter st
     }"

definition Parrot_str_escape_truncate :: "(nat \<Rightarrow> u8) \<Rightarrow> nstring \<Rightarrow> u64 \<Rightarrow> nstring outcome" where
  "Parrot_str_escape_truncate junk src limit =
     (case src of None \<Rightarrow> Done None | Some src \<Rightarrow>
      let len = strlen src;
          len = (if (of_nat len :: u64) > limit then unat limit else len);
          charlen = 2 * len;
          charlen = (if charlen < HEX_BUF_SIZE then HEX_BUF_SIZE else charlen)
      in obind (Parrot_str_new_init junk None charlen Parrot_ascii_encoding_ptr) (\<lambda>result.
         obind (defined (escape_from junk src len STRING_ITER_INIT (strstart result, charlen, 0))) (\<lambda>(m, charlen, i).
         Done (Some (result\<lparr>strstart := m, bufused := i, strlen := i\<rparr>)))))"

definition Parrot_str_escape :: "(nat \<Rightarrow> u8) \<Rightarrow> nstring \<Rightarrow> nstring outcome" where
  "Parrot_str_escape junk src = Parrot_str_escape_truncate junk src (NOT 0)"

section \<open>Unescaping\<close>

text \<open>\<open>isxdigit\<close> is undefined for arguments above the range of a byte.\<close>

definition isxdigit :: "u64 \<Rightarrow> bool option" where
  "isxdigit c =
     (if c > 0xFF then None
      else Some ((0x30 \<le> c \<and> c \<le> 0x39) \<or> (0x41 \<le> c \<and> c \<le> 0x46) \<or> (0x61 \<le> c \<and> c \<le> 0x66)))"

definition digit_value :: "u64 \<Rightarrow> nat" where
  "digit_value c = (if c \<le> 0x39 then unat c - 0x30 else if c \<le> 0x46 then unat c - 0x41 + 10 else unat c - 0x61 + 10)"

text \<open>\<open>strtol\<close> on digits of the base, no more than 8 of them.\<close>

definition strtol :: "u64 list \<Rightarrow> nat \<Rightarrow> u64" where
  "strtol digbuf base = of_nat (foldl (\<lambda>v c. base * v + digit_value c) 0 digbuf)"

definition next_source :: "parrot_string \<Rightarrow> string_iter \<Rightarrow> (u64 \<times> string_iter) outcome" where
  "next_source src iter = defined (STRING_iter_get_and_advance src iter)"

definition illegal_escape :: "'a outcome" where
  "illegal_escape = Thrown ''Illegal escape sequence''"

text \<open>\<open>\x{h..h}\<close>: room for \<open>k\<close> more digits.\<close>

fun brace_digits :: "parrot_string \<Rightarrow> nat \<Rightarrow> nat \<Rightarrow> u64 \<Rightarrow> string_iter \<Rightarrow> u64 list \<Rightarrow> (u64 \<times> string_iter \<times> u64 list) outcome" where
  "brace_digits src srclen k c iter digbuf =
     (if bytepos iter < srclen
      then obind (next_source src iter) (\<lambda>(c, iter).
        if c = 0x7D then Done (c, iter, digbuf)
        else obind (defined (isxdigit c)) (\<lambda>x.
          if \<not> x then illegal_escape
          else case k of
            0 \<Rightarrow> Done (c, iter, digbuf)
          | Suc k \<Rightarrow> brace_digits src srclen k c iter (digbuf @ [c])))
      else Done (c, iter, digbuf))"

text \<open>\<open>\xhh\<close>: \<open>k\<close> digits to go; the flag is \<open>pending\<close>.\<close>

fun hex_digits :: "parrot_string \<Rightarrow> nat \<Rightarrow> nat \<Rightarrow> u64 \<Rightarrow> string_iter \<Rightarrow> u64 list \<Rightarrow> (bool \<times> u64 \<times> string_iter \<times> u64 list) outcome" where
  "hex_digits src srclen 0 c iter digbuf = Done (True, c, iter, digbuf)"
| "hex_digits src srclen (Suc k) c iter digbuf =
     obind (defined (isxdigit c)) (\<lambda>x.
       if \<not> x then Done (True, c, iter, digbuf)
       else if bytepos iter \<ge> srclen then Done (False, c, iter, digbuf @ [c])
       else obind (next_source src iter) (\<lambda>(c', iter). hex_digits src srclen k c' iter (digbuf @ [c])))"

text \<open>\<open>\uhhhh\<close> and \<open>\Uhhhhhhhh\<close>\<close>

fun fixed_digits :: "parrot_string \<Rightarrow> nat \<Rightarrow> nat \<Rightarrow> u64 \<Rightarrow> string_iter \<Rightarrow> u64 list \<Rightarrow> (u64 \<times> string_iter \<times> u64 list) outcome" where
  "fixed_digits src srclen 0 c iter digbuf = Done (c, iter, digbuf)"
| "fixed_digits src srclen (Suc k) c iter digbuf =
     (if bytepos iter \<ge> srclen then Done (c, iter, digbuf)
      else obind (next_source src iter) (\<lambda>(c, iter).
        obind (defined (isxdigit c)) (\<lambda>x.
          if \<not> x then illegal_escape else fixed_digits src srclen k c iter (digbuf @ [c]))))"

text \<open>\<open>\ooo\<close>\<close>

fun octal_digits :: "parrot_string \<Rightarrow> nat \<Rightarrow> nat \<Rightarrow> u64 \<Rightarrow> string_iter \<Rightarrow> u64 list \<Rightarrow> (u64 \<times> string_iter \<times> u64 list) outcome" where
  "octal_digits src srclen 0 c iter digbuf = Done (c, iter, digbuf)"
| "octal_digits src srclen (Suc k) c iter digbuf =
     (if bytepos iter \<ge> srclen then Done (c, iter, digbuf)
      else obind (next_source src iter) (\<lambda>(c, iter).
        if c < 0x30 \<or> c > 0x37 then Done (c, iter, digbuf)
        else octal_digits src srclen k c iter (digbuf @ [c])))"

text \<open>
  The body of the inner loop for the character \<open>c\<close>: what to write (\<open>None\<close> when the loop is
  left before), whether a character that was read is \<open>pending\<close>, and that character.
\<close>

definition unescape_char :: "parrot_string \<Rightarrow> nat \<Rightarrow> u64 \<Rightarrow> string_iter \<Rightarrow> (u64 option \<times> bool \<times> u64 \<times> string_iter) outcome" where
  "unescape_char src srclen c itersrc =
     (let at_end = (\<lambda>it. bytepos it \<ge> srclen) in
      if c \<noteq> 0x5C then Done (Some c, False, c, itersrc)
      else if at_end itersrc then Done (None, False, c, itersrc)
      else
        let backslash = c in
        obind (next_source src itersrc) (\<lambda>(c, itersrc).
        if c = 0x61 then Done (Some 7, False, c, itersrc)
        else if c = 0x62 then Done (Some 8, False, c, itersrc)
        else if c = 0x74 then Done (Some 9, False, c, itersrc)
        else if c = 0x6E then Done (Some 0xA, False, c, itersrc)
        else if c = 0x76 then Done (Some 0xB, False, c, itersrc)
        else if c = 0x66 then Done (Some 0xC, False, c, itersrc)
        else if c = 0x72 then Done (Some 0xD, False, c, itersrc)
        else if c = 0x65 then Done (Some 0x1B, False, c, itersrc)
        else if c = 0x63 then
          (if at_end itersrc then Done (Some backslash, False, c, itersrc)
           else obind (next_source src itersrc) (\<lambda>(c, itersrc).
             if c < 0x41 \<or> c > 0x5A then illegal_escape else Done (Some (c - 0x41 + 1), False, c, itersrc)))
        else if c = 0x78 then
          (if at_end itersrc then Done (Some backslash, False, c, itersrc)
           else obind (next_source src itersrc) (\<lambda>(c, itersrc).
             obind (if c = 0x7B
                    then obind (brace_digits src srclen 8 c itersrc []) (\<lambda>(c, itersrc, digbuf).
                      if c \<noteq> 0x7D then illegal_escape else Done (False, c, itersrc, digbuf))
                    else hex_digits src srclen 2 c itersrc []) (\<lambda>(pending, c, itersrc, digbuf).
             if digbuf = [] then illegal_escape
             else Done (Some (strtol digbuf 16), pending, c, itersrc))))
        else if c = 0x75 then
          obind (fixed_digits src srclen 4 c itersrc []) (\<lambda>(c, itersrc, digbuf). Done (Some (strtol digbuf 16), False, c, itersrc))
        else if c = 0x55 then
          obind (fixed_digits src srclen 8 c itersrc []) (\<lambda>(c, itersrc, digbuf). Done (Some (strtol digbuf 16), False, c, itersrc))
        else if 0x30 \<le> c \<and> c \<le> 0x37 then
          obind (octal_digits src srclen 2 c itersrc [c]) (\<lambda>(c, itersrc, digbuf).
            Done (Some (strtol digbuf 8), bytepos itersrc < srclen \<and> length digbuf < 3, c, itersrc))
        else Done (Some c, False, c, itersrc)))"

text \<open>
  The loops, one iteration of the inner one at a time: \<open>pending\<close> is the character that is
  taken up again.  Every iteration reads a character, so that \<open>srclen\<close> rounds are enough.
\<close>

fun unescape_from :: "nat \<Rightarrow> parrot_string \<Rightarrow> nat \<Rightarrow> u64 option \<Rightarrow> string_iter \<Rightarrow> parrot_string \<Rightarrow> string_iter
    \<Rightarrow> (parrot_string \<times> string_iter) outcome" where
  "unescape_from fuel src srclen pending itersrc result iterdest =
     (if pending = None \<and> bytepos itersrc \<ge> srclen then Done (result, iterdest)
      else case fuel of
        0 \<Rightarrow> Undefined
      | Suc fuel \<Rightarrow>
          obind (case pending of Some c \<Rightarrow> Done (c, itersrc) | None \<Rightarrow> next_source src itersrc) (\<lambda>(c, itersrc).
          obind (unescape_char src srclen c itersrc) (\<lambda>(next_c, pending, c, itersrc).
          obind (case next_c of
                   None \<Rightarrow> Done (result, iterdest)
                 | Some x \<Rightarrow> STRING_iter_set_and_advance result iterdest x) (\<lambda>(result, iterdest).
          unescape_from fuel src srclen (if pending then Some c else None) itersrc result iterdest))))"

declare brace_digits.simps [simp del] unescape_from.simps [simp del]

definition Parrot_str_unescape_string :: "(nat \<Rightarrow> u8) \<Rightarrow> parrot_string \<Rightarrow> encoding_ptr \<Rightarrow> parrot_string outcome" where
  "Parrot_str_unescape_string junk src enc =
     (let srclen = Parrot_str_byte_length (Some src);
          result = \<lparr>strstart = [], bufused = 0, strlen = 0, hashval = 0, encoding = enc\<rparr>;
          reserved = string_max_bytes result srclen;
          result = result\<lparr>strstart := alloc_bytes junk reserved, bufused := reserved\<rparr>
      in obind (unescape_from srclen src srclen None STRING_ITER_INIT result STRING_ITER_INIT) (\<lambda>(result, iterdest).
         Done (result\<lparr>bufused := bytepos iterdest, strlen := charpos iterdest\<rparr>)))"

end
