(* ===== verification/Str_Escape_Rep.thy ===== *)
theory Str_Escape_Rep
  imports Str_Escape
begin

text \<open>
  Escape sequences in terms of code points: what escaping writes for each of them, and that
  unescaping reads it back.
\<close>

section \<open>Hexadecimal digits\<close>

lemma length_uint_digits_power:
  assumes "2 \<le> base" "num < base ^ k" "0 < k"
  shows "length (uint_digits base num) \<le> k"
  using assms
proof (induction base num arbitrary: k rule: uint_digits.induct)
  case (1 base num)
  show ?case
  proof (cases "base < 2 \<or> num div base = 0")
    case True
    then show ?thesis using 1(4) by (subst uint_digits.simps) auto
  next
    case False
    obtain j where j: "k = Suc j" using 1(4) by (cases k) simp_all
    have "num div base < base ^ j" using 1(2,3) j by (simp add: less_mult_imp_div_less mult.commute)
    moreover from this have "0 < j" using False by (intro gr0I) auto
    ultimately have "length (uint_digits base (num div base)) \<le> j" by (rule 1(1) [OF False 1(2)])
    then show ?thesis using False j by (subst uint_digits.simps) simp
  qed
qed

text \<open>Folding over the digits gives the number back, in every base whose digits are read right.\<close>

lemma foldl_uint_digits:
  assumes "2 \<le> base" "\<And>v d. d < base \<Longrightarrow> f v (ucast (digit_char d)) = base * v + d"
  shows "foldl f 0 (map ucast (uint_digits base num)) = num"
proof (induction num rule: less_induct)
  case (less num)
  have d: "f v (ucast (digit_char (num mod base))) = base * v + num mod base" for v
    by (rule assms(2)) (use assms(1) in simp)
  show ?case
  proof (cases "base < 2 \<or> num div base = 0")
    case True
    then have "num < base" using assms(1) by (auto simp: div_eq_0_iff)
    then show ?thesis using d [of 0] True by (subst uint_digits.simps) simp
  next
    case False
    then have "num div base < num" using assms(1) by (intro div_less_dividend) (auto intro: gr0I)
    then show ?thesis using less.IH d False by (subst uint_digits.simps) simp
  qed
qed

lemma digit_char_hex:
  assumes "d < 16"
  shows "isxdigit (ucast (digit_char d)) = Some True" "digit_value (ucast (digit_char d)) = d"
    "(ucast (digit_char d) :: u64) \<noteq> 0x7D" "(ucast (digit_char d) :: u64) < 0x80"
proof -
  have "unat (digit_char d) = (if d < 10 then 0x30 + d else 0x57 + d)"
  proof -
    have "digit_char d = of_nat (if d < 10 then 0x30 + d else 0x57 + d)" by (simp add: digit_char_def)
    then show ?thesis by (simp only:) (rule unat_of_nat_small, use assms in simp)
  qed
  then have u: "unat (ucast (digit_char d) :: u64) = (if d < 10 then 0x30 + d else 0x57 + d)"
    using assms by (simp add: unsigned_ucast_eq take_bit_nat_eq_self)
  show "isxdigit (ucast (digit_char d)) = Some True" "digit_value (ucast (digit_char d)) = d"
    "(ucast (digit_char d) :: u64) < 0x80"
    using assms u by (auto simp: isxdigit_def digit_value_def word_le_nat_alt word_less_nat_alt split: if_splits)
  show "(ucast (digit_char d) :: u64) \<noteq> 0x7D" using assms u by (auto simp: word_unat_eq_iff split: if_splits)
qed

text \<open>The digits of the base are what \<open>isxdigit\<close> accepts.\<close>

lemma uint_digits_digit_char: "2 \<le> base \<Longrightarrow> b \<in> set (uint_digits base num) \<Longrightarrow> \<exists>d < base. b = digit_char d"
proof (induction num rule: less_induct)
  case (less num)
  have d: "num mod base < base" using less.prems(1) by simp
  show ?case
  proof (cases "base < 2 \<or> num div base = 0")
    case True
    then show ?thesis using less.prems(2) d by (subst (asm) uint_digits.simps) auto
  next
    case False
    moreover from False have "num div base < num" using less.prems(1) by (intro div_less_dividend) (auto intro: gr0I)
    moreover have "b \<in> set (uint_digits base (num div base)) \<or> b = digit_char (num mod base)"
      using less.prems(2) False by (subst (asm) uint_digits.simps) auto
    ultimately show ?thesis using less.IH less.prems(1) d by blast
  qed
qed

definition hex_points :: "u64 list \<Rightarrow> bool" where
  "hex_points ds \<longleftrightarrow> (\<forall>c \<in> set ds. isxdigit c = Some True \<and> c \<noteq> 0x7D \<and> c < 0x80)"

lemma hex_points_uint_digits: "hex_points (map ucast (replicate k 0x30 @ uint_digits 16 num))"
proof -
  have "isxdigit (ucast b) = Some True \<and> (ucast b :: u64) \<noteq> 0x7D \<and> (ucast b :: u64) < 0x80" if "b \<in> set (uint_digits 16 num)" for b
    using uint_digits_digit_char [OF _ that] digit_char_hex by fastforce
  moreover have "isxdigit (ucast (0x30 :: u8)) = Some True \<and> (ucast (0x30 :: u8) :: u64) \<noteq> 0x7D \<and> (ucast (0x30 :: u8) :: u64) < 0x80"
    by (simp add: isxdigit_def)
  ultimately show ?thesis by (auto simp: hex_points_def)
qed

lemma strtol_uint_digits: "strtol (map ucast (replicate k 0x30 @ uint_digits 16 num)) 16 = of_nat num"
proof -
  let ?f = "\<lambda>v c. 16 * v + digit_value c"
  have "foldl ?f 0 (map ucast (replicate k (0x30 :: u8))) = 0" by (induction k) (simp_all add: digit_value_def)
  moreover have "foldl ?f 0 (map ucast (uint_digits 16 num)) = num"
    by (rule foldl_uint_digits) (simp_all add: digit_char_hex)
  ultimately show ?thesis by (simp add: strtol_def)
qed

section \<open>What escaping writes\<close>

definition escape_bytes :: "u32 \<Rightarrow> u8 list" where
  "escape_bytes c =
     (case (if c < 0x7F then escape_letter c else None) of
        Some letter \<Rightarrow> [0x5C, ucast letter]
      | None \<Rightarrow> if 0x20 \<le> c \<and> c < 0x7F then [ucast c] else hex_escape c)"

lemma length_hex_escape: "length (hex_escape c) \<le> 12"
proof -
  have "unat c < 16 ^ 8" using unsigned_less [of c] by simp
  then have "length (uint_digits 16 (unat c)) \<le> 8" by (intro length_uint_digits_power) simp_all
  moreover have "length (uint_digits 16 (unat c)) \<le> 4" if "c < 0x10000"
    by (rule length_uint_digits_power) (use that in \<open>simp_all add: word_less_nat_alt\<close>)
  ultimately show ?thesis by (auto simp: hex_escape_def Let_def not_le)
qed

lemma escape_letter_visible: "escape_letter c = Some l \<Longrightarrow> 0x20 \<le> l"
  by (auto simp: escape_letter_def split: if_splits)

lemma realloc_grow: "length m \<le> n \<Longrightarrow> \<exists>r. realloc_bytes junk m n = m @ r \<and> length r = n - length m"
  by (simp add: realloc_bytes_def)

lemma escape_char_writes:
  assumes m: "length (out @ rest) = charlen" and n: "16 \<le> charlen"
  shows "\<exists>rest' charlen'. escape_char junk len c (out @ rest, charlen, length out)
      = Some (out @ escape_bytes c @ rest', charlen', length (out @ escape_bytes c))
    \<and> length (out @ escape_bytes c @ rest') = charlen' \<and> 16 \<le> charlen'"
proof -
  have grow: "\<exists>r n'. escape_resize junk len (out @ r0) n0 = (out @ r, n') \<and> length (out @ r) = n' \<and> 16 \<le> n' \<and> length r0 + 16 \<le> length r"
    if "length (out @ r0) = n0" "16 \<le> n0" for r0 n0
    using realloc_grow [of "out @ r0" "n0 + (len * 2 + HEX_BUF_SIZE)" junk] that
    by (auto simp: escape_resize_def Let_def HEX_BUF_SIZE_def)
  let ?room = "if length out + 2 \<ge> charlen then escape_resize junk len (out @ rest) charlen else (out @ rest, charlen)"
  obtain r1 n1 where r1: "?room = (out @ r1, n1)" "length (out @ r1) = n1" "16 \<le> n1" "2 \<le> length r1"
    using grow [OF m n] m n by (cases "length out + 2 \<ge> charlen") fastforce+
  have hex: "\<exists>rest' charlen'. do {
          let (m, charlen) = (if length out + length (hex_escape c) > n0 then escape_resize junk len (out @ r0) n0 else (out @ r0, n0));
          m \<leftarrow> memcpy m (length out) (hex_escape c) (length (hex_escape c));
          c_assert (length out + length (hex_escape c) \<le> charlen);
          Some (m, charlen, length out + length (hex_escape c))
        } = Some (out @ hex_escape c @ rest', charlen', length (out @ hex_escape c))
      \<and> length (out @ hex_escape c @ rest') = charlen' \<and> 16 \<le> charlen'" if r0: "length (out @ r0) = n0" "16 \<le> n0" for r0 n0
  proof -
    let ?room = "if length out + length (hex_escape c) > n0 then escape_resize junk len (out @ r0) n0 else (out @ r0, n0)"
    obtain r2 n2 where r2: "?room = (out @ r2, n2)" "length (out @ r2) = n2" "16 \<le> n2" "length (hex_escape c) \<le> length r2"
      using grow [OF r0] r0 length_hex_escape [of c] by (cases "length out + length (hex_escape c) > n0") fastforce+
    have "memcpy (out @ r2) (length out) (hex_escape c) (length (hex_escape c)) = Some (out @ hex_escape c @ drop (length (hex_escape c)) r2)"
      using memcpy_at [OF r2(4), of out "[]"] by simp
    then show ?thesis unfolding r2(1) using r2(2-4) by auto
  qed
  show ?thesis
  proof (cases "c < 0x7F")
    case False
    then have "escape_bytes c = hex_escape c" by (simp add: escape_bytes_def)
    then show ?thesis using hex [OF m n] False unfolding escape_char_def by (simp add: Let_def)
  next
    case True
    obtain y z ys where ys: "r1 = y # z # ys" using r1(4) by (cases r1; cases "tl r1") auto
    show ?thesis
    proof (cases "escape_letter c")
      case (Some l)
      have "wr (out @ r1) (length out) 0x5C = Some (out @ 0x5C # z # ys)" unfolding ys by (rule wr_append)
      moreover have "wr (out @ 0x5C # z # ys) (length out + 1) (ucast l) = Some (out @ 0x5C # ucast l # ys)"
        using wr_append [of "out @ [0x5C]" z ys "ucast l"] by simp
      ultimately show ?thesis
        using True Some escape_letter_visible [OF Some] r1(1-3) ys
        unfolding escape_char_def Let_def prod.case r1(1) by (simp add: escape_bytes_def)
    next
      case None
      show ?thesis
      proof (cases "c \<ge> 0x20")
        case vis: True
        have "wr (out @ r1) (length out) (ucast c) = Some (out @ ucast c # z # ys)" unfolding ys by (rule wr_append)
        then show ?thesis using True None vis r1(2,3) ys
          unfolding escape_char_def Let_def prod.case r1(1) by (simp add: escape_bytes_def)
      next
        case False
        then have "escape_bytes c = hex_escape c" using None by (simp add: escape_bytes_def)
        then show ?thesis using hex [OF r1(2,3)] True None False
          unfolding escape_char_def Let_def prod.case r1(1) by simp
      qed
    qed
  qed
qed

lemma escape_from_writes:
  assumes s: "chars src cs" and "k + n \<le> length cs" "length (out @ rest) = charlen" "16 \<le> charlen"
  shows "\<exists>rest' charlen'. escape_from junk src n (str_iter src cs k) (out @ rest, charlen, length out) =
    (let b = concat (map (\<lambda>c. escape_bytes (ucast c)) (take n (drop k cs)))
     in Some (out @ b @ rest', charlen', length (out @ b)))"
  using assms(2-4)
proof (induction n arbitrary: k out rest charlen)
  case (Suc n)
  have k: "k < length cs" "Suc k + n \<le> length cs" using Suc.prems(1) by simp_all
  let ?b = "escape_bytes (ucast (cs ! k))"
  obtain rest1 charlen1 where e: "escape_char junk (Suc n) (ucast (cs ! k)) (out @ rest, charlen, length out)
      = Some ((out @ ?b) @ rest1, charlen1, length (out @ ?b))" "length ((out @ ?b) @ rest1) = charlen1" "16 \<le> charlen1"
    using escape_char_writes [OF Suc.prems(2,3), of junk "Suc n" "ucast (cs ! k)"] by auto
  show ?case
    using Suc.IH [OF k(2) e(2,3)] STRING_get_and_advance [OF s k(1)] e(1) drop_step [OF k(1)] by (simp add: Let_def)
qed (simp add: Let_def)

lemma escape_bytes_ascii: "\<forall>b \<in> set (escape_bytes c). (ucast b :: u64) < 0x80"
proof -
  have hex: "\<forall>b \<in> set (hex_escape c). (ucast b :: u64) < 0x80"
    using uint_digits_ascii [of 16 "unat c"] by (auto simp: hex_escape_def Let_def)
  have plain: "(ucast (ucast c :: u8) :: u64) < 0x80" if "c < 0x7F"
  proof -
    have "unat c < 0x7F" using that by (simp add: word_less_nat_alt)
    moreover from this have "unat (ucast c :: u8) = unat c" by (simp add: unsigned_ucast_eq take_bit_nat_eq_self)
    ultimately show ?thesis unfolding u8_limit(1) by (simp add: word_less_nat_alt)
  qed
  have "\<forall>l. escape_letter c = Some l \<longrightarrow> (ucast (ucast l :: u8) :: u64) < 0x80"
    by (auto simp: escape_letter_def)
  then show ?thesis using hex plain by (auto simp: escape_bytes_def split: option.splits)
qed

definition escape_points :: "u64 \<Rightarrow> u64 list" where
  "escape_points c = map ucast (escape_bytes (ucast c))"

lemma ascii_chars:
  assumes "\<forall>b \<in> set bs. (ucast b :: u64) < 0x80" "strstart r = bs @ rest" "bufused r = length bs" "strlen r = length bs"
    "encoding r = Parrot_ascii_encoding_ptr"
  shows "chars r (map ucast bs)"
proof -
  have "bytes_of Parrot_ascii_encoding_ptr (map ucast bs) = bs" by (induction bs) (simp_all add: u8_limit(3))
  then show ?thesis using assms by (auto simp: chars_iff fixed8_limit_def)
qed

lemma Parrot_str_escape_truncate_chars:
  assumes s: "chars src cs"
  shows "\<exists>r. Parrot_str_escape_truncate junk (Some src) limit = Done (Some r) \<and> encoding r = Parrot_ascii_encoding_ptr
    \<and> chars r (concat (map escape_points (if limit < of_nat (length cs) then take (unat limit) cs else cs)))"
proof -
  define n where "n = (if limit < of_nat (length cs) then unat limit else length cs)"
  have n: "0 + n \<le> length cs"
  proof -
    have "unat limit < length cs" if "limit < of_nat (length cs)"
      using that by (simp add: word_less_nat_alt unat_of_nat)
    then show ?thesis by (auto simp: n_def)
  qed
  have sl: "strlen src = length cs" using s by (rule chars_strlen)
  define charlen where "charlen = (if 2 * n < HEX_BUF_SIZE then HEX_BUF_SIZE else 2 * n)"
  have c: "16 \<le> charlen" by (simp add: charlen_def HEX_BUF_SIZE_def)
  let ?m = "alloc_bytes junk charlen"
  let ?b = "concat (map (\<lambda>c. escape_bytes (ucast c)) (take n cs))"
  have "length ([] @ ?m) = charlen" by (simp add: alloc_bytes_def)
  from escape_from_writes [OF s n this c, of junk] obtain rest charlen' where
    e: "escape_from junk src n STRING_ITER_INIT (?m, charlen, 0) = Some (?b @ rest, charlen', length ?b)"
    by (auto simp: Let_def iter_at_0)
  let ?r = "\<lparr>strstart = ?b @ rest, bufused = length ?b, strlen = length ?b, hashval = 0, encoding = Parrot_ascii_encoding_ptr\<rparr>"
  have "Parrot_str_escape_truncate junk (Some src) limit = Done (Some ?r)"
    unfolding Parrot_str_escape_truncate_def option.case Let_def sl n_def [symmetric] charlen_def [symmetric]
    using e by (simp add: Parrot_str_new_init_def Let_def)
  moreover have "chars ?r (map ucast ?b)" by (rule ascii_chars) (use escape_bytes_ascii in auto)
  moreover have "map ucast ?b = concat (map escape_points (take n cs))" by (simp add: map_concat escape_points_def [abs_def] comp_def)
  moreover have "take n cs = (if limit < of_nat (length cs) then take (unat limit) cs else cs)" by (simp add: n_def)
  ultimately show ?thesis by auto
qed

section \<open>Reading the sequences\<close>

lemma source_at_end:
  assumes s: "chars s S" and k: "k \<le> length S"
  shows "bytepos (str_iter s S k) < bufused s \<longleftrightarrow> k < length S"
proof -
  have "bytes_of (encoding s) S = bytes_of (encoding s) (take k S) @ bytes_of (encoding s) (drop k S)"
    by (metis append_take_drop_id concat_append map_append)
  moreover have "bytes_of (encoding s) (drop k S) \<noteq> [] \<longleftrightarrow> k < length S"
    using vt.chunk_length(1) [of "encoding s" "S ! k"] k by (cases "k < length S") (auto simp: drop_step)
  ultimately show ?thesis using s by (simp add: chars_iff)
qed

lemma next_source_at: "chars s S \<Longrightarrow> k < length S \<Longrightarrow> next_source s (str_iter s S k) = Done (S ! k, str_iter s S (Suc k))"
  using STRING_get_and_advance by (simp add: next_source_def)

lemma drop_Cons_nth: "drop k S = c # rest \<Longrightarrow> k < length S \<and> S ! k = c \<and> drop (Suc k) S = rest"
  by (metis drop_eq_Nil drop_step leI list.inject list.simps(3))

lemma drop_Cons2_nth:
  assumes "drop k S = a # b # rest"
  shows "k < length S" "S ! k = a" "Suc k < length S" "S ! Suc k = b" "drop (Suc (Suc k)) S = rest"
  using drop_Cons_nth [OF assms] drop_Cons_nth [of "Suc k" S b rest] by simp_all

lemma brace_digits_reads:
  assumes s: "chars s S" and "drop k S = ds @ 0x7D # rest" "hex_points ds" "length ds \<le> j"
  shows "brace_digits s (bufused s) j c (str_iter s S k) buf = Done (0x7D, str_iter s S (k + length ds + 1), buf @ ds)"
  using assms(2-4)
proof (induction ds arbitrary: j c k buf)
  case Nil
  then have k: "k < length S" "S ! k = 0x7D" using drop_Cons_nth [of k S] by auto
  then show ?case using source_at_end [OF s, of k] next_source_at [OF s k(1)] by (subst brace_digits.simps) simp
next
  case (Cons d ds)
  then have k: "k < length S" "S ! k = d" "drop (Suc k) S = ds @ 0x7D # rest" using drop_Cons_nth [of k S] by auto
  obtain i where j: "j = Suc i" using Cons.prems(3) by (cases j) auto
  have d: "isxdigit d = Some True" "d \<noteq> 0x7D" "hex_points ds" using Cons.prems(2) by (auto simp: hex_points_def)
  have "brace_digits s (bufused s) i d (str_iter s S (Suc k)) (buf @ [d]) = Done (0x7D, str_iter s S (Suc k + length ds + 1), (buf @ [d]) @ ds)"
    by (rule Cons.IH [OF k(3) d(3)]) (use Cons.prems(3) j in simp)
  then show ?case using source_at_end [OF s, of k] next_source_at [OF s k(1)] k d j by (subst brace_digits.simps) simp
qed

lemma fixed_digits_reads:
  assumes s: "chars s S" and "drop k S = ds @ rest" "hex_points ds"
  shows "\<exists>c'. fixed_digits s (bufused s) (length ds) c (str_iter s S k) buf = Done (c', str_iter s S (k + length ds), buf @ ds)"
  using assms(2,3)
proof (induction ds arbitrary: c k buf)
  case (Cons d ds)
  then have k: "k < length S" "S ! k = d" "drop (Suc k) S = ds @ rest" using drop_Cons_nth [of k S] by auto
  have d: "isxdigit d = Some True" "hex_points ds" using Cons.prems(2) by (auto simp: hex_points_def)
  show ?case using Cons.IH [OF k(3) d(2), of d "buf @ [d]"] source_at_end [OF s, of k] next_source_at [OF s k(1)] k d by (simp add: not_le)
qed simp

lemma ucast_narrow:
  fixes w :: "'a::len word" and c :: u64
  assumes "unat w = unat c"
  shows "ucast w = c"
proof -
  have "unat (ucast w :: u64) = take_bit 64 (unat c)" by (simp add: unsigned_ucast_eq assms)
  also have "\<dots> = unat c" by (rule take_bit_nat_eq_self) (use unsigned_less [of c] in simp)
  finally show ?thesis by (simp add: word_unat_eq_iff)
qed

lemma unat_ucast8: "unat (ucast (v :: u32) :: u8) = take_bit 8 (unat v)"
  by (simp add: unsigned_ucast_eq)

text \<open>The forms of an escaped code point.\<close>

lemma escape_points_cases:
  assumes "c < 0x100000000"
  obtains (letter) l where "escape_points c = [0x5C, l]"
      "(c, l) \<in> {(0x5C, 0x5C), (7, 0x61), (8, 0x62), (0xA, 0x6E), (0xD, 0x72), (9, 0x74), (0xC, 0x66), (0x22, 0x22), (27, 0x65)}"
    | (plain) "escape_points c = [c]" "c \<noteq> 0x5C"
    | (brace) ds where "escape_points c = [0x5C, 0x78, 0x7B] @ ds @ [0x7D]" "hex_points ds" "length ds \<le> 8" "ds \<noteq> []" "strtol ds 16 = c"
    | (four) ds where "escape_points c = [0x5C, 0x75] @ ds" "hex_points ds" "length ds = 4" "strtol ds 16 = c"
proof -
  let ?w = "ucast c :: u32"
  have lt: "unat c < 2 ^ 32" using assms by (simp add: word_less_nat_alt)
  then have w: "unat ?w = unat c" by (simp add: unsigned_ucast_eq take_bit_nat_eq_self)
  have cw: "(ucast ?w :: u64) = c" using w by (rule ucast_narrow)
  show thesis
  proof (cases "if ?w < 0x7F then escape_letter ?w else None")
    case (Some l)
    then have "escape_letter ?w = Some l" by (simp split: if_splits)
    then have "(?w, l) \<in> {(0x5C, 0x5C), (7, 0x61), (8, 0x62), (0xA, 0x6E), (0xD, 0x72), (9, 0x74), (0xC, 0x66), (0x22, 0x22), (27, 0x65)}"
      by (auto simp: escape_letter_def split: if_splits)
    then have "(ucast ?w :: u64, ucast (ucast l :: u8)) \<in> {(0x5C, 0x5C), (7, 0x61), (8, 0x62), (0xA, 0x6E), (0xD, 0x72), (9, 0x74), (0xC, 0x66), (0x22, 0x22), (27, 0x65)}"
      by (elim insertE emptyE) (simp_all add: prod_eq_iff)
    moreover have "escape_points c = [0x5C, ucast (ucast l :: u8)]" using Some by (simp add: escape_points_def escape_bytes_def)
    ultimately show thesis using letter unfolding cw by blast
  next
    case None
    let ?ds = "uint_digits 16 (unat ?w)"
    have len: "length ?ds \<le> 8" by (rule length_uint_digits_power) (use unsigned_less [of ?w] in simp_all)
    consider (vis) "0x20 \<le> ?w" "?w < 0x7F" | (hex) "\<not> (0x20 \<le> ?w \<and> ?w < 0x7F)" by blast
    then show thesis
    proof cases
      case vis
      then have "escape_letter ?w = None" using None by simp
      then have "?w \<noteq> 0x5C" by (auto simp: escape_letter_def)
      then have "c \<noteq> 0x5C" by auto
      moreover have "(ucast (ucast ?w :: u8) :: u64) = c"
      proof -
        have "unat c < 2 ^ 8" using vis(2) w by (simp add: word_less_nat_alt)
        moreover have "unat (ucast ?w :: u8) = take_bit 8 (unat c)" by (simp only: unat_ucast8 w)
        ultimately have "unat (ucast ?w :: u8) = unat c" by (simp only: take_bit_nat_eq_self)
        then show ?thesis by (rule ucast_narrow)
      qed
      ultimately show thesis using plain vis None by (simp add: escape_points_def escape_bytes_def)
    next
      case hex
      then have e: "escape_points c = map ucast (hex_escape ?w)" using None by (auto simp: escape_points_def escape_bytes_def)
      show thesis
      proof (cases "?w < 0x100 \<or> ?w \<ge> 0x10000")
        case True
        have "strtol (map ucast ?ds) 16 = c" using strtol_uint_digits [of 0 "unat ?w"] w by simp
        then show thesis using brace [of "map ucast ?ds"] True e hex_points_uint_digits [of 0 "unat ?w"] len uint_digits_nonempty [of 16]
          by (simp add: hex_escape_def Let_def)
      next
        case False
        have "length ?ds \<le> 4" by (rule length_uint_digits_power) (use False in \<open>simp_all add: word_less_nat_alt word_le_nat_alt\<close>)
        moreover have "strtol (map ucast (replicate (4 - length ?ds) 0x30 @ ?ds)) 16 = c" using strtol_uint_digits w by simp
        moreover note hex_points_uint_digits [of "4 - length ?ds" "unat ?w"]
        ultimately show thesis using four [of "map ucast (replicate (4 - length ?ds) 0x30 @ ?ds)"] False e
          by (simp add: hex_escape_def Let_def)
      qed
    qed
  qed
qed

text \<open>Unescaping reads the sequence of a code point, and nothing is pending then.\<close>

lemma unescape_char_reads:
  assumes s: "chars s S" and c: "c < 0x100000000" and d: "drop k S = escape_points c @ rest"
  shows "\<exists>c'. k < length S \<and> unescape_char s (bufused s) (S ! k) (str_iter s S (Suc k))
    = Done (Some c, False, c', str_iter s S (k + length (escape_points c)))"
  using c
proof (cases rule: escape_points_cases)
  case (letter l)
  have "drop k S = 0x5C # l # rest" using d letter(1) by simp
  note k = drop_Cons2_nth [OF this]
  have "\<not> bufused s \<le> bytepos (str_iter s S (Suc k))" using source_at_end [OF s, of "Suc k"] k(3) by simp
  note facts = this next_source_at [OF s k(3)] k letter(1)
  show ?thesis using letter(2) facts by (elim insertE emptyE) (simp_all add: unescape_char_def Let_def)
next
  case plain
  have "drop k S = c # rest" using d plain(1) by simp
  from drop_Cons_nth [OF this] show ?thesis using plain by (simp add: unescape_char_def)
next
  case (brace ds)
  have "drop k S = 0x5C # 0x78 # 0x7B # ds @ 0x7D # rest" using d brace(1) by simp
  note k = drop_Cons2_nth [OF this]
  note k = k(1-4) drop_Cons_nth [OF k(5), THEN conjunct1] drop_Cons_nth [OF k(5), THEN conjunct2, THEN conjunct1]
    drop_Cons_nth [OF k(5), THEN conjunct2, THEN conjunct2]
  note brace_digits_reads [OF s k(7) brace(2,3), where c = "0x7B" and buf = "[]"]
  then show ?thesis using source_at_end [OF s, of "Suc k"] source_at_end [OF s, of "Suc (Suc k)"]
      next_source_at [OF s k(3)] next_source_at [OF s k(5)] k brace
    by (simp add: unescape_char_def Let_def)
next
  case (four ds)
  have "drop k S = 0x5C # 0x75 # ds @ rest" using d four(1) by simp
  note k = drop_Cons2_nth [OF this]
  have k6: "Suc (Suc k) + 4 = k + 6" by simp
  obtain c' where c': "fixed_digits s (bufused s) (length ds) 0x75 (str_iter s S (Suc (Suc k))) [] = Done (c', str_iter s S (Suc (Suc k) + length ds), [] @ ds)"
    using fixed_digits_reads [OF s k(5) four(2), where c = "0x75" and buf = "[]"] by blast
  note c' [unfolded four(3) k6 append_Nil]
  then show ?thesis using source_at_end [OF s, of "Suc k"] next_source_at [OF s k(3)] k four
    by (simp add: unescape_char_def Let_def)
qed

section \<open>The round trip\<close>

text \<open>\<open>r\<close> holds the code points \<open>ds\<close> and has room for \<open>n\<close> more.\<close>

definition unescaped :: "parrot_string \<Rightarrow> encoding_ptr \<Rightarrow> u64 list \<Rightarrow> nat \<Rightarrow> bool" where
  "unescaped r e ds n \<longleftrightarrow> encoding r = e \<and> bufused r = length (strstart r) \<and> (\<forall>d \<in> set ds. valid_in e d)
     \<and> (\<exists>rest. strstart r = bytes_of e ds @ rest \<and> max_bytes_per_codepoint (vtable_of e) * n \<le> length rest)"

abbreviation end_iter :: "encoding_ptr \<Rightarrow> u64 list \<Rightarrow> string_iter" where
  "end_iter e ds \<equiv> \<lparr>bytepos = length (bytes_of e ds), charpos = length ds\<rparr>"

lemma unescaped_mono: "unescaped r e ds n \<Longrightarrow> k \<le> n \<Longrightarrow> unescaped r e ds k"
  unfolding unescaped_def by (meson le_trans mult_le_mono2)

lemma unescaped_set:
  assumes r: "unescaped r e ds (Suc n)" and v: "valid_in e c"
  shows "\<exists>r'. STRING_iter_set_and_advance r (end_iter e ds) c = Done (r', end_iter e (ds @ [c])) \<and> unescaped r' e (ds @ [c]) n"
proof -
  let ?w = "max_bytes_per_codepoint (vtable_of e)" and ?L = "length (chunk_of e c)"
  obtain rest where rest: "strstart r = bytes_of e ds @ rest" "?w * Suc n \<le> length rest" "encoding r = e"
    "bufused r = length (strstart r)" "\<forall>d \<in> set ds. valid_in e d" using r by (auto simp: unescaped_def)
  have L: "?L \<le> ?w" by (rule vt.chunk_length(2))
  then have Lr: "?L \<le> length rest" using rest(2) by simp
  let ?r = "r\<lparr>strstart := bytes_of e ds @ chunk_of e c @ drop ?L rest\<rparr>"
  have "STRING_iter_set_and_advance r (end_iter e ds) c
      = Done (?r, \<lparr>bytepos = length (bytes_of e ds) + ?L, charpos = Suc (length ds)\<rparr>)"
    unfolding STRING_iter_set_and_advance_def rest(3)
    by (rule vt.set_and_advance [where old = "take ?L rest"]) (use rest v Lr in simp_all)
  moreover have "unescaped ?r e (ds @ [c]) n"
    using rest v Lr L unfolding unescaped_def by (auto intro!: exI [of _ "drop ?L rest"])
  ultimately show ?thesis by simp
qed

lemma escape_points_nonempty: "escape_points c \<noteq> []"
proof -
  have "hex_escape w \<noteq> []" for w by (simp add: hex_escape_def Let_def)
  then show ?thesis by (auto simp: escape_points_def escape_bytes_def split: option.splits)
qed

lemma unescape_from_reads:
  assumes s: "chars s S" and "drop k S = concat (map escape_points cs)" "k \<le> length S"
    and "unescaped r e ds (length S - k)" "length S - k \<le> fuel"
    and "\<forall>c \<in> set cs. valid_in e c \<and> c < 0x100000000"
  shows "\<exists>r' n. unescape_from fuel s (bufused s) None (str_iter s S k) r (end_iter e ds) = Done (r', end_iter e (ds @ cs))
    \<and> unescaped r' e (ds @ cs) n"
  using assms(2-6)
proof (induction cs arbitrary: k r ds fuel)
  case Nil
  then have "k = length S" by simp
  then show ?case using source_at_end [OF s, of k] Nil.prems(3) by (subst unescape_from.simps) auto
next
  case (Cons c cs)
  let ?p = "escape_points c"
  have d: "drop k S = ?p @ concat (map escape_points cs)" using Cons.prems(1) by simp
  have c: "c < 0x100000000" "valid_in e c" using Cons.prems(5) by simp_all
  obtain c' where u: "k < length S" "unescape_char s (bufused s) (S ! k) (str_iter s S (Suc k))
      = Done (Some c, False, c', str_iter s S (k + length ?p))" using unescape_char_reads [OF s c(1) d] by blast
  have len: "length S - k = length ?p + length (concat (map escape_points cs))" using arg_cong [OF d, of length] by simp
  have p: "0 < length ?p" using escape_points_nonempty [of c] by simp
  obtain m where m: "length S - k = Suc m" using u(1) by (cases "length S - k") auto
  obtain f where f: "fuel = Suc f" using Cons.prems(4) m by (cases fuel) auto
  obtain r1 where r1: "STRING_iter_set_and_advance r (end_iter e ds) c = Done (r1, end_iter e (ds @ [c]))" "unescaped r1 e (ds @ [c]) m"
    using unescaped_set [of r e ds m c] Cons.prems(3) c(2) m by auto
  have fewer: "length S - (k + length ?p) \<le> m" using m p by arith
  have "unescaped r1 e (ds @ [c]) (length S - (k + length ?p))"
    using r1(2) fewer by (rule unescaped_mono)
  moreover have "drop (k + length ?p) S = concat (map escape_points cs)" using arg_cong [OF d, of "drop (length ?p)"] by (simp add: add.commute)
  moreover have "k + length ?p \<le> length S" using len u(1) by simp
  moreover have "length S - (k + length ?p) \<le> f" using fewer m f Cons.prems(4) by simp
  ultimately obtain r' n where r': "unescape_from f s (bufused s) None (str_iter s S (k + length ?p)) r1 (end_iter e (ds @ [c]))
      = Done (r', end_iter e ((ds @ [c]) @ cs))" "unescaped r' e ((ds @ [c]) @ cs) n"
    using Cons.IH [of "k + length ?p" r1 "ds @ [c]" f] Cons.prems(5) by auto
  show ?case using source_at_end [OF s Cons.prems(2)] u next_source_at [OF s u(1)] r1(1) r' f
    by (subst unescape_from.simps) auto
qed

lemma valid_in_small: "valid_in e c \<Longrightarrow> c < 0x100000000"
  by (cases e) (auto simp: UNICODE_IS_INVALID_def ucs2_valid_def fixed8_limit_def word_less_nat_alt word_le_nat_alt split: if_splits)

lemma length_bytes_of: "length cs \<le> length (bytes_of e cs)"
proof (induction cs)
  case (Cons c cs)
  moreover have "length (bytes_of e (c # cs)) = length (chunk_of e c) + length (bytes_of e cs)" by simp
  ultimately show ?case using vt.chunk_length(1) [of e c] by (simp only: list.size)
qed simp

lemma Parrot_str_unescape_escaped:
  assumes s: "chars s (concat (map escape_points cs))" and v: "\<forall>c \<in> set cs. valid_in e c"
  shows "\<exists>r. Parrot_str_unescape_string junk s e = Done r \<and> encoding r = e \<and> chars r cs"
proof -
  let ?S = "concat (map escape_points cs)" and ?w = "max_bytes_per_codepoint (vtable_of e)"
  define result where "result = \<lparr>strstart = alloc_bytes junk (?w * bufused s), bufused = ?w * bufused s, strlen = 0, hashval = 0, encoding = e\<rparr>"
  have len: "length ?S \<le> bufused s" using s length_bytes_of [of ?S "encoding s"] by (simp add: chars_iff)
  have "unescaped result e [] (length ?S - 0)"
    using mult_le_mono2 [OF len, of ?w] by (auto simp: unescaped_def result_def alloc_bytes_def)
  moreover have "\<forall>c \<in> set cs. valid_in e c \<and> c < 0x100000000" using v valid_in_small by blast
  moreover have "length ?S - 0 \<le> bufused s" "drop 0 ?S = ?S" "0 \<le> length ?S" using len by simp_all
  note unescape_from_reads [OF s this(2,3) _ this(1)]
  ultimately obtain r n where r: "unescape_from (bufused s) s (bufused s) None STRING_ITER_INIT result STRING_ITER_INIT = Done (r, end_iter e cs)"
    "unescaped r e cs n" by (fastforce simp: iter_at_0 STRING_ITER_INIT_def)
  have "Parrot_str_unescape_string junk s e = Done (r\<lparr>bufused := length (bytes_of e cs), strlen := length cs\<rparr>)"
    using r(1) by (simp add: Parrot_str_unescape_string_def Let_def Parrot_str_byte_length_def string_max_bytes_def
        STRING_max_bytes_per_codepoint_def result_def)
  moreover have "chars (r\<lparr>bufused := length (bytes_of e cs), strlen := length cs\<rparr>) cs" "encoding r = e"
    using r(2) by (auto simp: unescaped_def chars_iff)
  ultimately show ?thesis by auto
qed

lemma Parrot_str_escape_chars:
  assumes "chars s cs"
  shows "\<exists>t. Parrot_str_escape junk (Some s) = Done (Some t) \<and> encoding t = Parrot_ascii_encoding_ptr
    \<and> chars t (concat (map escape_points cs))"
proof -
  have "\<not> (NOT 0 :: u64) < x" for x by (simp add: not_less)
  then show ?thesis using Parrot_str_escape_truncate_chars [OF assms, of junk "NOT 0"] by (simp add: Parrot_str_escape_def)
qed

text \<open>
  Two sequences that are not read as documented: a character that ends an octal sequence is
  dropped when it is the last of the string, and a character above 255 where a hexadecimal
  digit is expected leaves the table of \<open>isxdigit\<close>.
\<close>

lemma unescape_octal_drops:
  "Parrot_str_unescape_string (\<lambda>_. 0)
     \<lparr>strstart = [0x5C, 0x31, 0x61], bufused = 3, strlen = 3, hashval = 0, encoding = Parrot_ascii_encoding_ptr\<rparr> Parrot_ascii_encoding_ptr
   = Done \<lparr>strstart = [1, 0, 0], bufused = 1, strlen = 1, hashval = 0, encoding = Parrot_ascii_encoding_ptr\<rparr>"
  by code_simp

lemma unescape_hex_undefined:
  "Parrot_str_unescape_string (\<lambda>_. 0)
     \<lparr>strstart = [0x5C, 0x78, 0xC4, 0x80], bufused = 4, strlen = 3, hashval = 0, encoding = Parrot_utf8_encoding_ptr\<rparr> Parrot_utf8_encoding_ptr
   = Undefined"
  by code_simp

end
