(* ===== verification/Str_Api_Claims.thy ===== *)
theory Str_Api_Claims
  imports Str_Claims Str_Escape_Rep
begin

text \<open>
  What the functions of \<open>src/string/api.c\<close> that make strings promise, in terms of code
  points: concatenation, replacement, integers.
\<close>

section \<open>Concatenation and replacement\<close>

text \<open>
  C33. Concatenation puts the code points of two strings one after the other, whatever
  encodings they have, whether there is room behind the first or not; it neither throws nor
  leaves the storage.
\<close>

theorem Parrot_str_concat_correct:
  assumes "chars a cs" "chars b ds"
  shows "\<exists>r. Parrot_str_concat avg junk growable (Some a) (Some b) = Done (Some r) \<and> chars r (cs @ ds)"
  using assms by (rule Parrot_str_concat_chars)

lemma Parrot_str_concat_correct_witness:
  "\<exists>r. Parrot_str_concat (\<lambda>n. n) (\<lambda>_. 0) (\<lambda>_. True) (Some cafe_latin1) (Some clef_utf16) = Done (Some r)
    \<and> chars r ([0x63, 0x61, 0x66, 0xE9] @ [0x1D11E, 0x61])"
  by (rule Parrot_str_concat_correct) (rule samples)+

text \<open>
  The new string is the result, not the part that was replaced, and a negative length takes
  everything from the offset on: the last character of the string below is not kept, which
  a length of -1 would do in Perl.
\<close>

lemma replace_negative_length:
  "\<exists>t. Parrot_str_replace (\<lambda>n. n) (\<lambda>_. 0) (Some cafe_utf8) 1 (- 1) (Some clef_utf16) = Done t
    \<and> chars t [0x63, 0x1D11E, 0x61]"
  using Parrot_str_replace_chars [OF samples(1) samples(3), of 1 1 3 "- 1"] by simp

text \<open>
  C34. \<open>Parrot_str_replace\<close> returns a new string: the code points of the other string in place
  of those that offset and length select, an offset below zero being counted from the end
  and a length that is negative or too large reaching to the end.  This is what the code
  does; the documentation above it promises the replaced part as the result and Perl's
  meaning of negative lengths (\<open>replace_negative_length\<close>).
\<close>

theorem Parrot_str_replace_correct:
  assumes "chars s cs" "chars rep ds"
    and "k \<le> length cs" "int k = (if offset < 0 then int (length cs) + offset else offset)"
    and "n = (if len < 0 \<or> int (length cs - k) < len then length cs - k else nat len)"
  shows "\<exists>t. Parrot_str_replace avg junk (Some s) offset len (Some rep) = Done t \<and> chars t (take k cs @ ds @ drop (k + n) cs)"
  using assms by (rule Parrot_str_replace_chars)

lemma Parrot_str_replace_correct_witness:
  "\<exists>t. Parrot_str_replace (\<lambda>n. n) (\<lambda>_. 0) (Some cafe_utf8) (- 2) 1 (Some clef_utf16) = Done t
    \<and> chars t (take 2 [0x63, 0x61, 0x66, 0xE9] @ [0x1D11E, 0x61] @ drop (2 + 1) [0x63, 0x61, 0x66, 0xE9])"
  by (rule Parrot_str_replace_correct [OF samples(1) samples(3)]) simp_all

section \<open>Integers\<close>

definition number_utf16 :: parrot_string where
  "number_utf16 = \<lparr>strstart = [0x20, 0, 0x2D, 0, 0x34, 0, 0x32, 0, 0x78, 0], bufused = 10, strlen = 5, hashval = 0,
     encoding = Parrot_utf16_encoding_ptr\<rparr>"

lemma number_utf16: "chars number_utf16 [0x20, 0x2D, 0x34, 0x32, 0x78]"
  unfolding chars_code by code_simp

text \<open>
  Neither decimal part nor exponent is read: \<open>1e3\<close> is 1 and \<open>.5e1\<close> is 0.
\<close>

definition ascii_string :: "u8 list \<Rightarrow> parrot_string" where
  "ascii_string bs = \<lparr>strstart = bs, bufused = length bs, strlen = length bs, hashval = 0,
     encoding = Parrot_ascii_encoding_ptr\<rparr>"

lemma to_int_no_exponent:
  "Parrot_str_to_int (Some (ascii_string [0x31, 0x65, 0x33])) = Done 1"
  "Parrot_str_to_int (Some (ascii_string [0x2E, 0x35, 0x65, 0x31])) = Done 0"
  by code_simp+

text \<open>
  C35. Reading an integer skips spaces, takes a sign and the digits up to the first other
  character, and returns their value when it fits an \<open>INTVAL\<close>, from \<open>- 2 ^ 63\<close> to
  \<open>2 ^ 63 - 1\<close>; otherwise it throws. No intermediate value overflows.  What follows the
  first character that is no digit is ignored, against the documentation above the code,
  which gives decimal parts and exponents a meaning (\<open>to_int_no_exponent\<close>).
\<close>

theorem Parrot_str_to_int_correct:
  assumes "chars s cs"
  shows "Parrot_str_to_int (Some s) =
    (let (negative, v) = signed_digits cs
     in if v < 2 ^ 63 \<or> (negative \<and> v = 2 ^ 63) then Done (if negative then - int v else int v)
        else Thrown ''Integer value of String too big'')"
  using Parrot_str_to_int_points [OF assms] by (simp add: int_of_points_def)

lemma Parrot_str_to_int_correct_witness: "Parrot_str_to_int (Some number_utf16) = Done (- 42)"
proof -
  have "signed_digits [0x20, 0x2D, 0x34, 0x32, 0x78] = (True, 42)"
    by (simp add: signed_digits_def digits_value_def add_digit_def is_digit_def)
  then show ?thesis using Parrot_str_to_int_correct [OF number_utf16] by simp
qed

text \<open>
  C36. An integer that is written in base 10 and read again is the same, for every \<open>INTVAL\<close>
  but the least one, whose negation overflows before it is written.
\<close>

theorem Parrot_str_int_roundtrip:
  assumes "- (2 ^ 63) < n" "n < 2 ^ 63" "65 \<le> length tc"
  shows "\<exists>s. Parrot_str_from_int_base junk tc n 10 = Done s \<and> Parrot_str_to_int (Some s) = Done n"
  using assms by (rule int_base_to_int)

lemma Parrot_str_int_roundtrip_witness:
  "\<exists>s. Parrot_str_from_int_base (\<lambda>_. 0) (replicate 65 0) (- 9223372036854775807) 10 = Done s
    \<and> Parrot_str_to_int (Some s) = Done (- 9223372036854775807)"
  by (rule Parrot_str_int_roundtrip) simp_all

lemma Parrot_str_from_int_base_least: "Parrot_str_from_int_base junk tc (- (2 ^ 63)) base = Undefined"
  by (simp add: Parrot_str_from_int_base_def c_assert_def)

section \<open>Escape sequences\<close>

text \<open>
  C37. A string that is escaped, which gives ASCII, and unescaped again in an encoding that can
  hold its code points has the same code points: both directions succeed, the output buffers
  are never overrun, and the rounds of the loop are enough.
\<close>

theorem Parrot_str_escape_roundtrip:
  assumes "chars s cs" "\<forall>c \<in> set cs. valid_in e c"
  shows "\<exists>t r. Parrot_str_escape junk (Some s) = Done (Some t) \<and> encoding t = Parrot_ascii_encoding_ptr
    \<and> Parrot_str_unescape_string junk t e = Done r \<and> encoding r = e \<and> chars r cs"
proof -
  obtain t where "Parrot_str_escape junk (Some s) = Done (Some t)" "encoding t = Parrot_ascii_encoding_ptr"
    "chars t (concat (map escape_points cs))" using Parrot_str_escape_chars [OF assms(1)] by blast
  then show ?thesis using Parrot_str_unescape_escaped [OF _ assms(2)] by blast
qed

lemma Parrot_str_escape_roundtrip_witness:
  "\<exists>t r. Parrot_str_escape (\<lambda>_. 0) (Some clef_utf16) = Done (Some t) \<and> encoding t = Parrot_ascii_encoding_ptr
    \<and> Parrot_str_unescape_string (\<lambda>_. 0) t Parrot_utf8_encoding_ptr = Done r \<and> encoding r = Parrot_utf8_encoding_ptr
    \<and> chars r [0x1D11E, 0x61]"
  by (rule Parrot_str_escape_roundtrip [OF samples(3)]) (simp add: UNICODE_IS_INVALID_def)

end
