(* ===== verification/Pack_Items.thy ===== *)
theory Pack_Items
  imports Str_Api_Rep Str_Scan_Rep
begin

text \<open>
  The items of packfiles, \<open>src/packfile/pf_items.c\<close>: bytecode is written in the byte order of
  the machine that compiled it, and read on any other.  \<open>be\<close> stands for \<open>PARROT_BIGENDIAN\<close> of
  the machine that runs the code, whose opcodes, integers and floats have 8 bytes.  A
  stream is the bytes of the file and a position in them.
\<close>

section \<open>Words in memory\<close>

fun of_bytes_le :: "u8 list \<Rightarrow> u64" where
  "of_bytes_le [] = 0"
| "of_bytes_le (b # bs) = ucast b OR push_bit 8 (of_bytes_le bs)"

definition load_word :: "bool \<Rightarrow> u8 list \<Rightarrow> u64" where
  "load_word be bs = of_bytes_le (if be then rev bs else bs)"

definition store_word :: "bool \<Rightarrow> nat \<Rightarrow> 'a::len word \<Rightarrow> u8 list" where
  "store_word be n w =
     (let bs = map (\<lambda>i. ucast (drop_bit (8 * i) w)) [0..<n] in if be then rev bs else bs)"

section \<open>Swapping buffers\<close>

definition copy_buf :: "nat \<Rightarrow> u8 list \<Rightarrow> u8 list option" where
  "copy_buf n b = those (map (rd b) [0..<n])"

definition swap_buf :: "nat \<Rightarrow> u8 list \<Rightarrow> u8 list option" where
  "swap_buf n b = those (map (\<lambda>i. rd b (n - 1 - i)) [0..<n])"

definition fetch_buf_be_4 :: "bool \<Rightarrow> u8 list \<Rightarrow> u8 list option" where
  "fetch_buf_be_4 be b = (if be then copy_buf 4 b else swap_buf 4 b)"

definition fetch_buf_le_4 :: "bool \<Rightarrow> u8 list \<Rightarrow> u8 list option" where
  "fetch_buf_le_4 be b = (if \<not> be then copy_buf 4 b else swap_buf 4 b)"

definition fetch_buf_be_8 :: "bool \<Rightarrow> u8 list \<Rightarrow> u8 list option" where
  "fetch_buf_be_8 be b = (if be then copy_buf 8 b else swap_buf 8 b)"

definition fetch_buf_le_8 :: "bool \<Rightarrow> u8 list \<Rightarrow> u8 list option" where
  "fetch_buf_le_8 be b = (if \<not> be then copy_buf 8 b else swap_buf 8 b)"

definition fetch_buf_le_12 :: "bool \<Rightarrow> u8 list \<Rightarrow> u8 list option" where
  "fetch_buf_le_12 be b = (if \<not> be then copy_buf 12 b else swap_buf 12 b)"

definition fetch_buf_be_12 :: "bool \<Rightarrow> u8 list \<Rightarrow> u8 list option" where
  "fetch_buf_be_12 be b = (if be then copy_buf 12 b else swap_buf 12 b)"

definition fetch_buf_le_16 :: "bool \<Rightarrow> u8 list \<Rightarrow> u8 list option" where
  "fetch_buf_le_16 be b = (if \<not> be then copy_buf 16 b else swap_buf 16 b)"

definition fetch_buf_be_16 :: "bool \<Rightarrow> u8 list \<Rightarrow> u8 list option" where
  "fetch_buf_be_16 be b = (if be then copy_buf 16 b else swap_buf 16 b)"

definition fetch_buf_le_32 :: "bool \<Rightarrow> u8 list \<Rightarrow> u8 list option" where
  "fetch_buf_le_32 be b = (if \<not> be then copy_buf 32 b else swap_buf 32 b)"

definition fetch_buf_be_32 :: "bool \<Rightarrow> u8 list \<Rightarrow> u8 list option" where
  "fetch_buf_be_32 be b = (if be then copy_buf 32 b else swap_buf 32 b)"

section \<open>Swapping words\<close>

text \<open>The shifts to the right work on unsigned values, as their masks are unsigned.\<close>

definition swap_iv :: "u64 \<Rightarrow> u64" where
  "swap_iv w = push_bit 56 w
     OR push_bit 40 (w AND 0xff00)
     OR push_bit 24 (w AND 0xff0000)
     OR push_bit 8 (w AND 0xff000000)
     OR drop_bit 8 (w AND 0xff00000000)
     OR drop_bit 24 (w AND 0xff0000000000)
     OR drop_bit 40 (w AND 0xff000000000000)
     OR drop_bit 56 (w AND 0xff00000000000000)"

definition fetch_iv_le :: "bool \<Rightarrow> u64 \<Rightarrow> u64" where
  "fetch_iv_le be w = (if \<not> be then w else swap_iv w)"

definition fetch_iv_be :: "bool \<Rightarrow> u64 \<Rightarrow> u64" where
  "fetch_iv_be be w = (if be then w else swap_iv w)"

definition fetch_op_be :: "bool \<Rightarrow> u64 \<Rightarrow> u64" where
  "fetch_op_be be w = (if be then w else swap_iv w)"

definition fetch_op_le :: "bool \<Rightarrow> u64 \<Rightarrow> u64" where
  "fetch_op_le be w = (if \<not> be then w else swap_iv w)"

section \<open>Opcodes of either size\<close>

text \<open>
  The union of a buffer of 4 bytes and an opcode: the other bytes of the opcode hold
  whatever was there, \<open>junk\<close>.  The cast to \<open>Parrot_Int4\<close> keeps the low half with its sign.
\<close>

definition int4 :: "u64 \<Rightarrow> u64" where
  "int4 w = scast (ucast w :: u32)"

definition fetch_op_be_4 :: "bool \<Rightarrow> u8 list \<Rightarrow> u8 list \<Rightarrow> u64 option" where
  "fetch_op_be_4 be junk b =
     do {
       buf \<leftarrow> fetch_buf_be_4 be b;
       (let u = load_word be (buf @ junk)
        in if be then Some (int4 (signed_drop_bit 32 u))
           else Some (int4 (fetch_iv_le be u AND 0xffffffff)))
     }"

definition fetch_op_be_8 :: "bool \<Rightarrow> u8 list \<Rightarrow> u64 option" where
  "fetch_op_be_8 be b =
     do {
       buf \<leftarrow> fetch_buf_be_8 be b;
       (let u = load_word be buf in if be then Some u else Some (fetch_iv_le be u))
     }"

definition fetch_op_le_4 :: "bool \<Rightarrow> u8 list \<Rightarrow> u8 list \<Rightarrow> u64 option" where
  "fetch_op_le_4 be junk b =
     do {
       buf \<leftarrow> fetch_buf_le_4 be b;
       (let u = load_word be (buf @ junk)
        in if be then Some (int4 (signed_drop_bit 32 u))
           else Some (int4 (u AND 0xffffffff)))
     }"

definition fetch_op_le_8 :: "bool \<Rightarrow> u8 list \<Rightarrow> u64 option" where
  "fetch_op_le_8 be b = do { buf \<leftarrow> fetch_buf_le_8 be b; Some (load_word be buf) }"

section \<open>The transforms of a packfile\<close>

datatype fetch_op_t = Fetch_op_be_4 | Fetch_op_be_8 | Fetch_op_le_4 | Fetch_op_le_8

fun apply_fetch_op :: "fetch_op_t \<Rightarrow> bool \<Rightarrow> u8 list \<Rightarrow> u8 list \<Rightarrow> u64 option" where
  "apply_fetch_op Fetch_op_be_4 be junk b = fetch_op_be_4 be junk b"
| "apply_fetch_op Fetch_op_be_8 be junk b = fetch_op_be_8 be b"
| "apply_fetch_op Fetch_op_le_4 be junk b = fetch_op_le_4 be junk b"
| "apply_fetch_op Fetch_op_le_8 be junk b = fetch_op_le_8 be b"

datatype fetch_nv_t = Fetch_buf_le_8 | Fetch_buf_be_8 | Cvt_num12_num8 | Cvt_num12_num8_le
  | Cvt_num16_num8 | Cvt_num16_num8_le | Cvt_num16_num8_be

record pf_header =
  h_magic :: "u8 list"
  h_wordsize :: u8
  h_byteorder :: u8
  h_floattype :: u8
  h_major :: u8
  h_minor :: u8
  h_patch :: u8
  h_bc_major :: u8
  h_bc_minor :: u8
  h_uuid_type :: u8
  h_uuid_size :: u8
  h_uuid_data :: "u8 list option"
  h_dir_format :: u64

record packfile =
  pf_header :: pf_header
  need_wordsize :: bool
  need_endianize :: bool
  fetch_op :: "fetch_op_t option"
  fetch_iv :: "fetch_op_t option"
  fetch_nv :: "fetch_nv_t option"

text \<open>The branch of \<open>PackFile_assign_transforms\<close> for machines whose floats have 8 bytes.\<close>

definition PackFile_assign_transforms :: "bool \<Rightarrow> packfile \<Rightarrow> packfile outcome" where
  "PackFile_assign_transforms be pf =
     (let h = pf_header pf;
          endianize = (h_byteorder h \<noteq> (if be then 1 else 0));
          pf = pf\<lparr>need_endianize := endianize, need_wordsize := (h_wordsize h \<noteq> 8)\<rparr>;
          four = (h_wordsize h = 4);
          op = (if be = endianize then (if four then Fetch_op_le_4 else Fetch_op_le_8)
                else (if four then Fetch_op_be_4 else Fetch_op_be_8));
          pf = pf\<lparr>fetch_op := Some op, fetch_iv := Some op\<rparr>;
          unsupported = Thrown ''PackFile_unpack: unsupported float conversion''
      in if be \<and> endianize then
           (if h_floattype h = 0 then Done (pf\<lparr>fetch_nv := Some Fetch_buf_le_8\<rparr>)
            else if h_floattype h = 1 then Done (pf\<lparr>fetch_nv := Some Cvt_num12_num8_le\<rparr>)
            else if h_floattype h = 2 then Done (pf\<lparr>fetch_nv := Some Cvt_num16_num8_le\<rparr>)
            else unsupported)
         else if \<not> be \<and> endianize then
           (if h_floattype h = 0 then Done (pf\<lparr>fetch_nv := Some Fetch_buf_be_8\<rparr>)
            else if h_floattype h = 1 then Thrown ''PackFile_unpack: invalid floattype 1 big-endian''
            else if h_floattype h = 2 then Done (pf\<lparr>fetch_nv := Some Cvt_num16_num8_be\<rparr>)
            else unsupported)
         else
           (if h_floattype h = 0 then Done pf
            else if h_floattype h = 1 then Done (pf\<lparr>fetch_nv := Some Cvt_num12_num8\<rparr>)
            else if h_floattype h = 2 then Done (pf\<lparr>fetch_nv := Some Cvt_num16_num8\<rparr>)
            else unsupported))"

section \<open>Opcodes and integers in the stream\<close>

text \<open>Reading without a packfile, or with one that has no transform, is reading memory.\<close>

definition fetch_with :: "bool \<Rightarrow> u8 list \<Rightarrow> fetch_op_t option \<Rightarrow> nat \<Rightarrow> u8 list \<Rightarrow> nat \<Rightarrow> (u64 \<times> nat) option" where
  "fetch_with be junk f wordsize mem cur =
     (case f of
        None \<Rightarrow> do { w \<leftarrow> copy_buf 8 (drop cur mem); Some (load_word be w, cur + 8) }
      | Some f \<Rightarrow> do { w \<leftarrow> apply_fetch_op f be junk (drop cur mem); Some (w, cur + wordsize) })"

definition pf_wordsize :: "packfile option \<Rightarrow> nat" where
  "pf_wordsize pf = (case pf of Some pf \<Rightarrow> unat (h_wordsize (pf_header pf)) | None \<Rightarrow> 8)"

definition PF_fetch_opcode :: "bool \<Rightarrow> u8 list \<Rightarrow> packfile option \<Rightarrow> u8 list \<Rightarrow> nat \<Rightarrow> (u64 \<times> nat) option" where
  "PF_fetch_opcode be junk pf mem cur =
     fetch_with be junk (case pf of Some pf \<Rightarrow> fetch_op pf | None \<Rightarrow> None) (pf_wordsize pf) mem cur"

definition PF_fetch_integer :: "bool \<Rightarrow> u8 list \<Rightarrow> packfile \<Rightarrow> u8 list \<Rightarrow> nat \<Rightarrow> (u64 \<times> nat) option" where
  "PF_fetch_integer be junk pf mem cur =
     fetch_with be junk (fetch_iv pf) (pf_wordsize (Some pf)) mem cur"

definition PF_store_opcode :: "bool \<Rightarrow> u8 list \<Rightarrow> nat \<Rightarrow> u64 \<Rightarrow> (u8 list \<times> nat) option" where
  "PF_store_opcode be mem cur val = do { m \<leftarrow> memcpy mem cur (store_word be 8 val) 8; Some (m, cur + 8) }"

definition PF_store_integer :: "bool \<Rightarrow> u8 list \<Rightarrow> nat \<Rightarrow> u64 \<Rightarrow> (u8 list \<times> nat) option" where
  "PF_store_integer be mem cur val = PF_store_opcode be mem cur val"

definition PF_size_opcode :: nat where "PF_size_opcode = 1"

definition PF_size_integer :: nat where "PF_size_integer = 8 div 8"

section \<open>Strings in the stream\<close>

definition ROUND_UP_B :: "nat \<Rightarrow> nat \<Rightarrow> nat" where
  "ROUND_UP_B val s = (val + (s - 1)) div s * s"

definition ROUND_UP :: "nat \<Rightarrow> nat \<Rightarrow> nat" where
  "ROUND_UP val s = (val + (s - 1)) div s"

text \<open>The encodings in the order in which they are registered, \<open>src/string/encoding.c\<close>.\<close>

fun Parrot_encoding_number_of_str :: "encoding_ptr \<Rightarrow> nat" where
  "Parrot_encoding_number_of_str Parrot_ascii_encoding_ptr = 0"
| "Parrot_encoding_number_of_str Parrot_latin1_encoding_ptr = 1"
| "Parrot_encoding_number_of_str Parrot_binary_encoding_ptr = 2"
| "Parrot_encoding_number_of_str Parrot_utf8_encoding_ptr = 3"
| "Parrot_encoding_number_of_str Parrot_utf16_encoding_ptr = 4"
| "Parrot_encoding_number_of_str Parrot_ucs2_encoding_ptr = 5"
| "Parrot_encoding_number_of_str Parrot_ucs4_encoding_ptr = 6"

definition Parrot_get_encoding :: "nat \<Rightarrow> encoding_ptr option" where
  "Parrot_get_encoding n =
     (if n \<ge> 7 then None
      else Some ([Parrot_ascii_encoding_ptr, Parrot_latin1_encoding_ptr, Parrot_binary_encoding_ptr,
                  Parrot_utf8_encoding_ptr, Parrot_utf16_encoding_ptr, Parrot_ucs2_encoding_ptr,
                  Parrot_ucs4_encoding_ptr] ! n))"

lemma pad_decreases:
  assumes "n mod 8 \<noteq> 0"
  shows "(8 - Suc n mod 8) mod 8 < (8 - n mod 8) mod (8 :: nat)"
proof -
  have "n mod 8 < 8" by simp
  with assms have "n mod 8 \<in> {1, 2, 3, 4, 5, 6, 7}" by auto
  then show ?thesis by (auto simp: mod_Suc)
qed

text \<open>Zeros up to a whole opcode behind \<open>base\<close>.\<close>

function pad_zeros :: "u8 list \<Rightarrow> nat \<Rightarrow> nat \<Rightarrow> (u8 list \<times> nat) option" where
  "pad_zeros mem base c =
     (if (c - base) mod 8 \<noteq> 0 then do { m \<leftarrow> wr mem c 0; pad_zeros m base (c + 1) } else Some (mem, c))"
  by auto
termination
proof (relation "measure (\<lambda>(mem, base, c). (8 - (c - base) mod 8) mod 8)")
  fix mem m :: "u8 list" and base c :: nat
  assume ne: "(c - base) mod 8 \<noteq> 0"
  then have "base \<le> c" by (cases "base \<le> c") simp_all
  then have "Suc c - base = Suc (c - base)" by (rule Suc_diff_le)
  moreover have "(8 - Suc (c - base) mod 8) mod 8 < (8 - (c - base) mod 8) mod 8"
    using ne by (rule pad_decreases)
  ultimately show "((m, base, c + 1), mem, base, c) \<in> measure (\<lambda>(mem, base, c). (8 - (c - base) mod 8) mod 8)"
    by simp
qed simp

declare pad_zeros.simps [simp del]

text \<open>The two flags of the header that are kept: constant, and private flag 7.\<close>

type_synonym str_flags = "bool \<times> bool"

definition PF_store_string :: "bool \<Rightarrow> u8 list \<Rightarrow> nat \<Rightarrow> nstring \<Rightarrow> str_flags \<Rightarrow> (u8 list \<times> nat) option" where
  "PF_store_string be mem cur s flags =
     (case s of
        None \<Rightarrow> PF_store_opcode be mem cur (- 1)
      | Some s \<Rightarrow> do {
          (mem, cur) \<leftarrow> PF_store_opcode be mem cur
              (push_bit 8 (of_nat (Parrot_encoding_number_of_str (encoding s)))
               OR (if fst flags then 1 else 0) OR (if snd flags then 2 else 0));
          (mem, cur) \<leftarrow> PF_store_opcode be mem cur (of_nat (bufused s));
          mem \<leftarrow> memcpy mem cur (strstart s) (bufused s);
          (mem, c) \<leftarrow> pad_zeros mem cur (cur + bufused s);
          _ \<leftarrow> c_assert ((c - cur) mod 8 = 0);
          Some (mem, cur + (c - cur) div 8 * 8)
        })"

definition PF_size_strlen :: "nat \<Rightarrow> nat" where
  "PF_size_strlen len =
     (let padded_size = (if len mod 8 \<noteq> 0 then len + (8 - len mod 8) else len)
      in 2 + padded_size div 8)"

definition PF_size_string :: "nstring \<Rightarrow> nat" where
  "PF_size_string s = (case s of None \<Rightarrow> 1 | Some s \<Rightarrow> PF_size_strlen (bufused s))"

definition empty_string :: parrot_string where
  "empty_string = \<lparr>strstart = [], bufused = 0, strlen = 0, hashval = 0, encoding = Parrot_ascii_encoding_ptr\<rparr>"

definition PF_fetch_string :: "bool \<Rightarrow> u8 list \<Rightarrow> (nat \<Rightarrow> u8) \<Rightarrow> packfile option \<Rightarrow> u8 list \<Rightarrow> nat
    \<Rightarrow> (nstring \<times> str_flags \<times> nat) outcome" where
  "PF_fetch_string be junk fresh pf mem cur =
     obind (defined (PF_fetch_opcode be junk pf mem cur)) (\<lambda>(flag_charset_word, cur).
     if flag_charset_word = - 1 then Done (None, (False, False), cur)
     else
       (let flags = (flag_charset_word AND 1 \<noteq> 0, flag_charset_word AND 2 \<noteq> 0);
            encoding_nr = unat (signed_drop_bit 8 flag_charset_word AND 0xFF)
        in obind (defined (PF_fetch_opcode be junk pf mem cur)) (\<lambda>(sz, cur).
           case Parrot_get_encoding encoding_nr of
             None \<Rightarrow> Thrown ''Invalid encoding number''
           | Some enc \<Rightarrow>
               obind (if sz \<noteq> 0 \<or> enc \<noteq> encoding empty_string
                      then Parrot_str_new_init fresh (Some (drop cur mem)) (unat sz) enc
                      else Done empty_string) (\<lambda>s.
               Done (Some s, flags, cur + ROUND_UP_B (unat sz) (pf_wordsize pf))))))"

definition PF_size_buf :: "nstring \<Rightarrow> nat" where
  "PF_size_buf s = (case s of None \<Rightarrow> 1 | Some s \<Rightarrow> PF_size_strlen (bufused s) - 1)"

definition PF_store_buf :: "bool \<Rightarrow> u8 list \<Rightarrow> nat \<Rightarrow> parrot_string \<Rightarrow> (u8 list \<times> nat) option" where
  "PF_store_buf be mem cur s =
     do {
       _ \<leftarrow> c_assert (encoding s = Parrot_binary_encoding_ptr);
       (mem, cur) \<leftarrow> PF_store_opcode be mem cur (of_nat (bufused s));
       mem \<leftarrow> memcpy mem cur (strstart s) (bufused s);
       (mem, c) \<leftarrow> pad_zeros mem cur (cur + bufused s);
       Some (mem, cur + (c - cur) div 8 * 8)
     }"

text \<open>The string of an external buffer is the bytes from the cursor on.\<close>

definition PF_fetch_buf :: "bool \<Rightarrow> u8 list \<Rightarrow> packfile option \<Rightarrow> u8 list \<Rightarrow> nat
    \<Rightarrow> (parrot_string \<times> nat) outcome" where
  "PF_fetch_buf be junk pf mem cur =
     obind (defined (PF_fetch_opcode be junk pf mem cur)) (\<lambda>(sz, cur).
     obind (STRING_scan \<lparr>strstart = drop cur mem, bufused = unat sz, strlen = 0, hashval = 0,
                         encoding = Parrot_binary_encoding_ptr\<rparr>) (\<lambda>s.
     Done (s, cur + ROUND_UP_B (unat sz) (pf_wordsize pf))))"

section \<open>C strings in the stream\<close>

text \<open>A C string is given by its bytes before the terminating zero.\<close>

definition PF_size_cstring :: "u8 list \<Rightarrow> nat" where
  "PF_size_cstring s = ROUND_UP (length s + 1) 8"

definition PF_store_cstring :: "u8 list \<Rightarrow> nat \<Rightarrow> u8 list \<Rightarrow> (u8 list \<times> nat) option" where
  "PF_store_cstring mem cur s =
     (let store_size = PF_size_cstring s
      in do {
        mem \<leftarrow> memcpy mem cur (replicate (store_size * 8) 0) (store_size * 8);
        mem \<leftarrow> memcpy mem cur (s @ [0]) (length s + 1);
        Some (mem, cur + store_size * 8)
      })"

fun c_strlen :: "u8 list \<Rightarrow> nat option" where
  "c_strlen [] = None"
| "c_strlen (c # cs) = (if c = 0 then Some 0 else map_option Suc (c_strlen cs))"

definition PF_fetch_cstring :: "packfile \<Rightarrow> u8 list \<Rightarrow> nat \<Rightarrow> (u8 list \<times> nat) option" where
  "PF_fetch_cstring pf mem cur =
     do {
       n \<leftarrow> c_strlen (drop cur mem);
       Some (take n (drop cur mem), cur + ROUND_UP_B (n + 1) (pf_wordsize (Some pf)))
     }"

end
