(* ===== verification/Pack_Items_Rep.thy ===== *)
theory Pack_Items_Rep
  imports Pack_Items
begin

text \<open>
  Words of any machine read on any other, and the bytes that storing an item puts into the
  stream.
\<close>

section \<open>Bytes and words\<close>

lemma bit_of_bytes_le:
  "length bs \<le> 8 \<Longrightarrow> bit (of_bytes_le bs) i \<longleftrightarrow> i < 8 * length bs \<and> bit (bs ! (i div 8)) (i mod 8)"
proof (induction bs arbitrary: i)
  case Nil
  then show ?case by simp
next
  case (Cons b bs)
  have b: "bit (ucast b :: u64) j \<longleftrightarrow> j < 8 \<and> bit b j" for j
    by (auto simp: bit_ucast_iff dest: bit_imp_le_length)
  show ?case
  proof (cases "i < 8")
    case True
    then show ?thesis using Cons.prems by (simp add: bit_or_iff bit_push_bit_iff b)
  next
    case False
    then obtain k where k: "i = k + 8" by (metis add.commute le_Suc_ex not_less)
    have "bit (of_bytes_le (b # bs)) i \<longleftrightarrow> i < 64 \<and> bit (of_bytes_le bs) k"
      using False by (auto simp: bit_or_iff bit_push_bit_iff b k)
    moreover have "i div 8 = Suc (k div 8)" "i mod 8 = k mod 8" using k by simp_all
    moreover have "bit (of_bytes_le bs) k \<longleftrightarrow> k < 8 * length bs \<and> bit (bs ! (k div 8)) (k mod 8)"
      using Cons.prems by (intro Cons.IH) simp
    ultimately show ?thesis using Cons.prems k by (simp add: conj_commute) linarith
  qed
qed

lemma bit_word_byte: "k < 8 \<Longrightarrow> bit (ucast (drop_bit (8 * j) (w :: 'a::len word)) :: u8) k \<longleftrightarrow> bit w (8 * j + k)"
  by (simp add: bit_ucast_iff bit_drop_bit_eq)

abbreviation le_bytes :: "nat \<Rightarrow> 'a::len word \<Rightarrow> u8 list" where
  "le_bytes n w \<equiv> map (\<lambda>i. ucast (drop_bit (8 * i) w)) [0..<n]"

lemma of_bytes_le_bytes: "of_bytes_le (le_bytes 8 w) = (w :: u64)"
proof (rule bit_word_eqI)
  fix i assume i: "i < LENGTH(64)"
  then have "i div 8 < 8" by simp
  with i have "bit (of_bytes_le (le_bytes 8 w)) i \<longleftrightarrow> bit w (8 * (i div 8) + i mod 8)"
    by (subst bit_of_bytes_le) (simp_all add: bit_word_byte)
  then show "bit (of_bytes_le (le_bytes 8 w)) i \<longleftrightarrow> bit w i" by simp
qed

lemma store_word_le: "store_word be n w = (if be then rev (le_bytes n w) else le_bytes n w)"
  by (simp add: store_word_def Let_def)

lemma length_store_word [simp]: "length (store_word be n w) = n"
  by (simp add: store_word_le)

lemma load_store_word [simp]: "load_word be (store_word be 8 w) = w"
  by (simp add: load_word_def store_word_le of_bytes_le_bytes)

lemma rev_store_word: "rev (store_word be n w) = store_word (\<not> be) n w"
  by (simp add: store_word_le)

text \<open>The low and the high half of a union of four bytes and an opcode.\<close>

lemma int4_eqI: "(\<And>i. i < 32 \<Longrightarrow> bit w i \<longleftrightarrow> bit v i) \<Longrightarrow> int4 w = scast (v :: u32)"
proof -
  assume "\<And>i. i < 32 \<Longrightarrow> bit w i \<longleftrightarrow> bit v i"
  then have "ucast w = v" by (intro bit_word_eqI) (simp add: bit_ucast_iff)
  then show ?thesis by (simp add: int4_def)
qed

lemma int4_low:
  assumes "length junk = 4"
  shows "int4 (load_word False (store_word False 4 (v :: u32) @ junk) AND 0xffffffff) = scast v"
proof (rule int4_eqI)
  fix i :: nat assume i: "i < 32"
  have m: "(0xffffffff :: u64) = mask 32" by (simp add: mask_eq_exp_minus_1)
  have "i div 8 < 4" using i by simp
  then have "bit (of_bytes_le (le_bytes 4 v @ junk)) i \<longleftrightarrow> bit v (8 * (i div 8) + i mod 8)"
    using i assms by (subst bit_of_bytes_le) (simp_all add: nth_append bit_word_byte)
  with i show "bit (load_word False (store_word False 4 v @ junk) AND 0xffffffff) i \<longleftrightarrow> bit v i"
    by (simp add: load_word_def store_word_le bit_and_iff m bit_mask_iff)
qed

lemma int4_high:
  assumes "length junk = 4"
  shows "int4 (signed_drop_bit 32 (load_word True (store_word True 4 (v :: u32) @ junk))) = scast v"
proof (rule int4_eqI)
  fix i :: nat assume i: "i < 32"
  have "i div 8 < 4" "(32 + i) div 8 = 4 + i div 8" "(32 + i) mod 8 = i mod 8"
    using i div_mult_self3 [of 8 4 i] mod_mult_self3 [of 4 8 i] by simp_all
  then have "bit (of_bytes_le (rev junk @ le_bytes 4 v)) (32 + i) \<longleftrightarrow> bit v (8 * (i div 8) + i mod 8)"
    using i assms by (subst bit_of_bytes_le) (simp_all add: nth_append bit_word_byte)
  with i show "bit (signed_drop_bit 32 (load_word True (store_word True 4 v @ junk))) i \<longleftrightarrow> bit v i"
    by (simp add: load_word_def store_word_le bit_signed_drop_bit_iff)
qed

section \<open>Buffers\<close>

lemma copy_buf_eq: "n \<le> length b \<Longrightarrow> copy_buf n b = Some (take n b)"
proof -
  assume "n \<le> length b"
  then have "those (map (rd b) [0..<n]) = Some (map ((!) b) [0..<n])" by (intro those_map_Some) simp
  moreover have "map ((!) b) [0..<n] = take n b"
    using \<open>n \<le> length b\<close> by (intro nth_equalityI) simp_all
  ultimately show ?thesis by (simp add: copy_buf_def)
qed

lemma swap_buf_eq: "n \<le> length b \<Longrightarrow> swap_buf n b = Some (rev (take n b))"
proof -
  assume n: "n \<le> length b"
  have "those (map (\<lambda>i. rd b (n - 1 - i)) [0..<n]) = Some (map (\<lambda>i. b ! (n - 1 - i)) [0..<n])"
    using n by (intro those_map_Some) simp
  moreover have "map (\<lambda>i. b ! (n - 1 - i)) [0..<n] = rev (take n b)"
    using n by (intro nth_equalityI) (simp_all add: rev_nth)
  ultimately show ?thesis by (simp add: swap_buf_def)
qed

text \<open>Swapping a word is reading it in the other byte order.\<close>

lemma bit_byte_up:
  assumes "(v :: u64) = push_bit n (mask 8)" "n + k + 8 \<le> 64"
  shows "bit (push_bit k (w AND v)) i \<longleftrightarrow> n + k \<le> i \<and> i < n + k + 8 \<and> bit w (i - k)"
  using assms by (auto simp: assms(1) bit_push_bit_iff bit_and_iff bit_mask_iff)

lemma bit_byte_down:
  assumes "(v :: u64) = push_bit n (mask 8)" "k \<le> n" "n + 8 \<le> 64"
  shows "bit (drop_bit k (w AND v)) i \<longleftrightarrow> n - k \<le> i \<and> i < n - k + 8 \<and> bit w (i + k)"
  using assms by (auto simp: assms(1) bit_drop_bit_eq bit_push_bit_iff bit_and_iff bit_mask_iff add.commute)

lemma bit_swap_iv:
  assumes "i < 64"
  shows "bit (swap_iv w) i \<longleftrightarrow> bit w (8 * (7 - i div 8) + i mod 8)"
proof -
  have m: "(0xff00 :: u64) = push_bit 8 (mask 8)" "(0xff0000 :: u64) = push_bit 16 (mask 8)"
    "(0xff000000 :: u64) = push_bit 24 (mask 8)" "(0xff00000000 :: u64) = push_bit 32 (mask 8)"
    "(0xff0000000000 :: u64) = push_bit 40 (mask 8)" "(0xff000000000000 :: u64) = push_bit 48 (mask 8)"
    "(0xff00000000000000 :: u64) = push_bit 56 (mask 8)"
    by (simp_all add: mask_eq_exp_minus_1)
  have up: "bit (push_bit 40 (w AND 0xff00)) i \<longleftrightarrow> 48 \<le> i \<and> i < 56 \<and> bit w (i - 40)"
    "bit (push_bit 24 (w AND 0xff0000)) i \<longleftrightarrow> 40 \<le> i \<and> i < 48 \<and> bit w (i - 24)"
    "bit (push_bit 8 (w AND 0xff000000)) i \<longleftrightarrow> 32 \<le> i \<and> i < 40 \<and> bit w (i - 8)"
    by (subst bit_byte_up [OF m(1)] bit_byte_up [OF m(2)] bit_byte_up [OF m(3)]; simp)+
  have down: "bit (drop_bit 8 (w AND 0xff00000000)) i \<longleftrightarrow> 24 \<le> i \<and> i < 32 \<and> bit w (i + 8)"
    "bit (drop_bit 24 (w AND 0xff0000000000)) i \<longleftrightarrow> 16 \<le> i \<and> i < 24 \<and> bit w (i + 24)"
    "bit (drop_bit 40 (w AND 0xff000000000000)) i \<longleftrightarrow> 8 \<le> i \<and> i < 16 \<and> bit w (i + 40)"
    "bit (drop_bit 56 (w AND 0xff00000000000000)) i \<longleftrightarrow> i < 8 \<and> bit w (i + 56)"
    by (subst bit_byte_down [OF m(4)] bit_byte_down [OF m(5)] bit_byte_down [OF m(6)] bit_byte_down [OF m(7)]; simp)+
  have top: "bit (push_bit 56 w) i \<longleftrightarrow> 56 \<le> i \<and> bit w (i - 56)"
    using assms by (auto simp: bit_push_bit_iff)
  define c r where "c = i div 8" and "r = i mod 8"
  have i: "i = 8 * c + r" "r < 8" "c < 8" using assms by (simp_all add: c_def r_def)
  have "c = 0 \<or> c = 1 \<or> c = 2 \<or> c = 3 \<or> c = 4 \<or> c = 5 \<or> c = 6 \<or> c = 7" using i(3) by linarith
  then have "bit (swap_iv w) i \<longleftrightarrow> bit w (8 * (7 - c) + r)"
    unfolding swap_iv_def bit_or_iff top up down
    unfolding i(1) using i(2) by (elim disjE; simp add: add.commute)
  then show ?thesis by (simp add: c_def r_def)
qed

lemma fetch_iv_le_reads: "length b = 8 \<Longrightarrow> fetch_iv_le True (load_word True b) = load_word False b"
  "length b = 8 \<Longrightarrow> fetch_iv_be False (load_word False b) = load_word True b"
proof -
  have bits: "swap_iv (of_bytes_le b) = of_bytes_le (rev b)" if "length b = 8" for b
  proof (rule bit_word_eqI)
    fix i assume i: "i < LENGTH(64)"
    then have "i div 8 < 8" by simp
    moreover have "8 * (7 - i div 8) + i mod 8 < 64"
    proof -
      have "8 * (7 - i div 8) \<le> 56" "i mod 8 < 8" by simp_all
      then show ?thesis by linarith
    qed
    ultimately show "bit (swap_iv (of_bytes_le b)) i \<longleftrightarrow> bit (of_bytes_le (rev b)) i"
      using i that by (simp add: bit_swap_iv bit_of_bytes_le rev_nth)
  qed
  show "fetch_iv_le True (load_word True b) = load_word False b" if "length b = 8"
    using bits [of "rev b"] that by (simp add: fetch_iv_le_def load_word_def)
  show "fetch_iv_be False (load_word False b) = load_word True b" if "length b = 8"
    using bits [of b] that by (simp add: fetch_iv_be_def load_word_def)
qed

section \<open>Opcodes of any machine\<close>

lemma fetch_op_8: "apply_fetch_op (if bw then Fetch_op_be_8 else Fetch_op_le_8) br junk (store_word bw 8 w @ ys) = Some w"
  by (cases bw; cases br)
     (simp_all add: fetch_op_be_8_def fetch_op_le_8_def fetch_buf_be_8_def fetch_buf_le_8_def
        copy_buf_eq swap_buf_eq rev_store_word fetch_iv_le_def)

lemma fetch_op_4:
  assumes "length junk = 4"
  shows "apply_fetch_op (if bw then Fetch_op_be_4 else Fetch_op_le_4) br junk (store_word bw 4 (v :: u32) @ ys)
    = Some (scast v)"
  using int4_low [OF assms, of v] int4_high [OF assms, of v]
  by (cases bw; cases br)
     (simp_all add: fetch_op_be_4_def fetch_op_le_4_def fetch_buf_be_4_def fetch_buf_le_4_def
        copy_buf_eq swap_buf_eq rev_store_word fetch_iv_le_def Let_def)

text \<open>A file that a machine of byte order \<open>bw\<close> with opcodes of \<open>n\<close> bytes wrote.\<close>

definition written_by :: "bool \<Rightarrow> nat \<Rightarrow> packfile \<Rightarrow> bool" where
  "written_by bw n pf \<longleftrightarrow> h_byteorder (pf_header pf) = (if bw then 1 else 0) \<and> h_wordsize (pf_header pf) = of_nat n"

lemma assign_transforms_op:
  assumes "PackFile_assign_transforms br pf = Done pf'" "written_by bw n pf" "n = 4 \<or> n = 8"
  shows "pf_header pf' = pf_header pf \<and> fetch_iv pf' = fetch_op pf' \<and> need_wordsize pf' = (n = 4)
    \<and> need_endianize pf' = (bw \<noteq> br)
    \<and> fetch_op pf' = Some (if n = 4 then if bw then Fetch_op_be_4 else Fetch_op_le_4
                           else if bw then Fetch_op_be_8 else Fetch_op_le_8)"
  using assms by (auto simp: PackFile_assign_transforms_def written_by_def Let_def split: if_splits)

text \<open>Either way to read: in memory, or from a file of any machine of 8 bytes.\<close>

definition reads_words :: "bool \<Rightarrow> bool \<Rightarrow> packfile option \<Rightarrow> bool" where
  "reads_words bw br pf \<longleftrightarrow> (case pf of
     None \<Rightarrow> bw = br
   | Some pf \<Rightarrow> \<exists>pf0. PackFile_assign_transforms br pf0 = Done pf \<and> written_by bw 8 pf0)"

lemma PF_fetch_opcode_word:
  assumes "reads_words bw br pf" "drop cur mem = store_word bw 8 w @ ys"
  shows "PF_fetch_opcode br junk pf mem cur = Some (w, cur + 8)" "pf_wordsize pf = 8"
proof -
  show "PF_fetch_opcode br junk pf mem cur = Some (w, cur + 8)"
  proof (cases pf)
    case None
    with assms show ?thesis
      by (simp add: PF_fetch_opcode_def fetch_with_def reads_words_def pf_wordsize_def copy_buf_eq)
  next
    case (Some pf1)
    with assms(1) obtain pf0 where pf0: "PackFile_assign_transforms br pf0 = Done pf1" "written_by bw 8 pf0"
      by (auto simp: reads_words_def)
    from assign_transforms_op [OF this] have "pf_header pf1 = pf_header pf0"
      "fetch_op pf1 = Some (if bw then Fetch_op_be_8 else Fetch_op_le_8)" by simp_all
    with Some pf0(2) fetch_op_8 [of bw br junk w ys] assms(2) show ?thesis
      by (simp add: PF_fetch_opcode_def fetch_with_def pf_wordsize_def written_by_def)
  qed
  show "pf_wordsize pf = 8"
  proof (cases pf)
    case (Some pf1)
    with assms(1) obtain pf0 where pf0: "PackFile_assign_transforms br pf0 = Done pf1" "written_by bw 8 pf0"
      by (auto simp: reads_words_def)
    from assign_transforms_op [OF this] pf0(2) Some show ?thesis by (simp add: pf_wordsize_def written_by_def)
  qed (simp add: pf_wordsize_def)
qed

section \<open>What storing writes\<close>

definition padding :: "nat \<Rightarrow> nat" where
  "padding n = (8 - n mod 8) mod 8"

lemma padding_mod: "(n + padding n) mod 8 = 0"
proof -
  have "n mod 8 < 8" by simp
  then have "n mod 8 \<in> {0, 1, 2, 3, 4, 5, 6, 7}" by auto
  then show ?thesis unfolding padding_def by (subst mod_add_left_eq [symmetric]) auto
qed

lemma padding_0: "padding n = 0 \<longleftrightarrow> n mod 8 = 0"
proof -
  have "n mod 8 < 8" by simp
  then have "n mod 8 \<in> {0, 1, 2, 3, 4, 5, 6, 7}" by auto
  then show ?thesis unfolding padding_def by auto
qed

lemma padding_Suc: "padding n \<noteq> 0 \<Longrightarrow> padding n = Suc (padding (Suc n))"
proof -
  assume "padding n \<noteq> 0"
  then have "n mod 8 \<noteq> 0" using padding_0 by simp
  moreover have "n mod 8 < 8" by simp
  ultimately have "n mod 8 \<in> {1, 2, 3, 4, 5, 6, 7}" by auto
  then show ?thesis unfolding padding_def by (auto simp: mod_Suc)
qed

lemma ROUND_UP_B_8: "ROUND_UP_B n 8 = n + padding n"
proof -
  have n: "n = n div 8 * 8 + n mod 8" "n mod 8 < 8" by simp_all
  then have m: "n mod 8 \<in> {0, 1, 2, 3, 4, 5, 6, 7}" by auto
  have "(n + 7) div 8 = n div 8 + (n mod 8 + 7) div 8" using n(1) div_mult_self3 [of 8 "n div 8" "n mod 8 + 7"] by linarith
  then show ?thesis unfolding ROUND_UP_B_def padding_def
    using m by auto (use div_mult_mod_eq [of n 8] in linarith)+
qed

lemma PF_size_strlen_eq: "8 * PF_size_strlen n = 16 + n + padding n"
proof -
  have n: "n = n div 8 * 8 + n mod 8" "n mod 8 < 8" by simp_all
  have "PF_size_strlen n = 2 + (n + padding n) div 8"
    using n(2) padding_0 [of n] by (auto simp: PF_size_strlen_def padding_def)
  then show ?thesis using padding_mod [of n] by auto
qed

lemma pad_zeros_eq:
  assumes "base \<le> length a" "length z = padding (length a - base)"
  shows "pad_zeros (a @ z @ ys) base (length a) = Some (a @ replicate (length z) 0 @ ys, length a + length z)"
  using assms
proof (induction z arbitrary: a)
  case Nil
  then show ?case using padding_0 by (simp add: pad_zeros.simps)
next
  case (Cons b z)
  have s: "Suc (length a) - base = Suc (length a - base)" using Cons.prems(1) by (rule Suc_diff_le)
  have ne: "padding (length a - base) \<noteq> 0" using Cons.prems(2) by simp
  from padding_Suc [OF this] s Cons.prems have "length z = padding (length (a @ [0]) - base)" by simp
  from Cons.IH [OF _ this] Cons.prems(1) have
    "pad_zeros ((a @ [0]) @ z @ ys) base (length a + 1) = Some (a @ 0 # replicate (length z) 0 @ ys, length a + Suc (length z))"
    by simp
  moreover have "(length a - base) mod 8 \<noteq> 0" using ne padding_0 by simp
  ultimately show ?case by (subst pad_zeros.simps) (simp add: wr_append)
qed

lemma PF_store_opcode_at:
  assumes "length z = 8"
  shows "PF_store_opcode be (xs @ z @ ys) (length xs) w = Some (xs @ store_word be 8 w @ ys, length xs + 8)"
  using assms memcpy_at [of "store_word be 8 w" "z @ ys" xs "[]"] by (simp add: PF_store_opcode_def)

end
