(* ===== verification/Pack_Claims.thy ===== *)
theory Pack_Claims
  imports Pack_Items_Rep
begin

text \<open>
  What the items of packfiles promise: words and strings written on one machine are read
  on any other.
\<close>

section \<open>Storing strings\<close>

lemma split_length: "length z = a + b \<Longrightarrow> \<exists>x y. z = x @ y \<and> length x = a \<and> length y = b"
  by (rule exI [of _ "take a z"], rule exI [of _ "drop a z"]) simp

definition flag_word :: "parrot_string \<Rightarrow> str_flags \<Rightarrow> u64" where
  "flag_word s flags = push_bit 8 (of_nat (Parrot_encoding_number_of_str (encoding s)))
     OR (if fst flags then 1 else 0) OR (if snd flags then 2 else 0)"

definition string_bytes :: "bool \<Rightarrow> nstring \<Rightarrow> str_flags \<Rightarrow> u8 list" where
  "string_bytes be s flags = (case s of
     None \<Rightarrow> store_word be 8 (- 1 :: u64)
   | Some s \<Rightarrow> store_word be 8 (flag_word s flags) @ store_word be 8 (of_nat (bufused s) :: u64)
               @ take (bufused s) (strstart s) @ replicate (padding (bufused s)) 0)"

lemma store_padded:
  assumes "n \<le> length b" "length z = n + padding n"
  shows "do { mem \<leftarrow> memcpy (xs @ z @ ys) (length xs) b n; pad_zeros mem (length xs) (length xs + n) }
    = Some (xs @ take n b @ replicate (padding n) 0 @ ys, length xs + n + padding n)"
proof -
  obtain z1 z2 where z: "z = z1 @ z2" "length z1 = n" "length z2 = padding n"
    using split_length [OF assms(2)] by blast
  have "memcpy (xs @ z @ ys) (length xs) b n = Some (xs @ take n b @ z2 @ ys)"
    using memcpy_at [of "take n b" "z @ ys" xs "drop n b"] assms(1) z by simp
  moreover have "pad_zeros ((xs @ take n b) @ z2 @ ys) (length xs) (length (xs @ take n b))
      = Some ((xs @ take n b) @ replicate (length z2) 0 @ ys, length (xs @ take n b) + length z2)"
    using assms(1) z(3) by (intro pad_zeros_eq) simp_all
  ultimately show ?thesis using assms(1) z(3) by simp
qed

lemma PF_store_string_bytes:
  assumes "\<And>t. s = Some t \<Longrightarrow> bufused t \<le> length (strstart t)" "length z = 8 * PF_size_string s"
  shows "PF_store_string be (xs @ z @ ys) (length xs) s flags
    = Some (xs @ string_bytes be s flags @ ys, length xs + 8 * PF_size_string s)"
proof (cases s)
  case None
  then show ?thesis
    using PF_store_opcode_at [of z be xs ys "- 1"] assms(2) by (simp add: PF_store_string_def string_bytes_def PF_size_string_def)
next
  case (Some t)
  let ?n = "bufused t"
  have n: "?n \<le> length (strstart t)" using assms(1) Some by simp
  have "length z = 8 + (8 + (?n + padding ?n))"
    using assms(2) Some PF_size_strlen_eq [of ?n] by (simp add: PF_size_string_def)
  then obtain z1 r where "z = z1 @ r" "length z1 = 8" "length r = 8 + (?n + padding ?n)"
    using split_length by blast
  moreover then obtain z2 z3 where "r = z2 @ z3" "length z2 = 8" "length z3 = ?n + padding ?n"
    using split_length by blast
  ultimately have z: "z = z1 @ z2 @ z3" "length z1 = 8" "length z2 = 8" "length z3 = ?n + padding ?n" by simp_all
  let ?w1 = "store_word be 8 (flag_word t flags)" and ?w2 = "store_word be 8 (of_nat ?n :: u64)"
  have 1: "PF_store_opcode be (xs @ z @ ys) (length xs) (flag_word t flags) = Some (xs @ ?w1 @ z2 @ z3 @ ys, length xs + 8)"
    using PF_store_opcode_at [OF z(2), of be xs "z2 @ z3 @ ys"] z(1) by simp
  have 2: "PF_store_opcode be (xs @ ?w1 @ z2 @ z3 @ ys) (length xs + 8) (of_nat ?n)
      = Some (xs @ ?w1 @ ?w2 @ z3 @ ys, length xs + 16)"
    using PF_store_opcode_at [OF z(3), of be "xs @ ?w1" "z3 @ ys"] by simp
  let ?m = "xs @ ?w1 @ ?w2 @ take ?n (strstart t) @ replicate (padding ?n) 0 @ ys"
  have 3: "do { mem \<leftarrow> memcpy (xs @ ?w1 @ ?w2 @ z3 @ ys) (length xs + 16) (strstart t) ?n;
        pad_zeros mem (length xs + 16) (length xs + 16 + ?n) } = Some (?m, length xs + 16 + ?n + padding ?n)"
    using store_padded [OF n z(4), of "xs @ ?w1 @ ?w2" ys] by simp
  have w: "length xs + (16 + (?n + padding ?n) div 8 * 8) = length xs + 8 * PF_size_strlen ?n"
    using PF_size_strlen_eq [of ?n] padding_mod [of ?n] by auto
  from 3 obtain m where "memcpy (xs @ ?w1 @ ?w2 @ z3 @ ys) (length xs + 16) (strstart t) ?n = Some m"
    "pad_zeros m (length xs + 16) (length xs + 16 + ?n) = Some (?m, length xs + 16 + ?n + padding ?n)"
    by (auto simp: Option.bind_eq_Some_conv)
  then show ?thesis
    using 1 2 w padding_mod [of ?n]
    by (simp add: Some PF_store_string_def string_bytes_def PF_size_string_def flag_word_def [symmetric])
qed

section \<open>Reading strings\<close>

lemma flag_word_decode:
  "flag_word s flags \<noteq> - 1"
  "(flag_word s flags AND 1 \<noteq> 0, flag_word s flags AND 2 \<noteq> 0) = flags"
  "Parrot_get_encoding (unat (signed_drop_bit 8 (flag_word s flags) AND 0xFF)) = Some (encoding s)"
  by (cases flags; cases "encoding s"; simp add: flag_word_def Parrot_get_encoding_def)+

text \<open>The string that is read: the same bytes, with nothing behind them.\<close>

definition restored :: "parrot_string \<Rightarrow> parrot_string" where
  "restored s = s\<lparr>strstart := take (bufused s) (strstart s), hashval := 0\<rparr>"

lemma restored_chars: "chars s cs \<Longrightarrow> chars (restored s) cs"
  by (auto simp: chars_iff restored_def)

lemma chars_bufused_0: "chars s cs \<Longrightarrow> bufused s = 0 \<Longrightarrow> strlen s = 0"
  using vt.chunk_length(1) [of "encoding s"] by (cases cs) (auto simp: chars_iff)

lemma Parrot_str_new_init_restored:
  assumes "chars s cs" "bufused s \<noteq> 0 \<or> encoding s \<noteq> encoding empty_string"
  shows "Parrot_str_new_init fresh (Some (take (bufused s) (strstart s) @ q)) (bufused s) (encoding s) = Done (restored s)"
proof (cases "bufused s = 0")
  case True
  with assms(1) have "strlen s = 0" by (rule chars_bufused_0)
  then show ?thesis using True
    by (simp add: Parrot_str_new_init_def Let_def restored_def alloc_bytes_def)
next
  case False
  let ?b = "take (bufused s) (strstart s)"
  let ?s = "\<lparr>strstart = ?b, bufused = bufused s, strlen = 0, hashval = 0, encoding = encoding s\<rparr>"
  have l: "length ?b = bufused s" using assms(1) by (auto simp: chars_iff)
  then have "memcpy (alloc_bytes fresh (bufused s)) 0 (?b @ q) (bufused s) = Some ?b"
    using memcpy_at [of ?b "alloc_bytes fresh (bufused s)" "[]" q] by (simp add: alloc_bytes_def)
  then have "Parrot_str_new_init fresh (Some (?b @ q)) (bufused s) (encoding s) = STRING_scan ?s"
    using False by (simp add: Parrot_str_new_init_def Let_def)
  moreover have "STRING_scan ?s = Done (restored s)"
  proof -
    have "restored s = ?s\<lparr>strlen := length cs\<rparr>" using assms(1) by (simp add: restored_def chars_iff)
    then show ?thesis using STRING_scan_chars(1) [of ?s "restored s"] l restored_chars [OF assms(1)] by auto
  qed
  ultimately show ?thesis by simp
qed

lemma PF_fetch_string_bytes:
  assumes r: "reads_words bw br pf" and mem: "drop cur mem = string_bytes bw (Some s) flags @ ys"
    and s: "chars s cs" "bufused s < 2 ^ 64"
  shows "PF_fetch_string br junk fresh pf mem cur
    = Done (Some (restored s), flags, cur + 8 * PF_size_string (Some s))"
proof -
  let ?n = "bufused s"
  let ?data = "take ?n (strstart s) @ replicate (padding ?n) 0 @ ys"
  have d0: "drop cur mem = store_word bw 8 (flag_word s flags) @ store_word bw 8 (of_nat ?n :: u64) @ ?data"
    using mem by (simp add: string_bytes_def)
  have d1: "drop (cur + 8) mem = store_word bw 8 (of_nat ?n :: u64) @ ?data"
    using arg_cong [OF d0, of "drop 8"] by (simp add: add.commute)
  have d2: "drop (cur + 16) mem = ?data"
    using arg_cong [OF d1, of "drop 8"] by (simp add: add.commute)
  have f1: "PF_fetch_opcode br junk pf mem cur = Some (flag_word s flags, cur + 8)"
    using PF_fetch_opcode_word(1) [OF r d0] .
  have f2: "PF_fetch_opcode br junk pf mem (cur + 8) = Some (of_nat ?n, cur + 16)"
    using PF_fetch_opcode_word(1) [OF r d1] by simp
  have ws: "pf_wordsize pf = 8" using PF_fetch_opcode_word(2) [OF r d0] .
  have n: "unat (of_nat ?n :: u64) = ?n" using s(2) by (intro unat_of_nat_small) simp
  have z: "(of_nat ?n :: u64) \<noteq> 0 \<longleftrightarrow> ?n \<noteq> 0" using n unat_eq_zero [of "of_nat ?n :: u64"] by simp
  have str: "(if ?n \<noteq> 0 \<or> encoding s \<noteq> encoding empty_string
      then Parrot_str_new_init fresh (Some ?data) ?n (encoding s) else Done empty_string) = Done (restored s)"
  proof (cases "?n \<noteq> 0 \<or> encoding s \<noteq> encoding empty_string")
    case True
    with Parrot_str_new_init_restored [OF s(1) True] show ?thesis by simp
  next
    case False
    with s(1) have "strlen s = 0" by (intro chars_bufused_0) simp_all
    with False show ?thesis by (simp add: restored_def empty_string_def)
  qed
  have fl: "(flag_word s flags AND 1 \<noteq> 0, flag_word s flags AND 2 \<noteq> 0) = flags" by (rule flag_word_decode(2))
  have cur: "cur + 16 + ROUND_UP_B ?n 8 = cur + 8 * PF_size_string (Some s)"
    by (simp add: PF_size_string_def PF_size_strlen_eq ROUND_UP_B_8)
  show ?thesis
    unfolding PF_fetch_string_def f1 defined.simps obind.simps prod.case Let_def f2 flag_word_decode(3)
      option.case ws n z d2 str fl cur
    using flag_word_decode(1) by simp
qed

end
