(* ===== verification/Parrot_Hash_Freeze.thy ===== *)
theory Parrot_Hash_Freeze
  imports Parrot_Hash_Bulk
begin

text \<open>
  Freezing a hash table into an image and thawing it again.  What the two need of the image
  is the locale \<open>frozen_image\<close>: items that are pushed are shifted again in the same order, integers
  as they are, strings and PMCs as new objects that correspond to the old ones.
\<close>

section \<open>The items of a table\<close>

datatype frozen = F_integer u64 | F_string u64 | F_pmc u64

definition push_item :: "'w image_push \<Rightarrow> 'w \<Rightarrow> frozen \<Rightarrow> 'w outcome" where
  "push_item V w x = (case x of F_integer i \<Rightarrow> push_integer V w i | F_string s \<Rightarrow> push_string V w s | F_pmc p \<Rightarrow> push_pmc V w p)"

definition shift_item :: "'r image_shift \<Rightarrow> 'r \<Rightarrow> frozen \<Rightarrow> (u64 \<times> 'r) outcome" where
  "shift_item V r x = (case x of F_integer i \<Rightarrow> shift_integer V r | F_string s \<Rightarrow> shift_string V r | F_pmc p \<Rightarrow> shift_pmc V r)"

definition frozen_key :: "hash_key_type \<Rightarrow> u64 \<Rightarrow> frozen" where
  "frozen_key kt k =
     (if kt = Hash_key_type_int then F_integer k
      else if kt = Hash_key_type_STRING \<or> kt = Hash_key_type_STRING_enc then F_string k else F_pmc k)"

definition frozen_value :: "parrot_data_type \<Rightarrow> u64 \<Rightarrow> frozen" where
  "frozen_value et v =
     (if et = enum_type_INTVAL then F_integer v else if et = enum_type_STRING then F_string v else F_pmc v)"

abbreviation freezable :: "hash_key_type \<Rightarrow> parrot_data_type \<Rightarrow> bool" where
  "freezable kt et \<equiv>
     kt \<in> {Hash_key_type_int, Hash_key_type_STRING, Hash_key_type_STRING_enc, Hash_key_type_PMC, Hash_key_type_PMC_ptr}
     \<and> et \<in> {enum_type_INTVAL, enum_type_STRING, enum_type_PMC}"

definition frozen_entries :: "hash_key_type \<Rightarrow> parrot_data_type \<Rightarrow> hash_bucket list \<Rightarrow> frozen list" where
  "frozen_entries kt et bs = concat (map (\<lambda>b. [frozen_key kt (b_key b), frozen_value et (b_value b)]) bs)"

lemma frozen_entries_simps [simp]:
  "frozen_entries kt et [] = []"
  "frozen_entries kt et (b # bs) = frozen_key kt (b_key b) # frozen_value et (b_value b) # frozen_entries kt et bs"
  by (simp_all add: frozen_entries_def)

definition frozen_hash :: "hash \<Rightarrow> hash_bucket list \<Rightarrow> frozen list" where
  "frozen_hash h bs = [F_integer (word_of_nat (entries h)), F_integer (key_type_code (key_type h)),
     F_integer (data_type_code (entry_type h))] @ frozen_entries (key_type h) (entry_type h) bs"

lemma freeze_types:
  "freezable kt et \<Longrightarrow> freeze_key V kt w k = push_item V w (frozen_key kt k)"
  "freezable kt et \<Longrightarrow> freeze_value V et w v = push_item V w (frozen_value et v)"
  "freezable kt et \<Longrightarrow> thaw_key U kt r = shift_item U r (frozen_key kt k)"
  "freezable kt et \<Longrightarrow> thaw_value U et r = shift_item U r (frozen_value et v)"
  by (auto simp: freeze_key_def freeze_value_def thaw_key_def thaw_value_def push_item_def shift_item_def
      frozen_key_def frozen_value_def)

lemma thaw_codes:
  "find_key_type (key_type_code kt) = Some kt"
  "freezable kt et \<Longrightarrow> find_data_type (data_type_code et) = Some et"
  by (cases kt; simp add: find_key_type_def) (auto simp: find_data_type_def)

text \<open>What is shifted for an item, and an entry for an entry.\<close>

definition thawed :: "(u64 \<Rightarrow> u64 \<Rightarrow> bool) \<Rightarrow> (u64 \<Rightarrow> u64 \<Rightarrow> bool) \<Rightarrow> frozen \<Rightarrow> u64 \<Rightarrow> bool" where
  "thawed same_string same_pmc x y =
     (case x of F_integer i \<Rightarrow> y = i | F_string s \<Rightarrow> same_string s y | F_pmc p \<Rightarrow> same_pmc p y)"

definition thawed_entry :: "(u64 \<Rightarrow> u64 \<Rightarrow> bool) \<Rightarrow> (u64 \<Rightarrow> u64 \<Rightarrow> bool) \<Rightarrow> hash_key_type \<Rightarrow> parrot_data_type
    \<Rightarrow> u64 \<times> u64 \<Rightarrow> u64 \<times> u64 \<Rightarrow> bool" where
  "thawed_entry same_string same_pmc kt et e e' \<longleftrightarrow>
     thawed same_string same_pmc (frozen_key kt (fst e)) (fst e')
     \<and> thawed same_string same_pmc (frozen_value et (snd e)) (snd e')"

section \<open>Entries in a row\<close>

text \<open>Taking \<open>n\<close> entries from a state one after the other.\<close>

fun shifts :: "('s \<Rightarrow> ('e \<times> 's) outcome) \<Rightarrow> nat \<Rightarrow> 's \<Rightarrow> ('e list \<times> 's) outcome" where
  "shifts f 0 s = Done ([], s)"
| "shifts f (Suc n) s = obind (f s) (\<lambda>(e, s). obind (shifts f n s) (\<lambda>(es, s). Done (e # es, s)))"

lemma obind_Done_iff: "obind m f = Done y \<longleftrightarrow> (\<exists>x. m = Done x \<and> f x = Done y)"
  by (cases m) simp_all

lemma shifts_Suc: "shifts f (Suc n) s = Done (es, s') \<longleftrightarrow>
    (\<exists>e s1 es1. f s = Done (e, s1) \<and> shifts f n s1 = Done (es1, s') \<and> es = e # es1)"
  by (auto simp: obind_Done_iff split: prod.splits)

definition thaw_pair :: "'r image_shift \<Rightarrow> hash_key_type \<Rightarrow> parrot_data_type \<Rightarrow> 'r \<Rightarrow> ((u64 \<times> u64) \<times> 'r) outcome" where
  "thaw_pair V kt et r =
     obind (thaw_key V kt r) (\<lambda>(k, r). obind (thaw_value V et r) (\<lambda>(v, r). Done ((k, v), r)))"

context fresh_store
begin

lemma ins_shifted:
  assumes "shifts f n s = Done (es, s')" "ok h" "size (dict h) + n \<le> bound" "apart eq es"
    and "\<forall>kv \<in># dict h. \<forall>e \<in> set es. \<not> eq (fst e) (fst kv)" "length js = n"
    and step: "\<And>h s e s1 j. ok h \<Longrightarrow> f s = Done (e, s1) \<Longrightarrow>
      step (h, s) j = obind (defined (ins h (fst e) (snd e))) (\<lambda>h. Done (h, s1))"
  shows "\<exists>h'. ofold step js (h, s) = Done (h', s') \<and> ok h' \<and> dict h' = dict h + mset es"
  using assms(1-6)
proof (induction n arbitrary: s es h js)
  case 0
  then show ?case by simp
next
  case (Suc n)
  from Suc.prems(1) have "\<exists>e s1 es1. f s = Done (e, s1) \<and> shifts f n s1 = Done (es1, s') \<and> es = e # es1"
    unfolding shifts_Suc .
  then obtain e s1 es1 where e: "f s = Done (e, s1)" "shifts f n s1 = Done (es1, s')" "es = e # es1" by blast
  obtain j js' where js: "js = j # js'" "length js' = n" using Suc.prems(6) by (cases js) auto
  have "size (dict h) < bound" "\<forall>kv \<in># dict h. \<not> eq (fst e) (fst kv)" using Suc.prems(3,5) e(3) by simp_all
  from ins [OF Suc.prems(2) this, of "snd e"] obtain h1 where h1:
    "ins h (fst e) (snd e) = Some h1" "ok h1" "dict h1 = add_mset e (dict h)" by auto
  have "size (dict h1) + n \<le> bound" "apart eq es1" "\<forall>kv \<in># dict h1. \<forall>e \<in> set es1. \<not> eq (fst e) (fst kv)"
    using Suc.prems(3-5) h1(3) e(3) by (auto simp: apart_def)
  from Suc.IH [OF e(2) h1(2) this js(2)] obtain h' where
    "ofold step js' (h1, s1) = Done (h', s')" "ok h'" "dict h' = dict h1 + mset es1" by blast
  moreover have "step (h, s) j = Done (h1, s1)" using step [OF Suc.prems(2) e(1), of j] h1(1) by simp
  ultimately show ?case unfolding js(1) e(3) using h1(3) by (intro exI [of _ h']) simp
qed

end

lemma apart_mono:
  assumes "list_all2 Q xs ys" "apart eq xs"
    and "\<And>a b a' b'. a \<in> set xs \<Longrightarrow> b \<in> set xs \<Longrightarrow> Q a a' \<Longrightarrow> Q b b' \<Longrightarrow> eq (fst a') (fst b') \<Longrightarrow> eq (fst a) (fst b)"
  shows "apart eq ys"
  unfolding apart_def sorted_wrt_iff_nth_less
proof (intro allI impI)
  fix i j assume ij: "i < j" "j < length ys"
  then have l: "i < length xs" "j < length xs" using list_all2_lengthD [OF assms(1)] by simp_all
  have "\<not> eq (fst (xs ! j)) (fst (xs ! i))"
    using assms(2) ij(1) l(2) by (simp add: apart_def sorted_wrt_iff_nth_less)
  moreover have "xs ! j \<in> set xs" "xs ! i \<in> set xs" "Q (xs ! j) (ys ! j)" "Q (xs ! i) (ys ! i)"
    using l list_all2_nthD [OF assms(1)] by simp_all
  ultimately show "\<not> eq (fst (ys ! j)) (fst (ys ! i))"
    using assms(3) by blast
qed

lemma thaw_loop:
  assumes es: "shifts (thaw_pair V kt et) n r = Done (es, r')"
    and d: "table_of E g d" "hash_dict d = {#}" "key_type g = kt" "entry_type g = et"
    and b: "apart (hash_compare E g) es" "n < 2 ^ 62" "length js = n"
  shows "\<exists>h'. (if kt = Hash_key_type_STRING \<and> et = enum_type_INTVAL
       then ofold (thaw_fast V E) js (d, r) else ofold (thaw_entry V E kt et) js (d, r)) = Done (h', r')
     \<and> hash_ok E h' \<and> same_kind g h' \<and> hash_dict h' = mset es"
proof -
  have len: "size (hash_dict d) + n \<le> 2 ^ 62" using b(2) d(2) by simp
  have none: "\<forall>kv \<in># hash_dict d. \<forall>e \<in> set es. \<not> hash_compare E g (fst e) (fst kv)" using d(2) by simp
  have pair: "\<exists>r1. thaw_key V kt s = Done (fst e, r1) \<and> thaw_value V et r1 = Done (snd e, s1)"
    if "thaw_pair V kt et s = Done (e, s1)" for s e s1
    using that by (auto simp: thaw_pair_def obind_Done_iff split: prod.splits)
  show ?thesis
  proof (cases "kt = Hash_key_type_STRING \<and> et = enum_type_INTVAL")
    case True
    then have kh: "key_hash E g k = str_hashval E k" for k using d(3) by (simp add: key_hash_def)
    have "\<exists>h'. ofold (thaw_fast V E) js (d, r) = Done (h', r') \<and> table_of E g h' \<and> hash_dict h' = hash_dict d + mset es"
    proof (rule raw.ins_shifted [OF es d(1) len b(1) none b(3)])
      show "thaw_fast V E (h, s) j = obind (defined (parrot_hash_store_value_in_bucket E h None (key_hash E g (fst e)) (fst e) (snd e)))
         (\<lambda>h. Done (h, s1))" if "thaw_pair V kt et s = Done (e, s1)" for h s e s1 j
        using pair [OF that] True by (auto simp: thaw_fast_def kh thaw_key_def thaw_value_def)
    qed
    then show ?thesis using True table_of_ok d(2) by fastforce
  next
    case False
    have "\<exists>h'. ofold (thaw_entry V E kt et) js (d, r) = Done (h', r') \<and> (hash_ok E h' \<and> same_kind g h')
      \<and> hash_dict h' = hash_dict d + mset es"
    proof (rule tab.ins_shifted [OF es table_of_ok [OF d(1)] len b(1) none b(3)])
      fix h s e s1 j assume "thaw_pair V kt et s = Done (e, s1)"
      then obtain r1 where "thaw_key V kt s = Done (fst e, r1)" "thaw_value V et r1 = Done (snd e, s1)" using pair by blast
      then show "thaw_entry V E kt et (h, s) j = obind (defined (hash_put E h (fst e) (snd e))) (\<lambda>h. Done (h, s1))"
        by (cases "Parrot_hash_put E h (fst e) (snd e)") (auto simp: thaw_entry_def)
    qed
    then show ?thesis using False d(2) by auto
  qed
qed

section \<open>Images\<close>

text \<open>
  \<open>wrote w xs ys\<close>: the items \<open>xs\<close> have been pushed and \<open>ys\<close> can be.  \<open>reads r xs\<close>: the items
  \<open>xs\<close> are next.
\<close>

locale frozen_image =
  fixes W :: "'w image_push"
    and R :: "'r image_shift"
    and wrote :: "'w \<Rightarrow> frozen list \<Rightarrow> frozen list \<Rightarrow> bool"
    and reads :: "'r \<Rightarrow> frozen list \<Rightarrow> bool"
    and same_string :: "u64 \<Rightarrow> u64 \<Rightarrow> bool"
    and same_pmc :: "u64 \<Rightarrow> u64 \<Rightarrow> bool"
  assumes push: "wrote w xs (x # ys) \<Longrightarrow> \<exists>w'. push_item W w x = Done w' \<and> wrote w' (xs @ [x]) ys"
    and shift: "reads r (x # xs) \<Longrightarrow>
      \<exists>y r'. shift_item R r x = Done (y, r') \<and> reads r' xs \<and> thawed same_string same_pmc x y"
begin

lemma freeze_buckets:
  assumes "freezable (key_type h) (entry_type h)"
    and "wrote w xs (frozen_entries (key_type h) (entry_type h) bs @ ys)"
  shows "\<exists>w'. ofold (freeze_bucket W h) bs w = Done w' \<and> wrote w' (xs @ frozen_entries (key_type h) (entry_type h) bs) ys"
  using assms(2)
proof (induction bs arbitrary: w xs)
  case Nil
  then show ?case by simp
next
  case (Cons b bs)
  let ?k = "frozen_key (key_type h) (b_key b)" and ?v = "frozen_value (entry_type h) (b_value b)"
  let ?es = "frozen_entries (key_type h) (entry_type h) bs"
  have "wrote w xs (?k # ?v # ?es @ ys)" using Cons.prems by simp
  from push [OF this] obtain w1 where w1: "push_item W w ?k = Done w1" "wrote w1 (xs @ [?k]) (?v # ?es @ ys)" by blast
  from push [OF w1(2)] obtain w2 where w2: "push_item W w1 ?v = Done w2" "wrote w2 (xs @ [?k, ?v]) (?es @ ys)" by auto
  have "freeze_bucket W h w b = Done w2"
    using w1(1) w2(1) by (simp add: freeze_bucket_def freeze_types(1,2) [OF assms(1)])
  then show ?case using Cons.IH [OF w2(2)] by simp
qed

lemma freeze:
  assumes "parrot_hash_iterate h = Some bs" "freezable (key_type h) (entry_type h)"
    and "wrote w xs (frozen_hash h bs @ ys)"
  shows "\<exists>w'. Parrot_hash_freeze W h w = Done w' \<and> wrote w' (xs @ frozen_hash h bs) ys"
proof -
  let ?a = "word_of_nat (entries h) :: u64" and ?b = "key_type_code (key_type h)" and ?c = "data_type_code (entry_type h)"
  let ?es = "frozen_entries (key_type h) (entry_type h) bs"
  have "wrote w xs (F_integer ?a # F_integer ?b # F_integer ?c # ?es @ ys)" using assms(3) by (simp add: frozen_hash_def)
  from push [OF this] obtain w1 where w1: "push_integer W w ?a = Done w1"
      "wrote w1 (xs @ [F_integer ?a]) (F_integer ?b # F_integer ?c # ?es @ ys)" by (auto simp: push_item_def)
  from push [OF w1(2)] obtain w2 where w2: "push_integer W w1 ?b = Done w2"
      "wrote w2 (xs @ [F_integer ?a, F_integer ?b]) (F_integer ?c # ?es @ ys)" by (auto simp: push_item_def)
  from push [OF w2(2)] obtain w3 where w3: "push_integer W w2 ?c = Done w3"
      "wrote w3 (xs @ [F_integer ?a, F_integer ?b, F_integer ?c]) (?es @ ys)" by (auto simp: push_item_def)
  from freeze_buckets [OF assms(2) w3(2)] show ?thesis
    using w1(1) w2(1) w3(1) assms(1) by (auto simp: Parrot_hash_freeze_def frozen_hash_def)
qed

lemma run:
  assumes "freezable kt et" "reads r (frozen_entries kt et bs @ ys)"
  shows "\<exists>es r'. shifts (thaw_pair R kt et) (length bs) r = Done (es, r') \<and> reads r' ys
    \<and> list_all2 (thawed_entry same_string same_pmc kt et) (map entry_of bs) es"
  using assms(2)
proof (induction bs arbitrary: r)
  case Nil
  then show ?case by simp
next
  case (Cons b bs)
  let ?k = "frozen_key kt (b_key b)" and ?v = "frozen_value et (b_value b)"
  have "reads r (?k # ?v # frozen_entries kt et bs @ ys)" using Cons.prems by simp
  from shift [OF this] obtain k r1 where k: "shift_item R r ?k = Done (k, r1)"
      "reads r1 (?v # frozen_entries kt et bs @ ys)" "thawed same_string same_pmc ?k k" by blast
  from shift [OF k(2)] obtain v r2 where v: "shift_item R r1 ?v = Done (v, r2)"
      "reads r2 (frozen_entries kt et bs @ ys)" "thawed same_string same_pmc ?v v" by blast
  have "thaw_pair R kt et r = Done ((k, v), r2)"
    using k(1) v(1) freeze_types(3) [OF assms(1), of R r "b_key b"] freeze_types(4) [OF assms(1), of R r1 "b_value b"]
    by (simp add: thaw_pair_def)
  moreover have "thawed_entry same_string same_pmc kt et (entry_of b) (k, v)"
    using k(3) v(3) by (simp add: thawed_entry_def)
  ultimately show ?case using Cons.IH [OF v(2)] by auto
qed

text \<open>
  Thawing puts the entries into a new table, provided new keys are equal only when the old
  ones are.
\<close>

lemma thaw:
  assumes "hash_ok E h" "parrot_hash_iterate h = Some bs" "mset (map entry_of bs) = hash_dict h"
    and "size (hash_dict h) < 2 ^ 62" "freezable (key_type h) (entry_type h)"
    and keys: "\<And>k l k' l'. k \<in># image_mset fst (hash_dict h) \<Longrightarrow> l \<in># image_mset fst (hash_dict h) \<Longrightarrow> thawed same_string same_pmc (frozen_key (key_type h) k) k' \<Longrightarrow>
      thawed same_string same_pmc (frozen_key (key_type h) l) l' \<Longrightarrow> hash_compare E h k' l' \<Longrightarrow> hash_compare E h k l"
    and r: "reads r (frozen_hash h bs @ ys)"
  shows "\<exists>h' r'. Parrot_hash_thaw R E sd r = Done (h', r') \<and> reads r' ys \<and> hash_ok E h'
    \<and> same_kind (Parrot_hash_create sd (entry_type h) (key_type h)) h'
    \<and> rel_mset (thawed_entry same_string same_pmc (key_type h) (entry_type h)) (hash_dict h) (hash_dict h')"
proof -
  let ?kt = "key_type h" and ?et = "entry_type h" and ?n = "word_of_nat (entries h) :: u64"
  let ?g = "Parrot_hash_create sd ?et ?kt"
  let ?es = "frozen_entries ?kt ?et bs"
  have len: "length bs = size (hash_dict h)" unfolding assms(3) [symmetric] by simp
  have e: "entries h = length bs" using lookup_ok [OF assms(1)] len by (simp add: Parrot_hash_size_def)
  then have n: "unat ?n = length bs" using assms(4) len by (simp add: unat_of_nat_small)
  have g: "entries ?g = 0" "free_list ?g = None" "key_type ?g = ?kt" "entry_type ?g = ?et"
    by (simp_all add: Parrot_hash_create_def)
  have "keys_ok E h" using assms(1) by (simp add: hash_ok_def)
  then have k: "keys_ok E ?g" by (rule keys_ok_type [OF g(3)])
  have "unat ?n \<le> 2 ^ 63" using assms(4) n len by simp
  from allocate_ok [OF g(1,2) this k] obtain d where d:
    "allocate_buckets ?g ?n = Some d" "table_of E ?g d" "hash_dict d = {#}" by blast
  have "reads r (F_integer ?n # F_integer (key_type_code ?kt) # F_integer (data_type_code ?et) # ?es @ ys)"
    using r by (simp add: frozen_hash_def)
  from shift [OF this] obtain r1 where r1: "shift_integer R r = Done (?n, r1)"
      "reads r1 (F_integer (key_type_code ?kt) # F_integer (data_type_code ?et) # ?es @ ys)"
    by (auto simp: shift_item_def thawed_def)
  from shift [OF r1(2)] obtain r2 where r2: "shift_integer R r1 = Done (key_type_code ?kt, r2)"
      "reads r2 (F_integer (data_type_code ?et) # ?es @ ys)" by (auto simp: shift_item_def thawed_def)
  from shift [OF r2(2)] obtain r3 where r3: "shift_integer R r2 = Done (data_type_code ?et, r3)" "reads r3 (?es @ ys)"
    by (auto simp: shift_item_def thawed_def)
  from run [OF assms(5) r3(2)] obtain es r' where es: "shifts (thaw_pair R ?kt ?et) (length bs) r3 = Done (es, r')"
      "reads r' ys" "list_all2 (thawed_entry same_string same_pmc ?kt ?et) (map entry_of bs) es" by blast
  have "apart (hash_compare E h) (map entry_of bs)"
    by (rule sep_apart) (simp only: assms(3) sep_ok [OF assms(1)])
  then have "apart (hash_compare E h) es"
  proof (rule apart_mono [OF es(3)])
    have mem: "fst e \<in># image_mset fst (hash_dict h)" if "e \<in> set (map entry_of bs)" for e
      unfolding assms(3) [symmetric] using that by (simp only: set_mset_mset mset_map [symmetric] set_map image_eqI)
    show "hash_compare E h (fst a) (fst b)" if "a \<in> set (map entry_of bs)" "b \<in> set (map entry_of bs)"
      "thawed_entry same_string same_pmc ?kt ?et a a'" "thawed_entry same_string same_pmc ?kt ?et b b'"
      "hash_compare E h (fst a') (fst b')" for a b a' b'
      using keys [OF mem [OF that(1)] mem [OF that(2)]] that(3-5) unfolding thawed_entry_def by blast
  qed
  then have ap: "apart (hash_compare E ?g) es" unfolding compare_type [OF g(3)] .
  have l: "length es = length bs" using list_all2_lengthD [OF es(3)] by simp
  from thaw_loop [OF es(1) d(2,3) g(3,4) ap, of "[0..<unat ?n]"] obtain h' where h':
    "(if ?kt = Hash_key_type_STRING \<and> ?et = enum_type_INTVAL then ofold (thaw_fast R E) [0..<unat ?n] (d, r3)
      else ofold (thaw_entry R E ?kt ?et) [0..<unat ?n] (d, r3)) = Done (h', r')"
    "hash_ok E h'" "same_kind ?g h'" "hash_dict h' = mset es"
    using assms(4) len l n by auto
  have "Parrot_hash_thaw R E sd r = Done (h', r')"
    using r1(1) r2(1) r3(1) h'(1) d(1) thaw_codes(1) [of ?kt] thaw_codes(2) [OF assms(5)]
    by (simp add: Parrot_hash_thaw_def Parrot_hash_create_sized_def split: if_splits)
  moreover have "rel_mset (thawed_entry same_string same_pmc ?kt ?et) (hash_dict h) (hash_dict h')"
    unfolding rel_mset_def by (intro exI [of _ "map entry_of bs"] exI [of _ es] conjI assms(3) h'(4) [symmetric] es(3))
  ultimately show ?thesis using es(2) h'(2,3) by blast
qed

end

end
