(* ===== verification/Image_IO.thy ===== *)
theory Image_IO
  imports Pack_Claims Parrot_Hash_Freeze
begin

text \<open>
  The images of frozen objects, \<open>src/pmc/imageiofreeze.pmc\<close> and \<open>src/pmc/imageiothaw.pmc\<close>:
  integers, strings and references to PMCs as bytes.  Images of their own are modelled, not
  those that refer to the constants of a packfile (private flag 1); the machine is
  little-endian, as the strings of \<open>Str_Base\<close> are.
\<close>

section \<open>Freezing\<close>

text \<open>
  What the objects at addresses are: \<open>string_at\<close> and \<open>string_flags\<close> before and after, as
  strings do not change; the number pushed for the type of a PMC; the addresses at
  which the string read at a position of the image and the PMC with a number come to be.
\<close>

record image_env =
  string_at :: "u64 \<Rightarrow> nstring"
  string_flags :: "u64 \<Rightarrow> str_flags"
  image_null :: u64
  type_of_pmc :: "u64 \<Rightarrow> u64"
  n_vtable_max :: int
  new_string :: "nat \<Rightarrow> u64"
  new_pmc :: "nat \<Rightarrow> u64"

definition is_PMCNULL :: "image_env \<Rightarrow> u64 \<Rightarrow> bool" where
  "is_PMCNULL H p \<longleftrightarrow> p = image_null H \<or> p = 0"

definition PackID_new :: "u64 \<Rightarrow> u64 \<Rightarrow> u64" where
  "PackID_new i flags = (i * 4) OR (flags AND 3)"

definition PackID_get_PMCID :: "u64 \<Rightarrow> u64" where
  "PackID_get_PMCID i = i div 4"

definition PackID_get_FLAGS :: "u64 \<Rightarrow> u64" where
  "PackID_get_FLAGS i = i AND 3"

definition enum_PackID_normal :: u64 where "enum_PackID_normal = 0"
definition enum_PackID_seen :: u64 where "enum_PackID_seen = 1"
definition enum_PackID_pbc_backref :: u64 where "enum_PackID_pbc_backref = 2"

text \<open>The hash \<open>seen\<close> is the map it stands for; \<open>todo\<close> are the PMCs whose contents are still to come.\<close>

record image_freeze =
  fz_buffer :: "u8 list"
  fz_pos :: nat
  fz_seen :: "u64 \<rightharpoonup> u64"
  fz_todo :: "u64 list"
  fz_id :: u64

text \<open>
  \<open>src/gc/string_gc.c\<close>: a buffer is moved to memory for a whole number of words, and the bytes
  behind the old ones are whatever is there.
\<close>

definition ALIGNED_STRING_SIZE :: "nat \<Rightarrow> nat" where
  "ALIGNED_STRING_SIZE len = (len + 8 + 7) div 8 * 8"

definition Parrot_gc_str_reallocate_buffer_storage :: "(nat \<Rightarrow> u8) \<Rightarrow> u8 list \<Rightarrow> nat \<Rightarrow> u8 list" where
  "Parrot_gc_str_reallocate_buffer_storage fresh b newsize =
     (if newsize \<le> length b then b
      else (let new_size = ALIGNED_STRING_SIZE newsize in b @ map fresh [length b..<new_size - 8]))"

definition ensure_buffer_size :: "(nat \<Rightarrow> u8) \<Rightarrow> image_freeze \<Rightarrow> nat \<Rightarrow> image_freeze option" where
  "ensure_buffer_size fresh io len =
     (let buflen = length (fz_buffer io);
          need_free = (ucast (of_nat buflen - of_nat (fz_pos io) - of_nat len :: u64) :: u32)
      in if sint need_free \<le> 16
         then (let new_size = (of_nat (buflen * 3 div 2) :: u64);
                   least = of_nat buflen - scast need_free + 512;
                   new_size = (if new_size < least then least else new_size);
                   io = io\<lparr>fz_buffer := Parrot_gc_str_reallocate_buffer_storage fresh (fz_buffer io) (unat new_size)\<rparr>
               in do {
                 _ \<leftarrow> c_assert (15 \<le> (of_nat (length (fz_buffer io)) - of_nat (fz_pos io) - of_nat len :: u64));
                 Some io
               })
         else Some io)"

definition ImageIOFreeze_push_integer :: "(nat \<Rightarrow> u8) \<Rightarrow> image_freeze \<Rightarrow> u64 \<Rightarrow> image_freeze outcome" where
  "ImageIOFreeze_push_integer fresh io v =
     defined (do {
       io \<leftarrow> ensure_buffer_size fresh io (PF_size_integer * 8);
       (m, c) \<leftarrow> PF_store_integer False (fz_buffer io) (fz_pos io) v;
       Some (io\<lparr>fz_buffer := m, fz_pos := c\<rparr>)
     })"

text \<open>\<open>PF_size_string\<close> and \<open>PF_store_string\<close> read \<open>bufused\<close> before they test for a null string.\<close>

definition ImageIOFreeze_push_string :: "(nat \<Rightarrow> u8) \<Rightarrow> image_env \<Rightarrow> image_freeze \<Rightarrow> u64 \<Rightarrow> image_freeze outcome" where
  "ImageIOFreeze_push_string fresh H io s =
     defined (do {
       _ \<leftarrow> c_assert (s \<noteq> 0);
       io \<leftarrow> ensure_buffer_size fresh io (PF_size_string (string_at H s) * 8);
       (m, c) \<leftarrow> PF_store_string False (fz_buffer io) (fz_pos io) (string_at H s) (string_flags H s);
       Some (io\<lparr>fz_buffer := m, fz_pos := c\<rparr>)
     })"

definition check_seen :: "image_freeze \<Rightarrow> u64 \<Rightarrow> u64" where
  "check_seen io v = (case fz_seen io v of Some i \<Rightarrow> i | None \<Rightarrow> 0)"

definition ImageIOFreeze_push_pmc :: "(nat \<Rightarrow> u8) \<Rightarrow> image_env \<Rightarrow> image_freeze \<Rightarrow> u64 \<Rightarrow> image_freeze outcome" where
  "ImageIOFreeze_push_pmc fresh H io v =
     (if is_PMCNULL H v then ImageIOFreeze_push_integer fresh io (PackID_new 0 enum_PackID_seen)
      else if check_seen io v \<noteq> 0
      then ImageIOFreeze_push_integer fresh io (PackID_new (check_seen io v) enum_PackID_seen)
      else
        (let i = fz_id io + 1
         in obind (ImageIOFreeze_push_integer fresh (io\<lparr>fz_id := i\<rparr>) (PackID_new i enum_PackID_normal)) (\<lambda>io.
            obind (ImageIOFreeze_push_integer fresh io (type_of_pmc H v)) (\<lambda>io.
            Done (io\<lparr>fz_todo := fz_todo io @ [v], fz_seen := (fz_seen io)(v \<mapsto> i)\<rparr>)))))"

definition ImageIOFreeze :: "(nat \<Rightarrow> u8) \<Rightarrow> image_env \<Rightarrow> image_freeze image_push" where
  "ImageIOFreeze fresh H = \<lparr>push_integer = ImageIOFreeze_push_integer fresh,
     push_string = ImageIOFreeze_push_string fresh H, push_pmc = ImageIOFreeze_push_pmc fresh H\<rparr>"

section \<open>Thawing\<close>

record image_thaw =
  tw_img :: "u8 list"
  tw_curs :: nat
  tw_seen :: "u64 list"
  tw_todo :: "u64 list"
  tw_pf :: packfile

definition BYTECODE_SHIFT_OK :: "image_thaw \<Rightarrow> unit option" where
  "BYTECODE_SHIFT_OK r = c_assert (tw_curs r \<le> length (tw_img r))"

definition ImageIOThaw_shift_integer :: "u8 list \<Rightarrow> image_thaw \<Rightarrow> (u64 \<times> image_thaw) outcome" where
  "ImageIOThaw_shift_integer junk r =
     defined (do {
       f \<leftarrow> fetch_iv (tw_pf r);
       i \<leftarrow> apply_fetch_op f False junk (drop (tw_curs r) (tw_img r));
       (let r = r\<lparr>tw_curs := tw_curs r + unat (h_wordsize (pf_header (tw_pf r)))\<rparr>
        in do { _ \<leftarrow> BYTECODE_SHIFT_OK r; Some (i, r) })
     })"

definition ImageIOThaw_shift_string :: "u8 list \<Rightarrow> (nat \<Rightarrow> u8) \<Rightarrow> image_env \<Rightarrow> image_thaw \<Rightarrow> (u64 \<times> image_thaw) outcome" where
  "ImageIOThaw_shift_string junk fresh H r =
     obind (PF_fetch_string False junk fresh (Some (tw_pf r)) (tw_img r) (tw_curs r)) (\<lambda>(s, flags, c).
       let s = new_string H (tw_curs r);
           r = r\<lparr>tw_curs := c\<rparr>
       in obind (defined (BYTECODE_SHIFT_OK r)) (\<lambda>_. Done (s, r)))"

text \<open>
  A reference to a constant of a packfile does not occur in an image of its own.  The number
  of a type is an \<open>INTVAL\<close>.  \<open>seen\<close> is a \<open>ResizablePMCArray\<close>: it has \<open>PMCNULL\<close> behind its end.  The
  new PMC is only allocated; its contents are thawed when its number is taken from \<open>todo\<close>.
\<close>

definition ImageIOThaw_shift_pmc :: "u8 list \<Rightarrow> image_env \<Rightarrow> image_thaw \<Rightarrow> (u64 \<times> image_thaw) outcome" where
  "ImageIOThaw_shift_pmc junk H r =
     obind (ImageIOThaw_shift_integer junk r) (\<lambda>(n, r).
       let i = PackID_get_PMCID n;
           packid_flags = PackID_get_FLAGS n
       in if packid_flags = enum_PackID_seen
          then (if i \<noteq> 0
                then Done (if unat (i - 1) < length (tw_seen r) then tw_seen r ! unat (i - 1) else image_null H, r)
                else Done (image_null H, r))
          else if packid_flags = enum_PackID_pbc_backref then Undefined
          else if packid_flags = enum_PackID_normal
          then obind (ImageIOThaw_shift_integer junk r) (\<lambda>(type, r).
               obind (defined (c_assert (i - 1 = of_nat (length (tw_seen r))))) (\<lambda>_.
               if sint type \<le> 0 \<or> n_vtable_max H < sint type then Thrown ''Unknown PMC type to thaw''
               else let pmc = new_pmc H (length (tw_seen r))
                    in Done (pmc, r\<lparr>tw_seen := tw_seen r @ [pmc], tw_todo := tw_todo r @ [i - 1]\<rparr>)))
          else Thrown ''Unknown PMC id args thaw'')"

definition ImageIOThaw :: "u8 list \<Rightarrow> (nat \<Rightarrow> u8) \<Rightarrow> image_env \<Rightarrow> image_thaw image_shift" where
  "ImageIOThaw junk fresh H = \<lparr>shift_integer = ImageIOThaw_shift_integer junk,
     shift_string = ImageIOThaw_shift_string junk fresh H, shift_pmc = ImageIOThaw_shift_pmc junk H\<rparr>"

end
