(* ===== verification/Image_IO_Rep.thy ===== *)
theory Image_IO_Rep
  imports Image_IO
begin

text \<open>
  What pushing puts into an image and shifting takes out of it: the bytes of every item, and
  the two classes of \<open>Image_IO\<close> as an instance of the locale \<open>frozen_image\<close>.
\<close>

section \<open>The buffer\<close>

definition fz_bytes :: "u8 list \<Rightarrow> image_freeze \<Rightarrow> bool" where
  "fz_bytes pre io \<longleftrightarrow> fz_pos io = length pre \<and> take (length pre) (fz_buffer io) = pre
     \<and> length (fz_buffer io) < 2 ^ 31"

lemma fz_bytes_split: "fz_bytes pre io \<Longrightarrow> \<exists>ys. fz_buffer io = pre @ ys"
  unfolding fz_bytes_def by (metis append_take_drop_id)

lemma sint_of_int_32: "- (2 ^ 31) \<le> d \<Longrightarrow> d < 2 ^ 31 \<Longrightarrow> sint (word_of_int d :: u32) = d"
  by (simp add: sint_sbintrunc' signed_take_bit_int_eq_self)

lemma if_max: "(if a < b then b else a) = max a (b :: nat)"
  by (simp add: max_def)

lemma length_string_bytes:
  assumes "\<And>t. s = Some t \<Longrightarrow> bufused t \<le> length (strstart t)"
  shows "length (string_bytes be s flags) = 8 * PF_size_string s"
  using assms by (cases s) (simp_all add: string_bytes_def PF_size_string_def PF_size_strlen_eq)

lemma ensure_buffer_size_ok:
  assumes "fz_bytes pre io" "length pre + len \<le> 2 ^ 30"
  shows "\<exists>b. ensure_buffer_size fresh io len = Some (io\<lparr>fz_buffer := b\<rparr>) \<and> fz_bytes pre (io\<lparr>fz_buffer := b\<rparr>)
    \<and> length pre + len \<le> length b"
proof -
  let ?B = "length (fz_buffer io)"
  define d where "d = int ?B - int (length pre) - int len"
  obtain ys where ys: "fz_buffer io = pre @ ys" using fz_bytes_split [OF assms(1)] by blast
  have B: "?B < 2 ^ 31" "fz_pos io = length pre" using assms(1) by (simp_all add: fz_bytes_def)
  have w: "(of_nat ?B - of_nat (fz_pos io) - of_nat len :: u64) = word_of_int d"
    by (simp add: d_def B(2))
  have "(ucast (word_of_int d :: u64) :: u32) = word_of_int d"
    by (intro bit_word_eqI) (auto simp: bit_ucast_iff bit_simps)
  moreover have dr: "- (2 ^ 31) \<le> d" "d < 2 ^ 31" using B(1) assms(2) by (simp_all add: d_def)
  ultimately have nf: "sint (ucast (word_of_int d :: u64) :: u32) = d" "(scast (ucast (word_of_int d :: u64) :: u32) :: u64) = word_of_int d"
    using sint_of_int_32 [OF dr] by (simp_all add: scast_eq)
  show ?thesis
  proof (cases "d \<le> 16")
    case False
    then show ?thesis using assms(1) nf w
      by (intro exI [of _ "fz_buffer io"]) (simp add: ensure_buffer_size_def Let_def d_def)
  next
    case True
    define L where "L = length pre + len + 512"
    have small: "?B * 3 div 2 < 2 ^ 64" "L < 2 ^ 64" using B(1) assms(2) by (simp_all add: L_def)
    have least: "(of_nat ?B - word_of_int d + 512 :: u64) = of_nat L"
      unfolding w [symmetric] B(2) L_def by simp
    define N where "N = max (?B * 3 div 2) L"
    define b where "b = Parrot_gc_str_reallocate_buffer_storage fresh (fz_buffer io) N"
    have u: "unat (of_nat (?B * 3 div 2) :: u64) = ?B * 3 div 2" "unat (of_nat L :: u64) = L"
      using small by (simp_all add: unat_of_nat_small)
    have N: "unat (if (of_nat (?B * 3 div 2) :: u64) < of_nat L then of_nat L else of_nat (?B * 3 div 2) :: u64) = N"
      unfolding N_def if_max [symmetric]
      by (cases "?B * 3 div 2 < L") (simp_all only: word_less_nat_alt u if_True if_False simp_thms)
    define M where "M = (N + 15) div 8 * 8 - 8"
    have M: "N \<le> M" "M \<le> N + 7" unfolding M_def by presburger+
    have "?B \<le> length pre + len + 16" using True by (simp add: d_def)
    then have NB: "?B < N" "N + 7 < 2 ^ 31" using assms(2) by (simp_all add: N_def L_def)
    have bM: "b = fz_buffer io @ map fresh [?B..<M]"
      using NB(1) by (simp add: b_def Parrot_gc_str_reallocate_buffer_storage_def ALIGNED_STRING_SIZE_def M_def Let_def add.assoc)
    then have lb: "length b = M" "take (length pre) b = pre" using NB(1) M(1) ys by simp_all
    then have ok: "fz_bytes pre (io\<lparr>fz_buffer := b\<rparr>)" using B(2) NB(2) M(2) by (simp add: fz_bytes_def)
    have "length pre + len + 512 \<le> N" by (simp add: N_def L_def)
    with M(1) have "length pre + len + 512 \<le> M" by simp
    then obtain k where k: "M = length pre + len + 512 + k" using le_Suc_ex by blast
    have "(of_nat M - of_nat (fz_pos io) - of_nat len :: u64) = of_nat (512 + k)" unfolding k B(2) by simp
    moreover have "(15 :: u64) \<le> of_nat (512 + k)"
    proof -
      have "unat (of_nat (512 + k) :: u64) = 512 + k" using NB(2) M(2) k by (intro unat_of_nat_small) simp
      then show ?thesis unfolding word_le_nat_alt by simp
    qed
    ultimately have "ensure_buffer_size fresh io len = Some (io\<lparr>fz_buffer := b\<rparr>)"
      using True N lb unfolding ensure_buffer_size_def Let_def w nf least
      by (simp add: b_def [symmetric])
    then show ?thesis using ok lb k by (intro exI [of _ b]) simp
  qed
qed

section \<open>Bytes of the items\<close>

lemma push_integer_bytes:
  assumes "fz_bytes pre io" "length pre + 8 \<le> 2 ^ 30"
  shows "\<exists>b. ImageIOFreeze_push_integer fresh io v = Done (io\<lparr>fz_buffer := b, fz_pos := length pre + 8\<rparr>)
    \<and> fz_bytes (pre @ store_word False 8 v) (io\<lparr>fz_buffer := b, fz_pos := length pre + 8\<rparr>)"
proof -
  obtain b where b: "ensure_buffer_size fresh io 8 = Some (io\<lparr>fz_buffer := b\<rparr>)" "fz_bytes pre (io\<lparr>fz_buffer := b\<rparr>)"
      "length pre + 8 \<le> length b" using ensure_buffer_size_ok [OF assms] by blast
  obtain r where r: "b = pre @ r" using fz_bytes_split [OF b(2)] by auto
  then obtain z ys where z: "r = z @ ys" "length z = 8" using split_length [of r 8 "length r - 8"] b(3) by auto
  let ?b = "pre @ store_word False 8 v @ ys"
  have pos: "fz_pos io = length pre" using assms(1) by (simp add: fz_bytes_def)
  have "PF_store_opcode False b (length pre) v = Some (?b, length pre + 8)"
    unfolding r z(1) by (rule PF_store_opcode_at [OF z(2)])
  then have "ImageIOFreeze_push_integer fresh io v = Done (io\<lparr>fz_buffer := ?b, fz_pos := length pre + 8\<rparr>)"
    using b(1) pos by (simp add: ImageIOFreeze_push_integer_def PF_size_integer_def PF_store_integer_def)
  moreover have "length ?b = length b" using r z by simp
  ultimately show ?thesis using b(2) by (intro exI [of _ ?b]) (simp add: fz_bytes_def)
qed

lemma push_string_bytes:
  assumes "s \<noteq> 0" "fz_bytes pre io" "length pre + 8 * PF_size_string (string_at H s) \<le> 2 ^ 30"
    and "\<And>t. string_at H s = Some t \<Longrightarrow> bufused t \<le> length (strstart t)"
  shows "\<exists>b c. ImageIOFreeze_push_string fresh H io s = Done (io\<lparr>fz_buffer := b, fz_pos := c\<rparr>)
    \<and> fz_bytes (pre @ string_bytes False (string_at H s) (string_flags H s)) (io\<lparr>fz_buffer := b, fz_pos := c\<rparr>)"
proof -
  let ?s = "string_at H s" and ?n = "8 * PF_size_string (string_at H s)"
  let ?x = "string_bytes False ?s (string_flags H s)"
  obtain b where b: "ensure_buffer_size fresh io ?n = Some (io\<lparr>fz_buffer := b\<rparr>)" "fz_bytes pre (io\<lparr>fz_buffer := b\<rparr>)"
      "length pre + ?n \<le> length b" using ensure_buffer_size_ok [OF assms(2,3)] by blast
  obtain r where r: "b = pre @ r" using fz_bytes_split [OF b(2)] by auto
  then obtain z ys where z: "r = z @ ys" "length z = ?n" using split_length [of r ?n "length r - ?n"] b(3) by auto
  let ?b = "pre @ ?x @ ys"
  have pos: "fz_pos io = length pre" using assms(2) by (simp add: fz_bytes_def)
  have "PF_store_string False b (length pre) ?s (string_flags H s) = Some (?b, length pre + ?n)"
    unfolding r z(1) using PF_store_string_bytes [OF assms(4) z(2)] by simp
  then have "ImageIOFreeze_push_string fresh H io s = Done (io\<lparr>fz_buffer := ?b, fz_pos := length pre + ?n\<rparr>)"
    using b(1) pos assms(1) by (simp add: ImageIOFreeze_push_string_def mult.commute)
  moreover have "length ?x = ?n" by (rule length_string_bytes [OF assms(4)])
  moreover then have "length ?b = length b" using r z by simp
  ultimately show ?thesis using b(2) by (intro exI [of _ ?b] exI [of _ "length pre + ?n"]) (simp add: fz_bytes_def)
qed

section \<open>References to PMCs\<close>

lemma PackID_parts:
  assumes "i < 2 ^ 62"
  shows "PackID_get_PMCID (PackID_new i f) = i" "PackID_get_FLAGS (PackID_new i f) = f AND 3"
proof -
  have m: "(3 :: u64) = mask 2" by (simp add: mask_eq_exp_minus_1)
  have p: "PackID_new i f = push_bit 2 i OR (f AND mask 2)"
    unfolding PackID_new_def m by (simp add: push_bit_eq_mult mult.commute)
  have i: "bit i (n :: nat) \<Longrightarrow> n < 62" for n
  proof -
    assume "bit i n"
    then have "bit (unat i) n" by (simp add: bit_unsigned_iff bit_imp_le_length)
    moreover have "take_bit 62 (unat i) = unat i"
      using assms by (intro take_bit_nat_eq_self) (simp add: word_less_nat_alt)
    ultimately show "n < 62" by (metis bit_take_bit_iff)
  qed
  have "PackID_get_PMCID (PackID_new i f) = drop_bit 2 (push_bit 2 i OR (f AND mask 2))"
    unfolding PackID_get_PMCID_def p by (simp add: drop_bit_eq_div)
  also have "\<dots> = i"
    by (rule bit_word_eqI) (auto simp: bit_drop_bit_eq bit_or_iff bit_and_iff bit_push_bit_iff bit_mask_iff add.commute dest: i)
  finally show "PackID_get_PMCID (PackID_new i f) = i" .
  show "PackID_get_FLAGS (PackID_new i f) = f AND 3"
    unfolding PackID_get_FLAGS_def p m
    by (rule bit_word_eqI) (auto simp: bit_or_iff bit_and_iff bit_push_bit_iff bit_mask_iff)
qed

lemma PackID_flags:
  "i < 2 ^ 62 \<Longrightarrow> PackID_get_FLAGS (PackID_new i enum_PackID_seen) = enum_PackID_seen"
  "i < 2 ^ 62 \<Longrightarrow> PackID_get_FLAGS (PackID_new i enum_PackID_normal) = enum_PackID_normal"
  by (simp_all add: PackID_parts enum_PackID_seen_def enum_PackID_normal_def)

text \<open>The PMCs that have been seen, in the order of their numbers; numbers start with 1.\<close>

definition rank :: "u64 list \<Rightarrow> u64 \<Rightarrow> nat" where
  "rank L p = length (takeWhile (\<lambda>q. q \<noteq> p) L)"

lemma rank_in: "p \<in> set L \<Longrightarrow> rank L p < length L \<and> L ! rank L p = p"
  unfolding rank_def by (induction L) auto

lemma rank_append: "p \<in> set L \<Longrightarrow> rank (L @ M) p = rank L p"
  by (auto simp: rank_def)

lemma rank_new: "p \<notin> set L \<Longrightarrow> rank (L @ [p]) p = length L"
  unfolding rank_def by (induction L) auto

definition seen_map :: "u64 list \<Rightarrow> u64 \<rightharpoonup> u64" where
  "seen_map L = (\<lambda>p. if p \<in> set L then Some (of_nat (rank L p) + 1) else None)"

lemma seen_map_new: "p \<notin> set L \<Longrightarrow> seen_map (L @ [p]) = (seen_map L)(p \<mapsto> of_nat (length L) + 1)"
  by (auto simp: seen_map_def rank_append rank_new)

fun see :: "image_env \<Rightarrow> u64 list \<Rightarrow> frozen \<Rightarrow> u64 list" where
  "see H L (F_pmc p) = (if is_PMCNULL H p \<or> p \<in> set L then L else L @ [p])"
| "see H L _ = L"

section \<open>Items\<close>

fun item_bytes :: "image_env \<Rightarrow> u64 list \<Rightarrow> frozen \<Rightarrow> u8 list" where
  "item_bytes H L (F_integer i) = store_word False 8 i"
| "item_bytes H L (F_string s) = string_bytes False (string_at H s) (string_flags H s)"
| "item_bytes H L (F_pmc p) =
     (if is_PMCNULL H p then store_word False 8 (PackID_new 0 enum_PackID_seen)
      else if p \<in> set L then store_word False 8 (PackID_new (of_nat (rank L p) + 1) enum_PackID_seen)
      else store_word False 8 (PackID_new (of_nat (length L) + 1) enum_PackID_normal) @ store_word False 8 (type_of_pmc H p))"

fun items_bytes :: "image_env \<Rightarrow> u64 list \<Rightarrow> frozen list \<Rightarrow> u8 list" where
  "items_bytes H L [] = []"
| "items_bytes H L (x # xs) = item_bytes H L x @ items_bytes H (see H L x) xs"

lemma items_bytes_append:
  "items_bytes H L (xs @ ys) = items_bytes H L xs @ items_bytes H (foldl (see H) L xs) ys"
  by (induction xs arbitrary: L) simp_all

text \<open>What an item must be like to be stored, and the most bytes it takes.\<close>

fun item_ok :: "image_env \<Rightarrow> frozen \<Rightarrow> bool" where
  "item_ok H (F_integer i) = True"
| "item_ok H (F_string s) = (s \<noteq> 0 \<and> (\<forall>t. string_at H s = Some t \<longrightarrow> (\<exists>cs. chars t cs)))"
| "item_ok H (F_pmc p) = (is_PMCNULL H p \<or> 0 < sint (type_of_pmc H p) \<and> sint (type_of_pmc H p) \<le> n_vtable_max H)"

fun item_size :: "image_env \<Rightarrow> frozen \<Rightarrow> nat" where
  "item_size H (F_integer i) = 8"
| "item_size H (F_string s) = 8 * PF_size_string (string_at H s)"
| "item_size H (F_pmc p) = 16"

definition fz_rep :: "u64 list \<Rightarrow> u8 list \<Rightarrow> image_freeze \<Rightarrow> bool" where
  "fz_rep L pre io \<longleftrightarrow> fz_bytes pre io \<and> fz_id io = of_nat (length L) \<and> fz_seen io = seen_map L \<and> length L \<le> length pre"

lemma chars_storage: "chars t cs \<Longrightarrow> bufused t \<le> length (strstart t)"
  by (auto simp: chars_iff)

lemma push_item_rep:
  assumes "fz_rep L pre io" "item_ok H x" "length pre + item_size H x \<le> 2 ^ 30"
  shows "\<exists>io'. push_item (ImageIOFreeze fresh H) io x = Done io' \<and> fz_rep (see H L x) (pre @ item_bytes H L x) io'"
proof (cases x)
  case (F_integer i)
  have "fz_bytes pre io" "length pre + 8 \<le> 2 ^ 30" using assms F_integer by (simp_all add: fz_rep_def)
  from push_integer_bytes [OF this, of fresh i] obtain b where
    "ImageIOFreeze_push_integer fresh io i = Done (io\<lparr>fz_buffer := b, fz_pos := length pre + 8\<rparr>)"
    "fz_bytes (pre @ store_word False 8 i) (io\<lparr>fz_buffer := b, fz_pos := length pre + 8\<rparr>)" by blast
  with assms(1) show ?thesis
    by (intro exI [of _ "io\<lparr>fz_buffer := b, fz_pos := length pre + 8\<rparr>"])
      (simp add: F_integer push_item_def ImageIOFreeze_def fz_rep_def)
next
  case (F_string s)
  have "s \<noteq> 0" "fz_bytes pre io" "length pre + 8 * PF_size_string (string_at H s) \<le> 2 ^ 30"
    using assms F_string by (simp_all add: fz_rep_def)
  moreover have "bufused t \<le> length (strstart t)" if "string_at H s = Some t" for t
    using that assms(2) chars_storage by (auto simp: F_string)
  ultimately obtain b c where
    "ImageIOFreeze_push_string fresh H io s = Done (io\<lparr>fz_buffer := b, fz_pos := c\<rparr>)"
    "fz_bytes (pre @ string_bytes False (string_at H s) (string_flags H s)) (io\<lparr>fz_buffer := b, fz_pos := c\<rparr>)"
    using push_string_bytes by blast
  with assms(1) show ?thesis
    by (intro exI [of _ "io\<lparr>fz_buffer := b, fz_pos := c\<rparr>"])
      (simp add: F_string push_item_def ImageIOFreeze_def fz_rep_def)
next
  case (F_pmc p)
  have b: "fz_bytes pre io" "length pre + 16 \<le> 2 ^ 30" using assms F_pmc by (simp_all add: fz_rep_def)
  have push: "push_item (ImageIOFreeze fresh H) io x = ImageIOFreeze_push_pmc fresh H io p"
    by (simp add: F_pmc push_item_def ImageIOFreeze_def)
  have L: "length L < 2 ^ 30" using assms(1) b(2) by (simp add: fz_rep_def)
  have nz: "(of_nat n + 1 :: u64) \<noteq> 0" if "n < 2 ^ 30" for n
  proof -
    have "unat (of_nat (n + 1) :: u64) = n + 1" using that by (intro unat_of_nat_small) simp
    then have "(of_nat (n + 1) :: u64) \<noteq> 0" by (metis add_is_0 one_neq_zero unat_0)
    then show ?thesis by (simp add: add.commute)
  qed
  have len: "length pre + 8 \<le> 2 ^ 30" using b(2) by simp
  show ?thesis
  proof (cases "is_PMCNULL H p \<or> p \<in> set L")
    case True
    have "check_seen io p = of_nat (rank L p) + 1" "of_nat (rank L p) + 1 \<noteq> (0 :: u64)" if "p \<in> set L"
      using assms(1) that nz [of "rank L p"] rank_in [OF that] L by (simp_all add: check_seen_def fz_rep_def seen_map_def)
    then obtain v where "ImageIOFreeze_push_pmc fresh H io p = ImageIOFreeze_push_integer fresh io v"
      "item_bytes H L x = store_word False 8 v" using True F_pmc
      by (cases "is_PMCNULL H p") (simp_all add: ImageIOFreeze_push_pmc_def)
    moreover obtain b where
      "ImageIOFreeze_push_integer fresh io v = Done (io\<lparr>fz_buffer := b, fz_pos := length pre + 8\<rparr>)"
      "fz_bytes (pre @ store_word False 8 v) (io\<lparr>fz_buffer := b, fz_pos := length pre + 8\<rparr>)"
      using push_integer_bytes [OF b(1) len] by blast
    ultimately show ?thesis using assms(1) True push
      by (intro exI [of _ "io\<lparr>fz_buffer := b, fz_pos := length pre + 8\<rparr>"]) (auto simp: F_pmc fz_rep_def)
  next
    case False
    let ?i = "of_nat (length L) + 1 :: u64"
    let ?w1 = "store_word False 8 (PackID_new ?i enum_PackID_normal)" and ?w2 = "store_word False 8 (type_of_pmc H p)"
    have c: "check_seen io p = 0" "fz_id io + 1 = ?i"
      using assms(1) False by (simp_all add: check_seen_def fz_rep_def seen_map_def)
    have "fz_bytes pre (io\<lparr>fz_id := ?i\<rparr>)" using b(1) by (simp add: fz_bytes_def)
    from push_integer_bytes [OF this len] obtain b1 where 1:
      "ImageIOFreeze_push_integer fresh (io\<lparr>fz_id := ?i\<rparr>) (PackID_new ?i enum_PackID_normal)
        = Done (io\<lparr>fz_id := ?i, fz_buffer := b1, fz_pos := length pre + 8\<rparr>)"
      "fz_bytes (pre @ ?w1) (io\<lparr>fz_id := ?i, fz_buffer := b1, fz_pos := length pre + 8\<rparr>)" by blast
    let ?io1 = "io\<lparr>fz_id := ?i, fz_buffer := b1, fz_pos := length pre + 8\<rparr>"
    have "length (pre @ ?w1) + 8 \<le> 2 ^ 30" using b(2) by simp
    from push_integer_bytes [OF 1(2) this] obtain b2 where 2:
      "ImageIOFreeze_push_integer fresh ?io1 (type_of_pmc H p) = Done (?io1\<lparr>fz_buffer := b2, fz_pos := length (pre @ ?w1) + 8\<rparr>)"
      "fz_bytes ((pre @ ?w1) @ ?w2) (?io1\<lparr>fz_buffer := b2, fz_pos := length (pre @ ?w1) + 8\<rparr>)" by blast
    let ?io = "io\<lparr>fz_id := ?i, fz_buffer := b2, fz_pos := length pre + 16, fz_todo := fz_todo io @ [p],
      fz_seen := (fz_seen io)(p \<mapsto> ?i)\<rparr>"
    have "ImageIOFreeze_push_pmc fresh H io p = Done ?io"
      using False c 1(1) 2(1) by (simp add: ImageIOFreeze_push_pmc_def Let_def)
    moreover have "fz_rep (L @ [p]) (pre @ ?w1 @ ?w2) ?io"
      using 2(2) assms(1) False seen_map_new [of p L] by (simp add: fz_rep_def fz_bytes_def)
    ultimately show ?thesis using push False F_pmc by auto
  qed
qed

lemma length_item_bytes: "item_ok H x \<Longrightarrow> length (item_bytes H L x) \<le> item_size H x"
proof (cases x)
  case (F_string s)
  assume ok: "item_ok H x"
  have "bufused t \<le> length (strstart t)" if "string_at H s = Some t" for t
    using that ok chars_storage by (auto simp: F_string)
  from length_string_bytes [OF this] show ?thesis by (simp add: F_string)
qed simp_all

definition wrote :: "image_env \<Rightarrow> u64 list \<Rightarrow> u8 list \<Rightarrow> image_freeze \<Rightarrow> frozen list \<Rightarrow> frozen list \<Rightarrow> bool" where
  "wrote H L0 pre io xs ys \<longleftrightarrow> fz_rep (foldl (see H) L0 xs) (pre @ items_bytes H L0 xs) io
     \<and> (\<forall>x \<in> set ys. item_ok H x)
     \<and> length (pre @ items_bytes H L0 xs) + sum_list (map (item_size H) ys) \<le> 2 ^ 30"

lemma wrote_push:
  assumes "wrote H L0 pre io xs (x # ys)"
  shows "\<exists>io'. push_item (ImageIOFreeze fresh H) io x = Done io' \<and> wrote H L0 pre io' (xs @ [x]) ys"
proof -
  let ?L = "foldl (see H) L0 xs" and ?p = "pre @ items_bytes H L0 xs"
  have a: "fz_rep ?L ?p io" "item_ok H x" "\<forall>y \<in> set ys. item_ok H y"
    "length ?p + item_size H x + sum_list (map (item_size H) ys) \<le> 2 ^ 30"
    using assms by (simp_all add: wrote_def)
  have "length ?p + item_size H x \<le> 2 ^ 30" using a(4) by linarith
  from push_item_rep [OF a(1,2) this] obtain io' where
    "push_item (ImageIOFreeze fresh H) io x = Done io'" "fz_rep (see H ?L x) (?p @ item_bytes H ?L x) io'" by blast
  then show ?thesis using a(3,4) length_item_bytes [OF a(2), of ?L]
    by (intro exI [of _ io']) (simp add: wrote_def items_bytes_append)
qed

section \<open>Reading an image\<close>

definition image_pf :: "packfile \<Rightarrow> bool" where
  "image_pf pf \<longleftrightarrow> reads_words False False (Some pf)"

lemma image_pf_words:
  assumes "image_pf pf"
  shows "fetch_iv pf = Some Fetch_op_le_8" "unat (h_wordsize (pf_header pf)) = 8"
proof -
  obtain pf0 where "PackFile_assign_transforms False pf0 = Done pf" "written_by False 8 pf0"
    using assms by (auto simp: image_pf_def reads_words_def)
  from assign_transforms_op [OF this] this(2)
  show "fetch_iv pf = Some Fetch_op_le_8" "unat (h_wordsize (pf_header pf)) = 8" by (simp_all add: written_by_def)
qed

definition same_string :: "image_env \<Rightarrow> u64 \<Rightarrow> u64 \<Rightarrow> bool" where
  "same_string H a b \<longleftrightarrow> string_at H b = map_option restored (string_at H a)"

definition same_pmc :: "image_env \<Rightarrow> u64 list \<Rightarrow> u64 \<Rightarrow> u64 \<Rightarrow> bool" where
  "same_pmc H L p q \<longleftrightarrow> (if is_PMCNULL H p then q = image_null H else p \<in> set L \<and> q = new_pmc H (rank L p))"

text \<open>The heap after thawing holds at the address of every string made what was read there.\<close>

definition strings_made :: "u8 list \<Rightarrow> (nat \<Rightarrow> u8) \<Rightarrow> image_env \<Rightarrow> packfile \<Rightarrow> u8 list \<Rightarrow> bool" where
  "strings_made junk fresh H pf img \<longleftrightarrow>
     (\<forall>p < length img. \<forall>t flags c. PF_fetch_string False junk fresh (Some pf) img p = Done (t, flags, c)
        \<longrightarrow> string_at H (new_string H p) = t)"

lemma see_prefix: "\<exists>M. foldl (see H) L xs = L @ M"
proof (induction xs arbitrary: L)
  case (Cons x xs)
  obtain M where "foldl (see H) (see H L x) xs = see H L x @ M" using Cons.IH by blast
  moreover have "\<exists>N. see H L x = L @ N" by (cases x) auto
  ultimately show ?case by auto
qed simp

definition reads :: "image_env \<Rightarrow> u64 list \<Rightarrow> packfile \<Rightarrow> u8 list \<Rightarrow> nat \<Rightarrow> image_thaw \<Rightarrow> frozen list \<Rightarrow> bool" where
  "reads H L pf img n r xs \<longleftrightarrow> tw_img r = img \<and> tw_pf r = pf \<and> tw_curs r \<le> length img \<and> (\<forall>x \<in> set xs. item_ok H x)
     \<and> (\<exists>Lc rest. tw_seen r = map (new_pmc H) [0..<length Lc] \<and> foldl (see H) Lc xs = L
          \<and> drop (tw_curs r) img = items_bytes H Lc xs @ rest \<and> length rest = n)"

lemma shift_integer_word:
  assumes "image_pf (tw_pf r)" "drop (tw_curs r) (tw_img r) = store_word False 8 w @ ys"
  shows "ImageIOThaw_shift_integer junk r = Done (w, r\<lparr>tw_curs := tw_curs r + 8\<rparr>)"
    and "drop (tw_curs r + 8) (tw_img r) = ys" and "tw_curs r + 8 \<le> length (tw_img r)"
proof -
  have l: "length (tw_img r) - tw_curs r = 8 + length ys" using arg_cong [OF assms(2), of length] by simp
  then show le: "tw_curs r + 8 \<le> length (tw_img r)" by linarith
  have "drop 8 (drop (tw_curs r) (tw_img r)) = ys" unfolding assms(2) by simp
  then show "drop (tw_curs r + 8) (tw_img r) = ys" by (simp add: add.commute)
  show "ImageIOThaw_shift_integer junk r = Done (w, r\<lparr>tw_curs := tw_curs r + 8\<rparr>)"
    using image_pf_words [OF assms(1)] fetch_op_8 [of False False junk w ys] assms(2) le
    by (simp add: ImageIOThaw_shift_integer_def BYTECODE_SHIFT_OK_def Let_def)
qed

lemma string_bytes_bufused: "chars t cs \<Longrightarrow> bufused t \<le> length (string_bytes be (Some t) flags)"
  using chars_storage by (fastforce simp: string_bytes_def)

lemma shift_string_at:
  assumes "image_pf (tw_pf r)" "strings_made junk fresh H (tw_pf r) (tw_img r)" "length (tw_img r) < 2 ^ 63"
    and "item_ok H (F_string s)" "tw_curs r \<le> length (tw_img r)"
    and d: "drop (tw_curs r) (tw_img r) = string_bytes False (string_at H s) (string_flags H s) @ ys"
  shows "\<exists>a c. ImageIOThaw_shift_string junk fresh H r = Done (a, r\<lparr>tw_curs := c\<rparr>)
    \<and> drop c (tw_img r) = ys \<and> c \<le> length (tw_img r) \<and> same_string H s a"
proof -
  let ?x = "string_bytes False (string_at H s) (string_flags H s)" and ?c = "tw_curs r + 8 * PF_size_string (string_at H s)"
  have rw: "reads_words False False (Some (tw_pf r))" using assms(1) by (simp add: image_pf_def)
  have b: "bufused t \<le> length (strstart t)" if "string_at H s = Some t" for t
    using that assms(4) chars_storage by auto
  have lx: "length ?x = 8 * PF_size_string (string_at H s)" by (rule length_string_bytes [OF b])
  have l: "length (tw_img r) - tw_curs r = length ?x + length ys" using arg_cong [OF d, of length] by simp
  then have c: "?c \<le> length (tw_img r)" using lx assms(5) by linarith
  have "0 < length ?x" using lx by (cases "string_at H s") (simp_all add: PF_size_string_def PF_size_strlen_def Let_def)
  then have lt: "tw_curs r < length (tw_img r)" using l by linarith
  have "drop (length ?x) (drop (tw_curs r) (tw_img r)) = ys" unfolding d by simp
  then have dr: "drop ?c (tw_img r) = ys" unfolding lx by (simp add: add.commute)
  have "\<exists>fl. PF_fetch_string False junk fresh (Some (tw_pf r)) (tw_img r) (tw_curs r)
      = Done (map_option restored (string_at H s), fl, ?c)"
  proof (cases "string_at H s")
    case None
    then have "drop (tw_curs r) (tw_img r) = store_word False 8 (- 1 :: u64) @ ys" using d by (simp add: string_bytes_def)
    from PF_fetch_opcode_word(1) [OF rw this] None show ?thesis
      by (intro exI [of _ "(False, False)"]) (simp add: PF_fetch_string_def PF_size_string_def)
  next
    case (Some t)
    obtain cs where cs: "chars t cs" using assms(4) Some by auto
    have "bufused t \<le> length (string_bytes False (Some t) (string_flags H s))" by (rule string_bytes_bufused [OF cs])
    then have "bufused t < 2 ^ 64" using l assms(3) Some by simp
    from PF_fetch_string_bytes [OF rw _ cs this] d Some show ?thesis by auto
  qed
  then obtain fl where f: "PF_fetch_string False junk fresh (Some (tw_pf r)) (tw_img r) (tw_curs r)
      = Done (map_option restored (string_at H s), fl, ?c)" by blast
  then have "string_at H (new_string H (tw_curs r)) = map_option restored (string_at H s)"
    using assms(2) lt by (auto simp: strings_made_def)
  then show ?thesis using f c dr
    by (intro exI [of _ "new_string H (tw_curs r)"] exI [of _ ?c])
      (simp add: ImageIOThaw_shift_string_def BYTECODE_SHIFT_OK_def Let_def same_string_def)
qed

lemma shift_pmc_at:
  assumes "image_pf (tw_pf r)" "item_ok H (F_pmc p)" "tw_curs r \<le> length (tw_img r)" "length L < 2 ^ 30"
    and seen: "tw_seen r = map (new_pmc H) [0..<length Lc]" "see H Lc (F_pmc p) @ M = L"
    and d: "drop (tw_curs r) (tw_img r) = item_bytes H Lc (F_pmc p) @ ys"
  shows "\<exists>a r'. ImageIOThaw_shift_pmc junk H r = Done (a, r') \<and> tw_img r' = tw_img r \<and> tw_pf r' = tw_pf r
    \<and> tw_curs r' \<le> length (tw_img r) \<and> drop (tw_curs r') (tw_img r) = ys
    \<and> tw_seen r' = map (new_pmc H) [0..<length (see H Lc (F_pmc p))] \<and> same_pmc H L p a"
proof -
  have num: "of_nat n + 1 < (2 ^ 62 :: u64)" "(of_nat n + 1 :: u64) \<noteq> 0" "unat (of_nat n :: u64) = n" if "n < 2 ^ 30" for n
  proof -
    have u: "unat (of_nat (n + 1) :: u64) = n + 1" using that by (intro unat_of_nat_small) simp
    have "unat (of_nat (n + 1) :: u64) < unat (2 ^ 62 :: u64)" unfolding u using that by simp
    then have "of_nat (n + 1) < (2 ^ 62 :: u64)" unfolding word_less_nat_alt .
    then show "of_nat n + 1 < (2 ^ 62 :: u64)" by (simp add: add.commute)
    have "(of_nat (n + 1) :: u64) \<noteq> 0" using u by (metis add_is_0 one_neq_zero unat_0)
    then show "(of_nat n + 1 :: u64) \<noteq> 0" by (simp add: add.commute)
    show "unat (of_nat n :: u64) = n" using that by (intro unat_of_nat_small) simp
  qed
  consider "is_PMCNULL H p" | "\<not> is_PMCNULL H p" "p \<in> set Lc" | "\<not> is_PMCNULL H p" "p \<notin> set Lc" by blast
  then show ?thesis
  proof cases
    case 1
    then have "drop (tw_curs r) (tw_img r) = store_word False 8 (PackID_new 0 enum_PackID_seen) @ ys" using d by simp
    from shift_integer_word [OF assms(1) this] 1 seen(1) show ?thesis
      by (intro exI [of _ "image_null H"] exI [of _ "r\<lparr>tw_curs := tw_curs r + 8\<rparr>"])
        (simp add: ImageIOThaw_shift_pmc_def Let_def PackID_flags PackID_parts(1) same_pmc_def)
  next
    case 2
    let ?i = "of_nat (rank Lc p) + 1 :: u64"
    have L: "rank Lc p < length Lc" "length Lc < 2 ^ 30" "p \<in> set L" "rank L p = rank Lc p"
      using 2 rank_in [of p Lc] rank_append [of p Lc M] seen(2) assms(4) by auto
    then have r: "rank Lc p < 2 ^ 30" by simp
    have "drop (tw_curs r) (tw_img r) = store_word False 8 (PackID_new ?i enum_PackID_seen) @ ys" using d 2 by simp
    note w = shift_integer_word [OF assms(1) this]
    have "unat (?i - 1) < length (tw_seen r)" "tw_seen r ! unat (?i - 1) = new_pmc H (rank Lc p)"
      using L(1) seen(1) num(3) [OF r] by simp_all
    then show ?thesis using w 2 seen(1) num(1,2) [OF r] L(3,4)
      by (intro exI [of _ "new_pmc H (rank Lc p)"] exI [of _ "r\<lparr>tw_curs := tw_curs r + 8\<rparr>"])
        (simp add: ImageIOThaw_shift_pmc_def Let_def PackID_flags PackID_parts(1) same_pmc_def)
  next
    case 3
    let ?i = "of_nat (length Lc) + 1 :: u64"
    have L: "length Lc < 2 ^ 30" "p \<in> set L" "rank L p = length Lc"
      using 3 rank_new [of p Lc] rank_append [of p "Lc @ [p]" M] seen(2) assms(4) by auto
    have "drop (tw_curs r) (tw_img r) = store_word False 8 (PackID_new ?i enum_PackID_normal) @ store_word False 8 (type_of_pmc H p) @ ys"
      using d 3 by simp
    note w1 = shift_integer_word [OF assms(1) this]
    let ?r1 = "r\<lparr>tw_curs := tw_curs r + 8\<rparr>"
    have "image_pf (tw_pf ?r1)" "drop (tw_curs ?r1) (tw_img ?r1) = store_word False 8 (type_of_pmc H p) @ ys"
      using assms(1) w1(2) by simp_all
    note w2 = shift_integer_word [OF this]
    let ?r2 = "?r1\<lparr>tw_curs := tw_curs ?r1 + 8, tw_seen := tw_seen r @ [new_pmc H (length Lc)], tw_todo := tw_todo r @ [?i - 1]\<rparr>"
    have ne: "enum_PackID_normal \<noteq> enum_PackID_seen" "enum_PackID_normal \<noteq> enum_PackID_pbc_backref"
      by (simp_all add: enum_PackID_normal_def enum_PackID_seen_def enum_PackID_pbc_backref_def)
    have "ImageIOThaw_shift_pmc junk H r = Done (new_pmc H (length Lc), ?r2)"
      using w1(1) w2(1) 3(1) assms(2) seen(1) num(1) [OF L(1)] ne
      by (simp add: ImageIOThaw_shift_pmc_def Let_def PackID_flags PackID_parts(1) not_le not_less)
    then show ?thesis using w2(2,3) 3 seen(1) L(2,3)
      by (intro exI [of _ "new_pmc H (length Lc)"] exI [of _ ?r2]) (simp add: same_pmc_def)
  qed
qed

text \<open>An item is shifted as it was pushed.\<close>

lemma reads_shift:
  assumes "image_pf pf" "strings_made junk fresh H pf img" "length img < 2 ^ 63" "length L < 2 ^ 30"
    and "reads H L pf img n r (x # xs)"
  shows "\<exists>y r'. shift_item (ImageIOThaw junk fresh H) r x = Done (y, r') \<and> reads H L pf img n r' xs
    \<and> thawed (same_string H) (same_pmc H L) x y"
proof -
  obtain Lc rest where a: "tw_img r = img" "tw_pf r = pf" "tw_curs r \<le> length img" "item_ok H x" "\<forall>x \<in> set xs. item_ok H x"
    "tw_seen r = map (new_pmc H) [0..<length Lc]" "foldl (see H) (see H Lc x) xs = L"
    "drop (tw_curs r) img = item_bytes H Lc x @ items_bytes H (see H Lc x) xs @ rest" "length rest = n"
    using assms(5) by (auto simp: reads_def)
  let ?ys = "items_bytes H (see H Lc x) xs @ rest"
  have step: "reads H L pf img n r' xs"
    if "tw_img r' = img" "tw_pf r' = pf" "tw_curs r' \<le> length img" "drop (tw_curs r') img = ?ys"
      "tw_seen r' = map (new_pmc H) [0..<length (see H Lc x)]" for r'
    using that a(5,7,9) unfolding reads_def by blast
  have pf: "image_pf (tw_pf r)" using assms(1) a(2) by simp
  show ?thesis
  proof (cases x)
    case (F_integer i)
    have "drop (tw_curs r) (tw_img r) = store_word False 8 i @ ?ys" using a(1,8) F_integer by simp
    from shift_integer_word [OF pf this] show ?thesis
      using step [of "r\<lparr>tw_curs := tw_curs r + 8\<rparr>"] a F_integer
      by (simp add: shift_item_def ImageIOThaw_def thawed_def)
  next
    case (F_string s)
    have "strings_made junk fresh H (tw_pf r) (tw_img r)" "length (tw_img r) < 2 ^ 63" "item_ok H (F_string s)"
      "tw_curs r \<le> length (tw_img r)"
      "drop (tw_curs r) (tw_img r) = string_bytes False (string_at H s) (string_flags H s) @ ?ys"
      using assms(2,3) a F_string by simp_all
    from shift_string_at [OF pf this] obtain y c where y: "ImageIOThaw_shift_string junk fresh H r = Done (y, r\<lparr>tw_curs := c\<rparr>)"
      "drop c (tw_img r) = ?ys" "c \<le> length (tw_img r)" "same_string H s y" by blast
    then show ?thesis using step [of "r\<lparr>tw_curs := c\<rparr>"] a F_string
      by (simp add: shift_item_def ImageIOThaw_def thawed_def)
  next
    case (F_pmc p)
    obtain M where M: "see H Lc x @ M = L" using see_prefix [of H "see H Lc x" xs] a(7) by auto
    have "item_ok H (F_pmc p)" "tw_curs r \<le> length (tw_img r)" "see H Lc (F_pmc p) @ M = L"
      "drop (tw_curs r) (tw_img r) = item_bytes H Lc (F_pmc p) @ ?ys"
      using a F_pmc M by simp_all
    from shift_pmc_at [OF pf this(1,2) assms(4) a(6) this(3,4), of junk] obtain y r' where
      "ImageIOThaw_shift_pmc junk H r = Done (y, r')" "tw_img r' = tw_img r" "tw_pf r' = tw_pf r"
      "tw_curs r' \<le> length (tw_img r)" "drop (tw_curs r') (tw_img r) = ?ys"
      "tw_seen r' = map (new_pmc H) [0..<length (see H Lc (F_pmc p))]" "same_pmc H L p y" by blast
    then show ?thesis using step [of r'] a F_pmc
      by (simp add: shift_item_def ImageIOThaw_def thawed_def)
  qed
qed

section \<open>The classes as images\<close>

text \<open>The parameters of an image that can be read: the packfile it belongs to and its bytes.\<close>

definition readable :: "u8 list \<Rightarrow> (nat \<Rightarrow> u8) \<Rightarrow> image_env \<Rightarrow> u64 list \<Rightarrow> packfile \<Rightarrow> u8 list \<Rightarrow> bool" where
  "readable junk fresh H L pf img \<longleftrightarrow> image_pf pf \<and> strings_made junk fresh H pf img \<and> length img < 2 ^ 63 \<and> length L < 2 ^ 30"

interpretation io: frozen_image "ImageIOFreeze fz_fresh H" "ImageIOThaw junk fresh H" "wrote H L0 pre"
  "\<lambda>r xs. readable junk fresh H L pf img \<and> reads H L pf img n r xs" "same_string H" "same_pmc H L"
  for fz_fresh H junk fresh L0 pre L pf img n
proof
  show "\<exists>w'. push_item (ImageIOFreeze fz_fresh H) w x = Done w' \<and> wrote H L0 pre w' (xs @ [x]) ys"
    if "wrote H L0 pre w xs (x # ys)" for w xs x ys using that by (rule wrote_push)
  show "\<exists>y r'. shift_item (ImageIOThaw junk fresh H) r x = Done (y, r')
      \<and> (readable junk fresh H L pf img \<and> reads H L pf img n r' xs) \<and> thawed (same_string H) (same_pmc H L) x y"
    if "readable junk fresh H L pf img \<and> reads H L pf img n r (x # xs)" for r x xs
    using that reads_shift [of pf junk fresh H img L n r x xs] by (auto simp: readable_def)
qed

end
