(* ===== verification/Image_IO_Claims.thy ===== *)
theory Image_IO_Claims
  imports Image_IO_Rep
begin

text \<open>
  A hash table frozen into an image and thawed from it again.  The strings and PMCs of the
  new table are new objects: the strings have the contents of the old ones, the PMCs are
  numbered as the old ones are.
\<close>

section \<open>Keys of new objects\<close>

text \<open>
  What the operations on strings say depends on the contents of the strings only, and the
  collector gives different addresses to different PMCs.
\<close>

definition strings_by_content :: "hash_env \<Rightarrow> image_env \<Rightarrow> bool" where
  "strings_by_content E H \<longleftrightarrow>
     (\<forall>a b. map_option restored (string_at H a) = map_option restored (string_at H b) \<longrightarrow>
        str_equal E a b \<and> str_hashval E a = str_hashval E b 
        \<and> hash_env.str_encoding E a = hash_env.str_encoding E b \<and> str_bytes E a = str_bytes E b)"

definition new_pmcs_ok :: "image_env \<Rightarrow> bool" where
  "new_pmcs_ok H \<longleftrightarrow> inj_on (new_pmc H) {..<2 ^ 30} \<and> (\<forall>n < 2 ^ 30. new_pmc H n \<noteq> image_null H)"

lemma restored_idem: "restored (restored s) = restored s"
  by (simp add: restored_def)

lemma same_string_compare:
  assumes "strings_by_content E H" "same_string H k k'" "key_type h \<in> {Hash_key_type_STRING, Hash_key_type_STRING_enc}"
  shows "hash_compare E h k k'"
proof -
  have "map_option restored (string_at H k) = map_option restored (string_at H k')"
    using assms(2) by (simp add: same_string_def option.map_comp comp_def restored_idem)
  with assms(1) have "str_equal E k k'" "str_hashval E k = str_hashval E k'" "hash_env.str_encoding E k = hash_env.str_encoding E k'"
    "str_bytes E k = str_bytes E k'" unfolding strings_by_content_def by blast+
  with assms(3) show ?thesis by (auto simp: hash_compare_def hash_compare_string_def hash_compare_string_enc_def)
qed

lemma same_pmc_inj:
  assumes "new_pmcs_ok H" "length L < 2 ^ 30" "k \<noteq> 0" "l \<noteq> 0" "same_pmc H L k p" "same_pmc H L l p"
  shows "k = l"
proof -
  have r: "rank L q < 2 ^ 30" if "q \<in> set L" for q using rank_in [OF that] assms(2) by simp
  consider "is_PMCNULL H k" "is_PMCNULL H l" | "\<not> is_PMCNULL H k" "\<not> is_PMCNULL H l"
    using assms(1,5,6) r by (fastforce simp: same_pmc_def new_pmcs_ok_def split: if_splits)
  then show ?thesis
  proof cases
    case 1
    then show ?thesis using assms(3,4) by (simp add: is_PMCNULL_def)
  next
    case 2
    then have kl: "k \<in> set L" "l \<in> set L" "new_pmc H (rank L k) = new_pmc H (rank L l)"
      using assms(5,6) by (auto simp: same_pmc_def)
    have "inj_on (new_pmc H) {..<2 ^ 30}" using assms(1) by (simp add: new_pmcs_ok_def)
    from inj_onD [OF this kl(3)] have "rank L k = rank L l" using r [OF kl(1)] r [OF kl(2)] by simp
    then show ?thesis using rank_in [OF kl(1)] rank_in [OF kl(2)] by metis
  qed
qed

text \<open>New keys are equal only when the old ones are.\<close>

lemma thawed_keys:
  assumes "keys_ok E h" "strings_by_content E H" "new_pmcs_ok H" "length L < 2 ^ 30" "scannable h"
    and kt: "key_type h \<in> {Hash_key_type_int, Hash_key_type_STRING, Hash_key_type_STRING_enc, Hash_key_type_PMC_ptr}"
    and kl: "k \<in># image_mset fst (hash_dict h)" "l \<in># image_mset fst (hash_dict h)"
    and th: "thawed (same_string H) (same_pmc H L) (frozen_key (key_type h) k) k'"
      "thawed (same_string H) (same_pmc H L) (frozen_key (key_type h) l) l'"
    and eq: "hash_compare E h k' l'"
  shows "hash_compare E h k l"
proof -
  consider "key_type h = Hash_key_type_int" | "key_type h \<in> {Hash_key_type_STRING, Hash_key_type_STRING_enc}"
    | "key_type h = Hash_key_type_PMC_ptr" using kt by blast
  then show ?thesis
  proof cases
    case 1
    then show ?thesis using th eq by (simp add: thawed_def frozen_key_def)
  next
    case 2
    then have s: "same_string H k k'" "same_string H l l'" using th by (auto simp: thawed_def frozen_key_def)
    have "hash_compare E h k k'" "hash_compare E h l l'"
      using same_string_compare [OF assms(2) s(1) 2] same_string_compare [OF assms(2) s(2) 2] .
    then show ?thesis using assms(1) eq unfolding keys_ok_def by blast
  next
    case 3
    then have "k' = l'" using eq by (simp add: hash_compare_def split: if_splits)
    moreover have "same_pmc H L k k'" "same_pmc H L l l'" using th 3 by (simp_all add: thawed_def frozen_key_def)
    moreover have "k \<noteq> 0" "l \<noteq> 0" using assms(5) kl 3 by (auto simp: scannable_def)
    ultimately have "k = l" using same_pmc_inj [OF assms(3,4)] by blast
    then show ?thesis by (simp add: hash_compare_def)
  qed
qed

section \<open>The size of a table in an image\<close>

definition entry_size :: "image_env \<Rightarrow> hash \<Rightarrow> u64 \<times> u64 \<Rightarrow> nat" where
  "entry_size H h e = item_size H (frozen_key (key_type h) (fst e)) + item_size H (frozen_value (entry_type h) (snd e))"

lemma item_size_8: "8 \<le> item_size H x"
proof (cases x)
  case (F_string s)
  then show ?thesis by (cases "string_at H s") (simp_all add: PF_size_string_def PF_size_strlen_def Let_def)
qed simp_all

lemma size_entries:
  "sum_list (map (item_size H) (frozen_entries (key_type h) (entry_type h) bs)) = (\<Sum>e \<in># mset (map entry_of bs). entry_size H h e)"
  by (induction bs) (simp_all add: entry_size_def add.assoc)

lemma size_table:
  "sum_list (map (item_size H) (frozen_hash h bs)) = 24 + (\<Sum>e \<in># mset (map entry_of bs). entry_size H h e)"
  by (simp only: frozen_hash_def map_append sum_list_append size_entries) simp

lemma size_dict: "size D \<le> (\<Sum>e \<in># D. entry_size H h e)"
proof (induction D)
  case (add e D)
  have "1 \<le> entry_size H h e" using item_size_8 [of H "frozen_key (key_type h) (fst e)"] by (simp add: entry_size_def)
  with add show ?case by simp
qed simp

lemma length_items_bytes: "\<forall>x \<in> set xs. item_ok H x \<Longrightarrow> length (items_bytes H L xs) \<le> sum_list (map (item_size H) xs)"
proof (induction xs arbitrary: L)
  case (Cons x xs)
  show ?case using Cons.IH [of "see H L x"] Cons.prems length_item_bytes [of H x L] by simp
qed simp

lemma frozen_hash_ok:
  assumes "\<forall>e \<in># mset (map entry_of bs). item_ok H (frozen_key (key_type h) (fst e)) \<and> item_ok H (frozen_value (entry_type h) (snd e))"
  shows "\<forall>x \<in> set (frozen_hash h bs). item_ok H x"
proof -
  have "\<forall>x \<in> set (frozen_entries (key_type h) (entry_type h) bs). item_ok H x"
    using assms by (induction bs) auto
  then show ?thesis by (auto simp: frozen_hash_def)
qed

section \<open>Freezing and thawing\<close>

text \<open>A reader of an image in which the PMCs \<open>L\<close> have been read, and what a table is thawed to.\<close>

definition image_reader :: "image_env \<Rightarrow> packfile \<Rightarrow> u64 list \<Rightarrow> u64 list \<Rightarrow> u8 list \<Rightarrow> nat \<Rightarrow> image_thaw" where
  "image_reader H pf L td img pos = \<lparr>tw_img = img, tw_curs = pos, tw_seen = map (new_pmc H) [0..<length L],
     tw_todo = td, tw_pf = pf\<rparr>"

definition thawed_table :: "image_env \<Rightarrow> u64 list \<Rightarrow> u64 \<Rightarrow> hash \<Rightarrow> hash \<Rightarrow> bool" where
  "thawed_table H L sd h h' \<longleftrightarrow> same_kind (Parrot_hash_create sd (entry_type h) (key_type h)) h'
     \<and> rel_mset (thawed_entry (same_string H) (same_pmc H L) (key_type h) (entry_type h)) (hash_dict h) (hash_dict h')"

text \<open>
  C21. Freezing a table appends to an image the number of its entries, the codes of its two
  types, and the keys and values in the order of iteration, growing the buffer as needed;
  thawing the image makes a well-formed table of the same types with one entry for each old
  one.  In these, integers are as they were, strings are new strings with the same contents,
  and PMCs are the new PMCs with the numbers of the old ones, one for one and \<open>PMCNULL\<close> for
  null; the reader then stands behind the table.  Keys and values are integers, strings or
  PMCs, the PMCs as keys by address; the strings are well-formed and their operations look
  at contents only, in particular they hash as before: the seed of the new table matters for
  the other keys.  The image is one of its own, below \<open>2 ^ 30\<close> bytes, read in the byte order in
  which it was written.  The contents of the new PMCs come later in the image.
\<close>

theorem Parrot_hash_freeze_thaw:
  assumes "hash_ok E h" and "scannable h"
    and "key_type h \<in> {Hash_key_type_int, Hash_key_type_STRING, Hash_key_type_STRING_enc, Hash_key_type_PMC_ptr}"
    and "entry_type h \<in> {enum_type_INTVAL, enum_type_STRING, enum_type_PMC}"
    and "strings_by_content E H" and "new_pmcs_ok H" and "image_pf pf" and "fz_rep L0 pre io"
    and "\<forall>e \<in># hash_dict h. item_ok H (frozen_key (key_type h) (fst e)) \<and> item_ok H (frozen_value (entry_type h) (snd e))"
    and "length pre + 24 + (\<Sum>e \<in># hash_dict h. entry_size H h e) < 2 ^ 30"
  shows "\<exists>bs io' L img. parrot_hash_iterate h = Some bs \<and> mset (map entry_of bs) = hash_dict h
    \<and> img = pre @ items_bytes H L0 (frozen_hash h bs)
    \<and> Parrot_hash_freeze (ImageIOFreeze fz_fresh H) h io = Done io' \<and> fz_rep L img io'
    \<and> (\<forall>rest td. strings_made junk fresh H pf (img @ rest) \<and> length rest < 2 ^ 62 \<longrightarrow>
        (\<exists>h' r'. Parrot_hash_thaw (ImageIOThaw junk fresh H) E sd (image_reader H pf L0 td (img @ rest) (length pre)) = Done (h', r')
          \<and> tw_curs r' = length img \<and> tw_seen r' = map (new_pmc H) [0..<length L]
          \<and> hash_ok E h' \<and> thawed_table H L sd h h'))"
proof -
  obtain bs where bs: "parrot_hash_iterate h = Some bs" "mset (map entry_of bs) = hash_dict h"
    using iterate_ok [OF assms(1,2)] by blast
  let ?xs = "frozen_hash h bs"
  let ?L = "foldl (see H) L0 ?xs" and ?img = "pre @ items_bytes H L0 ?xs"
  have fr: "freezable (key_type h) (entry_type h)" using assms(3,4) by blast
  have ok: "\<forall>x \<in> set ?xs. item_ok H x" by (rule frozen_hash_ok) (unfold bs(2), rule assms(9))
  have sz: "length pre + sum_list (map (item_size H) ?xs) < 2 ^ 30"
    using assms(10) unfolding size_table bs(2) by simp
  have "wrote H L0 pre io [] (?xs @ [])" using assms(8) ok sz by (simp add: wrote_def)
  from io.freeze [OF bs(1) fr this] obtain io' where
    io': "Parrot_hash_freeze (ImageIOFreeze fz_fresh H) h io = Done io'" "wrote H L0 pre io' ([] @ ?xs) []" by blast
  then have rep: "fz_rep ?L ?img io'" by (simp add: wrote_def)
  have img: "length ?img < 2 ^ 30" using length_items_bytes [OF ok, of L0] sz by simp
  then have L: "length ?L < 2 ^ 30" using rep by (simp add: fz_rep_def)
  have n: "size (hash_dict h) < 2 ^ 62" using size_dict [of "hash_dict h" H h] assms(10) by simp
  have keys: "keys_ok E h" using assms(1) by (simp add: hash_ok_def)
  have thaw: "\<exists>h' r'. Parrot_hash_thaw (ImageIOThaw junk fresh H) E sd (image_reader H pf L0 td (?img @ rest) (length pre)) = Done (h', r')
          \<and> tw_curs r' = length ?img \<and> tw_seen r' = map (new_pmc H) [0..<length ?L]
          \<and> hash_ok E h' \<and> thawed_table H ?L sd h h'"
    if made: "strings_made junk fresh H pf (?img @ rest)" and rest: "length rest < 2 ^ 62" for rest td
  proof -
    let ?r = "image_reader H pf L0 td (?img @ rest) (length pre)"
    have "readable junk fresh H ?L pf (?img @ rest)" using made rest img L assms(7) by (simp add: readable_def)
    moreover have "reads H ?L pf (?img @ rest) (length rest) ?r (?xs @ [])"
      unfolding reads_def image_reader_def using ok by auto
    ultimately have r: "readable junk fresh H ?L pf (?img @ rest) \<and> reads H ?L pf (?img @ rest) (length rest) ?r (?xs @ [])" by blast
    from io.thaw [OF assms(1) bs n fr _ r] thawed_keys [OF keys assms(5,6) L assms(2,3)] obtain h' r' where
      t: "Parrot_hash_thaw (ImageIOThaw junk fresh H) E sd ?r = Done (h', r')"
        "reads H ?L pf (?img @ rest) (length rest) r' []" "hash_ok E h'" "thawed_table H ?L sd h h'"
      unfolding thawed_table_def by metis
    have c: "tw_curs r' \<le> length (?img @ rest)" "tw_seen r' = map (new_pmc H) [0..<length ?L]"
      "length (drop (tw_curs r') (?img @ rest)) = length rest"
      using t(2) unfolding reads_def by auto
    then have "tw_curs r' = length ?img" by simp
    with t c(2) show ?thesis by blast
  qed
  show ?thesis
    by (intro exI [of _ bs] exI [of _ io'] exI [of _ ?L] exI [of _ ?img] conjI bs io'(1) rep refl allI impI, rule thaw) simp_all
qed

text \<open>
  A table with one string for a key, and a heap that has at 1000 and above the strings that
  are read from its image.
\<close>

definition key_string :: parrot_string where
  "key_string = \<lparr>strstart = [107], bufused = 1, strlen = 1, hashval = 0, encoding = Parrot_ascii_encoding_ptr\<rparr>"

definition own_packfile :: packfile where
  "own_packfile = \<lparr>pf_header = \<lparr>h_magic = [], h_wordsize = 8, h_byteorder = 0, h_floattype = 0, h_major = 3, h_minor = 11,
       h_patch = 0, h_bc_major = 0, h_bc_minor = 0, h_uuid_type = 0, h_uuid_size = 0, h_uuid_data = None, h_dir_format = 0\<rparr>,
     need_wordsize = False, need_endianize = False, fetch_op = Some Fetch_op_le_8, fetch_iv = Some Fetch_op_le_8,
     fetch_nv = None\<rparr>"

definition heap_before :: image_env where
  "heap_before = \<lparr>string_at = \<lambda>a. if a = 16 then Some key_string else None, string_flags = \<lambda>_. (False, False),
     image_null = 1, type_of_pmc = \<lambda>_. 1, n_vtable_max = 1, new_string = \<lambda>p. of_nat p + 1000, new_pmc = \<lambda>n. of_nat n + 2\<rparr>"

definition key_items :: "frozen list" where
  "key_items = [F_integer 1, F_integer (key_type_code Hash_key_type_STRING), F_integer (data_type_code enum_type_INTVAL),
     F_string 16, F_integer 7]"

definition key_image :: "u8 list" where
  "key_image = items_bytes heap_before [] key_items"

definition heap_after :: image_env where
  "heap_after = heap_before\<lparr>string_at := \<lambda>a. if a = 16 then Some key_string
     else case PF_fetch_string False [] (\<lambda>_. 0) (Some own_packfile) key_image (unat (a - 1000)) of
            Done (t, _) \<Rightarrow> t | _ \<Rightarrow> None\<rparr>"

definition string_contents :: "image_env \<Rightarrow> u64 \<Rightarrow> u8 list" where
  "string_contents H a = (case map_option restored (string_at H a) of None \<Rightarrow> [] | Some s \<Rightarrow> strstart s)"

definition contents_env :: "image_env \<Rightarrow> hash_env" where
  "contents_env H = plain_env\<lparr>str_hashval := \<lambda>a. of_nat (length (string_contents H a)), str_bytes := string_contents H,
     str_equal := \<lambda>a b. string_contents H a = string_contents H b\<rparr>"

definition key_table :: hash where
  "key_table = the (hash_put (contents_env heap_after) (Parrot_hash_create 0 enum_type_INTVAL Hash_key_type_STRING) 16 7)"

lemma contents_env_strings: "strings_by_content (contents_env H) H"
  unfolding strings_by_content_def
  by (intro allI impI) (simp only: contents_env_def plain_env_def string_contents_def hash_env.simps simp_thms)

lemma contents_env_keys: "key_type h = Hash_key_type_STRING \<Longrightarrow> keys_ok (contents_env H) h"
  by (auto simp: keys_ok_def hash_compare_def hash_compare_string_def key_hash_def string_match_def contents_env_def plain_env_def)

lemma key_table:
  "hash_ok (contents_env heap_after) key_table" "hash_dict key_table = {#(16, 7)#}"
  "key_type key_table = Hash_key_type_STRING" "entry_type key_table = enum_type_INTVAL"
proof -
  let ?E = "contents_env heap_after" and ?g = "Parrot_hash_create 0 enum_type_INTVAL Hash_key_type_STRING"
  have kt: "key_type ?g = Hash_key_type_STRING" "entry_type ?g = enum_type_INTVAL"
    by (simp_all add: Parrot_hash_create_def)
  have b: "hash_blank ?g" by (simp add: hash_blank_def Parrot_hash_create_def)
  then have "hash_ok ?E ?g" "hash_dict ?g = {#}"
    using contents_env_keys [OF kt(1)] dict_blank by (auto simp: hash_ok_def)
  from put_ok [OF this(1), of 16 7] this(2) obtain h' r where h: "Parrot_hash_put ?E ?g 16 7 = Some (h', r)"
    "hash_ok ?E h'" "same_kind ?g h'" "hash_dict h' = {#(16, 7)#}" by (auto simp: put_kvs_def)
  then have "h' = key_table" by (simp add: key_table_def)
  with h kt show "hash_ok ?E key_table" "hash_dict key_table = {#(16, 7)#}"
    "key_type key_table = Hash_key_type_STRING" "entry_type key_table = enum_type_INTVAL" by (simp_all add: same_kind_def)
qed

lemma key_heap:
  "string_at heap_after 16 = Some key_string" "image_pf own_packfile" "new_pmcs_ok heap_after"
  "strings_made [] (\<lambda>_. 0) heap_after own_packfile key_image" "\<exists>cs. chars key_string cs"
  "items_bytes heap_after [] key_items = key_image"
proof -
  show s: "string_at heap_after 16 = Some key_string" by (simp add: heap_after_def)
  show "image_pf own_packfile" unfolding image_pf_def reads_words_def
    by (simp, rule exI [of _ own_packfile]) (simp add: PackFile_assign_transforms_def own_packfile_def written_by_def Let_def)
  have u: "unat (of_nat n :: u64) = n" if "n < 2 ^ 40" for n using that by (intro unat_of_nat_small) simp
  show "new_pmcs_ok heap_after" unfolding new_pmcs_ok_def
  proof (intro conjI inj_onI allI impI)
    show "x = y" if "x \<in> {..<2 ^ 30}" "y \<in> {..<2 ^ 30}" "new_pmc heap_after x = new_pmc heap_after y" for x y
    proof -
      have "(of_nat x :: u64) = of_nat y" using that(3) by (simp add: heap_after_def heap_before_def)
      then have "unat (of_nat x :: u64) = unat (of_nat y :: u64)" by simp
      then show "x = y" using u [of x] u [of y] that(1,2) by simp
    qed
    show "new_pmc heap_after n \<noteq> image_null heap_after" if "n < 2 ^ 30" for n
    proof -
      have "unat (of_nat (n + 1) :: u64) = n + 1" using u [of "n + 1"] that by simp
      then have "(of_nat (n + 1) :: u64) \<noteq> 0" by (metis add_is_0 one_neq_zero unat_0)
      then show ?thesis by (simp add: heap_after_def heap_before_def add.commute)
    qed
  qed
  have l: "length key_image = 56"
    by (simp add: key_image_def key_items_def heap_before_def key_string_def string_bytes_def padding_def)
  show "strings_made [] (\<lambda>_. 0) heap_after own_packfile key_image" unfolding strings_made_def
  proof (intro allI impI)
    fix p t flags c
    assume p: "p < length key_image"
      and f: "PF_fetch_string False [] (\<lambda>_. 0) (Some own_packfile) key_image p = Done (t, flags, c)"
    have "unat (of_nat (p + 1000) :: u64) = p + 1000" using p l by (intro u) simp
    then have "unat (of_nat (p + 1000) :: u64) \<noteq> unat (16 :: u64)" by (simp only: unat_numeral) simp
    then have "(of_nat (p + 1000) :: u64) \<noteq> 16" by (metis (no_types))
    then have "of_nat p + 1000 \<noteq> (16 :: u64)" by (simp add: add.commute)
    moreover have "unat (of_nat p :: u64) = p" using p l by (intro u) simp
    ultimately show "string_at heap_after (new_string heap_after p) = t"
      using f by (simp add: heap_after_def heap_before_def)
  qed
  have "chars key_string [107]" by (simp add: chars_iff key_string_def fixed8_limit_def)
  then show "\<exists>cs. chars key_string cs" by blast
  show "items_bytes heap_after [] key_items = key_image"
    by (simp add: key_image_def key_items_def s heap_before_def heap_after_def)
qed

theorem Parrot_hash_freeze_thaw_witness:
  "\<exists>io' h' r' k.
     Parrot_hash_freeze (ImageIOFreeze (\<lambda>_. 0) heap_after) key_table
       \<lparr>fz_buffer = [], fz_pos = 0, fz_seen = Map.empty, fz_todo = [], fz_id = 0\<rparr> = Done io'
     \<and> take (fz_pos io') (fz_buffer io') = key_image
     \<and> Parrot_hash_thaw (ImageIOThaw [] (\<lambda>_. 0) heap_after) (contents_env heap_after) 3
         (image_reader heap_after own_packfile [] [] key_image 0) = Done (h', r')
     \<and> hash_dict h' = {#(k, 7)#} \<and> string_at heap_after k = Some (restored key_string)"
proof -
  let ?io = "\<lparr>fz_buffer = [], fz_pos = 0, fz_seen = Map.empty, fz_todo = [], fz_id = 0\<rparr>"
  have a: "scannable key_table" "fz_rep [] [] ?io"
    "key_type key_table \<in> {Hash_key_type_int, Hash_key_type_STRING, Hash_key_type_STRING_enc, Hash_key_type_PMC_ptr}"
    "entry_type key_table \<in> {enum_type_INTVAL, enum_type_STRING, enum_type_PMC}"
    by (simp_all add: scannable_def key_table fz_rep_def fz_bytes_def seen_map_def)
  have w1: "\<forall>e \<in># hash_dict key_table. item_ok heap_after (frozen_key (key_type key_table) (fst e))
      \<and> item_ok heap_after (frozen_value (entry_type key_table) (snd e))"
    using key_heap(1,5) by (simp add: key_table frozen_key_def frozen_value_def)
  have w2: "length ([] :: u8 list) + 24 + (\<Sum>e \<in># hash_dict key_table. entry_size heap_after key_table e) < 2 ^ 30"
    using key_heap(1) by (simp add: key_table entry_size_def frozen_key_def frozen_value_def PF_size_string_def PF_size_strlen_def key_string_def)
  from Parrot_hash_freeze_thaw [OF key_table(1) a(1,3,4) contents_env_strings key_heap(3,2) a(2) w1 w2,
      of "\<lambda>_. 0" "[]" "\<lambda>_. 0" 3] obtain bs io' L img where 1: "mset (map entry_of bs) = hash_dict key_table"
    "img = [] @ items_bytes heap_after [] (frozen_hash key_table bs)"
    "Parrot_hash_freeze (ImageIOFreeze (\<lambda>_. 0) heap_after) key_table ?io = Done io'" "fz_rep L img io'"
    "\<forall>rest td. strings_made [] (\<lambda>_. 0) heap_after own_packfile (img @ rest) \<and> length rest < 2 ^ 62 \<longrightarrow>
        (\<exists>h' r'. Parrot_hash_thaw (ImageIOThaw [] (\<lambda>_. 0) heap_after) (contents_env heap_after) 3
            (image_reader heap_after own_packfile [] td (img @ rest) (length ([] :: u8 list))) = Done (h', r')
          \<and> tw_curs r' = length img \<and> tw_seen r' = map (new_pmc heap_after) [0..<length L]
          \<and> hash_ok (contents_env heap_after) h' \<and> thawed_table heap_after L 3 key_table h')"
    by (elim exE conjE)
  obtain b where b: "bs = [b]" "b_key b = 16" "b_value b = 7"
    using 1(1) key_table(2) by (cases bs) auto
  have "entries key_table = 1" using lookup_ok [OF key_table(1)] by (simp add: key_table(2) Parrot_hash_size_def)
  then have "frozen_hash key_table bs = key_items"
    by (simp add: frozen_hash_def key_items_def b key_table frozen_key_def frozen_value_def)
  then have img: "img = key_image" using 1(2) key_heap(6) by simp
  then have "strings_made [] (\<lambda>_. 0) heap_after own_packfile (img @ [])" using key_heap(4) by simp
  then obtain h' r' where
    2: "Parrot_hash_thaw (ImageIOThaw [] (\<lambda>_. 0) heap_after) (contents_env heap_after) 3
         (image_reader heap_after own_packfile [] [] key_image 0) = Done (h', r')"
      "rel_mset (thawed_entry (same_string heap_after) (same_pmc heap_after L) Hash_key_type_STRING enum_type_INTVAL)
        {#(16, 7)#} (hash_dict h')" using 1(5) [rule_format, of "[]" "[]"] by (auto simp: img key_table thawed_table_def)
  from 2(2) obtain e where e: "hash_dict h' = {#e#}"
    "thawed_entry (same_string heap_after) (same_pmc heap_after L) Hash_key_type_STRING enum_type_INTVAL (16, 7) e"
    by (auto simp: rel_mset_def list_all2_Cons1 dest: sym)
  then have "snd e = 7" "string_at heap_after (fst e) = Some (restored key_string)"
    by (simp_all add: thawed_entry_def thawed_def frozen_key_def frozen_value_def same_string_def key_heap(1))
  moreover have "take (fz_pos io') (fz_buffer io') = key_image" using 1(4) img by (simp add: fz_rep_def fz_bytes_def)
  ultimately show ?thesis using 1(3) 2(1) e(1) by (intro exI [of _ io'] exI [of _ h'] exI [of _ r'] exI [of _ "fst e"]) (cases e, simp)
qed

end
