(* ===== verification/Util_Sort.thy ===== *)
theory Util_Sort
  imports Parrot_Base "HOL-Library.Multiset"
begin

text \<open>
  \<open>Parrot_util_quicksort\<close> of \<open>src/utils.c\<close>, the sort of the array classes.  The array is the
  list \<open>data\<close>, the argument of a call that points into it is the index \<open>lo\<close>.  \<open>cmp\<close> is
  \<open>COMPARE\<close>: what it returns depends on user code and need not be an order.  \<open>stack\<close> is the
  number of nested calls that the C stack has room for.
\<close>

section \<open>The code\<close>

definition swap :: "'a list \<Rightarrow> nat \<Rightarrow> nat \<Rightarrow> 'a list option" where
  "swap data i j = do { temp \<leftarrow> rd data i; y \<leftarrow> rd data j; data \<leftarrow> wr data i y; wr data j temp }"

text \<open>\<open>do --j; while (j > 0 && COMPARE(data[j], data[0]) > 0)\<close>\<close>

fun scan_down :: "('a \<Rightarrow> 'a \<Rightarrow> int) \<Rightarrow> 'a list \<Rightarrow> nat \<Rightarrow> nat \<Rightarrow> nat option" where
  "scan_down cmp data lo 0 = None"
| "scan_down cmp data lo (Suc j) =
     (if j > 0
      then do {
        x \<leftarrow> rd data (lo + j);
        p \<leftarrow> rd data lo;
        if cmp x p > 0 then scan_down cmp data lo j else Some j
      }
      else Some j)"

text \<open>\<open>do ++i; while (i < j && COMPARE(data[i], data[0]) < 0)\<close>\<close>

function scan_up :: "('a \<Rightarrow> 'a \<Rightarrow> int) \<Rightarrow> 'a list \<Rightarrow> nat \<Rightarrow> nat \<Rightarrow> nat \<Rightarrow> nat option" where
  "scan_up cmp data lo j i =
     (if i + 1 < j
      then do {
        x \<leftarrow> rd data (lo + (i + 1));
        p \<leftarrow> rd data lo;
        if cmp x p < 0 then scan_up cmp data lo j (i + 1) else Some (i + 1)
      }
      else Some (i + 1))"
  by pat_completeness auto
termination
  by (relation "measure (\<lambda>(cmp, data, lo, j, i). j - i)") auto

declare scan_up.simps [simp del]

text \<open>The loop between the swaps; it gives the position of the pivot.\<close>

partial_function (option) partition_from ::
  "('a \<Rightarrow> 'a \<Rightarrow> int) \<Rightarrow> 'a list \<Rightarrow> nat \<Rightarrow> nat \<Rightarrow> nat \<Rightarrow> ('a list \<times> nat) option" where
  "partition_from cmp data lo i j =
     do {
       j \<leftarrow> scan_down cmp data lo j;
       i \<leftarrow> scan_up cmp data lo j i;
       if i \<ge> j then Some (data, j)
       else do { data \<leftarrow> swap data (lo + i) (lo + j); partition_from cmp data lo i j }
     }"

declare partition_from.simps [code]

text \<open>The larger part is left to the loop, the smaller one to a nested call.\<close>

partial_function (option) Parrot_util_quicksort ::
  "nat \<Rightarrow> ('a \<Rightarrow> 'a \<Rightarrow> int) \<Rightarrow> 'a list \<Rightarrow> nat \<Rightarrow> nat \<Rightarrow> 'a list option" where
  "Parrot_util_quicksort stack cmp data lo n =
     (if n > 1
      then do {
        data \<leftarrow> swap data lo (lo + n div 2);
        (data, j) \<leftarrow> partition_from cmp data lo 0 n;
        data \<leftarrow> swap data (lo + j) lo;
        let ln = j; let rn = n - (j + 1);
        if ln < rn
        then do {
          data \<leftarrow> (case stack of 0 \<Rightarrow> None | Suc stack \<Rightarrow> Parrot_util_quicksort stack cmp data lo ln);
          Parrot_util_quicksort stack cmp data (lo + (j + 1)) rn
        }
        else do {
          data \<leftarrow> (case stack of 0 \<Rightarrow> None | Suc stack \<Rightarrow> Parrot_util_quicksort stack cmp data (lo + (j + 1)) rn);
          Parrot_util_quicksort stack cmp data lo ln
        }
      }
      else Some data)"

declare Parrot_util_quicksort.simps [code]

section \<open>A segment of the array\<close>

lemma rd_segment: "k < length xs \<Longrightarrow> rd (pre @ xs @ post) (length pre + k) = Some (xs ! k)"
  by (simp add: rd_def nth_append)

lemma wr_segment: "k < length xs \<Longrightarrow> wr (pre @ xs @ post) (length pre + k) v = Some (pre @ xs[k := v] @ post)"
  by (simp add: wr_def list_update_append)

lemma swap_segment:
  "i < length xs \<Longrightarrow> j < length xs \<Longrightarrow>
    swap (pre @ xs @ post) (length pre + i) (length pre + j) = Some (pre @ xs[i := xs ! j, j := xs ! i] @ post)"
  by (simp add: swap_def rd_segment wr_segment del: rd_in wr_in)

lemma rd_segment_0: "xs \<noteq> [] \<Longrightarrow> rd (pre @ xs @ post) (length pre) = Some (xs ! 0)"
  using rd_segment [of 0 xs pre post] by simp

section \<open>The inner loops\<close>

lemma scan_down_stops:
  assumes "0 < j" "j \<le> length xs"
  shows "\<exists>j' < j. scan_down cmp (pre @ xs @ post) (length pre) j = Some j'
    \<and> (0 < j' \<longrightarrow> \<not> cmp (xs ! j') (xs ! 0) > 0) \<and> (\<forall>k. j' < k \<longrightarrow> k < j \<longrightarrow> cmp (xs ! k) (xs ! 0) > 0)"
  using assms
proof (induction j)
  case (Suc j)
  show ?case
  proof (cases "0 < j \<and> cmp (xs ! j) (xs ! 0) > 0")
    case True
    then obtain j' where j': "j' < j" "scan_down cmp (pre @ xs @ post) (length pre) j = Some j'"
      "0 < j' \<longrightarrow> \<not> cmp (xs ! j') (xs ! 0) > 0" "\<forall>k. j' < k \<longrightarrow> k < j \<longrightarrow> cmp (xs ! k) (xs ! 0) > 0"
      using Suc by auto
    have "cmp (xs ! k) (xs ! 0) > 0" if "j' < k" "k < Suc j" for k
      using j'(4) True that by (cases "k = j") auto
    moreover have "xs \<noteq> []" using Suc.prems by auto
    ultimately show ?thesis using j' True Suc.prems
      by (intro exI [of _ j']) (simp add: rd_segment rd_segment_0 del: rd_in)
  next
    case False
    moreover have "xs \<noteq> []" using Suc.prems by auto
    ultimately show ?thesis using Suc.prems
      by (intro exI [of _ j]) (auto simp: rd_segment rd_segment_0 simp del: rd_in)
  qed
qed simp

lemma scan_up_stops:
  assumes "j < length xs"
  shows "\<exists>i' > i. scan_up cmp (pre @ xs @ post) (length pre) j i = Some i' \<and> (i' \<le> j \<or> i' = i + 1)
    \<and> (i' < j \<longrightarrow> \<not> cmp (xs ! i') (xs ! 0) < 0) \<and> (\<forall>k. i < k \<longrightarrow> k < i' \<longrightarrow> cmp (xs ! k) (xs ! 0) < 0)"
proof (induction "j - i" arbitrary: i rule: less_induct)
  case less
  have nonempty: "xs \<noteq> []" using assms by auto
  show ?case
  proof (cases "i + 1 < j \<and> cmp (xs ! (i + 1)) (xs ! 0) < 0")
    case True
    then have "j - (i + 1) < j - i" by auto
    from less [OF this] obtain i' where i': "i + 1 < i'" "scan_up cmp (pre @ xs @ post) (length pre) j (i + 1) = Some i'"
      "i' \<le> j \<or> i' = i + 1 + 1" "i' < j \<longrightarrow> \<not> cmp (xs ! i') (xs ! 0) < 0"
      "\<forall>k. i + 1 < k \<longrightarrow> k < i' \<longrightarrow> cmp (xs ! k) (xs ! 0) < 0" by blast
    have "cmp (xs ! k) (xs ! 0) < 0" if "i < k" "k < i'" for k
      using i'(5) True that by (cases "k = i + 1") auto
    moreover have "scan_up cmp (pre @ xs @ post) (length pre) j i = Some i'"
      using True assms i'(2) nonempty by (subst scan_up.simps) (auto simp: rd_segment rd_segment_0 simp del: rd_in add_Suc_right)
    ultimately show ?thesis using i' True by (intro exI [of _ i']) auto
  next
    case False
    then have "scan_up cmp (pre @ xs @ post) (length pre) j i = Some (i + 1)"
      using assms nonempty by (subst scan_up.simps) (auto simp: rd_segment rd_segment_0 simp del: rd_in add_Suc_right)
    then show ?thesis using False by (intro exI [of _ "i + 1"]) auto
  qed
qed

section \<open>Partitioning\<close>

text \<open>Behind \<open>i\<close> nothing is larger than the pivot, from \<open>j\<close> on nothing is smaller.\<close>

definition parted :: "('a \<Rightarrow> 'a \<Rightarrow> int) \<Rightarrow> 'a list \<Rightarrow> nat \<Rightarrow> nat \<Rightarrow> bool" where
  "parted cmp xs i j \<longleftrightarrow> (\<forall>k. 0 < k \<longrightarrow> k \<le> i \<longrightarrow> \<not> cmp (xs ! k) (xs ! 0) > 0)
     \<and> (\<forall>k. j \<le> k \<longrightarrow> k < length xs \<longrightarrow> \<not> cmp (xs ! k) (xs ! 0) < 0)"



lemma mset_swap_both:
  assumes "i < length xs" "j < length xs"
  shows "mset (xs[i := xs ! j, j := xs ! i]) = mset xs"
proof (cases "i = j")
  case False
  then have "xs[i := xs ! j, j := xs ! i] = xs[j := xs ! i, i := xs ! j]" by (rule list_update_swap)
  then show ?thesis using mset_swap [OF assms(2,1)] by simp
qed simp

lemma partition_from_parts:
  assumes "i < j" "j \<le> length xs" "parted cmp xs i j"
  shows "\<exists>ys j'. partition_from cmp (pre @ xs @ post) (length pre) i j = Some (pre @ ys @ post, j')
    \<and> j' < length xs \<and> mset ys = mset xs \<and> ys ! 0 = xs ! 0 \<and> parted cmp ys j' (j' + 1)"
  using assms
proof (induction j arbitrary: xs i rule: less_induct)
  case (less j)
  obtain j' where j': "j' < j" "scan_down cmp (pre @ xs @ post) (length pre) j = Some j'"
    "0 < j' \<longrightarrow> \<not> cmp (xs ! j') (xs ! 0) > 0" "\<forall>k. j' < k \<longrightarrow> k < j \<longrightarrow> cmp (xs ! k) (xs ! 0) > 0"
    using scan_down_stops [of j xs cmp pre post] less.prems by auto
  have lj: "j' < length xs" using j'(1) less.prems by simp
  from scan_up_stops [OF lj, of i cmp pre post] obtain i' where i': "i < i'" 
    "scan_up cmp (pre @ xs @ post) (length pre) j' i = Some i'" "i' \<le> j' \<or> i' = i + 1"
    "i' < j' \<longrightarrow> \<not> cmp (xs ! i') (xs ! 0) < 0" "\<forall>k. i < k \<longrightarrow> k < i' \<longrightarrow> cmp (xs ! k) (xs ! 0) < 0" by blast
  have below: "\<not> cmp (xs ! k) (xs ! 0) > 0" if "0 < k" "k < i'" for k
    using that i'(5) less.prems(3) unfolding parted_def by (cases "k \<le> i") (auto simp: not_le dest!: spec [of _ k])
  have above: "\<not> cmp (xs ! k) (xs ! 0) < 0" if "j' < k" "k < length xs" for k
    using that j'(4) less.prems(3) unfolding parted_def by (cases "j \<le> k") (auto simp: not_le dest!: spec [of _ k])
  show ?case
  proof (cases "i' \<ge> j'")
    case True
    have "parted cmp xs j' (j' + 1)" unfolding parted_def
    proof (intro conjI allI impI)
      show "\<not> cmp (xs ! k) (xs ! 0) > 0" if "0 < k" "k \<le> j'" for k
        using below [of k] j'(3) that True by (cases "k = j'") auto
    qed (use above in auto)
    then show ?thesis using True j'(2) i'(2) lj by (subst partition_from.simps) auto
  next
    case False
    let ?xs = "xs[i' := xs ! j', j' := xs ! i']"
    have swap: "swap (pre @ xs @ post) (length pre + i') (length pre + j') = Some (pre @ ?xs @ post)"
      by (rule swap_segment) (use False lj in simp_all)
    have first: "?xs ! 0 = xs ! 0" using i'(1) False by simp
    have "parted cmp ?xs i' j'" unfolding parted_def first
    proof (intro conjI allI impI)
      show "\<not> cmp (?xs ! k) (xs ! 0) > 0" if "0 < k" "k \<le> i'" for k
        using below [of k] j'(3) that False lj by (cases "k = i'") auto
      show "\<not> cmp (?xs ! k) (xs ! 0) < 0" if "j' \<le> k" "k < length ?xs" for k
        using above [of k] i'(4) that False lj by (cases "k = j'") auto
    qed
    then obtain ys l where "partition_from cmp (pre @ ?xs @ post) (length pre) i' j' = Some (pre @ ys @ post, l)"
      "l < length xs" "mset ys = mset xs" "ys ! 0 = xs ! 0" "parted cmp ys l (l + 1)"
      using less.IH [OF j'(1), of i' ?xs] False lj first mset_swap_both [of i' xs j'] by auto
    then show ?thesis using False j'(2) i'(2) swap by (subst partition_from.simps) auto
  qed
qed

section \<open>Sorting\<close>

text \<open>What it takes for \<open>cmp\<close> to be a comparison of the elements in \<open>A\<close>.\<close>

definition comparison_on :: "'a set \<Rightarrow> ('a \<Rightarrow> 'a \<Rightarrow> int) \<Rightarrow> bool" where
  "comparison_on A cmp \<longleftrightarrow> (\<forall>x \<in> A. \<forall>y \<in> A. cmp x y < 0 \<longleftrightarrow> cmp y x > 0)
     \<and> (\<forall>x \<in> A. \<forall>y \<in> A. \<forall>z \<in> A. cmp x y \<le> 0 \<longrightarrow> cmp y z \<le> 0 \<longrightarrow> cmp x z \<le> 0)"

abbreviation in_order :: "('a \<Rightarrow> 'a \<Rightarrow> int) \<Rightarrow> 'a list \<Rightarrow> bool" where
  "in_order cmp \<equiv> sorted_wrt (\<lambda>x y. cmp x y \<le> 0)"

text \<open>The array after the pivot is put between the parts.\<close>

lemma parted_swap:
  assumes j: "j < length ys" and p: "parted cmp ys j (j + 1)"
  shows "\<exists>ls p rs. ys[j := ys ! 0, 0 := ys ! j] = ls @ p # rs \<and> length ls = j
    \<and> (\<forall>x \<in> set ls. \<not> cmp x p > 0) \<and> (\<forall>x \<in> set rs. \<not> cmp x p < 0)"
proof -
  let ?zs = "ys[j := ys ! 0, 0 := ys ! j]"
  have z: "?zs = take j ?zs @ ?zs ! j # drop (Suc j) ?zs" by (rule id_take_nth_drop) (use j in simp)
  have pj: "?zs ! j = ys ! 0" using j by (cases j) auto
  have "\<not> cmp x (ys ! 0) > 0" if "x \<in> set (take j ?zs)" for x
  proof -
    from that obtain k where "k < j" "x = ?zs ! k" by (auto simp: in_set_conv_nth)
    moreover have "ys \<noteq> []" using j by auto
    ultimately show ?thesis using p j unfolding parted_def by (cases k) auto
  qed
  moreover have "\<not> cmp x (ys ! 0) < 0" if "x \<in> set (drop (Suc j) ?zs)" for x
  proof -
    from that obtain k where "k < length ys - Suc j" "x = ?zs ! (Suc j + k)" by (auto simp: in_set_conv_nth)
    moreover from this have "Suc j + k < length ys" by simp
    ultimately show ?thesis using p unfolding parted_def by auto
  qed
  ultimately show ?thesis using z pj j by (intro exI [of _ "take j ?zs"] exI [of _ "?zs ! j"] exI [of _ "drop (Suc j) ?zs"]) auto
qed

lemma in_order_parts:
  assumes c: "comparison_on (insert p (set ls \<union> set rs)) cmp" and o: "in_order cmp ls" "in_order cmp rs"
    and l: "\<forall>x \<in> set ls. \<not> cmp x p > 0" and r: "\<forall>x \<in> set rs. \<not> cmp x p < 0"
  shows "in_order cmp (ls @ p # rs)"
proof -
  have r': "cmp p x \<le> 0" if "x \<in> set rs" for x
    using that r c unfolding comparison_on_def by (metis (no_types, lifting) UnCI insertCI not_le)
  moreover have "cmp x y \<le> 0" if "x \<in> set ls" "y \<in> set rs" for x y
    using that r' l c unfolding comparison_on_def by (metis (no_types, lifting) UnCI insertCI not_le)
  ultimately show ?thesis using o l by (auto simp: sorted_wrt_append not_less)
qed

text \<open>One round of the loop up to the calls: the partition of what is to be sorted.\<close>

lemma quicksort_round:
  assumes "length xs > 1"
  shows "\<exists>ls p rs. mset (ls @ p # rs) = mset xs
    \<and> (\<forall>x \<in> set ls. \<not> cmp x p > 0) \<and> (\<forall>x \<in> set rs. \<not> cmp x p < 0)
    \<and> Parrot_util_quicksort stack cmp (pre @ xs @ post) (length pre) (length xs) =
      (if length ls < length rs
       then do {
         data \<leftarrow> (case stack of 0 \<Rightarrow> None
           | Suc stack \<Rightarrow> Parrot_util_quicksort stack cmp (pre @ ls @ (p # rs @ post)) (length pre) (length ls));
         Parrot_util_quicksort stack cmp data (length pre + (length ls + 1)) (length rs)
       }
       else do {
         data \<leftarrow> (case stack of 0 \<Rightarrow> None
           | Suc stack \<Rightarrow> Parrot_util_quicksort stack cmp ((pre @ ls @ [p]) @ rs @ post) (length pre + (length ls + 1)) (length rs));
         Parrot_util_quicksort stack cmp data (length pre) (length ls)
       })"
proof -
  let ?h = "length xs div 2"
  let ?xs = "xs[0 := xs ! ?h, ?h := xs ! 0]"
  have h: "?h < length xs" "0 < length xs" using assms by auto
  have s1: "swap (pre @ xs @ post) (length pre) (length pre + ?h) = Some (pre @ ?xs @ post)"
    using swap_segment [OF h(2,1), of pre post] by simp
  have "parted cmp ?xs 0 (length xs)" by (simp add: parted_def)
  then obtain ys j where p: "partition_from cmp (pre @ ?xs @ post) (length pre) 0 (length xs) = Some (pre @ ys @ post, j)"
    "j < length xs" "mset ys = mset xs" "parted cmp ys j (j + 1)"
    using partition_from_parts [of 0 "length xs" ?xs cmp pre post] h(2) mset_swap_both [OF h(2,1)] by auto
  have len: "length ys = length xs" using p(3) by (rule mset_eq_length)
  obtain ls q rs where parts: "ys[j := ys ! 0, 0 := ys ! j] = ls @ q # rs" "length ls = j"
    "\<forall>x \<in> set ls. \<not> cmp x q > 0" "\<forall>x \<in> set rs. \<not> cmp x q < 0"
    using parted_swap [OF _ p(4)] p(2) len by auto
  have s2: "swap (pre @ ys @ post) (length pre + j) (length pre) = Some (pre @ (ls @ q # rs) @ post)"
    using swap_segment [of j ys 0 pre post] p(2) len parts(1) h(2) by (simp del: length_0_conv)
  have m: "mset (ls @ q # rs) = mset xs" using mset_swap_both [of j ys 0] p(2,3) len h(2) parts(1) by simp
  have rn: "length xs - (j + 1) = length rs" using arg_cong [OF parts(1), of length] parts(2) len by simp
  have u: "Parrot_util_quicksort stack cmp (pre @ xs @ post) (length pre) (length xs) =
      (if length ls < length rs
       then do {
         data \<leftarrow> (case stack of 0 \<Rightarrow> None
           | Suc stack \<Rightarrow> Parrot_util_quicksort stack cmp (pre @ (ls @ q # rs) @ post) (length pre) (length ls));
         Parrot_util_quicksort stack cmp data (length pre + (length ls + 1)) (length rs)
       }
       else do {
         data \<leftarrow> (case stack of 0 \<Rightarrow> None
           | Suc stack \<Rightarrow> Parrot_util_quicksort stack cmp (pre @ (ls @ q # rs) @ post) (length pre + (length ls + 1)) (length rs));
         Parrot_util_quicksort stack cmp data (length pre) (length ls)
       })"
    unfolding Parrot_util_quicksort.simps [of stack cmp "pre @ xs @ post" "length pre" "length xs"] s1 p(1) s2 
      bind.bind_lunit prod.case Let_def rn parts(2)
    using assms by simp
  show ?thesis by (rule exI [of _ ls], rule exI [of _ q], rule exI [of _ rs]) (use m parts(3,4) u in \<open>cases stack; simp\<close>)
qed

lemma quicksort_segment:
  assumes "length xs < 2 ^ (stack + 1)"
  shows "\<exists>ys. Parrot_util_quicksort stack cmp (pre @ xs @ post) (length pre) (length xs) = Some (pre @ ys @ post)
    \<and> mset ys = mset xs \<and> (comparison_on (set xs) cmp \<longrightarrow> in_order cmp ys)"
  using assms
proof (induction "length xs" arbitrary: xs pre post stack rule: less_induct)
  case less
  show ?case
  proof (cases "length xs > 1")
    case False
    then have "in_order cmp xs" by (cases xs) auto
    then show ?thesis using False by (subst Parrot_util_quicksort.simps) auto
  next
    case True
    then obtain s where s: "stack = Suc s" using less.prems by (cases stack) auto
    from quicksort_round [OF True, of cmp stack pre post] obtain ls p rs where m: "mset (ls @ p # rs) = mset xs"
      and parts: "\<forall>x \<in> set ls. \<not> cmp x p > 0" "\<forall>x \<in> set rs. \<not> cmp x p < 0"
      and call: "Parrot_util_quicksort stack cmp (pre @ xs @ post) (length pre) (length xs) =
      (if length ls < length rs
       then do {
         data \<leftarrow> Parrot_util_quicksort s cmp (pre @ ls @ (p # rs @ post)) (length pre) (length ls);
         Parrot_util_quicksort stack cmp data (length (pre @ ls @ [p])) (length rs)
       }
       else do {
         data \<leftarrow> Parrot_util_quicksort s cmp ((pre @ ls @ [p]) @ rs @ post) (length (pre @ ls @ [p])) (length rs);
         Parrot_util_quicksort stack cmp data (length pre) (length ls)
       })" unfolding s by auto
    have len: "length ls + length rs + 1 = length xs" using mset_eq_length [OF m] by simp
    have set: "set xs = insert p (set ls \<union> set rs)" using mset_eq_setD [OF m] by auto
    have sub: "comparison_on A cmp" if "comparison_on (set xs) cmp" "A \<subseteq> set xs" for A
      using that unfolding comparison_on_def by (meson subsetD)
    have order: "in_order cmp (ls' @ p # rs')" if "mset ls' = mset ls" "mset rs' = mset rs"
      "comparison_on (set ls) cmp \<longrightarrow> in_order cmp ls'" "comparison_on (set rs) cmp \<longrightarrow> in_order cmp rs'"
      "comparison_on (set xs) cmp" for ls' rs'
    proof (rule in_order_parts)
      have e: "set ls' = set ls" "set rs' = set rs" by (rule mset_eq_setD, rule that)+
      show "comparison_on (insert p (set ls' \<union> set rs')) cmp" unfolding e set [symmetric] by (rule that(5))
      show "\<forall>x \<in> set ls'. \<not> cmp x p > 0" "\<forall>x \<in> set rs'. \<not> cmp x p < 0" unfolding e by (rule parts)+
      show "in_order cmp ls'" "in_order cmp rs'" using that(3,4) sub [OF that(5)] set by auto
    qed
    show ?thesis
    proof (cases "length ls < length rs")
      case True
      have "length ls < length xs" "length ls < 2 ^ (s + 1)" using True len less.prems s by auto
      from less.hyps [OF this(1) this(2), of pre "p # rs @ post"] obtain ls' where
        ls': "Parrot_util_quicksort s cmp (pre @ ls @ (p # rs @ post)) (length pre) (length ls) = Some (pre @ ls' @ (p # rs @ post))"
          "mset ls' = mset ls" "comparison_on (set ls) cmp \<longrightarrow> in_order cmp ls'" by blast
      have "length rs < length xs" "length rs < 2 ^ (stack + 1)" using len less.prems by auto
      from less.hyps [OF this(1) this(2), of "pre @ ls' @ [p]" post] obtain rs' where
        rs': "Parrot_util_quicksort stack cmp ((pre @ ls' @ [p]) @ rs @ post) (length (pre @ ls' @ [p])) (length rs)
          = Some ((pre @ ls' @ [p]) @ rs' @ post)"
          "mset rs' = mset rs" "comparison_on (set rs) cmp \<longrightarrow> in_order cmp rs'" by blast
      have "length ls' = length ls" using ls'(2) by (rule mset_eq_length)
      then show ?thesis using call True ls'(1) rs'(1) m ls'(2) rs'(2) order [OF ls'(2) rs'(2) ls'(3) rs'(3)]
        by (intro exI [of _ "ls' @ p # rs'"]) simp
    next
      case False
      have "length rs < length xs" "length rs < 2 ^ (s + 1)" using False len less.prems s by auto
      from less.hyps [OF this(1) this(2), of "pre @ ls @ [p]" post] obtain rs' where
        rs': "Parrot_util_quicksort s cmp ((pre @ ls @ [p]) @ rs @ post) (length (pre @ ls @ [p])) (length rs)
          = Some ((pre @ ls @ [p]) @ rs' @ post)"
          "mset rs' = mset rs" "comparison_on (set rs) cmp \<longrightarrow> in_order cmp rs'" by blast
      have "length ls < length xs" "length ls < 2 ^ (stack + 1)" using len less.prems by auto
      from less.hyps [OF this(1) this(2), of pre "p # rs' @ post"] obtain ls' where
        ls': "Parrot_util_quicksort stack cmp (pre @ ls @ (p # rs' @ post)) (length pre) (length ls) = Some (pre @ ls' @ (p # rs' @ post))"
          "mset ls' = mset ls" "comparison_on (set ls) cmp \<longrightarrow> in_order cmp ls'" by blast
      show ?thesis using call False ls'(1) rs'(1) m ls'(2) rs'(2) order [OF ls'(2) rs'(2) ls'(3) rs'(3)]
        by (intro exI [of _ "ls' @ p # rs'"]) simp
    qed
  qed
qed

end
