(* ===== verification/Util_Random.thy ===== *)
theory Util_Random
  imports Parrot_Base Complex_Main
begin

text \<open>
  Arithmetic of \<open>src/utils.c\<close>: the modulus of \<open>INTVAL\<close>s and the random numbers, a version of
  the \<open>rand48\<close> family.
\<close>

section \<open>Modulus\<close>

text \<open>
  \<open>-y\<close> overflows for the least integer.  \<open>y % z\<close> is the remainder of the division of two
  numbers that are not negative.
\<close>

definition negate :: "int \<Rightarrow> int option" where
  "negate y = (if y = - (2 ^ 63) then None else Some (- y))"

definition Parrot_util_intval_mod :: "int \<Rightarrow> int \<Rightarrow> int option" where
  "Parrot_util_intval_mod i2 i3 =
     (let z = i3 in
      if z = 0 then Some i2
      else
        let s = 0; y = i2 in
        do {
          (s, y) \<leftarrow> (if y < 0 then do { y \<leftarrow> negate y; Some (s + 2, y) } else Some (s, y));
          (s, z) \<leftarrow> (if z < 0 then do { z \<leftarrow> negate z; Some (s + 1, z) } else Some (s, z));
          let r = y mod z;
          Some (if r \<noteq> 0
                then (if s = (0::int) then r
                      else if s = 1 then r - z
                      else if s = 2 then z - r
                      else if s = 3 then - r
                      else r)
                else r)
        })"

text \<open>The result has the sign of the divisor, as the modulus of the logic has.\<close>

lemma intval_mod_value:
  assumes "i2 \<noteq> - (2 ^ 63)" "i3 \<noteq> - (2 ^ 63)"
  shows "Parrot_util_intval_mod i2 i3 = Some (i2 mod i3)"
proof -
  consider "i3 = 0" | "0 \<le> i2" "0 < i3" | "i2 < 0" "0 < i3" | "0 \<le> i2" "i3 < 0" | "i2 < 0" "i3 < 0" by linarith
  then show ?thesis
  proof cases
    case 3
    then show ?thesis using assms zmod_zminus1_eq_if [of "- i2" i3] by (simp add: Parrot_util_intval_mod_def negate_def Let_def)
  next
    case 4
    then show ?thesis using assms zmod_zminus2_eq_if [of i2 "- i3"] by (simp add: Parrot_util_intval_mod_def negate_def Let_def)
  next
    case 5
    then show ?thesis using assms zmod_zminus2_eq_if [of i2 "- i3"] zmod_zminus1_eq_if [of "- i2" "- i3"]
      by (simp add: Parrot_util_intval_mod_def negate_def Let_def)
  qed (use assms in \<open>simp_all add: Parrot_util_intval_mod_def negate_def Let_def\<close>)
qed

section \<open>The generator\<close>

text \<open>
  \<open>_rand_buf\<close> is an array of three \<open>unsigned short\<close>s, the least significant first.  Their
  products have type \<open>int\<close> and may exceed its maximum; the model takes the wrapped 32-bit
  product that the machine computes.
\<close>

record rand_buf =
  buf0 :: u16
  buf1 :: u16
  buf2 :: u16

definition A_lo :: u16 where "A_lo = 0xE66D"
definition A_mid :: u16 where "A_mid = 0xDEEC"
definition A_hi :: u16 where "A_hi = 0x5"
definition rand_c :: u16 where "rand_c = 0xB"
definition SEED_LO :: u16 where "SEED_LO = 0x330E"

definition next_rand :: "rand_buf \<Rightarrow> rand_buf" where
  "next_rand X =
     (let t = ucast (buf0 X) * ucast A_lo + ucast rand_c :: u32;
          lo = t AND 0xFFFF;
          mid = drop_bit 16 t AND 0xFFFF;
          t = ucast (buf1 X) * ucast A_lo + ucast (buf0 X) * ucast A_mid + mid;
          mid = t AND 0xFFFF;
          hi = drop_bit 16 t AND 0xFFFF;
          t = ucast (buf2 X) * ucast A_lo + ucast (buf1 X) * ucast A_mid + ucast (buf0 X) * ucast A_hi + hi
      in X\<lparr>buf0 := ucast lo, buf1 := ucast mid, buf2 := ucast (t AND 0xFFFF)\<rparr>)"

text \<open>\<open>buf[2] << 16 | buf[1]\<close> is an \<open>int\<close>, which the conversion to \<open>long\<close> extends by its sign.\<close>

definition jrand48 :: "rand_buf \<Rightarrow> int \<times> rand_buf" where
  "jrand48 buf =
     (let buf = next_rand buf
      in (sint (push_bit 16 (ucast (buf2 buf)) OR ucast (buf1 buf) :: u32), buf))"

definition nrand48 :: "rand_buf \<Rightarrow> int \<times> rand_buf" where
  "nrand48 buf = (let (x, buf) = jrand48 buf in (x AND 0x7FFFFFFF, buf))"

text \<open>The quotients and sums are exact in a \<open>double\<close>: no more than 48 bits are in use.\<close>

definition erand48 :: "rand_buf \<Rightarrow> rat \<times> rand_buf" where
  "erand48 buf =
     (let buf = next_rand buf
      in (((of_nat (unat (buf0 buf)) / 65536 + of_nat (unat (buf1 buf))) / 65536 + of_nat (unat (buf2 buf))) / 65536, buf))"

text \<open>The functions on the state \<open>last_rand\<close>; \<open>how_random\<close> is ignored.\<close>

definition Parrot_util_srand :: "int \<Rightarrow> rand_buf \<Rightarrow> rand_buf" where
  "Parrot_util_srand seed last_rand =
     last_rand\<lparr>buf0 := SEED_LO, buf1 := of_int (seed AND 0xFFFF), buf2 := of_int (drop_bit 16 seed AND 0xFFFF)\<rparr>"

definition Parrot_util_uint_rand :: "int \<Rightarrow> rand_buf \<Rightarrow> int \<times> rand_buf" where
  "Parrot_util_uint_rand how_random last_rand = nrand48 last_rand"

definition Parrot_util_int_rand :: "int \<Rightarrow> rand_buf \<Rightarrow> int \<times> rand_buf" where
  "Parrot_util_int_rand how_random last_rand = jrand48 last_rand"

definition Parrot_util_float_rand :: "int \<Rightarrow> rand_buf \<Rightarrow> rat \<times> rand_buf" where
  "Parrot_util_float_rand how_random last_rand = erand48 last_rand"

section \<open>The linear congruential generator\<close>

definition rand_value :: "rand_buf \<Rightarrow> nat" where
  "rand_value X = unat (buf0 X) + 2 ^ 16 * unat (buf1 X) + 2 ^ 32 * unat (buf2 X)"

lemma and_low16: "(t :: u32) AND 0xFFFF = take_bit 16 t"
proof -
  have "(0xFFFF :: u32) = mask 16" by (simp add: mask_eq_exp_minus_1)
  then show ?thesis by (simp only: take_bit_eq_mask)
qed

lemma unat_low16: "unat (ucast (t AND 0xFFFF :: u32) :: u16) = unat t mod 2 ^ 16"
  unfolding take_bit_eq_mod [symmetric] and_low16 by (simp add: unsigned_ucast_eq unsigned_take_bit_eq)

lemma unat_mid16: "unat (drop_bit 16 t AND 0xFFFF :: u32) = unat t div 2 ^ 16"
proof -
  have "unat t < 2 ^ 32" using unsigned_less [of t] by simp
  then have "take_bit 16 (drop_bit 16 (unat t)) = drop_bit 16 (unat t)" "take_bit 32 (unat t) = unat t"
    by (simp_all add: take_bit_nat_eq_self_iff drop_bit_eq_div less_mult_imp_div_less)
  then show ?thesis
    unfolding drop_bit_eq_div [symmetric] and_low16 by (simp add: unsigned_take_bit_eq unsigned_drop_bit_eq)
qed

text \<open>A 32-bit sum of products of words is the sum of the numbers, up to wrap-around.\<close>

lemma unat_next_sums:
  fixes x y z :: u16 and m :: u32
  shows "unat (ucast x * ucast A_lo + ucast rand_c :: u32) = unat x * 0xE66D + 0xB"
    and "unat (ucast y * ucast A_lo + ucast x * ucast A_mid + m :: u32) = (unat y * 0xE66D + unat x * 0xDEEC + unat m) mod 2 ^ 32"
    and "unat (ucast z * ucast A_lo + ucast y * ucast A_mid + ucast x * ucast A_hi + m :: u32) =
      (unat z * 0xE66D + unat y * 0xDEEC + unat x * 5 + unat m) mod 2 ^ 32"
proof -
  have c: "(ucast A_lo :: u32) = 0xE66D" "(ucast A_mid :: u32) = 0xDEEC" "(ucast A_hi :: u32) = 5" "(ucast rand_c :: u32) = 0xB"
    by (simp_all add: A_lo_def A_mid_def A_hi_def rand_c_def)
  have w: "unat (of_nat n :: u32) = n mod 2 ^ 32" for n by (simp add: unat_of_nat)
  have lt: "unat x < 2 ^ 16" using unsigned_less [of x] by simp
  have "(ucast x * 0xE66D + 0xB :: u32) = of_nat (unat x * 0xE66D + 0xB)" by simp
  then have "unat (ucast x * 0xE66D + 0xB :: u32) = (unat x * 0xE66D + 0xB) mod 2 ^ 32" by (simp only: w)
  then show "unat (ucast x * ucast A_lo + ucast rand_c :: u32) = unat x * 0xE66D + 0xB"
    unfolding c using lt by simp
  have "(ucast y * 0xE66D + ucast x * 0xDEEC + m :: u32) = of_nat (unat y * 0xE66D + unat x * 0xDEEC + unat m)" by simp
  then show "unat (ucast y * ucast A_lo + ucast x * ucast A_mid + m :: u32) = (unat y * 0xE66D + unat x * 0xDEEC + unat m) mod 2 ^ 32"
    unfolding c by (simp only: w)
  have "(ucast z * 0xE66D + ucast y * 0xDEEC + ucast x * 5 + m :: u32) =
    of_nat (unat z * 0xE66D + unat y * 0xDEEC + unat x * 5 + unat m)" by simp
  then show "unat (ucast z * ucast A_lo + ucast y * ucast A_mid + ucast x * ucast A_hi + m :: u32) =
      (unat z * 0xE66D + unat y * 0xDEEC + unat x * 5 + unat m) mod 2 ^ 32"
    unfolding c by (simp only: w)
qed

text \<open>Long multiplication in base \<open>2 ^ 16\<close>.\<close>

lemma carries:
  fixes x y z :: nat
  assumes "x * 0xE66D + 0xB = 0x10000 * q1 + r1" "y * 0xE66D + x * 0xDEEC + q1 = 0x10000 * q2 + r2"
    and "z * 0xE66D + y * 0xDEEC + x * 5 + q2 = 0x10000 * q3 + r3"
  shows "0x5DEECE66D * (x + 0x10000 * y + 0x100000000 * z) + 0xB
    = r1 + 0x10000 * r2 + 0x100000000 * r3 + 0x1000000000000 * (q3 + 5 * y + 0xDEEC * z + 0x50000 * z)"
proof -
  have "0x5DEECE66D * (x + 0x10000 * y + 0x100000000 * z) + 0xB
    = (x * 0xE66D + 0xB) + 0x10000 * (y * 0xE66D + x * 0xDEEC) + 0x100000000 * (z * 0xE66D + y * 0xDEEC + x * 5)
      + 0x1000000000000 * (5 * y + 0xDEEC * z + 0x50000 * z)" by simp
  also have "\<dots> = r1 + 0x10000 * (y * 0xE66D + x * 0xDEEC + q1) + 0x100000000 * (z * 0xE66D + y * 0xDEEC + x * 5)
      + 0x1000000000000 * (5 * y + 0xDEEC * z + 0x50000 * z)" unfolding assms(1) by simp
  also have "\<dots> = r1 + 0x10000 * r2 + 0x100000000 * (z * 0xE66D + y * 0xDEEC + x * 5 + q2)
      + 0x1000000000000 * (5 * y + 0xDEEC * z + 0x50000 * z)" unfolding assms(2) by simp
  finally show ?thesis unfolding assms(3) by simp
qed

lemma long_multiplication:
  fixes x y z :: nat
  defines "t1 \<equiv> x * 0xE66D + 0xB"
  defines "t2 \<equiv> y * 0xE66D + x * 0xDEEC + t1 div 2 ^ 16"
  defines "t3 \<equiv> z * 0xE66D + y * 0xDEEC + x * 5 + t2 div 2 ^ 16"
  shows "t1 mod 2 ^ 16 + 2 ^ 16 * (t2 mod 2 ^ 16) + 2 ^ 32 * (t3 mod 2 ^ 16) =
    (0x5DEECE66D * (x + 2 ^ 16 * y + 2 ^ 32 * z) + 0xB) mod 2 ^ 48"
proof -
  let ?v = "t1 mod 2 ^ 16 + 2 ^ 16 * (t2 mod 2 ^ 16) + 2 ^ 32 * (t3 mod 2 ^ 16)"
  have "0x5DEECE66D * (x + 2 ^ 16 * y + 2 ^ 32 * z) + 0xB
      = ?v + 2 ^ 48 * (t3 div 2 ^ 16 + 5 * y + 0xDEEC * z + 0x50000 * z)"
  proof -
    have "x * 0xE66D + 0xB = 2 ^ 16 * (t1 div 2 ^ 16) + t1 mod 2 ^ 16"
      "y * 0xE66D + x * 0xDEEC + t1 div 2 ^ 16 = 2 ^ 16 * (t2 div 2 ^ 16) + t2 mod 2 ^ 16"
      "z * 0xE66D + y * 0xDEEC + x * 5 + t2 div 2 ^ 16 = 2 ^ 16 * (t3 div 2 ^ 16) + t3 mod 2 ^ 16"
      unfolding t1_def [symmetric] t2_def [symmetric] t3_def [symmetric] by (simp_all only: mult_div_mod_eq)
    from carries [of x "t1 div 2 ^ 16" "t1 mod 2 ^ 16" y "t2 div 2 ^ 16" "t2 mod 2 ^ 16" z "t3 div 2 ^ 16" "t3 mod 2 ^ 16"] this
    show ?thesis by simp
  qed
  moreover have "?v < 2 ^ 48"
    using mod_less_divisor [of "2 ^ 16" t1] mod_less_divisor [of "2 ^ 16" t2] mod_less_divisor [of "2 ^ 16" t3] by simp
  ultimately show ?thesis by (simp only: mod_mult_self2 mod_less)
qed

lemma next_rand_value: "rand_value (next_rand X) = (0x5DEECE66D * rand_value X + 0xB) mod 2 ^ 48"
proof -
  define t1 where "t1 = unat (buf0 X) * 0xE66D + 0xB"
  define t2 where "t2 = unat (buf1 X) * 0xE66D + unat (buf0 X) * 0xDEEC + t1 div 2 ^ 16"
  define t3 where "t3 = unat (buf2 X) * 0xE66D + unat (buf1 X) * 0xDEEC + unat (buf0 X) * 5 + t2 div 2 ^ 16"
  have carry: "(a + b mod 2 ^ 32 div 2 ^ 16) mod 2 ^ 32 mod 2 ^ 16 = (a + b div 2 ^ 16) mod 2 ^ 16" for a b :: nat
  proof -
    have "b mod 2 ^ 32 div 2 ^ 16 = b div 2 ^ 16 mod 2 ^ 16"
      unfolding take_bit_eq_mod [symmetric] drop_bit_eq_div [symmetric] drop_bit_take_bit by simp
    then show ?thesis by (simp add: mod_mod_cancel mod_add_right_eq)
  qed
  have "rand_value (next_rand X) = t1 mod 2 ^ 16 + 2 ^ 16 * (t2 mod 2 ^ 32 mod 2 ^ 16) +
      2 ^ 32 * ((unat (buf2 X) * 0xE66D + unat (buf1 X) * 0xDEEC + unat (buf0 X) * 5 + t2 mod 2 ^ 32 div 2 ^ 16) mod 2 ^ 32 mod 2 ^ 16)"
    by (cases X) (simp only: rand_value_def next_rand_def Let_def rand_buf.simps unat_low16 unat_mid16 unat_next_sums t1_def t2_def)
  also have "\<dots> = t1 mod 2 ^ 16 + 2 ^ 16 * (t2 mod 2 ^ 16) + 2 ^ 32 * (t3 mod 2 ^ 16)"
    unfolding carry t3_def by (simp add: mod_mod_cancel)
  also have "\<dots> = (0x5DEECE66D * rand_value X + 0xB) mod 2 ^ 48"
    unfolding t1_def t2_def t3_def rand_value_def by (rule long_multiplication)
  finally show ?thesis .
qed

section \<open>The numbers that are returned\<close>

lemma rand_value_less: "rand_value X < 2 ^ 48"
proof -
  have "unat (buf0 X) < 2 ^ 16" "unat (buf1 X) < 2 ^ 16" "unat (buf2 X) < 2 ^ 16"
    using unsigned_less [of "buf0 X"] unsigned_less [of "buf1 X"] unsigned_less [of "buf2 X"] by simp_all
  then show ?thesis by (simp add: rand_value_def)
qed

lemma rand_value_high: "unat (push_bit 16 (ucast (buf2 X)) OR ucast (buf1 X) :: u32) = rand_value X div 2 ^ 16"
proof -
  have lt: "unat (buf0 X) < 2 ^ 16" "unat (buf1 X) < 2 ^ 16" "unat (buf2 X) < 2 ^ 16"
    using unsigned_less [of "buf0 X"] unsigned_less [of "buf1 X"] unsigned_less [of "buf2 X"] by simp_all
  have "(push_bit 16 (ucast (buf2 X)) :: u32) AND ucast (buf1 X) = 0"
    by (rule bit_word_eqI) (auto simp: bit_simps dest: bit_imp_le_length)
  then have "(push_bit 16 (ucast (buf2 X)) OR ucast (buf1 X) :: u32) = push_bit 16 (ucast (buf2 X)) + ucast (buf1 X)"
    by (rule disjunctive_add_eq_or [symmetric])
  also have "\<dots> = of_nat (2 ^ 16 * unat (buf2 X) + unat (buf1 X))" by (simp add: push_bit_eq_mult)
  finally have "unat (push_bit 16 (ucast (buf2 X)) OR ucast (buf1 X) :: u32) = 2 ^ 16 * unat (buf2 X) + unat (buf1 X)"
    by (simp only:) (rule unat_of_nat_small, use lt in simp)
  moreover have "rand_value X div 2 ^ 16 = 2 ^ 16 * unat (buf2 X) + unat (buf1 X)"
    using lt by (simp add: rand_value_def)
  ultimately show ?thesis by simp
qed

lemma jrand48_value: "jrand48 X = (signed_take_bit 31 (int (rand_value (next_rand X) div 2 ^ 16)), next_rand X)"
proof -
  have "sint w = signed_take_bit 31 (int (unat w))" for w :: u32
    by (simp add: sint_uint)
  then show ?thesis by (simp only: jrand48_def Let_def rand_value_high)
qed

lemma nrand48_value: "nrand48 X = (int (rand_value (next_rand X) div 2 ^ 16 mod 2 ^ 31), next_rand X)"
proof -
  have "signed_take_bit 31 x AND 0x7FFFFFFF = x mod 2 ^ 31" for x :: int
  proof -
    have "(0x7FFFFFFF :: int) = mask 31" by (simp add: mask_eq_exp_minus_1)
    then have "signed_take_bit 31 x AND 0x7FFFFFFF = take_bit 31 (signed_take_bit 31 x)" by (simp only: take_bit_eq_mask)
    also have "\<dots> = take_bit 31 x" by (rule take_bit_signed_take_bit) simp
    finally show ?thesis by (simp only: take_bit_eq_mod)
  qed
  then show ?thesis by (simp add: nrand48_def jrand48_value zmod_int zdiv_int)
qed

lemma erand48_value: "erand48 X = (of_nat (rand_value (next_rand X)) / 2 ^ 48, next_rand X)"
  by (simp add: erand48_def Let_def rand_value_def field_simps)

lemma srand_value: "rand_value (Parrot_util_srand seed X) = 2 ^ 16 * nat (seed mod 2 ^ 32) + 0x330E"
proof -
  have low: "(x :: int) AND 0xFFFF = x mod 2 ^ 16" for x
  proof -
    have "(0xFFFF :: int) = mask 16" by (simp add: mask_eq_exp_minus_1)
    then show ?thesis by (simp only: take_bit_eq_mask [symmetric] take_bit_eq_mod)
  qed
  have u: "unat (of_int (x mod 2 ^ 16) :: u16) = nat (x mod 2 ^ 16)" for x :: int
  proof -
    have "0 \<le> x mod 2 ^ 16 \<and> x mod 2 ^ 16 < 2 ^ 16" by simp
    moreover from this have "(of_int (x mod 2 ^ 16) :: u16) = of_nat (nat (x mod 2 ^ 16))" by simp
    ultimately show ?thesis by (simp only:) (rule unat_of_nat_small, simp add: nat_less_iff)
  qed
  have "seed mod 2 ^ 32 = seed mod 2 ^ 16 + 2 ^ 16 * (seed div 2 ^ 16 mod 2 ^ 16)"
    using mod_mult2_eq' [of seed "2 ^ 16" "2 ^ 16"] by simp
  then have "nat (seed mod 2 ^ 32) = nat (seed mod 2 ^ 16) + 2 ^ 16 * nat (seed div 2 ^ 16 mod 2 ^ 16)"
    by (simp add: nat_add_distrib nat_mult_distrib)
  then show ?thesis
    by (simp add: rand_value_def Parrot_util_srand_def low drop_bit_eq_div u [simplified] SEED_LO_def)
qed

section \<open>The period\<close>

definition powers_sum :: "nat \<Rightarrow> nat \<Rightarrow> nat" where
  "powers_sum a n = (\<Sum>i < n. a ^ i)"

lemma powers_sum_simps [simp]: "powers_sum a 0 = 0" "powers_sum a (Suc n) = powers_sum a n + a ^ n"
  by (simp_all add: powers_sum_def)

lemma powers_sum_add: "powers_sum a (m + n) = powers_sum a m + a ^ m * powers_sum a n"
  by (induction n) (simp_all add: power_add distrib_left)

lemma next_rand_iterate:
  "rand_value ((next_rand ^^ n) X) = (0x5DEECE66D ^ n * rand_value X + 0xB * powers_sum 0x5DEECE66D n) mod 2 ^ 48"
proof (induction n)
  case 0
  show ?case using rand_value_less [of X] by simp
next
  case (Suc n)
  let ?a = "0x5DEECE66D :: nat"
  have "powers_sum ?a (Suc n) = 1 + ?a * powers_sum ?a n" using powers_sum_add [of ?a 1 n] by simp
  moreover have "(?a * (w mod 2 ^ 48) + 0xB) mod 2 ^ 48 = (?a * w + 0xB) mod 2 ^ 48" for w
    by (metis mod_add_left_eq mod_mult_right_eq)
  ultimately show ?case using Suc.IH by (simp only: funpow.simps comp_apply next_rand_value) (simp add: algebra_simps)
qed

lemma power2_dvd_powers_sum:
  assumes "a mod 4 = 1"
  shows "2 ^ k dvd powers_sum a n \<longleftrightarrow> 2 ^ k dvd n"
proof (induction k arbitrary: n)
  case (Suc k)
  have oa: "odd a" using assms by presburger
  have par: "even (powers_sum a n) \<longleftrightarrow> even n" for n by (induction n) (auto simp: oa)
  show ?case
  proof (cases "even n")
    case True
    then obtain m where m: "n = m + m" by (metis evenE mult_2)
    have "a ^ m mod 4 = (a mod 4) ^ m mod 4" by (simp add: power_mod)
    moreover have "\<exists>q. 1 + x = 2 * q \<and> odd q" if "x mod 4 = 1" for x :: nat using that by presburger
    ultimately obtain q where q: "1 + a ^ m = 2 * q" "odd q" using assms by auto
    have "powers_sum a n = powers_sum a m * (1 + a ^ m)" unfolding m powers_sum_add by (simp add: algebra_simps)
    then have s: "powers_sum a n = 2 * (powers_sum a m * q)" by (simp only: q(1) mult.left_commute)
    have "2 ^ Suc k dvd powers_sum a n \<longleftrightarrow> 2 ^ k dvd powers_sum a m * q" unfolding s by simp
    also have "\<dots> \<longleftrightarrow> 2 ^ k dvd powers_sum a m" using q(2) by (simp add: coprime_dvd_mult_left_iff)
    also have "\<dots> \<longleftrightarrow> 2 ^ Suc k dvd n" unfolding Suc.IH m by (simp add: mult_2 [symmetric])
    finally show ?thesis .
  next
    case False
    then show ?thesis using par [of n] by (auto dest: dvd_mult_left)
  qed
qed simp

lemma power_powers_sum: "0 < a \<Longrightarrow> a ^ n = 1 + (a - 1) * powers_sum a n"
proof (induction n)
  case (Suc n)
  obtain b where a: "a = Suc b" using Suc.prems by (cases a) auto
  have "a ^ Suc n = (1 + b) * (1 + b * powers_sum a n)" using Suc by (simp add: a)
  also have "\<dots> = 1 + b * (powers_sum a n + (1 + b * powers_sum a n))" by (simp add: algebra_simps)
  finally show ?case using Suc a by simp
qed simp

lemma next_rand_period: "rand_value ((next_rand ^^ n) X) = rand_value X \<longleftrightarrow> 2 ^ 48 dvd n"
proof -
  let ?a = "0x5DEECE66D :: nat" and ?x = "rand_value X"
  let ?s = "powers_sum ?a n"
  have p: "?a ^ n = 1 + 0x5DEECE66C * ?s" using power_powers_sum [of ?a n] by simp
  have e: "?a ^ n * ?x + 0xB * ?s = ?x + ?s * (0x5DEECE66C * ?x + 0xB)" unfolding p by (simp add: algebra_simps)
  have "rand_value ((next_rand ^^ n) X) = ?x \<longleftrightarrow> (?x + ?s * (0x5DEECE66C * ?x + 0xB)) mod 2 ^ 48 = ?x mod 2 ^ 48"
    unfolding next_rand_iterate e using rand_value_less [of X] by simp
  also have "\<dots> \<longleftrightarrow> 2 ^ 48 dvd ?s * (0x5DEECE66C * ?x + 0xB)"
    using mod_eq_dvd_iff_nat [of ?x "?x + ?s * (0x5DEECE66C * ?x + 0xB)" "2 ^ 48"] by simp
  also have "\<dots> \<longleftrightarrow> 2 ^ 48 dvd ?s"
  proof -
    have "odd (0x5DEECE66C * ?x + 0xB)" by simp
    then have "coprime (2 ^ 48) (0x5DEECE66C * ?x + 0xB)" by (simp only: coprime_left_2_iff_odd coprime_power_left_iff simp_thms)
    then show ?thesis by (rule coprime_dvd_mult_left_iff)
  qed
  also have "\<dots> \<longleftrightarrow> 2 ^ 48 dvd n" by (rule power2_dvd_powers_sum) simp
  finally show ?thesis .
qed

end
