(* ===== verification/Util_Claims.thy ===== *)
theory Util_Claims
  imports Util_Sort Util_Random Util_Search
begin

text \<open>
  The properties of the functions of \<open>src/utils.c\<close>: sorting, random numbers, byte searches.
\<close>

section \<open>Sorting\<close>

text \<open>
  C38. Sorting ends without leaving the array for every comparison function, even an
  inconsistent one, and permutes the array; when the function is a comparison of the elements
  the result is in order. Nested calls are made for the smaller part only, so that room for
  fewer calls than the array's length has binary digits is enough.
\<close>

theorem Parrot_util_quicksort_sorts:
  assumes "length data < 2 ^ (stack + 1)"
  shows "\<exists>ys. Parrot_util_quicksort stack cmp data 0 (length data) = Some ys
    \<and> mset ys = mset data \<and> (comparison_on (set data) cmp \<longrightarrow> in_order cmp ys)"
  using quicksort_segment [OF assms, of cmp "[]" "[]"] by simp

lemma Parrot_util_quicksort_sorts_witness:
  "\<exists>ys. Parrot_util_quicksort 2 (\<lambda>x y. x - y) [5, 3, 8, 1, 3] 0 (length [5, 3, 8, 1, 3 :: int]) = Some ys
    \<and> mset ys = mset [5, 3, 8, 1, 3] \<and> in_order (\<lambda>x y. x - y) ys"
proof -
  have "comparison_on (set [5, 3, 8, 1, 3 :: int]) (\<lambda>x y. x - y)" by (simp add: comparison_on_def)
  then show ?thesis using Parrot_util_quicksort_sorts [of "[5, 3, 8, 1, 3 :: int]" 2 "\<lambda>x y. x - y"] by auto
qed

section \<open>Random numbers\<close>

text \<open>
  C39. The generator that multiplies by pieces of 16 bits is the linear congruential one
  modulo \<open>2 ^ 48\<close>: every step, the seed, and what the functions return. It has the full period:
  a state comes back after \<open>2 ^ 48\<close> steps and not before.
\<close>

theorem Parrot_util_rand_congruential:
  "rand_value (next_rand X) = (0x5DEECE66D * rand_value X + 0xB) mod 2 ^ 48
    \<and> rand_value (Parrot_util_srand seed X) = 2 ^ 16 * nat (seed mod 2 ^ 32) + 0x330E
    \<and> Parrot_util_uint_rand how X = (int (rand_value (next_rand X) div 2 ^ 16 mod 2 ^ 31), next_rand X)
    \<and> Parrot_util_int_rand how X = (signed_take_bit 31 (int (rand_value (next_rand X) div 2 ^ 16)), next_rand X)
    \<and> Parrot_util_float_rand how X = (of_nat (rand_value (next_rand X)) / 2 ^ 48, next_rand X)
    \<and> (rand_value ((next_rand ^^ n) X) = rand_value X \<longleftrightarrow> 2 ^ 48 dvd n)"
  by (simp only: next_rand_value [of X] srand_value Parrot_util_uint_rand_def nrand48_value
      Parrot_util_int_rand_def jrand48_value Parrot_util_float_rand_def erand48_value next_rand_period simp_thms)

text \<open>So the intervals are those the documentation gives.\<close>

lemma rand_intervals:
  "fst (Parrot_util_uint_rand how X) \<in> {0..<2 ^ 31}"
  "fst (Parrot_util_int_rand how X) \<in> {- (2 ^ 31)..<2 ^ 31}"
  "fst (Parrot_util_float_rand how X) \<in> {0..<1}"
proof -
  have "rand_value (next_rand X) < 2 ^ 48" by (rule rand_value_less)
  then have "(of_nat (rand_value (next_rand X)) :: rat) < of_nat (2 ^ 48)" by (simp only: of_nat_less_iff)
  then show "fst (Parrot_util_float_rand how X) \<in> {0..<1}" by (simp add: Parrot_util_float_rand_def erand48_value)
  show "fst (Parrot_util_int_rand how X) \<in> {- (2 ^ 31)..<2 ^ 31}"
    using signed_take_bit_int_greater_eq_minus_exp [of 31 "int (rand_value (next_rand X)) div 2 ^ 16"]
      signed_take_bit_int_less_exp [of 31 "int (rand_value (next_rand X)) div 2 ^ 16"]
    by (simp add: Parrot_util_int_rand_def jrand48_value zdiv_int)
qed (simp add: Parrot_util_uint_rand_def nrand48_value zmod_int zdiv_int)

section \<open>Modulus\<close>

text \<open>
  C40. The modulus of two \<open>INTVAL\<close>s takes the sign of the divisor, and modulo 0 returns the
  dividend; it is undefined only where the negation of the least integer overflows.
\<close>

theorem Parrot_util_intval_mod_correct:
  "Parrot_util_intval_mod i2 i3 =
    (if i3 \<noteq> 0 \<and> (i2 = - (2 ^ 63) \<or> i3 = - (2 ^ 63)) then None else Some (i2 mod i3))"
proof (cases "i3 \<noteq> 0 \<and> (i2 = - (2 ^ 63) \<or> i3 = - (2 ^ 63))")
  case True
  then show ?thesis by (auto simp: Parrot_util_intval_mod_def negate_def Let_def)
next
  case False
  then show ?thesis using intval_mod_value [of i2 i3] by (cases "i3 = 0") (auto simp: Parrot_util_intval_mod_def)
qed

section \<open>Searches\<close>

text \<open>
  The search for bytes finds the first occurrence from the offset on when there is one,
  and the search backwards the last one up to the offset, or up to the end when the offset
  is 0; neither reads outside the storage then.
\<close>

theorem Parrot_util_byte_search:
  assumes "byte_string base bs" "byte_string search ss" "ss \<noteq> []" "length bs < 2 ^ 63" "length ss \<le> length bs"
  shows "((\<exists>k. unat start \<le> k \<and> occurs_at bs ss k) \<longrightarrow>
      Parrot_util_byte_index base search start = Some (int (LEAST k. unat start \<le> k \<and> occurs_at bs ss k)))
    \<and> Parrot_util_byte_rindex base search start =
      (let n = (if start \<noteq> 0 then min (unat start) (length bs - length ss) else length bs - length ss)
       in Some (if \<exists>i \<le> n. occurs_at bs ss i then int (GREATEST i. i \<le> n \<and> occurs_at bs ss i) else - 1))"
proof (intro conjI impI)
  show "Parrot_util_byte_index base search start = Some (int (LEAST k. unat start \<le> k \<and> occurs_at bs ss k))"
    if ex: "\<exists>k. unat start \<le> k \<and> occurs_at bs ss k"
  proof (rule byte_index_first [OF assms(1-4)])
    let ?P = "\<lambda>k. unat start \<le> k \<and> occurs_at bs ss k"
    show "occurs_at bs ss (LEAST k. ?P k)" "unat start \<le> (LEAST k. ?P k)" using LeastI_ex [OF ex] by simp_all
    show "\<forall>i. unat start \<le> i \<longrightarrow> i < (LEAST k. ?P k) \<longrightarrow> \<not> occurs_at bs ss i"
      using not_less_Least [of _ ?P] by blast
  qed
  show "Parrot_util_byte_rindex base search start =
      (let n = (if start \<noteq> 0 then min (unat start) (length bs - length ss) else length bs - length ss)
       in Some (if \<exists>i \<le> n. occurs_at bs ss i then int (GREATEST i. i \<le> n \<and> occurs_at bs ss i) else - 1))"
    unfolding Let_def by (rule byte_rindex_last [OF assms(1,2,4,5) refl])
qed

text \<open>Searching for \<open>an\<close> in \<open>banana\<close>.\<close>

definition banana :: parrot_string where
  "banana = \<lparr>strstart = [0x62, 0x61, 0x6E, 0x61, 0x6E, 0x61], bufused = 6, strlen = 6, hashval = 0, encoding = Parrot_ascii_encoding_ptr\<rparr>"

definition an :: parrot_string where
  "an = \<lparr>strstart = [0x61, 0x6E], bufused = 2, strlen = 2, hashval = 0, encoding = Parrot_ascii_encoding_ptr\<rparr>"

lemma Parrot_util_byte_search_witness:
  "Parrot_util_byte_index banana an 2 = Some 3 \<and> Parrot_util_byte_rindex banana an 2 = Some 1"
proof -
  let ?bs = "[0x62, 0x61, 0x6E, 0x61, 0x6E, 0x61] :: u8 list" and ?ss = "[0x61, 0x6E] :: u8 list"
  have at: "occurs_at ?bs ?ss k \<longleftrightarrow> k = 1 \<or> k = 3" for k
    by (cases "k < 5", (simp add: less_Suc_eq numeral_eq_Suc, elim disjE; simp add: occurs_at_def)[1]) (auto simp: occurs_at_def)
  have "(LEAST k. 2 \<le> k \<and> (k = 1 \<or> k = (3 :: nat))) = 3" "(GREATEST i. i \<le> 2 \<and> (i = 1 \<or> i = (3 :: nat))) = 1"
    by (rule Least_equality Greatest_equality; auto)+
  moreover have n: "(if (2 :: u64) \<noteq> 0 then min (unat (2 :: u64)) (length ?bs - length ?ss) else length ?bs - length ?ss) = 2" by simp
  moreover have u: "unat (2 :: u64) = 2" by simp
  have "byte_string banana ?bs" "byte_string an ?ss" "?ss \<noteq> []" "length ?bs < 2 ^ 63" "length ?ss \<le> length ?bs"
    by (simp_all add: byte_string_def banana_def an_def)
  note Parrot_util_byte_search [OF this, of 2, unfolded Let_def n, unfolded at u]
  moreover have "\<exists>k. 2 \<le> k \<and> (k = 1 \<or> k = (3 :: nat))" by (rule exI [of _ 3]) simp
  moreover have "\<exists>i \<le> 2. i = 1 \<or> i = (3 :: nat)" by (rule exI [of _ 1]) simp
  ultimately show ?thesis by (simp only: if_True of_nat_numeral of_nat_1 simp_thms)
qed

end
