(* ===== verification/Gc_Pool.thy ===== *)
theory Gc_Pool
  imports Parrot_Base
begin

text \<open>
  The allocators of small objects of the garbage collector, \<open>src/gc/fixed_allocator.c\<close>
  and \<open>src/gc/fixed_allocator.h\<close>: a pool of objects of one size, and the allocator that
  has one pool for each multiple of eight bytes.

  Addresses are natural numbers, 0 is \<open>NULL\<close>.  \<open>mem a\<close> is the pointer stored in the eight
  bytes from address \<open>a\<close> on: the \<open>next\<close> of an arena or of a free object.  What the code
  takes from elsewhere are arguments: the address \<open>mem_internal_allocate_zeroed\<close> returns,
  the objects of this pool which a run of the collector frees, and what fresh memory holds.
\<close>

type_synonym mem = "nat \<Rightarrow> nat"

definition sizeof_ptr :: nat where "sizeof_ptr = 8"
definition sizeof_arena :: nat where "sizeof_arena = 16"
definition GC_FIXED_SIZE_POOL_SIZE :: nat where "GC_FIXED_SIZE_POOL_SIZE = 4096"
definition ARENA_BOUNDS_PADDING :: nat where "ARENA_BOUNDS_PADDING = 128"

definition NEXT_ARENA_BOUNDS_SIZE :: "nat \<Rightarrow> nat" where
  "NEXT_ARENA_BOUNDS_SIZE n = 2 * (n + ARENA_BOUNDS_PADDING) * sizeof_ptr"

record pool_allocator =
  object_size :: nat
  objects_per_alloc :: nat
  num_free_objects :: u64
  top_arena :: nat
  free_list :: nat
  newfree :: nat
  newlast :: nat
  lo_arena_ptr :: nat
  hi_arena_ptr :: nat
  num_arenas :: nat
  arena_bounds :: "nat list"

definition Parrot_gc_pool_new :: "(nat \<Rightarrow> nat) \<Rightarrow> nat \<Rightarrow> pool_allocator" where
  "Parrot_gc_pool_new junk object_sz =
     (let attrib_size = (if object_sz < sizeof_ptr then sizeof_ptr else object_sz);
          num_objs_raw = (GC_FIXED_SIZE_POOL_SIZE - sizeof_arena) div attrib_size;
          num_objs = (if num_objs_raw = 0 then 1 else num_objs_raw)
      in \<lparr>object_size = attrib_size, objects_per_alloc = num_objs, num_free_objects = 0, top_arena = 0,
          free_list = 0, newfree = 0, newlast = 0, lo_arena_ptr = 2 ^ 64 - 1, hi_arena_ptr = 0, num_arenas = 0,
          arena_bounds = map junk [0..<NEXT_ARENA_BOUNDS_SIZE 0 div sizeof_ptr]\<rparr>)"

section \<open>Allocating and freeing\<close>

definition get_free_list_item :: "pool_allocator \<Rightarrow> mem \<Rightarrow> nat \<times> pool_allocator" where
  "get_free_list_item pool mem =
     (let item = free_list pool
      in (item, pool\<lparr>free_list := mem item, num_free_objects := num_free_objects pool - 1\<rparr>))"

definition get_newfree_list_item :: "pool_allocator \<Rightarrow> nat \<times> pool_allocator" where
  "get_newfree_list_item pool =
     (let item = newfree pool
      in (item, pool\<lparr>newfree := newfree pool + object_size pool, num_free_objects := num_free_objects pool - 1\<rparr>))"

definition pool_free :: "pool_allocator \<times> mem \<Rightarrow> nat \<Rightarrow> pool_allocator \<times> mem" where
  "pool_free s data =
     (let (pool, mem) = s
      in (pool\<lparr>free_list := data, num_free_objects := num_free_objects pool + 1\<rparr>, mem(data := free_list pool)))"

definition arena_size :: "pool_allocator \<Rightarrow> nat" where
  "arena_size self =
     (let total_size = sizeof_arena + object_size self * objects_per_alloc self
      in if total_size < GC_FIXED_SIZE_POOL_SIZE then GC_FIXED_SIZE_POOL_SIZE else total_size)"

definition realloc_words :: "(nat \<Rightarrow> nat) \<Rightarrow> nat list \<Rightarrow> nat \<Rightarrow> nat list" where
  "realloc_words junk m n = take n m @ map junk [length m..<n]"

text \<open>\<open>swept\<close> is what the collector frees, in order; the arena is zeroed at \<open>new_arena\<close>.\<close>

definition allocate_new_pool_arena :: "(nat \<Rightarrow> nat) \<Rightarrow> nat list \<Rightarrow> nat \<Rightarrow> pool_allocator \<times> mem \<Rightarrow> (pool_allocator \<times> mem) option" where
  "allocate_new_pool_arena junk swept new_arena s =
     (let num_items = objects_per_alloc (fst s);
          item_size = object_size (fst s);
          item_space = item_size * num_items;
          total_size = arena_size (fst s);
          (pool, mem) = foldl pool_free s swept;
          mem = (\<lambda>a. if new_arena \<le> a \<and> a < new_arena + total_size then 0 else mem a);
          mem = mem(new_arena := top_arena pool);
          next = new_arena + sizeof_arena;
          last = next + item_space;
          pool = pool\<lparr>top_arena := new_arena, newfree := next, newlast := last,
            num_free_objects := num_free_objects pool + of_nat num_items\<rparr>;
          pool = (if lo_arena_ptr pool > next then pool\<lparr>lo_arena_ptr := next\<rparr> else pool);
          pool = (if hi_arena_ptr pool < last then pool\<lparr>hi_arena_ptr := last\<rparr> else pool);
          pool = (if num_arenas pool mod ARENA_BOUNDS_PADDING = 0
                  then pool\<lparr>arena_bounds := realloc_words junk (arena_bounds pool)
                         (NEXT_ARENA_BOUNDS_SIZE (num_arenas pool) div sizeof_ptr)\<rparr>
                  else pool);
          ptr_idx = num_arenas pool * 2
      in do {
           b \<leftarrow> wr (arena_bounds pool) ptr_idx next;
           b \<leftarrow> wr b (ptr_idx + 1) last;
           Some (pool\<lparr>arena_bounds := b, num_arenas := num_arenas pool + 1\<rparr>, mem)
         })"

definition pool_allocate :: "(nat \<Rightarrow> nat) \<Rightarrow> nat list \<Rightarrow> nat \<Rightarrow> pool_allocator \<times> mem \<Rightarrow> (nat \<times> pool_allocator \<times> mem) option" where
  "pool_allocate junk swept new_arena s =
     (if free_list (fst s) \<noteq> 0
      then (let (item, pool) = get_free_list_item (fst s) (snd s) in Some (item, pool, snd s))
      else do {
        (pool, mem) \<leftarrow> (if newfree (fst s) \<ge> newlast (fst s) then allocate_new_pool_arena junk swept new_arena s else Some s);
        let (item, pool) = get_newfree_list_item pool in Some (item, pool, mem)
      })"

section \<open>Queries and destruction\<close>

definition pool_is_maybe_owned :: "pool_allocator \<Rightarrow> nat \<Rightarrow> bool" where
  "pool_is_maybe_owned pool ptr =
     (if ptr AND 3 \<noteq> 0 then False else lo_arena_ptr pool \<le> ptr \<and> ptr < hi_arena_ptr pool)"

text \<open>The loop over the arenas; \<open>n\<close> are left, \<open>p\<close> is the next one.\<close>

fun pool_is_owned_from :: "pool_allocator \<Rightarrow> nat \<Rightarrow> nat \<Rightarrow> nat \<Rightarrow> bool option" where
  "pool_is_owned_from pool ptr 0 p = Some False"
| "pool_is_owned_from pool ptr (Suc n) p =
     do {
       low \<leftarrow> rd (arena_bounds pool) (2 * p);
       high \<leftarrow> rd (arena_bounds pool) (2 * p + 1);
       if low \<le> ptr \<and> ptr < high \<and> (ptr - low) mod object_size pool = 0 then Some True
       else pool_is_owned_from pool ptr n (p + 1)
     }"

definition pool_is_owned :: "pool_allocator \<Rightarrow> nat \<Rightarrow> bool option" where
  "pool_is_owned pool ptr =
     (if lo_arena_ptr pool \<le> ptr \<and> ptr < hi_arena_ptr pool then pool_is_owned_from pool ptr (num_arenas pool) 0
      else Some False)"

definition Parrot_gc_pool_allocated_size :: "pool_allocator \<Rightarrow> nat" where
  "Parrot_gc_pool_allocated_size pool = num_arenas pool * arena_size pool"

text \<open>The arenas that are freed, in order; the loop does not end on a cyclic list of arenas.\<close>

partial_function (option) Parrot_gc_pool_destroy_from :: "mem \<Rightarrow> nat \<Rightarrow> nat list option" where
  "Parrot_gc_pool_destroy_from mem arena =
     (if arena = 0 then Some []
      else do { freed \<leftarrow> Parrot_gc_pool_destroy_from mem (mem arena); Some (arena # freed) })"

definition Parrot_gc_pool_destroy :: "pool_allocator \<Rightarrow> mem \<Rightarrow> nat list option" where
  "Parrot_gc_pool_destroy pool mem = Parrot_gc_pool_destroy_from mem (top_arena pool)"

section \<open>The allocator of all sizes\<close>

text \<open>\<open>pools\<close> is an array of pointers to pools, \<open>None\<close> for \<open>NULL\<close>; sizes are machine words.\<close>

record fixed_allocator =
  pools :: "pool_allocator option list"
  num_pools :: nat

definition Parrot_gc_fixed_allocator_new :: fixed_allocator where
  "Parrot_gc_fixed_allocator_new = \<lparr>pools = [], num_pools = 0\<rparr>"

definition size_index :: "u64 \<Rightarrow> nat" where
  "size_index sz = unat ((sz - 1) div of_nat sizeof_ptr)"

definition Parrot_gc_fixed_allocator_free :: "fixed_allocator \<times> mem \<Rightarrow> nat \<times> u64 \<Rightarrow> (fixed_allocator \<times> mem) option" where
  "Parrot_gc_fixed_allocator_free s req =
     (let (allocator, mem) = s; (data, sz) = req; index = size_index sz in
      do {
        p \<leftarrow> rd (pools allocator) index;
        pool \<leftarrow> p;
        let (pool, mem) = pool_free (pool, mem) data;
        ps \<leftarrow> wr (pools allocator) index (Some pool);
        Some (allocator\<lparr>pools := ps\<rparr>, mem)
      })"

text \<open>The pool for \<open>index\<close>, made when it is missing.\<close>

definition ensure_pool :: "(nat \<Rightarrow> nat) \<Rightarrow> nat \<Rightarrow> fixed_allocator \<Rightarrow> fixed_allocator" where
  "ensure_pool junk index allocator =
     (if index < num_pools allocator
      then (if rd (pools allocator) index = Some None
            then allocator\<lparr>pools := (pools allocator)[index := Some (Parrot_gc_pool_new junk ((index + 1) * sizeof_ptr))]\<rparr>
            else allocator)
      else (let new_size = index + 1; ps = pools allocator @ replicate (new_size - num_pools allocator) None
            in allocator\<lparr>pools := ps[index := Some (Parrot_gc_pool_new junk (new_size * sizeof_ptr))], num_pools := new_size\<rparr>))"

text \<open>
  A run of the collector inside may free objects of any of the pools, \<open>swept\<close>, by
  their addresses and sizes; those of the other pools are done first.
\<close>

definition Parrot_gc_fixed_allocator_allocate :: "(nat \<Rightarrow> nat) \<Rightarrow> (nat \<times> u64) list \<Rightarrow> nat \<Rightarrow> fixed_allocator \<times> mem \<Rightarrow> u64
    \<Rightarrow> (nat \<times> fixed_allocator \<times> mem) option" where
  "Parrot_gc_fixed_allocator_allocate junk swept new_arena s sz =
     (let (allocator, mem) = s; index = size_index sz in
      do {
        c_assert (sz \<noteq> 0);
        let allocator = ensure_pool junk index allocator;
        p \<leftarrow> rd (pools allocator) index;
        pool \<leftarrow> p;
        (allocator, mem) \<leftarrow>
          (if free_list pool = 0 \<and> newfree pool \<ge> newlast pool
           then fold_opt Parrot_gc_fixed_allocator_free [r \<leftarrow> swept. size_index (snd r) \<noteq> index] (allocator, mem)
           else Some (allocator, mem));
        (item, pool, mem) \<leftarrow> pool_allocate junk [fst r. r \<leftarrow> swept, size_index (snd r) = index] new_arena (pool, mem);
        ps \<leftarrow> wr (pools allocator) index (Some pool);
        Some (item, allocator\<lparr>pools := ps\<rparr>, mem)
      })"

fun allocated_memory_from :: "pool_allocator option list \<Rightarrow> nat \<Rightarrow> nat \<Rightarrow> nat \<Rightarrow> nat option" where
  "allocated_memory_from ps 0 i acc = Some acc"
| "allocated_memory_from ps (Suc n) i acc =
     do {
       p \<leftarrow> rd ps i;
       allocated_memory_from ps n (i + 1)
         (case p of None \<Rightarrow> acc | Some pool \<Rightarrow> acc + Parrot_gc_pool_allocated_size pool)
     }"

definition Parrot_gc_fixed_allocator_allocated_memory :: "fixed_allocator \<Rightarrow> nat option" where
  "Parrot_gc_fixed_allocator_allocated_memory allocator = allocated_memory_from (pools allocator) (num_pools allocator) 0 0"

fun fixed_allocator_destroy_from :: "pool_allocator option list \<Rightarrow> mem \<Rightarrow> nat \<Rightarrow> nat \<Rightarrow> nat list option" where
  "fixed_allocator_destroy_from ps mem 0 i = Some []"
| "fixed_allocator_destroy_from ps mem (Suc n) i =
     do {
       p \<leftarrow> rd ps i;
       freed \<leftarrow> (case p of None \<Rightarrow> Some [] | Some pool \<Rightarrow> Parrot_gc_pool_destroy pool mem);
       rest \<leftarrow> fixed_allocator_destroy_from ps mem n (i + 1);
       Some (freed @ rest)
     }"

definition Parrot_gc_fixed_allocator_destroy :: "fixed_allocator \<Rightarrow> mem \<Rightarrow> nat list option" where
  "Parrot_gc_fixed_allocator_destroy allocator mem = fixed_allocator_destroy_from (pools allocator) mem (num_pools allocator) 0"

end
