(* ===== verification/Gc_Pool_Rep.thy ===== *)
theory Gc_Pool_Rep
  imports Gc_Pool
begin

text \<open>
  What a pool in use looks like: its arenas, the list of free objects, the objects of the
  newest arena that were never handed out, and the objects in use.  Every operation keeps
  this, and it depends on the memory of the arenas only.
\<close>

section \<open>Linked lists in memory\<close>

fun linked :: "mem \<Rightarrow> nat \<Rightarrow> nat list \<Rightarrow> bool" where
  "linked mem p [] \<longleftrightarrow> p = 0"
| "linked mem p (x # xs) \<longleftrightarrow> p = x \<and> x \<noteq> 0 \<and> linked mem (mem x) xs"

lemma linked_cong: "linked mem p xs \<Longrightarrow> (\<And>x. x \<in> set xs \<Longrightarrow> mem' x = mem x) \<Longrightarrow> linked mem' p xs"
  by (induction xs arbitrary: p) simp_all

lemma linked_push: "linked mem p xs \<Longrightarrow> x \<noteq> 0 \<Longrightarrow> x \<notin> set xs \<Longrightarrow> linked (mem(x := p)) x (x # xs)"
  by (auto intro: linked_cong)

lemma linked_0: "linked mem 0 xs \<longleftrightarrow> xs = []"
  by (cases xs) auto

lemma linked_nonzero: "linked mem p xs \<Longrightarrow> p \<noteq> 0 \<longleftrightarrow> xs \<noteq> []"
  by (cases xs) auto

section \<open>Arenas and objects\<close>

definition arena_range :: "pool_allocator \<Rightarrow> nat \<Rightarrow> nat set" where
  "arena_range pool b = {b..<b + arena_size pool}"

definition arena_objects :: "pool_allocator \<Rightarrow> nat \<Rightarrow> nat list" where
  "arena_objects pool b = map (\<lambda>i. b + sizeof_arena + i * object_size pool) [0..<objects_per_alloc pool]"

definition extent :: "pool_allocator \<Rightarrow> nat \<Rightarrow> nat set" where
  "extent pool p = {p..<p + object_size pool}"

definition bounds_of :: "pool_allocator \<Rightarrow> nat list \<Rightarrow> nat list" where
  "bounds_of pool as =
     concat (map (\<lambda>b. [b + sizeof_arena, b + sizeof_arena + object_size pool * objects_per_alloc pool]) as)"

definition fresh_objects :: "pool_allocator \<Rightarrow> nat \<Rightarrow> nat list" where
  "fresh_objects pool k = map (\<lambda>i. newfree pool + i * object_size pool) [0..<k]"

definition apart :: "pool_allocator \<Rightarrow> nat list \<Rightarrow> bool" where
  "apart pool as \<longleftrightarrow> distinct as \<and> (\<forall>a \<in> set as. \<forall>b \<in> set as. a \<noteq> b \<longrightarrow> arena_range pool a \<inter> arena_range pool b = {})"

lemma length_bounds_of [simp]: "length (bounds_of pool as) = 2 * length as"
  by (induction as) (simp_all add: bounds_of_def)

lemma arena_size_ge: "sizeof_arena + object_size pool * objects_per_alloc pool \<le> arena_size pool"
  by (simp add: arena_size_def Let_def)

lemma arena_objects_iff:
  "p \<in> set (arena_objects pool b) \<longleftrightarrow> (\<exists>i < objects_per_alloc pool. p = b + sizeof_arena + i * object_size pool)"
  unfolding arena_objects_def set_map atLeast_upt [symmetric] by blast

lemma arena_object_extent:
  assumes "p \<in> set (arena_objects pool b)"
  shows "extent pool p \<subseteq> {b + sizeof_arena..<b + sizeof_arena + object_size pool * objects_per_alloc pool}"
proof -
  obtain i where i: "p = b + sizeof_arena + i * object_size pool" "i < objects_per_alloc pool"
    using assms unfolding arena_objects_iff by blast
  then have "Suc i * object_size pool \<le> objects_per_alloc pool * object_size pool" by (intro mult_le_mono1) simp
  then show ?thesis using i by (auto simp: extent_def mult.commute)
qed

lemma arena_object_range: "p \<in> set (arena_objects pool b) \<Longrightarrow> extent pool p \<subseteq> arena_range pool b"
  using arena_object_extent [of p pool b] arena_size_ge [of pool] by (fastforce simp: arena_range_def)

lemma extent_self: "0 < object_size pool \<Longrightarrow> p \<in> extent pool p"
  by (simp add: extent_def)

lemma arena_objects_extents:
  assumes "p \<in> set (arena_objects pool b)" "q \<in> set (arena_objects pool b)" "p \<noteq> q"
  shows "extent pool p \<inter> extent pool q = {}"
proof -
  obtain i j where ij: "p = b + sizeof_arena + i * object_size pool" "q = b + sizeof_arena + j * object_size pool"
    using assms(1,2) unfolding arena_objects_iff by blast
  with assms(3) have "i < j \<or> j < i" by auto
  then have "Suc i * object_size pool \<le> j * object_size pool \<or> Suc j * object_size pool \<le> i * object_size pool"
    by (auto intro: mult_le_mono1 simp: Suc_le_eq simp del: mult_Suc)
  then show ?thesis using ij by (auto simp: extent_def)
qed

lemma distinct_arena_objects: "0 < object_size pool \<Longrightarrow> distinct (arena_objects pool b)"
  by (auto simp: arena_objects_def distinct_map inj_on_def)

lemma objects_extents:
  assumes "apart pool as" "a \<in> set as" "b \<in> set as" "p \<in> set (arena_objects pool a)" "q \<in> set (arena_objects pool b)" "p \<noteq> q"
  shows "extent pool p \<inter> extent pool q = {}"
proof (cases "a = b")
  case True
  then show ?thesis using arena_objects_extents assms(4-6) by blast
next
  case False
  then have "arena_range pool a \<inter> arena_range pool b = {}" using assms(1-3) by (simp add: apart_def)
  then show ?thesis using arena_object_range [OF assms(4)] arena_object_range [OF assms(5)] by blast
qed

lemma header_not_object:
  assumes "apart pool as" "a \<in> set as" "b \<in> set as" "0 < object_size pool"
  shows "a \<notin> set (arena_objects pool b)"
proof
  assume o: "a \<in> set (arena_objects pool b)"
  have "a \<in> extent pool a" using assms(4) by (rule extent_self)
  then have r: "a \<in> arena_range pool b" "b + sizeof_arena \<le> a" using arena_object_range [OF o] arena_object_extent [OF o] by auto
  moreover have "a \<in> arena_range pool a" using arena_size_ge [of pool] by (simp add: arena_range_def sizeof_arena_def)
  moreover from r(2) have "a \<noteq> b" by (simp add: sizeof_arena_def)
  ultimately show False using assms(1-3) unfolding apart_def by blast
qed

section \<open>The invariant\<close>

definition pool_objects :: "pool_allocator \<Rightarrow> nat list \<Rightarrow> nat set" where
  "pool_objects pool as = (\<Union>b \<in> set as. set (arena_objects pool b))"

text \<open>
  \<open>as\<close> are the arenas, oldest first, \<open>fl\<close> the free list, \<open>k\<close> the number of objects never
  handed out and \<open>L\<close> the objects in use.
\<close>

definition pool_inv :: "pool_allocator \<Rightarrow> mem \<Rightarrow> nat list \<Rightarrow> nat list \<Rightarrow> nat \<Rightarrow> nat set \<Rightarrow> bool" where
  "pool_inv pool mem as fl k L \<longleftrightarrow>
     sizeof_ptr \<le> object_size pool \<and> 0 < objects_per_alloc pool
     \<and> num_arenas pool = length as \<and> (\<exists>rest. arena_bounds pool = bounds_of pool as @ rest) \<and> 256 dvd length (arena_bounds pool)
     \<and> apart pool as \<and> (\<forall>b \<in> set as. 0 < b \<and> b + arena_size pool < 2 ^ 64)
     \<and> (\<forall>b \<in> set as. lo_arena_ptr pool \<le> b + sizeof_arena
          \<and> b + sizeof_arena + object_size pool * objects_per_alloc pool \<le> hi_arena_ptr pool)
     \<and> linked mem (top_arena pool) (rev as) \<and> linked mem (free_list pool) fl
     \<and> newlast pool = newfree pool + k * object_size pool \<and> num_free_objects pool = of_nat (length fl + k)
     \<and> distinct (fl @ fresh_objects pool k) \<and> L \<inter> set (fl @ fresh_objects pool k) = {}
     \<and> L \<union> set (fl @ fresh_objects pool k) = pool_objects pool as"

lemma pool_invD:
  assumes "pool_inv pool mem as fl k L"
  shows "0 < object_size pool" "apart pool as" "linked mem (free_list pool) fl" "linked mem (top_arena pool) (rev as)"
    "num_arenas pool = length as" "newlast pool = newfree pool + k * object_size pool" "L \<subseteq> pool_objects pool as"
    "set fl \<subseteq> pool_objects pool as" "\<forall>b \<in> set as. 0 < b" "distinct fl" "L \<inter> set fl = {}"
  using assms by (auto simp: pool_inv_def sizeof_ptr_def)

lemma pool_objects_extents:
  assumes "apart pool as" "p \<in> pool_objects pool as" "q \<in> pool_objects pool as" "p \<noteq> q"
  shows "extent pool p \<inter> extent pool q = {}"
proof -
  obtain a b where "a \<in> set as" "b \<in> set as" "p \<in> set (arena_objects pool a)" "q \<in> set (arena_objects pool b)"
    using assms(2,3) unfolding pool_objects_def by blast
  then show ?thesis using objects_extents [OF assms(1)] assms(4) by blast
qed

lemma pool_object_not_0: "\<forall>b \<in> set as. 0 < b \<Longrightarrow> p \<in> pool_objects pool as \<Longrightarrow> p \<noteq> 0"
  by (auto simp: pool_objects_def arena_objects_iff)

lemma pool_object_not_header: "pool_inv pool mem as fl k L \<Longrightarrow> p \<in> pool_objects pool as \<Longrightarrow> p \<notin> set as"
  using header_not_object pool_invD(1,2) by (metis UN_iff pool_objects_def)

text \<open>Only the memory of the arenas matters, and of it not what is in the objects in use.\<close>

lemma pool_inv_mem:
  assumes "pool_inv pool mem as fl k L" "\<And>a. a \<in> set as \<union> set fl \<Longrightarrow> mem' a = mem a"
  shows "pool_inv pool mem' as fl k L"
proof -
  have "linked mem' (top_arena pool) (rev as)" by (rule linked_cong [OF pool_invD(4)]) (use assms in auto)
  moreover have "linked mem' (free_list pool) fl" by (rule linked_cong [OF pool_invD(3)]) (use assms in auto)
  ultimately show ?thesis using assms(1) unfolding pool_inv_def by blast
qed

lemma kept_in_range:
  assumes inv: "pool_inv pool mem as fl k L" and a: "a \<in> set as \<union> pool_objects pool as"
  shows "a \<in> (\<Union>b \<in> set as. arena_range pool b)"
proof (cases "a \<in> set as")
  case True
  then show ?thesis using arena_size_ge [of pool] by (auto simp: arena_range_def sizeof_arena_def)
next
  case False
  then obtain b where b: "b \<in> set as" "a \<in> set (arena_objects pool b)" using a by (auto simp: pool_objects_def)
  then show ?thesis using arena_object_range [OF b(2)] extent_self [OF pool_invD(1) [OF inv]] by blast
qed

lemma pool_inv_frame:
  assumes "pool_inv pool mem as fl k L" "\<And>a. a \<in> (\<Union>b \<in> set as. arena_range pool b) \<Longrightarrow> mem' a = mem a"
  shows "pool_inv pool mem' as fl k L"
  by (rule pool_inv_mem [OF assms(1)]) (use kept_in_range [OF assms(1)] pool_invD(8) [OF assms(1)] assms(2) in blast)

section \<open>The operations\<close>

lemma Parrot_gc_pool_new_inv: "pool_inv (Parrot_gc_pool_new junk sz) mem [] [] 0 {}"
  by (simp add: pool_inv_def Parrot_gc_pool_new_def Let_def bounds_of_def apart_def fresh_objects_def pool_objects_def
      NEXT_ARENA_BOUNDS_SIZE_def ARENA_BOUNDS_PADDING_def sizeof_ptr_def sizeof_arena_def GC_FIXED_SIZE_POOL_SIZE_def)

text \<open>What the operations change: nothing the arenas and their objects depend on.\<close>

lemma pool_geometry [simp]:
  "object_size (pool\<lparr>free_list := f\<rparr>) = object_size pool"
  "arena_size (pool\<lparr>free_list := f, num_free_objects := n\<rparr>) = arena_size pool"
  "arena_size (pool\<lparr>newfree := f, num_free_objects := n\<rparr>) = arena_size pool"
  by (simp_all add: arena_size_def)

lemma pool_free_inv:
  assumes "pool_inv pool mem as fl k L" "p \<in> L"
  shows "\<exists>pool' mem'. pool_free (pool, mem) p = (pool', mem') \<and> pool_inv pool' mem' as (p # fl) k (L - {p})
    \<and> mem' = mem(p := free_list pool) \<and> pool' = pool\<lparr>free_list := p, num_free_objects := num_free_objects pool + 1\<rparr>"
proof -
  have p: "p \<in> pool_objects pool as" "p \<notin> set fl" using pool_invD(7,11) [OF assms(1)] assms(2) by auto
  have "p \<noteq> 0" using pool_object_not_0 [OF pool_invD(9) [OF assms(1)] p(1)] .
  then have l: "linked (mem(p := free_list pool)) p (p # fl)"
    using linked_push [OF pool_invD(3) [OF assms(1)]] p(2) by blast
  have t: "linked (mem(p := free_list pool)) (top_arena pool) (rev as)"
    by (rule linked_cong [OF pool_invD(4) [OF assms(1)]]) (use pool_object_not_header [OF assms(1) p(1)] in auto)
  let ?pool = "pool\<lparr>free_list := p, num_free_objects := num_free_objects pool + 1\<rparr>"
  have same: "apart ?pool = apart pool" "bounds_of ?pool = bounds_of pool" "fresh_objects ?pool = fresh_objects pool"
    "pool_objects ?pool = pool_objects pool"
    by (simp_all add: fun_eq_iff apart_def arena_range_def bounds_of_def fresh_objects_def pool_objects_def arena_objects_def)
  have "pool_inv ?pool (mem(p := free_list pool)) as (p # fl) k (L - {p})"
    unfolding pool_inv_def same using assms l t p(2) unfolding pool_inv_def by auto
  then show ?thesis by (simp add: pool_free_def)
qed

lemma pool_free_all_inv:
  assumes "pool_inv pool mem as fl k L" "distinct ps" "set ps \<subseteq> L"
  shows "\<exists>pool' mem'. foldl pool_free (pool, mem) ps = (pool', mem') \<and> pool_inv pool' mem' as (rev ps @ fl) k (L - set ps)
    \<and> (\<exists>f n. pool' = pool\<lparr>free_list := f, num_free_objects := n\<rparr>)
    \<and> (\<forall>a. a \<notin> set ps \<longrightarrow> mem' a = mem a)"
  using assms
proof (induction ps arbitrary: pool mem fl L)
  case Nil
  have "\<exists>f n. pool = pool\<lparr>free_list := f, num_free_objects := n\<rparr>"
    by (rule exI [of _ "free_list pool"], rule exI [of _ "num_free_objects pool"]) simp
  then show ?case using Nil.prems by auto
next
  case (Cons p ps)
  obtain pool1 mem1 where f: "pool_free (pool, mem) p = (pool1, mem1)" "pool_inv pool1 mem1 as (p # fl) k (L - {p})"
    "mem1 = mem(p := free_list pool)" "pool1 = pool\<lparr>free_list := p, num_free_objects := num_free_objects pool + 1\<rparr>"
    using pool_free_inv [OF Cons.prems(1), of p] Cons.prems(3) by auto
  have "distinct ps" and sub: "set ps \<subseteq> L - {p}" using Cons.prems(2,3) by auto
  obtain pool2 mem2 where g: "foldl pool_free (pool1, mem1) ps = (pool2, mem2)"
    "pool_inv pool2 mem2 as (rev ps @ p # fl) k (L - {p} - set ps)"
    "\<exists>f n. pool2 = pool1\<lparr>free_list := f, num_free_objects := n\<rparr>" "\<forall>a. a \<notin> set ps \<longrightarrow> mem2 a = mem1 a"
    using Cons.IH [OF f(2)] \<open>distinct ps\<close> sub by blast
  have "L - {p} - set ps = L - set (p # ps)" by auto
  then show ?case using f g by auto
qed

lemma get_free_list_item_inv:
  assumes "pool_inv pool mem as (x # fl) k L"
  shows "\<exists>pool'. get_free_list_item pool mem = (x, pool') \<and> pool_inv pool' mem as fl k (insert x L) \<and> x \<notin> L
    \<and> object_size pool' = object_size pool \<and> objects_per_alloc pool' = objects_per_alloc pool"
proof -
  have f: "free_list pool = x" "linked mem (mem x) fl" using pool_invD(3) [OF assms] by auto
  let ?pool = "pool\<lparr>free_list := mem x, num_free_objects := num_free_objects pool - 1\<rparr>"
  have same: "apart ?pool = apart pool" "bounds_of ?pool = bounds_of pool" "fresh_objects ?pool = fresh_objects pool"
    "pool_objects ?pool = pool_objects pool"
    by (simp_all add: fun_eq_iff apart_def arena_range_def bounds_of_def fresh_objects_def pool_objects_def arena_objects_def)
  have "pool_inv ?pool mem as fl k (insert x L)"
    unfolding pool_inv_def same using assms f unfolding pool_inv_def by auto
  moreover have "x \<notin> L" using pool_invD(11) [OF assms] by auto
  ultimately show ?thesis using f by (simp add: get_free_list_item_def Let_def)
qed

lemma fresh_objects_Suc:
  "fresh_objects pool (Suc k) = newfree pool # fresh_objects (pool\<lparr>newfree := newfree pool + object_size pool\<rparr>) k"
  unfolding fresh_objects_def upt_conv_Cons [OF zero_less_Suc] map_Suc_upt [symmetric] list.map map_map
  by (simp add: add.assoc)

lemma get_newfree_list_item_inv:
  assumes "pool_inv pool mem as fl (Suc k) L"
  shows "\<exists>x pool'. get_newfree_list_item pool = (x, pool') \<and> pool_inv pool' mem as fl k (insert x L) \<and> x \<notin> L
    \<and> object_size pool' = object_size pool \<and> objects_per_alloc pool' = objects_per_alloc pool"
proof -
  let ?x = "newfree pool"
  let ?pool = "pool\<lparr>newfree := ?x + object_size pool, num_free_objects := num_free_objects pool - 1\<rparr>"
  have same: "apart ?pool = apart pool" "bounds_of ?pool = bounds_of pool" "pool_objects ?pool = pool_objects pool"
    by (simp_all add: fun_eq_iff apart_def arena_range_def bounds_of_def pool_objects_def arena_objects_def)
  have fresh: "fresh_objects pool (Suc k) = ?x # fresh_objects ?pool k"
    unfolding fresh_objects_Suc by (simp add: fresh_objects_def)
  have "pool_inv ?pool mem as fl k (insert ?x L)"
    unfolding pool_inv_def same using assms unfolding pool_inv_def fresh by auto
  moreover have "?x \<notin> L" using assms unfolding pool_inv_def fresh by auto
  ultimately show ?thesis by (simp add: get_newfree_list_item_def Let_def)
qed

section \<open>New arenas\<close>

text \<open>What \<open>calloc\<close> promises: memory that overlaps none of the arenas.\<close>

definition arenas :: "pool_allocator \<Rightarrow> nat list" where
  "arenas pool = map (\<lambda>i. arena_bounds pool ! (2 * i) - sizeof_arena) [0..<num_arenas pool]"

definition malloc_ok :: "pool_allocator \<Rightarrow> nat \<Rightarrow> bool" where
  "malloc_ok pool b \<longleftrightarrow> 0 < b \<and> b + arena_size pool < 2 ^ 64
     \<and> (\<forall>a \<in> set (arenas pool). arena_range pool a \<inter> arena_range pool b = {})"

lemma bounds_of_nth: "i < length as \<Longrightarrow> (bounds_of pool as @ rest) ! (2 * i) = as ! i + sizeof_arena"
proof (induction as arbitrary: i)
  case (Cons a as)
  show ?case
  proof (cases i)
    case (Suc j)
    then have "(bounds_of pool as @ rest) ! (2 * j) = as ! j + sizeof_arena" using Cons by simp
    then show ?thesis using Suc by (simp add: bounds_of_def)
  qed (simp add: bounds_of_def)
qed simp

lemma arenas_eq: "pool_inv pool mem as fl k L \<Longrightarrow> arenas pool = as"
  by (rule nth_equalityI) (auto simp: pool_inv_def arenas_def bounds_of_nth)

lemma bounds_of_snoc:
  "bounds_of pool (as @ [b]) = bounds_of pool as @ [b + sizeof_arena, b + sizeof_arena + object_size pool * objects_per_alloc pool]"
  by (simp add: bounds_of_def)

lemma update_bounds:
  assumes "2 \<le> length rest"
  shows "do { b \<leftarrow> wr (bounds_of pool as @ rest) (length as * 2) x; wr b (length as * 2 + 1) y }
    = Some (bounds_of pool as @ [x, y] @ drop 2 rest)"
proof -
  obtain u v rest' where r: "rest = u # v # rest'" using assms by (cases rest; cases "tl rest") auto
  have n: "length as * 2 = length (bounds_of pool as)" by simp
  have "wr (bounds_of pool as @ rest) (length as * 2) x = Some (bounds_of pool as @ x # v # rest')"
    unfolding n r by (rule wr_append)
  moreover have "wr ((bounds_of pool as @ [x]) @ v # rest') (length (bounds_of pool as @ [x])) y
      = Some ((bounds_of pool as @ [x]) @ y # rest')" by (rule wr_append)
  ultimately show ?thesis using r by (simp add: mult.commute)
qed

lemma bounds_room:
  assumes "arena_bounds pool = bounds_of pool as @ rest" "256 dvd length (arena_bounds pool)" "num_arenas pool = length as"
  shows "\<exists>rest'. (if num_arenas pool mod ARENA_BOUNDS_PADDING = 0
      then realloc_words junk (arena_bounds pool) (NEXT_ARENA_BOUNDS_SIZE (num_arenas pool) div sizeof_ptr)
      else arena_bounds pool) = bounds_of pool as @ rest' \<and> 2 \<le> length rest' \<and> 256 dvd length (bounds_of pool as @ rest')"
proof -
  define n where "n = length as"
  have len: "length (arena_bounds pool) = 2 * n + length rest" using assms(1) by (simp add: n_def)
  have num: "num_arenas pool = n" using assms(3) by (simp add: n_def)
  show ?thesis
  proof (cases "n mod 128 = 0")
    case False
    have "2 \<le> length rest"
    proof (rule ccontr)
      assume "\<not> 2 \<le> length rest"
      then have "length rest = 0 \<or> length rest = 1" by linarith
      moreover obtain c where "2 * n + length rest = 256 * c" using assms(2) unfolding len by (auto elim: dvdE)
      ultimately have "n = 128 * c" by presburger
      then show False using False by simp
    qed
    then show ?thesis using False assms(1,2) num by (auto simp: ARENA_BOUNDS_PADDING_def)
  next
    case True
    have size: "NEXT_ARENA_BOUNDS_SIZE n div sizeof_ptr = 2 * n + 256"
      by (simp add: NEXT_ARENA_BOUNDS_SIZE_def ARENA_BOUNDS_PADDING_def sizeof_ptr_def)
    obtain c where "n = 128 * c" using True by (auto elim: dvdE simp: mod_eq_0_iff_dvd)
    then have "256 dvd 2 * n + 256" by simp
    moreover have "realloc_words junk (arena_bounds pool) (2 * n + 256)
        = bounds_of pool as @ (take 256 rest @ map junk [2 * n + length rest..<2 * n + 256])"
      by (simp add: realloc_words_def assms(1) n_def)
    moreover have "length (take 256 rest @ map junk [2 * n + length rest..<2 * n + 256]) = 256" by simp
    ultimately show ?thesis
      using True num size unfolding ARENA_BOUNDS_PADDING_def
      by (intro exI [of _ "take 256 rest @ map junk [2 * n + length rest..<2 * n + 256]"]) (simp add: n_def)
  qed
qed

text \<open>A pool with nothing left to hand out from its newest arena gets a new one.\<close>

lemma apart_snoc:
  assumes "apart pool as" "\<forall>a \<in> set as. arena_range pool a \<inter> arena_range pool b = {}"
  shows "apart pool (as @ [b])"
proof -
  have "x \<in> arena_range pool x" for x using arena_size_ge [of pool] by (simp add: arena_range_def sizeof_arena_def)
  then have "b \<notin> set as" using assms(2) by blast
  then show ?thesis using assms by (auto simp: apart_def Int_commute)
qed

lemma new_arena_inv:
  assumes inv: "pool_inv pool mem as fl 0 L" and b: "malloc_ok pool b"
    and pool': "object_size pool' = object_size pool" "objects_per_alloc pool' = objects_per_alloc pool"
      "num_arenas pool' = num_arenas pool + 1" "free_list pool' = free_list pool" "top_arena pool' = b"
      "newfree pool' = b + sizeof_arena" "newlast pool' = b + sizeof_arena + object_size pool * objects_per_alloc pool"
      "num_free_objects pool' = num_free_objects pool + of_nat (objects_per_alloc pool)"
      "lo_arena_ptr pool' = min (lo_arena_ptr pool) (b + sizeof_arena)"
      "hi_arena_ptr pool' = max (hi_arena_ptr pool) (b + sizeof_arena + object_size pool * objects_per_alloc pool)"
    and bounds: "arena_bounds pool' = bounds_of pool (as @ [b]) @ rest" "256 dvd length (arena_bounds pool')"
    and mem': "mem' b = top_arena pool" "\<And>a. a \<notin> arena_range pool b \<Longrightarrow> mem' a = mem a"
  shows "pool_inv pool' mem' (as @ [b]) fl (objects_per_alloc pool) L"
proof -
  have same: "apart pool' = apart pool" "bounds_of pool' = bounds_of pool" "pool_objects pool' = pool_objects pool"
    "arena_size pool' = arena_size pool" "arena_objects pool' = arena_objects pool"
    using pool'(1,2) by (simp_all add: fun_eq_iff apart_def arena_range_def bounds_of_def pool_objects_def arena_objects_def arena_size_def)
  have range: "\<forall>a \<in> set as. arena_range pool a \<inter> arena_range pool b = {}"
    using b arenas_eq [OF inv] by (simp add: malloc_ok_def)
  have ap: "apart pool (as @ [b])" using pool_invD(2) [OF inv] range by (rule apart_snoc)
  have fresh: "fresh_objects pool' (objects_per_alloc pool) = arena_objects pool b"
    using pool'(1,6) by (simp add: fresh_objects_def arena_objects_def)
  have sz: "0 < object_size pool" using pool_invD(1) [OF inv] .
  have old: "x \<notin> arena_range pool b" if "x \<in> set as \<union> pool_objects pool as" for x
    using kept_in_range [OF inv that] range by blast
  have new: "set (arena_objects pool b) \<subseteq> arena_range pool b" using arena_object_range extent_self [OF sz] by blast
  have "linked mem' (top_arena pool) (rev as)"
    by (rule linked_cong [OF pool_invD(4) [OF inv]]) (use mem'(2) old in auto)
  then have top: "linked mem' (top_arena pool') (rev (as @ [b]))"
    using mem'(1) pool'(5) b by (simp add: malloc_ok_def)
  have fr: "linked mem' (free_list pool') fl" unfolding pool'(4)
    by (rule linked_cong [OF pool_invD(3) [OF inv]]) (use mem'(2) old pool_invD(8) [OF inv] in auto)
  have objs: "L \<union> set fl = pool_objects pool as" "L \<inter> set fl = {}" "distinct fl" "num_free_objects pool = of_nat (length fl)"
    using inv unfolding pool_inv_def fresh_objects_def by auto
  have d: "distinct (fl @ arena_objects pool b)" "L \<inter> set (fl @ arena_objects pool b) = {}"
    using distinct_arena_objects [OF sz, of b] objs old new by auto
  have u: "L \<union> set (fl @ arena_objects pool b) = pool_objects pool (as @ [b])"
    using objs(1) by (auto simp: pool_objects_def)
  have nf: "num_free_objects pool' = of_nat (length fl + objects_per_alloc pool)" using pool'(8) objs(4) by simp
  show ?thesis
    unfolding pool_inv_def same fresh pool'(9,10) top fr bounds(1) using inv b pool'(1-3,6,7) ap top fr d u nf bounds
    unfolding pool_inv_def malloc_ok_def by (auto simp: mult.commute)
qed

definition needs_arena :: "pool_allocator \<Rightarrow> bool" where
  "needs_arena pool \<longleftrightarrow> free_list pool = 0 \<and> newfree pool \<ge> newlast pool"

lemma needs_arena_iff: "pool_inv pool mem as fl k L \<Longrightarrow> needs_arena pool \<longleftrightarrow> fl = [] \<and> k = 0"
  using pool_invD(1,6) [of pool mem as fl k L] linked_nonzero [OF pool_invD(3), of pool mem as fl k L]
  by (auto simp: needs_arena_def)

lemma set_lo: "(if x < lo_arena_ptr p then p\<lparr>lo_arena_ptr := x\<rparr> else p) = p\<lparr>lo_arena_ptr := min (lo_arena_ptr p) x\<rparr>"
  by (simp add: min_def)

lemma set_hi: "(if hi_arena_ptr p < x then p\<lparr>hi_arena_ptr := x\<rparr> else p) = p\<lparr>hi_arena_ptr := max (hi_arena_ptr p) x\<rparr>"
  by (simp add: max_def)

lemma set_bounds: "(if c then p\<lparr>arena_bounds := x\<rparr> else p) = p\<lparr>arena_bounds := if c then x else arena_bounds p\<rparr>"
  by simp

lemma allocate_new_pool_arena_inv:
  assumes inv: "pool_inv pool mem as fl 0 L" and b: "malloc_ok pool b" and sw: "distinct swept" "set swept \<subseteq> L"
  shows "\<exists>pool' mem'. allocate_new_pool_arena junk swept b (pool, mem) = Some (pool', mem')
    \<and> pool_inv pool' mem' (as @ [b]) (rev swept @ fl) (objects_per_alloc pool) (L - set swept)
    \<and> object_size pool' = object_size pool \<and> objects_per_alloc pool' = objects_per_alloc pool
    \<and> (\<forall>a. a \<notin> arena_range pool b \<union> set swept \<longrightarrow> mem' a = mem a)"
proof -
  obtain pool1 mem1 f n where s: "foldl pool_free (pool, mem) swept = (pool1, mem1)"
    "pool_inv pool1 mem1 as (rev swept @ fl) 0 (L - set swept)" "pool1 = pool\<lparr>free_list := f, num_free_objects := n\<rparr>"
    "\<forall>a. a \<notin> set swept \<longrightarrow> mem1 a = mem a"
    using pool_free_all_inv [OF inv sw] by blast
  have g: "object_size pool1 = object_size pool" "objects_per_alloc pool1 = objects_per_alloc pool"
    "arena_size pool1 = arena_size pool" "arenas pool1 = arenas pool" "bounds_of pool1 = bounds_of pool"
    using s(3) by (simp_all add: arena_size_def arenas_def fun_eq_iff bounds_of_def)
  then have ok: "malloc_ok pool1 b" and rg: "arena_range pool1 b = arena_range pool b"
    using b by (simp_all add: malloc_ok_def arena_range_def)
  obtain rest0 where r0: "arena_bounds pool1 = bounds_of pool1 as @ rest0" "256 dvd length (arena_bounds pool1)"
    "num_arenas pool1 = length as" using s(2) unfolding pool_inv_def by blast
  from bounds_room [OF this, of junk] obtain rest where r: "(if num_arenas pool1 mod ARENA_BOUNDS_PADDING = 0
      then realloc_words junk (arena_bounds pool1) (NEXT_ARENA_BOUNDS_SIZE (num_arenas pool1) div sizeof_ptr)
      else arena_bounds pool1) = bounds_of pool1 as @ rest" "2 \<le> length rest" "256 dvd length (bounds_of pool1 as @ rest)" by blast
  define nx where "nx = b + sizeof_arena"
  define ls where "ls = nx + object_size pool * objects_per_alloc pool"
  define bnds where "bnds = bounds_of pool1 as @ [nx, ls] @ drop 2 rest"
  define pool' where "pool' = pool1\<lparr>top_arena := b, newfree := nx, newlast := ls,
    num_free_objects := num_free_objects pool1 + of_nat (objects_per_alloc pool),
    lo_arena_ptr := min (lo_arena_ptr pool1) nx, hi_arena_ptr := max (hi_arena_ptr pool1) ls,
    arena_bounds := bnds, num_arenas := num_arenas pool1 + 1\<rparr>"
  define mem' where "mem' = (\<lambda>a. if b \<le> a \<and> a < b + arena_size pool then 0 else mem1 a) (b := top_arena pool1)"
  have wr: "do { bs \<leftarrow> wr (bounds_of pool1 as @ rest) (length as * 2) nx; wr bs (length as * 2 + 1) ls } = Some bnds"
    unfolding bnds_def by (rule update_bounds [OF r(2)])
  obtain bs where bs: "wr (bounds_of pool1 as @ rest) (length as * 2) nx = Some bs" "wr bs (length as * 2 + 1) ls = Some bnds"
    using wr by (auto simp: bind_eq_Some_conv)
  have "allocate_new_pool_arena junk swept b (pool, mem) = Some (pool', mem')"
    using bs g s(1) r(1) r0(3)
    by (cases "length as mod ARENA_BOUNDS_PADDING = 0")
      (simp_all add: allocate_new_pool_arena_def Let_def set_lo set_hi set_bounds pool'_def mem'_def nx_def ls_def)
  moreover have "pool_inv pool' mem' (as @ [b]) (rev swept @ fl) (objects_per_alloc pool) (L - set swept)"
    unfolding g(2) [symmetric]
  proof (rule new_arena_inv [OF s(2) ok])
    show "arena_bounds pool' = bounds_of pool1 (as @ [b]) @ drop 2 rest"
      by (simp add: pool'_def bnds_def bounds_of_snoc nx_def ls_def g)
    have "length bnds = length (bounds_of pool1 as @ rest)" using r(2) by (simp add: bnds_def)
    then show "256 dvd length (arena_bounds pool')" using r(3) by (simp add: pool'_def)
    show "mem' b = top_arena pool1" by (simp add: mem'_def)
    show "mem' a = mem1 a" if "a \<notin> arena_range pool1 b" for a
      using that arena_size_ge [of pool1] unfolding rg by (auto simp: mem'_def arena_range_def sizeof_arena_def g)
  qed (simp_all add: pool'_def nx_def ls_def g)
  moreover have "mem' a = mem a" if "a \<notin> arena_range pool b \<union> set swept" for a
    using that s(4) arena_size_ge [of pool] by (auto simp: mem'_def arena_range_def sizeof_arena_def)
  ultimately show ?thesis using g by (auto simp: pool'_def)
qed

end
