(* ===== verification/Gc_Pool_Steps.thy ===== *)
theory Gc_Pool_Steps
  imports Gc_Pool_Rep
begin

text \<open>
  The pool and its clients as a state machine: objects are allocated, used and given back
  in any order, and a new arena may come with a run of the collector that frees some.
  In every reachable state the objects in use are apart from each other and from what the
  pool itself keeps in its memory.
\<close>

section \<open>Invariants of state machines\<close>

locale machine =
  fixes start :: "'s \<Rightarrow> bool" and step :: "'s \<Rightarrow> 's \<Rightarrow> bool" and inv :: "'s \<Rightarrow> bool"
  assumes inv_start: "start s \<Longrightarrow> inv s"
    and inv_step: "inv s \<Longrightarrow> step s t \<Longrightarrow> inv t"
begin

lemma reachable_inv: "step\<^sup>*\<^sup>* s t \<Longrightarrow> start s \<Longrightarrow> inv t"
  by (induction rule: rtranclp_induct) (auto intro: inv_start inv_step)

end

section \<open>Allocation\<close>

text \<open>The objects still in use after the collector has run, if it does.\<close>

definition in_use :: "pool_allocator \<Rightarrow> nat list \<Rightarrow> nat set \<Rightarrow> nat set" where
  "in_use pool swept L = (if needs_arena pool then L - set swept else L)"

definition can_sweep :: "nat list \<Rightarrow> nat set \<Rightarrow> bool" where
  "can_sweep swept L \<longleftrightarrow> distinct swept \<and> set swept \<subseteq> L"

lemma pool_allocate_inv:
  assumes inv: "pool_inv pool mem as fl k L"
    and new: "needs_arena pool \<Longrightarrow> malloc_ok pool b \<and> can_sweep swept L"
  shows "\<exists>p pool' mem' fl' k'. pool_allocate junk swept b (pool, mem) = Some (p, pool', mem')
    \<and> pool_inv pool' mem' (if needs_arena pool then as @ [b] else as) fl' k' (insert p (in_use pool swept L))
    \<and> p \<notin> in_use pool swept L
    \<and> object_size pool' = object_size pool \<and> objects_per_alloc pool' = objects_per_alloc pool
    \<and> (\<forall>a. needs_arena pool \<and> a \<in> arena_range pool b \<union> set swept \<or> mem' a = mem a)"
proof (cases "needs_arena pool")
  case True
  then have k: "fl = []" "k = 0" and f: "free_list pool = 0" "newlast pool \<le> newfree pool"
    using needs_arena_iff [OF inv] by (auto simp: needs_arena_def)
  obtain pool1 mem1 where a: "allocate_new_pool_arena junk swept b (pool, mem) = Some (pool1, mem1)"
    "pool_inv pool1 mem1 (as @ [b]) (rev swept @ fl) (objects_per_alloc pool) (L - set swept)"
    "object_size pool1 = object_size pool" "objects_per_alloc pool1 = objects_per_alloc pool"
    "\<forall>a. a \<notin> arena_range pool b \<union> set swept \<longrightarrow> mem1 a = mem a"
    using allocate_new_pool_arena_inv [OF inv [unfolded k(2)], of b swept junk] new [OF True] by (auto simp: can_sweep_def)
  obtain j where j: "objects_per_alloc pool = Suc j" using inv by (cases "objects_per_alloc pool") (auto simp: pool_inv_def)
  then obtain x pool2 where g: "get_newfree_list_item pool1 = (x, pool2)"
    "pool_inv pool2 mem1 (as @ [b]) (rev swept @ fl) j (insert x (L - set swept))" "x \<notin> L - set swept"
    "object_size pool2 = object_size pool1" "objects_per_alloc pool2 = objects_per_alloc pool1"
    using get_newfree_list_item_inv [of pool1 mem1 "as @ [b]" "rev swept @ fl" j "L - set swept"] a(2) by auto
  have "pool_allocate junk swept b (pool, mem) = Some (x, pool2, mem1)"
    using f a(1) g(1) by (simp add: pool_allocate_def)
  then show ?thesis using True a g by (auto simp: in_use_def)
next
  case False
  show ?thesis
  proof (cases fl)
    case (Cons x fl')
    then have "free_list pool \<noteq> 0" using pool_invD(3) [OF inv] by auto
    then show ?thesis using False get_free_list_item_inv [OF inv [unfolded Cons]]
      by (auto simp: pool_allocate_def in_use_def) blast
  next
    case Nil
    then obtain j where j: "k = Suc j" using False needs_arena_iff [OF inv] by (cases k) auto
    have "free_list pool = 0" "\<not> newlast pool \<le> newfree pool" using False Nil pool_invD(3) [OF inv] by (auto simp: needs_arena_def)
    then show ?thesis using False get_newfree_list_item_inv [OF inv [unfolded j]]
      by (auto simp: pool_allocate_def in_use_def) blast
  qed
qed

section \<open>Steps\<close>

type_synonym pool_state = "(pool_allocator \<times> mem) \<times> nat set"

inductive pool_step :: "pool_state \<Rightarrow> pool_state \<Rightarrow> bool" where
  allocate: "(needs_arena pool \<Longrightarrow> malloc_ok pool b \<and> can_sweep swept L)
    \<Longrightarrow> pool_allocate junk swept b (pool, mem) = Some (p, s)
    \<Longrightarrow> pool_step ((pool, mem), L) (s, insert p (in_use pool swept L))"
| release: "p \<in> L \<Longrightarrow> pool_step (s, L) (pool_free s p, L - {p})"
| use: "(\<And>a. a \<notin> (\<Union>p \<in> L. extent pool p) \<Longrightarrow> mem' a = mem a) \<Longrightarrow> pool_step ((pool, mem), L) ((pool, mem'), L)"

definition pool_start :: "pool_state \<Rightarrow> bool" where
  "pool_start s \<longleftrightarrow> (\<exists>junk sz mem. s = ((Parrot_gc_pool_new junk sz, mem), {}))"

definition pool_ok :: "pool_state \<Rightarrow> bool" where
  "pool_ok s \<longleftrightarrow> (\<exists>as fl k. pool_inv (fst (fst s)) (snd (fst s)) as fl k (snd s))"

lemma extent_not_header:
  assumes inv: "pool_inv pool mem as fl k L" and p: "p \<in> pool_objects pool as" and a: "a \<in> set as"
  shows "a \<notin> extent pool p"
proof
  assume e: "a \<in> extent pool p"
  obtain b where b: "b \<in> set as" "p \<in> set (arena_objects pool b)" using p by (auto simp: pool_objects_def)
  have r: "a \<in> arena_range pool b" "b + sizeof_arena \<le> a" using e arena_object_range [OF b(2)] arena_object_extent [OF b(2)] by auto
  moreover have "a \<in> arena_range pool a" using arena_size_ge [of pool] by (simp add: arena_range_def sizeof_arena_def)
  moreover from r(2) have "a \<noteq> b" by (simp add: sizeof_arena_def)
  ultimately show False using pool_invD(2) [OF inv] a b(1) unfolding apart_def by blast
qed

lemma in_use_avoids_kept:
  assumes inv: "pool_inv pool mem as fl k L" and a: "a \<in> set as \<union> set fl" and p: "p \<in> L"
  shows "a \<notin> extent pool p"
proof (cases "a \<in> set as")
  case True
  then show ?thesis using extent_not_header [OF inv] pool_invD(7) [OF inv] p by blast
next
  case False
  then have "a \<in> set fl" using a by simp
  then have "extent pool p \<inter> extent pool a = {}"
    using pool_objects_extents [OF pool_invD(2) [OF inv]] pool_invD(7,8,11) [OF inv] p by blast
  then show ?thesis using extent_self [OF pool_invD(1) [OF inv]] by blast
qed

lemma pool_inv_use:
  assumes inv: "pool_inv pool mem as fl k L" and w: "\<And>a. a \<notin> (\<Union>p \<in> L. extent pool p) \<Longrightarrow> mem' a = mem a"
  shows "pool_inv pool mem' as fl k L"
  by (rule pool_inv_mem [OF inv]) (use in_use_avoids_kept [OF inv] w in blast)

lemma pool_step_ok: "pool_step s t \<Longrightarrow> pool_ok s \<Longrightarrow> pool_ok t"
proof (induction rule: pool_step.induct)
  case (allocate pool b swept L junk mem p s)
  then obtain as fl k where inv: "pool_inv pool mem as fl k L" by (auto simp: pool_ok_def)
  obtain p' pool' mem' fl' k' where r: "pool_allocate junk swept b (pool, mem) = Some (p', pool', mem')"
    "pool_inv pool' mem' (if needs_arena pool then as @ [b] else as) fl' k' (insert p' (in_use pool swept L))"
    using pool_allocate_inv [OF inv allocate(1), of junk] by blast
  then have "s = (pool', mem')" "p = p'" using allocate(2) by simp_all
  then show ?case using r(2) by (auto simp: pool_ok_def)
next
  case (release p L s)
  obtain pool mem where s: "s = (pool, mem)" by force
  then obtain as fl k where inv: "pool_inv pool mem as fl k L" using release by (auto simp: pool_ok_def)
  then show ?case using pool_free_inv [OF inv release(1)] s by (auto simp: pool_ok_def)
next
  case (use pool L mem' mem)
  then obtain as fl k where inv: "pool_inv pool mem as fl k L" by (auto simp: pool_ok_def)
  show ?case using pool_inv_use [OF inv use(1)] by (auto simp: pool_ok_def)
qed

lemma pool_start_ok: "pool_start s \<Longrightarrow> pool_ok s"
  using Parrot_gc_pool_new_inv by (fastforce simp: pool_start_def pool_ok_def)

interpretation pm: machine pool_start pool_step pool_ok
  by unfold_locales (auto intro: pool_start_ok pool_step_ok)

end
