(* ===== verification/Gc_Fixed.thy ===== *)
theory Gc_Fixed
  imports Gc_Pool_Steps
begin

text \<open>
  The allocator of all sizes: pool \<open>i\<close> serves the sizes from \<open>8 * i + 1\<close> to \<open>8 * i + 8\<close>,
  and the arenas of all pools are apart.  Its client works as that of a pool does, with
  objects named by their address and the index of their pool.
\<close>

section \<open>Slots\<close>

definition slot :: "fixed_allocator \<Rightarrow> nat \<Rightarrow> pool_allocator option" where
  "slot allocator i = (if i < length (pools allocator) then pools allocator ! i else None)"

definition slot_bytes :: "nat \<Rightarrow> nat" where
  "slot_bytes i = (i + 1) * sizeof_ptr"

text \<open>A pool as it was made for slot \<open>i\<close>.\<close>

definition slot_pool :: "nat \<Rightarrow> pool_allocator" where
  "slot_pool i = Parrot_gc_pool_new (\<lambda>_. 0) (slot_bytes i)"

definition slot_range :: "nat \<Rightarrow> nat \<Rightarrow> nat set" where
  "slot_range i = arena_range (slot_pool i)"

fun slot_inv :: "nat \<Rightarrow> pool_allocator option \<Rightarrow> mem \<Rightarrow> nat list \<Rightarrow> nat list \<Rightarrow> nat \<Rightarrow> nat set \<Rightarrow> bool" where
  "slot_inv i None mem as fl k L \<longleftrightarrow> as = [] \<and> L = {}"
| "slot_inv i (Some pool) mem as fl k L \<longleftrightarrow> object_size pool = object_size (slot_pool i)
     \<and> objects_per_alloc pool = objects_per_alloc (slot_pool i) \<and> pool_inv pool mem as fl k L"

lemma slot_object_size [simp]: "object_size (slot_pool i) = slot_bytes i"
  by (simp add: slot_pool_def Parrot_gc_pool_new_def Let_def slot_bytes_def)

lemma slot_range_eq:
  "object_size pool = slot_bytes i \<Longrightarrow> objects_per_alloc pool = objects_per_alloc (slot_pool i) \<Longrightarrow> arena_range pool = slot_range i"
  by (simp add: slot_range_def arena_range_def arena_size_def fun_eq_iff)

lemma Parrot_gc_pool_new_slot: "slot_inv i (Some (Parrot_gc_pool_new junk (slot_bytes i))) mem [] [] 0 {}"
proof -
  have "object_size (Parrot_gc_pool_new junk n) = object_size (Parrot_gc_pool_new junk' n)"
    "objects_per_alloc (Parrot_gc_pool_new junk n) = objects_per_alloc (Parrot_gc_pool_new junk' n)" for junk' n
    by (simp_all add: Parrot_gc_pool_new_def Let_def)
  then show ?thesis unfolding slot_inv.simps slot_pool_def using Parrot_gc_pool_new_inv by blast
qed

text \<open>What a slot depends on, and what the clients of other slots can change.\<close>

lemma slot_inv_frame:
  assumes "slot_inv i s mem as fl k L" "\<And>a. a \<in> (\<Union>b \<in> set as. slot_range i b) \<Longrightarrow> mem' a = mem a"
  shows "slot_inv i s mem' as fl k L"
proof (cases s)
  case None
  then show ?thesis using assms(1) by simp
next
  case (Some pool)
  then have p: "object_size pool = slot_bytes i" "objects_per_alloc pool = objects_per_alloc (slot_pool i)" "pool_inv pool mem as fl k L"
    using assms(1) by simp_all
  have "pool_inv pool mem' as fl k L"
    by (rule pool_inv_frame [OF p(3)]) (use assms(2) slot_range_eq [OF p(1,2)] in simp)
  then show ?thesis using p Some by simp
qed

lemma slot_extent:
  assumes "slot_inv i s mem as fl k L" "p \<in> L"
  shows "\<exists>b \<in> set as. {p..<p + slot_bytes i} \<subseteq> slot_range i b"
proof -
  obtain pool where s: "s = Some pool" using assms by (cases s) auto
  then have p: "object_size pool = slot_bytes i" "objects_per_alloc pool = objects_per_alloc (slot_pool i)" "pool_inv pool mem as fl k L"
    using assms(1) by simp_all
  obtain b where b: "b \<in> set as" "p \<in> set (arena_objects pool b)" using pool_invD(7) [OF p(3)] assms(2) by (auto simp: pool_objects_def)
  then show ?thesis using arena_object_range [OF b(2)] slot_range_eq [OF p(1,2)] p(1) by (auto simp: extent_def)
qed

section \<open>The invariant\<close>

definition objects_in :: "(nat \<times> nat) set \<Rightarrow> nat \<Rightarrow> nat set" where
  "objects_in L i = {p. (p, i) \<in> L}"

definition fixed_inv :: "fixed_allocator \<Rightarrow> mem \<Rightarrow> (nat \<Rightarrow> nat list) \<Rightarrow> (nat \<Rightarrow> nat list) \<Rightarrow> (nat \<Rightarrow> nat) \<Rightarrow> (nat \<times> nat) set \<Rightarrow> bool" where
  "fixed_inv allocator mem as fl k L \<longleftrightarrow> num_pools allocator = length (pools allocator)
     \<and> (\<forall>i. slot_inv i (slot allocator i) mem (as i) (fl i) (k i) (objects_in L i))
     \<and> (\<forall>i j. i \<noteq> j \<longrightarrow> (\<forall>a \<in> set (as i). \<forall>b \<in> set (as j). slot_range i a \<inter> slot_range j b = {}))"

lemma fixed_invD:
  assumes "fixed_inv allocator mem as fl k L"
  shows "num_pools allocator = length (pools allocator)" "slot_inv i (slot allocator i) mem (as i) (fl i) (k i) (objects_in L i)"
    "i \<noteq> j \<Longrightarrow> a \<in> set (as i) \<Longrightarrow> b \<in> set (as j) \<Longrightarrow> slot_range i a \<inter> slot_range j b = {}"
  using assms unfolding fixed_inv_def by blast+

lemma fixed_new_inv: "fixed_inv Parrot_gc_fixed_allocator_new mem (\<lambda>_. []) fl k {}"
  by (simp add: fixed_inv_def Parrot_gc_fixed_allocator_new_def slot_def objects_in_def)

text \<open>An operation on one slot that leaves the arenas of the others alone.\<close>

lemma fixed_inv_update:
  assumes inv: "fixed_inv allocator mem as fl k L"
    and len: "num_pools allocator' = length (pools allocator')"
    and others: "\<And>j. j \<noteq> i \<Longrightarrow> slot allocator' j = slot allocator j" "\<And>j. j \<noteq> i \<Longrightarrow> objects_in L' j = objects_in L j"
    and mine: "slot_inv i (slot allocator' i) mem' as' fl' k' (objects_in L' i)"
    and apart: "\<And>j a b. j \<noteq> i \<Longrightarrow> a \<in> set as' \<Longrightarrow> b \<in> set (as j) \<Longrightarrow> slot_range i a \<inter> slot_range j b = {}"
    and mem: "\<And>a. a \<notin> (\<Union>b \<in> set as'. slot_range i b) \<Longrightarrow> mem' a = mem a"
  shows "fixed_inv allocator' mem' (as(i := as')) (fl(i := fl')) (k(i := k')) L'"
proof -
  have s: "slot_inv j (slot allocator' j) mem' ((as(i := as')) j) ((fl(i := fl')) j) ((k(i := k')) j) (objects_in L' j)" for j
  proof (cases "j = i")
    case True
    then show ?thesis using mine by simp
  next
    case False
    have "slot_inv j (slot allocator j) mem' (as j) (fl j) (k j) (objects_in L j)"
    proof (rule slot_inv_frame [OF fixed_invD(2) [OF inv]])
      fix a assume "a \<in> (\<Union>b \<in> set (as j). slot_range j b)"
      then have "a \<notin> (\<Union>b \<in> set as'. slot_range i b)" using apart [OF False] by blast
      then show "mem' a = mem a" by (rule mem)
    qed
    then show ?thesis using False others by simp
  qed
  have "slot_range i1 a \<inter> slot_range j1 b = {}"
    if "i1 \<noteq> j1" "a \<in> set ((as(i := as')) i1)" "b \<in> set ((as(i := as')) j1)" for i1 j1 a b
  proof -
    consider "i1 = i" | "j1 = i" | "i1 \<noteq> i" "j1 \<noteq> i" by blast
    then show ?thesis
    proof cases
      case 1
      then show ?thesis using that apart [of j1 a b] by auto
    next
      case 2
      then show ?thesis using that apart [of i1 b a] by auto
    next
      case 3
      then show ?thesis using that fixed_invD(3) [OF inv, of i1 j1 a b] by simp
    qed
  qed
  then show ?thesis using s len unfolding fixed_inv_def by blast
qed

section \<open>Freeing\<close>

lemma slot_Some: "slot allocator i = Some pool \<longleftrightarrow> rd (pools allocator) i = Some (Some pool)"
  by (auto simp: slot_def rd_def)

lemma slot_update: "i < length (pools allocator) \<Longrightarrow> slot (allocator\<lparr>pools := (pools allocator)[i := p]\<rparr>) j = (if j = i then p else slot allocator j)"
  by (simp add: slot_def)

lemma fixed_free_inv:
  assumes inv: "fixed_inv allocator mem as fl k L" and p: "(p, size_index sz) \<in> L"
  shows "\<exists>allocator' mem'. Parrot_gc_fixed_allocator_free (allocator, mem) (p, sz) = Some (allocator', mem')
    \<and> fixed_inv allocator' mem' as (fl(size_index sz := p # fl (size_index sz))) k (L - {(p, size_index sz)})
    \<and> mem' = mem(p := mem' p) \<and> (\<forall>j. j \<noteq> size_index sz \<longrightarrow> slot allocator' j = slot allocator j)"
proof -
  define i where "i = size_index sz"
  have inv_i: "slot_inv i (slot allocator i) mem (as i) (fl i) (k i) (objects_in L i)" by (rule fixed_invD(2) [OF inv])
  have pi: "p \<in> objects_in L i" using p by (simp add: objects_in_def i_def)
  then obtain pool where pool: "slot allocator i = Some pool" using inv_i by (cases "slot allocator i") auto
  have g: "object_size pool = slot_bytes i" "objects_per_alloc pool = objects_per_alloc (slot_pool i)"
    "pool_inv pool mem (as i) (fl i) (k i) (objects_in L i)" using inv_i pool by simp_all
  have i: "i < length (pools allocator)" "rd (pools allocator) i = Some (Some pool)"
    using pool by (auto simp: slot_def slot_Some split: if_splits)
  obtain pool' mem' where f: "pool_free (pool, mem) p = (pool', mem')" "mem' = mem(p := free_list pool)"
    "pool_inv pool' mem' (as i) (p # fl i) (k i) (objects_in L i - {p})"
    "pool' = pool\<lparr>free_list := p, num_free_objects := num_free_objects pool + 1\<rparr>"
    using pool_free_inv [OF g(3) pi] by blast
  let ?a = "allocator\<lparr>pools := (pools allocator)[i := Some pool']\<rparr>"
  have "Parrot_gc_fixed_allocator_free (allocator, mem) (p, sz) = Some (?a, mem')"
    using i f(1) by (simp add: Parrot_gc_fixed_allocator_free_def Let_def i_def [symmetric])
  moreover have "fixed_inv ?a mem' (as(i := as i)) (fl(i := p # fl i)) (k(i := k i)) (L - {(p, i)})"
  proof (rule fixed_inv_update [OF inv])
    show "num_pools ?a = length (pools ?a)" using fixed_invD(1) [OF inv] by simp
    show "slot ?a j = slot allocator j" if "j \<noteq> i" for j using that slot_update [OF i(1)] by simp
    show "objects_in (L - {(p, i)}) j = objects_in L j" if "j \<noteq> i" for j using that by (auto simp: objects_in_def)
    have "objects_in (L - {(p, i)}) i = objects_in L i - {p}" by (auto simp: objects_in_def)
    then show "slot_inv i (slot ?a i) mem' (as i) (p # fl i) (k i) (objects_in (L - {(p, i)}) i)"
      using f(3,4) g slot_update [OF i(1)] by simp
    show "slot_range i a \<inter> slot_range j b = {}" if "j \<noteq> i" "a \<in> set (as i)" "b \<in> set (as j)" for j a b
      using fixed_invD(3) [OF inv] that by metis
    show "mem' a = mem a" if a: "a \<notin> (\<Union>b \<in> set (as i). slot_range i b)" for a
    proof -
      obtain b where "b \<in> set (as i)" "{p..<p + slot_bytes i} \<subseteq> slot_range i b" using slot_extent [OF inv_i pi] by blast
      moreover have "p \<in> {p..<p + slot_bytes i}" by (simp add: slot_bytes_def sizeof_ptr_def)
      ultimately have "p \<in> (\<Union>b \<in> set (as i). slot_range i b)" by blast
      then show ?thesis using a f(2) by auto
    qed
  qed
  moreover have "mem' = mem(p := mem' p)" using f(2) by simp
  ultimately show ?thesis using slot_update [OF i(1)] unfolding i_def [symmetric] by (auto simp: fun_upd_idem)
qed

text \<open>The objects a run of the collector frees, by address and index.\<close>

definition swept_objects :: "(nat \<times> u64) list \<Rightarrow> (nat \<times> nat) list" where
  "swept_objects rs = map (\<lambda>(p, sz). (p, size_index sz)) rs"

lemma fixed_free_all_inv:
  assumes "fixed_inv allocator mem as fl k L" "distinct (swept_objects rs)" "set (swept_objects rs) \<subseteq> L"
    "\<forall>r \<in> set rs. size_index (snd r) \<noteq> i"
  shows "\<exists>allocator' mem' fl'. fold_opt Parrot_gc_fixed_allocator_free rs (allocator, mem) = Some (allocator', mem')
    \<and> fixed_inv allocator' mem' as fl' k (L - set (swept_objects rs)) \<and> slot allocator' i = slot allocator i
    \<and> (\<forall>a. a \<notin> fst ` set rs \<longrightarrow> mem' a = mem a)"
  using assms
proof (induction rs arbitrary: allocator mem fl L)
  case Nil
  then show ?case by (auto simp: swept_objects_def)
next
  case (Cons r rs)
  obtain p sz where r: "r = (p, sz)" by force
  have sw: "swept_objects ((p, sz) # rs) = (p, size_index sz) # swept_objects rs" by (simp add: swept_objects_def)
  then have "(p, size_index sz) \<in> L" using Cons.prems(3) r by simp
  from fixed_free_inv [OF Cons.prems(1) this] obtain a1 m1 where f:
    "Parrot_gc_fixed_allocator_free (allocator, mem) (p, sz) = Some (a1, m1)"
    "fixed_inv a1 m1 as (fl(size_index sz := p # fl (size_index sz))) k (L - {(p, size_index sz)})"
    "m1 = mem(p := m1 p)" "\<forall>j. j \<noteq> size_index sz \<longrightarrow> slot a1 j = slot allocator j" by blast
  have "distinct (swept_objects rs)" "set (swept_objects rs) \<subseteq> L - {(p, size_index sz)}" "\<forall>r \<in> set rs. size_index (snd r) \<noteq> i"
    using Cons.prems(2-4) r by (auto simp: sw)
  from Cons.IH [OF f(2) this] obtain a2 m2 fl' where g:
    "fold_opt Parrot_gc_fixed_allocator_free rs (a1, m1) = Some (a2, m2)"
    "fixed_inv a2 m2 as fl' k (L - {(p, size_index sz)} - set (swept_objects rs))" "slot a2 i = slot a1 i"
    "\<forall>a. a \<notin> fst ` set rs \<longrightarrow> m2 a = m1 a" by blast
  have "L - {(p, size_index sz)} - set (swept_objects rs) = L - set (swept_objects (r # rs))"
    using r by (auto simp: swept_objects_def)
  moreover have "slot a1 i = slot allocator i" using f(4) Cons.prems(4) r by simp
  moreover have "m2 a = mem a" if "a \<notin> fst ` set (r # rs)" for a
    using that g(4) f(3) r by (metis fst_conv fun_upd_other image_insert insertCI list.simps(15))
  ultimately show ?case using f(1) g r by auto
qed

section \<open>Allocating\<close>

lemma ensure_pool_inv:
  assumes inv: "fixed_inv allocator mem as fl k L"
  shows "\<exists>pool fl' k'. fixed_inv (ensure_pool junk i allocator) mem as fl' k' L
    \<and> slot (ensure_pool junk i allocator) i = Some pool
    \<and> (slot allocator i \<noteq> None \<longrightarrow> slot allocator i = Some pool)
    \<and> (slot allocator i = None \<longrightarrow> pool = Parrot_gc_pool_new junk (slot_bytes i))
    \<and> (\<forall>j. j \<noteq> i \<longrightarrow> slot (ensure_pool junk i allocator) j = slot allocator j)"
proof (cases "slot allocator i")
  case (Some pool)
  then have "i < num_pools allocator" "rd (pools allocator) i = Some (Some pool)"
    using fixed_invD(1) [OF inv] by (auto simp: slot_Some rd_def split: if_splits)
  then have "ensure_pool junk i allocator = allocator" by (simp add: ensure_pool_def)
  then show ?thesis using Some inv by auto
next
  case None
  let ?pool = "Parrot_gc_pool_new junk (slot_bytes i)" and ?a = "ensure_pool junk i allocator"
  note n = fixed_invD(1) [OF inv]
  have s: "slot ?a j = (if j = i then Some ?pool else slot allocator j) \<and> num_pools ?a = length (pools ?a)" for j
  proof (cases "i < length (pools allocator)")
    case True
    then have "rd (pools allocator) i = Some None" using None by (simp add: slot_def)
    then show ?thesis using True n by (simp add: ensure_pool_def slot_update slot_bytes_def)
  next
    case False
    then show ?thesis using n by (auto simp: ensure_pool_def Let_def slot_def slot_bytes_def nth_append nth_list_update)
  qed
  have empty: "as i = []" "objects_in L i = {}" using fixed_invD(2) [OF inv, of i] None by simp_all
  have "fixed_inv ?a mem (as(i := [])) (fl(i := [])) (k(i := 0)) L"
    by (rule fixed_inv_update [OF inv]) (use s empty(2) Parrot_gc_pool_new_slot in auto)
  moreover have "as(i := []) = as" using empty(1) by auto
  ultimately show ?thesis using s None by auto
qed

definition fixed_needs_arena :: "fixed_allocator \<Rightarrow> nat \<Rightarrow> bool" where
  "fixed_needs_arena allocator i \<longleftrightarrow> (case slot allocator i of None \<Rightarrow> True | Some pool \<Rightarrow> needs_arena pool)"

definition fixed_malloc_ok :: "fixed_allocator \<Rightarrow> nat \<Rightarrow> nat \<Rightarrow> bool" where
  "fixed_malloc_ok allocator i b \<longleftrightarrow> 0 < b \<and> b + arena_size (slot_pool i) < 2 ^ 64
     \<and> (\<forall>j pool. slot allocator j = Some pool \<longrightarrow> (\<forall>a \<in> set (arenas pool). slot_range i b \<inter> slot_range j a = {}))"

definition fixed_can_sweep :: "(nat \<times> u64) list \<Rightarrow> (nat \<times> nat) set \<Rightarrow> bool" where
  "fixed_can_sweep swept L \<longleftrightarrow> distinct (swept_objects swept) \<and> set (swept_objects swept) \<subseteq> L"

definition fixed_in_use :: "fixed_allocator \<Rightarrow> nat \<Rightarrow> (nat \<times> u64) list \<Rightarrow> (nat \<times> nat) set \<Rightarrow> (nat \<times> nat) set" where
  "fixed_in_use allocator i swept L = (if fixed_needs_arena allocator i then L - set (swept_objects swept) else L)"

lemma slot_arenas:
  assumes "fixed_inv allocator mem as fl k L"
  shows "case slot allocator j of None \<Rightarrow> as j = [] | Some pool \<Rightarrow> arenas pool = as j"
  using fixed_invD(2) [OF assms, of j] arenas_eq by (auto split: option.splits)

lemma new_pool_arenas: "arenas (Parrot_gc_pool_new junk n) = []" "needs_arena (Parrot_gc_pool_new junk n)"
  by (simp_all add: arenas_def needs_arena_def Parrot_gc_pool_new_def Let_def)

text \<open>What the collector run leaves of the slot that is being served.\<close>

definition own_swept :: "nat \<Rightarrow> (nat \<times> u64) list \<Rightarrow> nat list" where
  "own_swept i swept = [fst r. r \<leftarrow> swept, size_index (snd r) = i]"

definition other_swept :: "nat \<Rightarrow> (nat \<times> u64) list \<Rightarrow> (nat \<times> u64) list" where
  "other_swept i swept = [r \<leftarrow> swept. size_index (snd r) \<noteq> i]"

lemma own_swept_Cons: "own_swept i (r # rs) = (if size_index (snd r) = i then [fst r] else []) @ own_swept i rs"
  by (simp add: own_swept_def)

lemma other_swept_Cons: "other_swept i (r # rs) = (if size_index (snd r) \<noteq> i then [r] else []) @ other_swept i rs"
  by (simp add: other_swept_def)

lemma swept_objects_Cons: "swept_objects (r # rs) = (fst r, size_index (snd r)) # swept_objects rs"
  by (simp add: swept_objects_def split: prod.split)

lemma set_own_swept: "p \<in> set (own_swept i swept) \<longleftrightarrow> (p, i) \<in> set (swept_objects swept)"
  by (induction swept) (auto simp: own_swept_Cons swept_objects_Cons own_swept_def swept_objects_def)

lemma set_other_swept: "(p, j) \<in> set (swept_objects (other_swept i swept)) \<longleftrightarrow> (p, j) \<in> set (swept_objects swept) \<and> j \<noteq> i"
  by (auto simp: other_swept_def swept_objects_def)

lemma distinct_own_swept: "distinct (swept_objects swept) \<Longrightarrow> distinct (own_swept i swept)"
  by (induction swept) (auto simp: own_swept_Cons swept_objects_Cons set_own_swept, simp add: own_swept_def)

lemma distinct_other_swept: "distinct (swept_objects swept) \<Longrightarrow> distinct (swept_objects (other_swept i swept))"
  by (simp add: swept_objects_def other_swept_def distinct_map_filter)

text \<open>The pool is there, and the collector has done the other pools.\<close>

lemma fixed_allocate_prepare:
  assumes inv: "fixed_inv allocator mem as fl k L"
    and new: "fixed_needs_arena allocator i \<Longrightarrow> fixed_malloc_ok allocator i b \<and> fixed_can_sweep swept L"
  shows "\<exists>pool a2 m2 fl2 k2 L2. slot (ensure_pool junk i allocator) i = Some pool \<and> needs_arena pool = fixed_needs_arena allocator i
    \<and> (if needs_arena pool then fold_opt Parrot_gc_fixed_allocator_free (other_swept i swept) (ensure_pool junk i allocator, mem)
       else Some (ensure_pool junk i allocator, mem)) = Some (a2, m2)
    \<and> fixed_inv a2 m2 as fl2 k2 L2 \<and> slot a2 i = Some pool \<and> (\<forall>a \<in> set (arenas pool). \<exists>q. slot allocator i = Some q \<and> a \<in> set (arenas q))
    \<and> L2 = (if needs_arena pool then L - set (swept_objects (other_swept i swept)) else L)
    \<and> (\<forall>a. needs_arena pool \<and> a \<in> fst ` set (other_swept i swept) \<or> m2 a = mem a)"
proof -
  let ?a = "ensure_pool junk i allocator"
  obtain pool fl1 k1 where e: "fixed_inv ?a mem as fl1 k1 L" "slot ?a i = Some pool"
    "slot allocator i \<noteq> None \<longrightarrow> slot allocator i = Some pool"
    "slot allocator i = None \<longrightarrow> pool = Parrot_gc_pool_new junk (slot_bytes i)"
    using ensure_pool_inv [OF inv, of junk i] by (elim exE conjE) (rule that; assumption)
  have need: "needs_arena pool = fixed_needs_arena allocator i" and ar: "\<forall>a \<in> set (arenas pool). \<exists>q. slot allocator i = Some q \<and> a \<in> set (arenas q)"
    using e(3,4) new_pool_arenas by (auto simp: fixed_needs_arena_def split: option.splits if_splits)
  show ?thesis
  proof (cases "needs_arena pool")
    case False
    then show ?thesis using e need ar by auto
  next
    case True
    then have sw: "distinct (swept_objects swept)" "set (swept_objects swept) \<subseteq> L" using new need by (auto simp: fixed_can_sweep_def)
    have "set (swept_objects (other_swept i swept)) \<subseteq> L" using sw(2) set_other_swept by fastforce
    moreover have "\<forall>r \<in> set (other_swept i swept). size_index (snd r) \<noteq> i" by (simp add: other_swept_def)
    ultimately obtain a2 m2 fl2 where f:
      "fold_opt Parrot_gc_fixed_allocator_free (other_swept i swept) (?a, mem) = Some (a2, m2)"
      "fixed_inv a2 m2 as fl2 k1 (L - set (swept_objects (other_swept i swept)))" "slot a2 i = slot ?a i"
      "\<forall>a. a \<notin> fst ` set (other_swept i swept) \<longrightarrow> m2 a = mem a"
      using fixed_free_all_inv [OF e(1) distinct_other_swept [OF sw(1)]] by blast
    then show ?thesis using e need ar True by auto
  qed
qed

text \<open>Objects in use are apart, whatever their sizes.\<close>

lemma fixed_objects_apart:
  assumes inv: "fixed_inv allocator mem as fl k L" and o: "(p, i) \<in> L" "(q, j) \<in> L" "(p, i) \<noteq> (q, j)"
  shows "{p..<p + slot_bytes i} \<inter> {q..<q + slot_bytes j} = {}"
proof (cases "i = j")
  case False
  have "p \<in> objects_in L i" "q \<in> objects_in L j" using o by (simp_all add: objects_in_def)
  then obtain a b where ab: "a \<in> set (as i)" "{p..<p + slot_bytes i} \<subseteq> slot_range i a"
    "b \<in> set (as j)" "{q..<q + slot_bytes j} \<subseteq> slot_range j b"
    using slot_extent [OF fixed_invD(2) [OF inv, of i], of p] slot_extent [OF fixed_invD(2) [OF inv, of j], of q] by metis
  have "slot_range i a \<inter> slot_range j b = {}" by (rule fixed_invD(3) [OF inv False ab(1,3)])
  then show ?thesis using ab(2,4) by blast
next
  case True
  have pq: "p \<in> objects_in L i" "q \<in> objects_in L i" "p \<noteq> q" using o True by (auto simp: objects_in_def)
  have s: "slot_inv i (slot allocator i) mem (as i) (fl i) (k i) (objects_in L i)" by (rule fixed_invD(2) [OF inv])
  then obtain pool where "slot allocator i = Some pool" using pq by (cases "slot allocator i") auto
  then have pool: "object_size pool = slot_bytes i" "pool_inv pool mem (as i) (fl i) (k i) (objects_in L i)" using s by simp_all
  have "extent pool p \<inter> extent pool q = {}"
    by (rule pool_objects_extents [OF pool_invD(2) [OF pool(2)]]) (use pq pool_invD(7) [OF pool(2)] in auto)
  then show ?thesis using pool(1) True by (simp add: extent_def)
qed

lemma fixed_allocate_inv:
  assumes inv: "fixed_inv allocator mem as fl k L" and sz: "sz \<noteq> 0" and i: "i = size_index sz"
    and new: "fixed_needs_arena allocator i \<Longrightarrow> fixed_malloc_ok allocator i b \<and> fixed_can_sweep swept L"
  shows "\<exists>p a' m' as' fl' k'. Parrot_gc_fixed_allocator_allocate junk swept b (allocator, mem) sz = Some (p, a', m')
    \<and> fixed_inv a' m' as' fl' k' (insert (p, i) (fixed_in_use allocator i swept L)) \<and> (p, i) \<notin> fixed_in_use allocator i swept L
    \<and> (\<forall>a. fixed_needs_arena allocator i \<and> a \<in> slot_range i b \<union> fst ` set swept \<or> m' a = mem a)"
proof -
  let ?N = "fixed_needs_arena allocator i" and ?U = "fixed_in_use allocator i swept L"
  obtain pool a2 m2 fl2 k2 L2 where p: "slot (ensure_pool junk i allocator) i = Some pool" "needs_arena pool = ?N"
    "(if needs_arena pool then fold_opt Parrot_gc_fixed_allocator_free (other_swept i swept) (ensure_pool junk i allocator, mem)
       else Some (ensure_pool junk i allocator, mem)) = Some (a2, m2)"
    "fixed_inv a2 m2 as fl2 k2 L2" "slot a2 i = Some pool"
    "\<forall>a \<in> set (arenas pool). \<exists>q. slot allocator i = Some q \<and> a \<in> set (arenas q)"
    "L2 = (if needs_arena pool then L - set (swept_objects (other_swept i swept)) else L)"
    "\<forall>a. needs_arena pool \<and> a \<in> fst ` set (other_swept i swept) \<or> m2 a = mem a"
    using fixed_allocate_prepare [OF inv new] by blast
  have s: "object_size pool = slot_bytes i" "objects_per_alloc pool = objects_per_alloc (slot_pool i)"
    "pool_inv pool m2 (as i) (fl2 i) (k2 i) (objects_in L2 i)" using fixed_invD(2) [OF p(4), of i] p(5) by simp_all
  note range = slot_range_eq [OF s(1,2)]
  have as_size: "arena_size pool = arena_size (slot_pool i)" using s(1,2) by (simp add: arena_size_def)
  have m_ok: "malloc_ok pool b" if ?N
    using new [OF that] p(6) as_size range unfolding malloc_ok_def fixed_malloc_ok_def by (metis Int_commute)
  have own: "can_sweep (own_swept i swept) (objects_in L2 i)" if ?N
    using new [OF that] distinct_own_swept p(2,7) that set_own_swept set_other_swept
    by (auto simp: can_sweep_def fixed_can_sweep_def objects_in_def)
  obtain x pool' m' fl' k' where a: "pool_allocate junk (own_swept i swept) b (pool, m2) = Some (x, pool', m')"
    "pool_inv pool' m' (if needs_arena pool then as i @ [b] else as i) fl' k' (insert x (in_use pool (own_swept i swept) (objects_in L2 i)))"
    "x \<notin> in_use pool (own_swept i swept) (objects_in L2 i)" "object_size pool' = object_size pool"
    "objects_per_alloc pool' = objects_per_alloc pool"
    "\<forall>a. needs_arena pool \<and> a \<in> arena_range pool b \<union> set (own_swept i swept) \<or> m' a = m2 a"
    using pool_allocate_inv [OF s(3), of b "own_swept i swept" junk] m_ok own p(2) by blast
  have use_i: "in_use pool (own_swept i swept) (objects_in L2 i) = objects_in ?U i"
    using p(2,7) set_own_swept set_other_swept by (auto simp: in_use_def fixed_in_use_def objects_in_def)
  have use_j: "objects_in ?U j = objects_in L2 j" if "j \<noteq> i" for j
    using that p(2,7) set_other_swept by (auto simp: fixed_in_use_def objects_in_def)
  have len: "i < length (pools a2)" "rd (pools a2) i = Some (Some pool)" using p(5) by (auto simp: slot_def slot_Some split: if_splits)
  let ?a = "a2\<lparr>pools := (pools a2)[i := Some pool']\<rparr>"
  have e: "rd (pools (ensure_pool junk i allocator)) i = Some (Some pool)" using p(1) by (simp add: slot_Some)
  have cond: "free_list pool = 0 \<and> newlast pool \<le> newfree pool \<longleftrightarrow> needs_arena pool" by (simp add: needs_arena_def)
  have "Parrot_gc_fixed_allocator_allocate junk swept b (allocator, mem) sz = Some (x, ?a, m')"
    unfolding Parrot_gc_fixed_allocator_allocate_def Let_def i [symmetric] case_prod_conv e cond own_swept_def [symmetric] other_swept_def [symmetric]
    using p(3) a(1) len sz e cond by (simp add: own_swept_def other_swept_def)
  moreover have "fixed_inv ?a m' (as(i := if needs_arena pool then as i @ [b] else as i)) (fl2(i := fl')) (k2(i := k')) (insert (x, i) ?U)"
  proof (rule fixed_inv_update [OF p(4)])
    show "num_pools ?a = length (pools ?a)" using fixed_invD(1) [OF p(4)] by simp
    show "slot ?a j = slot a2 j" if "j \<noteq> i" for j using that slot_update [OF len(1)] by simp
    show "objects_in (insert (x, i) ?U) j = objects_in L2 j" if "j \<noteq> i" for j
      using use_j [OF that] that by (auto simp: objects_in_def)
    have "objects_in (insert (x, i) ?U) i = insert x (objects_in ?U i)" by (auto simp: objects_in_def)
    then show "slot_inv i (slot ?a i) m' (if needs_arena pool then as i @ [b] else as i) fl' k' (objects_in (insert (x, i) ?U) i)"
      using a(2,4,5) s slot_update [OF len(1)] use_i by simp
    show "slot_range i c \<inter> slot_range j d = {}"
      if "j \<noteq> i" "c \<in> set (if needs_arena pool then as i @ [b] else as i)" "d \<in> set (as j)" for j c d
    proof (cases "c \<in> set (as i)")
      case True
      then show ?thesis using fixed_invD(3) [OF p(4), of i j c d] that by auto
    next
      case False
      then have c: "c = b" ?N using that(2) p(2) by (auto split: if_splits)
      have "d \<in> set (as j)" using that by simp
      then obtain q where "slot allocator j = Some q" "d \<in> set (arenas q)"
        using slot_arenas [OF inv, of j] by (auto split: option.splits)
      then show ?thesis using new [OF c(2)] c(1) unfolding fixed_malloc_ok_def by blast
    qed
    show "m' c = m2 c" if c: "c \<notin> (\<Union>d \<in> set (if needs_arena pool then as i @ [b] else as i). slot_range i d)" for c
    proof (rule ccontr)
      assume "m' c \<noteq> m2 c"
      then have n: "needs_arena pool" "c \<in> slot_range i b \<union> set (own_swept i swept)" using a(6) range by auto
      then have "c \<in> objects_in L2 i" using c own p(2) by (auto simp: can_sweep_def)
      then obtain d where "d \<in> set (as i)" "{c..<c + slot_bytes i} \<subseteq> slot_range i d"
        using slot_extent [OF fixed_invD(2) [OF p(4)]] by blast
      moreover have "c \<in> {c..<c + slot_bytes i}" by (simp add: slot_bytes_def sizeof_ptr_def)
      ultimately have "d \<in> set (if needs_arena pool then as i @ [b] else as i)" "c \<in> slot_range i d" by auto
      then show False using c by blast
    qed
  qed
  moreover have "(x, i) \<notin> ?U" using a(3) use_i by (simp add: objects_in_def)
  moreover have "?N \<and> c \<in> slot_range i b \<union> fst ` set swept \<or> m' c = mem c" for c
  proof -
    have sub: "set (own_swept i swept) \<subseteq> fst ` set swept" "fst ` set (other_swept i swept) \<subseteq> fst ` set swept"
      by (auto simp: own_swept_def other_swept_def)
    have "?N \<and> c \<in> slot_range i b \<union> fst ` set swept \<or> m' c = m2 c" using a(6) [rule_format, of c] sub(1) p(2) range by auto
    moreover have "?N \<and> c \<in> fst ` set swept \<or> m2 c = mem c" using p(8) [rule_format, of c] sub(2) p(2) by auto
    ultimately show ?thesis by auto
  qed
  ultimately show ?thesis by blast
qed

section \<open>Steps\<close>

type_synonym fixed_state = "(fixed_allocator \<times> mem) \<times> (nat \<times> nat) set"

inductive fixed_step :: "fixed_state \<Rightarrow> fixed_state \<Rightarrow> bool" where
  allocate: "sz \<noteq> 0
    \<Longrightarrow> (fixed_needs_arena allocator (size_index sz) \<Longrightarrow> fixed_malloc_ok allocator (size_index sz) b \<and> fixed_can_sweep swept L)
    \<Longrightarrow> Parrot_gc_fixed_allocator_allocate junk swept b (allocator, mem) sz = Some (p, s)
    \<Longrightarrow> fixed_step ((allocator, mem), L) (s, insert (p, size_index sz) (fixed_in_use allocator (size_index sz) swept L))"
| release: "(p, size_index sz) \<in> L \<Longrightarrow> Parrot_gc_fixed_allocator_free s (p, sz) = Some s'
    \<Longrightarrow> fixed_step (s, L) (s', L - {(p, size_index sz)})"
| use: "(\<And>a. a \<notin> (\<Union>(p, i) \<in> L. {p..<p + slot_bytes i}) \<Longrightarrow> mem' a = mem a)
    \<Longrightarrow> fixed_step ((allocator, mem), L) ((allocator, mem'), L)"

definition fixed_start :: "fixed_state \<Rightarrow> bool" where
  "fixed_start s \<longleftrightarrow> (\<exists>mem. s = ((Parrot_gc_fixed_allocator_new, mem), {}))"

definition fixed_ok :: "fixed_state \<Rightarrow> bool" where
  "fixed_ok s \<longleftrightarrow> (\<exists>as fl k. fixed_inv (fst (fst s)) (snd (fst s)) as fl k (snd s))"

lemma fixed_okI: "fixed_inv allocator mem as fl k L \<Longrightarrow> fixed_ok ((allocator, mem), L)"
  by (auto simp: fixed_ok_def)

lemma fixed_inv_use:
  assumes inv: "fixed_inv allocator mem as fl k L" and w: "\<And>a. a \<notin> (\<Union>(p, i) \<in> L. {p..<p + slot_bytes i}) \<Longrightarrow> mem' a = mem a"
  shows "fixed_inv allocator mem' as fl k L"
proof -
  have "slot_inv j (slot allocator j) mem' (as j) (fl j) (k j) (objects_in L j)" for j
  proof (cases "slot allocator j")
    case None
    then show ?thesis using fixed_invD(2) [OF inv, of j] by simp
  next
    case (Some pool)
    then have s: "object_size pool = slot_bytes j" "objects_per_alloc pool = objects_per_alloc (slot_pool j)"
      "pool_inv pool mem (as j) (fl j) (k j) (objects_in L j)" using fixed_invD(2) [OF inv, of j] by simp_all
    have "pool_inv pool mem' (as j) (fl j) (k j) (objects_in L j)"
    proof (rule pool_inv_mem [OF s(3)])
      fix a assume a: "a \<in> set (as j) \<union> set (fl j)"
      have "a \<in> set (as j) \<union> pool_objects pool (as j)" using a pool_invD(8) [OF s(3)] by auto
      from kept_in_range [OF s(3) this] obtain b where b: "b \<in> set (as j)" "a \<in> slot_range j b"
        unfolding slot_range_eq [OF s(1,2)] by blast
      have "a \<notin> {p..<p + slot_bytes i}" if o: "(p, i) \<in> L" for p i
      proof (cases "i = j")
        case True
        then show ?thesis using in_use_avoids_kept [OF s(3) a, of p] o s(1) by (simp add: objects_in_def extent_def)
      next
        case False
        have "p \<in> objects_in L i" using o by (simp add: objects_in_def)
        then obtain c where c: "c \<in> set (as i)" "{p..<p + slot_bytes i} \<subseteq> slot_range i c"
          using slot_extent [OF fixed_invD(2) [OF inv, of i]] by blast
        then show ?thesis using fixed_invD(3) [OF inv False c(1) b(1)] b(2) by blast
      qed
      then show "mem' a = mem a" by (intro w) auto
    qed
    then show ?thesis using s Some by simp
  qed
  then show ?thesis using inv unfolding fixed_inv_def by blast
qed

lemma fixed_step_ok: "fixed_step s t \<Longrightarrow> fixed_ok s \<Longrightarrow> fixed_ok t"
proof (induction rule: fixed_step.induct)
  case (allocate sz allocator b swept L junk mem p s)
  then obtain as fl k where inv: "fixed_inv allocator mem as fl k L" by (auto simp: fixed_ok_def)
  from fixed_allocate_inv [OF inv allocate(1) refl allocate(2), of junk] allocate(3)
  show ?case by (auto intro: fixed_okI)
next
  case (release p sz L s s')
  obtain allocator mem where s: "s = (allocator, mem)" by force
  then obtain as fl k where inv: "fixed_inv allocator mem as fl k L" using release by (auto simp: fixed_ok_def)
  from fixed_free_inv [OF inv release(1)] release(2) s show ?case by (auto intro: fixed_okI)
next
  case (use L mem' mem allocator)
  then obtain as fl k where inv: "fixed_inv allocator mem as fl k L" by (auto simp: fixed_ok_def)
  have "fixed_inv allocator mem' as fl k L" by (rule fixed_inv_use [OF inv use(1)])
  then show ?case by (rule fixed_okI)
qed

lemma fixed_start_ok: "fixed_start s \<Longrightarrow> fixed_ok s"
  using fixed_new_inv by (fastforce simp: fixed_start_def fixed_ok_def)

interpretation fx: machine fixed_start fixed_step fixed_ok
  by unfold_locales (auto intro: fixed_start_ok fixed_step_ok)

end
