(* ===== verification/Gc_Claims.thy ===== *)
theory Gc_Claims
  imports Gc_Fixed
begin

text \<open>
  What the allocators promise: which addresses a pool owns, what destroying it gives back,
  and the two properties of allocation that its clients rely on.
\<close>

section \<open>Ownership and destruction\<close>

lemma arena_objects_mod:
  assumes "0 < object_size pool"
  shows "x \<in> set (arena_objects pool b) \<longleftrightarrow> b + sizeof_arena \<le> x
    \<and> x < b + sizeof_arena + object_size pool * objects_per_alloc pool \<and> (x - (b + sizeof_arena)) mod object_size pool = 0"
proof
  assume "x \<in> set (arena_objects pool b)"
  then obtain i where i: "i < objects_per_alloc pool" "x = b + sizeof_arena + i * object_size pool" unfolding arena_objects_iff by blast
  then have "i * object_size pool < object_size pool * objects_per_alloc pool" using assms by (simp add: mult.commute)
  then show "b + sizeof_arena \<le> x \<and> x < b + sizeof_arena + object_size pool * objects_per_alloc pool
    \<and> (x - (b + sizeof_arena)) mod object_size pool = 0" using i by simp
next
  assume a: "b + sizeof_arena \<le> x \<and> x < b + sizeof_arena + object_size pool * objects_per_alloc pool
    \<and> (x - (b + sizeof_arena)) mod object_size pool = 0"
  then obtain i where i: "x - (b + sizeof_arena) = object_size pool * i" by (auto elim: dvdE simp: mod_eq_0_iff_dvd)
  then have "x = b + sizeof_arena + object_size pool * i" using a by linarith
  then have "x = b + sizeof_arena + i * object_size pool" by (simp only: mult.commute)
  moreover have "object_size pool * i < object_size pool * objects_per_alloc pool" using a i by linarith
  then have "i < objects_per_alloc pool" by simp
  ultimately show "x \<in> set (arena_objects pool b)" unfolding arena_objects_iff by blast
qed

lemma bounds_of_nth_high:
  "i < length as \<Longrightarrow> (bounds_of pool as @ rest) ! (2 * i + 1) = as ! i + sizeof_arena + object_size pool * objects_per_alloc pool"
proof (induction as arbitrary: i)
  case (Cons a as)
  show ?case
  proof (cases i)
    case (Suc j)
    then have "(bounds_of pool as @ rest) ! (2 * j + 1) = as ! j + sizeof_arena + object_size pool * objects_per_alloc pool"
      using Cons by simp
    then show ?thesis using Suc by (simp add: bounds_of_def)
  qed (simp add: bounds_of_def)
qed simp

lemma pool_is_owned_from_objects:
  assumes inv: "pool_inv pool mem as fl k L" and "p + n = length as"
  shows "pool_is_owned_from pool x n p = Some (\<exists>b \<in> set (drop p as). x \<in> set (arena_objects pool b))"
  using assms(2)
proof (induction n arbitrary: p)
  case (Suc n)
  have p: "p < length as" "Suc p + n = length as" using Suc.prems by simp_all
  obtain rest where b: "arena_bounds pool = bounds_of pool as @ rest" using inv unfolding pool_inv_def by blast
  have "rd (arena_bounds pool) (2 * p) = Some (as ! p + sizeof_arena)"
    "rd (arena_bounds pool) (2 * p + 1) = Some (as ! p + sizeof_arena + object_size pool * objects_per_alloc pool)"
    unfolding b using p bounds_of_nth [OF p(1)] bounds_of_nth_high [OF p(1)] by (simp_all add: rd_def)
  moreover have "drop p as = as ! p # drop (Suc p) as" using p(1) by (simp add: Cons_nth_drop_Suc)
  ultimately show ?case using Suc.IH [OF p(2)] arena_objects_mod [OF pool_invD(1) [OF inv], of x "as ! p"] by auto
qed simp

text \<open>A pool owns exactly the addresses of its objects.\<close>

lemma pool_is_owned_iff:
  assumes inv: "pool_inv pool mem as fl k L"
  shows "pool_is_owned pool x = Some (x \<in> pool_objects pool as)"
proof -
  have b: "lo_arena_ptr pool \<le> x \<and> x < hi_arena_ptr pool" if x: "x \<in> pool_objects pool as"
  proof -
    obtain b where o: "b \<in> set as" "x \<in> set (arena_objects pool b)" using x by (auto simp: pool_objects_def)
    then have "lo_arena_ptr pool \<le> b + sizeof_arena" "b + sizeof_arena + object_size pool * objects_per_alloc pool \<le> hi_arena_ptr pool"
      using inv unfolding pool_inv_def by blast+
    moreover have "b + sizeof_arena \<le> x \<and> x < b + sizeof_arena + object_size pool * objects_per_alloc pool"
      using o(2) arena_objects_mod [OF pool_invD(1) [OF inv]] by blast
    ultimately show ?thesis by linarith
  qed
  have "pool_is_owned_from pool x (num_arenas pool) 0 = Some (x \<in> pool_objects pool as)"
    using pool_is_owned_from_objects [OF inv, of 0 "num_arenas pool" x] pool_invD(5) [OF inv] by (simp add: pool_objects_def)
  then show ?thesis using b by (auto simp: pool_is_owned_def)
qed

text \<open>Destroying a pool gives back each of its arenas once, the newest first.\<close>

lemma destroy_linked: "linked mem p xs \<Longrightarrow> Parrot_gc_pool_destroy_from mem p = Some xs"
  by (induction xs arbitrary: p; subst Parrot_gc_pool_destroy_from.simps) auto

lemma Parrot_gc_pool_destroy_arenas:
  "pool_inv pool mem as fl k L \<Longrightarrow> Parrot_gc_pool_destroy pool mem = Some (rev as) \<and> distinct (rev as)"
  using destroy_linked [OF pool_invD(4)] pool_invD(2) by (auto simp: Parrot_gc_pool_destroy_def apart_def)

section \<open>Allocated blocks\<close>

lemma slot_bytes_ge:
  assumes "sz \<noteq> 0"
  shows "unat sz \<le> slot_bytes (size_index sz)"
proof -
  have "unat (sz - 1) = unat sz - 1" using assms by (metis One_nat_def Suc_n_not_le_n unat_eq_zero unat_minus_one)
  then have "size_index sz = (unat sz - 1) div 8" by (simp add: size_index_def sizeof_ptr_def unat_div)
  then show ?thesis by (simp add: slot_bytes_def sizeof_ptr_def)
qed

text \<open>
  C31. In every state that clients can reach, allocating a block of any size but 0
  succeeds, given fresh memory when an arena is needed; the block has at least the size
  asked for, lies in none of the blocks in use, of any size, and leaves them as they are;
  a run of the collector inside may free blocks, which are not in use any more.
\<close>

theorem Parrot_gc_fixed_allocator_allocate_safe:
  assumes "fixed_start s" "fixed_step\<^sup>*\<^sup>* s ((allocator, mem), L)" "sz \<noteq> 0"
    and "fixed_needs_arena allocator (size_index sz) \<longrightarrow> fixed_malloc_ok allocator (size_index sz) b \<and> fixed_can_sweep swept L"
  shows "\<exists>p allocator' mem'. Parrot_gc_fixed_allocator_allocate junk swept b (allocator, mem) sz = Some (p, allocator', mem')
    \<and> unat sz \<le> slot_bytes (size_index sz)
    \<and> (\<forall>(q, j) \<in> fixed_in_use allocator (size_index sz) swept L.
         {p..<p + slot_bytes (size_index sz)} \<inter> {q..<q + slot_bytes j} = {} \<and> (\<forall>a \<in> {q..<q + slot_bytes j}. mem' a = mem a))"
proof -
  let ?i = "size_index sz" and ?U = "fixed_in_use allocator (size_index sz) swept L"
  obtain as fl k where inv: "fixed_inv allocator mem as fl k L" using fx.reachable_inv [OF assms(2,1)] by (auto simp: fixed_ok_def)
  obtain p a' m' as' fl' k' where r: "Parrot_gc_fixed_allocator_allocate junk swept b (allocator, mem) sz = Some (p, a', m')"
    "fixed_inv a' m' as' fl' k' (insert (p, ?i) ?U)" "(p, ?i) \<notin> ?U"
    "\<forall>a. fixed_needs_arena allocator ?i \<and> a \<in> slot_range ?i b \<union> fst ` set swept \<or> m' a = mem a"
    using fixed_allocate_inv [OF inv assms(3) refl, of b swept junk] assms(4) by blast
  have "{p..<p + slot_bytes ?i} \<inter> {q..<q + slot_bytes j} = {} \<and> (\<forall>a \<in> {q..<q + slot_bytes j}. m' a = mem a)"
    if q: "(q, j) \<in> ?U" for q j
  proof -
    have L: "(q, j) \<in> L" using q by (auto simp: fixed_in_use_def split: if_splits)
    have "m' a = mem a" if a: "a \<in> {q..<q + slot_bytes j}" for a
    proof (rule ccontr)
      assume "m' a \<noteq> mem a"
      then have n: "fixed_needs_arena allocator ?i" "a \<in> slot_range ?i b \<union> fst ` set swept" using r(4) by auto
      then have ok: "fixed_malloc_ok allocator ?i b" "fixed_can_sweep swept L" using assms(4) by auto
      show False
      proof (cases "a \<in> slot_range ?i b")
        case True
        obtain c where c: "c \<in> set (as j)" "{q..<q + slot_bytes j} \<subseteq> slot_range j c"
          using slot_extent [OF fixed_invD(2) [OF inv, of j], of q] L by (auto simp: objects_in_def)
        then obtain pool where "slot allocator j = Some pool" "c \<in> set (arenas pool)"
          using slot_arenas [OF inv, of j] by (auto split: option.splits)
        then show False using ok(1) True c(2) a unfolding fixed_malloc_ok_def by blast
      next
        case False
        then obtain sz' where "(a, sz') \<in> set swept" using n(2) by auto
        then have s: "(a, size_index sz') \<in> set (swept_objects swept)" by (force simp: swept_objects_def)
        then have "(a, size_index sz') \<in> L" "(a, size_index sz') \<noteq> (q, j)"
          using ok(2) q n(1) by (auto simp: fixed_can_sweep_def fixed_in_use_def)
        from fixed_objects_apart [OF inv this(1) L this(2)] a show False by (auto simp: slot_bytes_def sizeof_ptr_def)
      qed
    qed
    moreover have "(p, ?i) \<noteq> (q, j)" using r(3) q by auto
    from fixed_objects_apart [OF r(2) _ _ this] q have "{p..<p + slot_bytes ?i} \<inter> {q..<q + slot_bytes j} = {}" by simp
    ultimately show ?thesis by blast
  qed
  then have "\<forall>(q, j) \<in> ?U. {p..<p + slot_bytes ?i} \<inter> {q..<q + slot_bytes j} = {} \<and> (\<forall>a \<in> {q..<q + slot_bytes j}. m' a = mem a)"
    by blast
  then show ?thesis using r(1) slot_bytes_ge [OF assms(3)] by blast
qed

theorem Parrot_gc_fixed_allocator_allocate_safe_witness:
  "\<exists>p allocator mem'. Parrot_gc_fixed_allocator_allocate (\<lambda>_. 0) [] 4096 (Parrot_gc_fixed_allocator_new, \<lambda>_. 0) 24 = Some (p, allocator, mem')
    \<and> 24 \<le> slot_bytes (size_index 24)"
proof -
  have "fixed_start ((Parrot_gc_fixed_allocator_new, \<lambda>_. 0), {})" by (auto simp: fixed_start_def)
  moreover have "fixed_malloc_ok Parrot_gc_fixed_allocator_new (size_index 24) 4096"
    by (simp add: fixed_malloc_ok_def slot_def Parrot_gc_fixed_allocator_new_def size_index_def sizeof_ptr_def slot_pool_def arena_size_def
        Parrot_gc_pool_new_def Let_def slot_bytes_def sizeof_arena_def GC_FIXED_SIZE_POOL_SIZE_def)
  moreover have "fixed_can_sweep [] {}" by (simp add: fixed_can_sweep_def swept_objects_def)
  ultimately show ?thesis
    using Parrot_gc_fixed_allocator_allocate_safe [OF _ rtranclp.rtrancl_refl, of Parrot_gc_fixed_allocator_new "\<lambda>_. 0" "{}" 24 4096 "[]" "\<lambda>_. 0"]
    by simp blast
qed

section \<open>Free objects come back\<close>

text \<open>The next \<open>n\<close> allocations of a client, and what they return.\<close>

fun pool_allocate_n :: "(nat \<Rightarrow> nat) \<Rightarrow> nat list \<Rightarrow> nat \<Rightarrow> nat \<Rightarrow> pool_allocator \<times> mem \<Rightarrow> (nat list \<times> pool_allocator \<times> mem) option" where
  "pool_allocate_n junk swept b 0 s = Some ([], s)"
| "pool_allocate_n junk swept b (Suc n) s =
     do { (p, s) \<leftarrow> pool_allocate junk swept b s; (ps, s) \<leftarrow> pool_allocate_n junk swept b n s; Some (p # ps, s) }"

lemma pool_allocate_n_fresh:
  assumes "pool_inv pool mem as [] k L"
  shows "\<exists>s. pool_allocate_n junk swept b k (pool, mem) = Some (fresh_objects pool k, s)"
  using assms
proof (induction k arbitrary: pool L)
  case (Suc k)
  have "free_list pool = 0" "\<not> newlast pool \<le> newfree pool" using pool_invD(1,3,6) [OF Suc.prems] by auto
  moreover obtain x pool' where g: "get_newfree_list_item pool = (x, pool')" "pool_inv pool' mem as [] k (insert x L)"
    using get_newfree_list_item_inv [OF Suc.prems] by blast
  moreover have "fresh_objects pool (Suc k) = x # fresh_objects pool' k"
    unfolding fresh_objects_Suc using g(1) by (auto simp: get_newfree_list_item_def Let_def fresh_objects_def)
  ultimately show ?case using Suc.IH [OF g(2)] by (auto simp: pool_allocate_def)
qed (simp add: fresh_objects_def)

lemma pool_allocate_n_free:
  assumes "pool_inv pool mem as fl k L"
  shows "\<exists>s. pool_allocate_n junk swept b (length fl + k) (pool, mem) = Some (fl @ fresh_objects pool k, s)"
  using assms
proof (induction fl arbitrary: pool L)
  case Nil
  then show ?case using pool_allocate_n_fresh by simp
next
  case (Cons x fl)
  have "free_list pool \<noteq> 0" using pool_invD(3) [OF Cons.prems] by auto
  moreover obtain pool' where g: "get_free_list_item pool mem = (x, pool')" "pool_inv pool' mem as fl k (insert x L)"
    using get_free_list_item_inv [OF Cons.prems] by blast
  moreover have "fresh_objects pool' k = fresh_objects pool k"
    using g(1) by (auto simp: get_free_list_item_def Let_def fresh_objects_def)
  ultimately show ?case using Cons.IH [OF g(2)] by (auto simp: pool_allocate_def)
qed

lemma pool_objects_bound:
  assumes inv: "pool_inv pool mem as fl k L"
  shows "pool_objects pool as \<subseteq> {1..<2 ^ 64}"
proof
  fix x assume x: "x \<in> pool_objects pool as"
  then obtain b where b: "b \<in> set as" "x \<in> set (arena_objects pool b)" by (auto simp: pool_objects_def)
  then have "x \<in> arena_range pool b" using arena_object_range extent_self [OF pool_invD(1) [OF inv]] by blast
  moreover have "b + arena_size pool < 2 ^ 64" using inv b(1) unfolding pool_inv_def by blast
  moreover have "x \<noteq> 0" by (rule pool_object_not_0 [OF pool_invD(9) [OF inv] x])
  ultimately show "x \<in> {1..<2 ^ 64}" by (simp add: arena_range_def)
qed

lemma num_free_objects_eq:
  assumes inv: "pool_inv pool mem as fl k L"
  shows "unat (num_free_objects pool) = length fl + k"
proof -
  have d: "distinct (fl @ fresh_objects pool k)" and s: "set (fl @ fresh_objects pool k) \<subseteq> pool_objects pool as"
    and n: "num_free_objects pool = of_nat (length fl + k)" using inv unfolding pool_inv_def by blast+
  have "length (fl @ fresh_objects pool k) = card (set (fl @ fresh_objects pool k))" using distinct_card [OF d] by simp
  also have "\<dots> \<le> card {1..<(2::nat) ^ 64}" by (rule card_mono) (use s pool_objects_bound [OF inv] in auto)
  finally have "length fl + k < 2 ^ 64" by (simp add: fresh_objects_def)
  then show ?thesis unfolding n by (intro unat_of_nat_small) simp
qed

text \<open>
  C32. Nothing is lost: whatever clients did, the next \<open>num_free_objects\<close> allocations need
  no memory and no collector, and hand out each object of the pool that is not in use
  exactly once, so every object that was given back is handed out again.
\<close>

theorem pool_allocate_free_objects:
  assumes "pool_start s" "pool_step\<^sup>*\<^sup>* s ((pool, mem), L)"
  shows "\<exists>ps s'. pool_allocate_n junk swept b (unat (num_free_objects pool)) (pool, mem) = Some (ps, s')
    \<and> distinct ps \<and> set ps = {p. pool_is_owned pool p = Some True} - L"
proof -
  obtain as fl k where inv: "pool_inv pool mem as fl k L" using pm.reachable_inv [OF assms(2,1)] by (auto simp: pool_ok_def)
  have d: "distinct (fl @ fresh_objects pool k)" "L \<inter> set (fl @ fresh_objects pool k) = {}"
    "L \<union> set (fl @ fresh_objects pool k) = pool_objects pool as" using inv unfolding pool_inv_def by blast+
  then have "set (fl @ fresh_objects pool k) = {p. pool_is_owned pool p = Some True} - L"
    unfolding pool_is_owned_iff [OF inv] by blast
  then show ?thesis using pool_allocate_n_free [OF inv, of junk swept b] d(1) unfolding num_free_objects_eq [OF inv] by blast
qed

text \<open>A pool of objects of 2048 bytes, one to an arena: taken and given back.\<close>

definition sample_pool :: pool_allocator where
  "sample_pool = Parrot_gc_pool_new (\<lambda>_. 0) 2048"

lemma sample_pool_free:
  "\<exists>pool mem. pool_step\<^sup>*\<^sup>* ((sample_pool, \<lambda>_. 0), {}) ((pool, mem), {}) \<and> num_free_objects pool = 1 \<and> pool_is_owned pool 4112 = Some True"
proof -
  have s: "object_size sample_pool = 2048" "objects_per_alloc sample_pool = 1" "needs_arena sample_pool" "arenas sample_pool = []"
    "free_list sample_pool = 0" "newfree sample_pool = 0" "newlast sample_pool = 0" "num_free_objects sample_pool = 0"
    "num_arenas sample_pool = 0" "arena_bounds sample_pool = map (\<lambda>_. 0) [0..<256]" "lo_arena_ptr sample_pool = 2 ^ 64 - 1"
    "hi_arena_ptr sample_pool = 0"
    by (simp_all add: sample_pool_def Parrot_gc_pool_new_def Let_def sizeof_ptr_def sizeof_arena_def GC_FIXED_SIZE_POOL_SIZE_def
        needs_arena_def arenas_def NEXT_ARENA_BOUNDS_SIZE_def ARENA_BOUNDS_PADDING_def)
  have ok: "malloc_ok sample_pool 4096"
    by (simp add: malloc_ok_def s arena_size_def Let_def sizeof_arena_def GC_FIXED_SIZE_POOL_SIZE_def)
  obtain pool1 mem1 where a: "pool_allocate (\<lambda>_. 0) [] 4096 (sample_pool, \<lambda>_. 0) = Some (4112, pool1, mem1)"
    "num_free_objects pool1 = 0" "object_size pool1 = 2048" "arena_bounds pool1 ! 0 = 4112" "arena_bounds pool1 ! 1 = 6160"
    "length (arena_bounds pool1) = 256" "num_arenas pool1 = 1" "lo_arena_ptr pool1 = 4112" "hi_arena_ptr pool1 = 6160"
    by (simp add: pool_allocate_def s allocate_new_pool_arena_def Let_def sizeof_arena_def realloc_words_def
        NEXT_ARENA_BOUNDS_SIZE_def ARENA_BOUNDS_PADDING_def sizeof_ptr_def get_newfree_list_item_def wr_def)
  have "pool_step ((sample_pool, \<lambda>_. 0), {}) ((pool1, mem1), insert 4112 (in_use sample_pool [] {}))"
    by (rule pool_step.allocate [where b = 4096]) (use ok a(1) in \<open>simp_all add: can_sweep_def\<close>)
  moreover have "pool_step ((pool1, mem1), {4112}) (pool_free (pool1, mem1) 4112, {4112} - {4112})" by (rule pool_step.release) simp
  moreover have "in_use sample_pool [] {} = {}" by (simp add: in_use_def)
  ultimately have "pool_step\<^sup>*\<^sup>* ((sample_pool, \<lambda>_. 0), {}) (pool_free (pool1, mem1) 4112, {})"
    by (metis Diff_cancel converse_rtranclp_into_rtranclp r_into_rtranclp)
  then show ?thesis using a by (auto simp: pool_free_def pool_is_owned_def)
qed

theorem pool_allocate_free_objects_witness:
  "\<exists>pool mem p s'. pool_step\<^sup>*\<^sup>* ((sample_pool, \<lambda>_. 0), {}) ((pool, mem), {}) \<and> pool_allocate_n (\<lambda>_. 0) [] 0 1 (pool, mem) = Some ([p], s')"
proof -
  obtain pool mem where r: "pool_step\<^sup>*\<^sup>* ((sample_pool, \<lambda>_. 0), {}) ((pool, mem), {})" "num_free_objects pool = 1"
    using sample_pool_free by blast
  have "pool_start ((sample_pool, \<lambda>_. 0), {})" by (auto simp: pool_start_def sample_pool_def)
  from pool_allocate_free_objects [OF this r(1), of "\<lambda>_. 0" "[]" 0] obtain ps s' where
    "pool_allocate_n (\<lambda>_. 0) [] 0 1 (pool, mem) = Some (ps, s')" using r(2) by auto
  moreover from this obtain p where "ps = [p]" by (auto simp: bind_eq_Some_conv)
  ultimately show ?thesis using r(1) by blast
qed

end
