(* ===== verification/Spec2Isabelle.thy ===== *)
theory Spec2Isabelle
  imports Imcc_Loops Imcc_Reg_Alloc_Claims Imcc_Symtab_Claims Parrot_Hash_Misc Str_Api_Claims Image_IO_Claims Util_Claims
    Gc_Claims
begin

text \<open>
  A verification library for the C core of Rakudo Star: the parts of the Parrot virtual
  machine (\<open>rakudo-star/parrot\<close>) that every Perl 6 program runs through.  Paths below are
  relative to that directory.

  The program.  IMCC compiles PIR to bytecode: it builds a control flow graph of each
  compilation unit, its dominators and its loops, on bit sets.  The runtime keeps data in
  hash tables, strings in seven encodings, and small objects in pools of the garbage
  collector.  Hash tables call the string functions for keys, strings call the tables of
  their encodings, and everything takes memory from the allocators.

  \<^bold>\<open>Foundations.\<close>  \<open>Parrot_Base\<close>: C memory as lists of cells, where an access outside is
  \<open>None\<close>, as is a failed assertion; \<open>outcome\<close> for functions that may throw.  Undefined
  behaviour is therefore a value, and a theorem that an operation returns is one about
  memory safety too.

  \<^bold>\<open>IMCC\<close>, \<open>compilers/imcc\<close>.  From \<open>sets.c\<close> and \<open>cfg.c\<close>, \<open>Imcc_Sets\<close>: bit sets, what each
  operation does to the elements, and where the byte loops lose some.  \<open>Imcc_Cfg\<close>: basic blocks with
  their lists of edges, adding and removing edges, dropping unreachable blocks.
  \<open>Imcc_Dominators\<close>: \<open>compute_dominators\<close> and its fixpoint.  \<open>Imcc_Frontiers\<close>: dominance
  frontiers.  \<open>Imcc_Loops\<close>: back edges, natural loops, preheaders and their order.
  From \<open>symreg.c\<close> and \<open>reg_alloc.c\<close>, \<open>Imcc_Symtab\<close>: symbols in a store, the hash of a unit's symbols
  and its doubling, lookups, labels and mangled names; \<open>Imcc_Symtab_Claims\<close>: a table is a map.
  \<open>Imcc_Reg_Alloc\<close>: statistics, the search for free registers and the coloring, on the tables
  and the bit sets; \<open>Imcc_Reg_Alloc_Claims\<close>: registers of a file do not share numbers.

  \<^bold>\<open>Hash tables\<close>, \<open>src/hash.c\<close> and \<open>include/parrot/hash.h\<close>.  \<open>Parrot_Hash\<close>: the store of
  buckets and the index behind it, chains, the free list, doubling.  \<open>Parrot_Hash_Rep\<close>: the
  representation invariant and that every operation keeps it; \<open>Parrot_Hash_Props\<close>: the
  contract, a multiset of entries, as a locale.  \<open>Parrot_Hash_Iter\<close>, \<open>Parrot_Hash_Claims\<close>:
  iteration and the main properties.  \<open>Parrot_Hash_Bulk\<close>: cloning and update.
  \<open>Parrot_Hash_Convert\<close>, \<open>Parrot_Hash_Misc\<close>: conversions of keys and values, marking, the hash
  functions.  \<open>Parrot_Hash_Freeze\<close>: freezing and thawing, with what they need of the image as
  a locale.  Functions of strings and PMCs are arguments there.

  \<^bold>\<open>Strings\<close>, \<open>src/string/encoding/\<close>, parts of \<open>src/string/api.c\<close>, \<open>include/parrot/string.h\<close>.
  \<open>Str_Base\<close>: headers, iterators, the Unicode macros of \<open>unicode.h\<close>.  \<open>Str_Utf8\<close>, \<open>Str_Utf16\<close>,
  \<open>Str_Fixed\<close>: decoding, encoding, moving, scanning, in the order of \<open>utf8.c\<close>, \<open>utf16.c\<close> and
  the fixed-width encodings (\<open>ascii.c\<close>, \<open>latin1.c\<close>, \<open>binary.c\<close>, \<open>ucs2.c\<close>, \<open>ucs4.c\<close>).
  \<open>Str_Scan\<close>: the loop shared by the scanners.  \<open>Str_Encoding\<close>: the laws of an encoding as a
  locale, interpreted by all of them; \<open>Str_Vtable\<close>: the tables of functions, dispatch, and
  \<open>chars s cs\<close>, that \<open>s\<close> is well-formed with the code points \<open>cs\<close>.  \<open>Str_Shared\<close>: equality,
  order, hashing and search; \<open>Str_Convert\<close>: copies, substrings and conversions.  The
  theories ending in \<open>_Rep\<close> prove what these do to code points, once for all encodings;
  \<open>Str_Claims\<close> states the properties.  The string API on top, \<open>src/string/api.c\<close>: \<open>Str_Api\<close>
  (concatenation, repetition, replacement, chopping, bitwise operations), \<open>Str_Number\<close>
  (reading and printing integers), \<open>Str_Escape\<close> (escaping and unescaping; the fuel of the
  latter, the length of the source, is enough as every round reads a character), and
  \<open>Str_Api_Claims\<close>: what these do to code points, round trips, error paths.

  \<^bold>\<open>Packfiles and images\<close>.  From \<open>src/packfile/pf_items.c\<close>, \<open>Pack_Items\<close>: words and strings in
  bytecode, the transforms between byte orders and word sizes; \<open>Pack_Items_Rep\<close>,
  \<open>Pack_Claims\<close>: what one machine writes any other reads.  From \<open>src/pmc/imageiofreeze.pmc\<close> and
  \<open>imageiothaw.pmc\<close>, \<open>Image_IO\<close>: integers, strings and references to PMCs pushed to an image
  and shifted from it; \<open>Image_IO_Rep\<close>: the bytes of every item, and the two classes as an
  instance of the locale of \<open>Parrot_Hash_Freeze\<close>; \<open>Image_IO_Claims\<close>: a table frozen to bytes
  and thawed from them.

  \<^bold>\<open>Utilities\<close>, \<open>src/utils.c\<close>.  \<open>Util_Sort\<close>: the in-place quicksort, its comparison an
  argument; \<open>stack\<close> bounds the nesting of its calls, and one per element is enough.
  \<open>Util_Random\<close>: the 48-bit generator, whose \<open>int\<close> products wrap at 32 bits, and \<open>intval_mod\<close>.
  \<open>Util_Search\<close>: forward and backward search in bytes.  \<open>Util_Claims\<close> states the properties.

  \<^bold>\<open>Allocators\<close>, \<open>src/gc/fixed_allocator.c\<close>.  \<open>Gc_Pool\<close>: pools, arenas, free lists and the
  allocator of all sizes.  \<open>Gc_Pool_Rep\<close>: what a pool in use looks like.  \<open>Gc_Pool_Steps\<close> and
  \<open>Gc_Fixed\<close>: pools and their clients as step relations, with the invariants of reachable
  states; \<open>Gc_Claims\<close>: ownership, destruction, safety and liveness of allocation.

  \<^bold>\<open>Bounds.\<close>  Machine words are 64 bits, \<open>INTVAL\<close> two's complement, memory little-endian.
  Sizes and positions in memory are natural numbers, with the limits that theorems need as
  hypotheses (fewer than \<open>2 ^ 62\<close> entries of a table, arenas below address \<open>2 ^ 64\<close>, images
  below \<open>2 ^ 30\<close> bytes, where \<open>ensure_buffer_size\<close> counts in an \<open>int\<close>).  The \<open>int\<close> that counts the
  arenas of a pool is a natural number, which matters from \<open>2 ^ 30\<close> arenas in one pool.  Loops
  are structural recursions on what is left to do; those that follow pointers are partial
  functions in the option monad, and that they end on well-formed structures is proved.

  \<^bold>\<open>Not modelled.\<close>  Generated code (\<open>core_ops.c\<close>, \<open>imclexer.c\<close>, \<open>imcparser.c\<close>, the NCI thunks)
  and third-party code (\<open>malloc.c\<close>, \<open>nqp/3rdparty\<close>), which have no logic of this program's
  own.  The collectors: they walk the C stack; what a run of one frees is an argument of
  the allocators.  PMCs and everything written as VTABLE calls on them: their bodies are in
  another language.  Input, output and the platform layer.  Of IMCC, \<open>build_cfg\<close>'s
  linking of instructions, the use chains of symbols, constants and calls in the symbol
  tables, the optimizer and code generation; of strings, character
  classes and case (which need ICU), formatting, floating point, conversion to strings of
  the platform, joining and splitting (arrays are PMCs); of \<open>utils.c\<close>, what works on floats,
  dates and PMCs.  Flags of string headers and shared storage: a copy of a string is the
  same value.  Of packfiles, floating point numbers, headers, directories and segments; of
  images, floats, references to the constants of a packfile, and the loops that visit the
  PMCs, which are VTABLE calls.

  \<^bold>\<open>Open.\<close>  IMCC's optimizer, and multiple dispatch in NQP and Rakudo are in C and have logic of their own; they are not modelled yet.
\<close>

end
